(* ===== verification/Prelude.thy ===== *)
theory Prelude
  imports Main "HOL-Library.Word" "HOL-Library.Sublist"
begin

text \<open>
  Shared vocabulary of the development: the machine integers of the x86_64 target
  (\<open>usize\<close> and \<open>u64\<close> are 64 bits wide), Rust's \<open>is_power_of_two\<close>, the masked ring index
  \<open>i & (CAPACITY - 1)\<close> and the facts about wrapping counters that every component uses.
  A counter that the program keeps in a \<open>usize\<close> is related to the unbounded number of
  operations it counts by \<open>of_nat\<close>; the lemmas here say when a wrapping comparison of two
  such counters agrees with the comparison of the unbounded ones.
\<close>

unbundle bit_operations_syntax

named_theorems word_counter \<open>facts about counters kept modulo 2 ^ 64\<close>

type_synonym usize = "64 word"
type_synonym u64 = "64 word"

section \<open>Powers of two and masked ring indices\<close>

text \<open>\<open>usize::is_power_of_two\<close>: true iff the value is 2 ^ k for some k.\<close>

definition is_power_of_two :: "usize \<Rightarrow> bool" where
  "is_power_of_two c \<longleftrightarrow> list_ex (\<lambda>k. unat c = 2 ^ k) [0..<64]"

lemma is_power_of_two_iff: "is_power_of_two c \<longleftrightarrow> (\<exists>k<64. unat c = 2 ^ k)"
  by (auto simp: is_power_of_two_def list_ex_iff)

lemma power_of_twoE:
  assumes "is_power_of_two c"
  obtains k where "k < 64" "unat c = 2 ^ k" "c = 2 ^ k"
proof -
  from assms obtain k where k: "k < 64" "unat c = 2 ^ k"
    by (auto simp: is_power_of_two_iff)
  then have "c = of_nat (2 ^ k)"
    by (metis of_nat_unat ucast_id)
  then have "c = 2 ^ k" by simp
  with k show thesis by (rule that)
qed

lemma power_of_two_pos: "is_power_of_two c \<Longrightarrow> 0 < unat c"
  by (auto elim: power_of_twoE)

lemma power_of_two_bound: "is_power_of_two c \<Longrightarrow> unat c \<le> 2 ^ 63"
proof (erule power_of_twoE)
  fix k :: nat assume "k < 64" "unat c = 2 ^ k"
  then have "(2::nat) ^ k \<le> 2 ^ 63" by (intro power_increasing) auto
  with \<open>unat c = 2 ^ k\<close> show ?thesis by simp
qed

lemma power_of_two_dvd: "is_power_of_two c \<Longrightarrow> unat c dvd 2 ^ 64"
proof (erule power_of_twoE)
  fix k :: nat assume "k < 64" "unat c = 2 ^ k"
  then show ?thesis by (metis le_imp_power_dvd less_imp_le_nat)
qed

text \<open>The slot index of position \<open>i\<close> in a ring of \<open>c\<close> slots.\<close>

definition slot_index :: "usize \<Rightarrow> usize \<Rightarrow> nat" where
  "slot_index c i = unat (i AND (c - 1))"

lemma slot_index_mod: "is_power_of_two c \<Longrightarrow> slot_index c i = unat i mod unat c"
proof (erule power_of_twoE)
  fix k :: nat assume k: "k < 64" "unat c = 2 ^ k" "c = 2 ^ k"
  have "i AND (c - 1) = take_bit k i"
    by (simp add: k(3) take_bit_eq_mask mask_eq_exp_minus_1)
  then have "slot_index c i = take_bit k (unat i)"
    using k(1) by (simp add: slot_index_def unsigned_take_bit_eq)
  then show ?thesis by (simp add: k(2) take_bit_eq_mod)
qed

lemma slot_index_less: "is_power_of_two c \<Longrightarrow> slot_index c i < unat c"
  by (simp add: slot_index_mod power_of_two_pos)

lemma unat_of_nat_usize: "unat (of_nat n :: usize) = n mod 2 ^ 64"
  by (simp add: unat_of_nat)

text \<open>
  A counter that has wrapped still addresses the slot of the unbounded position, because
  the capacity divides 2 ^ 64.
\<close>

lemma slot_index_of_nat [word_counter]:
  "is_power_of_two c \<Longrightarrow> slot_index c (of_nat n) = n mod unat c"
  by (simp only: slot_index_mod unat_of_nat_usize mod_mod_cancel power_of_two_dvd)

section \<open>Wrapping counters\<close>

lemma of_nat_eq_iff_near [word_counter]:
  fixes a b :: nat
  assumes "a \<le> b" "b - a < 2 ^ 64"
  shows "(of_nat a :: usize) = of_nat b \<longleftrightarrow> a = b"
proof
  assume eq: "(of_nat a :: usize) = of_nat b"
  have "(of_nat (b - a) :: usize) = of_nat b - of_nat a"
    using assms(1) by (simp add: of_nat_diff)
  with eq have "unat (of_nat (b - a) :: usize) = 0" by simp
  then have "(b - a) mod 2 ^ 64 = 0" by (simp only: unat_of_nat_usize)
  with assms(2) have "b - a = 0" by simp
  with assms(1) show "a = b" by simp
qed simp

lemma wrapping_sub_of_nat [word_counter]:
  fixes a b :: nat
  assumes "a \<le> b" "b - a < 2 ^ 64"
  shows "unat ((of_nat b :: usize) - of_nat a) = b - a"
proof -
  have "(of_nat b :: usize) - of_nat a = of_nat (b - a)"
    using assms(1) by (simp add: of_nat_diff)
  with assms(2) show ?thesis by (simp only: unat_of_nat_usize mod_less)
qed

lemma wrapping_sub_eq_iff [word_counter]:
  fixes a b :: nat and c :: usize
  assumes "a \<le> b" "b - a \<le> 2 ^ 63"
  shows "(of_nat b :: usize) - of_nat a = c \<longleftrightarrow> b - a = unat c"
proof -
  from assms have "b - a < 2 ^ 64" by simp
  with assms(1) have "unat ((of_nat b :: usize) - of_nat a) = b - a"
    by (rule wrapping_sub_of_nat)
  then show ?thesis by (metis unsigned_word_eqI)
qed

lemma of_nat_Suc_word [word_counter]: "(of_nat n :: usize) + 1 = of_nat (Suc n)"
  by simp

lemma of_nat_pred_word:
  "1 \<le> n \<Longrightarrow> (of_nat (n - 1) :: usize) + 1 = of_nat n"
  "2 \<le> n \<Longrightarrow> (of_nat (n - 2) :: usize) + 2 = of_nat n"
  by (simp_all add: of_nat_diff)

text \<open>The parity test \<open>s & 1 == 1\<close> of the sequence counters.\<close>

lemma and_1_of_nat [word_counter]: "(of_nat n :: u64) AND 1 = 1 \<longleftrightarrow> odd n"
proof -
  have "even (of_nat n :: u64) \<longleftrightarrow> even n" by transfer simp
  moreover have "(of_nat n :: u64) AND 1 = of_nat n mod 2" by (simp add: and_one_eq)
  ultimately show ?thesis by (metis odd_iff_mod_2_eq_one)
qed

section \<open>Lists\<close>

lemma nth_append_last [simp]: "n = length xs \<Longrightarrow> (xs @ [x]) ! n = x"
  by simp

lemma nth_append_left [simp]: "n < length xs \<Longrightarrow> (xs @ ys) ! n = xs ! n"
  by (simp add: nth_append)

lemma map_nth_upt: "j \<le> length xs \<Longrightarrow> map ((!) xs) [i..<j] = drop i (take j xs)"
  by (intro nth_equalityI) auto

lemma map_nth_upt_append: "j \<le> length xs \<Longrightarrow> map ((!) (xs @ ys)) [i..<j] = map ((!) xs) [i..<j]"
  by (intro map_cong) auto

lemma prefix_nth: "prefix xs ys \<Longrightarrow> i < length xs \<Longrightarrow> ys ! i = xs ! i"
  by (auto simp: prefix_def)

text \<open>Two positions of a window no longer than the ring occupy different slots.\<close>

lemma mod_eq_window:
  fixes i j c :: nat
  assumes "i \<le> j" "j < i + c" "i mod c = j mod c"
  shows "i = j"
proof -
  from assms(1,3) have "c dvd j - i" by (metis mod_eq_dvd_iff_nat)
  moreover from assms(1,2) have "j - i < c" by arith
  ultimately have "j - i = 0" by (metis dvd_imp_le gr0I leD)
  with assms(1) show ?thesis by simp
qed

text \<open>Reading a projection of the result of a closed run.\<close>

lemma map_run_iff:
  "map_option (map_sum id f) x = Some (Inr y) \<longleftrightarrow> (\<exists>c. x = Some (Inr c) \<and> f c = y)"
proof (cases x)
  case (Some r)
  then show ?thesis by (cases r) auto
qed simp

section \<open>How often a slot has been used\<close>

text \<open>\<open>visits c j n\<close>: how many of the positions below \<open>n\<close> fall on slot \<open>j\<close> of \<open>c\<close> slots.\<close>

fun visits :: "nat \<Rightarrow> nat \<Rightarrow> nat \<Rightarrow> nat" where
  "visits c j 0 = 0"
| "visits c j (Suc n) = (if n mod c = j then Suc (visits c j n) else visits c j n)"

lemma visits_mono: "m \<le> n \<Longrightarrow> visits c j m \<le> visits c j n"
  by (induction n) (auto simp: le_Suc_eq)

lemma visits_closed: "j < c \<Longrightarrow> visits c j n = (n + (c - Suc j)) div c"
proof (induction n)
  case 0
  then show ?case by simp
next
  case (Suc n)
  have "(Suc (n + (c - Suc j))) div c =
      (if c dvd Suc (n + (c - Suc j)) then Suc ((n + (c - Suc j)) div c) else (n + (c - Suc j)) div c)"
    by (simp add: div_Suc dvd_eq_mod_eq_0)
  moreover have "c dvd Suc (n + (c - Suc j)) \<longleftrightarrow> n mod c = j"
  proof -
    have eq: "Suc (n + (c - Suc j)) = n + (c - j)" using Suc.prems by simp
    have "c dvd n + (c - j) \<longleftrightarrow> int c dvd int n - int j + int c"
      using Suc.prems by (simp add: of_nat_diff algebra_simps flip: int_dvd_int_iff)
    also have "\<dots> \<longleftrightarrow> int c dvd int n - int j" by simp
    also have "\<dots> \<longleftrightarrow> int n mod int c = int j mod int c" by (simp add: mod_eq_dvd_iff)
    also have "\<dots> \<longleftrightarrow> n mod c = j mod c" by (metis of_nat_eq_iff of_nat_mod)
    finally have "c dvd n + (c - j) \<longleftrightarrow> n mod c = j" using Suc.prems by simp
    with eq show ?thesis by (simp only:)
  qed
  ultimately show ?case using Suc by simp
qed

lemma visits_self: "0 < c \<Longrightarrow> visits c (n mod c) n = n div c"
proof -
  assume c: "0 < c"
  have "n + (c - Suc (n mod c)) = (c - 1) + c * (n div c)"
    using mod_less_divisor [OF c, of n] mult_div_mod_eq [of c n] by linarith
  then have "(n + (c - Suc (n mod c))) div c = ((c - 1) + c * (n div c)) div c"
    by (simp only:)
  also have "\<dots> = n div c + (c - 1) div c"
    by (rule div_mult_self2) (use c in simp)
  finally show ?thesis using c by (simp add: visits_closed)
qed

text \<open>Within one lap of position \<open>n\<close>, its slot is not used again.\<close>

lemma visits_within_lap:
  assumes "0 < c" "m \<le> n" "n < m + c"
  shows "visits c (n mod c) m = n div c"
proof (rule antisym)
  show "visits c (n mod c) m \<le> n div c"
    using visits_mono [OF assms(2), of c "n mod c"] by (simp add: visits_self assms(1))
  show "n div c \<le> visits c (n mod c) m"
  proof (cases "c \<le> n")
    case True
    have "visits c (n mod c) (Suc (n - c)) = Suc (visits c ((n - c) mod c) (n - c))"
      using True by (simp add: le_mod_geq)
    also have "\<dots> = n div c"
      using True assms(1) by (simp add: visits_self le_div_geq)
    finally show ?thesis
      using visits_mono [of "Suc (n - c)" m c "n mod c"] assms True by simp
  next
    case False
    then show ?thesis by simp
  qed
qed

text \<open>The last position of a slot below \<open>n\<close>, from the number of its visits.\<close>

lemma visits_pos:
  assumes "j < c" "visits c j n = Suc k"
  shows "j + k * c < n" "n \<le> j + k * c + c"
proof -
  have v: "(n + (c - Suc j)) div c = Suc k" using assms by (simp add: visits_closed)
  have c: "0 < c" using assms(1) by simp
  have "Suc k * c \<le> n + (c - Suc j)" "n + (c - Suc j) < Suc k * c + c"
    using div_mod_decomp [of "n + (c - Suc j)" c] mod_less_divisor [OF c, of "n + (c - Suc j)"] v
    by simp_all
  with assms(1) show "j + k * c < n" "n \<le> j + k * c + c" by simp_all
qed

lemma visits_pos_eq:
  assumes "0 < c" "p < n"
  shows "\<exists>k. visits c (p mod c) n = Suc k \<and> p div c \<le> k"
proof -
  have "Suc (p div c) = visits c (p mod c) (Suc p)" by (simp add: visits_self assms(1))
  also have "\<dots> \<le> visits c (p mod c) n" using assms(2) by (intro visits_mono) simp
  finally show ?thesis by (cases "visits c (p mod c) n") auto
qed

text \<open>Position \<open>r\<close> is still the last one of its slot iff the log is at most one lap longer.\<close>

lemma last_visit_iff:
  assumes "0 < c" "visits c (r mod c) n = Suc k" "r div c \<le> k"
  shows "r mod c + k * c = r \<longleftrightarrow> n \<le> r + c" "r \<le> r mod c + k * c"
proof -
  have j: "r mod c < c" using assms(1) by simp
  note p = visits_pos [OF j assms(2)]
  have r: "r = r mod c + r div c * c" by simp
  show "r \<le> r mod c + k * c" using assms(3) by (metis r add_left_mono mult_le_mono1)
  show "r mod c + k * c = r \<longleftrightarrow> n \<le> r + c"
  proof
    assume "r mod c + k * c = r" with p(2) show "n \<le> r + c" by simp
  next
    assume n: "n \<le> r + c"
    show "r mod c + k * c = r"
    proof (rule ccontr)
      assume "r mod c + k * c \<noteq> r"
      then have "r div c \<noteq> k" using r by metis
      with assms(3) have "Suc (r div c) \<le> k" by simp
      then have "Suc (r div c) * c \<le> k * c" by (rule mult_le_mono1)
      then have "c + r div c * c \<le> k * c" by simp
      with p(1) n r show False by linarith
    qed
  qed
qed

lemma sorted_wrt_subseq: "subseq xs ys \<Longrightarrow> sorted_wrt P ys \<Longrightarrow> sorted_wrt P xs"
proof (induction rule: list_emb.induct)
  case (list_emb_Cons2 x y xs ys)
  then show ?case using list_emb_set [of "(=)" xs ys] by auto
qed auto

end
