(* ===== verification/Mem.thy ===== *)
theory Mem
  imports Prelude
begin

text \<open>
  The allocation layer, \<open>src/src/mem.rs\<close>: hugepage sizes and their \<open>mmap\<close> flags, the two
  allocators behind the \<open>Allocator\<close> trait and the loom allocator of the tests. The operating
  system and libc are parameters: \<open>libc_consts\<close> holds the constants, \<open>sys\<close> the calls, each an
  arbitrary function. A panic, an abort or undefined behaviour is a value of \<open>fault\<close>.
  The interface \<open>slot_allocator\<close> states what the queues rely on (as many cells as asked for,
  none initialised) and is interpreted on each allocator.
\<close>

section \<open>Faults\<close>

datatype fault =
    CapacityNotPowerOfTwo   \<comment> \<open>the compile-time assertion of \<open>new\<close>\<close>
  | LayoutOverflow          \<comment> \<open>panic of \<open>Layout::array\<close>\<close>
  | AllocError              \<comment> \<open>\<open>handle_alloc_error\<close>\<close>
  | MmapFailed
  | MlockFailed
  | MunmapFailed
  | ZeroSizeAlloc           \<comment> \<open>\<open>alloc::alloc\<close> on a layout of size 0: undefined behaviour\<close>
  | OutOfBounds             \<comment> \<open>a slot pointer outside the allocation: undefined behaviour\<close>
  | UninitRead              \<comment> \<open>a read of a cell that holds no value: undefined behaviour\<close>
  | DataRace                \<comment> \<open>unordered non-atomic accesses: undefined behaviour\<close>

section \<open>Layouts\<close>

record layout =
  lay_size :: usize
  lay_align :: usize

definition isize_max :: usize where
  "isize_max = 2 ^ 63 - 1"

text \<open>
  \<open>Layout::array::<T>(n)\<close> of the standard library, for an element of the given size and
  alignment: an error when the array is larger than \<open>isize::MAX\<close> after rounding up to the
  alignment.
\<close>

definition layout_array :: "usize \<Rightarrow> usize \<Rightarrow> usize \<Rightarrow> layout option" where
  "layout_array esize align n =
     (if esize \<noteq> 0 \<and> n > (isize_max + 1 - align) div esize then None
      else Some \<lparr>lay_size = esize * n, lay_align = align\<rparr>)"

section \<open>Hugepage sizes\<close>

datatype hugepage_size =
  H64KB | H512KB | H1MB | H2MB | H8MB | H16MB | H32MB | H256MB | H512MB

fun as_usize_bytes :: "hugepage_size \<Rightarrow> usize" where
  "as_usize_bytes H64KB = 64 * 1024"
| "as_usize_bytes H512KB = 512 * 1024"
| "as_usize_bytes H1MB = 1024 * 1024"
| "as_usize_bytes H2MB = 2 * 1024 * 1024"
| "as_usize_bytes H8MB = 8 * 1024 * 1024"
| "as_usize_bytes H16MB = 16 * 1024 * 1024"
| "as_usize_bytes H32MB = 32 * 1024 * 1024"
| "as_usize_bytes H256MB = 256 * 1024 * 1024"
| "as_usize_bytes H512MB = 512 * 1024 * 1024"

type_synonym c_int = "32 word"

record libc_consts =
  map_huge_64kb :: c_int
  map_huge_512kb :: c_int
  map_huge_1mb :: c_int
  map_huge_2mb :: c_int
  map_huge_8mb :: c_int
  map_huge_16mb :: c_int
  map_huge_32mb :: c_int
  map_huge_256mb :: c_int
  map_huge_512mb :: c_int
  prot_read :: c_int
  prot_write :: c_int
  map_populate :: c_int
  map_private :: c_int
  map_anonymous :: c_int
  map_hugetlb :: c_int
  map_failed :: usize

fun as_mmap_size_flag :: "libc_consts \<Rightarrow> hugepage_size \<Rightarrow> c_int" where
  "as_mmap_size_flag l H64KB = map_huge_64kb l"
| "as_mmap_size_flag l H512KB = map_huge_512kb l"
| "as_mmap_size_flag l H1MB = map_huge_1mb l"
| "as_mmap_size_flag l H2MB = map_huge_2mb l"
| "as_mmap_size_flag l H8MB = map_huge_8mb l"
| "as_mmap_size_flag l H16MB = map_huge_16mb l"
| "as_mmap_size_flag l H32MB = map_huge_32mb l"
| "as_mmap_size_flag l H256MB = map_huge_256mb l"
| "as_mmap_size_flag l H512MB = map_huge_512mb l"

text \<open>
  The kernel's documented encoding of \<open>MAP_HUGE_*\<close> (mmap(2)): the base-2 logarithm of the
  page size, shifted left by \<open>MAP_HUGE_SHIFT\<close> = 26.
\<close>

definition linux_consts :: "libc_consts \<Rightarrow> bool" where
  "linux_consts l \<longleftrightarrow>
     map_huge_64kb l = push_bit 26 16 \<and> map_huge_512kb l = push_bit 26 19 \<and>
     map_huge_1mb l = push_bit 26 20 \<and> map_huge_2mb l = push_bit 26 21 \<and>
     map_huge_8mb l = push_bit 26 23 \<and> map_huge_16mb l = push_bit 26 24 \<and>
     map_huge_32mb l = push_bit 26 25 \<and> map_huge_256mb l = push_bit 26 28 \<and>
     map_huge_512mb l = push_bit 26 29 \<and> map_failed l = - 1"

section \<open>Regions and the allocators\<close>

text \<open>
  \<open>Allocation<T>\<close>: the base pointer and the cells it points to (\<open>None\<close> for a cell that
  holds no value). Each implementor adds what its \<open>Drop\<close> needs.
\<close>

record 'a region =
  base :: usize
  cells :: "'a option list"

record 'a global_allocation = "'a region" +
  g_layout :: layout

record 'a hugepage_allocation = "'a region" +
  h_length :: usize

record 'a loom_allocation = "'a region" +
  l_capacity :: usize

text \<open>The operating system: \<open>sys_alloc\<close> is the process's global allocator.\<close>

record sys =
  sys_alloc :: "layout \<Rightarrow> usize"
  sys_mmap :: "usize \<Rightarrow> usize \<Rightarrow> c_int \<Rightarrow> c_int \<Rightarrow> c_int \<Rightarrow> int \<Rightarrow> usize"
  sys_mlock :: "usize \<Rightarrow> usize \<Rightarrow> c_int"
  sys_munmap :: "usize \<Rightarrow> usize \<Rightarrow> c_int"

record global_options =
  g_mlock :: bool

record hugepage_options =
  h_mlock :: bool
  h_size :: hugepage_size

text \<open>
  \<open>GlobalAllocator::allocate\<close>. \<open>alloc::alloc\<close> requires a layout of non-zero size; the code
  does not check it, so that case is undefined behaviour.
\<close>

definition global_allocate ::
  "sys \<Rightarrow> usize \<Rightarrow> usize \<Rightarrow> usize \<Rightarrow> global_options \<Rightarrow> fault + 'a global_allocation" where
  "global_allocate os esize align items opts =
     (case layout_array esize align items of
        None \<Rightarrow> Inl LayoutOverflow
      | Some lay \<Rightarrow>
          if lay_size lay = 0 then Inl ZeroSizeAlloc
          else let ptr = sys_alloc os lay in
            if ptr = 0 then Inl AllocError
            else if g_mlock opts \<and> sys_mlock os ptr (lay_size lay) = - 1 then Inl MlockFailed
            else Inr \<lparr>base = ptr, cells = replicate (unat items) None, g_layout = lay\<rparr>)"

text \<open>The \<open>dealloc\<close> of a global allocation gives back the layout it was allocated with.\<close>

definition global_drop :: "'a global_allocation \<Rightarrow> usize \<times> layout" where
  "global_drop a = (base a, g_layout a)"

definition round_up_to_page :: "usize \<Rightarrow> usize \<Rightarrow> usize" where
  "round_up_to_page n page_size = (n + page_size - 1) AND NOT (page_size - 1)"

definition hugepage_allocate ::
  "libc_consts \<Rightarrow> sys \<Rightarrow> usize \<Rightarrow> usize \<Rightarrow> usize \<Rightarrow> hugepage_options \<Rightarrow>
     fault + 'a hugepage_allocation" where
  "hugepage_allocate lc os esize align items opts =
     (case layout_array esize align items of
        None \<Rightarrow> Inl LayoutOverflow
      | Some lay \<Rightarrow>
          let page_size = as_usize_bytes (h_size opts);
              alloc_size = round_up_to_page (lay_size lay) page_size;
              ptr = sys_mmap os 0 alloc_size (prot_read lc OR prot_write lc)
                (map_populate lc OR map_private lc OR map_anonymous lc OR map_hugetlb lc
                   OR as_mmap_size_flag lc (h_size opts)) (- 1) 0
          in if ptr = map_failed lc then Inl MmapFailed
             else if h_mlock opts \<and> sys_mlock os ptr alloc_size = - 1 then Inl MlockFailed
             else Inr \<lparr>base = ptr, cells = replicate (unat items) None, h_length = alloc_size\<rparr>)"

definition hugepage_drop :: "sys \<Rightarrow> 'a hugepage_allocation \<Rightarrow> fault + unit" where
  "hugepage_drop os a =
     (if sys_munmap os (base a) (h_length a) = - 1 then Inl MunmapFailed else Inr ())"

text \<open>
  The loom allocator of the tests pushes one uninitialised cell per item on a \<open>Vec\<close>; the
  pointer of the \<open>Vec\<close> is a parameter.
\<close>

fun loom_fill :: "nat \<Rightarrow> 'a option list \<Rightarrow> 'a option list" where
  "loom_fill 0 buffer = buffer"
| "loom_fill (Suc n) buffer = loom_fill n (buffer @ [None])"

definition loom_allocate :: "(usize \<Rightarrow> usize) \<Rightarrow> usize \<Rightarrow> unit \<Rightarrow> fault + 'a loom_allocation" where
  "loom_allocate as_mut_ptr items _ =
     Inr \<lparr>base = as_mut_ptr items, cells = loom_fill (unat items) [], l_capacity = items\<rparr>"

text \<open>Its \<open>Drop\<close> makes the \<open>Vec\<close> again: the pointer, the length and the capacity.\<close>

definition loom_drop :: "'a loom_allocation \<Rightarrow> usize \<times> usize \<times> usize" where
  "loom_drop a = (base a, l_capacity a, l_capacity a)"

datatype backing_allocation = Global | Hugepages hugepage_size

text \<open>A system on which every call succeeds, for concrete runs.\<close>

definition demo_os :: sys where
  "demo_os = \<lparr>sys_alloc = (\<lambda>_. 4096), sys_mmap = (\<lambda>_ _ _ _ _ _. 8192), sys_mlock = (\<lambda>_ _. 0),
     sys_munmap = (\<lambda>_ _. 0)\<rparr>"

section \<open>The interface the queues rely on\<close>

locale slot_allocator =
  fixes allocate :: "usize \<Rightarrow> 'o \<Rightarrow> fault + ('a, 'z) region_scheme"
  assumes allocate_cells: "allocate items opts = Inr a \<Longrightarrow> cells a = replicate (unat items) None"
begin

lemma allocate_length: "allocate items opts = Inr a \<Longrightarrow> length (cells a) = unat items"
  by (simp add: allocate_cells)

lemma allocate_uninit: "allocate items opts = Inr a \<Longrightarrow> i < unat items \<Longrightarrow> cells a ! i = None"
  by (simp add: allocate_cells)

end

interpretation galloc: slot_allocator "global_allocate os esize align" for os esize align
  by unfold_locales (auto simp: global_allocate_def Let_def split: option.splits if_splits)

interpretation halloc: slot_allocator "hugepage_allocate lc os esize align" for lc os esize align
  by unfold_locales (auto simp: hugepage_allocate_def Let_def split: option.splits if_splits)

lemma loom_fill_eq: "loom_fill n buffer = buffer @ replicate n None"
  by (induction n arbitrary: buffer) (simp_all add: replicate_app_Cons_same)

interpretation lalloc: slot_allocator "loom_allocate ptr" for ptr
  by unfold_locales (auto simp: loom_allocate_def loom_fill_eq)

text \<open>A loom allocation is dropped with the pointer and the length of the buffer it was made from.\<close>

lemma loom_drop_gives_back:
  "loom_allocate as_mut_ptr items opts = Inr (a :: 'a loom_allocation) \<Longrightarrow>
     loom_drop a = (as_mut_ptr items, of_nat (length (cells a)), items)"
  by (auto simp: loom_allocate_def loom_drop_def loom_fill_eq)

section \<open>Sizes do not wrap\<close>

lemma layout_bound:
  assumes "is_power_of_two align"
  shows "unat (isize_max + 1 - align) = 2 ^ 63 - unat align"
proof -
  have eq: "isize_max + 1 = (2 ^ 63 :: usize)" by (simp add: isize_max_def)
  have u: "unat (2 ^ 63 :: usize) = 2 ^ 63" by simp
  have "align \<le> (2 ^ 63 :: usize)"
    using power_of_two_bound [OF assms] by (simp only: word_le_nat_alt u)
  then show ?thesis unfolding eq by (simp only: unat_sub u)
qed

lemma layout_array_Some:
  assumes "is_power_of_two align" "layout_array esize align n = Some lay"
  shows "unat (lay_size lay) = unat esize * unat n" "unat esize * unat n + unat align \<le> 2 ^ 63"
proof -
  have b: "unat esize * unat n \<le> 2 ^ 63 - unat align"
  proof (cases "esize = 0")
    case False
    with assms(2) have "n \<le> (isize_max + 1 - align) div esize"
      by (auto simp: layout_array_def split: if_splits)
    then have "unat n \<le> (2 ^ 63 - unat align) div unat esize"
      by (simp only: word_le_nat_alt unat_div layout_bound [OF assms(1)])
    then have "unat n * unat esize \<le> (2 ^ 63 - unat align) div unat esize * unat esize"
      by (rule mult_le_mono1)
    also have "\<dots> \<le> 2 ^ 63 - unat align" by simp
    finally show ?thesis by (simp add: mult.commute)
  qed simp
  have lay: "lay_size lay = esize * n" using assms(2) by (auto simp: layout_array_def split: if_splits)
  from b have "unat esize * unat n < 2 ^ 64" by (rule le_less_trans) simp
  then show "unat (lay_size lay) = unat esize * unat n"
    unfolding lay by (simp add: unat_mult_lem [THEN iffD1])
  from b power_of_two_bound [OF assms(1)] show "unat esize * unat n + unat align \<le> 2 ^ 63" by simp
qed

lemma layout_array_fits:
  assumes "is_power_of_two align" "unat esize * unat n + unat align \<le> 2 ^ 63"
  shows "layout_array esize align n \<noteq> None"
proof (cases "esize = 0")
  case False
  then have e: "0 < unat esize" by (simp add: unat_gt_0)
  have "unat n * unat esize \<le> 2 ^ 63 - unat align" using assms(2) by (simp add: mult.commute)
  then have "unat n \<le> (2 ^ 63 - unat align) div unat esize" using e by (simp add: less_eq_div_iff_mult_less_eq)
  then have "n \<le> (isize_max + 1 - align) div esize"
    by (simp only: word_le_nat_alt unat_div layout_bound [OF assms(1)])
  then show ?thesis by (auto simp: layout_array_def)
qed (simp add: layout_array_def)

text \<open>The base-2 logarithm of a hugepage size.\<close>

fun page_log :: "hugepage_size \<Rightarrow> nat" where
  "page_log H64KB = 16"
| "page_log H512KB = 19"
| "page_log H1MB = 20"
| "page_log H2MB = 21"
| "page_log H8MB = 23"
| "page_log H16MB = 24"
| "page_log H32MB = 25"
| "page_log H256MB = 28"
| "page_log H512MB = 29"

lemma as_usize_bytes_unat: "unat (as_usize_bytes h) = 2 ^ page_log h"
  by (cases h) simp_all

lemma as_usize_bytes_pow: "is_power_of_two (as_usize_bytes h)"
proof -
  have "page_log h < 64" by (cases h) simp_all
  then show ?thesis using as_usize_bytes_unat [of h] by (auto simp: is_power_of_two_iff)
qed

lemma not_mask: "(x :: usize) AND NOT (2 ^ k - 1) = x - take_bit k x"
proof -
  have "x - take_bit k x = x AND NOT (take_bit k x)"
    by (rule disjunctive_diff_eq_and_not) (auto simp: bit_eq_iff bit_simps)
  also have "\<dots> = x AND NOT (mask k)" by (auto simp: bit_eq_iff bit_simps)
  finally show ?thesis by (simp add: mask_eq_exp_minus_1)
qed

lemma round_up_to_page_unat:
  assumes "is_power_of_two p" "unat n \<le> 2 ^ 63"
  shows "unat (round_up_to_page n p) = (unat n + unat p - 1) div unat p * unat p"
proof -
  from assms(1) obtain k where k: "k < 64" "unat p = 2 ^ k" "p = 2 ^ k" by (rule power_of_twoE)
  let ?s = "n + p - 1"
  have pos: "0 < unat p" by (rule power_of_two_pos [OF assms(1)])
  have "?s = of_nat (unat n + unat p - 1)" using pos by (simp add: of_nat_diff)
  moreover have lt: "unat n + unat p - 1 < 2 ^ 64"
    using add_mono [OF assms(2) power_of_two_bound [OF assms(1)]] pos by simp
  ultimately have s: "unat ?s = unat n + unat p - 1"
    by (simp only: unat_of_nat_usize mod_less)
  have "round_up_to_page n p = ?s - take_bit k ?s"
    unfolding round_up_to_page_def by (subst (2) k(3)) (rule not_mask)
  then have "unat (round_up_to_page n p) = unat ?s - take_bit k (unat ?s)"
    using k(1) by (simp add: unat_sub word_le_nat_alt unsigned_take_bit_eq take_bit_nat_less_eq_self)
  also have "\<dots> = unat ?s - unat ?s mod unat p" by (simp add: take_bit_eq_mod k(2))
  finally show ?thesis by (simp only: s minus_mod_eq_div_mult)
qed

lemma round_up_bounds:
  assumes "is_power_of_two p" "unat n \<le> 2 ^ 63"
  shows "unat p dvd unat (round_up_to_page n p)" "unat n \<le> unat (round_up_to_page n p)"
    "unat (round_up_to_page n p) < unat n + unat p"
proof -
  note r = round_up_to_page_unat [OF assms]
  have p: "0 < unat p" by (rule power_of_two_pos [OF assms(1)])
  show "unat p dvd unat (round_up_to_page n p)" unfolding r by simp
  have e: "unat n + unat p - 1 = (unat n + unat p - 1) div unat p * unat p + (unat n + unat p - 1) mod unat p"
    by simp
  with mod_less_divisor [OF p, of "unat n + unat p - 1"] p
  show "unat n \<le> unat (round_up_to_page n p)" "unat (round_up_to_page n p) < unat n + unat p"
    unfolding r by linarith+
qed

section \<open>Properties\<close>

text \<open>
  \<open>Layout::array\<close> accepts exactly the arrays whose size, rounded up to the alignment, fits in
  \<open>isize::MAX\<close>, and then the size is the true product: it never wraps.
\<close>

theorem layout_array_exact:
  assumes "is_power_of_two align"
  shows "case layout_array esize align n of
      None \<Rightarrow> 2 ^ 63 < unat esize * unat n + unat align
    | Some lay \<Rightarrow> unat esize * unat n + unat align \<le> 2 ^ 63 \<and> unat (lay_size lay) = unat esize * unat n"
  using layout_array_fits [OF assms, of esize n] layout_array_Some [OF assms, of esize n]
  by (force split: option.split)

theorem layout_array_exact_witness:
  "case layout_array 24 8 (2 ^ 60) of
      None \<Rightarrow> 2 ^ 63 < unat (24 :: usize) * unat (2 ^ 60 :: usize) + unat (8 :: usize)
    | Some lay \<Rightarrow> unat (24 :: usize) * unat (2 ^ 60 :: usize) + unat (8 :: usize) \<le> 2 ^ 63 \<and>
        unat (lay_size lay) = unat (24 :: usize) * unat (2 ^ 60 :: usize)"
proof (rule layout_array_exact)
  show "is_power_of_two 8" by code_simp
qed

text \<open>
  C30: A hugepage allocation that succeeds is a region of whole pages of the chosen size, at
  least as large as the items and less than one page larger: the rounding
  \<open>(size + page - 1) & !(page - 1)\<close> neither wraps nor falls short.
\<close>

theorem hugepage_region_holds_items:
  assumes "is_power_of_two align" "hugepage_allocate lc os esize align items opts = Inr a"
  shows "unat esize * unat items \<le> unat (h_length a) \<and>
    unat (as_usize_bytes (h_size opts)) dvd unat (h_length a) \<and>
    unat (h_length a) < unat esize * unat items + unat (as_usize_bytes (h_size opts)) \<and>
    length (cells a) = unat items"
proof -
  from assms(2) obtain lay where lay: "layout_array esize align items = Some lay"
    and a: "h_length a = round_up_to_page (lay_size lay) (as_usize_bytes (h_size opts))"
      "length (cells a) = unat items"
    by (auto simp: hugepage_allocate_def Let_def split: option.splits if_splits)
  note l = layout_array_Some [OF assms(1) lay]
  have "unat (lay_size lay) \<le> 2 ^ 63" using l by simp
  from round_up_bounds [OF as_usize_bytes_pow this, of "h_size opts"] a l(1) show ?thesis by simp
qed

definition demo_libc :: libc_consts where
  "demo_libc =
     \<lparr>map_huge_64kb = push_bit 26 16, map_huge_512kb = push_bit 26 19, map_huge_1mb = push_bit 26 20,
      map_huge_2mb = push_bit 26 21, map_huge_8mb = push_bit 26 23, map_huge_16mb = push_bit 26 24,
      map_huge_32mb = push_bit 26 25, map_huge_256mb = push_bit 26 28, map_huge_512mb = push_bit 26 29,
      prot_read = 1, prot_write = 2, map_populate = 0x8000, map_private = 2, map_anonymous = 0x20,
      map_hugetlb = 0x40000, map_failed = - 1\<rparr>"

theorem hugepage_region_holds_items_witness:
  "\<exists>a :: nat hugepage_allocation.
     hugepage_allocate demo_libc demo_os 24 8 100000 \<lparr>h_mlock = True, h_size = H2MB\<rparr> = Inr a \<and>
     h_length a = 0x400000 \<and> unat (24 :: usize) * unat (100000 :: usize) \<le> unat (h_length a)"
proof -
  let ?o = "\<lparr>h_mlock = True, h_size = H2MB\<rparr>"
  have al: "is_power_of_two 8" by code_simp
  have len: "map_sum id h_length (hugepage_allocate demo_libc demo_os 24 8 100000 ?o :: fault + nat hugepage_allocation) =
      Inr 0x400000"
    by (simp add: hugepage_allocate_def demo_libc_def demo_os_def layout_array_def isize_max_def
        round_up_to_page_def Let_def)
  then obtain a :: "nat hugepage_allocation" where
    "hugepage_allocate demo_libc demo_os 24 8 100000 ?o = Inr a" "h_length a = 0x400000"
    by (cases "hugepage_allocate demo_libc demo_os 24 8 100000 ?o :: fault + nat hugepage_allocation") auto
  with hugepage_region_holds_items [OF al this(1)] show ?thesis by blast
qed

text \<open>
  The flag that selects the page size names the size the region is rounded to: with the
  kernel's encoding of the constants, bits 26 and up of the flag hold the base-2 logarithm of
  \<open>as_usize_bytes\<close>.
\<close>

theorem mmap_flag_matches_size:
  assumes "linux_consts lc"
  shows "unat (as_usize_bytes h) = 2 ^ unat (drop_bit 26 (as_mmap_size_flag lc h))"
  using assms by (cases h) (simp_all add: linux_consts_def)

theorem mmap_flag_matches_size_witness:
  "unat (as_usize_bytes H2MB) = 2 ^ unat (drop_bit 26 (as_mmap_size_flag demo_libc H2MB))"
  by (rule mmap_flag_matches_size) (simp add: linux_consts_def demo_libc_def)

text \<open>
  The global allocator is asked for a layout of size zero, which \<open>alloc::alloc\<close> forbids, exactly
  when the item type has size zero (or no item is asked for): \<open>GlobalAllocator\<close> has no check.
\<close>

theorem global_zero_size_alloc:
  assumes "is_power_of_two align" "unat esize * unat items + unat align \<le> 2 ^ 63"
  shows "global_allocate os esize align items opts = Inl ZeroSizeAlloc \<longleftrightarrow> esize = 0 \<or> items = 0"
proof -
  from layout_array_fits [OF assms]
  obtain lay where lay: "layout_array esize align items = Some lay" by blast
  have "lay_size lay = 0 \<longleftrightarrow> unat (lay_size lay) = 0" by (simp add: unat_eq_0)
  also have "\<dots> \<longleftrightarrow> esize = 0 \<or> items = 0"
    using layout_array_Some(1) [OF assms(1) lay] by (simp add: unat_eq_0)
  finally show ?thesis by (simp add: global_allocate_def lay Let_def)
qed

theorem global_zero_size_alloc_witness:
  "(global_allocate demo_os 0 1 1024 \<lparr>g_mlock = False\<rparr> :: fault + unit global_allocation) = Inl ZeroSizeAlloc"
proof -
  have "is_power_of_two 1" by code_simp
  moreover have "unat (0 :: usize) * unat (1024 :: usize) + unat (1 :: usize) \<le> 2 ^ 63" by simp
  ultimately show ?thesis by (intro global_zero_size_alloc [THEN iffD2]) simp_all
qed

text \<open>
  A successful global allocation has an address that is not null and a layout of the true
  size of the items, which is the one \<open>Drop\<close> gives back, and its cells are uninitialised.
\<close>

theorem global_allocation_sound:
  assumes "is_power_of_two align" "global_allocate os esize align items opts = Inr a"
  shows "base a \<noteq> 0 \<and> cells a = replicate (unat items) None \<and>
    (\<exists>lay. global_drop a = (base a, lay) \<and> unat (lay_size lay) = unat esize * unat items \<and>
       0 < lay_size lay \<and> lay_align lay = align \<and> sys_alloc os lay = base a)"
proof -
  from assms(2) obtain lay where lay: "layout_array esize align items = Some lay"
    and a: "lay_size lay \<noteq> 0" "sys_alloc os lay \<noteq> 0"
      "a = \<lparr>base = sys_alloc os lay, cells = replicate (unat items) None, g_layout = lay\<rparr>"
    by (auto simp: global_allocate_def Let_def split: option.splits if_splits)
  have "lay_align lay = align" using lay by (auto simp: layout_array_def split: if_splits)
  with a layout_array_Some(1) [OF assms(1) lay] show ?thesis
    by (auto simp: global_drop_def word_gt_0)
qed

theorem global_allocation_sound_witness:
  "\<exists>a :: nat global_allocation. global_allocate demo_os 8 8 4 \<lparr>g_mlock = True\<rparr> = Inr a \<and>
     base a \<noteq> 0 \<and> cells a = replicate (unat (4 :: usize)) None"
proof -
  have al: "is_power_of_two 8" by code_simp
  have "map_sum id base (global_allocate demo_os 8 8 4 \<lparr>g_mlock = True\<rparr> :: fault + nat global_allocation) = Inr 4096"
    by code_simp
  then obtain a :: "nat global_allocation" where a: "global_allocate demo_os 8 8 4 \<lparr>g_mlock = True\<rparr> = Inr a"
    by (cases "global_allocate demo_os 8 8 4 \<lparr>g_mlock = True\<rparr> :: fault + nat global_allocation") auto
  from global_allocation_sound [OF al a] a show ?thesis by blast
qed

end
