(* ===== verification/Bench_Threads.thy ===== *)
theory Bench_Threads
  imports Mem
begin

text \<open>
  How every cross-core benchmark starts and ends: \<open>main\<close> spawns two threads, each pins itself to its
  core and checks that it runs there, all meet at a \<open>std::sync::Barrier\<close>, the threads run the body of
  the benchmark, and \<open>main\<close> joins them. The body is a parameter (\<open>bench_body\<close>); \<open>Bench_Runs\<close> puts the
  benchmarks of the crate in its place. The source is the same in \<open>handoff.rs\<close> and \<open>throttled.rs\<close> of
  \<open>src/src/bench/harness/spsc\<close>, in \<open>handoff.rs\<close>, \<open>lapped.rs\<close> and \<open>capacity_sweep.rs\<close> of \<open>spmc\<close>, and in
  \<open>src/examples/seqlock/bench_handoff.rs\<close>, where \<open>main\<close> does not wait at the barrier.
\<close>

section \<open>Pinning and the barrier\<close>

text \<open>
  What \<open>core_affinity::set_for_current(core)\<close> and \<open>libc::sched_getcpu()\<close> return in a thread, and the
  \<open>id\<close> of its core. The thread goes on when both assertions hold.
\<close>

record pin =
  set_for_current :: bool
  sched_getcpu :: "32 word"
  core_id :: usize

definition pinned :: "pin \<Rightarrow> bool" where
  "pinned p \<longleftrightarrow> set_for_current p \<and> sched_getcpu p = ucast (core_id p)"

text \<open>
  \<open>Barrier::wait\<close> of the standard library: the caller that completes the count starts the next
  generation and goes on (\<open>None\<close>), any other waits until its generation is over.
\<close>

record barrier =
  num_threads :: nat
  bar_count :: nat
  generation_id :: nat

definition barrier_wait :: "barrier \<Rightarrow> barrier \<times> nat option" where
  "barrier_wait b =
     (let b' = b\<lparr>bar_count := bar_count b + 1\<rparr>
      in if bar_count b' < num_threads b' then (b', Some (generation_id b'))
         else (b'\<lparr>bar_count := 0, generation_id := generation_id b' + 1\<rparr>, None))"

section \<open>Threads\<close>

text \<open>A spawned thread: before its assertions, before \<open>wait\<close>, inside \<open>wait\<close>, in its body, returned, panicked.\<close>

datatype bench_at = AtPin | AtWait | AtBarrier nat | InBody | AtEnd | Panicked

text \<open>\<open>main\<close> after the two spawns; \<open>MainPanic\<close> is the \<open>unwrap\<close> of a failed \<open>join\<close>.\<close>

datatype main_at = MainWait | MainBarrier nat | MainJoinP | MainJoinC | MainReport | MainPanic

record bench_start =
  main_waits :: bool
  producer_pin :: pin
  consumer_pin :: pin

text \<open>The steps of the two loops, whose event they are, and when each thread's closure returns.\<close>

record ('s, 'e) bench_body =
  bb_step :: "'s \<Rightarrow> 'e \<Rightarrow> (fault + 's) option"
  bb_mine :: "'e \<Rightarrow> bool"     \<comment> \<open>an event of the consumer\<close>
  bb_p_end :: "'s \<Rightarrow> bool"
  bb_c_end :: "'s \<Rightarrow> bool"

record 's threads =
  th_barrier :: barrier
  th_producer :: bench_at
  th_consumer :: bench_at
  th_main :: main_at
  th_body :: 's

datatype 'e th_event = PStep | CStep | MStep | BodyStep 'e

text \<open>One step of a spawned thread outside its body.\<close>

fun thread_step :: "pin \<Rightarrow> bool \<Rightarrow> barrier \<Rightarrow> bench_at \<Rightarrow> (barrier \<times> bench_at) option" where
  "thread_step p ended b AtPin = Some (b, if pinned p then AtWait else Panicked)"
| "thread_step p ended b AtWait =
     (case barrier_wait b of (b', g) \<Rightarrow> Some (b', case g of Some g \<Rightarrow> AtBarrier g | None \<Rightarrow> InBody))"
| "thread_step p ended b (AtBarrier g) = (if generation_id b \<noteq> g then Some (b, InBody) else None)"
| "thread_step p ended b InBody = (if ended then Some (b, AtEnd) else None)"
| "thread_step p ended b AtEnd = None"
| "thread_step p ended b Panicked = None"

text \<open>\<open>join\<close> waits for the end of a thread; \<open>unwrap\<close> panics if the thread panicked.\<close>

fun join_step :: "bench_at \<Rightarrow> main_at \<Rightarrow> main_at option" where
  "join_step AtEnd m = Some m"
| "join_step Panicked m = Some MainPanic"
| "join_step _ m = None"

fun main_step :: "bench_at \<Rightarrow> bench_at \<Rightarrow> barrier \<Rightarrow> main_at \<Rightarrow> (barrier \<times> main_at) option" where
  "main_step p c b MainWait =
     (case barrier_wait b of (b', g) \<Rightarrow> Some (b', case g of Some g \<Rightarrow> MainBarrier g | None \<Rightarrow> MainJoinP))"
| "main_step p c b (MainBarrier g) = (if generation_id b \<noteq> g then Some (b, MainJoinP) else None)"
| "main_step p c b MainJoinP = map_option (Pair b) (join_step p MainJoinC)"
| "main_step p c b MainJoinC = map_option (Pair b) (join_step c MainReport)"
| "main_step p c b MainReport = None"
| "main_step p c b MainPanic = None"

fun th_step ::
  "bench_start \<Rightarrow> ('s, 'e) bench_body \<Rightarrow> 's threads \<Rightarrow> 'e th_event \<Rightarrow> (fault + 's threads) option" where
  "th_step st body s PStep =
     map_option (\<lambda>(b, at). Inr (s\<lparr>th_barrier := b, th_producer := at\<rparr>))
       (thread_step (producer_pin st) (bb_p_end body (th_body s)) (th_barrier s) (th_producer s))"
| "th_step st body s CStep =
     map_option (\<lambda>(b, at). Inr (s\<lparr>th_barrier := b, th_consumer := at\<rparr>))
       (thread_step (consumer_pin st) (bb_c_end body (th_body s)) (th_barrier s) (th_consumer s))"
| "th_step st body s MStep =
     map_option (\<lambda>(b, at). Inr (s\<lparr>th_barrier := b, th_main := at\<rparr>))
       (main_step (th_producer s) (th_consumer s) (th_barrier s) (th_main s))"
| "th_step st body s (BodyStep e) =
     (if (if bb_mine body e then th_consumer s = InBody \<and> \<not> bb_c_end body (th_body s)
          else th_producer s = InBody \<and> \<not> bb_p_end body (th_body s))
      then map_option (map_sum id (\<lambda>x. s\<lparr>th_body := x\<rparr>)) (bb_step body (th_body s) e) else None)"

definition th_new :: "bench_start \<Rightarrow> 's \<Rightarrow> 's threads" where
  "th_new st x =
     \<lparr>th_barrier = \<lparr>num_threads = (if main_waits st then 3 else 2), bar_count = 0, generation_id = 0\<rparr>,
      th_producer = AtPin, th_consumer = AtPin, th_main = (if main_waits st then MainWait else MainJoinP),
      th_body = x\<rparr>"

inductive th_reach :: "bench_start \<Rightarrow> ('s, 'e) bench_body \<Rightarrow> 's \<Rightarrow> 's threads \<Rightarrow> bool" for st body x where
  th_init: "th_reach st body x (th_new st x)"
| th_next: "th_reach st body x s \<Longrightarrow> th_step st body s e = Some (Inr s') \<Longrightarrow> th_reach st body x s'"

fun th_run ::
  "bench_start \<Rightarrow> ('s, 'e) bench_body \<Rightarrow> 's threads \<Rightarrow> 'e th_event list \<Rightarrow> (fault + 's threads) option" where
  "th_run st body s [] = Some (Inr s)"
| "th_run st body s (e # es) =
     (case th_step st body s e of
        Some (Inr s') \<Rightarrow> th_run st body s' es
      | r \<Rightarrow> r)"

lemma th_reach_run:
  "th_reach st body x s \<Longrightarrow> th_run st body s es = Some (Inr s') \<Longrightarrow> th_reach st body x s'"
  by (induction es arbitrary: s) (auto split: option.splits sum.splits intro: th_next)

section \<open>The barrier\<close>

fun waiting :: "bench_at \<Rightarrow> nat" where
  "waiting (AtBarrier g) = 1"
| "waiting _ = 0"

fun main_waiting :: "main_at \<Rightarrow> nat" where
  "main_waiting (MainBarrier g) = 1"
| "main_waiting _ = 0"

definition parties :: "bench_start \<Rightarrow> nat" where
  "parties st = (if main_waits st then 3 else 2)"

text \<open>Before the barrier opens: who has called \<open>wait\<close> is inside it; after it has opened: nobody is before it.\<close>

definition before_open :: "bench_start \<Rightarrow> 's threads \<Rightarrow> bool" where
  "before_open st s \<longleftrightarrow>
     generation_id (th_barrier s) = 0 \<and>
     bar_count (th_barrier s) = waiting (th_producer s) + waiting (th_consumer s) + main_waiting (th_main s) \<and>
     bar_count (th_barrier s) < parties st \<and>
     {th_producer s, th_consumer s} \<subseteq> {AtPin, AtWait, AtBarrier 0, Panicked} \<and>
     th_main s \<in> (if main_waits st then {MainWait, MainBarrier 0} else {MainJoinP, MainPanic})"

definition after_open :: "bench_start \<Rightarrow> 's threads \<Rightarrow> bool" where
  "after_open st s \<longleftrightarrow>
     generation_id (th_barrier s) = 1 \<and>
     {th_producer s, th_consumer s} \<subseteq> {AtBarrier 0, InBody, AtEnd} \<and>
     th_main s \<in> {MainBarrier 0, MainJoinP, MainJoinC, MainReport} \<and>
     pinned (producer_pin st) \<and> pinned (consumer_pin st)"

definition pins_ok :: "pin \<Rightarrow> bench_at \<Rightarrow> bool" where
  "pins_ok p at \<longleftrightarrow> (at = Panicked \<longrightarrow> \<not> pinned p) \<and> (at \<notin> {AtPin, Panicked} \<longrightarrow> pinned p)"

definition start_inv :: "bench_start \<Rightarrow> 's threads \<Rightarrow> bool" where
  "start_inv st s \<longleftrightarrow>
     num_threads (th_barrier s) = parties st \<and>
     pins_ok (producer_pin st) (th_producer s) \<and> pins_ok (consumer_pin st) (th_consumer s) \<and>
     (before_open st s \<or> after_open st s) \<and>
     (th_main s = MainPanic \<longrightarrow> th_producer s = Panicked) \<and>
     (th_main s \<in> {MainJoinC, MainReport} \<longrightarrow> th_producer s = AtEnd) \<and>
     (th_main s = MainReport \<longrightarrow> th_consumer s = AtEnd)"

lemma start_inv_new: "start_inv st (th_new st x)"
  by (simp add: start_inv_def before_open_def th_new_def parties_def pins_ok_def)

lemma before_openD:
  assumes "before_open st s"
  shows "th_producer s = AtPin \<or> th_producer s = AtWait \<or> th_producer s = AtBarrier 0 \<or> th_producer s = Panicked"
    "th_consumer s = AtPin \<or> th_consumer s = AtWait \<or> th_consumer s = AtBarrier 0 \<or> th_consumer s = Panicked"
    "if main_waits st then th_main s = MainWait \<or> th_main s = MainBarrier 0
     else th_main s = MainJoinP \<or> th_main s = MainPanic"
    "generation_id (th_barrier s) = 0"
    "bar_count (th_barrier s) = waiting (th_producer s) + waiting (th_consumer s) + main_waiting (th_main s)"
    "bar_count (th_barrier s) < parties st"
  using assms by (auto simp: before_open_def)

lemma after_openD:
  assumes "after_open st s"
  shows "th_producer s = AtBarrier 0 \<or> th_producer s = InBody \<or> th_producer s = AtEnd"
    "th_consumer s = AtBarrier 0 \<or> th_consumer s = InBody \<or> th_consumer s = AtEnd"
    "th_main s = MainBarrier 0 \<or> th_main s = MainJoinP \<or> th_main s = MainJoinC \<or> th_main s = MainReport"
    "generation_id (th_barrier s) = 1" "pinned (producer_pin st)" "pinned (consumer_pin st)"
  using assms by (auto simp: after_open_def)

text \<open>The last call of \<open>wait\<close>: all others are inside it.\<close>

lemma last_wait:
  assumes "before_open st s" "\<not> bar_count (th_barrier s) + 1 < parties st"
  shows "th_producer s = AtWait \<Longrightarrow> th_consumer s = AtBarrier 0 \<and> (main_waits st \<longrightarrow> th_main s = MainBarrier 0)"
    "th_consumer s = AtWait \<Longrightarrow> th_producer s = AtBarrier 0 \<and> (main_waits st \<longrightarrow> th_main s = MainBarrier 0)"
    "th_main s = MainWait \<Longrightarrow> th_producer s = AtBarrier 0 \<and> th_consumer s = AtBarrier 0 \<and> main_waits st"
  using assms(2) before_openD [OF assms(1)] by (auto simp: parties_def split: if_splits)

lemma barrier_wait_simps:
  "bar_count b + 1 < num_threads b \<Longrightarrow>
     barrier_wait b = (b\<lparr>bar_count := bar_count b + 1\<rparr>, Some (generation_id b))"
  "\<not> bar_count b + 1 < num_threads b \<Longrightarrow>
     barrier_wait b = (b\<lparr>bar_count := 0, generation_id := generation_id b + 1\<rparr>, None)"
  by (simp_all add: barrier_wait_def Let_def)

lemma producer_before:
  assumes inv: "start_inv st s" and b: "before_open st s" and step: "th_step st body s PStep = Some (Inr s')"
  shows "start_inv st s'"
proof -
  note i = inv [unfolded start_inv_def, THEN conjunct1] inv [unfolded start_inv_def, THEN conjunct2, THEN conjunct1]
    inv [unfolded start_inv_def, THEN conjunct2, THEN conjunct2, THEN conjunct1] and d = before_openD [OF b]
  from d(1) consider "th_producer s = AtPin" | "th_producer s = AtWait" using step d(4) by auto
  then show ?thesis
  proof cases
    case 1
    with step have s': "s' = s\<lparr>th_producer := (if pinned (producer_pin st) then AtWait else Panicked)\<rparr>" by simp
    from 1 b i(1,3) inv d(3) show ?thesis unfolding s' by (auto simp: start_inv_def before_open_def pins_ok_def split: if_splits)
  next
    case 2
    show ?thesis
    proof (cases "bar_count (th_barrier s) + 1 < parties st")
      case True
      with 2 step d(4) i(1) have s': "s' = s\<lparr>th_barrier := (th_barrier s)\<lparr>bar_count := bar_count (th_barrier s) + 1\<rparr>,
          th_producer := AtBarrier 0\<rparr>" by (simp add: barrier_wait_simps)
      from 2 True b i inv d(3) show ?thesis unfolding s'
        by (auto simp: start_inv_def before_open_def pins_ok_def split: if_splits)
    next
      case False
      with 2 step d(4) i(1) have s': "s' = s\<lparr>th_barrier := (th_barrier s)\<lparr>bar_count := 0, generation_id := 1\<rparr>,
          th_producer := InBody\<rparr>" by (simp add: barrier_wait_simps)
      from last_wait(1) [OF b False 2] 2 i d(3) inv show ?thesis unfolding s'
        by (auto simp: start_inv_def after_open_def pins_ok_def split: if_splits)
    qed
  qed
qed

lemma consumer_before:
  assumes inv: "start_inv st s" and b: "before_open st s" and step: "th_step st body s CStep = Some (Inr s')"
  shows "start_inv st s'"
proof -
  note i = inv [unfolded start_inv_def, THEN conjunct1] inv [unfolded start_inv_def, THEN conjunct2, THEN conjunct1]
    inv [unfolded start_inv_def, THEN conjunct2, THEN conjunct2, THEN conjunct1] and d = before_openD [OF b]
  from d(2) consider "th_consumer s = AtPin" | "th_consumer s = AtWait" using step d(4) by auto
  then show ?thesis
  proof cases
    case 1
    with step have s': "s' = s\<lparr>th_consumer := (if pinned (consumer_pin st) then AtWait else Panicked)\<rparr>" by simp
    from 1 b i(1,2) inv d(3) show ?thesis unfolding s' by (auto simp: start_inv_def before_open_def pins_ok_def split: if_splits)
  next
    case 2
    show ?thesis
    proof (cases "bar_count (th_barrier s) + 1 < parties st")
      case True
      with 2 step d(4) i(1) have s': "s' = s\<lparr>th_barrier := (th_barrier s)\<lparr>bar_count := bar_count (th_barrier s) + 1\<rparr>,
          th_consumer := AtBarrier 0\<rparr>" by (simp add: barrier_wait_simps)
      from 2 True b i inv d(3) show ?thesis unfolding s'
        by (auto simp: start_inv_def before_open_def pins_ok_def split: if_splits)
    next
      case False
      with 2 step d(4) i(1) have s': "s' = s\<lparr>th_barrier := (th_barrier s)\<lparr>bar_count := 0, generation_id := 1\<rparr>,
          th_consumer := InBody\<rparr>" by (simp add: barrier_wait_simps)
      from last_wait(2) [OF b False 2] 2 i d(3) inv show ?thesis unfolding s'
        by (auto simp: start_inv_def after_open_def pins_ok_def split: if_splits)
    qed
  qed
qed

lemma main_before:
  assumes inv: "start_inv st s" and b: "before_open st s" and step: "th_step st body s MStep = Some (Inr s')"
  shows "start_inv st s'"
proof -
  note i = inv [unfolded start_inv_def, THEN conjunct1] inv [unfolded start_inv_def, THEN conjunct2, THEN conjunct1]
    inv [unfolded start_inv_def, THEN conjunct2, THEN conjunct2, THEN conjunct1] and d = before_openD [OF b]
  from d(3) consider "th_main s = MainWait" "main_waits st" | "th_main s = MainJoinP" "\<not> main_waits st" using step d(4)
    by (auto split: if_splits)
  then show ?thesis
  proof cases
    case 1
    show ?thesis
    proof (cases "bar_count (th_barrier s) + 1 < parties st")
      case True
      with 1 step d(4) i(1) have s': "s' = s\<lparr>th_barrier := (th_barrier s)\<lparr>bar_count := bar_count (th_barrier s) + 1\<rparr>,
          th_main := MainBarrier 0\<rparr>" by (simp add: barrier_wait_simps)
      from 1 True b i show ?thesis unfolding s' by (auto simp: start_inv_def before_open_def)
    next
      case False
      with 1 step d(4) i(1) have s': "s' = s\<lparr>th_barrier := (th_barrier s)\<lparr>bar_count := 0, generation_id := 1\<rparr>,
          th_main := MainJoinP\<rparr>" by (simp add: barrier_wait_simps)
      from last_wait(3) [OF b False 1(1)] i show ?thesis unfolding s'
        by (auto simp: start_inv_def after_open_def pins_ok_def)
    qed
  next
    case 2
    with step d(1) have s': "s' = s\<lparr>th_main := MainPanic\<rparr>" "th_producer s = Panicked" by auto
    from 2 b i s'(2) show ?thesis unfolding s'(1) by (auto simp: start_inv_def before_open_def)
  qed
qed

lemma body_step_only:
  assumes "th_step st body s (BodyStep e) = Some (Inr s')"
  shows "\<exists>y. bb_step body (th_body s) e = Some (Inr y) \<and> s' = s\<lparr>th_body := y\<rparr>"
  using assms by (auto split: if_splits) (case_tac z; simp)+

lemma start_step_before:
  assumes "start_inv st s" "before_open st s" "th_step st body s e = Some (Inr s')"
  shows "start_inv st s'"
proof (cases e)
  case (BodyStep x)
  with assms(3) before_openD(1,2) [OF assms(2)] show ?thesis by (auto split: if_splits)
qed (use assms producer_before consumer_before main_before in blast)+

lemma start_step_after:
  assumes inv: "start_inv st s" and a: "after_open st s" and step: "th_step st body s e = Some (Inr s')"
  shows "start_inv st s'"
proof -
  note d = after_openD [OF a]
  show ?thesis
  proof (cases e)
    case PStep
    with d(1,4) step obtain at where "s' = s\<lparr>th_producer := at\<rparr>" "at = InBody \<and> th_producer s = AtBarrier 0 \<or> at = AtEnd"
      by (auto split: if_splits)
    with inv a show ?thesis by (auto simp: start_inv_def after_open_def pins_ok_def)
  next
    case CStep
    with d(2,4) step obtain at where "s' = s\<lparr>th_consumer := at\<rparr>" "at = InBody \<and> th_consumer s = AtBarrier 0 \<or> at = AtEnd"
      by (auto split: if_splits)
    with inv a show ?thesis by (auto simp: start_inv_def after_open_def pins_ok_def)
  next
    case MStep
    with d(1-4) step obtain m where "s' = s\<lparr>th_main := m\<rparr>" "m = MainJoinP \<or> m = MainJoinC \<and> th_producer s = AtEnd \<or>
        m = MainReport \<and> th_main s = MainJoinC \<and> th_consumer s = AtEnd"
      by auto
    with inv a show ?thesis by (auto simp: start_inv_def after_open_def)
  next
    case (BodyStep x)
    from body_step_only [OF step [unfolded BodyStep]] obtain y where "s' = s\<lparr>th_body := y\<rparr>" by blast
    with inv a show ?thesis by (auto simp: start_inv_def after_open_def)
  qed
qed

lemma start_reach_inv: "th_reach st body x s \<Longrightarrow> start_inv st s"
proof (induction rule: th_reach.induct)
  case th_init
  show ?case by (rule start_inv_new)
next
  case (th_next s e s')
  from th_next.IH have "before_open st s \<or> after_open st s" by (simp add: start_inv_def)
  with start_step_before [OF th_next.IH _ th_next.hyps(2)] start_step_after [OF th_next.IH _ th_next.hyps(2)]
  show ?case by blast
qed

section \<open>A thread that cannot be pinned\<close>

fun at_rank :: "bench_at \<Rightarrow> nat" where
  "at_rank AtPin = 2"
| "at_rank AtWait = 1"
| "at_rank _ = 0"

fun main_rank :: "main_at \<Rightarrow> nat" where
  "main_rank MainWait = 1"
| "main_rank MainJoinP = 1"
| "main_rank _ = 0"

text \<open>How many steps the program can still take before the barrier opens.\<close>

definition start_rank :: "'s threads \<Rightarrow> nat" where
  "start_rank s = at_rank (th_producer s) + at_rank (th_consumer s) + main_rank (th_main s)"

lemma thread_step_rank:
  assumes "thread_step p ended b at = Some (b', at')" "at = AtPin \<or> at = AtWait \<or> at = AtBarrier 0 \<or> at = Panicked"
    "generation_id b = 0"
  shows "at_rank at' < at_rank at"
  using assms(2)
proof (elim disjE)
  assume "at = AtWait"
  with assms(1) show ?thesis
    by (cases "bar_count b + 1 < num_threads b") (auto simp: barrier_wait_simps simp del: Suc_eq_plus1)
qed (use assms(1,3) in \<open>auto split: if_splits\<close>)

lemma unpinned_never_last:
  assumes "start_inv st s" "before_open st s" "\<not> (pinned (producer_pin st) \<and> pinned (consumer_pin st))" "th_main s = MainWait"
  shows "bar_count (th_barrier s) + 1 < num_threads (th_barrier s)"
proof (rule ccontr)
  assume "\<not> bar_count (th_barrier s) + 1 < num_threads (th_barrier s)"
  moreover from assms(1) have i: "num_threads (th_barrier s) = parties st"
    "pins_ok (producer_pin st) (th_producer s)" "pins_ok (consumer_pin st) (th_consumer s)"
    by (simp_all add: start_inv_def)
  ultimately have "th_producer s = AtBarrier 0" "th_consumer s = AtBarrier 0"
    using last_wait(3) [OF assms(2) _ assms(4)] by simp_all
  with i(2,3) assms(3) show False by (simp add: pins_ok_def)
qed

lemma failed_pin_step:
  assumes inv: "start_inv st s" and b: "before_open st s"
    and pins: "\<not> (pinned (producer_pin st) \<and> pinned (consumer_pin st))" and step: "th_step st body s e = Some r"
  shows "\<exists>s'. r = Inr s' \<and> start_rank s' < start_rank s \<and> th_body s' = th_body s"
proof -
  note d = before_openD [OF b]
  show ?thesis
  proof (cases e)
    case PStep
    with step obtain b' at where st: "thread_step (producer_pin st) (bb_p_end body (th_body s)) (th_barrier s) (th_producer s)
        = Some (b', at)" and r: "r = Inr (s\<lparr>th_barrier := b', th_producer := at\<rparr>)" by auto
    from thread_step_rank [OF st d(1,4)] show ?thesis by (simp add: r start_rank_def)
  next
    case CStep
    with step obtain b' at where st: "thread_step (consumer_pin st) (bb_c_end body (th_body s)) (th_barrier s) (th_consumer s)
        = Some (b', at)" and r: "r = Inr (s\<lparr>th_barrier := b', th_consumer := at\<rparr>)" by auto
    from thread_step_rank [OF st d(2,4)] show ?thesis by (simp add: r start_rank_def)
  next
    case MStep
    with step obtain b' m where st: "main_step (th_producer s) (th_consumer s) (th_barrier s) (th_main s) = Some (b', m)"
      and r: "r = Inr (s\<lparr>th_barrier := b', th_main := m\<rparr>)" by auto
    have "main_rank m < main_rank (th_main s)"
    proof (cases "th_main s = MainWait")
      case True
      with st unpinned_never_last [OF inv b pins True] show ?thesis by (auto simp: barrier_wait_simps)
    next
      case False
      with d(1,3,4) st show ?thesis by (auto split: if_splits)
    qed
    then show ?thesis by (simp add: r start_rank_def)
  next
    case (BodyStep x)
    with step d(1,2) show ?thesis by (auto split: if_splits)
  qed
qed

lemma unpinned_before:
  assumes "th_reach st body x s" "\<not> (pinned (producer_pin st) \<and> pinned (consumer_pin st))"
  shows "start_inv st s" "before_open st s"
proof -
  show inv: "start_inv st s" by (rule start_reach_inv [OF assms(1)])
  then show "before_open st s" using assms(2) after_openD(5,6) by (auto simp: start_inv_def)
qed

lemma unpinned_body:
  "th_reach st body x s \<Longrightarrow> \<not> (pinned (producer_pin st) \<and> pinned (consumer_pin st)) \<Longrightarrow> th_body s = x"
proof (induction rule: th_reach.induct)
  case th_init
  show ?case by (simp add: th_new_def)
next
  case (th_next s e s')
  from failed_pin_step [OF unpinned_before [OF th_next.hyps(1) th_next.prems] th_next.prems th_next.hyps(2)]
  show ?case using th_next.IH [OF th_next.prems] by simp
qed

lemma start_rank_le: "before_open st s \<Longrightarrow> start_rank s \<le> 5"
  using before_openD(1-3) [of st s] by (auto simp: start_rank_def split: if_splits)

section \<open>Programs whose body is correct\<close>

text \<open>
  The contract of a body: its invariant \<open>reach\<close> holds of every state, no step of it faults, a thread
  that has not ended is never blocked, an end is final, and when both have ended \<open>final\<close> holds.
\<close>

locale correct_body =
  fixes body :: "('s, 'e) bench_body" and reach :: "'s \<Rightarrow> bool" and final :: "'s \<Rightarrow> bool"
  assumes body_step: "reach x \<Longrightarrow> bb_step body x e = Some r \<Longrightarrow> \<exists>x'. r = Inr x' \<and> reach x'"
    and ends_stay: "reach x \<Longrightarrow> bb_step body x e = Some (Inr x') \<Longrightarrow>
      (bb_p_end body x \<longrightarrow> bb_p_end body x') \<and> (bb_c_end body x \<longrightarrow> bb_c_end body x')"
    and producer_live: "reach x \<Longrightarrow> \<not> bb_p_end body x \<Longrightarrow> \<exists>e r. \<not> bb_mine body e \<and> bb_step body x e = Some r"
    and consumer_live: "reach x \<Longrightarrow> \<not> bb_c_end body x \<Longrightarrow> \<exists>e r. bb_mine body e \<and> bb_step body x e = Some r"
    and ended: "reach x \<Longrightarrow> bb_p_end body x \<Longrightarrow> bb_c_end body x \<Longrightarrow> final x"
begin

definition run_ok :: "'s threads \<Rightarrow> bool" where
  "run_ok s \<longleftrightarrow>
     reach (th_body s) \<and> (th_producer s = AtEnd \<longrightarrow> bb_p_end body (th_body s)) \<and>
     (th_consumer s = AtEnd \<longrightarrow> bb_c_end body (th_body s))"

lemma thread_end:
  "thread_step p ended b at = Some (b', AtEnd) \<Longrightarrow> at = InBody \<and> ended"
  by (cases at) (auto simp: barrier_wait_def Let_def split: if_splits)

lemma run_step:
  assumes ok: "run_ok s" and step: "th_step st body s e = Some r"
  shows "\<exists>s'. r = Inr s' \<and> run_ok s'"
proof (cases e)
  case (BodyStep x)
  with step obtain r' where r': "bb_step body (th_body s) x = Some r'" by (auto split: if_splits)
  from ok have reach: "reach (th_body s)" by (simp add: run_ok_def)
  from body_step [OF reach r'] obtain y where y: "r' = Inr y" "reach y" by blast
  then have "r = Inr (s\<lparr>th_body := y\<rparr>)" using step BodyStep r' by (auto split: if_splits)
  with ok y ends_stay [OF reach r' [unfolded y(1)]] show ?thesis by (auto simp: run_ok_def)
qed (use ok step thread_end in \<open>fastforce simp: run_ok_def\<close>)+

lemma run_reach: "th_reach st body x s \<Longrightarrow> reach x \<Longrightarrow> run_ok s"
proof (induction rule: th_reach.induct)
  case th_init
  then show ?case by (simp add: run_ok_def th_new_def)
next
  case (th_next s e s')
  from run_step [OF th_next.IH [OF th_next.prems] th_next.hyps(2)] show ?case by blast
qed

lemma run_no_fault: "th_reach st body x s \<Longrightarrow> reach x \<Longrightarrow> th_step st body s e \<noteq> Some (Inl f)"
  using run_step [OF run_reach] by blast

lemma run_final:
  assumes "th_reach st body x s" "reach x" "th_main s = MainReport"
  shows "final (th_body s)"
  using run_reach [OF assms(1,2)] start_reach_inv [OF assms(1)] assms(3) ended
  by (simp add: run_ok_def start_inv_def)

text \<open>A thread inside its body, or at its end, does not block \<open>main\<close>.\<close>

lemma run_open_enabled:
  assumes ok: "run_ok s" and a: "after_open st s" and "start_inv st s" "th_main s \<noteq> MainReport"
  shows "\<exists>e r. th_step st body s e = Some r"
proof -
  note d = after_openD [OF a]
  from ok have reach: "reach (th_body s)" by (simp add: run_ok_def)
  consider "th_producer s = AtBarrier 0" | "th_producer s = InBody" | "th_consumer s = AtBarrier 0"
    | "th_consumer s = InBody" | "th_producer s = AtEnd" "th_consumer s = AtEnd" using d(1,2) by blast
  then show ?thesis
  proof cases
    case 1
    with d(4) show ?thesis by (intro exI [of _ PStep]) simp
  next
    case 2
    show ?thesis
    proof (cases "bb_p_end body (th_body s)")
      case True
      with 2 show ?thesis by (intro exI [of _ PStep]) simp
    next
      case False
      from producer_live [OF reach this] obtain e r where "\<not> bb_mine body e" "bb_step body (th_body s) e = Some r" by blast
      with 2 False show ?thesis by (intro exI [of _ "BodyStep e"]) simp
    qed
  next
    case 3
    with d(4) show ?thesis by (intro exI [of _ CStep]) simp
  next
    case 4
    show ?thesis
    proof (cases "bb_c_end body (th_body s)")
      case True
      with 4 show ?thesis by (intro exI [of _ CStep]) simp
    next
      case False
      from consumer_live [OF reach this] obtain e r where "bb_mine body e" "bb_step body (th_body s) e = Some r" by blast
      with 4 False show ?thesis by (intro exI [of _ "BodyStep e"]) simp
    qed
  next
    case 5
    with d(3,4) assms(4) show ?thesis by (intro exI [of _ MStep]) auto
  qed
qed

lemma run_not_stuck:
  assumes r: "th_reach st body x s" "reach x" and pins: "pinned (producer_pin st)" "pinned (consumer_pin st)"
    and main: "th_main s \<noteq> MainReport"
  shows "\<exists>e r. th_step st body s e = Some r"
proof -
  have inv: "start_inv st s" by (rule start_reach_inv [OF r(1)])
  then consider "after_open st s" | "before_open st s" by (auto simp: start_inv_def)
  then show ?thesis
  proof cases
    case 1
    from run_open_enabled [OF run_reach [OF r] this inv main] show ?thesis .
  next
    case 2
    note d = before_openD [OF this]
    have "th_producer s \<noteq> Panicked" "th_consumer s \<noteq> Panicked" using inv pins by (auto simp: start_inv_def pins_ok_def)
    with d(1,2) consider "th_producer s = AtPin" | "th_producer s = AtWait" | "th_consumer s = AtPin"
      | "th_consumer s = AtWait" | "th_producer s = AtBarrier 0" "th_consumer s = AtBarrier 0" by blast
    then show ?thesis
    proof cases
      case 1
      then show ?thesis by (intro exI [of _ PStep]) simp
    next
      case 2
      then show ?thesis by (intro exI [of _ PStep]) (simp split: prod.split)
    next
      case 3
      then show ?thesis by (intro exI [of _ CStep]) simp
    next
      case 4
      then show ?thesis by (intro exI [of _ CStep]) (simp split: prod.split)
    next
      case 5
      with d(3,5,6) have "th_main s = MainWait" by (auto simp: parties_def split: if_splits)
      then show ?thesis by (intro exI [of _ MStep]) (simp split: prod.split)
    qed
  qed
qed

end

end
