(* ===== verification/Ring.thy ===== *)
theory Ring
  imports Prelude
begin

text \<open>
  Rings of slots. \<open>ring_window C h xs ss\<close> says that the \<open>C\<close> slots \<open>ss\<close> hold exactly the values
  \<open>xs\<close>, from position \<open>h\<close> on, each at its position modulo \<open>C\<close>, and no others. Writing at the
  end and taking from the front keep the window; an empty window has no value left.
\<close>

definition ring_window :: "nat \<Rightarrow> nat \<Rightarrow> 'a list \<Rightarrow> 'a option list \<Rightarrow> bool" where
  "ring_window C h xs ss \<longleftrightarrow>
     length ss = C \<and> length xs \<le> C \<and>
     (\<forall>i<C. ss ! ((h + i) mod C) = (if i < length xs then Some (xs ! i) else None))"

lemma ring_windowD:
  assumes "ring_window C h xs ss"
  shows "length ss = C" "length xs \<le> C"
    "i < C \<Longrightarrow> ss ! ((h + i) mod C) = (if i < length xs then Some (xs ! i) else None)"
  using assms by (auto simp: ring_window_def)

lemma ring_window_at:
  assumes "ring_window C h xs ss" "h \<le> k" "k < h + C"
  shows "k mod C < length ss"
    "ss ! (k mod C) = (if k - h < length xs then Some (xs ! (k - h)) else None)"
  using ring_windowD(1) [OF assms(1)] ring_windowD(3) [OF assms(1), of "k - h"] assms(2,3)
  by (auto intro: mod_less_divisor)

lemma window_slot_eq:
  fixes h i j C :: nat
  assumes "i < C" "j < C"
  shows "(h + i) mod C = (h + j) mod C \<longleftrightarrow> i = j"
proof
  assume eq: "(h + i) mod C = (h + j) mod C"
  show "i = j"
    using mod_eq_window [of "h + i" "h + j" C] mod_eq_window [of "h + j" "h + i" C] eq assms
    by (cases "i \<le> j") auto
qed simp

lemma ring_window_new: "ring_window C h [] (replicate C None)"
  by (cases "C = 0") (auto simp: ring_window_def)

lemma ring_window_write:
  assumes "ring_window C h xs ss" "length xs < C"
  shows "ring_window C h (xs @ [x]) (ss[(h + length xs) mod C := Some x])"
  unfolding ring_window_def
proof (intro conjI allI impI)
  note w = ring_windowD [OF assms(1)]
  fix i assume i: "i < C"
  have "(h + length xs) mod C < length ss" using w(1) i by simp
  then show "ss[(h + length xs) mod C := Some x] ! ((h + i) mod C) =
      (if i < length (xs @ [x]) then Some ((xs @ [x]) ! i) else None)"
    using w(3) [OF i] window_slot_eq [OF i assms(2), of h]
    by (auto simp: nth_list_update nth_append)
qed (use assms in \<open>auto simp: ring_window_def\<close>)

lemma ring_window_read:
  assumes "ring_window C h (x # xs) ss"
  shows "h mod C < length ss" "ss ! (h mod C) = Some x"
    "ring_window C (Suc h) xs (ss[h mod C := None])"
proof -
  note w = ring_windowD [OF assms]
  from w(2) have pos: "0 < C" by auto
  with w(1) show "h mod C < length ss" by simp
  from w(3) [OF pos] show "ss ! (h mod C) = Some x" by simp
  show "ring_window C (Suc h) xs (ss[h mod C := None])"
    unfolding ring_window_def
  proof (intro conjI allI impI)
    fix i assume i: "i < C"
    show "ss[h mod C := None] ! ((Suc h + i) mod C) = (if i < length xs then Some (xs ! i) else None)"
    proof (cases "Suc i < C")
      case True
      then show ?thesis
        using w(3) [OF True] window_slot_eq [of "Suc i" C 0 h] w(1) by (auto simp: nth_list_update)
    next
      case False
      with i have "Suc h + i = h + C" by simp
      then have "(Suc h + i) mod C = h mod C" by (metis mod_add_self2)
      with False i w(1,2) pos show ?thesis by simp
    qed
  qed (use w(1,2) in auto)
qed

lemma ring_window_empty:
  assumes "ring_window C h [] ss"
  shows "ss = replicate C None"
proof (rule nth_equalityI)
  note w = ring_windowD [OF assms]
  show "length ss = length (replicate C None :: 'a option list)" using w(1) by simp
  fix k assume "k < length ss"
  then have k: "k < C" using w(1) by simp
  define i where "i = (k + (C - h mod C)) mod C"
  have "(h + i) mod C = (h mod C + (k + (C - h mod C))) mod C"
    unfolding i_def by (metis mod_add_eq mod_add_right_eq)
  also have "h mod C + (k + (C - h mod C)) = k + C"
  proof -
    have "h mod C < C" using k by simp
    then show ?thesis by linarith
  qed
  finally have "(h + i) mod C = k" using k by simp
  moreover have "i < C" using k by (simp add: i_def)
  ultimately show "ss ! k = replicate C None ! k" using w(3) [of i] k by simp
qed

end
