(* ===== verification/Spsc_Queue.thy ===== *)
theory Spsc_Queue
  imports Mem Ring
begin

text \<open>
  The SPSC queue, \<open>src/src/spsc\<close>, as sequential operations: each call of \<open>push\<close> or \<open>pop\<close>
  runs to its end before the next. The state is the shared \<open>Queue\<close> and the two handles with
  their cached counters; a slot is \<open>None\<close> while it holds no value, so a read of such a slot,
  or of a slot outside the allocation, is a fault of the model. The interface
  \<open>bounded_fifo\<close> says what a bounded queue promises, and the queue is an instance of it.
  The interleaved operations under weak memory are in \<open>Spsc_Concurrent\<close>.
\<close>

section \<open>The bounded queue interface\<close>

locale bounded_fifo =
  fixes enq :: "'s \<Rightarrow> 'a \<Rightarrow> 'f + ('a option \<times> 's)"
    and deq :: "'s \<Rightarrow> 'f + ('a option \<times> 's)"
    and contents :: "'s \<Rightarrow> 'a list"
    and invar :: "'s \<Rightarrow> bool"
    and capacity :: nat
  assumes contents_bounded: "invar s \<Longrightarrow> length (contents s) \<le> capacity"
    and enq_space: "invar s \<Longrightarrow> length (contents s) < capacity \<Longrightarrow>
      \<exists>s'. enq s x = Inr (None, s') \<and> invar s' \<and> contents s' = contents s @ [x]"
    and enq_full: "invar s \<Longrightarrow> length (contents s) = capacity \<Longrightarrow>
      \<exists>s'. enq s x = Inr (Some x, s') \<and> invar s' \<and> contents s' = contents s"
    and deq_empty: "invar s \<Longrightarrow> contents s = [] \<Longrightarrow>
      \<exists>s'. deq s = Inr (None, s') \<and> invar s' \<and> contents s' = []"
    and deq_item: "invar s \<Longrightarrow> contents s = x # xs \<Longrightarrow>
      \<exists>s'. deq s = Inr (Some x, s') \<and> invar s' \<and> contents s' = xs"

text \<open>Sequences of calls: the concrete run and the run of the list it stands for.\<close>

datatype 'a call = Enq 'a | Deq

datatype 'a answer = EnqAnswer "'a option" | DeqAnswer "'a option"

fun run_calls ::
  "('s \<Rightarrow> 'a \<Rightarrow> 'f + ('a option \<times> 's)) \<Rightarrow> ('s \<Rightarrow> 'f + ('a option \<times> 's)) \<Rightarrow>
     's \<Rightarrow> 'a call list \<Rightarrow> 'f + ('a answer list \<times> 's)" where
  "run_calls enq deq s [] = Inr ([], s)"
| "run_calls enq deq s (Enq x # cs) =
     (case enq s x of
        Inl e \<Rightarrow> Inl e
      | Inr (r, s') \<Rightarrow> (case run_calls enq deq s' cs of
          Inl e \<Rightarrow> Inl e | Inr (rs, s'') \<Rightarrow> Inr (EnqAnswer r # rs, s'')))"
| "run_calls enq deq s (Deq # cs) =
     (case deq s of
        Inl e \<Rightarrow> Inl e
      | Inr (r, s') \<Rightarrow> (case run_calls enq deq s' cs of
          Inl e \<Rightarrow> Inl e | Inr (rs, s'') \<Rightarrow> Inr (DeqAnswer r # rs, s'')))"

fun list_run :: "nat \<Rightarrow> 'a list \<Rightarrow> 'a call list \<Rightarrow> 'a answer list \<times> 'a list" where
  "list_run cap xs [] = ([], xs)"
| "list_run cap xs (Enq x # cs) =
     (if length xs < cap
      then (let (rs, ys) = list_run cap (xs @ [x]) cs in (EnqAnswer None # rs, ys))
      else (let (rs, ys) = list_run cap xs cs in (EnqAnswer (Some x) # rs, ys)))"
| "list_run cap [] (Deq # cs) = (let (rs, ys) = list_run cap [] cs in (DeqAnswer None # rs, ys))"
| "list_run cap (x # xs) (Deq # cs) =
     (let (rs, ys) = list_run cap xs cs in (DeqAnswer (Some x) # rs, ys))"

text \<open>What was accepted and what was delivered in a run.\<close>

fun accepted :: "'a call list \<Rightarrow> 'a answer list \<Rightarrow> 'a list" where
  "accepted (Enq x # cs) (EnqAnswer None # rs) = x # accepted cs rs"
| "accepted (_ # cs) (_ # rs) = accepted cs rs"
| "accepted _ _ = []"

fun delivered :: "'a answer list \<Rightarrow> 'a list" where
  "delivered (DeqAnswer (Some x) # rs) = x # delivered rs"
| "delivered (_ # rs) = delivered rs"
| "delivered [] = []"

lemma list_run_fifo:
  "list_run cap xs cs = (rs, ys) \<Longrightarrow> xs @ accepted cs rs = delivered rs @ ys"
proof (induction cap xs cs arbitrary: rs ys rule: list_run.induct)
  case (2 cap xs x cs)
  then show ?case
    by (cases "length xs < cap") (auto split: prod.splits simp: Let_def)
qed (auto split: prod.splits simp: Let_def)

context bounded_fifo
begin

lemma enq_cases:
  assumes "invar s"
  obtains s' where "length (contents s) < capacity" "enq s x = Inr (None, s')" "invar s'"
      "contents s' = contents s @ [x]"
    | s' where "length (contents s) = capacity" "enq s x = Inr (Some x, s')" "invar s'"
      "contents s' = contents s"
proof (cases "length (contents s) < capacity")
  case True
  with enq_space [OF assms] that(1) show thesis by blast
next
  case False
  with contents_bounded [OF assms] have "length (contents s) = capacity" by simp
  with enq_full [OF assms] that(2) show thesis by blast
qed

lemma run_calls_list_run:
  "invar s \<Longrightarrow> \<exists>s'. invar s' \<and>
     run_calls enq deq s cs = Inr (fst (list_run capacity (contents s) cs), s') \<and>
     contents s' = snd (list_run capacity (contents s) cs)"
proof (induction cs arbitrary: s)
  case Nil
  then show ?case by auto
next
  case (Cons c cs)
  show ?case
  proof (cases c)
    case (Enq x)
    from Cons.prems show ?thesis
    proof (cases rule: enq_cases [where x = x])
      case (1 s')
      from Cons.IH [OF \<open>invar s'\<close>] 1 Enq show ?thesis
        by (auto simp: Let_def split: prod.split)
    next
      case (2 s')
      from Cons.IH [OF \<open>invar s'\<close>] 2 Enq show ?thesis
        by (auto simp: Let_def split: prod.split)
    qed
  next
    case Deq
    show ?thesis
    proof (cases "contents s")
      case Nil
      with deq_empty [OF Cons.prems] obtain s' where
        "deq s = Inr (None, s')" "invar s'" "contents s' = []" by blast
      with Cons.IH [of s'] Nil Deq show ?thesis
        by (auto simp: Let_def split: prod.split)
    next
      case (Cons x xs)
      with deq_item [OF Cons.prems] obtain s' where
        "deq s = Inr (Some x, s')" "invar s'" "contents s' = xs" by blast
      with Cons.IH [of s'] Cons Deq show ?thesis
        by (auto simp: Let_def split: prod.split)
    qed
  qed
qed

text \<open>First in, first out, with nothing lost, duplicated or invented.\<close>

lemma run_calls_fifo:
  assumes "invar s" "run_calls enq deq s cs = Inr (rs, s')"
  shows "contents s @ accepted cs rs = delivered rs @ contents s'"
proof -
  from run_calls_list_run [OF assms(1), of cs] assms(2)
  have "list_run capacity (contents s) cs = (rs, contents s')"
    by (auto intro: prod_eqI)
  then show ?thesis by (rule list_run_fifo)
qed

lemma run_calls_total: "invar s \<Longrightarrow> \<exists>rs s'. run_calls enq deq s cs = Inr (rs, s') \<and> invar s'"
  using run_calls_list_run by blast

end

section \<open>The queue and its handles\<close>

text \<open>\<open>Queue\<close>, \<open>Producer\<close> and \<open>Consumer\<close> (\<open>queue.rs\<close>, \<open>producer.rs\<close>, \<open>consumer.rs\<close>).\<close>

record 'a queue =
  slots :: "'a option list"
  head :: usize
  tail :: usize

record producer =
  p_cached_head :: usize
  p_cached_tail :: usize

record consumer =
  c_cached_head :: usize
  c_cached_tail :: usize

type_synonym 'a spsc = "'a queue \<times> producer \<times> consumer"

text \<open>
  \<open>spsc::new\<close>: the capacity check of the \<open>const\<close> block, the allocation by the allocator
  given as a parameter, and the two handles with both caches at 0.
\<close>

definition producer_new :: producer where
  "producer_new = \<lparr>p_cached_head = 0, p_cached_tail = 0\<rparr>"

definition consumer_new :: consumer where
  "consumer_new = \<lparr>c_cached_head = 0, c_cached_tail = 0\<rparr>"

definition spsc_new ::
  "(usize \<Rightarrow> 'o \<Rightarrow> fault + ('a, 'z) region_scheme) \<Rightarrow> usize \<Rightarrow> 'o \<Rightarrow> fault + 'a spsc" where
  "spsc_new allocate cap options =
     (if \<not> is_power_of_two cap then Inl CapacityNotPowerOfTwo
      else case allocate cap options of
        Inl e \<Rightarrow> Inl e
      | Inr slots_allocation \<Rightarrow>
          Inr (\<lparr>slots = cells slots_allocation, head = 0, tail = 0\<rparr>, producer_new, consumer_new))"

text \<open>
  The raw pointer accesses. A write fills the slot; a read moves the value out, so the slot
  holds no value afterwards.
\<close>

definition slot_write :: "usize \<Rightarrow> usize \<Rightarrow> 'a \<Rightarrow> 'a option list \<Rightarrow> fault + 'a option list" where
  "slot_write cap i x ss =
     (let k = slot_index cap i in if k < length ss then Inr (ss[k := Some x]) else Inl OutOfBounds)"

definition slot_read :: "usize \<Rightarrow> usize \<Rightarrow> 'a option list \<Rightarrow> fault + ('a \<times> 'a option list)" where
  "slot_read cap i ss =
     (let k = slot_index cap i in
      if k < length ss
      then (case ss ! k of None \<Rightarrow> Inl UninitRead | Some x \<Rightarrow> Inr (x, ss[k := None]))
      else Inl OutOfBounds)"

definition still_full :: "usize \<Rightarrow> 'a queue \<Rightarrow> producer \<Rightarrow> bool \<times> producer" where
  "still_full cap q p =
     (let p = p\<lparr>p_cached_head := head q\<rparr>
      in if p_cached_tail p - p_cached_head p = cap then (True, p) else (False, p))"

text \<open>The part of \<open>push\<close> after the fullness check. \<open>+= 1\<close> wraps as in a release build.\<close>

definition push_write ::
  "usize \<Rightarrow> 'a queue \<Rightarrow> producer \<Rightarrow> 'a \<Rightarrow> fault + ('a option \<times> 'a queue \<times> producer)" where
  "push_write cap q p item =
     (case slot_write cap (p_cached_tail p) item (slots q) of
        Inl e \<Rightarrow> Inl e
      | Inr ss \<Rightarrow>
          let p = p\<lparr>p_cached_tail := p_cached_tail p + 1\<rparr>
          in Inr (None, q\<lparr>slots := ss, tail := p_cached_tail p\<rparr>, p))"

definition push ::
  "usize \<Rightarrow> 'a queue \<Rightarrow> producer \<Rightarrow> 'a \<Rightarrow> fault + ('a option \<times> 'a queue \<times> producer)" where
  "push cap q p item =
     (if p_cached_tail p - p_cached_head p = cap
      then (case still_full cap q p of
              (True, p) \<Rightarrow> Inr (Some item, q, p)
            | (False, p) \<Rightarrow> push_write cap q p item)
      else push_write cap q p item)"

definition still_empty :: "'a queue \<Rightarrow> consumer \<Rightarrow> bool \<times> consumer" where
  "still_empty q c =
     (let c = c\<lparr>c_cached_tail := tail q\<rparr> in (c_cached_head c = c_cached_tail c, c))"

definition pop_read ::
  "usize \<Rightarrow> 'a queue \<Rightarrow> consumer \<Rightarrow> fault + ('a option \<times> 'a queue \<times> consumer)" where
  "pop_read cap q c =
     (case slot_read cap (c_cached_head c) (slots q) of
        Inl e \<Rightarrow> Inl e
      | Inr (item, ss) \<Rightarrow>
          let c = c\<lparr>c_cached_head := c_cached_head c + 1\<rparr>
          in Inr (Some item, q\<lparr>slots := ss, head := c_cached_head c\<rparr>, c))"

definition pop ::
  "usize \<Rightarrow> 'a queue \<Rightarrow> consumer \<Rightarrow> fault + ('a option \<times> 'a queue \<times> consumer)" where
  "pop cap q c =
     (if c_cached_head c = c_cached_tail c
      then (case still_empty q c of
              (True, c) \<Rightarrow> Inr (None, q, c)
            | (False, c) \<Rightarrow> pop_read cap q c)
      else pop_read cap q c)"

text \<open>
  \<open>Queue::drop\<close>, run when both handles are gone: drops the items from \<open>head\<close> to \<open>tail\<close> in
  order. The result is the list of dropped items and the emptied slots.
\<close>

fun drop_loop ::
  "usize \<Rightarrow> usize \<Rightarrow> nat \<Rightarrow> 'a option list \<Rightarrow> 'a list \<Rightarrow> fault + ('a list \<times> 'a option list)" where
  "drop_loop cap i 0 ss dropped = Inr (dropped, ss)"
| "drop_loop cap i (Suc n) ss dropped =
     (case slot_read cap i ss of
        Inl e \<Rightarrow> Inl e
      | Inr (x, ss) \<Rightarrow> drop_loop cap (i + 1) n ss (dropped @ [x]))"

definition queue_drop :: "usize \<Rightarrow> 'a queue \<Rightarrow> fault + ('a list \<times> 'a option list)" where
  "queue_drop cap q = drop_loop cap (head q) (unat (tail q - head q)) (slots q) []"

section \<open>The list a queue stands for, and its invariant\<close>

definition spsc_contents :: "usize \<Rightarrow> 'a spsc \<Rightarrow> 'a list" where
  "spsc_contents cap s =
     (case s of (q, p, c) \<Rightarrow>
        map (\<lambda>k. the (slots q ! slot_index cap (head q + of_nat k))) [0..<unat (tail q - head q)])"

text \<open>
  \<open>spsc_rep cap h xs s\<close>: the unbounded number of items popped so far is \<open>h\<close>, the queue holds
  \<open>xs\<close>, the counters are those numbers modulo 2 ^ 64, each handle's cache of the other
  counter is at most out of date in the safe direction, and a slot holds a value iff its
  position is in the queue.
\<close>

definition spsc_rep :: "usize \<Rightarrow> nat \<Rightarrow> 'a list \<Rightarrow> 'a spsc \<Rightarrow> bool" where
  "spsc_rep cap h xs s \<longleftrightarrow>
     (case s of (q, p, c) \<Rightarrow>
        is_power_of_two cap \<and> ring_window (unat cap) h xs (slots q) \<and>
        head q = of_nat h \<and> tail q = of_nat (h + length xs) \<and>
        c_cached_head c = head q \<and> p_cached_tail p = tail q \<and>
        (\<exists>ph\<le>h. h + length xs \<le> ph + unat cap \<and> p_cached_head p = of_nat ph) \<and>
        (\<exists>ct\<ge>h. ct \<le> h + length xs \<and> c_cached_tail c = of_nat ct))"

definition spsc_inv :: "usize \<Rightarrow> 'a spsc \<Rightarrow> bool" where
  "spsc_inv cap s \<longleftrightarrow> (\<exists>h xs. spsc_rep cap h xs s)"

lemma spsc_repI:
  assumes "is_power_of_two cap" "ring_window (unat cap) h xs (slots q)"
    "head q = of_nat h" "tail q = of_nat (h + length xs)"
    "c_cached_head c = head q" "p_cached_tail p = tail q"
    "ph \<le> h" "h + length xs \<le> ph + unat cap" "p_cached_head p = of_nat ph"
    "h \<le> ct" "ct \<le> h + length xs" "c_cached_tail c = of_nat ct"
  shows "spsc_rep cap h xs (q, p, c)"
  using assms unfolding spsc_rep_def by auto

lemma spsc_repE:
  assumes "spsc_rep cap h xs (q, p, c)"
  obtains ph ct where "is_power_of_two cap" "ring_window (unat cap) h xs (slots q)"
    "head q = of_nat h" "tail q = of_nat (h + length xs)"
    "c_cached_head c = of_nat h" "p_cached_tail p = of_nat (h + length xs)"
    "ph \<le> h" "h + length xs \<le> ph + unat cap" "p_cached_head p = of_nat ph"
    "h \<le> ct" "ct \<le> h + length xs" "c_cached_tail c = of_nat ct"
  using assms unfolding spsc_rep_def by auto

lemma spsc_rep_bound:
  "spsc_rep cap h xs (q, p, c) \<Longrightarrow> is_power_of_two cap"
  "spsc_rep cap h xs (q, p, c) \<Longrightarrow> ring_window (unat cap) h xs (slots q)"
  "spsc_rep cap h xs (q, p, c) \<Longrightarrow> length xs \<le> unat cap"
  by (auto simp: spsc_rep_def dest: ring_windowD)

lemma spsc_rep_len:
  assumes "spsc_rep cap h xs (q, p, c)"
  shows "unat (tail q - head q) = length xs"
proof -
  from spsc_rep_bound(3) [OF assms] power_of_two_bound [OF spsc_rep_bound(1) [OF assms]]
  have "h + length xs - h < 2 ^ 64" by simp
  from wrapping_sub_of_nat [OF _ this] assms show ?thesis by (auto elim!: spsc_repE)
qed

lemma spsc_rep_contents: "spsc_rep cap h xs s \<Longrightarrow> spsc_contents cap s = xs"
proof (cases s)
  case (fields q p c)
  assume "spsc_rep cap h xs s"
  with fields have rep: "spsc_rep cap h xs (q, p, c)" by simp
  note w = ring_windowD [OF spsc_rep_bound(2) [OF rep]]
  have "the (slots q ! slot_index cap (head q + of_nat k)) = xs ! k" if "k < length xs" for k
  proof -
    from rep have "head q + of_nat k = of_nat (h + k)" by (auto elim!: spsc_repE)
    then have "slot_index cap (head q + of_nat k) = (h + k) mod unat cap"
      by (simp only: slot_index_of_nat [OF spsc_rep_bound(1) [OF rep]])
    with w(2) w(3) [of k] that show ?thesis by simp
  qed
  then show ?thesis
    by (auto simp: spsc_contents_def fields spsc_rep_len [OF rep] intro: nth_equalityI)
qed

lemma spsc_inv_rep: "spsc_inv cap s \<longleftrightarrow> (\<exists>h. spsc_rep cap h (spsc_contents cap s) s)"
  unfolding spsc_inv_def by (metis spsc_rep_contents)

lemma spsc_rep_inv: "spsc_rep cap h xs s \<Longrightarrow> spsc_inv cap s"
  unfolding spsc_inv_def by blast

section \<open>The operations on represented states\<close>

text \<open>What the two cached comparisons of \<open>push\<close> and \<open>pop\<close> mean on positions.\<close>

lemma producer_full_iff:
  assumes "is_power_of_two cap" "t \<le> ph + unat cap" "ph \<le> t"
  shows "(of_nat t :: usize) - of_nat ph = cap \<longleftrightarrow> t = ph + unat cap"
proof -
  from assms power_of_two_bound [OF assms(1)] have "t - ph \<le> 2 ^ 63" by simp
  from wrapping_sub_eq_iff [OF assms(3) this]
  have "(of_nat t :: usize) - of_nat ph = cap \<longleftrightarrow> t - ph = unat cap" .
  also have "\<dots> \<longleftrightarrow> t = ph + unat cap" using assms(3) by arith
  finally show ?thesis .
qed

lemma consumer_empty_iff:
  assumes "is_power_of_two cap" "h \<le> t" "t \<le> h + unat cap"
  shows "(of_nat h :: usize) = of_nat t \<longleftrightarrow> h = t"
proof -
  from assms power_of_two_bound [OF assms(1)] have "t - h < 2 ^ 64" by simp
  from of_nat_eq_iff_near [OF assms(2) this] show ?thesis .
qed

lemma push_write_rep:
  assumes "spsc_rep cap h xs (q, p, c)" "p_cached_tail p - p_cached_head p \<noteq> cap"
  shows "\<exists>q' p'. push_write cap q p x = Inr (None, q', p') \<and>
           spsc_rep cap h (xs @ [x]) (q', p', c) \<and> length xs < unat cap"
  using assms(1)
proof (cases rule: spsc_repE)
  case (1 ph ct)
  have space: "h + length xs < ph + unat cap"
    using producer_full_iff [OF 1(1,8)] 1(6-9) assms(2) by (simp del: of_nat_add)
  with 1(7) have len: "length xs < unat cap" by simp
  let ?k = "(h + length xs) mod unat cap"
  have k: "slot_index cap (p_cached_tail p) = ?k"
    using 1(1,6) by (simp only: slot_index_of_nat)
  have kl: "?k < length (slots q)"
    using 1(1) ring_windowD(1) [OF 1(2)] by (simp add: power_of_two_pos)
  let ?p' = "p\<lparr>p_cached_tail := p_cached_tail p + 1\<rparr>"
  let ?q' = "q\<lparr>slots := (slots q)[?k := Some x], tail := p_cached_tail ?p'\<rparr>"
  have "push_write cap q p x = Inr (None, ?q', ?p')"
    using kl by (simp add: push_write_def slot_write_def k)
  moreover have "spsc_rep cap h (xs @ [x]) (?q', ?p', c)"
    by (rule spsc_repI [where ph = ph and ct = ct])
      (use 1 space ring_window_write [OF 1(2) len] in auto)
  ultimately show ?thesis using len by blast
qed

lemma push_space:
  assumes rep: "spsc_rep cap h xs (q, p, c)" and len: "length xs < unat cap"
  shows "\<exists>q' p'. push cap q p x = Inr (None, q', p') \<and> spsc_rep cap h (xs @ [x]) (q', p', c)"
proof (cases "p_cached_tail p - p_cached_head p = cap")
  case False
  with push_write_rep [OF rep, of x] show ?thesis by (auto simp: push_def)
next
  case True
  let ?p = "p\<lparr>p_cached_head := head q\<rparr>"
  from rep len have rep': "spsc_rep cap h xs (q, ?p, c)"
    by (cases rule: spsc_repE) (rule spsc_repI [where ph = h], auto)
  from rep have "p_cached_tail ?p - p_cached_head ?p \<noteq> cap"
  proof (cases rule: spsc_repE)
    case (1 ph ct)
    with len producer_full_iff [of cap "h + length xs" h] show ?thesis
      by (simp del: of_nat_add)
  qed
  with push_write_rep [OF rep' this, of x] True show ?thesis
    by (auto simp: push_def still_full_def Let_def)
qed

lemma push_full:
  assumes rep: "spsc_rep cap h xs (q, p, c)" and len: "length xs = unat cap"
  shows "\<exists>p'. push cap q p x = Inr (Some x, q, p') \<and> spsc_rep cap h xs (q, p', c)"
  using rep
proof (cases rule: spsc_repE)
  case (1 ph ct)
  let ?p = "p\<lparr>p_cached_head := head q\<rparr>"
  from 1 len have rep': "spsc_rep cap h xs (q, ?p, c)"
    by (intro spsc_repI [where ph = h and ct = ct]) auto
  from 1(7,8) len have "ph = h" by simp
  with 1 producer_full_iff [of cap "h + length xs" h] len
  have "p_cached_tail p - p_cached_head p = cap" "p_cached_tail p - head q = cap"
    by (simp_all del: of_nat_add)
  then show ?thesis using rep' by (auto simp: push_def still_full_def Let_def)
qed

lemma slot_read_window:
  assumes "is_power_of_two cap" "ring_window (unat cap) h (x # xs) ss"
  shows "slot_read cap (of_nat h) ss = Inr (x, ss[h mod unat cap := None])"
  using ring_window_read(1,2) [OF assms(2)] by (simp add: slot_read_def slot_index_of_nat assms(1))

lemma pop_read_rep:
  assumes "spsc_rep cap h (x # xs) (q, p, c)" "c_cached_head c \<noteq> c_cached_tail c"
  shows "\<exists>q' c'. pop_read cap q c = Inr (Some x, q', c') \<and> spsc_rep cap (Suc h) xs (q', p, c')"
  using assms(1)
proof (cases rule: spsc_repE)
  case (1 ph ct)
  let ?c' = "c\<lparr>c_cached_head := c_cached_head c + 1\<rparr>"
  let ?q' = "q\<lparr>slots := (slots q)[h mod unat cap := None], head := c_cached_head ?c'\<rparr>"
  have "pop_read cap q c = Inr (Some x, ?q', ?c')"
    using slot_read_window [OF 1(1,2)] 1(5) by (simp add: pop_read_def)
  moreover have "Suc h \<le> ct" using assms(2) 1(5,10,12) le_neq_implies_less by fastforce
  then have "spsc_rep cap (Suc h) xs (?q', p, ?c')"
    by (intro spsc_repI [where ph = ph and ct = ct])
      (use 1 ring_window_read(3) [OF 1(2)] in auto)
  ultimately show ?thesis by blast
qed

lemma pop_item:
  assumes rep: "spsc_rep cap h (x # xs) (q, p, c)"
  shows "\<exists>q' c'. pop cap q c = Inr (Some x, q', c') \<and> spsc_rep cap (Suc h) xs (q', p, c')"
proof (cases "c_cached_head c = c_cached_tail c")
  case False
  with pop_read_rep [OF rep] show ?thesis by (auto simp: pop_def)
next
  case True
  let ?c = "c\<lparr>c_cached_tail := tail q\<rparr>"
  from rep have rep': "spsc_rep cap h (x # xs) (q, p, ?c)"
    by (cases rule: spsc_repE) (rule spsc_repI [where ct = "h + length (x # xs)"], auto)
  from rep have "c_cached_head ?c \<noteq> c_cached_tail ?c"
  proof (cases rule: spsc_repE)
    case (1 ph ct)
    with consumer_empty_iff [of cap h "h + length (x # xs)"] show ?thesis
      by (simp del: of_nat_add of_nat_Suc)
  qed
  with pop_read_rep [OF rep' this] True show ?thesis
    by (auto simp: pop_def still_empty_def Let_def)
qed

lemma pop_empty:
  assumes rep: "spsc_rep cap h [] (q, p, c)"
  shows "\<exists>c'. pop cap q c = Inr (None, q, c') \<and> spsc_rep cap h [] (q, p, c')"
  using rep
proof (cases rule: spsc_repE)
  case (1 ph ct)
  let ?c = "c\<lparr>c_cached_tail := tail q\<rparr>"
  from 1(10,11) have "ct = h" by simp
  with 1(5,12) have "c_cached_head c = c_cached_tail c" by simp
  moreover have "c_cached_head c = tail q" using 1(4,5) by simp
  ultimately have "pop cap q c = Inr (None, q, ?c)"
    by (simp add: pop_def still_empty_def)
  moreover have "spsc_rep cap h [] (q, p, ?c)"
    by (rule spsc_repI [where ph = ph and ct = h]) (use 1 in simp_all)
  ultimately show ?thesis by blast
qed

section \<open>The queue is a bounded FIFO\<close>

definition spsc_enq :: "usize \<Rightarrow> 'a spsc \<Rightarrow> 'a \<Rightarrow> fault + ('a option \<times> 'a spsc)" where
  "spsc_enq cap s x =
     (case s of (q, p, c) \<Rightarrow>
        case push cap q p x of Inl e \<Rightarrow> Inl e | Inr (r, q, p) \<Rightarrow> Inr (r, (q, p, c)))"

definition spsc_deq :: "usize \<Rightarrow> 'a spsc \<Rightarrow> fault + ('a option \<times> 'a spsc)" where
  "spsc_deq cap s =
     (case s of (q, p, c) \<Rightarrow>
        case pop cap q c of Inl e \<Rightarrow> Inl e | Inr (r, q, c) \<Rightarrow> Inr (r, (q, p, c)))"

interpretation spsc: bounded_fifo "spsc_enq cap" "spsc_deq cap" "spsc_contents cap" "spsc_inv cap" "unat cap"
  for cap :: usize
proof unfold_locales
  fix s :: "'a spsc"
  obtain q p c where s: "s = (q, p, c)" by (cases s)
  assume "spsc_inv cap s"
  then obtain h where rep: "spsc_rep cap h (spsc_contents cap s) (q, p, c)"
    by (auto simp: spsc_inv_rep s)
  show "length (spsc_contents cap s) \<le> unat cap"
    using spsc_rep_bound(3) [OF rep] .
  show "\<exists>s'. spsc_enq cap s x = Inr (None, s') \<and> spsc_inv cap s' \<and>
      spsc_contents cap s' = spsc_contents cap s @ [x]"
    if "length (spsc_contents cap s) < unat cap" for x
    using push_space [OF rep that, of x]
    by (force simp: spsc_enq_def s intro: spsc_rep_inv spsc_rep_contents)
  show "\<exists>s'. spsc_enq cap s x = Inr (Some x, s') \<and> spsc_inv cap s' \<and>
      spsc_contents cap s' = spsc_contents cap s"
    if "length (spsc_contents cap s) = unat cap" for x
    using push_full [OF rep that, of x]
    by (force simp: spsc_enq_def s intro: spsc_rep_inv spsc_rep_contents)
  show "\<exists>s'. spsc_deq cap s = Inr (None, s') \<and> spsc_inv cap s' \<and> spsc_contents cap s' = []"
    if "spsc_contents cap s = []"
    using pop_empty [of cap h q p c] rep that
    by (force simp: spsc_deq_def s intro: spsc_rep_inv spsc_rep_contents)
  show "\<exists>s'. spsc_deq cap s = Inr (Some x, s') \<and> spsc_inv cap s' \<and> spsc_contents cap s' = xs"
    if "spsc_contents cap s = x # xs" for x xs
    using pop_item [of cap h x xs q p c] rep that
    by (force simp: spsc_deq_def s intro: spsc_rep_inv spsc_rep_contents)
qed

section \<open>Construction and destruction\<close>

context slot_allocator
begin

lemma spsc_new_rep:
  assumes "spsc_new allocate cap opts = Inr s"
  shows "spsc_rep cap 0 [] s"
  using assms allocate_cells [of cap opts]
  by (auto simp: spsc_new_def producer_new_def consumer_new_def spsc_rep_def ring_window_new
      split: if_splits sum.splits intro!: exI [of _ 0])

end

text \<open>The drop loop releases the items in order and leaves no slot with a value.\<close>

lemma drop_loop_window:
  assumes "is_power_of_two cap" "ring_window (unat cap) h xs ss"
  shows "drop_loop cap (of_nat h) (length xs) ss acc = Inr (acc @ xs, replicate (unat cap) None)"
  using assms(2)
proof (induction xs arbitrary: h ss acc)
  case Nil
  then show ?case by (simp add: ring_window_empty)
next
  case (Cons x xs)
  have "(of_nat h :: usize) + 1 = of_nat (Suc h)" by simp
  with Cons.IH [OF ring_window_read(3) [OF Cons.prems], of "acc @ [x]"]
    slot_read_window [OF assms(1) Cons.prems] show ?case
    by (simp del: of_nat_Suc)
qed

lemma queue_drop_rep:
  assumes "spsc_rep cap h xs (q, p, c)"
  shows "queue_drop cap q = Inr (xs, replicate (unat cap) None)"
  using assms
proof (cases rule: spsc_repE)
  case (1 ph ct)
  have "queue_drop cap q = drop_loop cap (of_nat h) (length xs) (slots q) []"
    unfolding queue_drop_def using spsc_rep_len [OF assms] 1(3) by simp
  also have "\<dots> = Inr ([] @ xs, replicate (unat cap) None)"
    by (rule drop_loop_window [OF 1(1,2)])
  finally show ?thesis by simp
qed

section \<open>Properties\<close>

text \<open>
  C6: Any sequence of \<open>push\<close> and \<open>pop\<close> calls on a queue made by \<open>spsc::new\<close>, with any
  allocator that hands out uninitialised cells, answers as the bounded list does (\<open>push\<close> hands
  the item back exactly when \<open>CAPACITY\<close> items are in the queue, \<open>pop\<close> returns the oldest item or
  nothing when it is empty), meets no fault (no access out of bounds, no read of an
  uninitialised slot), and leaves the list's contents.
\<close>

theorem spsc_calls_refine_list:
  assumes "slot_allocator allocate" "spsc_new allocate cap opts = Inr s"
  shows "\<exists>s'. run_calls (spsc_enq cap) (spsc_deq cap) s cs = Inr (fst (list_run (unat cap) [] cs), s') \<and>
    spsc_contents cap s' = snd (list_run (unat cap) [] cs)"
proof -
  have rep: "spsc_rep cap 0 [] s" by (rule slot_allocator.spsc_new_rep [OF assms])
  from spsc.run_calls_list_run [OF spsc_rep_inv [OF rep], of cs, unfolded spsc_rep_contents [OF rep]]
  show ?thesis by blast
qed

definition demo_alloc :: "usize \<Rightarrow> global_options \<Rightarrow> fault + nat global_allocation" where
  "demo_alloc = global_allocate demo_os 8 8"

lemma demo_slot_allocator: "slot_allocator demo_alloc"
  unfolding demo_alloc_def by (rule galloc.slot_allocator_axioms)

lemma demo_spsc_new:
  "spsc_new demo_alloc 2 \<lparr>g_mlock = True\<rparr> =
     Inr (\<lparr>slots = [None, None], head = 0, tail = 0\<rparr>, producer_new, consumer_new)"
  by code_simp

theorem spsc_calls_refine_list_witness:
  "\<exists>s s'. spsc_new demo_alloc 2 \<lparr>g_mlock = True\<rparr> = Inr s \<and>
    run_calls (spsc_enq 2) (spsc_deq 2) s [Enq 1, Enq 2, Enq 3, Deq, Enq 4, Deq, Deq, Deq] =
      Inr ([EnqAnswer None, EnqAnswer None, EnqAnswer (Some 3), DeqAnswer (Some 1), EnqAnswer None,
        DeqAnswer (Some 2), DeqAnswer (Some 4), DeqAnswer None], s') \<and> spsc_contents 2 s' = []"
  using spsc_calls_refine_list [OF demo_slot_allocator demo_spsc_new,
      of "[Enq 1, Enq 2, Enq 3, Deq, Enq 4, Deq, Deq, Deq]"] demo_spsc_new
  by (simp add: Let_def)

text \<open>
  After any sequence of calls, dropping the queue drops exactly the items that were
  accepted and not delivered, in order, and leaves no slot with a value: every accepted item
  is either returned by a \<open>pop\<close> or dropped by \<open>Queue::drop\<close>, once.
\<close>

theorem spsc_drop_exact:
  assumes "slot_allocator allocate" "spsc_new allocate cap opts = Inr s"
    and "run_calls (spsc_enq cap) (spsc_deq cap) s cs = Inr (rs, (q, p, c))"
  shows "\<exists>rest. queue_drop cap q = Inr (rest, replicate (unat cap) None) \<and>
    accepted cs rs = delivered rs @ rest"
proof -
  have rep: "spsc_rep cap 0 [] s" by (rule slot_allocator.spsc_new_rep [OF assms(1,2)])
  from spsc.run_calls_fifo [OF spsc_rep_inv [OF rep] assms(3)] spsc_rep_contents [OF rep]
  have "accepted cs rs = delivered rs @ spsc_contents cap (q, p, c)" by simp
  moreover from spsc.run_calls_list_run [OF spsc_rep_inv [OF rep], of cs] assms(3)
  have "spsc_inv cap (q, p, c)" by auto
  then have "queue_drop cap q = Inr (spsc_contents cap (q, p, c), replicate (unat cap) None)"
    by (auto simp: spsc_inv_rep dest: queue_drop_rep)
  ultimately show ?thesis by blast
qed

lemma demo_spsc_run:
  "run_calls (spsc_enq 2) (spsc_deq 2)
      (\<lparr>slots = [None, None], head = 0, tail = 0\<rparr>, producer_new, consumer_new)
      [Enq 1, Enq 2, Deq, Enq (3 :: nat)] =
    Inr ([EnqAnswer None, EnqAnswer None, DeqAnswer (Some 1), EnqAnswer None],
      (\<lparr>slots = [Some 3, Some 2], head = 1, tail = 3\<rparr>,
       \<lparr>p_cached_head = 1, p_cached_tail = 3\<rparr>, \<lparr>c_cached_head = 1, c_cached_tail = 2\<rparr>))"
  by code_simp

lemma two_cells: "replicate (unat (2 :: usize)) (None :: nat option) = [None, None]"
  by code_simp

theorem spsc_drop_exact_witness:
  "\<exists>rest. queue_drop 2 \<lparr>slots = [Some 3, Some 2], head = 1, tail = 3\<rparr> = Inr (rest, [None, None]) \<and>
    [1, 2, 3 :: nat] = [1] @ rest"
  using spsc_drop_exact [OF demo_slot_allocator demo_spsc_new demo_spsc_run, unfolded two_cells]
  by simp

text \<open>An empty queue whose counters stand at any value.\<close>

definition spsc_at :: "usize \<Rightarrow> usize \<Rightarrow> 'a spsc" where
  "spsc_at cap i =
     (\<lparr>slots = replicate (unat cap) None, head = i, tail = i\<rparr>,
      \<lparr>p_cached_head = i, p_cached_tail = i\<rparr>, \<lparr>c_cached_head = i, c_cached_tail = i\<rparr>)"

text \<open>
  The counters may wrap: from an empty queue whose counters stand at any value, \<open>2 ^ 64 - 1\<close>
  included, any sequence of calls answers as the bounded list does.
\<close>

theorem spsc_calls_wrap:
  assumes "is_power_of_two cap"
  shows "\<exists>s'. run_calls (spsc_enq cap) (spsc_deq cap) (spsc_at cap i) cs =
      Inr (fst (list_run (unat cap) [] cs), s') \<and>
    spsc_contents cap s' = snd (list_run (unat cap) [] cs)"
proof -
  have i: "of_nat (unat i) = i" by simp
  have rep: "spsc_rep cap (unat i) [] (spsc_at cap i)"
    unfolding spsc_at_def
    by (rule spsc_repI [where ph = "unat i" and ct = "unat i"]) (simp_all add: assms ring_window_new)
  from spsc.run_calls_list_run [OF spsc_rep_inv [OF rep], of cs, unfolded spsc_rep_contents [OF rep]]
  show ?thesis by blast
qed

lemma two_is_power_of_two: "is_power_of_two 2"
  by code_simp

theorem spsc_calls_wrap_witness:
  "\<exists>s'. run_calls (spsc_enq 2) (spsc_deq 2) (spsc_at 2 (2 ^ 64 - 1)) [Enq 1, Enq (2 :: nat), Enq 3, Deq, Deq] =
      Inr ([EnqAnswer None, EnqAnswer None, EnqAnswer (Some 3), DeqAnswer (Some 1), DeqAnswer (Some 2)], s') \<and>
    spsc_contents 2 s' = []"
  using spsc_calls_wrap [OF two_is_power_of_two, of "2 ^ 64 - 1" "[Enq 1, Enq (2 :: nat), Enq 3, Deq, Deq]"]
  by (simp add: Let_def)

end
