(* ===== verification/Weak_Memory.thy ===== *)
theory Weak_Memory
  imports Prelude
begin

text \<open>
  The memory that the lock-free components run on. It is the view-based operational reading of
  release/acquire atomics, relaxed atomics and fences that the C++/Rust memory model gives to
  programs in which every atomic location has one writing thread, as all of this crate's have:
  the stores to a location form a history in program order of its writer, every thread has a
  view (the oldest entry of each history it may still read), a load picks any entry not older
  than the view, and synchronisation moves views between threads.

  A release store publishes the current view of its thread with the value, a relaxed store the
  view at the last release fence. An acquire load joins the view it finds to the current view
  at once; a relaxed load keeps it aside (\<open>acq\<close>) until the next acquire fence. So a load may
  return a stale value, accesses to different locations may be seen out of order, and only
  the orderings the code asks for are granted.

  A plain (\<open>read_volatile\<close> / \<open>write_volatile\<close>) access that may race is a sequence of relaxed
  accesses to the parts of the value, so it can be torn. A plain access that must not race is
  checked: it counts its accesses per location, and it is a data race unless the thread's view
  covers all accesses made so far.
\<close>

section \<open>Views and histories\<close>

type_synonym 'l view = "'l \<Rightarrow> nat"

record 'l tview =
  cur :: "'l view"
  acq :: "'l view"
  rel :: "'l view"

type_synonym ('l, 'v) hist = "('v \<times> 'l view) list"

definition view0 :: "'l tview" where
  "view0 = \<lparr>cur = (\<lambda>_. 0), acq = (\<lambda>_. 0), rel = (\<lambda>_. 0)\<rparr>"

definition hist0 :: "'v \<Rightarrow> ('l, 'v) hist" where
  "hist0 v = [(v, \<lambda>_. 0)]"

definition join :: "'l view \<Rightarrow> 'l view \<Rightarrow> 'l view" where
  "join v w = (\<lambda>l. max (v l) (w l))"

definition store_relaxed ::
  "'l \<Rightarrow> 'v \<Rightarrow> ('l, 'v) hist \<Rightarrow> 'l tview \<Rightarrow> ('l, 'v) hist \<times> 'l tview" where
  "store_relaxed l v h V =
     (h @ [(v, (rel V)(l := length h))],
      V\<lparr>cur := (cur V)(l := length h), acq := (acq V)(l := length h)\<rparr>)"

definition store_release ::
  "'l \<Rightarrow> 'v \<Rightarrow> ('l, 'v) hist \<Rightarrow> 'l tview \<Rightarrow> ('l, 'v) hist \<times> 'l tview" where
  "store_release l v h V =
     (h @ [(v, (cur V)(l := length h))],
      V\<lparr>cur := (cur V)(l := length h), acq := (acq V)(l := length h)\<rparr>)"

text \<open>A load of entry \<open>ts\<close>; \<open>None\<close> when the view rules that entry out.\<close>

definition load_relaxed ::
  "'l \<Rightarrow> ('l, 'v) hist \<Rightarrow> nat \<Rightarrow> 'l tview \<Rightarrow> ('v \<times> 'l tview) option" where
  "load_relaxed l h ts V =
     (if cur V l \<le> ts \<and> ts < length h
      then Some (fst (h ! ts),
        V\<lparr>cur := (cur V)(l := ts), acq := join (acq V) (join (snd (h ! ts)) ((\<lambda>_. 0)(l := ts)))\<rparr>)
      else None)"

definition load_acquire ::
  "'l \<Rightarrow> ('l, 'v) hist \<Rightarrow> nat \<Rightarrow> 'l tview \<Rightarrow> ('v \<times> 'l tview) option" where
  "load_acquire l h ts V =
     (if cur V l \<le> ts \<and> ts < length h
      then let w = join (snd (h ! ts)) ((\<lambda>_. 0)(l := ts))
        in Some (fst (h ! ts), V\<lparr>cur := join (cur V) w, acq := join (acq V) w\<rparr>)
      else None)"

definition fence_acquire :: "'l tview \<Rightarrow> 'l tview" where
  "fence_acquire V = V\<lparr>cur := join (cur V) (acq V)\<rparr>"

definition fence_release :: "'l tview \<Rightarrow> 'l tview" where
  "fence_release V = V\<lparr>rel := cur V\<rparr>"

text \<open>A thread's view only grows.\<close>

definition view_le :: "'l tview \<Rightarrow> 'l tview \<Rightarrow> bool" where
  "view_le V W \<longleftrightarrow> cur V \<le> cur W"

lemma view_le_refl [simp]: "view_le V V"
  by (simp add: view_le_def)

lemma view_le_trans: "view_le U V \<Longrightarrow> view_le V W \<Longrightarrow> view_le U W"
  unfolding view_le_def by (rule order_trans)

lemma join_simps [simp]: "join v w l = max (v l) (w l)"
  by (simp add: join_def)

lemma load_relaxed_Some:
  assumes "load_relaxed l h ts V = Some (v, W)"
  shows "ts < length h" "cur V l \<le> ts" "v = fst (h ! ts)" "cur W = (cur V)(l := ts)" "rel W = rel V"
    "acq W l' = max (acq V l') (max (snd (h ! ts) l') (if l' = l then ts else 0))"
  using assms by (auto simp: load_relaxed_def split: if_splits)

lemma load_acquire_Some:
  assumes "load_acquire l h ts V = Some (v, W)"
  shows "ts < length h" "cur V l \<le> ts" "v = fst (h ! ts)" "rel W = rel V"
    "cur W l' = max (cur V l') (max (snd (h ! ts) l') (if l' = l then ts else 0))"
    "acq W l' = max (acq V l') (max (snd (h ! ts) l') (if l' = l then ts else 0))"
  using assms by (auto simp: load_acquire_def Let_def split: if_splits)

lemma load_relaxed_grows: "load_relaxed l h ts V = Some (v, W) \<Longrightarrow> cur V x \<le> cur W x"
  by (auto simp: load_relaxed_def split: if_splits)

lemma load_acquire_grows: "load_acquire l h ts V = Some (v, W) \<Longrightarrow> cur V x \<le> cur W x"
  by (auto simp: load_acquire_def Let_def split: if_splits)

lemma fence_simps [simp]:
  "cur (fence_acquire V) l = max (cur V l) (acq V l)" "acq (fence_acquire V) = acq V"
  "rel (fence_acquire V) = rel V"
  "cur (fence_release V) = cur V" "acq (fence_release V) = acq V" "rel (fence_release V) = cur V"
  by (simp_all add: fence_acquire_def fence_release_def)

lemma load_acquire_latest:
  "cur V l \<le> length h - 1 \<Longrightarrow> h \<noteq> [] \<Longrightarrow> \<exists>v W. load_acquire l h (length h - 1) V = Some (v, W)"
  by (auto simp: load_acquire_def Let_def)

lemma view0_simps [simp]: "cur view0 l = 0" "acq view0 l = 0" "rel view0 l = 0"
  by (simp_all add: view0_def)

lemma hist0_simps [simp]: "length (hist0 v) = 1" "hist0 v ! 0 = (v, \<lambda>_. 0)" "hist0 v \<noteq> []"
  by (simp_all add: hist0_def)

text \<open>A thread whose view covers the newest entry can load no other.\<close>

lemma load_forced:
  "load_acquire l h ts V = Some z \<Longrightarrow> length h - 1 \<le> cur V l \<Longrightarrow> ts = length h - 1"
  "load_relaxed l h ts V = Some z \<Longrightarrow> length h - 1 \<le> cur V l \<Longrightarrow> ts = length h - 1"
  by (auto simp: load_acquire_def load_relaxed_def Let_def split: if_splits)

section \<open>Views never run ahead of the histories\<close>

text \<open>
  With \<open>b l\<close> the newest entry of location \<open>l\<close>, no view points past \<open>b\<close>; so the newest entry
  can always be loaded.
\<close>

definition view_within :: "('l \<Rightarrow> nat) \<Rightarrow> 'l view \<Rightarrow> bool" where
  "view_within b v \<longleftrightarrow> (\<forall>l. v l \<le> b l)"

definition tview_within :: "('l \<Rightarrow> nat) \<Rightarrow> 'l tview \<Rightarrow> bool" where
  "tview_within b V \<longleftrightarrow> view_within b (cur V) \<and> view_within b (acq V) \<and> view_within b (rel V)"

definition hist_within :: "('l \<Rightarrow> nat) \<Rightarrow> ('l, 'v) hist \<Rightarrow> bool" where
  "hist_within b h \<longleftrightarrow> (\<forall>m\<in>set h. view_within b (snd m))"

lemma within_mono:
  assumes "\<And>l. b l \<le> b' l"
  shows "view_within b v \<Longrightarrow> view_within b' v" "tview_within b V \<Longrightarrow> tview_within b' V"
    "hist_within b h \<Longrightarrow> hist_within b' h"
  unfolding tview_within_def hist_within_def view_within_def
  using order_trans [OF _ assms] by blast+

lemma within_initial [simp]: "tview_within b view0" "hist_within b (hist0 v)"
  by (simp_all add: tview_within_def view_within_def hist_within_def view0_def hist0_def)

lemma view_within_upd: "view_within b v \<Longrightarrow> k \<le> b l \<Longrightarrow> view_within b (v(l := k))"
  by (simp add: view_within_def)

lemma within_load_acquire:
  assumes "load_acquire l h ts V = Some (v, W)" "tview_within b V" "hist_within b h"
    "length h \<le> Suc (b l)"
  shows "tview_within b W"
proof -
  note ld = load_acquire_Some [OF assms(1)]
  have "snd (h ! ts) k \<le> b k" for k
    using assms(3) ld(1) by (simp add: hist_within_def view_within_def)
  then show ?thesis
    using assms(2,4) ld(1,4,5,6) by (auto simp: tview_within_def view_within_def)
qed

lemma within_load_relaxed:
  assumes "load_relaxed l h ts V = Some (v, W)" "tview_within b V" "hist_within b h"
    "length h \<le> Suc (b l)"
  shows "tview_within b W"
proof -
  note ld = load_relaxed_Some [OF assms(1)]
  have "snd (h ! ts) k \<le> b k" for k
    using assms(3) ld(1) by (simp add: hist_within_def view_within_def)
  then show ?thesis
    using assms(2,4) ld(1,4,5,6) by (auto simp: tview_within_def view_within_def)
qed

lemma within_store:
  assumes "tview_within b V" "hist_within b h" "\<And>k. b k \<le> b' k" "length h \<le> b' l"
  shows "store_release l v h V = (h', W) \<Longrightarrow> tview_within b' W \<and> hist_within b' h'"
    "store_relaxed l v h V = (h', W) \<Longrightarrow> tview_within b' W \<and> hist_within b' h'"
proof -
  have V: "tview_within b' V" and h: "hist_within b' h"
    using within_mono(2) [of b b' V] within_mono(3) [of b b' h] assms(1-3) by blast+
  from V have v: "view_within b' (cur V)" "view_within b' (acq V)" "view_within b' (rel V)"
    by (simp_all add: tview_within_def)
  show "store_release l v h V = (h', W) \<Longrightarrow> tview_within b' W \<and> hist_within b' h'"
    "store_relaxed l v h V = (h', W) \<Longrightarrow> tview_within b' W \<and> hist_within b' h'"
    using h v assms(4)
    by (auto simp: store_release_def store_relaxed_def tview_within_def hist_within_def view_within_upd)
qed

lemma within_fence:
  "tview_within b V \<Longrightarrow> tview_within b (fence_acquire V)"
  "tview_within b V \<Longrightarrow> tview_within b (fence_release V)"
  by (auto simp: tview_within_def view_within_def)

lemma load_newest:
  assumes "tview_within b V" "length h = Suc (b l)"
  shows "\<exists>W. load_acquire l h (b l) V = Some (fst (last h), W)"
    "\<exists>W. load_relaxed l h (b l) V = Some (fst (last h), W)"
proof -
  have "last h = h ! b l" using assms(2) by (cases h rule: rev_cases) auto
  then show "\<exists>W. load_acquire l h (b l) V = Some (fst (last h), W)"
    "\<exists>W. load_relaxed l h (b l) V = Some (fst (last h), W)"
    using assms by (simp_all add: load_acquire_def load_relaxed_def Let_def tview_within_def view_within_def)
qed

end
