(* ===== verification/Spsc_Concurrent.thy ===== *)
theory Spsc_Concurrent
  imports Spsc_Queue Weak_Memory
begin

text \<open>
  \<open>push\<close> and \<open>pop\<close> of \<open>src/src/spsc\<close> as two threads on \<open>Weak_Memory\<close>: one shared access per
  step, in any interleaving, with stale loads. The slots are plain memory: an access that the
  thread's view does not order after every earlier access of the other thread is the fault
  \<open>DataRace\<close>, and a read of a slot that holds no value is \<open>UninitRead\<close>. The theory shows that
  no fault is reachable and that the consumer gets exactly what the producer sent, in order.
\<close>

section \<open>The machine\<close>

text \<open>
  \<open>Head\<close> and \<open>Tail\<close> are the atomic counters. \<open>SlotW j\<close> and \<open>SlotR j\<close> are not memory: they
  number the writes and the reads of slot \<open>j\<close>, so that views can order them.
\<close>

datatype sp_loc = Head | Tail | SlotW nat | SlotR nat

text \<open>
  The producer: outside \<open>push\<close>, before line 113 (load of \<open>head\<close>), 98 (slot write) and 104
  (store of \<open>tail\<close>). The consumer: outside \<open>pop\<close>, before line 109 (load of \<open>tail\<close>), 95 (slot
  read) and 101 (store of \<open>head\<close>).
\<close>

datatype 'a ppc = PIdle | PLoadHead 'a | PWrite 'a | PStore 'a

datatype 'a cpc = CIdle | CLoadTail | CRead | CStore 'a

record 'a sp =
  head_h :: "(sp_loc, usize) hist"
  tail_h :: "(sp_loc, usize) hist"
  cslots :: "'a option list"
  nwrites :: "nat \<Rightarrow> nat"
  nreads :: "nat \<Rightarrow> nat"
  p_local :: producer
  p_pc :: "'a ppc"
  p_view :: "sp_loc tview"
  c_local :: consumer
  c_pc :: "'a cpc"
  c_view :: "sp_loc tview"
  sent :: "'a list"         \<comment> \<open>items whose \<open>push\<close> returned \<open>None\<close>\<close>
  refused :: "'a list"      \<comment> \<open>items that \<open>push\<close> handed back\<close>
  got :: "'a list"          \<comment> \<open>items that \<open>pop\<close> returned\<close>

definition sp_new :: "'a option list \<Rightarrow> 'a sp" where
  "sp_new cs =
     \<lparr>head_h = hist0 0, tail_h = hist0 0, cslots = cs, nwrites = (\<lambda>_. 0), nreads = (\<lambda>_. 0),
      p_local = producer_new, p_pc = PIdle, p_view = view0,
      c_local = consumer_new, c_pc = CIdle, c_view = view0, sent = [], refused = [], got = []\<rparr>"

text \<open>Does the view order the thread after all accesses of slot \<open>j\<close> so far?\<close>

definition exclusive :: "sp_loc tview \<Rightarrow> (nat \<Rightarrow> nat) \<Rightarrow> (nat \<Rightarrow> nat) \<Rightarrow> nat \<Rightarrow> bool" where
  "exclusive V nw nr j \<longleftrightarrow> nw j \<le> cur V (SlotW j) \<and> nr j \<le> cur V (SlotR j)"

definition touch :: "sp_loc \<Rightarrow> nat \<Rightarrow> sp_loc tview \<Rightarrow> sp_loc tview" where
  "touch l k V = V\<lparr>cur := (cur V)(l := k), acq := (acq V)(l := k)\<rparr>"

text \<open>\<open>Producer::push\<close>: the call decides on the cached counters alone.\<close>

definition push_call :: "usize \<Rightarrow> 'a sp \<Rightarrow> 'a \<Rightarrow> 'a sp" where
  "push_call cap c x =
     c\<lparr>p_pc := if p_cached_tail (p_local c) - p_cached_head (p_local c) = cap then PLoadHead x else PWrite x\<rparr>"

definition push_step :: "usize \<Rightarrow> nat \<Rightarrow> 'a sp \<Rightarrow> (fault + 'a sp) option" where
  "push_step cap ts c =
     (case p_pc c of
        PIdle \<Rightarrow> None
      | PLoadHead x \<Rightarrow>
          (case load_acquire Head (head_h c) ts (p_view c) of
             None \<Rightarrow> None
           | Some (h, V) \<Rightarrow>
               let p = (p_local c)\<lparr>p_cached_head := h\<rparr>
               in Some (Inr (if p_cached_tail p - p_cached_head p = cap
                             then c\<lparr>p_local := p, p_view := V, p_pc := PIdle, refused := refused c @ [x]\<rparr>
                             else c\<lparr>p_local := p, p_view := V, p_pc := PWrite x\<rparr>)))
      | PWrite x \<Rightarrow>
          let j = slot_index cap (p_cached_tail (p_local c)) in
          if \<not> exclusive (p_view c) (nwrites c) (nreads c) j then Some (Inl DataRace)
          else (case slot_write cap (p_cached_tail (p_local c)) x (cslots c) of
                  Inl e \<Rightarrow> Some (Inl e)
                | Inr ss \<Rightarrow>
                    Some (Inr (c\<lparr>cslots := ss, nwrites := (nwrites c)(j := Suc (nwrites c j)),
                                p_view := touch (SlotW j) (Suc (nwrites c j)) (p_view c),
                                p_pc := PStore x\<rparr>)))
      | PStore x \<Rightarrow>
          let p = (p_local c)\<lparr>p_cached_tail := p_cached_tail (p_local c) + 1\<rparr>;
              (h, V) = store_release Tail (p_cached_tail p) (tail_h c) (p_view c)
          in Some (Inr (c\<lparr>tail_h := h, p_local := p, p_view := V, p_pc := PIdle, sent := sent c @ [x]\<rparr>)))"

text \<open>\<open>Consumer::pop\<close>.\<close>

definition pop_call :: "'a sp \<Rightarrow> 'a sp" where
  "pop_call c =
     c\<lparr>c_pc := if c_cached_head (c_local c) = c_cached_tail (c_local c) then CLoadTail else CRead\<rparr>"

definition pop_step :: "usize \<Rightarrow> nat \<Rightarrow> 'a sp \<Rightarrow> (fault + 'a sp) option" where
  "pop_step cap ts c =
     (case c_pc c of
        CIdle \<Rightarrow> None
      | CLoadTail \<Rightarrow>
          (case load_acquire Tail (tail_h c) ts (c_view c) of
             None \<Rightarrow> None
           | Some (t, V) \<Rightarrow>
               let k = (c_local c)\<lparr>c_cached_tail := t\<rparr>
               in Some (Inr (c\<lparr>c_local := k, c_view := V,
                    c_pc := if c_cached_head k = c_cached_tail k then CIdle else CRead\<rparr>)))
      | CRead \<Rightarrow>
          let j = slot_index cap (c_cached_head (c_local c)) in
          if \<not> exclusive (c_view c) (nwrites c) (nreads c) j then Some (Inl DataRace)
          else (case slot_read cap (c_cached_head (c_local c)) (cslots c) of
                  Inl e \<Rightarrow> Some (Inl e)
                | Inr (x, ss) \<Rightarrow>
                    Some (Inr (c\<lparr>cslots := ss, nreads := (nreads c)(j := Suc (nreads c j)),
                                c_view := touch (SlotR j) (Suc (nreads c j)) (c_view c),
                                c_pc := CStore x\<rparr>)))
      | CStore x \<Rightarrow>
          let k = (c_local c)\<lparr>c_cached_head := c_cached_head (c_local c) + 1\<rparr>;
              (h, V) = store_release Head (c_cached_head k) (head_h c) (c_view c)
          in Some (Inr (c\<lparr>head_h := h, c_local := k, c_view := V, c_pc := CIdle, got := got c @ [x]\<rparr>)))"

datatype 'a sp_event = PushCall 'a | PushStep nat | PopCall | PopStep nat

fun sp_step :: "usize \<Rightarrow> 'a sp \<Rightarrow> 'a sp_event \<Rightarrow> (fault + 'a sp) option" where
  "sp_step cap c (PushCall x) = (if p_pc c = PIdle then Some (Inr (push_call cap c x)) else None)"
| "sp_step cap c (PushStep ts) = push_step cap ts c"
| "sp_step cap c PopCall = (if c_pc c = CIdle then Some (Inr (pop_call c)) else None)"
| "sp_step cap c (PopStep ts) = pop_step cap ts c"

fun sp_run :: "usize \<Rightarrow> 'a sp \<Rightarrow> 'a sp_event list \<Rightarrow> (fault + 'a sp) option" where
  "sp_run cap c [] = Some (Inr c)"
| "sp_run cap c (e # es) =
     (case sp_step cap c e of
        None \<Rightarrow> None | Some (Inl f) \<Rightarrow> Some (Inl f) | Some (Inr c') \<Rightarrow> sp_run cap c' es)"

inductive sp_reach :: "usize \<Rightarrow> 'a sp \<Rightarrow> bool" for cap where
  sp_init: "is_power_of_two cap \<Longrightarrow> sp_reach cap (sp_new (replicate (unat cap) None))"
| sp_next: "sp_reach cap c \<Longrightarrow> sp_step cap c e = Some (Inr c') \<Longrightarrow> sp_reach cap c'"

lemma sp_reach_run: "sp_reach cap c \<Longrightarrow> sp_run cap c es = Some (Inr c') \<Longrightarrow> sp_reach cap c'"
  by (induction es arbitrary: c) (auto split: option.splits sum.splits intro: sp_next)

section \<open>Invariants\<close>

text \<open>The counters are the lengths of the histories, and carry what they must order.\<close>

definition sp_hists :: "nat \<Rightarrow> (sp_loc, usize) hist \<Rightarrow> (sp_loc, usize) hist \<Rightarrow> bool" where
  "sp_hists C hh th \<longleftrightarrow>
     (\<forall>t<length th. fst (th ! t) = of_nat t \<and> (\<forall>j<C. visits C j t \<le> snd (th ! t) (SlotW j))) \<and>
     (\<forall>h<length hh. fst (hh ! h) = of_nat h \<and> (\<forall>j<C. visits C j h \<le> snd (hh ! h) (SlotR j)))"

text \<open>The item between its slot write and the store that publishes it; the pop in progress.\<close>

fun in_flight :: "'a ppc \<Rightarrow> 'a list" where
  "in_flight (PStore x) = [x]"
| "in_flight _ = []"

fun popping :: "'a cpc \<Rightarrow> nat" where
  "popping (CStore x) = 1"
| "popping _ = 0"

fun popped :: "'a cpc \<Rightarrow> 'a list" where
  "popped (CStore x) = [x]"
| "popped _ = []"

lemma length_popped [simp]: "length (popped pc) = popping pc"
  by (cases pc) auto

text \<open>
  The producer knows that the reads below position \<open>ph\<close> are done; the consumer that the
  writes below position \<open>ct\<close> are.
\<close>

definition sp_producer :: "nat \<Rightarrow> nat \<Rightarrow> nat \<Rightarrow> (nat \<Rightarrow> nat) \<Rightarrow> producer \<Rightarrow> sp_loc tview \<Rightarrow> 'a ppc \<Rightarrow> bool" where
  "sp_producer C T H nw p V pc \<longleftrightarrow>
     p_cached_tail p = of_nat T \<and>
     (\<exists>ph\<le>H. p_cached_head p = of_nat ph \<and> ph \<le> cur V Head \<and> T \<le> ph + C \<and> (\<forall>j<C. visits C j ph \<le> cur V (SlotR j)) \<and>
        (\<forall>x. pc = PWrite x \<or> pc = PStore x \<longrightarrow> T < ph + C)) \<and>
     (\<forall>j<C. nw j \<le> cur V (SlotW j) \<and> nw j = visits C j (T + length (in_flight pc)))"

definition sp_consumer :: "nat \<Rightarrow> nat \<Rightarrow> nat \<Rightarrow> (nat \<Rightarrow> nat) \<Rightarrow> consumer \<Rightarrow> sp_loc tview \<Rightarrow> 'a cpc \<Rightarrow> bool" where
  "sp_consumer C T H nr k V pc \<longleftrightarrow>
     c_cached_head k = of_nat H \<and>
     (\<exists>ct\<ge>H. ct \<le> T \<and> c_cached_tail k = of_nat ct \<and> ct \<le> cur V Tail \<and> (\<forall>j<C. visits C j ct \<le> cur V (SlotW j)) \<and>
        (\<forall>x. pc = CRead \<or> pc = CStore x \<longrightarrow> H < ct)) \<and>
     (\<forall>j<C. nr j \<le> cur V (SlotR j) \<and> nr j = visits C j (H + popping pc))"

definition sp_inv :: "usize \<Rightarrow> 'a sp \<Rightarrow> bool" where
  "sp_inv cap c \<longleftrightarrow>
     (let C = unat cap; T = length (sent c); H = length (got c) in
       is_power_of_two cap \<and>
       length (tail_h c) = Suc T \<and> length (head_h c) = Suc H \<and> sp_hists C (head_h c) (tail_h c) \<and>
       sp_producer C T H (nwrites c) (p_local c) (p_view c) (p_pc c) \<and>
       sp_consumer C T H (nreads c) (c_local c) (c_view c) (c_pc c) \<and>
       H + popping (c_pc c) \<le> T \<and>
       ring_window C (H + popping (c_pc c))
         (drop (H + popping (c_pc c)) (sent c @ in_flight (p_pc c))) (cslots c) \<and>
       got c @ popped (c_pc c) = take (H + popping (c_pc c)) (sent c))"

lemma sp_hists_append:
  "sp_hists C hh th \<Longrightarrow> (\<And>j. j < C \<Longrightarrow> visits C j (length th) \<le> v (SlotW j)) \<Longrightarrow>
     sp_hists C hh (th @ [(of_nat (length th), v)])"
  "sp_hists C hh th \<Longrightarrow> (\<And>j. j < C \<Longrightarrow> visits C j (length hh) \<le> v (SlotR j)) \<Longrightarrow>
     sp_hists C (hh @ [(of_nat (length hh), v)]) th"
  unfolding sp_hists_def by (auto simp: nth_append less_Suc_eq)

lemma sp_producerI:
  assumes "p_cached_tail p = of_nat T" "ph \<le> H" "p_cached_head p = of_nat ph" "ph \<le> cur V Head"
    "T \<le> ph + C" "\<And>j. j < C \<Longrightarrow> visits C j ph \<le> cur V (SlotR j)"
    "\<And>x. pc = PWrite x \<or> pc = PStore x \<Longrightarrow> T < ph + C"
    "\<And>j. j < C \<Longrightarrow> nw j \<le> cur V (SlotW j) \<and> nw j = visits C j (T + length (in_flight pc))"
  shows "sp_producer C T H nw p V pc"
  unfolding sp_producer_def using assms by blast

lemma sp_producerE:
  assumes "sp_producer C T H nw p V pc"
  obtains ph where "p_cached_tail p = of_nat T" "ph \<le> H" "p_cached_head p = of_nat ph" "ph \<le> cur V Head"
    "T \<le> ph + C" "\<And>j. j < C \<Longrightarrow> visits C j ph \<le> cur V (SlotR j)"
    "\<And>x. pc = PWrite x \<or> pc = PStore x \<Longrightarrow> T < ph + C"
    "\<And>j. j < C \<Longrightarrow> nw j \<le> cur V (SlotW j)"
    "\<And>j. j < C \<Longrightarrow> nw j = visits C j (T + length (in_flight pc))"
  using assms unfolding sp_producer_def by blast

lemma sp_consumerI:
  assumes "c_cached_head k = of_nat H" "H \<le> ct" "ct \<le> T" "c_cached_tail k = of_nat ct" "ct \<le> cur V Tail"
    "\<And>j. j < C \<Longrightarrow> visits C j ct \<le> cur V (SlotW j)"
    "\<And>x. pc = CRead \<or> pc = CStore x \<Longrightarrow> H < ct"
    "\<And>j. j < C \<Longrightarrow> nr j \<le> cur V (SlotR j) \<and> nr j = visits C j (H + popping pc)"
  shows "sp_consumer C T H nr k V pc"
  unfolding sp_consumer_def using assms by blast

lemma sp_consumerE:
  assumes "sp_consumer C T H nr k V pc"
  obtains ct where "c_cached_head k = of_nat H" "H \<le> ct" "ct \<le> T" "c_cached_tail k = of_nat ct"
    "ct \<le> cur V Tail"
    "\<And>j. j < C \<Longrightarrow> visits C j ct \<le> cur V (SlotW j)"
    "\<And>x. pc = CRead \<or> pc = CStore x \<Longrightarrow> H < ct"
    "\<And>j. j < C \<Longrightarrow> nr j \<le> cur V (SlotR j)" "\<And>j. j < C \<Longrightarrow> nr j = visits C j (H + popping pc)"
  using assms unfolding sp_consumer_def by blast

text \<open>The other thread's progress does not disturb a thread's knowledge.\<close>

lemma sp_producer_mono: "sp_producer C T H nw p V pc \<Longrightarrow> H \<le> H' \<Longrightarrow> sp_producer C T H' nw p V pc"
  unfolding sp_producer_def by (blast intro: order_trans)

lemma sp_consumer_mono: "sp_consumer C T H nr k V pc \<Longrightarrow> T \<le> T' \<Longrightarrow> sp_consumer C T' H nr k V pc"
  unfolding sp_consumer_def by (blast intro: order_trans)


lemma sp_invI:
  assumes "is_power_of_two cap" "length (tail_h c) = Suc (length (sent c))"
    "length (head_h c) = Suc (length (got c))" "sp_hists (unat cap) (head_h c) (tail_h c)"
    "sp_producer (unat cap) (length (sent c)) (length (got c)) (nwrites c) (p_local c) (p_view c) (p_pc c)"
    "sp_consumer (unat cap) (length (sent c)) (length (got c)) (nreads c) (c_local c) (c_view c) (c_pc c)"
    "length (got c) + popping (c_pc c) \<le> length (sent c)"
    "ring_window (unat cap) (length (got c) + popping (c_pc c))
       (drop (length (got c) + popping (c_pc c)) (sent c @ in_flight (p_pc c))) (cslots c)"
    "got c @ popped (c_pc c) = take (length (got c) + popping (c_pc c)) (sent c)"
  shows "sp_inv cap c"
  using assms unfolding sp_inv_def Let_def by blast

lemma sp_invD:
  assumes "sp_inv cap c"
  shows "is_power_of_two cap" "length (tail_h c) = Suc (length (sent c))"
    "length (head_h c) = Suc (length (got c))" "sp_hists (unat cap) (head_h c) (tail_h c)"
    "sp_producer (unat cap) (length (sent c)) (length (got c)) (nwrites c) (p_local c) (p_view c) (p_pc c)"
    "sp_consumer (unat cap) (length (sent c)) (length (got c)) (nreads c) (c_local c) (c_view c) (c_pc c)"
    "length (got c) + popping (c_pc c) \<le> length (sent c)"
    "ring_window (unat cap) (length (got c) + popping (c_pc c))
       (drop (length (got c) + popping (c_pc c)) (sent c @ in_flight (p_pc c))) (cslots c)"
    "got c @ popped (c_pc c) = take (length (got c) + popping (c_pc c)) (sent c)"
  using assms unfolding sp_inv_def Let_def by blast+

lemma sp_inv_prefix:
  assumes "sp_inv cap c"
  shows "prefix (got c) (sent c)"
proof -
  let ?k = "length (got c) + popping (c_pc c)"
  have "prefix (got c) (take ?k (sent c))" unfolding sp_invD(9) [OF assms, symmetric] by simp
  from this take_is_prefix [of ?k "sent c"] show ?thesis by (rule prefix_order.trans)
qed

section \<open>Every step keeps the invariant and meets no fault\<close>

lemma push_call_inv:
  assumes inv: "sp_inv cap c" and pc: "p_pc c = PIdle"
  shows "sp_inv cap (push_call cap c x)"
proof -
  note i = sp_invD [OF inv]
  let ?T = "length (sent c)" and ?H = "length (got c)" and ?C = "unat cap"
  from i(5) show ?thesis
  proof (rule sp_producerE)
    fix ph assume p: "p_cached_tail (p_local c) = of_nat ?T" "ph \<le> ?H" "p_cached_head (p_local c) = of_nat ph"
      "ph \<le> cur (p_view c) Head" "?T \<le> ph + ?C"
      "\<And>j. j < ?C \<Longrightarrow> visits ?C j ph \<le> cur (p_view c) (SlotR j)"
      "\<And>j. j < ?C \<Longrightarrow> nwrites c j \<le> cur (p_view c) (SlotW j)"
      "\<And>j. j < ?C \<Longrightarrow> nwrites c j = visits ?C j (?T + length (in_flight (p_pc c)))"
    have full: "p_cached_tail (p_local c) - p_cached_head (p_local c) = cap \<longleftrightarrow> ?T = ph + ?C"
      using producer_full_iff [OF i(1) p(5)] p(1-3) i(7) by simp
    show ?thesis
    proof (rule sp_invI)
      show "sp_producer ?C (length (sent (push_call cap c x))) (length (got (push_call cap c x)))
          (nwrites (push_call cap c x)) (p_local (push_call cap c x)) (p_view (push_call cap c x))
          (p_pc (push_call cap c x))"
        by (rule sp_producerI [where ph = ph]) (use p full pc in \<open>auto simp: push_call_def\<close>)
    qed (use i pc in \<open>auto simp: push_call_def\<close>)
  qed
qed

lemma push_load_inv:
  assumes inv: "sp_inv cap c" and pc: "p_pc c = PLoadHead x"
    and step: "push_step cap ts c = Some r"
  obtains c' where "r = Inr c'" "sp_inv cap c'"
proof -
  note i = sp_invD [OF inv]
  let ?T = "length (sent c)" and ?H = "length (got c)" and ?C = "unat cap"
  from step pc obtain h V where ld: "load_acquire Head (head_h c) ts (p_view c) = Some (h, V)"
    by (auto simp: push_step_def split: option.splits)
  note l = load_acquire_Some [OF ld]
  let ?p = "(p_local c)\<lparr>p_cached_head := h\<rparr>"
  let ?full = "p_cached_tail ?p - p_cached_head ?p = cap"
  let ?c = "if ?full then c\<lparr>p_local := ?p, p_view := V, p_pc := PIdle, refused := refused c @ [x]\<rparr>
    else c\<lparr>p_local := ?p, p_view := V, p_pc := PWrite x\<rparr>"
  have r: "r = Inr ?c" using step pc ld by (simp add: push_step_def Let_def)
  from i(5) have "sp_inv cap ?c"
  proof (rule sp_producerE)
    fix ph assume p: "p_cached_tail (p_local c) = of_nat ?T" "ph \<le> ?H" "p_cached_head (p_local c) = of_nat ph"
      "ph \<le> cur (p_view c) Head" "?T \<le> ph + ?C"
      "\<And>j. j < ?C \<Longrightarrow> nwrites c j \<le> cur (p_view c) (SlotW j)"
      "\<And>j. j < ?C \<Longrightarrow> nwrites c j = visits ?C j (?T + length (in_flight (p_pc c)))"
    have ts: "ph \<le> ts" "ts \<le> ?H" using p(4) l(1,2) i(3) by auto
    have h: "h = of_nat ts" "\<And>j. j < ?C \<Longrightarrow> visits ?C j ts \<le> snd (head_h c ! ts) (SlotR j)"
      using l(1,3) i(4) by (auto simp: sp_hists_def)
    have full: "?full \<longleftrightarrow> ?T = ts + ?C"
      using producer_full_iff [OF i(1), of ?T ts] p(1,5) ts i(7) h(1) by simp
    show ?thesis
    proof (rule sp_invI)
      show "sp_producer ?C (length (sent ?c)) (length (got ?c)) (nwrites ?c) (p_local ?c) (p_view ?c) (p_pc ?c)"
      proof (rule sp_producerI [where ph = ts])
        fix j assume j: "j < ?C"
        show "visits ?C j ts \<le> cur (p_view ?c) (SlotR j)"
          using h(2) [OF j] l(5) [of "SlotR j"] by simp
        show "nwrites ?c j \<le> cur (p_view ?c) (SlotW j) \<and>
          nwrites ?c j = visits ?C j (length (sent ?c) + length (in_flight (p_pc ?c)))"
          using p(6,7) [OF j] l(5) [of "SlotW j"] pc by simp
      qed (use p ts h(1) full pc l(5) [of Head] in auto)
    qed (use i pc in auto)
  qed
  with r that show thesis by blast
qed

lemma push_write_inv:
  assumes inv: "sp_inv cap c" and pc: "p_pc c = PWrite x"
    and step: "push_step cap ts c = Some r"
  obtains c' where "r = Inr c'" "sp_inv cap c'"
proof -
  note i = sp_invD [OF inv]
  let ?T = "length (sent c)" and ?H = "length (got c)" and ?C = "unat cap"
  let ?G = "?H + popping (c_pc c)"
  let ?j = "?T mod ?C"
  have C: "0 < ?C" by (rule power_of_two_pos [OF i(1)])
  from i(5) show thesis
  proof (rule sp_producerE)
    fix ph assume p: "p_cached_tail (p_local c) = of_nat ?T" "ph \<le> ?H" "p_cached_head (p_local c) = of_nat ph"
      "ph \<le> cur (p_view c) Head" "?T \<le> ph + ?C"
      "\<And>j. j < ?C \<Longrightarrow> visits ?C j ph \<le> cur (p_view c) (SlotR j)"
      "\<And>x. p_pc c = PWrite x \<or> p_pc c = PStore x \<Longrightarrow> ?T < ph + ?C"
      "\<And>j. j < ?C \<Longrightarrow> nwrites c j \<le> cur (p_view c) (SlotW j)"
      "\<And>j. j < ?C \<Longrightarrow> nwrites c j = visits ?C j (?T + length (in_flight (p_pc c)))"
    have space: "?T < ph + ?C" using p(7) pc by blast
    have jC: "?j < ?C" using C by simp
    have idx: "slot_index cap (p_cached_tail (p_local c)) = ?j"
      using p(1) i(1) by (simp add: slot_index_of_nat)
    have nr: "nreads c ?j = visits ?C ?j ?G"
      using i(6) jC by (auto elim: sp_consumerE)
    have "visits ?C ?j ?G = ?T div ?C"
      by (rule visits_within_lap [OF C i(7)]) (use space p(2) in simp)
    moreover have "visits ?C ?j ph = ?T div ?C"
      by (rule visits_within_lap [OF C _ space]) (use p(2) i(7) in simp)
    ultimately have "nreads c ?j \<le> cur (p_view c) (SlotR ?j)"
      using p(6) [OF jC] nr by simp
    with p(8) [OF jC] have ex: "exclusive (p_view c) (nwrites c) (nreads c) ?j"
      by (simp add: exclusive_def)
    have wlen: "length (drop ?G (sent c)) < ?C"
      unfolding length_drop using space p(2) i(7) C by linarith
    have win: "ring_window ?C ?G (drop ?G (sent c)) (cslots c)" using i(8) pc by simp
    have jl: "?j < length (cslots c)" using ring_windowD(1) [OF win] jC by simp
    let ?c = "c\<lparr>cslots := (cslots c)[?j := Some x], nwrites := (nwrites c)(?j := Suc (nwrites c ?j)),
       p_view := touch (SlotW ?j) (Suc (nwrites c ?j)) (p_view c), p_pc := PStore x\<rparr>"
    have r: "r = Inr ?c"
      using step pc ex jl by (simp add: push_step_def Let_def idx slot_write_def)
    have pos: "?G + length (drop ?G (sent c)) = ?T" using i(7) by simp
    have win': "ring_window ?C ?G (drop ?G (sent c @ [x])) ((cslots c)[?j := Some x])"
      using ring_window_write [OF win wlen, of x] i(7) unfolding pos by simp
    have "sp_inv cap ?c"
    proof (rule sp_invI)
      show "sp_producer ?C (length (sent ?c)) (length (got ?c)) (nwrites ?c) (p_local ?c) (p_view ?c) (p_pc ?c)"
      proof (rule sp_producerI [where ph = ph])
        fix j assume j: "j < ?C"
        show "visits ?C j ph \<le> cur (p_view ?c) (SlotR j)"
          using p(6) [OF j] by (simp add: touch_def)
        show "nwrites ?c j \<le> cur (p_view ?c) (SlotW j) \<and>
          nwrites ?c j = visits ?C j (length (sent ?c) + length (in_flight (p_pc ?c)))"
          using p(8,9) [OF j] pc by (simp add: touch_def)
      qed (use p space in \<open>auto simp: touch_def\<close>)
    qed (use i win' in auto)
    with r that show thesis by blast
  qed
qed

lemma push_store_inv:
  assumes inv: "sp_inv cap c" and pc: "p_pc c = PStore x"
    and step: "push_step cap ts c = Some r"
  obtains c' where "r = Inr c'" "sp_inv cap c'"
proof -
  note i = sp_invD [OF inv]
  let ?T = "length (sent c)" and ?H = "length (got c)" and ?C = "unat cap"
  from i(5) show thesis
  proof (rule sp_producerE)
    fix ph assume p: "p_cached_tail (p_local c) = of_nat ?T" "ph \<le> ?H" "p_cached_head (p_local c) = of_nat ph"
      "ph \<le> cur (p_view c) Head" "?T \<le> ph + ?C"
      "\<And>j. j < ?C \<Longrightarrow> visits ?C j ph \<le> cur (p_view c) (SlotR j)"
      "\<And>x. p_pc c = PWrite x \<or> p_pc c = PStore x \<Longrightarrow> ?T < ph + ?C"
      "\<And>j. j < ?C \<Longrightarrow> nwrites c j \<le> cur (p_view c) (SlotW j)"
      "\<And>j. j < ?C \<Longrightarrow> nwrites c j = visits ?C j (?T + length (in_flight (p_pc c)))"
    have space: "?T < ph + ?C" using p(7) pc by blast
    let ?p = "(p_local c)\<lparr>p_cached_tail := of_nat (Suc ?T)\<rparr>"
    let ?V = "(p_view c)\<lparr>cur := (cur (p_view c))(Tail := Suc ?T), acq := (acq (p_view c))(Tail := Suc ?T)\<rparr>"
    let ?th = "tail_h c @ [(of_nat (length (tail_h c)), (cur (p_view c))(Tail := Suc ?T))]"
    let ?c = "c\<lparr>tail_h := ?th, p_local := ?p, p_view := ?V, p_pc := PIdle, sent := sent c @ [x]\<rparr>"
    have r: "r = Inr ?c"
      using step pc p(1) i(2) by (simp add: push_step_def Let_def store_release_def add.commute)
    have hists: "sp_hists ?C (head_h c) ?th"
      by (rule sp_hists_append [OF i(4)]) (use p(8,9) pc i(2) in fastforce)
    have "sp_inv cap ?c"
    proof (rule sp_invI)
      show "sp_producer ?C (length (sent ?c)) (length (got ?c)) (nwrites ?c) (p_local ?c) (p_view ?c) (p_pc ?c)"
        by (rule sp_producerI [where ph = ph]) (use p pc space in auto)
      show "sp_consumer ?C (length (sent ?c)) (length (got ?c)) (nreads ?c) (c_local ?c) (c_view ?c) (c_pc ?c)"
        by (rule sp_consumer_mono [of _ ?T]) (use i(6) in auto)
    qed (use i pc hists in auto)
    with r that show thesis by blast
  qed
qed

text \<open>The producer is never more than one lap ahead.\<close>

lemma sp_inv_room:
  assumes "sp_inv cap c"
  shows "length (sent c) + length (in_flight (p_pc c)) \<le> length (got c) + unat cap"
  using sp_invD(5) [OF assms]
proof (rule sp_producerE)
  fix ph assume "ph \<le> length (got c)" "length (sent c) \<le> ph + unat cap"
    "\<And>x. p_pc c = PWrite x \<or> p_pc c = PStore x \<Longrightarrow> length (sent c) < ph + unat cap"
  then show ?thesis by (cases "p_pc c") force+
qed

lemma pop_call_inv:
  assumes inv: "sp_inv cap c" and pc: "c_pc c = CIdle"
  shows "sp_inv cap (pop_call c)"
proof -
  note i = sp_invD [OF inv]
  let ?T = "length (sent c)" and ?H = "length (got c)" and ?C = "unat cap"
  from i(6) show ?thesis
  proof (rule sp_consumerE)
    fix ct assume k: "c_cached_head (c_local c) = of_nat ?H" "?H \<le> ct" "ct \<le> ?T"
      "c_cached_tail (c_local c) = of_nat ct" "ct \<le> cur (c_view c) Tail"
      "\<And>j. j < ?C \<Longrightarrow> visits ?C j ct \<le> cur (c_view c) (SlotW j)"
      "\<And>j. j < ?C \<Longrightarrow> nreads c j \<le> cur (c_view c) (SlotR j)"
      "\<And>j. j < ?C \<Longrightarrow> nreads c j = visits ?C j (?H + popping (c_pc c))"
    have empty: "c_cached_head (c_local c) = c_cached_tail (c_local c) \<longleftrightarrow> ?H = ct"
      using consumer_empty_iff [OF i(1) k(2)] k(1,3,4) sp_inv_room [OF inv] by simp
    show ?thesis
    proof (rule sp_invI)
      show "sp_consumer ?C (length (sent (pop_call c))) (length (got (pop_call c)))
          (nreads (pop_call c)) (c_local (pop_call c)) (c_view (pop_call c)) (c_pc (pop_call c))"
        by (rule sp_consumerI [where ct = ct]) (use k empty pc in \<open>auto simp: pop_call_def\<close>)
    qed (use i pc in \<open>auto simp: pop_call_def\<close>)
  qed
qed

lemma pop_load_inv:
  assumes inv: "sp_inv cap c" and pc: "c_pc c = CLoadTail"
    and step: "pop_step cap ts c = Some r"
  obtains c' where "r = Inr c'" "sp_inv cap c'"
proof -
  note i = sp_invD [OF inv]
  let ?T = "length (sent c)" and ?H = "length (got c)" and ?C = "unat cap"
  from step pc obtain t V where ld: "load_acquire Tail (tail_h c) ts (c_view c) = Some (t, V)"
    by (auto simp: pop_step_def split: option.splits)
  note l = load_acquire_Some [OF ld]
  let ?k = "(c_local c)\<lparr>c_cached_tail := t\<rparr>"
  let ?c = "c\<lparr>c_local := ?k, c_view := V, c_pc := if c_cached_head ?k = c_cached_tail ?k then CIdle else CRead\<rparr>"
  have r: "r = Inr ?c" using step pc ld by (simp add: pop_step_def Let_def)
  from i(6) have "sp_inv cap ?c"
  proof (rule sp_consumerE)
    fix ct assume k: "c_cached_head (c_local c) = of_nat ?H" "?H \<le> ct" "ct \<le> cur (c_view c) Tail"
      "\<And>j. j < ?C \<Longrightarrow> nreads c j \<le> cur (c_view c) (SlotR j)"
      "\<And>j. j < ?C \<Longrightarrow> nreads c j = visits ?C j (?H + popping (c_pc c))"
    have ts: "?H \<le> ts" "ts \<le> ?T" using k(2,3) l(1,2) i(2) by auto
    have t: "t = of_nat ts" "\<And>j. j < ?C \<Longrightarrow> visits ?C j ts \<le> snd (tail_h c ! ts) (SlotW j)"
      using l(1,3) i(4) by (auto simp: sp_hists_def)
    have empty: "c_cached_head ?k = c_cached_tail ?k \<longleftrightarrow> ?H = ts"
      using consumer_empty_iff [OF i(1) ts(1)] k(1) t(1) ts(2) sp_inv_room [OF inv] by simp
    show ?thesis
    proof (rule sp_invI)
      show "sp_consumer ?C (length (sent ?c)) (length (got ?c)) (nreads ?c) (c_local ?c) (c_view ?c) (c_pc ?c)"
      proof (rule sp_consumerI [where ct = ts])
        fix j assume j: "j < ?C"
        show "visits ?C j ts \<le> cur (c_view ?c) (SlotW j)"
          using t(2) [OF j] l(5) [of "SlotW j"] by simp
        show "nreads ?c j \<le> cur (c_view ?c) (SlotR j) \<and>
          nreads ?c j = visits ?C j (length (got ?c) + popping (c_pc ?c))"
          using k(4,5) [OF j] l(5) [of "SlotR j"] pc by simp
      qed (use k ts t(1) empty pc l(5) [of Tail] in auto)
    qed (use i pc in auto)
  qed
  with r that show thesis by blast
qed

lemma pop_read_inv:
  assumes inv: "sp_inv cap c" and pc: "c_pc c = CRead"
    and step: "pop_step cap ts c = Some r"
  obtains c' where "r = Inr c'" "sp_inv cap c'"
proof -
  note i = sp_invD [OF inv]
  let ?T = "length (sent c)" and ?H = "length (got c)" and ?C = "unat cap"
  let ?F = "in_flight (p_pc c)" and ?j = "?H mod ?C"
  have C: "0 < ?C" by (rule power_of_two_pos [OF i(1)])
  from i(6) show thesis
  proof (rule sp_consumerE)
    fix ct assume k: "c_cached_head (c_local c) = of_nat ?H" "?H \<le> ct" "ct \<le> ?T"
      "c_cached_tail (c_local c) = of_nat ct" "ct \<le> cur (c_view c) Tail"
      "\<And>j. j < ?C \<Longrightarrow> visits ?C j ct \<le> cur (c_view c) (SlotW j)"
      "\<And>x. c_pc c = CRead \<or> c_pc c = CStore x \<Longrightarrow> ?H < ct"
      "\<And>j. j < ?C \<Longrightarrow> nreads c j \<le> cur (c_view c) (SlotR j)"
      "\<And>j. j < ?C \<Longrightarrow> nreads c j = visits ?C j (?H + popping (c_pc c))"
    have avail: "?H < ct" using k(7) pc by blast
    have jC: "?j < ?C" using C by simp
    have idx: "slot_index cap (c_cached_head (c_local c)) = ?j"
      using k(1) i(1) by (simp add: slot_index_of_nat)
    have "nwrites c ?j = visits ?C ?j (?T + length ?F)"
      using i(5) jC by (auto elim: sp_producerE)
    also have "\<dots> \<le> visits ?C ?j (?H + ?C)"
      by (rule visits_mono [OF sp_inv_room [OF inv]])
    also have "\<dots> = Suc (?H div ?C)"
      using visits_self [OF C, of "?H + ?C"] C by (simp add: div_add_self2)
    also have "\<dots> = visits ?C ?j (Suc ?H)" by (simp add: visits_self C)
    also have "\<dots> \<le> visits ?C ?j ct" by (rule visits_mono) (use avail in simp)
    finally have "nwrites c ?j \<le> cur (c_view c) (SlotW ?j)" using k(6) [OF jC] by simp
    with k(8) [OF jC] have ex: "exclusive (c_view c) (nwrites c) (nreads c) ?j"
      by (simp add: exclusive_def)
    have HT: "?H < ?T" using avail k(3) by simp
    have win: "ring_window ?C ?H (sent c ! ?H # drop (Suc ?H) (sent c @ ?F)) (cslots c)"
      using i(8) pc HT by (simp flip: Cons_nth_drop_Suc)
    have rd: "slot_read cap (of_nat ?H) (cslots c) = Inr (sent c ! ?H, (cslots c)[?j := None])"
      by (rule slot_read_window [OF i(1) win])
    let ?c = "c\<lparr>cslots := (cslots c)[?j := None], nreads := (nreads c)(?j := Suc (nreads c ?j)),
       c_view := touch (SlotR ?j) (Suc (nreads c ?j)) (c_view c), c_pc := CStore (sent c ! ?H)\<rparr>"
    have r: "r = Inr ?c"
      using step pc ex rd k(1) idx by (simp add: pop_step_def Let_def)
    have "sp_inv cap ?c"
    proof (rule sp_invI)
      show "sp_consumer ?C (length (sent ?c)) (length (got ?c)) (nreads ?c) (c_local ?c) (c_view ?c) (c_pc ?c)"
      proof (rule sp_consumerI [where ct = ct])
        fix j assume j: "j < ?C"
        show "visits ?C j ct \<le> cur (c_view ?c) (SlotW j)"
          using k(6) [OF j] by (simp add: touch_def)
        show "nreads ?c j \<le> cur (c_view ?c) (SlotR j) \<and>
          nreads ?c j = visits ?C j (length (got ?c) + popping (c_pc ?c))"
          using k(8,9) [OF j] pc by (simp add: touch_def)
      qed (use k avail in \<open>auto simp: touch_def\<close>)
      show "ring_window ?C (length (got ?c) + popping (c_pc ?c))
          (drop (length (got ?c) + popping (c_pc ?c)) (sent ?c @ in_flight (p_pc ?c))) (cslots ?c)"
        using ring_window_read(3) [OF win] by simp
      show "got ?c @ popped (c_pc ?c) = take (length (got ?c) + popping (c_pc ?c)) (sent ?c)"
        using i(9) pc HT by (simp add: take_Suc_conv_app_nth)
    qed (use i HT in auto)
    with r that show thesis by blast
  qed
qed

lemma pop_store_inv:
  assumes inv: "sp_inv cap c" and pc: "c_pc c = CStore x"
    and step: "pop_step cap ts c = Some r"
  obtains c' where "r = Inr c'" "sp_inv cap c'"
proof -
  note i = sp_invD [OF inv]
  let ?T = "length (sent c)" and ?H = "length (got c)" and ?C = "unat cap"
  from i(6) show thesis
  proof (rule sp_consumerE)
    fix ct assume k: "c_cached_head (c_local c) = of_nat ?H" "?H \<le> ct" "ct \<le> ?T"
      "c_cached_tail (c_local c) = of_nat ct" "ct \<le> cur (c_view c) Tail"
      "\<And>j. j < ?C \<Longrightarrow> visits ?C j ct \<le> cur (c_view c) (SlotW j)"
      "\<And>x. c_pc c = CRead \<or> c_pc c = CStore x \<Longrightarrow> ?H < ct"
      "\<And>j. j < ?C \<Longrightarrow> nreads c j \<le> cur (c_view c) (SlotR j)"
      "\<And>j. j < ?C \<Longrightarrow> nreads c j = visits ?C j (?H + popping (c_pc c))"
    have avail: "?H < ct" using k(7) pc by blast
    let ?k = "(c_local c)\<lparr>c_cached_head := of_nat (Suc ?H)\<rparr>"
    let ?V = "(c_view c)\<lparr>cur := (cur (c_view c))(Head := Suc ?H), acq := (acq (c_view c))(Head := Suc ?H)\<rparr>"
    let ?hh = "head_h c @ [(of_nat (length (head_h c)), (cur (c_view c))(Head := Suc ?H))]"
    let ?c = "c\<lparr>head_h := ?hh, c_local := ?k, c_view := ?V, c_pc := CIdle, got := got c @ [x]\<rparr>"
    have r: "r = Inr ?c"
      using step pc k(1) i(3) by (simp add: pop_step_def Let_def store_release_def add.commute)
    have hists: "sp_hists ?C ?hh (tail_h c)"
      by (rule sp_hists_append [OF i(4)]) (use k(8,9) pc i(3) in fastforce)
    have "sp_inv cap ?c"
    proof (rule sp_invI)
      show "sp_consumer ?C (length (sent ?c)) (length (got ?c)) (nreads ?c) (c_local ?c) (c_view ?c) (c_pc ?c)"
        by (rule sp_consumerI [where ct = ct]) (use k pc avail in auto)
      show "sp_producer ?C (length (sent ?c)) (length (got ?c)) (nwrites ?c) (p_local ?c) (p_view ?c) (p_pc ?c)"
        by (rule sp_producer_mono [of _ _ ?H]) (use i(5) in auto)
    qed (use i pc hists in auto)
    with r that show thesis by blast
  qed
qed

lemma sp_step_inv:
  assumes "sp_inv cap c" "sp_step cap c e = Some r"
  obtains c' where "r = Inr c'" "sp_inv cap c'"
proof (cases e)
  case (PushCall x)
  with assms(2) have "p_pc c = PIdle" "r = Inr (push_call cap c x)" by (auto split: if_splits)
  with that push_call_inv [OF assms(1)] show thesis by blast
next
  case (PushStep ts)
  with assms(2) have step: "push_step cap ts c = Some r" by simp
  show thesis
  proof (cases "p_pc c")
    case PIdle
    with step show thesis by (simp add: push_step_def)
  qed (use push_load_inv push_write_inv push_store_inv assms(1) step that in metis)+
next
  case PopCall
  with assms(2) have "c_pc c = CIdle" "r = Inr (pop_call c)" by (auto split: if_splits)
  with that pop_call_inv [OF assms(1)] show thesis by blast
next
  case (PopStep ts)
  with assms(2) have step: "pop_step cap ts c = Some r" by simp
  show thesis
  proof (cases "c_pc c")
    case CIdle
    with step show thesis by (simp add: pop_step_def)
  qed (use pop_load_inv pop_read_inv pop_store_inv assms(1) step that in metis)+
qed

lemma sp_new_inv: "is_power_of_two cap \<Longrightarrow> sp_inv cap (sp_new (replicate (unat cap) None))"
proof (rule sp_invI)
  let ?c = "sp_new (replicate (unat cap) None)"
  show "sp_producer (unat cap) (length (sent ?c)) (length (got ?c)) (nwrites ?c) (p_local ?c) (p_view ?c) (p_pc ?c)"
    by (rule sp_producerI [where ph = 0]) (auto simp: sp_new_def producer_new_def)
  show "sp_consumer (unat cap) (length (sent ?c)) (length (got ?c)) (nreads ?c) (c_local ?c) (c_view ?c) (c_pc ?c)"
    by (rule sp_consumerI [where ct = 0]) (auto simp: sp_new_def consumer_new_def)
qed (auto simp: sp_new_def sp_hists_def hist0_def ring_window_new)

lemma sp_reach_inv: "sp_reach cap c \<Longrightarrow> sp_inv cap c"
proof (induction rule: sp_reach.induct)
  case (sp_next c e c')
  from sp_step_inv [OF sp_next.IH sp_next.hyps(2)] show ?case by blast
qed (rule sp_new_inv)

end
