(* ===== verification/Spsc_Progress.thy ===== *)
theory Spsc_Progress
  imports Spsc_Concurrent
begin

text \<open>
  What the invariant of \<open>Spsc_Concurrent\<close> gives the users of the queue: no fault, delivery in
  order and exactly once, also across the destructor; progress of either side without the
  other (every call ends within three own steps, whatever the other thread does); and
  agreement of every call, however interleaved and with any stale loads, with the sequential \<open>push\<close> and \<open>pop\<close> of \<open>Spsc_Queue\<close>.
\<close>

section \<open>The newest entries can be read\<close>

definition sp_newest :: "'a sp \<Rightarrow> sp_loc \<Rightarrow> nat" where
  "sp_newest c l =
     (case l of
        Head \<Rightarrow> length (head_h c) - 1
      | Tail \<Rightarrow> length (tail_h c) - 1
      | SlotW j \<Rightarrow> nwrites c j
      | SlotR j \<Rightarrow> nreads c j)"

definition sp_within :: "'a sp \<Rightarrow> bool" where
  "sp_within c \<longleftrightarrow>
     head_h c \<noteq> [] \<and> tail_h c \<noteq> [] \<and>
     hist_within (sp_newest c) (head_h c) \<and> hist_within (sp_newest c) (tail_h c) \<and>
     tview_within (sp_newest c) (p_view c) \<and> tview_within (sp_newest c) (c_view c)"

lemma sp_newest_simps [simp]:
  "sp_newest c Head = length (head_h c) - 1" "sp_newest c Tail = length (tail_h c) - 1"
  "sp_newest c (SlotW j) = nwrites c j" "sp_newest c (SlotR j) = nreads c j"
  by (simp_all add: sp_newest_def)

lemma sp_withinI:
  assumes "sp_within c" "\<And>l. sp_newest c l \<le> sp_newest c' l"
    "head_h c' \<noteq> []" "tail_h c' \<noteq> []"
    "head_h c' = head_h c \<or> hist_within (sp_newest c') (head_h c')"
    "tail_h c' = tail_h c \<or> hist_within (sp_newest c') (tail_h c')"
    "p_view c' = p_view c \<or> tview_within (sp_newest c') (p_view c')"
    "c_view c' = c_view c \<or> tview_within (sp_newest c') (c_view c')"
  shows "sp_within c'"
  using assms(1,3-) within_mono(2,3) [of "sp_newest c" "sp_newest c'", OF assms(2)]
  unfolding sp_within_def by metis

lemma sp_same_newest:
  assumes "sp_within c" "sp_newest c' = sp_newest c" "head_h c' = head_h c" "tail_h c' = tail_h c"
    "p_view c' = p_view c \<or> tview_within (sp_newest c) (p_view c')"
    "c_view c' = c_view c \<or> tview_within (sp_newest c) (c_view c')"
  shows "sp_within c'"
  using assms unfolding sp_within_def by metis

lemma within_touch:
  assumes "tview_within b V" "\<And>l. b l \<le> b' l" "k \<le> b' l"
  shows "tview_within b' (touch l k V)"
  using within_mono(2) [of b b', OF assms(2,1)] assms(3)
  by (simp add: tview_within_def touch_def view_within_upd)

lemma push_step_within:
  assumes "sp_within c" "push_step cap ts c = Some (Inr c')"
  shows "sp_within c'"
proof (cases "p_pc c")
  case PIdle
  with assms(2) show ?thesis by (simp add: push_step_def)
next
  case (PLoadHead x)
  with assms(2) obtain h V where ld: "load_acquire Head (head_h c) ts (p_view c) = Some (h, V)"
    and eq: "head_h c' = head_h c" "tail_h c' = tail_h c" "p_view c' = V" "c_view c' = c_view c"
      "nwrites c' = nwrites c" "nreads c' = nreads c"
    by (fastforce simp: push_step_def Let_def split: option.splits if_splits)
  show ?thesis
    by (rule sp_same_newest [OF assms(1)])
      (use eq within_load_acquire [OF ld, of "sp_newest c"] assms(1)
        in \<open>auto simp: sp_within_def sp_newest_def fun_eq_iff split: sp_loc.split\<close>)
next
  case (PWrite x)
  let ?j = "slot_index cap (p_cached_tail (p_local c))"
  from PWrite assms(2) have eq: "head_h c' = head_h c" "tail_h c' = tail_h c" "c_view c' = c_view c"
      "nwrites c' = (nwrites c)(?j := Suc (nwrites c ?j))" "nreads c' = nreads c"
      "p_view c' = touch (SlotW ?j) (Suc (nwrites c ?j)) (p_view c)"
    by (auto simp: push_step_def Let_def split: sum.splits if_splits)
  have mono: "sp_newest c l \<le> sp_newest c' l" for l
    using eq by (cases l) simp_all
  show ?thesis
    by (rule sp_withinI [OF assms(1) mono])
      (use eq assms(1) within_touch [OF _ mono] in \<open>auto simp: sp_within_def\<close>)
next
  case (PStore x)
  let ?v = "p_cached_tail (p_local c) + 1"
  obtain h V where st: "store_release Tail ?v (tail_h c) (p_view c) = (h, V)"
    by (cases "store_release Tail ?v (tail_h c) (p_view c)")
  with PStore assms(2) have eq: "head_h c' = head_h c" "tail_h c' = h" "p_view c' = V" "c_view c' = c_view c"
      "nwrites c' = nwrites c" "nreads c' = nreads c"
    by (auto simp: push_step_def Let_def)
  have h: "length h = Suc (length (tail_h c))" using st by (auto simp: store_release_def)
  have mono: "sp_newest c l \<le> sp_newest c' l" for l
    using eq h by (cases l) simp_all
  have "tview_within (sp_newest c') V \<and> hist_within (sp_newest c') h"
    by (rule within_store(1) [OF _ _ mono _ st]) (use assms(1) eq h in \<open>auto simp: sp_within_def\<close>)
  then show ?thesis
    by (intro sp_withinI [OF assms(1) mono]) (use eq h assms(1) in \<open>auto simp: sp_within_def\<close>)
qed

lemma pop_step_within:
  assumes "sp_within c" "pop_step cap ts c = Some (Inr c')"
  shows "sp_within c'"
proof (cases "c_pc c")
  case CIdle
  with assms(2) show ?thesis by (simp add: pop_step_def)
next
  case CLoadTail
  with assms(2) obtain t V where ld: "load_acquire Tail (tail_h c) ts (c_view c) = Some (t, V)"
    and eq: "head_h c' = head_h c" "tail_h c' = tail_h c" "c_view c' = V" "p_view c' = p_view c"
      "nwrites c' = nwrites c" "nreads c' = nreads c"
    by (fastforce simp: pop_step_def Let_def split: option.splits if_splits)
  show ?thesis
    by (rule sp_same_newest [OF assms(1)])
      (use eq within_load_acquire [OF ld, of "sp_newest c"] assms(1)
        in \<open>auto simp: sp_within_def sp_newest_def fun_eq_iff split: sp_loc.split\<close>)
next
  case CRead
  let ?j = "slot_index cap (c_cached_head (c_local c))"
  from CRead assms(2) have eq: "head_h c' = head_h c" "tail_h c' = tail_h c" "p_view c' = p_view c"
      "nreads c' = (nreads c)(?j := Suc (nreads c ?j))" "nwrites c' = nwrites c"
      "c_view c' = touch (SlotR ?j) (Suc (nreads c ?j)) (c_view c)"
    by (auto simp: pop_step_def Let_def split: sum.splits if_splits)
  have mono: "sp_newest c l \<le> sp_newest c' l" for l
    using eq by (cases l) simp_all
  show ?thesis
    by (rule sp_withinI [OF assms(1) mono])
      (use eq assms(1) within_touch [OF _ mono] in \<open>auto simp: sp_within_def\<close>)
next
  case (CStore x)
  let ?v = "c_cached_head (c_local c) + 1"
  obtain h V where st: "store_release Head ?v (head_h c) (c_view c) = (h, V)"
    by (cases "store_release Head ?v (head_h c) (c_view c)")
  with CStore assms(2) have eq: "tail_h c' = tail_h c" "head_h c' = h" "c_view c' = V" "p_view c' = p_view c"
      "nwrites c' = nwrites c" "nreads c' = nreads c"
    by (auto simp: pop_step_def Let_def)
  have h: "length h = Suc (length (head_h c))" using st by (auto simp: store_release_def)
  have mono: "sp_newest c l \<le> sp_newest c' l" for l
    using eq h by (cases l) simp_all
  have "tview_within (sp_newest c') V \<and> hist_within (sp_newest c') h"
    by (rule within_store(1) [OF _ _ mono _ st]) (use assms(1) eq h in \<open>auto simp: sp_within_def\<close>)
  then show ?thesis
    by (intro sp_withinI [OF assms(1) mono]) (use eq h assms(1) in \<open>auto simp: sp_within_def\<close>)
qed

lemma call_within:
  "sp_within c \<Longrightarrow> sp_within (push_call cap c x)" "sp_within c \<Longrightarrow> sp_within (pop_call c)"
  by (auto elim!: sp_same_newest simp: push_call_def pop_call_def sp_newest_def fun_eq_iff
      split: sp_loc.splits)

lemma sp_reach_within: "sp_reach cap c \<Longrightarrow> sp_within c"
proof (induction rule: sp_reach.induct)
  case sp_init
  show ?case by (simp add: sp_new_def sp_within_def)
next
  case (sp_next c e c')
  then show ?case
    by (cases e) (auto dest: push_step_within pop_step_within call_within split: if_splits)
qed

lemma newest_head:
  assumes "sp_reach cap c"
  obtains V where "load_acquire Head (head_h c) (sp_newest c Head) (p_view c) = Some (fst (last (head_h c)), V)"
proof -
  have w: "sp_within c" by (rule sp_reach_within [OF assms])
  then have "length (head_h c) = Suc (sp_newest c Head)" by (simp add: sp_within_def)
  from load_newest(1) [of "sp_newest c", OF _ this] w that show thesis
    unfolding sp_within_def by blast
qed

lemma newest_tail:
  assumes "sp_reach cap c"
  obtains V where "load_acquire Tail (tail_h c) (sp_newest c Tail) (c_view c) = Some (fst (last (tail_h c)), V)"
proof -
  have w: "sp_within c" by (rule sp_reach_within [OF assms])
  then have "length (tail_h c) = Suc (sp_newest c Tail)" by (simp add: sp_within_def)
  from load_newest(1) [of "sp_newest c", OF _ this] w that show thesis
    unfolding sp_within_def by blast
qed

section \<open>Running one call to its end\<close>

text \<open>
  \<open>push_finish\<close> and \<open>pop_finish\<close> run the call in progress to its end, reading the newest
  counters; the other thread does not move. \<open>sp_queue\<close> is the shared queue then.
\<close>

definition sp_queue :: "'a sp \<Rightarrow> 'a queue" where
  "sp_queue c = \<lparr>slots = cslots c, head = fst (last (head_h c)), tail = fst (last (tail_h c))\<rparr>"

fun push_finish :: "nat \<Rightarrow> usize \<Rightarrow> 'a sp \<Rightarrow> (fault + 'a sp) option" where
  "push_finish 0 cap c = Some (Inr c)"
| "push_finish (Suc n) cap c =
     (case p_pc c of
        PIdle \<Rightarrow> Some (Inr c)
      | _ \<Rightarrow> (case push_step cap (sp_newest c Head) c of
                None \<Rightarrow> None | Some (Inl f) \<Rightarrow> Some (Inl f) | Some (Inr c') \<Rightarrow> push_finish n cap c'))"

fun pop_finish :: "nat \<Rightarrow> usize \<Rightarrow> 'a sp \<Rightarrow> (fault + 'a sp) option" where
  "pop_finish 0 cap c = Some (Inr c)"
| "pop_finish (Suc n) cap c =
     (case c_pc c of
        CIdle \<Rightarrow> Some (Inr c)
      | _ \<Rightarrow> (case pop_step cap (sp_newest c Tail) c of
                None \<Rightarrow> None | Some (Inl f) \<Rightarrow> Some (Inl f) | Some (Inr c') \<Rightarrow> pop_finish n cap c'))"

lemma push_finish_idle: "p_pc c = PIdle \<Longrightarrow> push_finish n cap c = Some (Inr c)"
  by (cases n) auto

lemma pop_finish_idle: "c_pc c = CIdle \<Longrightarrow> pop_finish n cap c = Some (Inr c)"
  by (cases n) auto

lemma push_finish_write:
  assumes inv: "sp_inv cap c" and pc: "p_pc c = PWrite x"
  shows "\<exists>c'. push_finish (Suc (Suc n)) cap c = Some (Inr c') \<and> p_pc c' = PIdle \<and>
    push_write cap (sp_queue c) (p_local c) x = Inr (None, sp_queue c', p_local c') \<and>
    c_local c' = c_local c \<and> sent c' = sent c @ [x] \<and> refused c' = refused c \<and> got c' = got c"
proof -
  let ?j = "slot_index cap (p_cached_tail (p_local c))"
  have "\<exists>r. push_step cap (sp_newest c Head) c = Some r"
    using pc by (simp add: push_step_def Let_def split: sum.split)
  then obtain c1 where s1: "push_step cap (sp_newest c Head) c = Some (Inr c1)"
    using push_write_inv [OF inv pc] by metis
  with pc obtain ss where ss: "slot_write cap (p_cached_tail (p_local c)) x (cslots c) = Inr ss"
    and c1: "c1 = c\<lparr>cslots := ss, nwrites := (nwrites c)(?j := Suc (nwrites c ?j)),
        p_view := touch (SlotW ?j) (Suc (nwrites c ?j)) (p_view c), p_pc := PStore x\<rparr>"
    by (auto simp: push_step_def Let_def split: if_splits sum.splits)
  show ?thesis
    using pc s1 ss
    by (simp add: c1 push_step_def store_release_def Let_def push_finish_idle push_write_def sp_queue_def)
qed

lemma pop_finish_read:
  assumes inv: "sp_inv cap c" and pc: "c_pc c = CRead"
  shows "\<exists>x c'. pop_finish (Suc (Suc n)) cap c = Some (Inr c') \<and> c_pc c' = CIdle \<and>
    pop_read cap (sp_queue c) (c_local c) = Inr (Some x, sp_queue c', c_local c') \<and>
    p_local c' = p_local c \<and> got c' = got c @ [x] \<and> sent c' = sent c \<and> refused c' = refused c"
proof -
  let ?j = "slot_index cap (c_cached_head (c_local c))"
  have "\<exists>r. pop_step cap (sp_newest c Tail) c = Some r"
    using pc by (simp add: pop_step_def Let_def split: sum.split)
  then obtain c1 where s1: "pop_step cap (sp_newest c Tail) c = Some (Inr c1)"
    using pop_read_inv [OF inv pc] by metis
  with pc obtain x ss where ss: "slot_read cap (c_cached_head (c_local c)) (cslots c) = Inr (x, ss)"
    and c1: "c1 = c\<lparr>cslots := ss, nreads := (nreads c)(?j := Suc (nreads c ?j)),
        c_view := touch (SlotR ?j) (Suc (nreads c ?j)) (c_view c), c_pc := CStore x\<rparr>"
    by (auto simp: pop_step_def Let_def split: if_splits sum.splits)
  show ?thesis
    using pc s1 ss
    by (simp add: c1 pop_step_def store_release_def Let_def pop_finish_idle pop_read_def sp_queue_def)
qed

text \<open>What a call records of its answer.\<close>

definition push_recorded :: "'a sp \<Rightarrow> 'a \<Rightarrow> 'a option \<Rightarrow> 'a sp \<Rightarrow> bool" where
  "push_recorded c x r c' \<longleftrightarrow>
     got c' = got c \<and>
     (case r of
        None \<Rightarrow> sent c' = sent c @ [x] \<and> refused c' = refused c
      | Some y \<Rightarrow> y = x \<and> sent c' = sent c \<and> refused c' = refused c @ [x])"

definition pop_recorded :: "'a sp \<Rightarrow> 'a option \<Rightarrow> 'a sp \<Rightarrow> bool" where
  "pop_recorded c r c' \<longleftrightarrow>
     sent c' = sent c \<and> refused c' = refused c \<and>
     got c' = got c @ (case r of None \<Rightarrow> [] | Some x \<Rightarrow> [x])"

lemma push_atomic:
  assumes reach: "sp_reach cap c" and pc: "p_pc c = PIdle"
  shows "\<exists>r c'. push cap (sp_queue c) (p_local c) x = Inr (r, sp_queue c', p_local c') \<and>
    push_finish 3 cap (push_call cap c x) = Some (Inr c') \<and> p_pc c' = PIdle \<and>
    c_local c' = c_local c \<and> push_recorded c x r c'"
proof -
  let ?c = "push_call cap c x"
  have inv: "sp_inv cap c" by (rule sp_reach_inv [OF reach])
  have inv1: "sp_inv cap ?c" by (rule push_call_inv [OF inv pc])
  have three: "3 = Suc (Suc (Suc 0))" by simp
  show ?thesis
  proof (cases "p_cached_tail (p_local c) - p_cached_head (p_local c) = cap")
    case False
    then have pc1: "p_pc ?c = PWrite x" by (simp add: push_call_def)
    from push_finish_write [OF inv1 pc1, of "Suc 0"] False show ?thesis
      unfolding three by (fastforce simp: push_call_def push_def sp_queue_def push_recorded_def)
  next
    case True
    then have c1: "?c = c\<lparr>p_pc := PLoadHead x\<rparr>" by (simp add: push_call_def)
    from newest_head [OF reach] obtain V where
      ld: "load_acquire Head (head_h c) (sp_newest c Head) (p_view c) = Some (fst (last (head_h c)), V)" .
    let ?p = "(p_local c)\<lparr>p_cached_head := fst (last (head_h c))\<rparr>"
    show ?thesis
    proof (cases "p_cached_tail ?p - p_cached_head ?p = cap")
      case full: True
      let ?c' = "c\<lparr>p_local := ?p, p_view := V, p_pc := PIdle, refused := refused c @ [x]\<rparr>"
      have "push_finish 3 cap ?c = Some (Inr ?c')"
        unfolding three using full ld
        by (simp add: c1 push_step_def Let_def push_finish_idle sp_newest_def)
      moreover have "push cap (sp_queue c) (p_local c) x = Inr (Some x, sp_queue ?c', ?p)"
        using True full by (simp add: push_def still_full_def Let_def sp_queue_def)
      ultimately show ?thesis by (intro exI [of _ "Some x"] exI [of _ ?c']) (simp add: push_recorded_def)
    next
      case space: False
      let ?c2 = "c\<lparr>p_local := ?p, p_view := V, p_pc := PWrite x\<rparr>"
      have st: "push_step cap (sp_newest ?c Head) ?c = Some (Inr ?c2)"
        using space ld by (simp add: c1 push_step_def Let_def sp_newest_def)
      have "p_pc ?c = PLoadHead x" by (simp add: c1)
      from push_load_inv [OF inv1 this st] have inv2: "sp_inv cap ?c2" by auto
      have "push cap (sp_queue c) (p_local c) x = push_write cap (sp_queue ?c2) (p_local ?c2) x"
        using True space by (simp add: push_def still_full_def Let_def sp_queue_def)
      moreover have "push_finish 3 cap ?c = push_finish (Suc (Suc 0)) cap ?c2"
        unfolding three using st by (simp add: c1)
      ultimately show ?thesis
        using push_finish_write [OF inv2, of x 0] by (fastforce simp: push_recorded_def)
    qed
  qed
qed

lemma pop_atomic:
  assumes reach: "sp_reach cap c" and pc: "c_pc c = CIdle"
  shows "\<exists>r c'. pop cap (sp_queue c) (c_local c) = Inr (r, sp_queue c', c_local c') \<and>
    pop_finish 3 cap (pop_call c) = Some (Inr c') \<and> c_pc c' = CIdle \<and>
    p_local c' = p_local c \<and> pop_recorded c r c'"
proof -
  let ?c = "pop_call c"
  have inv: "sp_inv cap c" by (rule sp_reach_inv [OF reach])
  have inv1: "sp_inv cap ?c" by (rule pop_call_inv [OF inv pc])
  have three: "3 = Suc (Suc (Suc 0))" by simp
  show ?thesis
  proof (cases "c_cached_head (c_local c) = c_cached_tail (c_local c)")
    case False
    then have pc1: "c_pc ?c = CRead" by (simp add: pop_call_def)
    from pop_finish_read [OF inv1 pc1, of "Suc 0"] False show ?thesis
      unfolding three by (fastforce simp: pop_call_def pop_def sp_queue_def pop_recorded_def)
  next
    case True
    then have c1: "?c = c\<lparr>c_pc := CLoadTail\<rparr>" by (simp add: pop_call_def)
    from newest_tail [OF reach] obtain V where
      ld: "load_acquire Tail (tail_h c) (sp_newest c Tail) (c_view c) = Some (fst (last (tail_h c)), V)" .
    let ?k = "(c_local c)\<lparr>c_cached_tail := fst (last (tail_h c))\<rparr>"
    show ?thesis
    proof (cases "c_cached_head ?k = c_cached_tail ?k")
      case empty: True
      let ?c' = "c\<lparr>c_local := ?k, c_view := V, c_pc := CIdle\<rparr>"
      have "pop_finish 3 cap ?c = Some (Inr ?c')"
        unfolding three using empty ld
        by (simp add: c1 pop_step_def Let_def pop_finish_idle sp_newest_def)
      moreover have "pop cap (sp_queue c) (c_local c) = Inr (None, sp_queue ?c', ?k)"
        using True empty by (simp add: pop_def still_empty_def Let_def sp_queue_def)
      ultimately show ?thesis by (intro exI [of _ None] exI [of _ ?c']) (simp add: pop_recorded_def)
    next
      case item: False
      let ?c2 = "c\<lparr>c_local := ?k, c_view := V, c_pc := CRead\<rparr>"
      have st: "pop_step cap (sp_newest ?c Tail) ?c = Some (Inr ?c2)"
        using item ld by (simp add: c1 pop_step_def Let_def sp_newest_def)
      have "c_pc ?c = CLoadTail" by (simp add: c1)
      from pop_load_inv [OF inv1 this st] have inv2: "sp_inv cap ?c2" by auto
      have "pop cap (sp_queue c) (c_local c) = pop_read cap (sp_queue ?c2) (c_local ?c2)"
        using True item by (simp add: pop_def still_empty_def Let_def sp_queue_def)
      moreover have "pop_finish 3 cap ?c = pop_finish (Suc (Suc 0)) cap ?c2"
        unfolding three using st by (simp add: c1)
      ultimately show ?thesis
        using pop_finish_read [OF inv2, of 0] by (fastforce simp: pop_recorded_def)
    qed
  qed
qed

section \<open>Idle states are states of the sequential queue\<close>

lemma sp_idle_rep:
  assumes "sp_reach cap c" "p_pc c = PIdle" "c_pc c = CIdle"
  shows "spsc_rep cap (length (got c)) (drop (length (got c)) (sent c)) (sp_queue c, p_local c, c_local c)"
    "sent c = got c @ drop (length (got c)) (sent c)"
proof -
  note i = sp_invD [OF sp_reach_inv [OF assms(1)]]
  from i(9) assms(3) show "sent c = got c @ drop (length (got c)) (sent c)"
    by (metis add.right_neutral append_Nil2 append_take_drop_id popped.simps(2) popping.simps(2))
  have last: "fst (last (tail_h c)) = of_nat (length (sent c))" "fst (last (head_h c)) = of_nat (length (got c))"
  proof -
    have "last (tail_h c) = tail_h c ! length (sent c)" "last (head_h c) = head_h c ! length (got c)"
      using i(2,3) by (cases "tail_h c" rule: rev_cases; cases "head_h c" rule: rev_cases; simp)+
    then show "fst (last (tail_h c)) = of_nat (length (sent c))" "fst (last (head_h c)) = of_nat (length (got c))"
      using i(2-4) by (simp_all add: sp_hists_def)
  qed
  from i(5) obtain ph where p: "p_cached_tail (p_local c) = of_nat (length (sent c))" "ph \<le> length (got c)"
    "p_cached_head (p_local c) = of_nat ph" "length (sent c) \<le> ph + unat cap"
    by (rule sp_producerE)
  from i(6) obtain ct where k: "c_cached_head (c_local c) = of_nat (length (got c))" "length (got c) \<le> ct"
    "ct \<le> length (sent c)" "c_cached_tail (c_local c) = of_nat ct"
    by (rule sp_consumerE)
  show "spsc_rep cap (length (got c)) (drop (length (got c)) (sent c)) (sp_queue c, p_local c, c_local c)"
    by (rule spsc_repI [where ph = ph and ct = ct])
      (use i(1,7,8) assms(2,3) last p k in \<open>auto simp: sp_queue_def\<close>)
qed

section \<open>What the slots in use hold\<close>

lemma producer_slot:
  assumes inv: "sp_inv cap c" and pc: "p_pc c = PWrite x \<or> p_pc c = PStore x"
  shows "slot_index cap (p_cached_tail (p_local c)) < length (cslots c) \<and>
    cslots c ! slot_index cap (p_cached_tail (p_local c)) = (if p_pc c = PStore x then Some x else None)"
proof -
  note i = sp_invD [OF inv]
  let ?G = "length (got c) + popping (c_pc c)" and ?T = "length (sent c)"
  from i(5) pc obtain ph where p: "p_cached_tail (p_local c) = of_nat ?T" "ph \<le> length (got c)" "?T < ph + unat cap"
    by (blast elim: sp_producerE)
  have idx: "slot_index cap (p_cached_tail (p_local c)) = ?T mod unat cap"
    using p(1) i(1) by (simp add: slot_index_of_nat)
  show ?thesis
    unfolding idx using ring_window_at [OF i(8), of ?T] i(7) p(2,3) pc by (auto simp: nth_append)
qed

lemma consumer_slot:
  assumes inv: "sp_inv cap c" and pc: "c_pc c = CRead \<or> c_pc c = CStore x"
  shows "slot_index cap (c_cached_head (c_local c)) < length (cslots c) \<and>
    cslots c ! slot_index cap (c_cached_head (c_local c)) =
      (if c_pc c = CRead then Some (sent c ! length (got c)) else None)"
proof -
  note i = sp_invD [OF inv]
  let ?H = "length (got c)" and ?C = "unat cap"
  have C: "0 < ?C" by (rule power_of_two_pos [OF i(1)])
  from i(6) pc obtain ct where k: "c_cached_head (c_local c) = of_nat ?H" "ct \<le> length (sent c)" "?H < ct"
    by (blast elim: sp_consumerE)
  have idx: "slot_index cap (c_cached_head (c_local c)) = ?H mod ?C"
    using k(1) i(1) by (simp add: slot_index_of_nat)
  show ?thesis
  proof (cases "c_pc c = CRead")
    case True
    with ring_window_at [OF i(8), of ?H] C k(2,3) show ?thesis
      unfolding idx by (auto simp: nth_append)
  next
    case False
    with pc have pc': "c_pc c = CStore x" by simp
    have "(?H + ?C) mod ?C = ?H mod ?C" by simp
    moreover have "\<not> ?H + ?C - (?H + 1) < length (drop (?H + 1) (sent c @ in_flight (p_pc c)))"
      using sp_inv_room [OF inv] C by auto
    ultimately show ?thesis
      using ring_window_at [OF i(8), of "?H + ?C"] C pc' unfolding idx by auto
  qed
qed

section \<open>Any run of a call\<close>

text \<open>
  A call of \<open>push\<close> from the state \<open>c\<close>, with \<open>h\<close> the entry of \<open>head\<close> it works with: one that the
  view of the producer at the call still allowed and that the consumer has stored by now.
\<close>

definition push_cache_full :: "usize \<Rightarrow> producer \<Rightarrow> bool" where
  "push_cache_full cap p \<longleftrightarrow> p_cached_tail p - p_cached_head p = cap"

definition push_asked :: "usize \<Rightarrow> 'a sp \<Rightarrow> nat \<Rightarrow> producer \<Rightarrow> bool" where
  "push_asked cap c h p \<longleftrightarrow>
     p = (if push_cache_full cap (p_local c) then (p_local c)\<lparr>p_cached_head := of_nat h\<rparr> else p_local c) \<and>
     cur (p_view c) Head \<le> h"

definition push_underway :: "usize \<Rightarrow> 'a sp \<Rightarrow> 'a \<Rightarrow> 'a sp \<Rightarrow> bool" where
  "push_underway cap c x m \<longleftrightarrow>
     p_pc m = PIdle \<or>
     tail_h m = tail_h c \<and> sent m = sent c \<and> refused m = refused c \<and> length (got c) \<le> length (got m) \<and>
     (p_pc m = PLoadHead x \<and> push_cache_full cap (p_local c) \<and> p_local m = p_local c \<and> p_view m = p_view c \<or>
      (p_pc m = PWrite x \<or> p_pc m = PStore x) \<and> \<not> push_cache_full cap (p_local m) \<and>
        (\<exists>h\<le>length (got m). push_asked cap c h (p_local m)))"

definition pop_asked :: "'a sp \<Rightarrow> nat \<Rightarrow> consumer \<Rightarrow> bool" where
  "pop_asked c t k \<longleftrightarrow>
     k = (if c_cached_head (c_local c) = c_cached_tail (c_local c)
          then (c_local c)\<lparr>c_cached_tail := of_nat t\<rparr> else c_local c) \<and>
     cur (c_view c) Tail \<le> t"

definition pop_underway :: "'a sp \<Rightarrow> 'a sp \<Rightarrow> bool" where
  "pop_underway c m \<longleftrightarrow>
     c_pc m = CIdle \<or>
     head_h m = head_h c \<and> got m = got c \<and> length (sent c) \<le> length (sent m) \<and>
     (c_pc m = CLoadTail \<and> c_cached_head (c_local c) = c_cached_tail (c_local c) \<and>
        c_local m = c_local c \<and> c_view m = c_view c \<or>
      (c_pc m = CRead \<or> (\<exists>x. c_pc m = CStore x)) \<and> c_cached_head (c_local m) \<noteq> c_cached_tail (c_local m) \<and>
        (\<exists>t\<le>length (sent m). pop_asked c t (c_local m)))"

lemma pop_step_keeps:
  assumes "pop_step cap ts m = Some (Inr m')"
  shows "p_pc m' = p_pc m" "p_local m' = p_local m" "p_view m' = p_view m" "tail_h m' = tail_h m"
    "sent m' = sent m" "refused m' = refused m" "length (got m) \<le> length (got m')"
  using assms
  by (auto simp: pop_step_def Let_def store_release_def split: cpc.splits option.splits sum.splits if_splits)

lemma push_step_keeps:
  assumes "push_step cap ts m = Some (Inr m')"
  shows "c_pc m' = c_pc m" "c_local m' = c_local m" "c_view m' = c_view m" "head_h m' = head_h m"
    "got m' = got m" "length (sent m) \<le> length (sent m')"
  using assms
  by (auto simp: push_step_def Let_def store_release_def split: ppc.splits option.splits sum.splits if_splits)

lemma push_underway_call:
  assumes "sp_within c" "length (head_h c) = Suc (length (got c))"
  shows "push_underway cap c x (push_call cap c x)"
proof -
  have "cur (p_view c) Head \<le> length (got c)"
    using assms by (auto simp: sp_within_def tview_within_def view_within_def dest: spec [of _ Head])
  then show ?thesis
    by (auto simp: push_underway_def push_call_def push_cache_full_def push_asked_def)
qed

lemma push_underway_step:
  assumes "push_underway cap c x m" "sp_inv cap m" "push_step cap ts m = Some (Inr m')"
  shows "push_underway cap c x m'"
proof (cases "p_pc m")
  case (PLoadHead y)
  note i = sp_invD [OF assms(2)]
  from PLoadHead assms(3) obtain v V where ld: "load_acquire Head (head_h m) ts (p_view m) = Some (v, V)"
    by (auto simp: push_step_def split: option.splits)
  note l = load_acquire_Some [OF ld]
  have "v = of_nat ts" "ts \<le> length (got m)" using l(1,3) i(3,4) by (auto simp: sp_hists_def)
  with assms(1,3) ld PLoadHead l(2) show ?thesis
    by (auto simp: push_underway_def push_step_def push_asked_def push_cache_full_def Let_def split: if_splits)
qed (use assms(1,3) in \<open>auto simp: push_underway_def push_step_def store_release_def Let_def split: sum.splits if_splits\<close>)

lemma push_underway_run:
  assumes "sp_reach cap m" "push_underway cap c x m" "\<forall>y. PushCall y \<notin> set es"
    "sp_run cap m es = Some (Inr m')"
  shows "push_underway cap c x m'"
  using assms
proof (induction es arbitrary: m)
  case (Cons e es)
  from Cons.prems(4) obtain m1 where st: "sp_step cap m e = Some (Inr m1)" "sp_run cap m1 es = Some (Inr m')"
    by (auto split: option.splits sum.splits)
  have "push_underway cap c x m1"
  proof (cases e)
    case (PushStep ts)
    with st(1) push_underway_step [OF Cons.prems(2) sp_reach_inv [OF Cons.prems(1)]] show ?thesis by simp
  next
    case (PopStep ts)
    with st(1) have "pop_step cap ts m = Some (Inr m1)" by simp
    from pop_step_keeps [OF this] Cons.prems(2) show ?thesis
      unfolding push_underway_def by (auto intro: order_trans)
  qed (use st(1) Cons.prems(2,3) in \<open>auto simp: push_underway_def pop_call_def split: if_splits\<close>)
  with Cons.IH [OF sp_next [OF Cons.prems(1) st(1)]] Cons.prems(3) st(2) show ?case by auto
qed simp

lemma push_run_ends:
  assumes inv: "sp_inv cap m" and under: "push_underway cap c x m"
    and step: "push_step cap ts m = Some (Inr c')" and pc: "p_pc c' = PIdle"
  shows "\<exists>h r. cur (p_view c) Head \<le> h \<and> h \<le> length (got c') \<and>
    push cap \<lparr>slots = (case r of None \<Rightarrow> (cslots c')[slot_index cap (p_cached_tail (p_local c)) := None]
                       | Some y \<Rightarrow> cslots c'),
              head = of_nat h, tail = fst (last (tail_h c))\<rparr> (p_local c) x =
      Inr (r, (sp_queue c')\<lparr>head := of_nat h\<rparr>, p_local c') \<and>
    sent c' = sent c @ (case r of None \<Rightarrow> [x] | Some y \<Rightarrow> []) \<and>
    refused c' = refused c @ (case r of None \<Rightarrow> [] | Some y \<Rightarrow> [y])"
proof (cases "p_pc m")
  case PIdle
  with step show ?thesis by (simp add: push_step_def)
next
  case (PLoadHead y)
  note i = sp_invD [OF inv]
  from PLoadHead step obtain v V where ld: "load_acquire Head (head_h m) ts (p_view m) = Some (v, V)"
    by (auto simp: push_step_def split: option.splits)
  note l = load_acquire_Some [OF ld]
  have v: "v = of_nat ts" "ts \<le> length (got m)" using l(1,3) i(3,4) by (auto simp: sp_hists_def)
  show ?thesis
    using under step pc ld PLoadHead v l(2)
    by (intro exI [of _ ts] exI [of _ "Some x"])
      (auto simp: push_underway_def push_step_def push_cache_full_def push_def still_full_def sp_queue_def
        Let_def split: if_splits)
next
  case (PWrite y)
  with step pc show ?thesis by (auto simp: push_step_def Let_def split: sum.splits if_splits)
next
  case (PStore y)
  from PStore under obtain h where u: "y = x" "tail_h m = tail_h c" "sent m = sent c" "refused m = refused c"
    "\<not> push_cache_full cap (p_local m)" "h \<le> length (got m)" "push_asked cap c h (p_local m)"
    unfolding push_underway_def by auto
  let ?k = "slot_index cap (p_cached_tail (p_local m))"
  have k: "p_cached_tail (p_local c) = p_cached_tail (p_local m)"
    using u(7) by (simp add: push_asked_def split: if_splits)
  have slot: "?k < length (cslots m)" "cslots m ! ?k = Some x"
    using producer_slot [OF inv, of x] PStore u(1) by simp_all
  let ?q = "\<lparr>slots = (cslots m)[?k := None], head = of_nat h, tail = fst (last (tail_h c))\<rparr>"
  let ?p = "(p_local m)\<lparr>p_cached_tail := p_cached_tail (p_local m) + 1\<rparr>"
  have "push cap ?q (p_local c) x = push_write cap ?q (p_local m) x"
    using u(5,7) by (auto simp: push_def still_full_def push_asked_def push_cache_full_def Let_def split: if_splits)
  also have "\<dots> = Inr (None, \<lparr>slots = cslots m, head = of_nat h, tail = p_cached_tail ?p\<rparr>, ?p)"
  proof -
    have "(cslots m)[?k := Some x] = cslots m" using slot(2) by (metis list_update_id)
    with slot(1) show ?thesis by (simp add: push_write_def slot_write_def Let_def)
  qed
  finally have seq: "push cap ?q (p_local c) x = \<dots>" .
  have c': "cslots c' = cslots m" "p_local c' = ?p" "fst (last (tail_h c')) = p_cached_tail ?p"
    "got c' = got m" "sent c' = sent m @ [x]" "refused c' = refused m"
    using step PStore u(1) by (auto simp: push_step_def store_release_def Let_def)
  have "cur (p_view c) Head \<le> h" using u(7) by (simp add: push_asked_def)
  with seq c' u(3,4,6) show ?thesis
    by (intro exI [of _ h] exI [of _ None]) (simp add: k sp_queue_def)
qed

lemma pop_underway_call:
  assumes "sp_within c" "length (tail_h c) = Suc (length (sent c))"
  shows "pop_underway c (pop_call c)"
proof -
  have "cur (c_view c) Tail \<le> length (sent c)"
    using assms by (auto simp: sp_within_def tview_within_def view_within_def dest: spec [of _ Tail])
  then show ?thesis by (auto simp: pop_underway_def pop_call_def pop_asked_def)
qed

lemma pop_underway_step:
  assumes "pop_underway c m" "sp_inv cap m" "pop_step cap ts m = Some (Inr m')"
  shows "pop_underway c m'"
proof (cases "c_pc m")
  case CLoadTail
  note i = sp_invD [OF assms(2)]
  from CLoadTail assms(3) obtain v V where ld: "load_acquire Tail (tail_h m) ts (c_view m) = Some (v, V)"
    by (auto simp: pop_step_def split: option.splits)
  note l = load_acquire_Some [OF ld]
  have "v = of_nat ts" "ts \<le> length (sent m)" using l(1,3) i(2,4) by (auto simp: sp_hists_def)
  with assms(1,3) ld CLoadTail l(2) show ?thesis
    by (auto simp: pop_underway_def pop_step_def pop_asked_def Let_def split: if_splits)
qed (use assms(1,3) in \<open>auto simp: pop_underway_def pop_step_def store_release_def Let_def split: sum.splits if_splits\<close>)

lemma pop_underway_run:
  assumes "sp_reach cap m" "pop_underway c m" "PopCall \<notin> set es" "sp_run cap m es = Some (Inr m')"
  shows "pop_underway c m'"
  using assms
proof (induction es arbitrary: m)
  case (Cons e es)
  from Cons.prems(4) obtain m1 where st: "sp_step cap m e = Some (Inr m1)" "sp_run cap m1 es = Some (Inr m')"
    by (auto split: option.splits sum.splits)
  have "pop_underway c m1"
  proof (cases e)
    case (PopStep ts)
    with st(1) pop_underway_step [OF Cons.prems(2) sp_reach_inv [OF Cons.prems(1)]] show ?thesis by simp
  next
    case (PushStep ts)
    with st(1) have "push_step cap ts m = Some (Inr m1)" by simp
    from push_step_keeps [OF this] Cons.prems(2) show ?thesis
      unfolding pop_underway_def by (auto intro: order_trans)
  qed (use st(1) Cons.prems(2,3) in \<open>auto simp: pop_underway_def push_call_def split: if_splits\<close>)
  with Cons.IH [OF sp_next [OF Cons.prems(1) st(1)]] Cons.prems(3) st(2) show ?case by auto
qed simp

lemma pop_run_ends:
  assumes inv: "sp_inv cap m" and under: "pop_underway c m"
    and step: "pop_step cap ts m = Some (Inr c')" and pc: "c_pc c' = CIdle"
  shows "\<exists>t r. cur (c_view c) Tail \<le> t \<and> t \<le> length (sent c') \<and>
    pop cap \<lparr>slots = (case r of None \<Rightarrow> cslots c'
                      | Some y \<Rightarrow> (cslots c')[slot_index cap (c_cached_head (c_local c)) := Some y]),
             head = fst (last (head_h c)), tail = of_nat t\<rparr> (c_local c) =
      Inr (r, (sp_queue c')\<lparr>tail := of_nat t\<rparr>, c_local c') \<and>
    got c' = got c @ (case r of None \<Rightarrow> [] | Some y \<Rightarrow> [y])"
proof (cases "c_pc m")
  case CIdle
  with step show ?thesis by (simp add: pop_step_def)
next
  case CLoadTail
  note i = sp_invD [OF inv]
  from CLoadTail step obtain v V where ld: "load_acquire Tail (tail_h m) ts (c_view m) = Some (v, V)"
    by (auto simp: pop_step_def split: option.splits)
  note l = load_acquire_Some [OF ld]
  have v: "v = of_nat ts" "ts \<le> length (sent m)" using l(1,3) i(2,4) by (auto simp: sp_hists_def)
  show ?thesis
    using under step pc ld CLoadTail v l(2)
    by (intro exI [of _ ts] exI [of _ "None"])
      (auto simp: pop_underway_def pop_step_def pop_def still_empty_def sp_queue_def Let_def split: if_splits)
next
  case CRead
  with step pc show ?thesis by (auto simp: pop_step_def Let_def split: sum.splits if_splits)
next
  case (CStore y)
  from CStore under obtain t where u: "head_h m = head_h c" "got m = got c"
    "c_cached_head (c_local m) \<noteq> c_cached_tail (c_local m)" "t \<le> length (sent m)" "pop_asked c t (c_local m)"
    unfolding pop_underway_def by auto
  let ?k = "slot_index cap (c_cached_head (c_local m))"
  have k: "c_cached_head (c_local c) = c_cached_head (c_local m)"
    using u(5) by (simp add: pop_asked_def split: if_splits)
  have slot: "?k < length (cslots m)" "cslots m ! ?k = None"
    using consumer_slot [OF inv, of y] CStore by simp_all
  let ?q = "\<lparr>slots = (cslots m)[?k := Some y], head = fst (last (head_h c)), tail = of_nat t\<rparr>"
  let ?l = "(c_local m)\<lparr>c_cached_head := c_cached_head (c_local m) + 1\<rparr>"
  have "pop cap ?q (c_local c) = pop_read cap ?q (c_local m)"
    using u(3,5) by (auto simp: pop_def still_empty_def pop_asked_def Let_def split: if_splits)
  also have "\<dots> = Inr (Some y, \<lparr>slots = cslots m, head = c_cached_head ?l, tail = of_nat t\<rparr>, ?l)"
  proof -
    have "(cslots m)[?k := None] = cslots m" using slot(2) by (metis list_update_id)
    with slot(1) show ?thesis by (simp add: pop_read_def slot_read_def Let_def)
  qed
  finally have seq: "pop cap ?q (c_local c) = \<dots>" .
  have c': "cslots c' = cslots m" "c_local c' = ?l" "fst (last (head_h c')) = c_cached_head ?l"
    "got c' = got m @ [y]" "sent c' = sent m"
    using step CStore by (auto simp: pop_step_def store_release_def Let_def)
  have "cur (c_view c) Tail \<le> t" using u(5) by (simp add: pop_asked_def)
  with seq c' u(2,4) show ?thesis
    by (intro exI [of _ t] exI [of _ "Some y"]) (simp add: k sp_queue_def)
qed

section \<open>Properties\<close>

text \<open>A run in which a pop overlaps a push, and the queue is full at the end.\<close>

definition demo_events :: "nat sp_event list" where
  "demo_events =
     [PushCall 1, PushStep 0, PushStep 0, PopCall, PopStep 1, PushCall 2, PopStep 0, PushStep 0,
      PushStep 0, PopStep 0, PushCall 3, PushStep 1, PushStep 0, PushStep 0]"

lemma demo_run:
  "map_option (map_sum id (\<lambda>c. (p_pc c, c_pc c, sent c, got c)))
     (sp_run 2 (sp_new (replicate (unat (2 :: usize)) None)) demo_events) =
   Some (Inr (PIdle, CIdle, [1, 2, 3], [1]))"
  by code_simp

lemma demo_reach: "\<exists>c. sp_reach 2 c \<and> p_pc c = PIdle \<and> c_pc c = CIdle \<and> sent c = [1, 2, 3 :: nat] \<and> got c = [1]"
proof -
  from demo_run [unfolded map_run_iff] obtain c where
    "sp_run 2 (sp_new (replicate (unat (2 :: usize)) None)) demo_events = Some (Inr c)"
    "p_pc c = PIdle" "c_pc c = CIdle" "sent c = [1, 2, 3]" "got c = [1]"
    by blast
  with sp_reach_run [OF sp_init [OF two_is_power_of_two]] show ?thesis by blast
qed

text \<open>
  C2: No interleaving of \<open>push\<close> and \<open>pop\<close>, with any stale values the memory model allows,
  reaches a data race on a slot, a read of an uninitialised slot or an access outside the
  buffer; and in every reachable state the slot that \<open>push\<close> is about to write holds no item
  (so none is overwritten, which the raw write would not notice) and the slot that \<open>pop\<close> is
  about to read holds one. The \<open>Acquire\<close> loads and \<open>Release\<close> stores of \<open>head\<close> and \<open>tail\<close> are
  enough for this.
\<close>

theorem sp_no_fault:
  assumes "sp_reach cap c"
  shows "sp_step cap c e \<noteq> Some (Inl f) \<and>
    (\<forall>x. p_pc c = PWrite x \<longrightarrow>
       slot_index cap (p_cached_tail (p_local c)) < length (cslots c) \<and>
       cslots c ! slot_index cap (p_cached_tail (p_local c)) = None) \<and>
    (c_pc c = CRead \<longrightarrow>
       slot_index cap (c_cached_head (c_local c)) < length (cslots c) \<and>
       (\<exists>x. cslots c ! slot_index cap (c_cached_head (c_local c)) = Some x))"
proof (intro conjI allI impI)
  note inv = sp_reach_inv [OF assms]
  show "sp_step cap c e \<noteq> Some (Inl f)" using sp_step_inv [OF inv, of e "Inl f"] by auto
qed (use producer_slot [OF sp_reach_inv [OF assms]] consumer_slot [OF sp_reach_inv [OF assms]] in auto)

text \<open>The witness: the second lap of the ring, just before the third item is written to slot 0.\<close>

theorem sp_no_fault_witness:
  "\<exists>c. sp_reach 2 c \<and> p_pc c = PWrite (3 :: nat) \<and> sent c = [1, 2] \<and>
     slot_index 2 (p_cached_tail (p_local c)) = 0 \<and> cslots c ! 0 = None \<and>
     sp_step 2 c (PushStep 0) \<noteq> Some (Inl DataRace)"
proof -
  have "map_option (map_sum id (\<lambda>c. (p_pc c, sent c, slot_index 2 (p_cached_tail (p_local c)))))
      (sp_run 2 (sp_new (replicate (unat (2 :: usize)) None)) (take 12 demo_events)) =
    Some (Inr (PWrite 3, [1, 2], 0))" by code_simp
  then obtain c where run: "sp_run 2 (sp_new (replicate (unat (2 :: usize)) None)) (take 12 demo_events) = Some (Inr c)"
    and c: "p_pc c = PWrite 3" "sent c = [1, 2]" "slot_index 2 (p_cached_tail (p_local c)) = 0"
    unfolding map_run_iff by auto
  have "sp_reach 2 c" by (rule sp_reach_run [OF sp_init [OF two_is_power_of_two] run])
  with sp_no_fault [OF this, of "PushStep 0" DataRace] c show ?thesis by auto
qed

text \<open>
  C3: In every reachable state the consumer has received a prefix of what the producer has
  sent (in order, nothing lost, duplicated or invented), and at most \<open>CAPACITY\<close> items are
  between them.
\<close>

theorem sp_delivery:
  assumes "sp_reach cap c"
  shows "prefix (got c) (sent c) \<and> length (sent c) \<le> length (got c) + unat cap"
proof
  note i = sp_invD [OF sp_reach_inv [OF assms]]
  show "prefix (got c) (sent c)" by (rule sp_inv_prefix [OF sp_reach_inv [OF assms]])
  show "length (sent c) \<le> length (got c) + unat cap"
    using sp_inv_room [OF sp_reach_inv [OF assms]] by simp
qed

theorem sp_delivery_witness:
  "\<exists>c. sp_reach 2 c \<and> sent c = [1, 2, 3 :: nat] \<and> got c = [1] \<and> prefix (got c) (sent c) \<and>
    length (sent c) \<le> length (got c) + unat (2 :: usize)"
  using demo_reach sp_delivery by metis

text \<open>
  When both handles are idle, the shared queue and the handles are a state of the
  sequential model, whose contents are what was sent and not received, and dropping the queue
  then drops exactly those items.
\<close>

theorem sp_idle_state:
  assumes "sp_reach cap c" "p_pc c = PIdle" "c_pc c = CIdle"
  shows "spsc_inv cap (sp_queue c, p_local c, c_local c) \<and>
    sent c = got c @ spsc_contents cap (sp_queue c, p_local c, c_local c) \<and>
    queue_drop cap (sp_queue c) =
      Inr (spsc_contents cap (sp_queue c, p_local c, c_local c), replicate (unat cap) None)"
  using sp_idle_rep [OF assms] spsc_rep_inv spsc_rep_contents queue_drop_rep by metis

theorem sp_idle_state_witness:
  "\<exists>c. sp_reach 2 c \<and> sent c = [1, 2, 3 :: nat] \<and> got c = [1] \<and>
    queue_drop 2 (sp_queue c) = Inr ([2, 3], replicate (unat (2 :: usize)) None)"
proof -
  obtain c where c: "sp_reach 2 c" "p_pc c = PIdle" "c_pc c = CIdle" "sent c = [1, 2, 3 :: nat]" "got c = [1]"
    using demo_reach by blast
  from sp_idle_state [OF c(1-3)] c(4,5) have
    "queue_drop 2 (sp_queue c) = Inr ([2, 3], replicate (unat (2 :: usize)) None)" by simp
  with c show ?thesis by blast
qed

text \<open>
  C7: Any call of \<open>push\<close> is the sequential \<open>push\<close>. The call starts in a reachable state \<open>c\<close>
  (the consumer may be stopped anywhere inside \<open>pop\<close>); steps and calls of \<open>pop\<close> come between
  its own steps, its load may return any entry the memory model allows, and it returns in \<open>c'\<close>.
  Then for some \<open>h\<close> the sequential \<open>push\<close>, on a queue whose \<open>head\<close> is entry \<open>h\<close>, gives the
  answer, the new cached counters, the slots and the \<open>tail\<close> of \<open>c'\<close>. Entry \<open>h\<close> may be stale, but
  it is not older than what the producer knew of \<open>head\<close> at the call, and not newer than the
  pops finished by its return. The slots are those at the return without what the call wrote.
\<close>

theorem sp_push_refines:
  assumes "sp_reach cap c" "p_pc c = PIdle"
    and "sp_run cap (push_call cap c x) es = Some (Inr m)" "\<forall>y. PushCall y \<notin> set es"
    and "push_step cap ts m = Some (Inr c')" "p_pc c' = PIdle"
  shows "\<exists>h r. cur (p_view c) Head \<le> h \<and> h \<le> length (got c') \<and>
    push cap \<lparr>slots = (case r of None \<Rightarrow> (cslots c')[slot_index cap (p_cached_tail (p_local c)) := None]
                       | Some y \<Rightarrow> cslots c'),
              head = of_nat h, tail = fst (last (tail_h c))\<rparr> (p_local c) x =
      Inr (r, (sp_queue c')\<lparr>head := of_nat h\<rparr>, p_local c') \<and>
    sent c' = sent c @ (case r of None \<Rightarrow> [x] | Some y \<Rightarrow> []) \<and>
    refused c' = refused c @ (case r of None \<Rightarrow> [] | Some y \<Rightarrow> [y])"
proof -
  have c1: "sp_reach cap (push_call cap c x)"
    by (rule sp_next [OF assms(1), of "PushCall x"]) (simp add: assms(2))
  have "push_underway cap c x (push_call cap c x)"
    by (rule push_underway_call [OF sp_reach_within sp_invD(3) [OF sp_reach_inv]]) (rule assms(1))+
  from push_underway_run [OF c1 this assms(4,3)] have "push_underway cap c x m" .
  from push_run_ends [OF sp_reach_inv [OF sp_reach_run [OF c1 assms(3)]] this assms(5,6)] show ?thesis .
qed

text \<open>
  The witnesses: on a queue of one slot, whose one item has been popped, a \<open>push\<close> whose load of
  \<open>head\<close> is stale hands its item back (\<open>h = 0\<close>); on one whose item is being popped, a \<open>pop\<close> runs
  while the \<open>push\<close> is between its call and its load, and then it succeeds.
\<close>

definition popped_events :: "nat sp_event list" where
  "popped_events = [PushCall 1, PushStep 0, PushStep 0, PopCall, PopStep 1, PopStep 0, PopStep 0]"

theorem sp_push_refines_witness:
  "\<exists>c c' h r. sp_reach 1 c \<and> sent c = [1 :: nat] \<and> got c = [1] \<and> h \<le> length (got c') \<and>
     push 1 \<lparr>slots = (case r of None \<Rightarrow> (cslots c')[slot_index 1 (p_cached_tail (p_local c)) := None]
                      | Some y \<Rightarrow> cslots c'),
             head = of_nat h, tail = fst (last (tail_h c))\<rparr> (p_local c) (9 :: nat) =
       Inr (r, (sp_queue c')\<lparr>head := of_nat h\<rparr>, p_local c') \<and> r = Some 9 \<and> cslots c' = [None]"
proof -
  have one: "is_power_of_two 1" by code_simp
  have "map_option (map_sum id (\<lambda>c. (p_pc c, sent c, got c, refused c,
        map_option (map_sum id (\<lambda>c'. (p_pc c', cslots c', sent c', refused c'))) (push_step 1 0 (push_call 1 c 9)))))
      (sp_run 1 (sp_new (replicate (unat (1 :: usize)) None)) popped_events) =
    Some (Inr (PIdle, [1], [1], [], Some (Inr (PIdle, [None], [1], [9]))))" by code_simp
  then obtain c c' where run: "sp_run 1 (sp_new (replicate (unat (1 :: usize)) None)) popped_events = Some (Inr c)"
    and c: "p_pc c = PIdle" "sent c = [1]" "got c = [1]" "refused c = []"
    and st: "push_step 1 0 (push_call 1 c 9) = Some (Inr c')" "p_pc c' = PIdle" "cslots c' = [None]"
      "sent c' = [1]" "refused c' = [9]"
    unfolding map_run_iff prod.inject by blast
  have reach: "sp_reach 1 c" by (rule sp_reach_run [OF sp_init [OF one] run])
  have "sp_run 1 (push_call 1 c 9) [] = Some (Inr (push_call 1 c 9))" "\<forall>y. PushCall y \<notin> set ([] :: nat sp_event list)"
    by simp_all
  from sp_push_refines [OF reach c(1) this st(1,2)] obtain h r where
    "h \<le> length (got c')" and seq: "push 1 \<lparr>slots = (case r of None \<Rightarrow> (cslots c')[slot_index 1 (p_cached_tail (p_local c)) := None]
                      | Some y \<Rightarrow> cslots c'),
             head = of_nat h, tail = fst (last (tail_h c))\<rparr> (p_local c) 9 =
       Inr (r, (sp_queue c')\<lparr>head := of_nat h\<rparr>, p_local c')"
    and "refused c' = refused c @ (case r of None \<Rightarrow> [] | Some y \<Rightarrow> [y])"
    by blast
  moreover from this(3) c(4) st(5) have "r = Some 9" by (auto split: option.splits)
  ultimately show ?thesis using reach c(2,3) st(3) by (intro exI conjI) assumption+
qed

text \<open>
  C8: Any call of \<open>pop\<close> is the sequential \<open>pop\<close> in the same sense, whatever \<open>push\<close> does between
  its steps: on a queue whose \<open>tail\<close> is an entry \<open>t\<close>, possibly stale, not older than what the
  consumer knew of \<open>tail\<close> at the call and not newer than the pushes finished by its return.
\<close>

theorem sp_pop_refines:
  assumes "sp_reach cap c" "c_pc c = CIdle"
    and "sp_run cap (pop_call c) es = Some (Inr m)" "PopCall \<notin> set es"
    and "pop_step cap ts m = Some (Inr c')" "c_pc c' = CIdle"
  shows "\<exists>t r. cur (c_view c) Tail \<le> t \<and> t \<le> length (sent c') \<and>
    pop cap \<lparr>slots = (case r of None \<Rightarrow> cslots c'
                      | Some y \<Rightarrow> (cslots c')[slot_index cap (c_cached_head (c_local c)) := Some y]),
             head = fst (last (head_h c)), tail = of_nat t\<rparr> (c_local c) =
      Inr (r, (sp_queue c')\<lparr>tail := of_nat t\<rparr>, c_local c') \<and>
    got c' = got c @ (case r of None \<Rightarrow> [] | Some y \<Rightarrow> [y])"
proof -
  have c1: "sp_reach cap (pop_call c)"
    by (rule sp_next [OF assms(1), of PopCall]) (simp add: assms(2))
  have "pop_underway c (pop_call c)"
    by (rule pop_underway_call [OF sp_reach_within sp_invD(2) [OF sp_reach_inv]]) (rule assms(1))+
  from pop_underway_run [OF c1 this assms(4,3)] have "pop_underway c m" .
  from pop_run_ends [OF sp_reach_inv [OF sp_reach_run [OF c1 assms(3)]] this assms(5,6)] show ?thesis .
qed

text \<open>The witness: the \<open>push\<close> of 2 finishes and the one of 3 begins while the \<open>pop\<close> of 1 runs.\<close>

theorem sp_pop_refines_witness:
  "\<exists>c c' t r. sp_reach 2 c \<and> sent c = [1 :: nat] \<and> got c = [] \<and> sent c' = [1, 2 :: nat] \<and> t \<le> length (sent c') \<and>
     pop 2 \<lparr>slots = (case r of None \<Rightarrow> cslots c'
                     | Some y \<Rightarrow> (cslots c')[slot_index 2 (c_cached_head (c_local c)) := Some y]),
            head = fst (last (head_h c)), tail = of_nat t\<rparr> (c_local c) =
       Inr (r, (sp_queue c')\<lparr>tail := of_nat t\<rparr>, c_local c') \<and> r = Some 1"
proof -
  let ?es = "[PopStep 1, PushCall 2, PopStep 0, PushStep 0, PushStep 0, PushCall 3]"
  have "map_option (map_sum id (\<lambda>c. (c_pc c, sent c, got c,
        map_option (map_sum id (\<lambda>m. map_option (map_sum id (\<lambda>c'. (c_pc c', sent c', got c'))) (pop_step 2 0 m)))
          (sp_run 2 (pop_call c) ?es))))
      (sp_run 2 (sp_new (replicate (unat (2 :: usize)) None)) [PushCall 1, PushStep 0, PushStep 0]) =
    Some (Inr (CIdle, [1], [], Some (Inr (Some (Inr (CIdle, [1, 2], [1 :: nat]))))))" by code_simp
  then obtain c m c' where
    run: "sp_run 2 (sp_new (replicate (unat (2 :: usize)) None)) [PushCall 1, PushStep 0, PushStep 0] = Some (Inr c)"
    and c: "c_pc c = CIdle" "sent c = [1 :: nat]" "got c = []"
    and m: "sp_run 2 (pop_call c) ?es = Some (Inr m)" "pop_step 2 0 m = Some (Inr c')"
    and c': "c_pc c' = CIdle" "sent c' = [1, 2]" "got c' = [1]"
    unfolding map_run_iff prod.inject by blast
  have reach: "sp_reach 2 c" by (rule sp_reach_run [OF sp_init [OF two_is_power_of_two] run])
  have "PopCall \<notin> set ?es" by simp
  from sp_pop_refines [OF reach c(1) m(1) this m(2) c'(1)] obtain t r where
    "t \<le> length (sent c')" and seq: "pop 2 \<lparr>slots = (case r of None \<Rightarrow> cslots c'
                     | Some y \<Rightarrow> (cslots c')[slot_index 2 (c_cached_head (c_local c)) := Some y]),
            head = fst (last (head_h c)), tail = of_nat t\<rparr> (c_local c) =
       Inr (r, (sp_queue c')\<lparr>tail := of_nat t\<rparr>, c_local c')"
    and "got c' = got c @ (case r of None \<Rightarrow> [] | Some y \<Rightarrow> [y])"
    by blast
  moreover from this(3) c(3) c'(3) have "r = Some 1" by (auto split: option.splits)
  ultimately show ?thesis using reach c(2,3) c'(2) by (intro exI conjI) assumption+
qed

text \<open>
  When nothing comes in between and the loads return the newest entries, the queue of the
  sequential call is the shared queue itself, and the call ends within three steps.
\<close>

theorem sp_push_newest:
  assumes "sp_reach cap c" "p_pc c = PIdle"
  shows "\<exists>r c'. push cap (sp_queue c) (p_local c) x = Inr (r, sp_queue c', p_local c') \<and>
    push_finish 3 cap (push_call cap c x) = Some (Inr c') \<and> p_pc c' = PIdle \<and>
    c_local c' = c_local c \<and> push_recorded c x r c'"
  by (rule push_atomic [OF assms])

theorem sp_push_newest_witness:
  "\<exists>c r c'. sp_reach 2 c \<and> got c = [1 :: nat] \<and>
    push 2 (sp_queue c) (p_local c) 4 = Inr (r, sp_queue c', p_local c') \<and> push_recorded c 4 r c'"
  using demo_reach sp_push_newest [where x = "4 :: nat"] by metis

theorem sp_pop_newest:
  assumes "sp_reach cap c" "c_pc c = CIdle"
  shows "\<exists>r c'. pop cap (sp_queue c) (c_local c) = Inr (r, sp_queue c', c_local c') \<and>
    pop_finish 3 cap (pop_call c) = Some (Inr c') \<and> c_pc c' = CIdle \<and>
    p_local c' = p_local c \<and> pop_recorded c r c'"
  by (rule pop_atomic [OF assms])

theorem sp_pop_newest_witness:
  "\<exists>c r c'. sp_reach 2 c \<and> sent c = [1, 2, 3 :: nat] \<and>
    pop 2 (sp_queue c) (c_local c) = Inr (r, sp_queue c', c_local c') \<and> pop_recorded c r c'"
  using demo_reach sp_pop_newest by metis

text \<open>How many own steps a call still has to take.\<close>

fun p_rank :: "'a ppc \<Rightarrow> nat" where
  "p_rank PIdle = 0"
| "p_rank (PStore x) = 1"
| "p_rank (PWrite x) = 2"
| "p_rank (PLoadHead x) = 3"

fun c_rank :: "'a cpc \<Rightarrow> nat" where
  "c_rank CIdle = 0"
| "c_rank (CStore x) = 1"
| "c_rank CRead = 2"
| "c_rank CLoadTail = 3"

lemma push_step_rank: "push_step cap ts c = Some (Inr c') \<Longrightarrow> p_rank (p_pc c') < p_rank (p_pc c) \<and> c_pc c' = c_pc c"
  by (cases "p_pc c") (auto simp: push_step_def Let_def store_release_def split: option.splits sum.splits if_splits)

lemma pop_step_rank: "pop_step cap ts c = Some (Inr c') \<Longrightarrow> c_rank (c_pc c') < c_rank (c_pc c) \<and> p_pc c' = p_pc c"
  by (cases "c_pc c") (auto simp: pop_step_def Let_def store_release_def split: option.splits sum.splits if_splits)

lemma push_step_enabled:
  assumes "sp_reach cap c" "p_pc c \<noteq> PIdle"
  shows "\<exists>r. push_step cap (sp_newest c Head) c = Some r"
  using newest_head [OF assms(1)]
proof cases
  case (1 V)
  with assms(2) show ?thesis
    by (cases "p_pc c") (auto simp: push_step_def Let_def store_release_def split: sum.split simp del: sp_newest_simps)
qed

lemma pop_step_enabled:
  assumes "sp_reach cap c" "c_pc c \<noteq> CIdle"
  shows "\<exists>r. pop_step cap (sp_newest c Tail) c = Some r"
  using newest_tail [OF assms(1)]
proof cases
  case (1 V)
  with assms(2) show ?thesis
    by (cases "c_pc c") (auto simp: pop_step_def Let_def store_release_def split: sum.split simp del: sp_newest_simps)
qed

text \<open>
  C9: Both operations are wait-free: a call in progress can always take its next step, every
  own step brings it closer to its end (three steps at most), and no step of the other thread
  sets it back.
\<close>

theorem sp_wait_free:
  assumes "sp_reach cap c"
  shows "(p_pc c \<noteq> PIdle \<longrightarrow> (\<exists>ts c'. sp_step cap c (PushStep ts) = Some (Inr c'))) \<and>
    (c_pc c \<noteq> CIdle \<longrightarrow> (\<exists>ts c'. sp_step cap c (PopStep ts) = Some (Inr c'))) \<and>
    (\<forall>ts c'. sp_step cap c (PushStep ts) = Some (Inr c') \<longrightarrow>
       p_rank (p_pc c') < p_rank (p_pc c) \<and> c_pc c' = c_pc c) \<and>
    (\<forall>ts c'. sp_step cap c (PopStep ts) = Some (Inr c') \<longrightarrow>
       c_rank (c_pc c') < c_rank (c_pc c) \<and> p_pc c' = p_pc c)"
proof (intro conjI allI impI)
  assume "p_pc c \<noteq> PIdle"
  with push_step_enabled [OF assms] obtain r where "push_step cap (sp_newest c Head) c = Some r" by blast
  then have "sp_step cap c (PushStep (sp_newest c Head)) = Some r" by simp
  with sp_step_inv [OF sp_reach_inv [OF assms] this]
  show "\<exists>ts c'. sp_step cap c (PushStep ts) = Some (Inr c')" by metis
next
  assume "c_pc c \<noteq> CIdle"
  with pop_step_enabled [OF assms] obtain r where "pop_step cap (sp_newest c Tail) c = Some r" by blast
  then have "sp_step cap c (PopStep (sp_newest c Tail)) = Some r" by simp
  with sp_step_inv [OF sp_reach_inv [OF assms] this]
  show "\<exists>ts c'. sp_step cap c (PopStep ts) = Some (Inr c')" by metis
qed (simp_all add: push_step_rank pop_step_rank)

theorem sp_wait_free_witness:
  "\<exists>c :: nat sp. sp_reach 2 c \<and> p_pc c = PWrite 1 \<and> (\<exists>ts c'. sp_step 2 c (PushStep ts) = Some (Inr c'))"
proof -
  let ?c = "push_call 2 (sp_new (replicate (unat (2 :: usize)) None)) (1 :: nat)"
  have pc: "p_pc ?c = PWrite 1" by code_simp
  have "sp_reach 2 ?c"
    by (rule sp_next [OF sp_init [OF two_is_power_of_two], of "PushCall 1"]) (simp add: sp_new_def)
  with pc sp_wait_free [OF this] show ?thesis by (metis ppc.distinct(3))
qed

end
