(* ===== verification/Bench_Support.thy ===== *)
theory Bench_Support
  imports Prelude
begin

text \<open>
  What the benchmarks share: saturating arithmetic on \<open>u64\<close>, the conversion of clock ticks to
  nanoseconds, the differences of the interrupt counters, the unit chosen by \<open>bench/fmt.rs\<close> and
  the report of \<open>bench/harness/report.rs\<close>. A \<open>u128\<close> intermediate value is a natural number
  here: the products of two \<open>u64\<close> values that occur do not reach \<open>2 ^ 128\<close>.
\<close>

section \<open>Arithmetic on u64\<close>

definition saturating_sub :: "u64 \<Rightarrow> u64 \<Rightarrow> u64" where
  "saturating_sub a b = (if a < b then 0 else a - b)"

definition saturating_mul :: "u64 \<Rightarrow> u64 \<Rightarrow> u64" where
  "saturating_mul a b = (if unat a * unat b < 2 ^ 64 then a * b else - 1)"

lemma unat_saturating_sub: "unat (saturating_sub a b) = unat a - unat b"
proof (cases "a < b")
  case True
  then have "unat a \<le> unat b" by (simp add: word_less_nat_alt)
  with True show ?thesis by (simp add: saturating_sub_def)
next
  case False
  then show ?thesis by (simp add: saturating_sub_def unat_sub)
qed

lemma unat_u64_max: "unat (- 1 :: u64) = 2 ^ 64 - 1"
  by (simp add: unsigned_minus_1_eq_mask mask_eq_exp_minus_1)

lemma unat_saturating_mul: "unat (saturating_mul a b) = min (unat a * unat b) (2 ^ 64 - 1)"
proof (cases "unat a * unat b < 2 ^ 64")
  case True
  then have "unat (a * b) = unat a * unat b" using unat_mult_lem [of a b] by simp
  with True show ?thesis by (simp add: saturating_mul_def)
next
  case False
  then show ?thesis by (simp add: saturating_mul_def unat_u64_max)
qed

text \<open>\<open>to_ns\<close> of the bench cores: \<open>(ticks as u128 * 1_000_000_000 / tsc_hz as u128) as u64\<close>.\<close>

definition to_ns :: "u64 \<Rightarrow> u64 \<Rightarrow> u64 option" where
  "to_ns tsc_hz ticks =
     (if tsc_hz = 0 then None else Some (of_nat (unat ticks * 1000000000 div unat tsc_hz)))"

section \<open>Interrupt counters\<close>

text \<open>The \<open>loc_delta\<close> of every bench core, from the counters before and after the run.\<close>

fun counter_delta :: "u64 option \<Rightarrow> u64 option \<Rightarrow> u64 option" where
  "counter_delta (Some b) (Some a) = Some (saturating_sub a b)"
| "counter_delta _ _ = None"

definition loc_delta :: "nat list \<Rightarrow> u64 option list \<Rightarrow> u64 option list \<Rightarrow> (nat \<times> u64 option) list" where
  "loc_delta cores before after =
     map (\<lambda>(i, cpu). (cpu, counter_delta (before ! i) (after ! i))) (enumerate 0 cores)"

section \<open>Histograms\<close>

text \<open>
  A \<open>Histogram<u64>\<close> is the list of the samples it holds. \<open>record\<close>, of the package \<open>hdrhistogram\<close>,
  adds a sample or fails; which values it takes is the parameter \<open>accepts\<close>. The loops write
  \<open>let _ = hist.record(v);\<close>: an error is dropped, and the sample with it. (Comments at these calls
  say that zero and wrapped-around ages are rejected; no code of the repository does that, and the
  documentation of the package only names values beyond the trackable range of a histogram that
  may not grow, which one made by \<open>new\<close> may. So what is proved here is proved for any \<open>accepts\<close>.)
\<close>

datatype record_error = RecordError

definition hist_record :: "(u64 \<Rightarrow> bool) \<Rightarrow> u64 \<Rightarrow> u64 list \<Rightarrow> record_error + u64 list" where
  "hist_record accepts v h = (if accepts v then Inr (h @ [v]) else Inl RecordError)"

definition recorded :: "(u64 \<Rightarrow> bool) \<Rightarrow> u64 \<Rightarrow> u64 list \<Rightarrow> u64 list" where
  "recorded accepts v h = (case hist_record accepts v h of Inl e \<Rightarrow> h | Inr h' \<Rightarrow> h')"

lemma recorded_filter [simp]: "recorded accepts v h = h @ filter accepts [v]"
  by (simp add: recorded_def hist_record_def)

section \<open>Units\<close>

text \<open>
  \<open>fmt::ns\<close>: the unit and the divisor it picks. The decimal expansion of the quotient is
  in \<open>Reports\<close>, with the rounding of the floating point operations.
\<close>

definition ns_unit :: "u64 \<Rightarrow> nat \<times> string" where
  "ns_unit ns =
     (if ns < 10000 then (1, ''ns'')
      else if ns < 10000000 then (1000, ''us'')
      else if ns < 10000000000 then (1000000, ''ms'')
      else (1000000000, ''s''))"

section \<open>The latency report\<close>

text \<open>
  \<open>LatencyReport\<close>. The percentiles come from the \<open>hdrhistogram\<close> package: \<open>quantile\<close> and \<open>hmax\<close>
  are its \<open>value_at_quantile\<close> (in thousandths) and \<open>max\<close>, parameters here.
\<close>

record latency_report =
  impl_name :: string
  warnings_of :: "string list"
  p50 :: u64
  p90 :: u64
  p99 :: u64
  p999 :: u64
  max_sample :: u64
  loc_deltas :: "(nat \<times> u64 option) list"

definition latency_report_of ::
  "('h \<Rightarrow> nat \<Rightarrow> u64) \<Rightarrow> ('h \<Rightarrow> u64) \<Rightarrow> string \<Rightarrow> string list \<Rightarrow> 'h \<Rightarrow>
     (nat \<times> u64 option) list \<Rightarrow> latency_report" where
  "latency_report_of quantile hmax name warnings hist deltas =
     \<lparr>impl_name = name, warnings_of = warnings, p50 = quantile hist 500, p90 = quantile hist 900,
      p99 = quantile hist 990, p999 = quantile hist 999, max_sample = hmax hist, loc_deltas = deltas\<rparr>"

text \<open>The rows that \<open>print\<close> writes: label, ticks and nanoseconds (by the clock given).\<close>

definition report_rows :: "(u64 \<Rightarrow> u64) \<Rightarrow> latency_report \<Rightarrow> (string \<times> u64 \<times> u64) list" where
  "report_rows delta_as_nanos r =
     map (\<lambda>(label, raw). (label, raw, delta_as_nanos raw))
       [(''p50'', p50 r), (''p90'', p90 r), (''p99'', p99 r), (''p99.9'', p999 r), (''max'', max_sample r)]"

lemma ns_unit_displayed:
  assumes "ns_unit ns = (d, u)" "d \<noteq> 1"
  shows "10 \<le> unat ns div d"
proof -
  have "unat ns \<ge> 10 * d"
    using assms by (auto simp: ns_unit_def word_less_nat_alt split: if_splits)
  moreover have "0 < d" using assms by (auto simp: ns_unit_def split: if_splits)
  ultimately show ?thesis by (simp add: less_eq_div_iff_mult_less_eq)
qed

end
