(* ===== verification/Spsc_Shutdown.thy ===== *)
theory Spsc_Shutdown
  imports Spsc_Progress Bench_Support
begin

text \<open>
  The SPSC handoff benchmark, \<open>src/src/bench/harness/spsc/handoff.rs\<close>, on the weak-memory machine of the
  queue, with the flag \<open>done\<close> as one more atomic. \<open>Bench_Spsc\<close> treats a call of the queue as one step on
  its newest state, where the consumer cannot miss an item. Here a pop may find an old \<open>tail\<close>, and
  that nothing is lost at the end rests on the ordering of \<open>done\<close>, as a comment of the code says.
\<close>

section \<open>The two threads\<close>

datatype hand_phase = HandPoll | HandCheck | HandDrain | HandEnd

text \<open>
  \<open>hd_done\<close> is the store of \<open>true\<close> with the view it publishes; before it there is only the initial \<open>false\<close>.
  \<open>hd_times\<close> is a ghost: the clock after each popped item.
\<close>

record hand =
  hd_queue :: "u64 sp"
  hd_left :: nat
  hd_done :: "sp_loc view option"
  hd_phase :: hand_phase
  hd_seen :: nat
  hd_hist :: "u64 list"
  hd_times :: "u64 list"

definition hand_new :: "usize \<Rightarrow> nat \<Rightarrow> hand" where
  "hand_new cap n =
     \<lparr>hd_queue = sp_new (replicate (unat cap) None), hd_left = n, hd_done = None, hd_phase = HandPoll,
      hd_seen = 0, hd_hist = [], hd_times = []\<rparr>"

datatype hand_event =
    HandPush u64
  | HandPushStep nat
  | HandStoreDone
  | HandPop
  | HandPopStep nat u64
  | HandLoadDone bool

text \<open>\<open>done.load(Acquire)\<close> that finds \<open>true\<close> joins the published view to the consumer's.\<close>

definition acquire_view :: "sp_loc view \<Rightarrow> 'a sp \<Rightarrow> 'a sp" where
  "acquire_view w c = c\<lparr>c_view := (c_view c)\<lparr>cur := join (cur (c_view c)) w, acq := join (acq (c_view c)) w\<rparr>\<rparr>"

text \<open>The consumer's loops after a pop has returned, in the queue state \<open>c\<close>, an item or nothing.\<close>

definition hand_popped :: "(u64 \<Rightarrow> bool) \<Rightarrow> nat \<Rightarrow> u64 \<Rightarrow> hand \<Rightarrow> u64 sp \<Rightarrow> hand" where
  "hand_popped accepts warmup now s c =
     (if length (got (hd_queue s)) < length (got c)
      then let ts = last (got c);
               h = (if warmup \<le> hd_seen s then recorded accepts (now - ts) (hd_hist s) else hd_hist s)
        in s\<lparr>hd_queue := c, hd_hist := h, hd_seen := hd_seen s + 1, hd_times := hd_times s @ [now]\<rparr>
      else s\<lparr>hd_queue := c, hd_phase := (if hd_phase s = HandDrain then HandEnd else HandCheck)\<rparr>)"

fun hand_step :: "usize \<Rightarrow> (u64 \<Rightarrow> bool) \<Rightarrow> nat \<Rightarrow> hand \<Rightarrow> hand_event \<Rightarrow> (fault + hand) option" where
  "hand_step cap accepts warmup s (HandPush ts) =
     (if 0 < hd_left s \<and> p_pc (hd_queue s) = PIdle
      then Some (Inr (s\<lparr>hd_queue := push_call cap (hd_queue s) ts\<rparr>)) else None)"
| "hand_step cap accepts warmup s (HandPushStep t) =
     (case push_step cap t (hd_queue s) of
        None \<Rightarrow> None
      | Some (Inl f) \<Rightarrow> Some (Inl f)
      | Some (Inr c) \<Rightarrow>
          Some (Inr (s\<lparr>hd_queue := c,
            hd_left := (if length (sent (hd_queue s)) < length (sent c) then hd_left s - 1 else hd_left s)\<rparr>)))"
| "hand_step cap accepts warmup s HandStoreDone =
     (if hd_left s = 0 \<and> hd_done s = None
      then Some (Inr (s\<lparr>hd_done := Some (cur (p_view (hd_queue s)))\<rparr>)) else None)"
| "hand_step cap accepts warmup s HandPop =
     (if hd_phase s \<in> {HandPoll, HandDrain} \<and> c_pc (hd_queue s) = CIdle
      then Some (Inr (s\<lparr>hd_queue := pop_call (hd_queue s)\<rparr>)) else None)"
| "hand_step cap accepts warmup s (HandPopStep t now) =
     (case pop_step cap t (hd_queue s) of
        None \<Rightarrow> None
      | Some (Inl f) \<Rightarrow> Some (Inl f)
      | Some (Inr c) \<Rightarrow>
          Some (Inr (if c_pc c = CIdle then hand_popped accepts warmup now s c else s\<lparr>hd_queue := c\<rparr>)))"
| "hand_step cap accepts warmup s (HandLoadDone b) =
     (if hd_phase s \<noteq> HandCheck then None
      else if b
      then (case hd_done s of
              None \<Rightarrow> None
            | Some w \<Rightarrow> Some (Inr (s\<lparr>hd_queue := acquire_view w (hd_queue s), hd_phase := HandDrain\<rparr>)))
      else Some (Inr (s\<lparr>hd_phase := HandPoll\<rparr>)))"

inductive hand_reach :: "usize \<Rightarrow> nat \<Rightarrow> (u64 \<Rightarrow> bool) \<Rightarrow> nat \<Rightarrow> hand \<Rightarrow> bool" for cap n accepts warmup where
  hand_init: "is_power_of_two cap \<Longrightarrow> hand_reach cap n accepts warmup (hand_new cap n)"
| hand_next: "hand_reach cap n accepts warmup s \<Longrightarrow> hand_step cap accepts warmup s e = Some (Inr s') \<Longrightarrow> hand_reach cap n accepts warmup s'"

fun hand_run :: "usize \<Rightarrow> (u64 \<Rightarrow> bool) \<Rightarrow> nat \<Rightarrow> hand \<Rightarrow> hand_event list \<Rightarrow> (fault + hand) option" where
  "hand_run cap accepts warmup s [] = Some (Inr s)"
| "hand_run cap accepts warmup s (e # es) =
     (case hand_step cap accepts warmup s e of
        Some (Inr s') \<Rightarrow> hand_run cap accepts warmup s' es
      | r \<Rightarrow> r)"

lemma hand_reach_run:
  "hand_reach cap n accepts warmup s \<Longrightarrow> hand_run cap accepts warmup s es = Some (Inr s') \<Longrightarrow> hand_reach cap n accepts warmup s'"
  by (induction es arbitrary: s) (auto split: option.splits sum.splits intro: hand_next)

section \<open>What steps of the queue change\<close>

lemma push_step_frame:
  "push_step cap t c = Some (Inr c') \<Longrightarrow>
     c_view c' = c_view c \<and> c_pc c' = c_pc c \<and> got c' = got c \<and>
     (sent c' = sent c \<or> (\<exists>x. sent c' = sent c @ [x] \<and> p_pc c' = PIdle))"
  by (cases "p_pc c") (auto simp: push_step_def Let_def store_release_def split: option.splits sum.splits if_splits)

lemma pop_step_frame:
  "pop_step cap t c = Some (Inr c') \<Longrightarrow>
     p_view c' = p_view c \<and> p_pc c' = p_pc c \<and> sent c' = sent c \<and> cur (c_view c) Tail \<le> cur (c_view c') Tail \<and>
     (got c' = got c \<or> (\<exists>x. got c' = got c @ [x] \<and> c_pc c' = CIdle))"
  by (cases "c_pc c") (auto simp: pop_step_def Let_def store_release_def touch_def load_acquire_grows
      split: option.splits sum.splits if_splits)

lemma pop_step_newest: "pop_step cap t c = Some (Inr c') \<Longrightarrow> sp_newest c l \<le> sp_newest c' l"
  by (cases "c_pc c"; cases l) (auto simp: pop_step_def Let_def store_release_def split: option.splits sum.splits if_splits)

lemma push_step_newest: "push_step cap t c = Some (Inr c') \<Longrightarrow> sp_newest c l \<le> sp_newest c' l"
  by (cases "p_pc c"; cases l) (auto simp: push_step_def Let_def store_release_def split: option.splits sum.splits if_splits)

lemma newest_calls: "sp_newest (push_call cap c x) = sp_newest c" "sp_newest (pop_call c) = sp_newest c"
  by (simp_all add: fun_eq_iff sp_newest_def push_call_def pop_call_def split: sp_loc.split)

lemma sp_step_newest: "sp_step cap c e = Some (Inr c') \<Longrightarrow> sp_newest c l \<le> sp_newest c' l"
  by (cases e) (auto simp: newest_calls push_step_newest pop_step_newest split: if_splits)

text \<open>The producer's view of \<open>tail\<close> is its own last store.\<close>

definition own_tail :: "'a sp \<Rightarrow> bool" where
  "own_tail c \<longleftrightarrow> cur (p_view c) Tail = length (sent c)"

lemma push_step_own_tail:
  assumes "own_tail c" "sp_inv cap c" "sp_inv cap c'" "sp_within c'" "push_step cap t c = Some (Inr c')"
  shows "own_tail c'"
proof (cases "p_pc c")
  case (PLoadHead x)
  with assms(5) obtain h V where ld: "load_acquire Head (head_h c) t (p_view c) = Some (h, V)"
    and c': "p_view c' = V" "sent c' = sent c"
    by (fastforce simp: push_step_def Let_def split: option.splits if_splits)
  from load_acquire_grows [OF ld, of Tail] assms(1) have "length (sent c) \<le> cur V Tail" by (simp add: own_tail_def)
  moreover have "cur V Tail \<le> length (sent c')"
    using assms(4) sp_invD(2) [OF assms(3)] c'(1) by (auto simp: sp_within_def tview_within_def view_within_def dest: spec [of _ Tail])
  ultimately show ?thesis using c' by (simp add: own_tail_def)
qed (use assms(1,5) sp_invD(2) [OF assms(2)] in
    \<open>auto simp: push_step_def Let_def own_tail_def touch_def store_release_def split: sum.splits if_splits\<close>)

lemma sp_consumer_view:
  assumes "sp_consumer C T H nr k V pc" "\<And>l. cur V l \<le> cur W l"
  shows "sp_consumer C T H nr k W pc"
  using assms(1)
proof (rule sp_consumerE)
  fix ct assume k: "c_cached_head k = of_nat H" "H \<le> ct" "ct \<le> T" "c_cached_tail k = of_nat ct" "ct \<le> cur V Tail"
    "\<And>j. j < C \<Longrightarrow> visits C j ct \<le> cur V (SlotW j)" "\<And>x. pc = CRead \<or> pc = CStore x \<Longrightarrow> H < ct"
    "\<And>j. j < C \<Longrightarrow> nr j \<le> cur V (SlotR j)" "\<And>j. j < C \<Longrightarrow> nr j = visits C j (H + popping pc)"
  then show ?thesis
    by (intro sp_consumerI [where ct = ct]) (auto intro: order_trans [OF _ assms(2)])
qed

lemma acquire_view_inv:
  assumes "sp_inv cap c" "sp_within c" "view_within (sp_newest c) w"
  shows "sp_inv cap (acquire_view w c)" "sp_within (acquire_view w c)"
proof -
  note i = sp_invD [OF assms(1)]
  show "sp_inv cap (acquire_view w c)"
    by (rule sp_invI) (use i sp_consumer_view [OF i(6)] in \<open>auto simp: acquire_view_def\<close>)
  show "sp_within (acquire_view w c)"
    by (rule sp_same_newest [OF assms(2)])
      (use assms(2,3) in \<open>auto simp: acquire_view_def sp_newest_def fun_eq_iff sp_within_def tview_within_def
        view_within_def split: sp_loc.split\<close>)
qed

text \<open>A pop that finds nothing although the consumer has seen the last store of \<open>tail\<close>: there is nothing.\<close>

lemma empty_after_last:
  assumes inv: "sp_inv cap c" and step: "pop_step cap t c = Some (Inr c')" and idle: "c_pc c' = CIdle"
    and none: "got c' = got c" and seen: "length (sent c) \<le> cur (c_view c) Tail"
  shows "length (got c) = length (sent c)"
proof (cases "c_pc c")
  case CLoadTail
  note i = sp_invD [OF inv]
  let ?T = "length (sent c)" and ?H = "length (got c)"
  from step CLoadTail obtain v V where ld: "load_acquire Tail (tail_h c) t (c_view c) = Some (v, V)"
    and c': "c_pc c' = (if c_cached_head (c_local c) = v then CIdle else CRead)"
    by (auto simp: pop_step_def Let_def split: option.splits if_splits)
  note l = load_acquire_Some [OF ld]
  have t: "t = ?T" using l(1,2) i(2) seen by simp
  have v: "v = of_nat ?T" using l(1,3) i(4) t by (simp add: sp_hists_def)
  from i(6) have H: "c_cached_head (c_local c) = of_nat ?H" "?H \<le> ?T" by (auto elim: sp_consumerE)
  have "c_cached_head (c_local c) = v" using c' idle by (simp split: if_splits)
  with consumer_empty_iff [OF i(1) H(2)] H v sp_inv_room [OF inv] show ?thesis by simp
qed (use step idle none in \<open>auto simp: pop_step_def Let_def store_release_def split: sum.splits if_splits\<close>)

section \<open>The invariant of the benchmark\<close>

text \<open>Opaque parts: the queue machine, the flag, the consumer's account.\<close>

definition hand_queue_ok :: "usize \<Rightarrow> u64 sp \<Rightarrow> bool" where
  "hand_queue_ok cap c \<longleftrightarrow> sp_inv cap c \<and> sp_within c \<and> own_tail c"

definition hand_flag_ok :: "hand \<Rightarrow> bool" where
  "hand_flag_ok s \<longleftrightarrow>
     (\<forall>w. hd_done s = Some w \<longrightarrow>
        hd_left s = 0 \<and> w Tail = length (sent (hd_queue s)) \<and> view_within (sp_newest (hd_queue s)) w) \<and>
     (hd_phase s \<in> {HandDrain, HandEnd} \<longrightarrow>
        hd_done s \<noteq> None \<and> length (sent (hd_queue s)) \<le> cur (c_view (hd_queue s)) Tail) \<and>
     (hd_phase s = HandEnd \<longrightarrow> length (got (hd_queue s)) = length (sent (hd_queue s))) \<and>
     (hd_phase s \<in> {HandCheck, HandEnd} \<longrightarrow> c_pc (hd_queue s) = CIdle)"

definition hand_count_ok :: "nat \<Rightarrow> (u64 \<Rightarrow> bool) \<Rightarrow> nat \<Rightarrow> hand \<Rightarrow> bool" where
  "hand_count_ok n accepts warmup s \<longleftrightarrow>
     length (sent (hd_queue s)) + hd_left s = n \<and> (p_pc (hd_queue s) \<noteq> PIdle \<longrightarrow> 0 < hd_left s) \<and>
     hd_seen s = length (got (hd_queue s)) \<and> length (hd_times s) = length (got (hd_queue s)) \<and>
     hd_hist s = filter accepts (map (\<lambda>(ts, now). now - ts) (drop warmup (zip (got (hd_queue s)) (hd_times s))))"

definition hand_inv :: "usize \<Rightarrow> nat \<Rightarrow> (u64 \<Rightarrow> bool) \<Rightarrow> nat \<Rightarrow> hand \<Rightarrow> bool" where
  "hand_inv cap n accepts warmup s \<longleftrightarrow> hand_queue_ok cap (hd_queue s) \<and> hand_flag_ok s \<and> hand_count_ok n accepts warmup s"

lemma own_tail_calls: "own_tail (push_call cap c x) = own_tail c" "own_tail (pop_call c) = own_tail c"
  by (simp_all add: own_tail_def push_call_def pop_call_def)

lemma hand_queue_push_call:
  "hand_queue_ok cap c \<Longrightarrow> p_pc c = PIdle \<Longrightarrow> hand_queue_ok cap (push_call cap c x)"
  by (simp add: hand_queue_ok_def push_call_inv call_within own_tail_calls)

lemma hand_queue_pop_call:
  "hand_queue_ok cap c \<Longrightarrow> c_pc c = CIdle \<Longrightarrow> hand_queue_ok cap (pop_call c)"
  by (simp add: hand_queue_ok_def pop_call_inv call_within own_tail_calls)

lemma hand_queue_push_step:
  assumes "hand_queue_ok cap c" "push_step cap t c = Some r"
  shows "\<exists>c'. r = Inr c' \<and> hand_queue_ok cap c'"
proof -
  from assms have "sp_inv cap c" "sp_step cap c (PushStep t) = Some r" by (simp_all add: hand_queue_ok_def)
  then obtain c' where c': "r = Inr c'" "sp_inv cap c'" by (rule sp_step_inv)
  with assms have "sp_within c'" by (auto simp: hand_queue_ok_def intro: push_step_within)
  with c' assms push_step_own_tail show ?thesis by (auto simp: hand_queue_ok_def)
qed

lemma hand_queue_pop_step:
  assumes "hand_queue_ok cap c" "pop_step cap t c = Some r"
  shows "\<exists>c'. r = Inr c' \<and> hand_queue_ok cap c'"
proof -
  from assms have "sp_inv cap c" "sp_step cap c (PopStep t) = Some r" by (simp_all add: hand_queue_ok_def)
  then obtain c' where c': "r = Inr c'" "sp_inv cap c'" by (rule sp_step_inv)
  with assms have "sp_within c'" by (auto simp: hand_queue_ok_def intro: pop_step_within)
  with c' assms pop_step_frame [of cap t c c'] show ?thesis by (auto simp: hand_queue_ok_def own_tail_def)
qed

lemma drop_zip_snoc:
  assumes "length xs = length ys"
  shows "drop k (zip (xs @ [x]) (ys @ [y])) =
    (if k \<le> length xs then drop k (zip xs ys) @ [(x, y)] else [])"
  using assms by simp

lemma hand_count_item:
  assumes "hand_count_ok n accepts warmup s" "got c = got (hd_queue s) @ [x]" "sent c = sent (hd_queue s)"
    "p_pc c = p_pc (hd_queue s)"
  shows "hand_count_ok n accepts warmup (hand_popped accepts warmup now s c)"
  using assms by (auto simp: hand_count_ok_def hand_popped_def Let_def drop_zip_snoc simp del: zip_append drop_zip)

lemma hand_count_keep:
  "hand_count_ok n accepts warmup s \<Longrightarrow> got c = got (hd_queue s) \<Longrightarrow> sent c = sent (hd_queue s) \<Longrightarrow>
     p_pc c = p_pc (hd_queue s) \<Longrightarrow> hand_count_ok n accepts warmup (s\<lparr>hd_queue := c\<rparr>)"
  "hand_count_ok n accepts warmup (s\<lparr>hd_phase := ph\<rparr>) \<longleftrightarrow> hand_count_ok n accepts warmup s"
  by (simp_all add: hand_count_ok_def)

lemma hand_pop_step_inv:
  assumes inv: "hand_inv cap n accepts warmup s" and step: "pop_step cap t (hd_queue s) = Some (Inr c)"
    and ok: "hand_queue_ok cap c"
  shows "hand_inv cap n accepts warmup (if c_pc c = CIdle then hand_popped accepts warmup now s c else s\<lparr>hd_queue := c\<rparr>)"
proof -
  let ?q = "hd_queue s"
  from inv have q: "hand_queue_ok cap ?q" and flag: "hand_flag_ok s" and count: "hand_count_ok n accepts warmup s"
    by (simp_all add: hand_inv_def)
  note f = pop_step_frame [OF step]
  then have keeps: "p_pc c = p_pc ?q" "sent c = sent ?q" "cur (c_view ?q) Tail \<le> cur (c_view c) Tail" by simp_all
  have busy: "c_pc ?q \<noteq> CIdle" using step by (auto simp: pop_step_def)
  then have phase: "hd_phase s \<in> {HandPoll, HandDrain}" using flag by (cases "hd_phase s") (auto simp: hand_flag_ok_def)
  have flags: "view_within (sp_newest ?q) w \<Longrightarrow> view_within (sp_newest c) w" for w
    by (rule within_mono(1) [OF pop_step_newest [OF step]])
  show ?thesis
  proof (cases "got c = got ?q")
    case False
    with f obtain x where x: "got c = got ?q @ [x]" "c_pc c = CIdle" by blast
    from hand_count_item [OF count x(1)] f have "hand_count_ok n accepts warmup (hand_popped accepts warmup now s c)" by blast
    moreover have "hand_flag_ok (hand_popped accepts warmup now s c)"
      using flag phase keeps x flags by (auto simp: hand_flag_ok_def hand_popped_def Let_def)
    ultimately show ?thesis using ok x by (simp add: hand_inv_def hand_popped_def Let_def)
  next
    case same: True
    have count': "hand_count_ok n accepts warmup (s\<lparr>hd_queue := c\<rparr>)"
      by (rule hand_count_keep(1) [OF count same keeps(2,1)])
    show ?thesis
    proof (cases "c_pc c = CIdle")
      case False
      have "hand_flag_ok (s\<lparr>hd_queue := c\<rparr>)"
        using False flag phase keeps same flags by (auto simp: hand_flag_ok_def)
      with False ok count' show ?thesis by (simp add: hand_inv_def)
    next
      case True
      let ?s = "s\<lparr>hd_queue := c, hd_phase := (if hd_phase s = HandDrain then HandEnd else HandCheck)\<rparr>"
      have "length (got ?q) = length (sent ?q)" if "hd_phase s = HandDrain"
        using empty_after_last [OF _ step True same] q flag that by (simp add: hand_queue_ok_def hand_flag_ok_def)
      with True flag phase keeps same flags have "hand_flag_ok ?s" by (auto simp: hand_flag_ok_def)
      moreover have "hand_popped accepts warmup now s c = ?s" using same by (simp add: hand_popped_def)
      ultimately show ?thesis using True ok count' by (simp add: hand_inv_def hand_count_keep(2))
    qed
  qed
qed

lemma hand_push_step_inv:
  assumes inv: "hand_inv cap n accepts warmup s" and step: "push_step cap t (hd_queue s) = Some (Inr c)"
    and ok: "hand_queue_ok cap c"
  shows "hand_inv cap n accepts warmup (s\<lparr>hd_queue := c,
    hd_left := (if length (sent (hd_queue s)) < length (sent c) then hd_left s - 1 else hd_left s)\<rparr>)"
proof -
  let ?q = "hd_queue s"
  from inv have flag: "hand_flag_ok s" and count: "hand_count_ok n accepts warmup s" by (simp_all add: hand_inv_def)
  note f = push_step_frame [OF step]
  have "p_pc ?q \<noteq> PIdle" using step by (auto simp: push_step_def)
  then have left: "0 < hd_left s" using count by (simp add: hand_count_ok_def)
  then have none: "hd_done s = None" using flag by (cases "hd_done s") (auto simp: hand_flag_ok_def)
  then have phase: "hd_phase s \<in> {HandPoll, HandCheck}" using flag by (cases "hd_phase s") (auto simp: hand_flag_ok_def)
  from f flag count left none phase ok show ?thesis
    by (auto simp: hand_inv_def hand_flag_ok_def hand_count_ok_def)
qed

lemma hand_step_inv:
  assumes inv: "hand_inv cap n accepts warmup s" and step: "hand_step cap accepts warmup s e = Some r"
  shows "\<exists>s'. r = Inr s' \<and> hand_inv cap n accepts warmup s'"
proof -
  from inv have q: "hand_queue_ok cap (hd_queue s)" and flag: "hand_flag_ok s" and count: "hand_count_ok n accepts warmup s"
    by (simp_all add: hand_inv_def)
  show ?thesis
  proof (cases e)
    case (HandPush ts)
    with step have p: "0 < hd_left s" "p_pc (hd_queue s) = PIdle"
      "r = Inr (s\<lparr>hd_queue := push_call cap (hd_queue s) ts\<rparr>)" by (auto split: if_splits)
    have "sp_newest (push_call cap (hd_queue s) ts) = sp_newest (hd_queue s)"
      by (simp add: fun_eq_iff sp_newest_def push_call_def split: sp_loc.split)
    with p hand_queue_push_call [OF q p(2), of ts] flag count show ?thesis
      by (auto simp: hand_inv_def hand_flag_ok_def hand_count_ok_def push_call_def)
  next
    case (HandPushStep t)
    with step obtain r' where r': "push_step cap t (hd_queue s) = Some r'" by (auto split: option.splits)
    from hand_queue_push_step [OF q r'] obtain c where c: "r' = Inr c" "hand_queue_ok cap c" by blast
    have "r = Inr (s\<lparr>hd_queue := c,
        hd_left := (if length (sent (hd_queue s)) < length (sent c) then hd_left s - 1 else hd_left s)\<rparr>)"
      using step HandPushStep r' c(1) by simp
    with hand_push_step_inv [OF inv r' [unfolded c(1)] c(2)] show ?thesis by blast
  next
    case HandStoreDone
    with step have p: "hd_left s = 0" "hd_done s = None"
      "r = Inr (s\<lparr>hd_done := Some (cur (p_view (hd_queue s)))\<rparr>)" by (auto split: if_splits)
    have "view_within (sp_newest (hd_queue s)) (cur (p_view (hd_queue s)))"
      "cur (p_view (hd_queue s)) Tail = length (sent (hd_queue s))"
      using q by (simp_all add: hand_queue_ok_def sp_within_def tview_within_def own_tail_def)
    with p q flag count show ?thesis by (auto simp: hand_inv_def hand_flag_ok_def hand_count_ok_def)
  next
    case HandPop
    with step have p: "hd_phase s \<in> {HandPoll, HandDrain}" "c_pc (hd_queue s) = CIdle"
      "r = Inr (s\<lparr>hd_queue := pop_call (hd_queue s)\<rparr>)" by (auto split: if_splits)
    have "sp_newest (pop_call (hd_queue s)) = sp_newest (hd_queue s)"
      by (simp add: fun_eq_iff sp_newest_def pop_call_def split: sp_loc.split)
    with p hand_queue_pop_call [OF q p(2)] flag count show ?thesis
      by (auto simp: hand_inv_def hand_flag_ok_def hand_count_ok_def pop_call_def)
  next
    case (HandPopStep t now)
    with step obtain r' where r': "pop_step cap t (hd_queue s) = Some r'" by (auto split: option.splits)
    from hand_queue_pop_step [OF q r'] obtain c where c: "r' = Inr c" "hand_queue_ok cap c" by blast
    have "r = Inr (if c_pc c = CIdle then hand_popped accepts warmup now s c else s\<lparr>hd_queue := c\<rparr>)"
      using step HandPopStep r' c(1) by simp
    with hand_pop_step_inv [OF inv r' [unfolded c(1)] c(2), of now] show ?thesis by blast
  next
    case (HandLoadDone b)
    show ?thesis
    proof (cases b)
      case True
      with HandLoadDone step obtain w where w: "hd_phase s = HandCheck" "hd_done s = Some w"
        "r = Inr (s\<lparr>hd_queue := acquire_view w (hd_queue s), hd_phase := HandDrain\<rparr>)"
        by (auto split: if_splits option.splits)
      with flag have v: "view_within (sp_newest (hd_queue s)) w" "w Tail = length (sent (hd_queue s))"
        by (simp_all add: hand_flag_ok_def)
      have "sp_newest (acquire_view w (hd_queue s)) = sp_newest (hd_queue s)"
        by (simp add: fun_eq_iff sp_newest_def acquire_view_def split: sp_loc.split)
      with w v q flag count acquire_view_inv [of cap "hd_queue s" w] show ?thesis
        by (auto simp: hand_inv_def hand_flag_ok_def hand_count_ok_def hand_queue_ok_def own_tail_def acquire_view_def)
    next
      case False
      with HandLoadDone step have "r = Inr (s\<lparr>hd_phase := HandPoll\<rparr>)" by (auto split: if_splits)
      with q flag count show ?thesis by (auto simp: hand_inv_def hand_flag_ok_def hand_count_ok_def)
    qed
  qed
qed

lemma hand_new_inv: "is_power_of_two cap \<Longrightarrow> hand_inv cap n accepts warmup (hand_new cap n)"
proof -
  assume p: "is_power_of_two cap"
  note inv = sp_new_inv [OF p] sp_reach_within [OF sp_init [OF p]]
  from inv show ?thesis
    by (auto simp: hand_inv_def hand_queue_ok_def hand_new_def hand_flag_ok_def hand_count_ok_def own_tail_def
        sp_new_def)
qed

lemma hand_reach_inv: "hand_reach cap n accepts warmup s \<Longrightarrow> hand_inv cap n accepts warmup s"
proof (induction rule: hand_reach.induct)
  case (hand_next s e s')
  from hand_step_inv [OF hand_next.IH hand_next.hyps(2)] show ?case by blast
qed (rule hand_new_inv)

text \<open>How many steps the draining consumer still has to take, and its events.\<close>

fun drain_pc :: "u64 cpc \<Rightarrow> nat" where
  "drain_pc CIdle = 4"
| "drain_pc CLoadTail = 3"
| "drain_pc CRead = 2"
| "drain_pc (CStore x) = 1"

definition drain_rank :: "hand \<Rightarrow> nat" where
  "drain_rank s =
     (if hd_phase s = HandEnd then 0
      else 5 * (length (sent (hd_queue s)) - length (got (hd_queue s))) + drain_pc (c_pc (hd_queue s)))"

fun consumer_event :: "hand_event \<Rightarrow> bool" where
  "consumer_event HandPop = True"
| "consumer_event (HandPopStep t now) = True"
| "consumer_event (HandLoadDone b) = True"
| "consumer_event _ = False"

lemma pop_step_progress:
  assumes "pop_step cap t c = Some (Inr c')"
  shows "drain_pc (c_pc c') < drain_pc (c_pc c) \<and> got c' = got c \<or>
    c_pc c' = CIdle \<and> (got c' = got c \<or> (\<exists>x. got c' = got c @ [x]))"
  using assms
  by (cases "c_pc c") (auto simp: pop_step_def Let_def store_release_def split: option.splits sum.splits if_splits)

lemma drain_step_rank:
  assumes "hand_inv cap n accepts warmup s" "hd_phase s = HandDrain" "consumer_event e"
    and step: "hand_step cap accepts warmup s e = Some (Inr s')"
  shows "drain_rank s' < drain_rank s \<and> hd_phase s' \<in> {HandDrain, HandEnd}"
  using assms(3)
proof (cases rule: consumer_event.elims(2))
  case 1
  with step assms(2) show ?thesis by (auto simp: drain_rank_def pop_call_def split: if_splits)
next
  case (2 t now)
  let ?q = "hd_queue s"
  from step 2 obtain r' where r': "pop_step cap t ?q = Some r'" by (auto split: option.splits)
  moreover from assms(1) have q: "hand_queue_ok cap ?q" by (simp add: hand_inv_def)
  ultimately obtain c where "r' = Inr c" and ok: "hand_queue_ok cap c" using hand_queue_pop_step by blast
  with r' have c: "pop_step cap t ?q = Some (Inr c)" by simp
  with step 2 have s': "s' = (if c_pc c = CIdle then hand_popped accepts warmup now s c else s\<lparr>hd_queue := c\<rparr>)" by simp
  have room: "length (got c) \<le> length (sent c)" "sent c = sent ?q"
    using ok sp_invD(7) [of cap c] pop_step_frame [OF c] by (simp_all add: hand_queue_ok_def)
  from pop_step_progress [OF c] show ?thesis
  proof (elim disjE conjE exE)
    assume "drain_pc (c_pc c) < drain_pc (c_pc ?q)" "got c = got ?q"
    with s' room assms(2) show ?thesis by (auto simp: drain_rank_def hand_popped_def)
  next
    assume "c_pc c = CIdle" "got c = got ?q"
    moreover have "0 < drain_pc (c_pc ?q)" by (cases "c_pc ?q") simp_all
    ultimately show ?thesis using s' assms(2) by (simp add: drain_rank_def hand_popped_def)
  next
    fix x assume x: "c_pc c = CIdle" "got c = got ?q @ [x]"
    moreover have "0 < drain_pc (c_pc ?q)" by (cases "c_pc ?q") simp_all
    ultimately show ?thesis using s' room assms(2) by (simp add: drain_rank_def hand_popped_def Let_def)
  qed
next
  case (3 b)
  with step assms(2) show ?thesis by simp
qed

lemma drain_step_enabled:
  assumes "hand_inv cap n accepts warmup s" "hd_phase s = HandDrain"
  shows "\<exists>e s'. consumer_event e \<and> hand_step cap accepts warmup s e = Some (Inr s')"
proof (cases "c_pc (hd_queue s) = CIdle")
  case True
  with assms(2) show ?thesis by (intro exI [of _ HandPop]) simp
next
  case False
  let ?q = "hd_queue s" and ?t = "length (tail_h (hd_queue s)) - 1"
  from assms(1) have q: "hand_queue_ok cap ?q" by (simp add: hand_inv_def)
  then have w: "sp_within ?q" by (simp add: hand_queue_ok_def)
  then have "length (tail_h ?q) = Suc (sp_newest ?q Tail)" "tview_within (sp_newest ?q) (c_view ?q)"
    by (simp_all add: sp_within_def)
  from load_newest(1) [OF this(2,1)] obtain v V where
    "load_acquire Tail (tail_h ?q) ?t (c_view ?q) = Some (v, V)" by (auto simp: sp_newest_def)
  with False have "\<exists>r. pop_step cap ?t ?q = Some r"
    by (cases "c_pc ?q") (auto simp: pop_step_def Let_def store_release_def split: sum.split)
  then obtain r where r: "pop_step cap ?t ?q = Some r" ..
  from hand_queue_pop_step [OF q r] obtain c where "r = Inr c" by blast
  with r show ?thesis by (intro exI [of _ "HandPopStep ?t 0"]) simp
qed

section \<open>Properties\<close>

text \<open>C13: In the SPSC handoff benchmark under weak memory, with any stale \<open>tail\<close>, \<open>head\<close> or \<open>done\<close> the memory allows: no
  step faults, the consumer has popped a prefix of the stamps pushed, and when its thread has ended it has
  popped all \<open>n\<close> of them in order and its histogram holds, of the ages of all but the first \<open>warmup\<close>, those
  that \<open>record\<close> takes, in order. So the comment in the consumer thread is right: after it has seen \<open>done\<close>
  no item in flight is missed.
\<close>

theorem handoff_weak_exact:
  assumes "hand_reach cap n accepts warmup s"
  shows "hand_step cap accepts warmup s e \<noteq> Some (Inl f) \<and> prefix (got (hd_queue s)) (sent (hd_queue s)) \<and>
    (hd_phase s = HandEnd \<longrightarrow> length (sent (hd_queue s)) = n \<and> got (hd_queue s) = sent (hd_queue s) \<and>
       hd_hist s = filter accepts (map (\<lambda>(ts, now). now - ts) (drop warmup (zip (sent (hd_queue s)) (hd_times s)))) \<and>
       length (hd_times s) = n)"
proof -
  have inv: "hand_inv cap n accepts warmup s" by (rule hand_reach_inv [OF assms])
  then have "sp_inv cap (hd_queue s)" by (simp add: hand_inv_def hand_queue_ok_def)
  then have pre: "prefix (got (hd_queue s)) (sent (hd_queue s))" by (rule sp_inv_prefix)
  moreover have "got (hd_queue s) = sent (hd_queue s)" "length (sent (hd_queue s)) = n" if "hd_phase s = HandEnd"
  proof -
    from inv that have len: "length (got (hd_queue s)) = length (sent (hd_queue s))"
      by (simp add: hand_inv_def hand_flag_ok_def)
    with pre show "got (hd_queue s) = sent (hd_queue s)" by (auto simp: prefix_def)
    from inv that show "length (sent (hd_queue s)) = n"
      by (auto simp: hand_inv_def hand_flag_ok_def hand_count_ok_def)
  qed
  ultimately show ?thesis
    using hand_step_inv [OF inv, of e "Inl f"] inv by (auto simp: hand_inv_def hand_count_ok_def)
qed

text \<open>
  A run with capacity 2 in which the consumer polls with an old \<open>tail\<close> after the last push, then finds
  \<open>done\<close> set and drains.
\<close>

definition hand_events :: "hand_event list" where
  "hand_events =
     [HandPush 10, HandPushStep 0, HandPushStep 0, HandPop, HandPopStep 1 0, HandPopStep 0 0, HandPopStep 0 15,
      HandPush 20, HandPushStep 0, HandPushStep 0, HandPop, HandPopStep 1 0, HandLoadDone False, HandStoreDone,
      HandPop, HandPopStep 1 0, HandLoadDone True, HandPop, HandPopStep 2 0, HandPopStep 0 0, HandPopStep 0 50,
      HandPop, HandPopStep 2 0]"

lemma demo_hand_run:
  "map_option (map_sum id (\<lambda>s. (hd_phase s, sent (hd_queue s), hd_hist s)))
     (hand_run 2 (\<lambda>_. True) 1 (hand_new 2 2) hand_events) =
   Some (Inr (HandEnd, [10, 20], [30]))"
  by code_simp

theorem handoff_weak_exact_witness:
  "\<exists>s. hand_reach 2 2 (\<lambda>_. True) 1 s \<and> hd_phase s = HandEnd \<and> got (hd_queue s) = [10, 20] \<and> hd_hist s = [30]"
proof -
  from demo_hand_run [unfolded map_run_iff] obtain s where
    s: "hand_run 2 (\<lambda>_. True) 1 (hand_new 2 2) hand_events = Some (Inr s)" "hd_phase s = HandEnd" "sent (hd_queue s) = [10, 20]"
      "hd_hist s = [30]" by blast
  from hand_reach_run [OF hand_init [OF two_is_power_of_two] s(1)] have reach: "hand_reach 2 2 (\<lambda>_. True) 1 s" .
  from handoff_weak_exact [OF this, of HandPop DataRace] s(2-4) reach show ?thesis by auto
qed

text \<open>And it ends: once the consumer has seen \<open>done\<close>, it can always take its next step, every step of its own
  brings it closer to its end, from wherever it is by at most \<open>5\<close> steps for each item still queued and
  \<open>4\<close> more, and the producer thread has no step left that could set it back.
\<close>

theorem handoff_weak_ends:
  assumes "hand_reach cap n accepts warmup s" "hd_phase s = HandDrain"
  shows "drain_rank s \<le> 5 * (n - length (got (hd_queue s))) + 4 \<and>
    (\<exists>e s'. consumer_event e \<and> hand_step cap accepts warmup s e = Some (Inr s')) \<and>
    (\<forall>e s'. hand_step cap accepts warmup s e = Some (Inr s') \<longrightarrow>
       consumer_event e \<and> drain_rank s' < drain_rank s \<and> hd_phase s' \<in> {HandDrain, HandEnd})"
proof (intro conjI allI impI)
  have inv: "hand_inv cap n accepts warmup s" by (rule hand_reach_inv [OF assms(1)])
  then have left: "hd_left s = 0" "hd_done s \<noteq> None" "p_pc (hd_queue s) = PIdle" "length (sent (hd_queue s)) = n"
    using assms(2) by (auto simp: hand_inv_def hand_flag_ok_def hand_count_ok_def)
  have "drain_pc (c_pc (hd_queue s)) \<le> 4" by (cases "c_pc (hd_queue s)") simp_all
  with left(4) show "drain_rank s \<le> 5 * (n - length (got (hd_queue s))) + 4" by (simp add: drain_rank_def)
  show "\<exists>e s'. consumer_event e \<and> hand_step cap accepts warmup s e = Some (Inr s')"
    by (rule drain_step_enabled [OF inv assms(2)])
  fix e s' assume step: "hand_step cap accepts warmup s e = Some (Inr s')"
  with left show e: "consumer_event e" by (cases e) (auto simp: push_step_def)
  from drain_step_rank [OF inv assms(2) e step] show "drain_rank s' < drain_rank s" "hd_phase s' \<in> {HandDrain, HandEnd}"
    by simp_all
qed

lemma demo_hand_draining:
  "map_option (map_sum id (\<lambda>s. (hd_phase s, got (hd_queue s)))) (hand_run 2 (\<lambda>_. True) 1 (hand_new 2 2) (take 17 hand_events)) =
   Some (Inr (HandDrain, [10]))"
  by code_simp

theorem handoff_weak_ends_witness:
  "\<exists>s. hand_reach 2 2 (\<lambda>_. True) 1 s \<and> hd_phase s = HandDrain \<and> got (hd_queue s) = [10] \<and> drain_rank s \<le> 9"
proof -
  from demo_hand_draining [unfolded map_run_iff] obtain s where
    s: "hand_run 2 (\<lambda>_. True) 1 (hand_new 2 2) (take 17 hand_events) = Some (Inr s)" "hd_phase s = HandDrain"
      "got (hd_queue s) = [10]" by blast
  from hand_reach_run [OF hand_init [OF two_is_power_of_two] s(1)] have reach: "hand_reach 2 2 (\<lambda>_. True) 1 s" .
  from handoff_weak_ends [OF this s(2)] s(3) have "drain_rank s \<le> 9" by simp
  with reach s(2,3) show ?thesis by blast
qed

end
