(* ===== verification/Spmc_Queue.thy ===== *)
theory Spmc_Queue
  imports Mem
begin

text \<open>
  The SPMC broadcast queue, \<open>src/src/spmc\<close>, as sequential operations: \<open>publish\<close>, \<open>try_read\<close>
  and \<open>clone\<close>, each run to its end before the next. The interface \<open>broadcast\<close> says what a
  broadcast ring promises over the log of everything published, and the queue is an instance
  of it. The interleaved operations under weak memory are in \<open>Spmc_Concurrent\<close>.
\<close>

section \<open>Results and the broadcast interface\<close>

datatype 'v read_result = Value 'v | Empty | Lapped usize

text \<open>
  What \<open>try_read\<close> promises for a consumer at position \<open>r\<close> of the log: the value there, nothing
  when the log ends there, and a jump to the newest value when the ring has overwritten it.
\<close>

definition log_read :: "nat \<Rightarrow> 'v list \<Rightarrow> nat \<Rightarrow> 'v read_result \<times> nat" where
  "log_read cap P r =
     (if r = length P then (Empty, r)
      else if length P \<le> r + cap then (Value (P ! r), Suc r)
      else (Lapped (of_nat (length P - 1 - r)), length P - 1))"

text \<open>Several consumers of one queue: the calls and their answers.\<close>

datatype 'v bcall = Publish 'v | TryRead nat | CloneConsumer nat nat

fun bcast_run ::
  "('q \<Rightarrow> 'v \<Rightarrow> 'f + 'q) \<Rightarrow> ('q \<Rightarrow> 'c \<Rightarrow> ('f + ('v read_result \<times> 'c)) option) \<Rightarrow> ('c \<Rightarrow> 'c) \<Rightarrow>
     'q \<Rightarrow> (nat \<Rightarrow> 'c option) \<Rightarrow> 'v bcall list \<Rightarrow>
     ('f + ((nat \<times> 'v read_result) list \<times> 'q \<times> (nat \<Rightarrow> 'c option))) option" where
  "bcast_run publish try_read clone q cs [] = Some (Inr ([], q, cs))"
| "bcast_run publish try_read clone q cs (Publish v # es) =
     (case publish q v of Inl e \<Rightarrow> Some (Inl e) | Inr q' \<Rightarrow> bcast_run publish try_read clone q' cs es)"
| "bcast_run publish try_read clone q cs (TryRead i # es) =
     (case cs i of
        None \<Rightarrow> bcast_run publish try_read clone q cs es
      | Some c \<Rightarrow> (case try_read q c of
            None \<Rightarrow> None
          | Some (Inl e) \<Rightarrow> Some (Inl e)
          | Some (Inr (r, c')) \<Rightarrow>
              (case bcast_run publish try_read clone q (cs(i \<mapsto> c')) es of
                 None \<Rightarrow> None
               | Some (Inl e) \<Rightarrow> Some (Inl e)
               | Some (Inr (rs, st)) \<Rightarrow> Some (Inr ((i, r) # rs, st)))))"
| "bcast_run publish try_read clone q cs (CloneConsumer i j # es) =
     (case cs i of
        None \<Rightarrow> bcast_run publish try_read clone q cs es
      | Some c \<Rightarrow> bcast_run publish try_read clone q (cs(j \<mapsto> clone c)) es)"

fun log_run ::
  "nat \<Rightarrow> 'v list \<Rightarrow> (nat \<Rightarrow> nat option) \<Rightarrow> 'v bcall list \<Rightarrow>
     (nat \<times> 'v read_result) list \<times> 'v list \<times> (nat \<Rightarrow> nat option)" where
  "log_run cap P ps [] = ([], P, ps)"
| "log_run cap P ps (Publish v # es) = log_run cap (P @ [v]) ps es"
| "log_run cap P ps (TryRead i # es) =
     (case ps i of
        None \<Rightarrow> log_run cap P ps es
      | Some p \<Rightarrow>
          (let (r, p') = log_read cap P p; (rs, st) = log_run cap P (ps(i \<mapsto> p')) es in ((i, r) # rs, st)))"
| "log_run cap P ps (CloneConsumer i j # es) =
     (case ps i of None \<Rightarrow> log_run cap P ps es | Some p \<Rightarrow> log_run cap P (ps(j \<mapsto> p)) es)"

fun publishes :: "'v bcall list \<Rightarrow> nat" where
  "publishes [] = 0"
| "publishes (Publish v # es) = Suc (publishes es)"
| "publishes (_ # es) = publishes es"

text \<open>
  The interface: \<open>rep P q\<close> when the queue stands for the log \<open>P\<close>, \<open>crep P r c\<close> when the consumer
  is at position \<open>r\<close> of it. The laws hold for logs up to \<open>limit\<close>.
\<close>

locale broadcast =
  fixes publish :: "'q \<Rightarrow> 'v \<Rightarrow> 'f + 'q"
    and try_read :: "'q \<Rightarrow> 'c \<Rightarrow> ('f + ('v read_result \<times> 'c)) option"
    and clone :: "'c \<Rightarrow> 'c"
    and rep :: "'v list \<Rightarrow> 'q \<Rightarrow> bool"
    and crep :: "'v list \<Rightarrow> nat \<Rightarrow> 'c \<Rightarrow> bool"
    and cap :: nat
    and limit :: nat
  assumes publish_law: "rep P q \<Longrightarrow> \<exists>q'. publish q v = Inr q' \<and> rep (P @ [v]) q'"
    and crep_grows: "crep P r c \<Longrightarrow> crep (P @ [v]) r c"
    and read_law: "rep P q \<Longrightarrow> crep P r c \<Longrightarrow> length P \<le> limit \<Longrightarrow>
      \<exists>c'. try_read q c = Some (Inr (fst (log_read cap P r), c')) \<and> crep P (snd (log_read cap P r)) c'"
    and clone_law: "crep P r c \<Longrightarrow> crep P r (clone c)"
begin

definition creps :: "'v list \<Rightarrow> (nat \<Rightarrow> nat option) \<Rightarrow> (nat \<Rightarrow> 'c option) \<Rightarrow> bool" where
  "creps P ps cs \<longleftrightarrow> (\<forall>i. rel_option (crep P) (ps i) (cs i))"

lemma creps_grows: "creps P ps cs \<Longrightarrow> creps (P @ [v]) ps cs"
  unfolding creps_def by (blast intro: option.rel_mono_strong crep_grows)

lemma creps_update: "creps P ps cs \<Longrightarrow> crep P p c \<Longrightarrow> creps P (ps(i \<mapsto> p)) (cs(i \<mapsto> c))"
  unfolding creps_def by simp

lemma creps_cases:
  assumes "creps P ps cs"
  obtains "ps i = None" "cs i = None" | p c where "ps i = Some p" "cs i = Some c" "crep P p c"
proof -
  from assms have "rel_option (crep P) (ps i) (cs i)" by (simp add: creps_def)
  then show thesis by (cases rule: option.rel_cases) (use that in auto)
qed

text \<open>Any sequence of calls answers as the log does.\<close>

lemma run_log:
  "rep P q \<Longrightarrow> creps P ps cs \<Longrightarrow> length P + publishes es \<le> limit \<Longrightarrow>
     \<exists>q' cs'. bcast_run publish try_read clone q cs es = Some (Inr (fst (log_run cap P ps es), q', cs')) \<and>
       rep (fst (snd (log_run cap P ps es))) q' \<and>
       creps (fst (snd (log_run cap P ps es))) (snd (snd (log_run cap P ps es))) cs'"
proof (induction es arbitrary: P q ps cs)
  case Nil
  then show ?case by auto
next
  case (Cons e es)
  show ?case
  proof (cases e)
    case (Publish v)
    from publish_law [OF Cons.prems(1), of v] obtain q1 where
      q1: "publish q v = Inr q1" "rep (P @ [v]) q1" by blast
    have "length (P @ [v]) + publishes es \<le> limit" using Cons.prems(3) Publish by simp
    from Cons.IH [OF q1(2) creps_grows [OF Cons.prems(2)] this] q1(1) show ?thesis
      by (simp only: Publish bcast_run.simps log_run.simps sum.case)
  next
    case (TryRead i)
    have len: "length P + publishes es \<le> limit" using Cons.prems(3) TryRead by simp
    from Cons.prems(2) show ?thesis
    proof (cases rule: creps_cases [where i = i])
      case 1
      with Cons.IH [OF Cons.prems(1,2) len] show ?thesis
        by (simp only: TryRead bcast_run.simps log_run.simps option.case)
    next
      case (2 p c)
      have "length P \<le> limit" using len by simp
      from read_law [OF Cons.prems(1) 2(3) this] obtain c' where
        c': "try_read q c = Some (Inr (fst (log_read cap P p), c'))" "crep P (snd (log_read cap P p)) c'"
        by blast
      from Cons.IH [OF Cons.prems(1) creps_update [OF Cons.prems(2) c'(2), of i] len] obtain q' cs' where
        "bcast_run publish try_read clone q (cs(i \<mapsto> c')) es =
          Some (Inr (fst (log_run cap P (ps(i \<mapsto> snd (log_read cap P p))) es), q', cs'))"
        "rep (fst (snd (log_run cap P (ps(i \<mapsto> snd (log_read cap P p))) es))) q'"
        "creps (fst (snd (log_run cap P (ps(i \<mapsto> snd (log_read cap P p))) es)))
           (snd (snd (log_run cap P (ps(i \<mapsto> snd (log_read cap P p))) es))) cs'"
        by blast
      then show ?thesis
        by (intro exI [of _ q'] exI [of _ cs']) (simp add: TryRead 2(1,2) c'(1) case_prod_beta)
    qed
  next
    case (CloneConsumer i j)
    have len: "length P + publishes es \<le> limit" using Cons.prems(3) CloneConsumer by simp
    from Cons.prems(2) show ?thesis
    proof (cases rule: creps_cases [where i = i])
      case 1
      with Cons.IH [OF Cons.prems(1,2) len] show ?thesis
        by (simp only: CloneConsumer bcast_run.simps log_run.simps option.case)
    next
      case (2 p c)
      from Cons.IH [OF Cons.prems(1) creps_update [OF Cons.prems(2) clone_law [OF 2(3)], of j] len] 2
      show ?thesis by (simp only: CloneConsumer bcast_run.simps log_run.simps option.case)
    qed
  qed
qed

end

section \<open>The queue and its handles\<close>

text \<open>\<open>Slot\<close>, \<open>Queue\<close> (with its producer state) and the state of a \<open>Consumer\<close>.\<close>

record 'v bslot =
  slot_seq :: usize
  slot_data :: 'v

record 'v bqueue =
  bslots :: "'v bslot option list"
  write_cursor :: usize

record bconsumer =
  read_cursor :: usize
  cached_write_cursor :: usize

definition bconsumer_new :: bconsumer where
  "bconsumer_new = \<lparr>read_cursor = 0, cached_write_cursor = 0\<rparr>"

text \<open>The initialisation loop of \<open>spmc::new\<close>: \<open>seq = 0\<close> and a zeroed value in every slot.\<close>

fun spmc_init :: "'v \<Rightarrow> nat \<Rightarrow> nat \<Rightarrow> 'v bslot option list \<Rightarrow> fault + 'v bslot option list" where
  "spmc_init zeroed ix 0 cs = Inr cs"
| "spmc_init zeroed ix (Suc k) cs =
     (if ix < length cs
      then spmc_init zeroed (Suc ix) k (cs[ix := Some \<lparr>slot_seq = 0, slot_data = zeroed\<rparr>])
      else Inl OutOfBounds)"

definition spmc_new ::
  "(usize \<Rightarrow> 'o \<Rightarrow> fault + ('v bslot, 'z) region_scheme) \<Rightarrow> 'v \<Rightarrow> usize \<Rightarrow> 'o \<Rightarrow>
     fault + ('v bqueue \<times> bconsumer)" where
  "spmc_new allocate zeroed cap options =
     (if \<not> is_power_of_two cap then Inl CapacityNotPowerOfTwo
      else case allocate cap options of
        Inl e \<Rightarrow> Inl e
      | Inr slots \<Rightarrow>
          (case spmc_init zeroed 0 (unat cap) (cells slots) of
             Inl e \<Rightarrow> Inl e
           | Inr cs \<Rightarrow> Inr (\<lparr>bslots = cs, write_cursor = 0\<rparr>, bconsumer_new)))"

definition bslot_at :: "usize \<Rightarrow> 'v bqueue \<Rightarrow> usize \<Rightarrow> fault + 'v bslot" where
  "bslot_at cap q i =
     (let k = slot_index cap i in
      if k < length (bslots q)
      then (case bslots q ! k of None \<Rightarrow> Inl UninitRead | Some s \<Rightarrow> Inr s)
      else Inl OutOfBounds)"

text \<open>A store to a slot's field.\<close>

definition bslot_set :: "usize \<Rightarrow> usize \<Rightarrow> ('v bslot \<Rightarrow> 'v bslot) \<Rightarrow> 'v bqueue \<Rightarrow> 'v bqueue" where
  "bslot_set cap i f q =
     q\<lparr>bslots := (bslots q)[slot_index cap i := map_option f (bslots q ! slot_index cap i)]\<rparr>"

definition publish :: "usize \<Rightarrow> 'v bqueue \<Rightarrow> 'v \<Rightarrow> fault + 'v bqueue" where
  "publish cap q value =
     (let w_pos = write_cursor q;
          seq_no = w_pos * 2
      in case bslot_at cap q w_pos of
           Inl e \<Rightarrow> Inl e
         | Inr _ \<Rightarrow>
             let q = bslot_set cap w_pos (slot_seq_update (\<lambda>_. seq_no + 1)) q;
                 q = bslot_set cap w_pos (slot_data_update (\<lambda>_. value)) q;
                 q = bslot_set cap w_pos (slot_seq_update (\<lambda>_. seq_no + 2)) q
             in Inr (q\<lparr>write_cursor := w_pos + 1\<rparr>))"

definition is_still_empty :: "'v bqueue \<Rightarrow> bconsumer \<Rightarrow> bool \<times> bconsumer" where
  "is_still_empty q c =
     (let c = c\<lparr>cached_write_cursor := write_cursor q\<rparr> in (read_cursor c = cached_write_cursor c, c))"

text \<open>The lapped branch of \<open>try_read\<close>.\<close>

definition lapped :: "usize \<Rightarrow> bconsumer \<Rightarrow> 'v read_result \<times> bconsumer" where
  "lapped cursor c =
     (let c = c\<lparr>cached_write_cursor := cursor\<rparr>;
          new_r_cursor = cached_write_cursor c - 1;
          skipped = new_r_cursor - read_cursor c
      in (Lapped skipped, c\<lparr>read_cursor := new_r_cursor\<rparr>))"

text \<open>The loop of \<open>try_read\<close>; \<open>None\<close> when it never returns.\<close>

partial_function (option) try_read_loop ::
  "'v bqueue \<Rightarrow> 'v bslot \<Rightarrow> usize \<Rightarrow> bconsumer \<Rightarrow> ('v read_result \<times> bconsumer) option" where
  "try_read_loop q slot expected_seq c =
     (let seq1 = slot_seq slot
      in if seq1 AND 1 = 1 then try_read_loop q slot expected_seq c
         else if seq1 \<noteq> expected_seq then Some (lapped (write_cursor q) c)
         else let attempted_read = slot_data slot; seq2 = slot_seq slot
           in if seq1 = seq2 then Some (Value attempted_read, c\<lparr>read_cursor := read_cursor c + 1\<rparr>)
              else try_read_loop q slot expected_seq c)"

declare try_read_loop.simps [code]

definition try_read ::
  "usize \<Rightarrow> 'v bqueue \<Rightarrow> bconsumer \<Rightarrow> (fault + ('v read_result \<times> bconsumer)) option" where
  "try_read cap q c =
     (case (if read_cursor c = cached_write_cursor c then is_still_empty q c else (False, c)) of
        (True, c) \<Rightarrow> Some (Inr (Empty, c))
      | (False, c) \<Rightarrow>
          (case bslot_at cap q (read_cursor c) of
             Inl e \<Rightarrow> Some (Inl e)
           | Inr slot \<Rightarrow> map_option Inr (try_read_loop q slot (read_cursor c * 2 + 2) c)))"

text \<open>\<open>Consumer::clone\<close> copies the cursors.\<close>

definition bconsumer_clone :: "bconsumer \<Rightarrow> bconsumer" where
  "bconsumer_clone c = \<lparr>read_cursor = read_cursor c, cached_write_cursor = cached_write_cursor c\<rparr>"

section \<open>What a ring says about the log\<close>

text \<open>Slot \<open>j\<close> after the log \<open>P\<close>: the last value published to it, or the zeroed one.\<close>

definition slot_state :: "nat \<Rightarrow> 'v \<Rightarrow> 'v list \<Rightarrow> nat \<Rightarrow> 'v bslot" where
  "slot_state C zeroed P j =
     (case visits C j (length P) of
        0 \<Rightarrow> \<lparr>slot_seq = 0, slot_data = zeroed\<rparr>
      | Suc k \<Rightarrow> \<lparr>slot_seq = of_nat (2 * (j + k * C) + 2), slot_data = P ! (j + k * C)\<rparr>)"

definition bcast_rep :: "usize \<Rightarrow> 'v \<Rightarrow> 'v list \<Rightarrow> 'v bqueue \<Rightarrow> bool" where
  "bcast_rep cap zeroed P q \<longleftrightarrow>
     is_power_of_two cap \<and> write_cursor q = of_nat (length P) \<and>
     bslots q = map (\<lambda>j. Some (slot_state (unat cap) zeroed P j)) [0..<unat cap]"

definition bcons_rep :: "'v list \<Rightarrow> nat \<Rightarrow> bconsumer \<Rightarrow> bool" where
  "bcons_rep P r c \<longleftrightarrow>
     read_cursor c = of_nat r \<and> (\<exists>w. r \<le> w \<and> w \<le> length P \<and> cached_write_cursor c = of_nat w)"

section \<open>The laws\<close>

lemma slot_state_self:
  assumes "0 < C"
  shows "slot_state C z (P @ [v]) (length P mod C) = \<lparr>slot_seq = of_nat (2 * length P + 2), slot_data = v\<rparr>"
proof -
  have "visits C (length P mod C) (length (P @ [v])) = Suc (length P div C)"
    using assms by (simp add: visits_self)
  then show ?thesis by (simp add: slot_state_def)
qed

lemma slot_state_other:
  assumes "j < C" "j \<noteq> length P mod C"
  shows "slot_state C z (P @ [v]) j = slot_state C z P j"
  using assms visits_pos [OF assms(1), of "length P"]
  by (auto simp: slot_state_def split: nat.split)

lemma bslot_at_rep:
  assumes "bcast_rep cap z P q"
  shows "bslot_at cap q (of_nat r) = Inr (slot_state (unat cap) z P (r mod unat cap))"
  using assms power_of_two_pos [of cap] by (auto simp: bcast_rep_def bslot_at_def slot_index_of_nat)

lemma publish_rep:
  assumes "bcast_rep cap z P q"
  shows "\<exists>q'. publish cap q v = Inr q' \<and> bcast_rep cap z (P @ [v]) q'"
proof -
  let ?C = "unat cap" and ?w = "length P"
  from assms have p2: "is_power_of_two cap" and w: "write_cursor q = of_nat ?w"
    and bs: "bslots q = map (\<lambda>j. Some (slot_state ?C z P j)) [0..<?C]"
    by (auto simp: bcast_rep_def)
  have C: "0 < ?C" by (rule power_of_two_pos [OF p2])
  have ix: "slot_index cap (of_nat ?w) = ?w mod ?C" by (rule slot_index_of_nat [OF p2])
  have len: "?w mod ?C < length (bslots q)" using C by (simp add: bs)
  let ?s = "\<lparr>slot_seq = of_nat (2 * ?w + 2), slot_data = v\<rparr> :: 'a bslot"
  let ?q = "q\<lparr>bslots := (bslots q)[?w mod ?C := Some ?s], write_cursor := of_nat (Suc ?w)\<rparr>"
  have seq: "(of_nat ?w :: usize) * 2 + 2 = of_nat (2 * ?w + 2)" by simp
  have cell: "bslots q ! (?w mod ?C) = Some (slot_state ?C z P (?w mod ?C))" using C by (simp add: bs)
  obtain sq sd where st: "slot_state ?C z P (?w mod ?C) = \<lparr>slot_seq = sq, slot_data = sd\<rparr>"
    by (rule bslot.cases)
  have "publish cap q v = Inr ?q"
    using len
    by (simp add: publish_def Let_def w bslot_at_rep [OF assms] bslot_set_def ix cell st add.commute mult.commute)
  moreover have "bslots ?q = map (\<lambda>j. Some (slot_state ?C z (P @ [v]) j)) [0..<?C]"
    using C by (intro nth_equalityI) (auto simp: bs nth_list_update slot_state_self slot_state_other)
  ultimately show ?thesis using p2 by (auto simp: bcast_rep_def)
qed

text \<open>The loop on a slot of the ring, for a consumer that is not at the end of the log.\<close>

lemma try_read_loop_rep:
  assumes rep: "bcast_rep cap z P q" and r: "r < length P" "length P \<le> 2 ^ 63"
    and c: "read_cursor c = of_nat r"
  shows "\<exists>c'. try_read_loop q (slot_state (unat cap) z P (r mod unat cap)) (of_nat r * 2 + 2) c =
      Some (fst (log_read (unat cap) P r), c') \<and>
    read_cursor c' = of_nat (snd (log_read (unat cap) P r)) \<and>
    (cached_write_cursor c' = cached_write_cursor c \<and> snd (log_read (unat cap) P r) = Suc r \<or>
     cached_write_cursor c' = of_nat (length P) \<and> snd (log_read (unat cap) P r) = length P - 1)"
proof -
  let ?C = "unat cap"
  from rep have p2: "is_power_of_two cap" and w: "write_cursor q = of_nat (length P)"
    by (auto simp: bcast_rep_def)
  have C: "0 < ?C" by (rule power_of_two_pos [OF p2])
  from visits_pos_eq [OF C r(1)] obtain k where
    k: "visits ?C (r mod ?C) (length P) = Suc k" "r div ?C \<le> k" by blast
  let ?p = "r mod ?C + k * ?C"
  have jC: "r mod ?C < ?C" using C by simp
  note p = last_visit_iff [OF C k] visits_pos [OF jC k(1)]
  have slot: "slot_state ?C z P (r mod ?C) = \<lparr>slot_seq = of_nat (2 * ?p + 2), slot_data = P ! ?p\<rparr>"
    by (simp add: slot_state_def k(1))
  have exp: "(of_nat r :: usize) * 2 + 2 = of_nat (2 * r + 2)" by simp
  have even: "(of_nat (2 * ?p + 2) :: usize) AND 1 \<noteq> 1" by (simp only: and_1_of_nat) simp
  have "(of_nat (2 * r + 2) :: usize) = of_nat (2 * ?p + 2) \<longleftrightarrow> 2 * r + 2 = 2 * ?p + 2"
    by (rule of_nat_eq_iff_near) (use p r in auto)
  then have eq: "(of_nat (2 * ?p + 2) :: usize) = of_nat (2 * r + 2) \<longleftrightarrow> length P \<le> r + ?C"
    using p(1) by auto
  show ?thesis
  proof (cases "length P \<le> r + ?C")
    case True
    with p(1) have "P ! ?p = P ! r" by simp
    moreover have "try_read_loop q (slot_state ?C z P (r mod ?C)) (of_nat r * 2 + 2) c =
        Some (Value (P ! ?p), c\<lparr>read_cursor := read_cursor c + 1\<rparr>)"
      unfolding exp slot using even eq True by (subst try_read_loop.simps) (simp add: Let_def del: of_nat_add of_nat_mult)
    ultimately show ?thesis using True r(1) c by (simp add: log_read_def add.commute)
  next
    case False
    let ?c = "c\<lparr>cached_write_cursor := of_nat (length P), read_cursor := of_nat (length P - 1)\<rparr>"
    have pred: "(of_nat (length P) :: usize) - 1 = of_nat (length P - 1)" using r(1) by (simp add: of_nat_diff)
    have skip: "(of_nat (length P - 1) :: usize) - of_nat r = of_nat (length P - 1 - r)"
      using r(1) by (simp add: of_nat_diff)
    have "try_read_loop q (slot_state ?C z P (r mod ?C)) (of_nat r * 2 + 2) c =
        Some (lapped (of_nat (length P)) c)"
      unfolding exp slot using even eq False w
      by (subst try_read_loop.simps) (simp add: Let_def del: of_nat_add of_nat_mult)
    also have "lapped (of_nat (length P)) c = (Lapped (of_nat (length P - 1 - r)), ?c)"
      using c skip by (simp add: lapped_def Let_def pred)
    finally show ?thesis using False r(1) by (simp add: log_read_def)
  qed
qed

lemma try_read_rep:
  assumes rep: "bcast_rep cap z P q" and crep: "bcons_rep P r c" and lim: "length P \<le> 2 ^ 63"
  shows "\<exists>c'. try_read cap q c = Some (Inr (fst (log_read (unat cap) P r), c')) \<and>
    bcons_rep P (snd (log_read (unat cap) P r)) c'"
proof -
  from crep obtain w where c: "read_cursor c = of_nat r" "r \<le> w" "w \<le> length P"
      "cached_write_cursor c = of_nat w"
    by (auto simp: bcons_rep_def)
  from rep have w: "write_cursor q = of_nat (length P)" by (simp add: bcast_rep_def)
  have near: "(of_nat r :: usize) = of_nat m \<longleftrightarrow> r = m" if "r \<le> m" "m \<le> length P" for m
    by (rule of_nat_eq_iff_near) (use that lim in auto)
  let ?e = "c\<lparr>cached_write_cursor := of_nat (length P)\<rparr>"
  show ?thesis
  proof (cases "r = length P")
    case True
    with c have "w = r" by simp
    with True c w have "try_read cap q c = Some (Inr (Empty, ?e))"
      by (simp add: try_read_def is_still_empty_def)
    with True c(1) show ?thesis by (auto simp: log_read_def bcons_rep_def)
  next
    case False
    with c have r: "r < length P" by simp
    let ?c = "if r = w then ?e else c"
    have "try_read cap q c = map_option Inr
        (try_read_loop q (slot_state (unat cap) z P (r mod unat cap)) (of_nat r * 2 + 2) ?c)"
    proof (cases "r = w")
      case True
      have "(of_nat w :: usize) \<noteq> of_nat (length P)" using near [of "length P"] r True by simp
      then show ?thesis using c w True by (simp add: try_read_def is_still_empty_def bslot_at_rep [OF rep])
    next
      case False
      then have "(of_nat r :: usize) \<noteq> of_nat w" using near [of w] c by simp
      then show ?thesis using c False by (simp add: try_read_def bslot_at_rep [OF rep])
    qed
    moreover have rc: "read_cursor ?c = of_nat r" using c(1) by simp
    from try_read_loop_rep [OF rep r lim rc] obtain c' where
      l1: "try_read_loop q (slot_state (unat cap) z P (r mod unat cap)) (of_nat r * 2 + 2) ?c =
        Some (fst (log_read (unat cap) P r), c')"
      and l2: "read_cursor c' = of_nat (snd (log_read (unat cap) P r))"
      and l3: "cached_write_cursor c' = cached_write_cursor ?c \<and> snd (log_read (unat cap) P r) = Suc r \<or>
       cached_write_cursor c' = of_nat (length P) \<and> snd (log_read (unat cap) P r) = length P - 1"
      by blast
    ultimately have res: "try_read cap q c = Some (Inr (fst (log_read (unat cap) P r), c'))" by simp
    let ?m = "if r = w then length P else w"
    have m: "Suc r \<le> ?m" "?m \<le> length P" "cached_write_cursor ?c = of_nat ?m" using c r by auto
    from l3 have "bcons_rep P (snd (log_read (unat cap) P r)) c'"
    proof
      assume "cached_write_cursor c' = cached_write_cursor ?c \<and> snd (log_read (unat cap) P r) = Suc r"
      with l2 m show ?thesis unfolding bcons_rep_def by metis
    next
      assume "cached_write_cursor c' = of_nat (length P) \<and> snd (log_read (unat cap) P r) = length P - 1"
      with l2 show ?thesis unfolding bcons_rep_def by (metis diff_le_self order_refl)
    qed
    with res show ?thesis by blast
  qed
qed

interpretation spmc: broadcast "publish cap" "try_read cap" bconsumer_clone "bcast_rep cap z" bcons_rep "unat cap" "2 ^ 63"
  for cap :: usize and z
proof unfold_locales
  show "bcons_rep P r c \<Longrightarrow> bcons_rep (P @ [v]) r c" for P :: "'v list" and r c v
    by (auto simp: bcons_rep_def)
  show "bcons_rep P r c \<Longrightarrow> bcons_rep P r (bconsumer_clone c)" for P :: "'v list" and r c
    by (auto simp: bcons_rep_def bconsumer_clone_def)
qed (simp_all add: publish_rep try_read_rep)

section \<open>Construction\<close>

lemma spmc_init_loop:
  "ix + k = length cs \<Longrightarrow>
     spmc_init z ix k cs = Inr (take ix cs @ replicate k (Some \<lparr>slot_seq = 0, slot_data = z\<rparr>))"
proof (induction k arbitrary: ix cs)
  case (Suc k)
  let ?s = "Some \<lparr>slot_seq = 0, slot_data = z\<rparr>"
  from Suc.prems have "ix < length cs" "Suc ix + k = length (cs[ix := ?s])" by simp_all
  moreover have "take (Suc ix) (cs[ix := ?s]) = take ix cs @ [?s]"
    using Suc.prems by (simp add: take_Suc_conv_app_nth)
  ultimately show ?case using Suc.IH [of "Suc ix" "cs[ix := ?s]"] by simp
qed simp

lemma spmc_new_rep:
  assumes "slot_allocator allocate" "spmc_new allocate z cap opts = Inr (q, c)"
  shows "bcast_rep cap z [] q" "bcons_rep [] 0 c"
proof -
  from assms(2) obtain a cs where p2: "is_power_of_two cap" and a: "allocate cap opts = Inr a"
    and cs: "spmc_init z 0 (unat cap) (cells a) = Inr cs"
    and q: "q = \<lparr>bslots = cs, write_cursor = 0\<rparr>" "c = bconsumer_new"
    by (auto simp: spmc_new_def split: if_splits sum.splits)
  have "cs = replicate (unat cap) (Some \<lparr>slot_seq = 0, slot_data = z\<rparr>)"
    using spmc_init_loop [of 0 "unat cap" "cells a" z] cs slot_allocator.allocate_length [OF assms(1) a] by simp
  then show "bcast_rep cap z [] q" "bcons_rep [] 0 c"
    using p2 by (simp_all add: q bcast_rep_def bcons_rep_def bconsumer_new_def slot_state_def map_replicate_const)
qed

section \<open>Properties\<close>

text \<open>
  C18: Any sequence of \<open>publish\<close>, \<open>try_read\<close> and \<open>clone\<close> calls on a queue made by \<open>spmc::new\<close>, by
  any number of consumers, answers as the log of everything published does: each consumer gets
  the next value, \<open>Empty\<close> at the end of the log, and \<open>Lapped\<close> with the exact number of values
  skipped exactly when more than \<open>CAPACITY\<close> values lie ahead of it. No call loops for ever or
  touches a slot outside the ring.
\<close>

theorem spmc_calls_refine_log:
  assumes "slot_allocator allocate" "spmc_new allocate z cap opts = Inr (q, c)" "publishes es \<le> 2 ^ 63"
  shows "\<exists>q' cs'. bcast_run (publish cap) (try_read cap) bconsumer_clone q (Map.empty(0 \<mapsto> c)) es =
    Some (Inr (fst (log_run (unat cap) [] (Map.empty(0 \<mapsto> 0)) es), q', cs'))"
proof -
  note new = spmc_new_rep [OF assms(1,2)]
  have "spmc.creps [] (Map.empty(0 \<mapsto> 0)) (Map.empty(0 \<mapsto> c))"
    using new(2) by (simp add: spmc.creps_def)
  from spmc.run_log [OF new(1) this, of es] assms(3) show ?thesis by auto
qed

text \<open>The scenario of the test \<open>consumer_can_be_overlapped_by_writer\<close>, with a clone at the end.\<close>

definition overlapped_calls :: "nat bcall list" where
  "overlapped_calls =
     TryRead 0 # map Publish [0..<8] @
     [TryRead 0, Publish 9, Publish 10, TryRead 0, CloneConsumer 0 1, TryRead 0, TryRead 1, TryRead 0]"

definition demo_bcast_alloc :: "usize \<Rightarrow> global_options \<Rightarrow> fault + nat bslot global_allocation" where
  "demo_bcast_alloc = global_allocate demo_os 16 8"

lemma demo_bcast_allocator: "slot_allocator demo_bcast_alloc"
  unfolding demo_bcast_alloc_def by (rule galloc.slot_allocator_axioms)

lemma demo_spmc_new:
  "spmc_new demo_bcast_alloc 0 8 \<lparr>g_mlock = True\<rparr> =
     Inr (\<lparr>bslots = replicate 8 (Some \<lparr>slot_seq = 0, slot_data = 0\<rparr>), write_cursor = 0\<rparr>, bconsumer_new)"
  by code_simp

lemma overlapped_log:
  "fst (log_run (unat (8 :: usize)) [] (Map.empty(0 \<mapsto> 0)) overlapped_calls) =
     [(0, Empty), (0, Value 0), (0, Lapped 8), (0, Value 10), (1, Value 10), (0, Empty)]"
  by code_simp

theorem spmc_calls_refine_log_witness:
  "\<exists>q c q' cs'. spmc_new demo_bcast_alloc 0 8 \<lparr>g_mlock = True\<rparr> = Inr (q, c) \<and>
     bcast_run (publish 8) (try_read 8) bconsumer_clone q (Map.empty(0 \<mapsto> c)) overlapped_calls =
       Some (Inr ([(0, Empty), (0, Value 0), (0, Lapped 8), (0, Value 10), (1, Value 10), (0, Empty)], q', cs'))"
proof -
  have "publishes overlapped_calls = 10" by code_simp
  then have "publishes overlapped_calls \<le> 2 ^ 63" by simp
  from spmc_calls_refine_log [OF demo_bcast_allocator demo_spmc_new this] demo_spmc_new
  show ?thesis unfolding overlapped_log by blast
qed

lemma try_read_loop_returns_even:
  assumes "try_read_loop q slot e c = Some v"
  shows "slot_seq slot AND 1 \<noteq> 1"
proof (rule try_read_loop.raw_induct [of "\<lambda>q slot e c v. slot_seq slot AND 1 \<noteq> 1", OF _ assms])
  fix loop :: "'a bqueue \<Rightarrow> 'a bslot \<Rightarrow> usize \<Rightarrow> bconsumer \<Rightarrow> ('a read_result \<times> bconsumer) option" and q slot e c v
  assume "\<And>q slot e c v. loop q slot e c = Some v \<Longrightarrow> slot_seq slot AND 1 \<noteq> 1"
    and "(let seq1 = slot_seq slot
      in if seq1 AND 1 = 1 then loop q slot e c
         else if seq1 \<noteq> e then Some (lapped (write_cursor q) c)
         else let attempted_read = slot_data slot; seq2 = slot_seq slot
           in if seq1 = seq2 then Some (Value attempted_read, c\<lparr>read_cursor := read_cursor c + 1\<rparr>)
              else loop q slot e c) = Some v"
  then show "slot_seq slot AND 1 \<noteq> 1" by (auto simp: Let_def split: if_splits)
qed

text \<open>
  \<open>try_read\<close> on a slot whose sequence number is odd (a producer stopped inside \<open>publish\<close>)
  never returns, and on an even one it always does: the only unbounded wait of a consumer.
\<close>

theorem try_read_spins_iff_odd:
  "try_read_loop q slot e c = None \<longleftrightarrow> slot_seq slot AND 1 = 1"
proof (cases "try_read_loop q slot e c")
  case None
  have "slot_seq slot AND 1 = 1"
  proof (rule ccontr)
    assume "slot_seq slot AND 1 \<noteq> 1"
    then have "try_read_loop q slot e c \<noteq> None" by (subst try_read_loop.simps) (simp add: Let_def)
    with None show False by simp
  qed
  with None show ?thesis by simp
next
  case (Some v)
  from try_read_loop_returns_even [OF Some] Some show ?thesis by simp
qed

end
