(* ===== verification/Bench_Spmc.thy ===== *)
theory Bench_Spmc
  imports Spmc_Queue Bench_Support
begin

text \<open>
  The SPMC benchmark harness, \<open>src/src/bench/harness/spmc\<close>, with its adapter for the crate's own
  queue, \<open>adapters/ours_spmc.rs\<close>. The three bench cores run one producer and one consumer
  thread; a run is a sequence of their steps, with what the clock shows as input. The log of
  published values and the position of the consumer in it are kept as ghost fields.
\<close>

section \<open>The trait and the adapter\<close>

text \<open>\<open>SpmcReadResult\<close> repeats \<open>ReadResult\<close>; the adapter translates case by case.\<close>

datatype 'v spmc_read_result = SValue 'v | SEmpty | SLapped usize

datatype spmc_semantics = OverwritingLapNotified | Backpressure

fun semantics_display :: "spmc_semantics \<Rightarrow> string" where
  "semantics_display OverwritingLapNotified = ''overwriting (lap-notified)''"
| "semantics_display Backpressure = ''backpressure''"

fun adapt_result :: "'v read_result \<Rightarrow> 'v spmc_read_result" where
  "adapt_result (Value v) = SValue v"
| "adapt_result Empty = SEmpty"
| "adapt_result (Lapped skipped) = SLapped skipped"

text \<open>
  \<open>OursSpmc::new\<close>: the consumers are clones of the first one, with the first one last.
\<close>

definition ours_spmc_new ::
  "(usize \<Rightarrow> global_options \<Rightarrow> fault + ('v bslot, 'z) region_scheme) \<Rightarrow> 'v \<Rightarrow> usize \<Rightarrow> nat \<Rightarrow>
     fault + ('v bqueue \<times> bconsumer list)" where
  "ours_spmc_new allocate zeroed cap n_consumers =
     (case spmc_new allocate zeroed cap \<lparr>g_mlock = True\<rparr> of
        Inl f \<Rightarrow> Inl f
      | Inr (q, c0) \<Rightarrow>
          let consumers = replicate (n_consumers - 1) (bconsumer_clone c0)
          in Inr (q, if 0 < n_consumers then consumers @ [c0] else consumers))"

text \<open>\<open>try_publish\<close>: \<open>Inr ()\<close> is \<open>Ok(())\<close>, \<open>Inl v\<close> would be \<open>Err(v)\<close>.\<close>

definition ours_try_publish :: "usize \<Rightarrow> 'v bqueue \<Rightarrow> 'v \<Rightarrow> fault + (('v + unit) \<times> 'v bqueue)" where
  "ours_try_publish cap q v =
     (case publish cap q v of Inl f \<Rightarrow> Inl f | Inr q \<Rightarrow> Inr (Inr (), q))"

definition ours_try_read ::
  "usize \<Rightarrow> 'v bqueue \<Rightarrow> bconsumer \<Rightarrow> (fault + ('v spmc_read_result \<times> bconsumer)) option" where
  "ours_try_read cap q c =
     map_option (map_sum id (\<lambda>(r, c). (adapt_result r, c))) (try_read cap q c)"

definition ours_semantics :: spmc_semantics where
  "ours_semantics = OverwritingLapNotified"

text \<open>
  What the bench cores rely on of an overwriting implementation: publishing always succeeds,
  and a read answers as the log does at the consumer's position.
\<close>

locale overwriting_bench =
  fixes try_publish :: "'q \<Rightarrow> 'v \<Rightarrow> 'f + (('v + unit) \<times> 'q)"
    and try_read :: "'q \<Rightarrow> 'c \<Rightarrow> ('f + ('v spmc_read_result \<times> 'c)) option"
    and rep :: "'v list \<Rightarrow> 'q \<Rightarrow> bool"
    and crep :: "'v list \<Rightarrow> nat \<Rightarrow> 'c \<Rightarrow> bool"
    and cap :: nat
    and limit :: nat
  assumes limit_small: "limit < 2 ^ 64"
    and publish_ok: "rep P q \<Longrightarrow> \<exists>q'. try_publish q v = Inr (Inr (), q') \<and> rep (P @ [v]) q'"
    and crep_grows: "crep P r c \<Longrightarrow> crep (P @ [v]) r c"
    and read_ok: "rep P q \<Longrightarrow> crep P r c \<Longrightarrow> length P \<le> limit \<Longrightarrow>
      \<exists>c'. try_read q c = Some (Inr (adapt_result (fst (log_read cap P r)), c')) \<and>
        crep P (snd (log_read cap P r)) c'"

interpretation ours_spmc: overwriting_bench "ours_try_publish cap" "ours_try_read cap" "bcast_rep cap z" bcons_rep
    "unat cap" "2 ^ 63"
  for cap :: usize and z
proof unfold_locales
  show "(2 :: nat) ^ 63 < 2 ^ 64" by simp
next
  fix P :: "'a list" and q and v  :: 'a
  assume "bcast_rep cap z P q"
  from spmc.publish_law [OF this, of v] show
    "\<exists>q'. ours_try_publish cap q v = Inr (Inr (), q') \<and> bcast_rep cap z (P @ [v]) q'"
    by (auto simp: ours_try_publish_def)
next
  fix P :: "'a list" and r c and v  :: 'a
  assume "bcons_rep P r c"
  then show "bcons_rep (P @ [v]) r c" by (rule spmc.crep_grows)
next
  fix P :: "'a list" and q r c
  assume "bcast_rep cap z P q" "bcons_rep P r c" "length P \<le> 2 ^ 63"
  from spmc.read_law [OF this] show
    "\<exists>c'. ours_try_read cap q c = Some (Inr (adapt_result (fst (log_read (unat cap) P r)), c')) \<and>
      bcons_rep P (snd (log_read (unat cap) P r)) c'"
    by (auto simp: ours_try_read_def)
qed

text \<open>How a consumer's position accounts for the log.\<close>

lemma log_read_cases:
  assumes "r \<le> length P"
  obtains "fst (log_read cap P r) = Empty" "snd (log_read cap P r) = r" "r = length P"
    | "r < length P" "fst (log_read cap P r) = Value (P ! r)" "snd (log_read cap P r) = Suc r"
    | "r + cap < length P" "fst (log_read cap P r) = Lapped (of_nat (length P - 1 - r))"
      "snd (log_read cap P r) = length P - 1"
  using assms by (cases "r = length P"; cases "length P \<le> r + cap") (auto simp: log_read_def)

section \<open>The consumer threads\<close>

text \<open>
  The shared part of a run: the queue, the consumer handle, \<open>done\<close>, and the ghost log \<open>published\<close>
  with the list of results the consumer's calls returned.
\<close>

record ('q, 'c, 'v) run =
  r_queue :: 'q
  r_cons :: 'c
  r_done :: bool
  r_log :: "'v list"
  r_results :: "'v spmc_read_result list"

text \<open>A call of \<open>try_read\<close> by the consumer thread; \<open>None\<close> when it does not return.\<close>

definition read_call ::
  "('q \<Rightarrow> 'c \<Rightarrow> ('f + ('v spmc_read_result \<times> 'c)) option) \<Rightarrow> ('q, 'c, 'v) run \<Rightarrow>
     ('f + ('v spmc_read_result \<times> ('q, 'c, 'v) run)) option" where
  "read_call rd st =
     map_option (map_sum id (\<lambda>(r, c). (r, st\<lparr>r_cons := c, r_results := r_results st @ [r]\<rparr>)))
       (rd (r_queue st) (r_cons st))"

text \<open>
  \<open>run_spmc_handoff\<close>: the consumer reads until \<open>Empty\<close>, loads \<open>done\<close>, reads until \<open>Empty\<close> again
  and returns. The age of a value is handed to \<open>record\<close> once \<open>seen\<close> has reached \<open>warmup\<close>; a lap only
  counts as seen.
\<close>

datatype hphase = Reading | CheckDone | Draining | Returned

record hcons =
  h_phase :: hphase
  h_seen :: nat
  h_hist :: "u64 list"

fun on_result :: "(u64 \<Rightarrow> bool) \<Rightarrow> nat \<Rightarrow> u64 \<Rightarrow> u64 spmc_read_result \<Rightarrow> hphase \<Rightarrow> hcons \<Rightarrow> hcons" where
  "on_result accepts warmup now (SValue ts) if_empty h =
     (let h = (if warmup \<le> h_seen h then h\<lparr>h_hist := recorded accepts (now - ts) (h_hist h)\<rparr> else h)
      in h\<lparr>h_seen := h_seen h + 1\<rparr>)"
| "on_result accepts warmup now (SLapped skipped) if_empty h = h\<lparr>h_seen := h_seen h + 1\<rparr>"
| "on_result accepts warmup now SEmpty if_empty h = h\<lparr>h_phase := if_empty\<rparr>"

definition spmc_consumer_step ::
  "('q \<Rightarrow> 'c \<Rightarrow> ('f + (u64 spmc_read_result \<times> 'c)) option) \<Rightarrow> (u64 \<Rightarrow> bool) \<Rightarrow> nat \<Rightarrow> u64 \<Rightarrow>
     ('q, 'c, u64) run \<times> hcons \<Rightarrow> ('f + (('q, 'c, u64) run \<times> hcons)) option" where
  "spmc_consumer_step rd accepts warmup now s =
     (case s of (st, h) \<Rightarrow>
        (case h_phase h of
           Reading \<Rightarrow>
             map_option (map_sum id (\<lambda>(r, st). (st, on_result accepts warmup now r CheckDone h))) (read_call rd st)
         | CheckDone \<Rightarrow> Some (Inr (st, h\<lparr>h_phase := (if r_done st then Draining else Reading)\<rparr>))
         | Draining \<Rightarrow>
             map_option (map_sum id (\<lambda>(r, st). (st, on_result accepts warmup now r Returned h))) (read_call rd st)
         | Returned \<Rightarrow> Some (Inr (st, h))))"

text \<open>
  \<open>run_spmc_lapped\<close> and \<open>run_spmc_capacity_sweep_one\<close>: each read is timed (\<open>dt\<close>); after \<open>WARMUP\<close>
  results that are not empty, values and laps are counted and recorded. After an \<open>Empty\<close> the thread
  loads \<open>done\<close> and returns or reads on. The per-read delay of the lapped benchmark only spends
  time; a run may let any number of producer steps pass between two reads. The three histograms are
  made by \<open>Histogram::new\<close> and so grow with the values; each \<open>record\<close> here adds its sample.
\<close>

definition WARMUP :: nat where
  "WARMUP = 1000"

record lcons =
  l_phase :: hphase
  l_seen :: nat
  l_values :: nat
  l_lapped :: nat
  value_hist :: "u64 list"
  lapped_hist :: "u64 list"
  skipped_hist :: "u64 list"

definition lcons_new :: lcons where
  "lcons_new = \<lparr>l_phase = Reading, l_seen = 0, l_values = 0, l_lapped = 0, value_hist = [],
     lapped_hist = [], skipped_hist = []\<rparr>"

fun lapped_on_result :: "u64 \<Rightarrow> 'v spmc_read_result \<Rightarrow> lcons \<Rightarrow> lcons" where
  "lapped_on_result dt (SValue v) l =
     (let l = (if WARMUP \<le> l_seen l
               then l\<lparr>value_hist := value_hist l @ [dt], l_values := l_values l + 1\<rparr> else l)
      in l\<lparr>l_seen := l_seen l + 1\<rparr>)"
| "lapped_on_result dt (SLapped skipped) l =
     (let l = (if WARMUP \<le> l_seen l
               then l\<lparr>lapped_hist := lapped_hist l @ [dt], skipped_hist := skipped_hist l @ [skipped],
                      l_lapped := l_lapped l + 1\<rparr> else l)
      in l\<lparr>l_seen := l_seen l + 1\<rparr>)"
| "lapped_on_result dt SEmpty l = l\<lparr>l_phase := CheckDone\<rparr>"

definition lapped_consumer_step ::
  "('q \<Rightarrow> 'c \<Rightarrow> ('f + ('v spmc_read_result \<times> 'c)) option) \<Rightarrow> u64 \<Rightarrow>
     ('q, 'c, 'v) run \<times> lcons \<Rightarrow> ('f + (('q, 'c, 'v) run \<times> lcons)) option" where
  "lapped_consumer_step rd dt s =
     (case s of (st, l) \<Rightarrow>
        (case l_phase l of
           Reading \<Rightarrow>
             map_option (map_sum id (\<lambda>(r, st). (st, lapped_on_result dt r l))) (read_call rd st)
         | CheckDone \<Rightarrow> Some (Inr (st, l\<lparr>l_phase := (if r_done st then Returned else Reading)\<rparr>))
         | _ \<Rightarrow> Some (Inr (st, l))))"

record ccons =
  c_phase :: hphase
  c_seen :: nat
  c_values :: nat
  c_lapped :: nat
  c_value_hist :: "u64 list"

definition ccons_new :: ccons where
  "ccons_new = \<lparr>c_phase = Reading, c_seen = 0, c_values = 0, c_lapped = 0, c_value_hist = []\<rparr>"

fun capacity_on_result :: "u64 \<Rightarrow> 'v spmc_read_result \<Rightarrow> ccons \<Rightarrow> ccons" where
  "capacity_on_result dt (SValue v) l =
     (let l = (if WARMUP \<le> c_seen l
               then l\<lparr>c_value_hist := c_value_hist l @ [dt], c_values := c_values l + 1\<rparr> else l)
      in l\<lparr>c_seen := c_seen l + 1\<rparr>)"
| "capacity_on_result dt (SLapped skipped) l =
     (let l = (if WARMUP \<le> c_seen l then l\<lparr>c_lapped := c_lapped l + 1\<rparr> else l)
      in l\<lparr>c_seen := c_seen l + 1\<rparr>)"
| "capacity_on_result dt SEmpty l = l\<lparr>c_phase := CheckDone\<rparr>"

definition capacity_consumer_step ::
  "('q \<Rightarrow> 'c \<Rightarrow> ('f + ('v spmc_read_result \<times> 'c)) option) \<Rightarrow> u64 \<Rightarrow>
     ('q, 'c, 'v) run \<times> ccons \<Rightarrow> ('f + (('q, 'c, 'v) run \<times> ccons)) option" where
  "capacity_consumer_step rd dt s =
     (case s of (st, l) \<Rightarrow>
        (case c_phase l of
           Reading \<Rightarrow>
             map_option (map_sum id (\<lambda>(r, st). (st, capacity_on_result dt r l))) (read_call rd st)
         | CheckDone \<Rightarrow> Some (Inr (st, l\<lparr>c_phase := (if r_done st then Returned else Reading)\<rparr>))
         | _ \<Rightarrow> Some (Inr (st, l))))"

section \<open>The producer threads\<close>

text \<open>
  The handoff producer publishes \<open>n\<close> fresh stamps, trying each until it is accepted, and waits
  \<open>pace\<close> ticks after each. The other two publish 0, 1, 2, ... until the clock reaches
  \<open>stop_at\<close>; the capacity sweep tries each number until it is accepted. All set \<open>done\<close> at the end.
\<close>

datatype ppc = Publishing | Pacing u64 | Trying | StoringDone | Ended

record hprod =
  hp_pc :: ppc
  hp_left :: nat

definition handoff_producer_step ::
  "('q \<Rightarrow> u64 \<Rightarrow> 'f + ((u64 + unit) \<times> 'q)) \<Rightarrow> u64 \<Rightarrow> u64 \<Rightarrow>
     ('q, 'c, u64) run \<times> hprod \<Rightarrow> 'f + (('q, 'c, u64) run \<times> hprod)" where
  "handoff_producer_step pub pace now s =
     (case s of (st, p) \<Rightarrow>
        (case hp_pc p of
           Publishing \<Rightarrow>
             if hp_left p = 0 then Inr (st, p\<lparr>hp_pc := StoringDone\<rparr>)
             else (case pub (r_queue st) now of
                     Inl f \<Rightarrow> Inl f
                   | Inr (Inl _, q) \<Rightarrow> Inr (st\<lparr>r_queue := q\<rparr>, p)
                   | Inr (Inr _, q) \<Rightarrow>
                       Inr (st\<lparr>r_queue := q, r_log := r_log st @ [now]\<rparr>,
                         p\<lparr>hp_left := hp_left p - 1,
                           hp_pc := (if 0 < pace then Pacing (now + pace) else Publishing)\<rparr>))
         | Pacing until \<Rightarrow> if now < until then Inr (st, p) else Inr (st, p\<lparr>hp_pc := Publishing\<rparr>)
         | StoringDone \<Rightarrow> Inr (st\<lparr>r_done := True\<rparr>, p\<lparr>hp_pc := Ended\<rparr>)
         | _ \<Rightarrow> Inr (st, p)))"

record wprod =
  wp_pc :: ppc
  wp_i :: u64

definition window_producer_step ::
  "('q \<Rightarrow> u64 \<Rightarrow> 'f + ((u64 + unit) \<times> 'q)) \<Rightarrow> u64 \<Rightarrow> u64 \<Rightarrow>
     ('q, 'c, u64) run \<times> wprod \<Rightarrow> 'f + (('q, 'c, u64) run \<times> wprod)" where
  "window_producer_step pub stop_at now s =
     (case s of (st, p) \<Rightarrow>
        (case wp_pc p of
           Publishing \<Rightarrow>
             if now < stop_at
             then (case pub (r_queue st) (wp_i p) of
                     Inl f \<Rightarrow> Inl f
                   | Inr (Inl _, q) \<Rightarrow> Inr (st\<lparr>r_queue := q\<rparr>, p\<lparr>wp_i := wp_i p + 1\<rparr>)
                   | Inr (Inr _, q) \<Rightarrow>
                       Inr (st\<lparr>r_queue := q, r_log := r_log st @ [wp_i p]\<rparr>, p\<lparr>wp_i := wp_i p + 1\<rparr>))
             else Inr (st, p\<lparr>wp_pc := StoringDone\<rparr>)
         | StoringDone \<Rightarrow> Inr (st\<lparr>r_done := True\<rparr>, p\<lparr>wp_pc := Ended\<rparr>)
         | _ \<Rightarrow> Inr (st, p)))"

definition retry_producer_step ::
  "('q \<Rightarrow> u64 \<Rightarrow> 'f + ((u64 + unit) \<times> 'q)) \<Rightarrow> u64 \<Rightarrow> u64 \<Rightarrow>
     ('q, 'c, u64) run \<times> wprod \<Rightarrow> 'f + (('q, 'c, u64) run \<times> wprod)" where
  "retry_producer_step pub stop_at now s =
     (case s of (st, p) \<Rightarrow>
        (case wp_pc p of
           Publishing \<Rightarrow>
             if now < stop_at then Inr (st, p\<lparr>wp_pc := Trying\<rparr>) else Inr (st, p\<lparr>wp_pc := StoringDone\<rparr>)
         | Trying \<Rightarrow>
             (case pub (r_queue st) (wp_i p) of
                Inl f \<Rightarrow> Inl f
              | Inr (Inl _, q) \<Rightarrow> Inr (st\<lparr>r_queue := q\<rparr>, p)
              | Inr (Inr _, q) \<Rightarrow>
                  Inr (st\<lparr>r_queue := q, r_log := r_log st @ [wp_i p]\<rparr>,
                    p\<lparr>wp_i := wp_i p + 1, wp_pc := Publishing\<rparr>))
         | StoringDone \<Rightarrow> Inr (st\<lparr>r_done := True\<rparr>, p\<lparr>wp_pc := Ended\<rparr>)
         | _ \<Rightarrow> Inr (st, p)))"

section \<open>Runs\<close>

text \<open>The two threads of a bench core, one step of one of them at a time.\<close>

datatype thread_event = Prod u64 | Cons u64

definition two_threads ::
  "(u64 \<Rightarrow> 'st \<times> 'p \<Rightarrow> 'f + ('st \<times> 'p)) \<Rightarrow> (u64 \<Rightarrow> 'st \<times> 'h \<Rightarrow> ('f + ('st \<times> 'h)) option) \<Rightarrow>
     'st \<times> 'p \<times> 'h \<Rightarrow> thread_event \<Rightarrow> ('f + ('st \<times> 'p \<times> 'h)) option" where
  "two_threads pstep cstep s e =
     (case s of (st, p, h) \<Rightarrow>
        (case e of
           Prod now \<Rightarrow> Some (map_sum id (\<lambda>(st, p). (st, p, h)) (pstep now (st, p)))
         | Cons now \<Rightarrow> map_option (map_sum id (\<lambda>(st, h). (st, p, h))) (cstep now (st, h))))"

inductive threads_reach ::
  "(u64 \<Rightarrow> 'st \<times> 'p \<Rightarrow> 'f + ('st \<times> 'p)) \<Rightarrow> (u64 \<Rightarrow> 'st \<times> 'h \<Rightarrow> ('f + ('st \<times> 'h)) option) \<Rightarrow>
     'st \<times> 'p \<times> 'h \<Rightarrow> 'st \<times> 'p \<times> 'h \<Rightarrow> bool" for pstep cstep s0 where
  threads_init: "threads_reach pstep cstep s0 s0"
| threads_next: "threads_reach pstep cstep s0 s \<Longrightarrow> two_threads pstep cstep s e = Some (Inr s') \<Longrightarrow>
    threads_reach pstep cstep s0 s'"

fun threads_run ::
  "(u64 \<Rightarrow> 'st \<times> 'p \<Rightarrow> 'f + ('st \<times> 'p)) \<Rightarrow> (u64 \<Rightarrow> 'st \<times> 'h \<Rightarrow> ('f + ('st \<times> 'h)) option) \<Rightarrow>
     'st \<times> 'p \<times> 'h \<Rightarrow> thread_event list \<Rightarrow> ('f + ('st \<times> 'p \<times> 'h)) option" where
  "threads_run pstep cstep s [] = Some (Inr s)"
| "threads_run pstep cstep s (e # es) =
     (case two_threads pstep cstep s e of
        Some (Inr s') \<Rightarrow> threads_run pstep cstep s' es
      | r \<Rightarrow> r)"

lemma threads_reach_run:
  "threads_reach pstep cstep s0 s \<Longrightarrow> threads_run pstep cstep s es = Some (Inr s') \<Longrightarrow>
     threads_reach pstep cstep s0 s'"
proof (induction es arbitrary: s)
  case (Cons e es)
  from Cons.prems(2) obtain s1 where "two_threads pstep cstep s e = Some (Inr s1)"
    "threads_run pstep cstep s1 es = Some (Inr s')" by (simp split: option.splits sum.splits)
  with Cons.IH threads_next [OF Cons.prems(1)] show ?case by blast
qed simp

lemma threads_reach_invariant:
  assumes "threads_reach pstep cstep s0 s" "I s0"
    and "\<And>st p h now st' p'. I (st, p, h) \<Longrightarrow> pstep now (st, p) = Inr (st', p') \<Longrightarrow> I (st', p', h)"
    and "\<And>st p h now st' h'. I (st, p, h) \<Longrightarrow> cstep now (st, h) = Some (Inr (st', h')) \<Longrightarrow> I (st', p, h')"
  shows "I s"
  using assms(1)
proof (induction rule: threads_reach.induct)
  case threads_init
  show ?case by (rule assms(2))
next
  case (threads_next s e s')
  obtain st p h where s: "s = (st, p, h)" by (cases s)
  show ?case
  proof (cases e)
    case (Prod now)
    with threads_next.hyps(2) s obtain st' p' where
      "pstep now (st, p) = Inr (st', p')" "s' = (st', p', h)"
      by (cases "pstep now (st, p)") (auto simp: two_threads_def)
    with assms(3) threads_next.IH s show ?thesis by blast
  next
    case (Cons now)
    with threads_next.hyps(2) s obtain st' h' where
      "cstep now (st, h) = Some (Inr (st', h'))" "s' = (st', p, h')"
      by (cases "cstep now (st, h)"; cases "the (cstep now (st, h))") (auto simp: two_threads_def)
    with assms(4) threads_next.IH s show ?thesis by blast
  qed
qed

definition run_new :: "'q \<Rightarrow> 'c \<Rightarrow> ('q, 'c, 'v) run" where
  "run_new q c = \<lparr>r_queue = q, r_cons = c, r_done = False, r_log = [], r_results = []\<rparr>"

definition hprod_new :: "nat \<Rightarrow> hprod" where
  "hprod_new n = \<lparr>hp_pc = Publishing, hp_left = n\<rparr>"

definition hcons_new :: hcons where
  "hcons_new = \<lparr>h_phase = Reading, h_seen = 0, h_hist = []\<rparr>"

definition wprod_new :: wprod where
  "wprod_new = \<lparr>wp_pc = Publishing, wp_i = 0\<rparr>"

section \<open>Configurations and results\<close>

record spmc_handoff_cfg =
  sh_n :: nat
  sh_warmup :: nat
  producer_pace_cycles :: u64

definition default_spmc_handoff_cfg :: spmc_handoff_cfg where
  "default_spmc_handoff_cfg = \<lparr>sh_n = 10000000, sh_warmup = 1000000, producer_pace_cycles = 1000\<rparr>"

record lapped_cfg =
  delays_cycles :: "u64 list"
  run_secs :: u64

definition default_lapped_cfg :: lapped_cfg where
  "default_lapped_cfg = \<lparr>delays_cycles = [0, 100, 500, 2000, 10000, 50000, 200000], run_secs = 2\<rparr>"

text \<open>
  The start of \<open>run_spmc_lapped\<close>: it panics (\<open>None\<close>) unless the implementation notifies laps, else
  it computes the length of the window in ticks.
\<close>

definition lapped_window :: "spmc_semantics \<Rightarrow> u64 \<Rightarrow> lapped_cfg \<Rightarrow> u64 option" where
  "lapped_window semantics tsc_hz cfg =
     (if semantics = OverwritingLapNotified then Some (tsc_hz * run_secs cfg) else None)"

text \<open>\<open>stop_at\<close> of the producer threads, from the clock when they start.\<close>

definition window_end :: "u64 \<Rightarrow> u64 \<Rightarrow> u64" where
  "window_end start run_ticks = start + run_ticks"

record lapped_rate_result =
  lr_delay_cycles :: u64
  lr_published :: u64
  lr_values :: nat
  lr_lapped :: nat
  lr_value_hist :: "u64 list"
  lr_lapped_hist :: "u64 list"
  lr_skipped_hist :: "u64 list"
  lr_loc_delta :: "(nat \<times> u64 option) list"

definition lapped_rate_result_of ::
  "u64 \<Rightarrow> wprod \<Rightarrow> lcons \<Rightarrow> (nat \<times> u64 option) list \<Rightarrow> lapped_rate_result" where
  "lapped_rate_result_of delay p l deltas =
     \<lparr>lr_delay_cycles = delay, lr_published = wp_i p, lr_values = l_values l, lr_lapped = l_lapped l,
      lr_value_hist = value_hist l, lr_lapped_hist = lapped_hist l, lr_skipped_hist = skipped_hist l,
      lr_loc_delta = deltas\<rparr>"

record capacity_result =
  cr_capacity :: usize
  cr_published :: u64
  cr_values :: nat
  cr_lapped :: nat
  cr_value_hist :: "u64 list"

definition capacity_result_of :: "usize \<Rightarrow> wprod \<Rightarrow> ccons \<Rightarrow> capacity_result" where
  "capacity_result_of cap p l =
     \<lparr>cr_capacity = cap, cr_published = wp_i p, cr_values = c_values l, cr_lapped = c_lapped l,
      cr_value_hist = c_value_hist l\<rparr>"

section \<open>What the consumers account for\<close>

fun s_received :: "'v spmc_read_result list \<Rightarrow> 'v list" where
  "s_received [] = []"
| "s_received (SValue v # rs) = v # s_received rs"
| "s_received (_ # rs) = s_received rs"

fun s_skips :: "'v spmc_read_result list \<Rightarrow> usize list" where
  "s_skips [] = []"
| "s_skips (SLapped k # rs) = k # s_skips rs"
| "s_skips (_ # rs) = s_skips rs"

definition s_skipped :: "'v spmc_read_result list \<Rightarrow> nat" where
  "s_skipped rs = sum_list (map unat (s_skips rs))"

text \<open>The results that count as seen.\<close>

definition nonempty :: "'v spmc_read_result list \<Rightarrow> 'v spmc_read_result list" where
  "nonempty rs = filter (\<lambda>r. case r of SEmpty \<Rightarrow> False | _ \<Rightarrow> True) rs"

lemma s_received_append [simp]: "s_received (rs @ rs') = s_received rs @ s_received rs'"
  by (induction rs rule: s_received.induct) simp_all

lemma s_skips_append [simp]: "s_skips (rs @ rs') = s_skips rs @ s_skips rs'"
  by (induction rs rule: s_skips.induct) simp_all

lemma s_skipped_append [simp]:
  "s_skipped (rs @ [SLapped k]) = s_skipped rs + unat k"
  "s_skipped (rs @ [SValue v]) = s_skipped rs"
  "s_skipped (rs @ [SEmpty]) = s_skipped rs"
  by (simp_all add: s_skipped_def)

lemma nonempty_append [simp]:
  "nonempty (rs @ [SLapped k]) = nonempty rs @ [SLapped k]"
  "nonempty (rs @ [SValue v]) = nonempty rs @ [SValue v]"
  "nonempty (rs @ [SEmpty]) = nonempty rs"
  by (simp_all add: nonempty_def)

lemma length_nonempty: "length (nonempty rs) = length (s_received rs) + length (s_skips rs)"
  by (induction rs rule: s_received.induct) (simp_all add: nonempty_def)

lemma nonempty_idem: "SEmpty \<notin> set (nonempty rs)"
  by (auto simp: nonempty_def)

lemma nonempty_drop: "nonempty (drop k (nonempty rs)) = drop k (nonempty rs)"
proof -
  have "SEmpty \<notin> set (drop k (nonempty rs))" using nonempty_idem in_set_dropD by metis
  then show ?thesis unfolding nonempty_def [of "drop k (nonempty rs)"]
    by (intro filter_True) (auto split: spmc_read_result.split)
qed

lemma map_sum_InrE:
  assumes "map_sum f g x = Inr y"
  obtains z where "x = Inr z" "g z = y"
  using assms by (cases x) auto

lemma prefix_take_take: "r \<le> m \<Longrightarrow> prefix (take r xs) (take m xs)"
  by (metis min.absorb1 take_is_prefix take_take)

context overwriting_bench
begin

definition run_inv :: "('q, 'c, 'v) run \<Rightarrow> nat \<Rightarrow> bool" where
  "run_inv st r \<longleftrightarrow>
     rep (r_log st) (r_queue st) \<and> crep (r_log st) r (r_cons st) \<and> r \<le> length (r_log st) \<and>
     length (s_received (r_results st)) + s_skipped (r_results st) = r \<and>
     subseq (s_received (r_results st)) (take r (r_log st))"

lemma run_inv_publish:
  assumes "run_inv st r"
  shows "\<exists>q. try_publish (r_queue st) v = Inr (Inr (), q) \<and>
    run_inv (st\<lparr>r_queue := q, r_log := r_log st @ [v]\<rparr>) r"
proof -
  from assms have "rep (r_log st) (r_queue st)" by (simp add: run_inv_def)
  from publish_ok [OF this, of v] obtain q where
    "try_publish (r_queue st) v = Inr (Inr (), q)" "rep (r_log st @ [v]) q" by blast
  with assms show ?thesis by (auto simp: run_inv_def crep_grows)
qed

lemma run_inv_done [simp]: "run_inv (st\<lparr>r_done := d\<rparr>) r \<longleftrightarrow> run_inv st r"
  by (simp add: run_inv_def)

text \<open>A read moves the consumer as its answer says.\<close>

lemma run_inv_read:
  assumes "run_inv st r" "length (r_log st) \<le> limit"
  shows "\<exists>x st' r'. read_call try_read st = Some (Inr (x, st')) \<and> run_inv st' r' \<and>
    r_log st' = r_log st \<and> r_done st' = r_done st \<and> r_results st' = r_results st @ [x] \<and>
    (x = SEmpty \<longrightarrow> r' = length (r_log st))"
proof -
  let ?P = "r_log st"
  from assms(1) have inv: "rep ?P (r_queue st)" "crep ?P r (r_cons st)" "r \<le> length ?P"
    "length (s_received (r_results st)) + s_skipped (r_results st) = r"
    "subseq (s_received (r_results st)) (take r ?P)" by (simp_all add: run_inv_def)
  from read_ok [OF inv(1,2) assms(2)] obtain c where
    c: "try_read (r_queue st) (r_cons st) = Some (Inr (adapt_result (fst (log_read cap ?P r)), c))"
      "crep ?P (snd (log_read cap ?P r)) c" by blast
  let ?x = "adapt_result (fst (log_read cap ?P r))"
  let ?st = "st\<lparr>r_cons := c, r_results := r_results st @ [?x]\<rparr>"
  have call: "read_call try_read st = Some (Inr (?x, ?st))" by (simp add: read_call_def c(1))
  have "run_inv ?st (snd (log_read cap ?P r)) \<and> (?x = SEmpty \<longrightarrow> snd (log_read cap ?P r) = length ?P)"
    using inv(3)
  proof (cases rule: log_read_cases [where cap = cap])
    case 1
    with inv c(2) show ?thesis by (simp add: run_inv_def)
  next
    case 2
    have "take (Suc r) ?P = take r ?P @ [?P ! r]" using 2(1) by (rule take_Suc_conv_app_nth)
    with 2 inv c(2) show ?thesis by (simp add: run_inv_def list_emb_append_mono)
  next
    case 3
    have "length ?P - 1 - r < 2 ^ 64" using assms(2) limit_small by simp
    then have "unat (of_nat (length ?P - 1 - r) :: usize) = length ?P - 1 - r"
      by (simp only: unat_of_nat_usize mod_less)
    moreover have "prefix (take r ?P) (take (length ?P - 1) ?P)"
      using 3(1) by (intro prefix_take_take) simp
    ultimately show ?thesis using 3 inv c(2)
      by (auto simp: run_inv_def intro: subseq_order.trans prefix_imp_subseq)
  qed
  with call show ?thesis
    by (intro exI [of _ ?x] exI [of _ ?st] exI [of _ "snd (log_read cap ?P r)"]) simp
qed

end

text \<open>What a thread keeps of the results, and how a new result extends it.\<close>

definition hcons_inv :: "(u64 \<Rightarrow> bool) \<Rightarrow> nat \<Rightarrow> 'v spmc_read_result list \<Rightarrow> hcons \<Rightarrow> bool" where
  "hcons_inv accepts warmup rs h \<longleftrightarrow>
     h_seen h = length (nonempty rs) \<and> list_all accepts (h_hist h) \<and>
     length (h_hist h) \<le> length (s_received (drop warmup (nonempty rs))) \<and>
     (accepts = (\<lambda>_. True) \<longrightarrow> length (h_hist h) = length (s_received (drop warmup (nonempty rs))))"

lemma drop_snoc: "drop k (xs @ [x]) = (if k \<le> length xs then drop k xs @ [x] else [])"
  by simp

lemma on_result_inv:
  "hcons_inv accepts warmup rs h \<Longrightarrow> hcons_inv accepts warmup (rs @ [r]) (on_result accepts warmup now r p h)"
  by (cases r) (auto simp: hcons_inv_def Let_def drop_snoc simp del: drop_append)

lemma on_result_phase: "h_phase (on_result accepts warmup now r p h) = (if r = SEmpty then p else h_phase h)"
  by (cases r) (simp_all add: Let_def)

definition lcons_inv :: "'v spmc_read_result list \<Rightarrow> lcons \<Rightarrow> bool" where
  "lcons_inv rs l \<longleftrightarrow>
     l_seen l = length (nonempty rs) \<and>
     l_values l = length (s_received (drop WARMUP (nonempty rs))) \<and> length (value_hist l) = l_values l \<and>
     skipped_hist l = s_skips (drop WARMUP (nonempty rs)) \<and>
     l_lapped l = length (skipped_hist l) \<and> length (lapped_hist l) = l_lapped l"

lemma lapped_on_result_inv:
  "lcons_inv rs l \<Longrightarrow> lcons_inv (rs @ [r]) (lapped_on_result dt r l)"
  by (cases r) (auto simp: lcons_inv_def Let_def drop_snoc simp del: drop_append)

definition ccons_inv :: "'v spmc_read_result list \<Rightarrow> ccons \<Rightarrow> bool" where
  "ccons_inv rs l \<longleftrightarrow>
     c_seen l = length (nonempty rs) \<and>
     c_values l = length (s_received (drop WARMUP (nonempty rs))) \<and> length (c_value_hist l) = c_values l \<and>
     c_lapped l = length (s_skips (drop WARMUP (nonempty rs)))"

lemma capacity_on_result_inv:
  "ccons_inv rs l \<Longrightarrow> ccons_inv (rs @ [r]) (capacity_on_result dt r l)"
  by (cases r) (auto simp: ccons_inv_def Let_def drop_snoc simp del: drop_append)

locale overwriting_stamps = overwriting_bench try_publish try_read rep crep cap limit
  for try_publish :: "'q \<Rightarrow> u64 \<Rightarrow> 'f + ((u64 + unit) \<times> 'q)"
    and try_read :: "'q \<Rightarrow> 'c \<Rightarrow> ('f + (u64 spmc_read_result \<times> 'c)) option"
    and rep :: "u64 list \<Rightarrow> 'q \<Rightarrow> bool"
    and crep :: "u64 list \<Rightarrow> nat \<Rightarrow> 'c \<Rightarrow> bool"
    and cap :: nat
    and limit :: nat
begin

definition sample_inv :: "nat \<Rightarrow> (u64 \<Rightarrow> bool) \<Rightarrow> nat \<Rightarrow> ('q, 'c, u64) run \<times> hprod \<times> hcons \<Rightarrow> bool" where
  "sample_inv n accepts warmup s \<longleftrightarrow>
     (case s of (st, p, h) \<Rightarrow>
        (\<exists>r. run_inv st r \<and> (h_phase h = Returned \<longrightarrow> r = length (r_log st))) \<and>
        hcons_inv accepts warmup (r_results st) h \<and> length (r_log st) + hp_left p = n \<and>
        (r_done st \<longleftrightarrow> hp_pc p = Ended) \<and> (hp_pc p \<in> {StoringDone, Ended} \<longrightarrow> hp_left p = 0) \<and>
        (h_phase h \<in> {Draining, Returned} \<longrightarrow> r_done st))"

lemma handoff_producer_inv:
  assumes "sample_inv n accepts warmup (st, p, h)"
  shows "\<exists>st' p'. handoff_producer_step try_publish pace now (st, p) = Inr (st', p') \<and>
    sample_inv n accepts warmup (st', p', h)"
proof (cases "hp_pc p")
  case Publishing
  show ?thesis
  proof (cases "hp_left p = 0")
    case True
    with Publishing assms show ?thesis by (auto simp: handoff_producer_step_def sample_inv_def)
  next
    case False
    from assms obtain r where r: "run_inv st r" by (auto simp: sample_inv_def)
    from run_inv_publish [OF r, of now] obtain q where
      q: "try_publish (r_queue st) now = Inr (Inr (), q)"
        "run_inv (st\<lparr>r_queue := q, r_log := r_log st @ [now]\<rparr>) r" by blast
    have "h_phase h \<noteq> Returned" using assms Publishing by (auto simp: sample_inv_def)
    with False Publishing q assms show ?thesis by (auto simp: handoff_producer_step_def sample_inv_def)
  qed
next
  case (Pacing until)
  with assms show ?thesis by (auto simp: handoff_producer_step_def sample_inv_def)
next
  case StoringDone
  with assms show ?thesis by (auto simp: handoff_producer_step_def sample_inv_def)
qed (use assms in \<open>auto simp: handoff_producer_step_def\<close>)

lemma handoff_consumer_inv:
  assumes "sample_inv n accepts warmup (st, p, h)" "n \<le> limit"
  shows "\<exists>st' h'. spmc_consumer_step try_read accepts warmup now (st, h) = Some (Inr (st', h')) \<and>
    sample_inv n accepts warmup (st', p, h')"
proof -
  from assms(1) obtain r where r: "run_inv st r" by (auto simp: sample_inv_def)
  have "length (r_log st) \<le> limit" using assms by (auto simp: sample_inv_def)
  from run_inv_read [OF r this] obtain x st' r' where
    x: "read_call try_read st = Some (Inr (x, st'))" "run_inv st' r'" "r_log st' = r_log st"
      "r_done st' = r_done st" "r_results st' = r_results st @ [x]" "x = SEmpty \<longrightarrow> r' = length (r_log st)"
    by blast
  have h': "hcons_inv accepts warmup (r_results st') (on_result accepts warmup now x pc h)" for pc
    using assms(1) on_result_inv [of accepts warmup "r_results st" h x now pc] x(5) by (simp add: sample_inv_def)
  show ?thesis
  proof (cases "h_phase h")
    case Reading
    with x h' [of CheckDone] assms(1) show ?thesis
      by (auto simp: spmc_consumer_step_def sample_inv_def on_result_phase)
  next
    case CheckDone
    with assms(1) show ?thesis by (auto simp: spmc_consumer_step_def sample_inv_def hcons_inv_def)
  next
    case Draining
    with x h' [of Returned] assms(1) show ?thesis
      by (auto simp: spmc_consumer_step_def sample_inv_def on_result_phase)
  next
    case Returned
    with assms(1) show ?thesis by (auto simp: spmc_consumer_step_def)
  qed
qed

definition lapped_inv :: "('q, 'c, u64) run \<times> wprod \<times> lcons \<Rightarrow> bool" where
  "lapped_inv s \<longleftrightarrow>
     (case s of (st, p, l) \<Rightarrow>
        (length (r_log st) \<le> limit \<longrightarrow>
           (\<exists>r. run_inv st r) \<and> lcons_inv (r_results st) l \<and> wp_i p = of_nat (length (r_log st))))"

definition sweep_inv :: "('q, 'c, u64) run \<times> wprod \<times> ccons \<Rightarrow> bool" where
  "sweep_inv s \<longleftrightarrow>
     (case s of (st, p, l) \<Rightarrow>
        (length (r_log st) \<le> limit \<longrightarrow>
           (\<exists>r. run_inv st r) \<and> ccons_inv (r_results st) l \<and> wp_i p = of_nat (length (r_log st))))"

lemma publish_windowed:
  assumes "\<exists>r. run_inv st r" "wp_i p = of_nat (length (r_log st))"
  obtains q where "try_publish (r_queue st) (wp_i p) = Inr (Inr (), q)"
    "\<exists>r. run_inv (st\<lparr>r_queue := q, r_log := r_log st @ [wp_i p]\<rparr>) r"
    "wp_i p + 1 = of_nat (length (r_log st @ [wp_i p]))"
proof -
  from assms(1) obtain r where "run_inv st r" by blast
  from run_inv_publish [OF this, of "wp_i p"] that show thesis by (auto simp: assms(2))
qed

lemma window_producer_inv:
  assumes "lapped_inv (st, p, l)" "window_producer_step try_publish stop_at now (st, p) = Inr (st', p')"
  shows "lapped_inv (st', p', l)"
proof (cases "length (r_log st) \<le> limit")
  case True
  with assms(1) have inv: "\<exists>r. run_inv st r" "wp_i p = of_nat (length (r_log st))" "lcons_inv (r_results st) l"
    by (simp_all add: lapped_inv_def)
  from inv(1,2) show ?thesis
  proof (rule publish_windowed)
    fix q assume q: "try_publish (r_queue st) (wp_i p) = Inr (Inr (), q)"
      "\<exists>r. run_inv (st\<lparr>r_queue := q, r_log := r_log st @ [wp_i p]\<rparr>) r"
      "wp_i p + 1 = of_nat (length (r_log st @ [wp_i p]))"
    from assms(2) q inv show ?thesis
      by (cases "wp_pc p") (auto simp: window_producer_step_def lapped_inv_def split: if_splits)
  qed
next
  case False
  with assms(2) have "length (r_log st') > limit"
    by (cases "wp_pc p") (auto simp: window_producer_step_def split: if_splits sum.splits)
  then show ?thesis by (simp add: lapped_inv_def)
qed

lemma retry_producer_inv:
  assumes "sweep_inv (st, p, l)" "retry_producer_step try_publish stop_at now (st, p) = Inr (st', p')"
  shows "sweep_inv (st', p', l)"
proof (cases "length (r_log st) \<le> limit")
  case True
  with assms(1) have inv: "\<exists>r. run_inv st r" "wp_i p = of_nat (length (r_log st))" "ccons_inv (r_results st) l"
    by (simp_all add: sweep_inv_def)
  from inv(1,2) show ?thesis
  proof (rule publish_windowed)
    fix q assume q: "try_publish (r_queue st) (wp_i p) = Inr (Inr (), q)"
      "\<exists>r. run_inv (st\<lparr>r_queue := q, r_log := r_log st @ [wp_i p]\<rparr>) r"
      "wp_i p + 1 = of_nat (length (r_log st @ [wp_i p]))"
    from assms(2) q inv show ?thesis
      by (cases "wp_pc p") (auto simp: retry_producer_step_def sweep_inv_def split: if_splits)
  qed
next
  case False
  with assms(2) have "length (r_log st') > limit"
    by (cases "wp_pc p") (auto simp: retry_producer_step_def split: if_splits sum.splits)
  then show ?thesis by (simp add: sweep_inv_def)
qed

lemma lapped_consumer_inv:
  assumes "lapped_inv (st, p, l)" "lapped_consumer_step try_read dt (st, l) = Some (Inr (st', l'))"
  shows "lapped_inv (st', p, l')"
proof (cases "l_phase l = Reading \<and> length (r_log st) \<le> limit")
  case True
  with assms(1) obtain r where r: "run_inv st r" by (auto simp: lapped_inv_def)
  from run_inv_read [OF r] True obtain x st1 r' where
    x: "read_call try_read st = Some (Inr (x, st1))" "run_inv st1 r'" "r_log st1 = r_log st"
      "r_results st1 = r_results st @ [x]" by blast
  with assms(2) True have "st' = st1" "l' = lapped_on_result dt x l"
    by (simp_all add: lapped_consumer_step_def)
  with x assms(1) True show ?thesis by (auto simp: lapped_inv_def lapped_on_result_inv)
next
  case False
  have "r_log st' = r_log st"
    using assms(2)
    by (cases "l_phase l") (auto simp: lapped_consumer_step_def read_call_def map_option_case
        split: option.splits elim!: map_sum_InrE)
  with False assms show ?thesis
    by (cases "l_phase l") (auto simp: lapped_consumer_step_def lapped_inv_def lcons_inv_def)
qed

lemma capacity_consumer_inv:
  assumes "sweep_inv (st, p, l)" "capacity_consumer_step try_read dt (st, l) = Some (Inr (st', l'))"
  shows "sweep_inv (st', p, l')"
proof (cases "c_phase l = Reading \<and> length (r_log st) \<le> limit")
  case True
  with assms(1) obtain r where r: "run_inv st r" by (auto simp: sweep_inv_def)
  from run_inv_read [OF r] True obtain x st1 r' where
    x: "read_call try_read st = Some (Inr (x, st1))" "run_inv st1 r'" "r_log st1 = r_log st"
      "r_results st1 = r_results st @ [x]" by blast
  with assms(2) True have "st' = st1" "l' = capacity_on_result dt x l"
    by (simp_all add: capacity_consumer_step_def)
  with x assms(1) True show ?thesis by (auto simp: sweep_inv_def capacity_on_result_inv)
next
  case False
  have "r_log st' = r_log st"
    using assms(2)
    by (cases "c_phase l") (auto simp: capacity_consumer_step_def read_call_def map_option_case
        split: option.splits elim!: map_sum_InrE)
  with False assms show ?thesis
    by (cases "c_phase l") (auto simp: capacity_consumer_step_def sweep_inv_def ccons_inv_def)
qed

end

interpretation ours_overwriting: overwriting_stamps "ours_try_publish cap" "ours_try_read cap" "bcast_rep cap z"
    bcons_rep "unat cap" "2 ^ 63"
  for cap :: usize and z
  by (rule overwriting_stamps.intro) (rule ours_spmc.overwriting_bench_axioms)

section \<open>Properties\<close>

lemma ours_spmc_new_rep:
  fixes z :: 'a
  assumes "slot_allocator allocate" "ours_spmc_new allocate z cap n = Inr (q, cs)"
  shows "bcast_rep cap z [] q" "length cs = n" "\<forall>c\<in>set cs. bcons_rep ([] :: 'a list) 0 c"
proof -
  from assms(2) obtain c0 where new: "spmc_new allocate z cap \<lparr>g_mlock = True\<rparr> = Inr (q, c0)"
    and cs: "cs = (if 0 < n then replicate (n - 1) (bconsumer_clone c0) @ [c0] else [])"
    by (auto simp: ours_spmc_new_def Let_def split: sum.splits if_splits)
  note rep = spmc_new_rep [OF assms(1) new]
  show "bcast_rep cap z [] q" by (rule rep(1))
  show "length cs = n" using cs by simp
  show "\<forall>c\<in>set cs. bcons_rep ([] :: 'a list) 0 c" using cs rep(2) spmc.clone_law [OF rep(2)] by auto
qed

lemma sample_inv_new:
  assumes "bcast_rep cap z [] q" "bcons_rep ([] :: u64 list) 0 c"
  shows "ours_overwriting.sample_inv cap z n accepts warmup (run_new q c, hprod_new n, hcons_new)"
  using assms
  by (simp add: ours_overwriting.sample_inv_def ours_spmc.run_inv_def run_new_def hprod_new_def hcons_new_def
      hcons_inv_def nonempty_def s_skipped_def)

text \<open>
  In the SPMC handoff benchmark over the crate's queue, whatever the interleaving and the clock,
  no step panics and no read hangs; when the consumer thread returns, the values it received and
  the skips it was told of make up all \<open>n\<close> published stamps (nothing published before \<open>done\<close> is
  missed), the values are in order, and the histogram has one sample per value after the first
  \<open>warmup\<close> results if \<open>record\<close> takes all of them, and at most so many that it takes otherwise.
\<close>

theorem spmc_handoff_accounts:
  assumes "slot_allocator allocate" "ours_spmc_new allocate z cap 1 = Inr (q, [c])" "n \<le> 2 ^ 63"
    and "threads_reach (handoff_producer_step (ours_try_publish cap) pace)
      (spmc_consumer_step (ours_try_read cap) accepts warmup) (run_new q c, hprod_new n, hcons_new) (st, p, h)"
  shows "(\<exists>s'. two_threads (handoff_producer_step (ours_try_publish cap) pace)
      (spmc_consumer_step (ours_try_read cap) accepts warmup) (st, p, h) e = Some (Inr s')) \<and>
    subseq (s_received (r_results st)) (r_log st) \<and>
    (h_phase h = Returned \<longrightarrow> length (r_log st) = n \<and>
       length (s_received (r_results st)) + s_skipped (r_results st) = n \<and>
       list_all accepts (h_hist h) \<and>
       length (h_hist h) \<le> length (s_received (drop warmup (nonempty (r_results st)))) \<and>
       (accepts = (\<lambda>_. True) \<longrightarrow> length (h_hist h) = length (s_received (drop warmup (nonempty (r_results st))))))"
proof -
  note new = ours_spmc_new_rep [OF assms(1,2)]
  let ?I = "ours_overwriting.sample_inv cap z n accepts warmup"
  have inv: "?I (st, p, h)"
    using assms(4)
  proof (rule threads_reach_invariant)
    show "?I (run_new q c, hprod_new n, hcons_new)" using sample_inv_new new by simp
    show "?I (st', p', h)" if "?I (st, p, h)" "handoff_producer_step (ours_try_publish cap) pace now (st, p) = Inr (st', p')"
      for st p h now st' p'
      using ours_overwriting.handoff_producer_inv [OF that(1), of pace now] that(2) by auto
    show "?I (st', p, h')" if "?I (st, p, h)" "spmc_consumer_step (ours_try_read cap) accepts warmup now (st, h) = Some (Inr (st', h'))"
      for st p h now st' h'
      using ours_overwriting.handoff_consumer_inv [OF that(1) assms(3), of now] that(2) by auto
  qed
  have "\<exists>s'. two_threads (handoff_producer_step (ours_try_publish cap) pace)
      (spmc_consumer_step (ours_try_read cap) accepts warmup) (st, p, h) e = Some (Inr s')"
  proof (cases e)
    case (Prod now)
    from ours_overwriting.handoff_producer_inv [OF inv, of pace now] Prod show ?thesis
      by (auto simp: two_threads_def)
  next
    case (Cons now)
    from ours_overwriting.handoff_consumer_inv [OF inv assms(3), of now] Cons show ?thesis
      by (auto simp: two_threads_def)
  qed
  moreover from inv obtain r where r: "ours_spmc.run_inv cap z st r" "h_phase h = Returned \<longrightarrow> r = length (r_log st)"
    by (auto simp: ours_overwriting.sample_inv_def)
  then have "subseq (s_received (r_results st)) (r_log st)"
    by (auto simp: ours_spmc.run_inv_def intro: subseq_order.trans prefix_imp_subseq take_is_prefix)
  ultimately show ?thesis using inv r
    by (auto simp: ours_overwriting.sample_inv_def ours_spmc.run_inv_def hcons_inv_def)
qed

definition demo_stamps_alloc :: "usize \<Rightarrow> global_options \<Rightarrow> fault + u64 bslot global_allocation" where
  "demo_stamps_alloc = global_allocate demo_os 16 8"

lemma demo_stamps_allocator: "slot_allocator demo_stamps_alloc"
  unfolding demo_stamps_alloc_def by (rule galloc.slot_allocator_axioms)

definition spmc_handoff_events :: "thread_event list" where
  "spmc_handoff_events =
     [Prod 10, Prod 12, Prod 15, Cons 16, Prod 20, Prod 25, Prod 30, Prod 35, Prod 36, Prod 0,
      Cons 40, Cons 41, Cons 0, Cons 0, Cons 0]"

lemma demo_spmc_handoff_run:
  "map_option (map_sum id (\<lambda>(st, p, h). (h_phase h, r_log st, r_results st, h_hist h)))
     (case ours_spmc_new demo_stamps_alloc 0 1 1 of
        Inr (q, [c]) \<Rightarrow> threads_run (handoff_producer_step (ours_try_publish 1) 5)
          (spmc_consumer_step (ours_try_read 1) (\<lambda>_. True) 1) (run_new q c, hprod_new 3, hcons_new) spmc_handoff_events
      | _ \<Rightarrow> None) =
   Some (Inr (Returned, [10, 20, 30], [SValue 10, SLapped 1, SValue 30, SEmpty, SEmpty], [11]))"
  by code_simp

lemma demo_spmc_handoff:
  obtains q c st p h where "ours_spmc_new demo_stamps_alloc 0 1 1 = Inr (q, [c])"
    "threads_reach (handoff_producer_step (ours_try_publish 1) 5) (spmc_consumer_step (ours_try_read 1) (\<lambda>_. True) 1)
      (run_new q c, hprod_new 3, hcons_new) (st, p, h)"
    "h_phase h = Returned" "r_log st = [10, 20, 30]"
    "r_results st = [SValue 10, SLapped 1, SValue 30, SEmpty, SEmpty]" "h_hist h = [11]"
proof -
  have "map_sum id (\<lambda>(q, cs). length cs) (ours_spmc_new demo_stamps_alloc 0 1 1) = Inr 1" by code_simp
  then obtain q cs where "ours_spmc_new demo_stamps_alloc 0 1 1 = Inr (q, cs)" "length cs = 1"
    by (cases "ours_spmc_new demo_stamps_alloc 0 1 1") auto
  then obtain c where new: "ours_spmc_new demo_stamps_alloc 0 1 1 = Inr (q, [c])"
    by (auto simp: length_Suc_conv)
  from demo_spmc_handoff_run obtain z where
    z: "threads_run (handoff_producer_step (ours_try_publish 1) 5) (spmc_consumer_step (ours_try_read 1) (\<lambda>_. True) 1)
        (run_new q c, hprod_new 3, hcons_new) spmc_handoff_events = Some (Inr z)"
      "(case z of (st, p, h) \<Rightarrow> (h_phase h, r_log st, r_results st, h_hist h)) =
        (Returned, [10, 20, 30], [SValue 10, SLapped 1, SValue 30, SEmpty, SEmpty], [11])"
    unfolding new sum.case prod.case list.case map_run_iff by blast
  obtain st p h where zz: "z = (st, p, h)" by (cases z)
  have "threads_reach (handoff_producer_step (ours_try_publish 1) 5) (spmc_consumer_step (ours_try_read 1) (\<lambda>_. True) 1)
      (run_new q c, hprod_new 3, hcons_new) (st, p, h)"
    using threads_reach_run [OF threads_init z(1)] unfolding zz .
  moreover have "h_phase h = Returned" "r_log st = [10, 20, 30]"
    "r_results st = [SValue 10, SLapped 1, SValue 30, SEmpty, SEmpty]" "h_hist h = [11]"
    using z(2) by (simp_all add: zz)
  ultimately show thesis using that [OF new] by blast
qed

theorem spmc_handoff_accounts_witness:
  "\<exists>q c st p h. ours_spmc_new demo_stamps_alloc 0 1 1 = Inr (q, [c]) \<and>
     threads_reach (handoff_producer_step (ours_try_publish 1) 5) (spmc_consumer_step (ours_try_read 1) (\<lambda>_. True) 1)
       (run_new q c, hprod_new 3, hcons_new) (st, p, h) \<and>
     h_phase h = Returned \<and> length (r_log st) = 3 \<and>
     length (s_received (r_results st)) + s_skipped (r_results st) = 3 \<and>
     subseq (s_received (r_results st)) (r_log st)"
proof -
  obtain q c st p h where d: "ours_spmc_new demo_stamps_alloc 0 1 1 = Inr (q, [c])"
    "threads_reach (handoff_producer_step (ours_try_publish 1) 5) (spmc_consumer_step (ours_try_read 1) (\<lambda>_. True) 1)
      (run_new q c, hprod_new 3, hcons_new) (st, p, h)"
    "h_phase h = Returned"
    by (rule demo_spmc_handoff)
  have "(3 :: nat) \<le> 2 ^ 63" by simp
  from spmc_handoff_accounts [OF demo_stamps_allocator d(1) this d(2)] d show ?thesis by blast
qed

definition lcons_run :: "'q \<Rightarrow> 'c \<Rightarrow> ('q, 'c, 'v) run \<times> wprod \<times> lcons" where
  "lcons_run q c = (run_new q c, wprod_new, lcons_new)"

definition ccons_run :: "'q \<Rightarrow> 'c \<Rightarrow> ('q, 'c, 'v) run \<times> wprod \<times> ccons" where
  "ccons_run q c = (run_new q c, wprod_new, ccons_new)"

lemma run_inv_new:
  fixes z :: 'a
  assumes "bcast_rep cap z [] q" "bcons_rep ([] :: 'a list) 0 c"
  shows "ours_spmc.run_inv cap z (run_new q c) 0"
  using assms by (simp add: ours_spmc.run_inv_def run_new_def s_skipped_def)

lemma lapped_reached:
  assumes "slot_allocator allocate" "ours_spmc_new allocate z cap 1 = Inr (q, [c])"
    and "threads_reach (window_producer_step (ours_try_publish cap) stop_at)
      (lapped_consumer_step (ours_try_read cap)) (lcons_run q c) (st, p, l)"
  shows "ours_overwriting.lapped_inv cap z (st, p, l)"
proof -
  note new = ours_spmc_new_rep [OF assms(1,2)]
  let ?I = "ours_overwriting.lapped_inv cap z"
  show "?I (st, p, l)"
    using assms(3)
  proof (rule threads_reach_invariant)
    have "ours_spmc.run_inv cap z (run_new q c) 0" using run_inv_new new by simp
    then show "?I (lcons_run q c)"
      unfolding ours_overwriting.lapped_inv_def lcons_run_def prod.case
      by (auto simp: lcons_new_def lcons_inv_def nonempty_def wprod_new_def run_new_def)
  qed (rule ours_overwriting.window_producer_inv ours_overwriting.lapped_consumer_inv; assumption)+
qed

text \<open>
  In every state of the lapped benchmark over the crate's queue, the figures add up: values and
  laps are the results past the first 1000 that were not empty, every histogram has one entry per
  counted result, the skips recorded are the ones announced, the producer's count is the number of
  values published, and what the consumer received and skipped is no more than that.
\<close>

theorem lapped_accounts:
  assumes "slot_allocator allocate" "ours_spmc_new allocate z cap 1 = Inr (q, [c])"
    and "threads_reach (window_producer_step (ours_try_publish cap) stop_at)
      (lapped_consumer_step (ours_try_read cap)) (lcons_run q c) (st, p, l)"
    and "length (r_log st) \<le> 2 ^ 63"
  shows "l_values l + l_lapped l = length (nonempty (r_results st)) - 1000 \<and>
    length (value_hist l) = l_values l \<and> length (lapped_hist l) = l_lapped l \<and>
    skipped_hist l = s_skips (drop 1000 (nonempty (r_results st))) \<and>
    unat (wp_i p) = length (r_log st) \<and>
    length (s_received (r_results st)) + s_skipped (r_results st) \<le> length (r_log st)"
proof -
  have "ours_overwriting.lapped_inv cap z (st, p, l)" by (rule lapped_reached [OF assms(1-3)])
  with assms(4) obtain r where r: "ours_spmc.run_inv cap z st r" "lcons_inv (r_results st) l"
    "wp_i p = of_nat (length (r_log st))"
    unfolding ours_overwriting.lapped_inv_def prod.case by blast
  have "length (r_log st) < 2 ^ 64" using assms(4) by simp
  then have "unat (wp_i p) = length (r_log st)" unfolding r(3) by (simp only: unat_of_nat_usize mod_less)
  moreover have "length (nonempty (r_results st)) - 1000 =
      length (s_received (drop 1000 (nonempty (r_results st)))) + length (s_skips (drop 1000 (nonempty (r_results st))))"
    using length_nonempty [of "drop 1000 (nonempty (r_results st))"] by (simp add: nonempty_drop)
  ultimately show ?thesis
    using r(1,2) unfolding ours_spmc.run_inv_def lcons_inv_def WARMUP_def by simp
qed

definition lapped_events :: "thread_event list" where
  "lapped_events = [Prod 10, Prod 11, Prod 12, Cons 9, Prod 20, Prod 0, Cons 8, Cons 7, Cons 0]"

lemma demo_lapped_run:
  "map_option (map_sum id (\<lambda>(st, p, l). (l_phase l, r_log st, r_results st, wp_i p)))
     (case ours_spmc_new demo_stamps_alloc 0 1 1 of
        Inr (q, [c]) \<Rightarrow> threads_run (window_producer_step (ours_try_publish 1) 15)
          (lapped_consumer_step (ours_try_read 1)) (lcons_run q c) lapped_events
      | _ \<Rightarrow> None) =
   Some (Inr (Returned, [0, 1, 2], [SLapped 2, SValue 2, SEmpty], 3))"
  by code_simp

theorem lapped_accounts_witness:
  "\<exists>q c st p l. ours_spmc_new demo_stamps_alloc 0 1 1 = Inr (q, [c]) \<and>
     threads_reach (window_producer_step (ours_try_publish 1) 15)
       (lapped_consumer_step (ours_try_read 1)) (lcons_run q c) (st, p, l) \<and>
     l_phase l = Returned \<and> unat (wp_i p) = 3 \<and> l_values l + l_lapped l = 0"
proof -
  obtain q c st' p' h' where new: "ours_spmc_new demo_stamps_alloc 0 1 1 = Inr (q, [c])"
    "threads_reach (handoff_producer_step (ours_try_publish 1) 5) (spmc_consumer_step (ours_try_read 1) (\<lambda>_. True) 1)
      (run_new q c, hprod_new 3, hcons_new) (st', p', h')"
    by (rule demo_spmc_handoff)
  from demo_lapped_run obtain x where
    x: "threads_run (window_producer_step (ours_try_publish 1) 15)
        (lapped_consumer_step (ours_try_read 1)) (lcons_run q c) lapped_events = Some (Inr x)"
      "(case x of (st, p, l) \<Rightarrow> (l_phase l, r_log st, r_results st, wp_i p)) =
        (Returned, [0, 1, 2], [SLapped 2, SValue 2, SEmpty], 3)"
    unfolding new(1) sum.case prod.case list.case map_run_iff by blast
  obtain st p l where xx: "x = (st, p, l)" by (cases x)
  from x(2) have l: "l_phase l = Returned" "r_log st = [0, 1, 2]" "r_results st = [SLapped 2, SValue 2, SEmpty]"
    "wp_i p = 3" by (simp_all add: xx)
  have reach: "threads_reach (window_producer_step (ours_try_publish 1) 15)
       (lapped_consumer_step (ours_try_read 1)) (lcons_run q c) (st, p, l)"
    using threads_reach_run [OF threads_init x(1)] unfolding xx .
  have "length (r_log st) \<le> 2 ^ 63" by (simp add: l)
  from lapped_accounts [OF demo_stamps_allocator new(1) reach this]
  have "unat (wp_i p) = 3" "l_values l + l_lapped l = 0" by (simp_all add: l nonempty_def)
  with new(1) reach l(1) show ?thesis by blast
qed

text \<open>The same of the capacity sweep, whose producer retries.\<close>

theorem capacity_accounts:
  assumes "slot_allocator allocate" "ours_spmc_new allocate z cap 1 = Inr (q, [c])"
    and "threads_reach (retry_producer_step (ours_try_publish cap) stop_at)
      (capacity_consumer_step (ours_try_read cap)) (ccons_run q c) (st, p, l)"
    and "length (r_log st) \<le> 2 ^ 63"
  shows "c_values l + c_lapped l = length (nonempty (r_results st)) - 1000 \<and>
    length (c_value_hist l) = c_values l \<and> unat (wp_i p) = length (r_log st) \<and>
    length (s_received (r_results st)) + s_skipped (r_results st) \<le> length (r_log st)"
proof -
  note new = ours_spmc_new_rep [OF assms(1,2)]
  let ?I = "ours_overwriting.sweep_inv cap z"
  have "?I (st, p, l)"
    using assms(3)
  proof (rule threads_reach_invariant)
    have "ours_spmc.run_inv cap z (run_new q c) 0" using run_inv_new new by simp
    then show "?I (ccons_run q c)"
      unfolding ours_overwriting.sweep_inv_def ccons_run_def prod.case
      by (auto simp: ccons_new_def ccons_inv_def nonempty_def wprod_new_def run_new_def)
  qed (rule ours_overwriting.retry_producer_inv ours_overwriting.capacity_consumer_inv; assumption)+
  with assms(4) obtain r where r: "ours_spmc.run_inv cap z st r" "ccons_inv (r_results st) l"
    "wp_i p = of_nat (length (r_log st))"
    unfolding ours_overwriting.sweep_inv_def prod.case by blast
  have "length (r_log st) < 2 ^ 64" using assms(4) by simp
  then have "unat (wp_i p) = length (r_log st)" unfolding r(3) by (simp only: unat_of_nat_usize mod_less)
  moreover have "length (nonempty (r_results st)) - 1000 =
      length (s_received (drop 1000 (nonempty (r_results st)))) + length (s_skips (drop 1000 (nonempty (r_results st))))"
    using length_nonempty [of "drop 1000 (nonempty (r_results st))"] by (simp add: nonempty_drop)
  ultimately show ?thesis
    using r(1,2) unfolding ours_spmc.run_inv_def ccons_inv_def WARMUP_def by simp
qed

end
