(* ===== verification/Spmc_Concurrent.thy ===== *)
theory Spmc_Concurrent
  imports Spmc_Queue Weak_Memory
begin

text \<open>
  \<open>publish\<close> and \<open>try_read\<close> of \<open>src/src/spmc\<close> as threads on \<open>Weak_Memory\<close>: one producer, any
  number of consumers (clones included), one shared access or fence per step, in any
  interleaving and with stale loads; a value is copied in \<open>n\<close> parts so that it can be torn.
  The theory shows that what a consumer's calls return is explained by the log of published
  values: whole values, in order, with every gap announced by a \<open>Lapped\<close> of its exact size.
\<close>

section \<open>The machine\<close>

text \<open>The write cursor, and the sequence number and value parts of slot \<open>j\<close>.\<close>

datatype bc_loc = WCur | SSeq nat | SData nat nat

text \<open>
  The producer: before line 139 of \<open>queue.rs\<close> (load of the cursor), 143 (odd store), 145 (fence),
  146 (part \<open>i\<close> of the value; when all are stored, the even store of line 147) and 148 (store of
  the cursor).
\<close>

datatype 'v pub_pc =
    PubIdle
  | PubLoad "'v list"
  | PubOdd "'v list" usize
  | PubFence "'v list" usize
  | PubData "'v list" usize nat
  | PubCursor "'v list" usize

text \<open>
  A consumer: outside \<open>try_read\<close>, before line 213 of \<open>consumer.rs\<close> (load of the cursor in
  \<open>is_still_empty\<close>), 171 (first load of the sequence number), 195 (part \<open>length buf\<close> of the
  value; when all are read, the fence of line 197), 198 (second load) and 187 (load of the
  cursor after a lap).
\<close>

datatype 'v sub_pc =
    SubIdle
  | SubCursor
  | SubSeq1
  | SubData usize "'v list"
  | SubSeq2 usize "'v list"
  | SubLapped

record 'v sub =
  b_pc :: "'v sub_pc"
  b_local :: bconsumer
  b_view :: "bc_loc tview"
  b_start :: nat                           \<comment> \<open>the position of the log where it began\<close>
  b_results :: "'v list read_result list"  \<comment> \<open>what its finished calls returned, in order\<close>

record 'v bc =
  wcur_h :: "(bc_loc, usize) hist"
  sseq_h :: "nat \<Rightarrow> (bc_loc, usize) hist"
  sdata_h :: "nat \<Rightarrow> nat \<Rightarrow> (bc_loc, 'v) hist"
  pub_state :: "'v pub_pc"
  pub_view :: "bc_loc tview"
  subs :: "nat \<Rightarrow> 'v sub option"
  published :: "'v list list"              \<comment> \<open>the arguments of the calls of \<open>publish\<close>\<close>

definition bc_new :: "'v list \<Rightarrow> 'v bc" where
  "bc_new zeroed =
     \<lparr>wcur_h = hist0 0, sseq_h = (\<lambda>_. hist0 0), sdata_h = (\<lambda>_ i. hist0 (zeroed ! i)),
      pub_state = PubIdle, pub_view = view0,
      subs = [0 \<mapsto> \<lparr>b_pc = SubIdle, b_local = bconsumer_new, b_view = view0, b_start = 0, b_results = []\<rparr>],
      published = []\<rparr>"

text \<open>One step of \<open>Queue::publish\<close>.\<close>

definition pub_step :: "usize \<Rightarrow> nat \<Rightarrow> nat \<Rightarrow> 'v bc \<Rightarrow> 'v bc option" where
  "pub_step cap n ts c =
     (case pub_state c of
        PubIdle \<Rightarrow> None
      | PubLoad v \<Rightarrow>
          (case load_relaxed WCur (wcur_h c) ts (pub_view c) of
             None \<Rightarrow> None
           | Some (w_pos, V) \<Rightarrow> Some (c\<lparr>pub_state := PubOdd v w_pos, pub_view := V\<rparr>))
      | PubOdd v w_pos \<Rightarrow>
          let j = slot_index cap w_pos; seq_no = w_pos * 2;
              (h, V) = store_relaxed (SSeq j) (seq_no + 1) (sseq_h c j) (pub_view c)
          in Some (c\<lparr>sseq_h := (sseq_h c)(j := h), pub_state := PubFence v w_pos, pub_view := V\<rparr>)
      | PubFence v w_pos \<Rightarrow>
          Some (c\<lparr>pub_state := PubData v w_pos 0, pub_view := fence_release (pub_view c)\<rparr>)
      | PubData v w_pos i \<Rightarrow>
          let j = slot_index cap w_pos; seq_no = w_pos * 2 in
          if i < n
          then let (h, V) = store_relaxed (SData j i) (v ! i) (sdata_h c j i) (pub_view c)
            in Some (c\<lparr>sdata_h := (sdata_h c)(j := (sdata_h c j)(i := h)),
                      pub_state := PubData v w_pos (Suc i), pub_view := V\<rparr>)
          else let (h, V) = store_release (SSeq j) (seq_no + 2) (sseq_h c j) (pub_view c)
            in Some (c\<lparr>sseq_h := (sseq_h c)(j := h), pub_state := PubCursor v w_pos, pub_view := V\<rparr>)
      | PubCursor v w_pos \<Rightarrow>
          let (h, V) = store_release WCur (w_pos + 1) (wcur_h c) (pub_view c)
          in Some (c\<lparr>wcur_h := h, pub_state := PubIdle, pub_view := V\<rparr>))"

text \<open>\<open>Consumer::try_read\<close>: the call decides on the cached cursor; then one step.\<close>

definition sub_call :: "'v sub \<Rightarrow> 'v sub" where
  "sub_call r =
     r\<lparr>b_pc := if read_cursor (b_local r) = cached_write_cursor (b_local r) then SubCursor else SubSeq1\<rparr>"

definition sub_step :: "usize \<Rightarrow> nat \<Rightarrow> nat \<Rightarrow> 'v bc \<Rightarrow> 'v sub \<Rightarrow> 'v sub option" where
  "sub_step cap n ts c r =
     (let k = b_local r;
          j = slot_index cap (read_cursor k);
          expected_seq = read_cursor k * 2 + 2
      in case b_pc r of
        SubIdle \<Rightarrow> None
      | SubCursor \<Rightarrow>
          (case load_acquire WCur (wcur_h c) ts (b_view r) of
             None \<Rightarrow> None
           | Some (w, V) \<Rightarrow>
               let k = k\<lparr>cached_write_cursor := w\<rparr>
               in Some (if read_cursor k = cached_write_cursor k
                        then r\<lparr>b_pc := SubIdle, b_local := k, b_view := V, b_results := b_results r @ [Empty]\<rparr>
                        else r\<lparr>b_pc := SubSeq1, b_local := k, b_view := V\<rparr>))
      | SubSeq1 \<Rightarrow>
          (case load_acquire (SSeq j) (sseq_h c j) ts (b_view r) of
             None \<Rightarrow> None
           | Some (seq1, V) \<Rightarrow>
               Some (r\<lparr>b_pc := if seq1 AND 1 = 1 then SubSeq1
                              else if seq1 \<noteq> expected_seq then SubLapped else SubData seq1 [],
                      b_view := V\<rparr>))
      | SubData seq1 buf \<Rightarrow>
          if length buf < n
          then (case load_relaxed (SData j (length buf)) (sdata_h c j (length buf)) ts (b_view r) of
                  None \<Rightarrow> None
                | Some (x, V) \<Rightarrow> Some (r\<lparr>b_pc := SubData seq1 (buf @ [x]), b_view := V\<rparr>))
          else Some (r\<lparr>b_pc := SubSeq2 seq1 buf, b_view := fence_acquire (b_view r)\<rparr>)
      | SubSeq2 seq1 buf \<Rightarrow>
          (case load_relaxed (SSeq j) (sseq_h c j) ts (b_view r) of
             None \<Rightarrow> None
           | Some (seq2, V) \<Rightarrow>
               Some (if seq1 = seq2
                     then r\<lparr>b_pc := SubIdle, b_local := k\<lparr>read_cursor := read_cursor k + 1\<rparr>,
                            b_view := V, b_results := b_results r @ [Value buf]\<rparr>
                     else r\<lparr>b_pc := SubSeq1, b_view := V\<rparr>))
      | SubLapped \<Rightarrow>
          (case load_acquire WCur (wcur_h c) ts (b_view r) of
             None \<Rightarrow> None
           | Some (w, V) \<Rightarrow>
               let (res, k) = lapped w k
               in Some (r\<lparr>b_pc := SubIdle, b_local := k, b_view := V, b_results := b_results r @ [res]\<rparr>)))"

text \<open>How far the results have moved a consumer along the log.\<close>

fun advance :: "'v read_result list \<Rightarrow> nat" where
  "advance [] = 0"
| "advance (Value v # rs) = Suc (advance rs)"
| "advance (Empty # rs) = advance rs"
| "advance (Lapped k # rs) = unat k + advance rs"

definition sub_pos :: "'v sub \<Rightarrow> nat" where
  "sub_pos r = b_start r + advance (b_results r)"

lemma sub_pos_simps [simp]:
  "sub_pos (r\<lparr>b_pc := pc\<rparr>) = sub_pos r" "sub_pos (r\<lparr>b_local := k\<rparr>) = sub_pos r"
  "sub_pos (r\<lparr>b_view := V\<rparr>) = sub_pos r"
  "sub_pos (r\<lparr>b_results := rs\<rparr>) = b_start r + advance rs"
  by (simp_all add: sub_pos_def)

definition sub_clone :: "'v sub \<Rightarrow> 'v sub" where
  "sub_clone r =
     \<lparr>b_pc = SubIdle, b_local = bconsumer_clone (b_local r), b_view = b_view r, b_start = sub_pos r, b_results = []\<rparr>"

datatype 'v bc_event =
    PubCall "'v list"
  | PubStep nat
  | SubCall nat
  | SubStep nat nat
  | SubClone nat nat

fun bc_step :: "usize \<Rightarrow> nat \<Rightarrow> 'v bc \<Rightarrow> 'v bc_event \<Rightarrow> 'v bc option" where
  "bc_step cap n c (PubCall v) =
     (case pub_state c of
        PubIdle \<Rightarrow>
          if length v = n then Some (c\<lparr>pub_state := PubLoad v, published := published c @ [v]\<rparr>) else None
      | _ \<Rightarrow> None)"
| "bc_step cap n c (PubStep ts) = pub_step cap n ts c"
| "bc_step cap n c (SubCall i) =
     (case subs c i of
        Some r \<Rightarrow> (case b_pc r of SubIdle \<Rightarrow> Some (c\<lparr>subs := (subs c)(i \<mapsto> sub_call r)\<rparr>) | _ \<Rightarrow> None)
      | None \<Rightarrow> None)"
| "bc_step cap n c (SubStep i ts) =
     (case subs c i of
        Some r \<Rightarrow> (case sub_step cap n ts c r of Some r' \<Rightarrow> Some (c\<lparr>subs := (subs c)(i \<mapsto> r')\<rparr>) | None \<Rightarrow> None)
      | None \<Rightarrow> None)"
| "bc_step cap n c (SubClone i j) =
     (case (subs c i, subs c j) of
        (Some r, None) \<Rightarrow> (case b_pc r of SubIdle \<Rightarrow> Some (c\<lparr>subs := (subs c)(j \<mapsto> sub_clone r)\<rparr>) | _ \<Rightarrow> None)
      | _ \<Rightarrow> None)"

fun bc_run :: "usize \<Rightarrow> nat \<Rightarrow> 'v bc \<Rightarrow> 'v bc_event list \<Rightarrow> 'v bc option" where
  "bc_run cap n c [] = Some c"
| "bc_run cap n c (e # es) = (case bc_step cap n c e of None \<Rightarrow> None | Some c' \<Rightarrow> bc_run cap n c' es)"

inductive bc_reach :: "usize \<Rightarrow> nat \<Rightarrow> 'v list \<Rightarrow> 'v bc \<Rightarrow> bool" for cap n zeroed where
  bc_init: "is_power_of_two cap \<Longrightarrow> length zeroed = n \<Longrightarrow> bc_reach cap n zeroed (bc_new zeroed)"
| bc_next: "bc_reach cap n zeroed c \<Longrightarrow> bc_step cap n c e = Some c' \<Longrightarrow> bc_reach cap n zeroed c'"

lemma bc_reach_run: "bc_reach cap n z c \<Longrightarrow> bc_run cap n c es = Some c' \<Longrightarrow> bc_reach cap n z c'"
  by (induction es arbitrary: c) (auto split: option.splits intro: bc_next)

section \<open>What explains the results of a consumer\<close>

text \<open>
  From position \<open>p\<close> of the log \<open>P\<close>: a value is the one at the position; a lap is announced only
  when more than \<open>C\<close> values lie ahead, and moves to a position of the log.
\<close>

fun explained :: "nat \<Rightarrow> 'v list \<Rightarrow> nat \<Rightarrow> 'v read_result list \<Rightarrow> bool" where
  "explained C P p [] \<longleftrightarrow> True"
| "explained C P p (Value v # rs) \<longleftrightarrow> p < length P \<and> P ! p = v \<and> explained C P (Suc p) rs"
| "explained C P p (Empty # rs) \<longleftrightarrow> explained C P p rs"
| "explained C P p (Lapped k # rs) \<longleftrightarrow>
     p + C < length P \<and> p + unat k < length P \<and> explained C P (p + unat k) rs"

lemma explained_append:
  "explained C P p (rs @ rs') \<longleftrightarrow> explained C P p rs \<and> explained C P (p + advance rs) rs'"
  by (induction C P p rs rule: explained.induct) (auto simp: add.assoc)

lemma advance_append [simp]: "advance (rs @ rs') = advance rs + advance rs'"
  by (induction rs rule: advance.induct) auto

lemma explained_grows: "explained C P p rs \<Longrightarrow> prefix P P' \<Longrightarrow> explained C P' p rs"
  by (induction C P p rs rule: explained.induct)
    (auto simp: prefix_nth dest: prefix_length_le intro: order.strict_trans2)

section \<open>Invariants of the histories and the producer\<close>

text \<open>
  The \<open>m\<close>-th value of slot \<open>j\<close> is at position \<open>j + m * C\<close> of the log; its odd and even numbers
  are entries \<open>2 * m + 1\<close> and \<open>2 * m + 2\<close> of the slot's sequence, its parts entries \<open>m + 1\<close>. The
  even entry carries the parts and the cursor, a part the odd entry, a cursor the even entries
  of everything published before it.
\<close>

definition bc_hist_inv ::
  "nat \<Rightarrow> nat \<Rightarrow> (bc_loc, usize) hist \<Rightarrow> (nat \<Rightarrow> (bc_loc, usize) hist) \<Rightarrow>
     (nat \<Rightarrow> nat \<Rightarrow> (bc_loc, 'v) hist) \<Rightarrow> 'v list list \<Rightarrow> bool" where
  "bc_hist_inv C n wh sh dh P \<longleftrightarrow>
     (\<forall>t<length wh. fst (wh ! t) = of_nat t \<and> (\<forall>j<C. 2 * visits C j t \<le> snd (wh ! t) (SSeq j))) \<and>
     (\<forall>j<C. \<forall>m. 2 * m + 1 < length (sh j) \<longrightarrow> fst (sh j ! (2 * m + 1)) = of_nat (2 * (j + m * C) + 1)) \<and>
     (\<forall>j<C. \<forall>m. 2 * m + 2 < length (sh j) \<longrightarrow>
        fst (sh j ! (2 * m + 2)) = of_nat (2 * (j + m * C) + 2) \<and> j + m * C < length P \<and>
        j + m * C \<le> snd (sh j ! (2 * m + 2)) WCur \<and>
        (\<forall>a<n. Suc m \<le> snd (sh j ! (2 * m + 2)) (SData j a))) \<and>
     (\<forall>j<C. \<forall>a<n. \<forall>m. Suc m < length (dh j a) \<longrightarrow>
        j + m * C < length P \<and> fst (dh j a ! Suc m) = P ! (j + m * C) ! a \<and>
        2 * m + 1 \<le> snd (dh j a ! Suc m) (SSeq j)) \<and>
     (\<forall>v\<in>set P. length v = n) \<and> length wh \<le> Suc (length P)"

lemma bc_hist_invD:
  assumes "bc_hist_inv C n wh sh dh P"
  shows "t < length wh \<Longrightarrow> fst (wh ! t) = of_nat t"
    "t < length wh \<Longrightarrow> j < C \<Longrightarrow> 2 * visits C j t \<le> snd (wh ! t) (SSeq j)"
    "j < C \<Longrightarrow> 2 * m + 1 < length (sh j) \<Longrightarrow> fst (sh j ! (2 * m + 1)) = of_nat (2 * (j + m * C) + 1)"
    "j < C \<Longrightarrow> 2 * m + 2 < length (sh j) \<Longrightarrow> fst (sh j ! (2 * m + 2)) = of_nat (2 * (j + m * C) + 2)"
    "j < C \<Longrightarrow> 2 * m + 2 < length (sh j) \<Longrightarrow> j + m * C < length P"
    "j < C \<Longrightarrow> 2 * m + 2 < length (sh j) \<Longrightarrow> j + m * C \<le> snd (sh j ! (2 * m + 2)) WCur"
    "j < C \<Longrightarrow> 2 * m + 2 < length (sh j) \<Longrightarrow> a < n \<Longrightarrow> Suc m \<le> snd (sh j ! (2 * m + 2)) (SData j a)"
    "j < C \<Longrightarrow> a < n \<Longrightarrow> Suc m < length (dh j a) \<Longrightarrow> j + m * C < length P"
    "j < C \<Longrightarrow> a < n \<Longrightarrow> Suc m < length (dh j a) \<Longrightarrow> fst (dh j a ! Suc m) = P ! (j + m * C) ! a"
    "j < C \<Longrightarrow> a < n \<Longrightarrow> Suc m < length (dh j a) \<Longrightarrow> 2 * m + 1 \<le> snd (dh j a ! Suc m) (SSeq j)"
    "v \<in> set P \<Longrightarrow> length v = n" "length wh \<le> Suc (length P)"
  using assms unfolding bc_hist_inv_def by blast+

lemma entry_parity:
  fixes k m :: nat
  shows "2 * k + 1 < Suc (2 * m + 2) \<Longrightarrow> 2 * k + 1 < 2 * m + 2"
    "2 * k + 2 < Suc (Suc (2 * m)) \<Longrightarrow> 2 * k + 2 < Suc (2 * m)"
  by presburger+

lemma bc_hist_call:
  assumes "bc_hist_inv C n wh sh dh P" "length v = n"
  shows "bc_hist_inv C n wh sh dh (P @ [v])"
  unfolding bc_hist_inv_def
proof (intro conjI)
  note h = bc_hist_invD [OF assms(1)]
  show "\<forall>j<C. \<forall>m. 2 * m + 2 < length (sh j) \<longrightarrow>
      fst (sh j ! (2 * m + 2)) = of_nat (2 * (j + m * C) + 2) \<and> j + m * C < length (P @ [v]) \<and>
      j + m * C \<le> snd (sh j ! (2 * m + 2)) WCur \<and> (\<forall>a<n. Suc m \<le> snd (sh j ! (2 * m + 2)) (SData j a))"
    using h(4-7) by (auto intro: less_SucI)
  show "\<forall>j<C. \<forall>a<n. \<forall>m. Suc m < length (dh j a) \<longrightarrow>
      j + m * C < length (P @ [v]) \<and> fst (dh j a ! Suc m) = (P @ [v]) ! (j + m * C) ! a \<and>
      2 * m + 1 \<le> snd (dh j a ! Suc m) (SSeq j)"
    using h(8-10) by fastforce
qed (use assms in \<open>auto simp: bc_hist_inv_def\<close>)

lemma bc_hist_cursor:
  assumes "bc_hist_inv C n wh sh dh P" "length wh \<le> length P"
    "\<And>j. j < C \<Longrightarrow> 2 * visits C j (length wh) \<le> w (SSeq j)"
  shows "bc_hist_inv C n (wh @ [(of_nat (length wh), w)]) sh dh P"
  using assms unfolding bc_hist_inv_def by (auto simp: nth_append less_Suc_eq)

lemma bc_hist_odd:
  assumes "bc_hist_inv C n wh sh dh P" "length (sh j) = Suc (2 * m)"
  shows "bc_hist_inv C n wh (sh(j := sh j @ [(of_nat (2 * (j + m * C) + 1), w)])) dh P"
  unfolding bc_hist_inv_def
proof (intro conjI allI impI)
  note h = bc_hist_invD [OF assms(1)]
  let ?sh = "sh(j := sh j @ [(of_nat (2 * (j + m * C) + 1), w)])"
  fix i k assume i: "i < C"
  { assume "2 * k + 1 < length (?sh i)"
    then show "fst (?sh i ! (2 * k + 1)) = of_nat (2 * (i + k * C) + 1)"
      using h(3) [OF i, of k] assms(2) by (cases "i = j"; cases "k = m") (auto simp: nth_append) }
  assume l: "2 * k + 2 < length (?sh i)"
  have l': "2 * k + 2 < length (sh i)"
    using l assms(2) entry_parity(2) [of k m] by (cases "i = j") auto
  have eq: "?sh i ! (2 * k + 2) = sh i ! (2 * k + 2)" using l' by auto
  show "fst (?sh i ! (2 * k + 2)) = of_nat (2 * (i + k * C) + 2)" "i + k * C < length P"
    "i + k * C \<le> snd (?sh i ! (2 * k + 2)) WCur" "\<And>a. a < n \<Longrightarrow> Suc k \<le> snd (?sh i ! (2 * k + 2)) (SData i a)"
    unfolding eq using h(4-7) [OF i l'] by auto
qed (use assms(1) in \<open>auto simp: bc_hist_inv_def\<close>)

lemma bc_hist_even:
  assumes "bc_hist_inv C n wh sh dh P" "length (sh j) = 2 * m + 2" "j + m * C < length P"
    "j + m * C \<le> w WCur" "\<And>a. a < n \<Longrightarrow> Suc m \<le> w (SData j a)"
  shows "bc_hist_inv C n wh (sh(j := sh j @ [(of_nat (2 * (j + m * C) + 2), w)])) dh P"
  unfolding bc_hist_inv_def
proof (intro conjI allI impI)
  note h = bc_hist_invD [OF assms(1)]
  let ?sh = "sh(j := sh j @ [(of_nat (2 * (j + m * C) + 2), w)])"
  fix i k assume i: "i < C"
  { assume l: "2 * k + 1 < length (?sh i)"
    have l': "2 * k + 1 < length (sh i)"
      using l assms(2) entry_parity(1) [of k m] by (cases "i = j") auto
    have eq: "?sh i ! (2 * k + 1) = sh i ! (2 * k + 1)" using l' by auto
    show "fst (?sh i ! (2 * k + 1)) = of_nat (2 * (i + k * C) + 1)"
      unfolding eq by (rule h(3) [OF i l']) }
  assume l: "2 * k + 2 < length (?sh i)"
  have "fst (?sh i ! (2 * k + 2)) = of_nat (2 * (i + k * C) + 2) \<and> i + k * C < length P \<and>
    i + k * C \<le> snd (?sh i ! (2 * k + 2)) WCur \<and> (\<forall>a<n. Suc k \<le> snd (?sh i ! (2 * k + 2)) (SData i a))"
  proof (cases "i = j \<and> k = m")
    case True
    with assms show ?thesis by (simp add: nth_append)
  next
    case False
    have l': "2 * k + 2 < length (sh i)"
      using l False assms(2) by (cases "i = j") auto
    then have "?sh i ! (2 * k + 2) = sh i ! (2 * k + 2)" by auto
    with h(4-7) [OF i l'] show ?thesis by simp
  qed
  then show "fst (?sh i ! (2 * k + 2)) = of_nat (2 * (i + k * C) + 2)" "i + k * C < length P"
    "i + k * C \<le> snd (?sh i ! (2 * k + 2)) WCur" "\<And>a. a < n \<Longrightarrow> Suc k \<le> snd (?sh i ! (2 * k + 2)) (SData i a)"
    by blast+
qed (use assms(1) in \<open>auto simp: bc_hist_inv_def\<close>)

lemma bc_hist_part:
  assumes "bc_hist_inv C n wh sh dh P" "length (dh j i) = Suc m" "j + m * C < length P"
    "x = P ! (j + m * C) ! i" "2 * m + 1 \<le> w (SSeq j)"
  shows "bc_hist_inv C n wh sh (dh(j := (dh j)(i := dh j i @ [(x, w)]))) P"
proof -
  note h = bc_hist_invD [OF assms(1)]
  let ?dh = "dh(j := (dh j)(i := dh j i @ [(x, w)]))"
  have "j' + k * C < length P \<and> fst (?dh j' a ! Suc k) = P ! (j' + k * C) ! a \<and>
      2 * k + 1 \<le> snd (?dh j' a ! Suc k) (SSeq j')"
    if "j' < C" "a < n" "Suc k < length (?dh j' a)" for j' a k
  proof (cases "j' = j \<and> a = i \<and> k = m")
    case True
    with assms(2-5) show ?thesis by (simp add: nth_append)
  next
    case False
    have l: "Suc k < length (dh j' a)" using that(3) False assms(2) by (auto split: if_splits)
    then have "?dh j' a ! Suc k = dh j' a ! Suc k" by auto
    with h(8-10) [OF that(1,2) l] show ?thesis by simp
  qed
  then show ?thesis
    unfolding bc_hist_inv_def
    by (intro conjI allI impI) (use assms(1) in \<open>auto simp: bc_hist_inv_def\<close>)
qed

text \<open>How far the current call of \<open>publish\<close> is: entries added to its slot's histories.\<close>

fun pub_seq :: "'v pub_pc \<Rightarrow> nat" where
  "pub_seq (PubFence v w) = 1"
| "pub_seq (PubData v w i) = 1"
| "pub_seq (PubCursor v w) = 2"
| "pub_seq _ = 0"

fun pub_parts :: "nat \<Rightarrow> 'v pub_pc \<Rightarrow> nat" where
  "pub_parts n (PubData v w i) = i"
| "pub_parts n (PubCursor v w) = n"
| "pub_parts n _ = 0"

fun pub_regs :: "nat \<Rightarrow> nat \<Rightarrow> nat \<Rightarrow> 'v list list \<Rightarrow> bc_loc tview \<Rightarrow> 'v pub_pc \<Rightarrow> bool" where
  "pub_regs C n w P V PubIdle \<longleftrightarrow> length P = w"
| "pub_regs C n w P V (PubLoad v) \<longleftrightarrow> length P = Suc w \<and> v = P ! w"
| "pub_regs C n w P V (PubOdd v x) \<longleftrightarrow> length P = Suc w \<and> v = P ! w \<and> x = of_nat w"
| "pub_regs C n w P V (PubFence v x) \<longleftrightarrow> length P = Suc w \<and> v = P ! w \<and> x = of_nat w"
| "pub_regs C n w P V (PubData v x i) \<longleftrightarrow>
     length P = Suc w \<and> v = P ! w \<and> x = of_nat w \<and> i \<le> n \<and> 2 * (w div C) + 1 \<le> rel V (SSeq (w mod C))"
| "pub_regs C n w P V (PubCursor v x) \<longleftrightarrow> length P = Suc w \<and> v = P ! w \<and> x = of_nat w"

text \<open>\<open>w\<close> values have been published and the cursor says so.\<close>

definition bc_pub_inv ::
  "nat \<Rightarrow> nat \<Rightarrow> nat \<Rightarrow> (bc_loc, usize) hist \<Rightarrow> (nat \<Rightarrow> (bc_loc, usize) hist) \<Rightarrow>
     (nat \<Rightarrow> nat \<Rightarrow> (bc_loc, 'v) hist) \<Rightarrow> 'v list list \<Rightarrow> bc_loc tview \<Rightarrow> 'v pub_pc \<Rightarrow> bool" where
  "bc_pub_inv C n w wh sh dh P V pc \<longleftrightarrow>
     0 < C \<and> bc_hist_inv C n wh sh dh P \<and> length wh = Suc w \<and> pub_regs C n w P V pc \<and>
     (\<forall>j<C. length (sh j) = Suc (2 * visits C j w + (if j = w mod C then pub_seq pc else 0))) \<and>
     (\<forall>j<C. \<forall>a<n. length (dh j a) =
        Suc (visits C j w + (if j = w mod C \<and> a < pub_parts n pc then 1 else 0))) \<and>
     cur V WCur = w \<and> (\<forall>j<C. Suc (cur V (SSeq j)) = length (sh j)) \<and>
     (\<forall>j<C. \<forall>a<n. Suc (cur V (SData j a)) = length (dh j a))"

lemma bc_pub_invD:
  assumes "bc_pub_inv C n w wh sh dh P V pc"
  shows "0 < C" "bc_hist_inv C n wh sh dh P" "length wh = Suc w" "pub_regs C n w P V pc"
    "j < C \<Longrightarrow> length (sh j) = Suc (2 * visits C j w + (if j = w mod C then pub_seq pc else 0))"
    "j < C \<Longrightarrow> a < n \<Longrightarrow> length (dh j a) =
       Suc (visits C j w + (if j = w mod C \<and> a < pub_parts n pc then 1 else 0))"
    "cur V WCur = w" "j < C \<Longrightarrow> Suc (cur V (SSeq j)) = length (sh j)"
    "j < C \<Longrightarrow> a < n \<Longrightarrow> Suc (cur V (SData j a)) = length (dh j a)"
  using assms unfolding bc_pub_inv_def by blast+

lemma pub_inv_call:
  assumes "bc_pub_inv C n w wh sh dh P V PubIdle" "length v = n"
  shows "bc_pub_inv C n w wh sh dh (P @ [v]) V (PubLoad v)"
  using assms by (auto simp: bc_pub_inv_def bc_hist_call)

lemma pub_inv_load:
  assumes "bc_pub_inv C n w wh sh dh P V (PubLoad v)" "load_relaxed WCur wh ts V = Some (x, W)"
  shows "bc_pub_inv C n w wh sh dh P W (PubOdd v x)"
proof -
  note i = bc_pub_invD [OF assms(1)] and l = load_relaxed_Some [OF assms(2)]
  have "ts = w" using l(1,2) i(3,7) by simp
  with l(1,3) bc_hist_invD(1) [OF i(2)] have "x = of_nat w" by simp
  with assms(1) l(4) \<open>ts = w\<close> show ?thesis by (auto simp: bc_pub_inv_def)
qed

lemma pub_inv_odd:
  assumes "bc_pub_inv C n w wh sh dh P V (PubOdd v x)"
    and "store_relaxed (SSeq (w mod C)) (of_nat (2 * w + 1)) (sh (w mod C)) V = (h, W)"
  shows "bc_pub_inv C n w wh (sh(w mod C := h)) dh P W (PubFence v x)" "prefix (sh (w mod C)) h"
proof -
  note i = bc_pub_invD [OF assms(1)]
  let ?j = "w mod C"
  have j: "?j < C" using i(1) by simp
  from assms(2) have h: "h = sh ?j @ [(of_nat (2 * w + 1), (rel V)(SSeq ?j := length (sh ?j)))]"
    and W: "cur W = (cur V)(SSeq ?j := length (sh ?j))"
    by (auto simp: store_relaxed_def)
  show "prefix (sh ?j) h" by (simp add: h)
  have len: "length (sh ?j) = Suc (2 * (w div C))" using i(5) [OF j] by (simp add: visits_self i(1))
  have "?j + w div C * C = w" by simp
  with bc_hist_odd [OF i(2) len] have "bc_hist_inv C n wh (sh(?j := h)) dh P" unfolding h by metis
  with i show "bc_pub_inv C n w wh (sh(?j := h)) dh P W (PubFence v x)"
    unfolding bc_pub_inv_def by (auto simp: W h)
qed

lemma pub_inv_fence:
  assumes "bc_pub_inv C n w wh sh dh P V (PubFence v x)"
  shows "bc_pub_inv C n w wh sh dh P (fence_release V) (PubData v x 0)"
proof -
  note i = bc_pub_invD [OF assms(1)]
  have j: "w mod C < C" using i(1) by simp
  have "Suc (cur V (SSeq (w mod C))) = Suc (2 * (w div C) + 1)"
    using i(5) [OF j] i(8) [OF j] by (simp add: visits_self i(1))
  with assms show ?thesis by (auto simp: bc_pub_inv_def)
qed

lemma pub_inv_part:
  assumes "bc_pub_inv C n w wh sh dh P V (PubData v x i)" "i < n"
    and "store_relaxed (SData (w mod C) i) (v ! i) (dh (w mod C) i) V = (h, W)"
  shows "bc_pub_inv C n w wh sh (dh(w mod C := (dh (w mod C))(i := h))) P W (PubData v x (Suc i))"
    "prefix (dh (w mod C) i) h"
proof -
  note iv = bc_pub_invD [OF assms(1)]
  let ?j = "w mod C"
  have j: "?j < C" using iv(1) by simp
  from assms(3) have h: "h = dh ?j i @ [(v ! i, (rel V)(SData ?j i := length (dh ?j i)))]"
    and W: "cur W = (cur V)(SData ?j i := length (dh ?j i))" "rel W = rel V"
    by (auto simp: store_relaxed_def)
  show "prefix (dh ?j i) h" by (simp add: h)
  have len: "length (dh ?j i) = Suc (w div C)"
    using iv(6) [OF j assms(2)] by (simp add: visits_self iv(1))
  have pos: "?j + w div C * C = w" by simp
  from iv(4) have regs: "length P = Suc w" "v = P ! w" "2 * (w div C) + 1 \<le> rel V (SSeq ?j)" by auto
  have "bc_hist_inv C n wh sh (dh(?j := (dh ?j)(i := h))) P"
    unfolding h by (rule bc_hist_part [OF iv(2) len]) (use regs in \<open>simp_all add: pos\<close>)
  with iv assms(2) show "bc_pub_inv C n w wh sh (dh(?j := (dh ?j)(i := h))) P W (PubData v x (Suc i))"
    unfolding bc_pub_inv_def by (auto simp: W h less_Suc_eq)
qed

lemma pub_inv_even:
  assumes "bc_pub_inv C n w wh sh dh P V (PubData v x i)" "\<not> i < n"
    and "store_release (SSeq (w mod C)) (of_nat (2 * w + 2)) (sh (w mod C)) V = (h, W)"
  shows "bc_pub_inv C n w wh (sh(w mod C := h)) dh P W (PubCursor v x)" "prefix (sh (w mod C)) h"
proof -
  note iv = bc_pub_invD [OF assms(1)]
  let ?j = "w mod C"
  have j: "?j < C" using iv(1) by simp
  from assms(3) have h: "h = sh ?j @ [(of_nat (2 * w + 2), (cur V)(SSeq ?j := length (sh ?j)))]"
    and W: "cur W = (cur V)(SSeq ?j := length (sh ?j))"
    by (auto simp: store_release_def)
  show "prefix (sh ?j) h" by (simp add: h)
  have len: "length (sh ?j) = 2 * (w div C) + 2" using iv(5) [OF j] by (simp add: visits_self iv(1))
  have pos: "?j + w div C * C = w" by simp
  from iv(4) assms(2) have regs: "length P = Suc w" "i = n" by auto
  have parts: "Suc (w div C) \<le> cur V (SData ?j a)" if "a < n" for a
    using iv(6,9) [OF j that] that regs(2) by (simp add: visits_self iv(1))
  have "bc_hist_inv C n wh (sh(?j := sh ?j @ [(of_nat (2 * (?j + w div C * C) + 2), (cur V)(SSeq ?j := length (sh ?j)))])) dh P"
    by (rule bc_hist_even [OF iv(2) len]) (use regs iv(7) parts in \<open>simp_all add: pos\<close>)
  then have "bc_hist_inv C n wh (sh(?j := h)) dh P" unfolding h pos .
  with iv regs(2) show "bc_pub_inv C n w wh (sh(?j := h)) dh P W (PubCursor v x)"
    unfolding bc_pub_inv_def by (auto simp: W h)
qed

lemma pub_inv_cursor:
  assumes "bc_pub_inv C n w wh sh dh P V (PubCursor v x)"
    and "store_release WCur (of_nat (Suc w)) wh V = (h, W)"
  shows "bc_pub_inv C n (Suc w) h sh dh P W PubIdle" "prefix wh h"
proof -
  note iv = bc_pub_invD [OF assms(1)]
  from assms(2) have h: "h = wh @ [(of_nat (length wh), (cur V)(WCur := length wh))]"
    and W: "cur W = (cur V)(WCur := length wh)"
    using iv(3) by (auto simp: store_release_def)
  show "prefix wh h" by (simp add: h)
  have lens: "length (sh j) = Suc (2 * visits C j (Suc w))" if "j < C" for j
    using iv(5) [OF that] by auto
  have parts: "length (dh j a) = Suc (visits C j (Suc w))" if "j < C" "a < n" for j a
    using iv(6) [OF that] that by auto
  have "bc_hist_inv C n h sh dh P"
    unfolding h by (rule bc_hist_cursor [OF iv(2)]) (use iv(3,4,8) lens in fastforce)+
  with iv lens parts show "bc_pub_inv C n (Suc w) h sh dh P W PubIdle"
    unfolding bc_pub_inv_def by (auto simp: W h simp del: visits.simps)
qed

definition pub_inv :: "usize \<Rightarrow> nat \<Rightarrow> 'v bc \<Rightarrow> bool" where
  "pub_inv cap n c \<longleftrightarrow>
     is_power_of_two cap \<and>
     (\<exists>w. bc_pub_inv (unat cap) n w (wcur_h c) (sseq_h c) (sdata_h c) (published c) (pub_view c) (pub_state c))"

text \<open>What a consumer relies on: the histories and the log only grow.\<close>

definition bc_grows :: "'v bc \<Rightarrow> 'v bc \<Rightarrow> bool" where
  "bc_grows c c' \<longleftrightarrow>
     prefix (wcur_h c) (wcur_h c') \<and> (\<forall>j. prefix (sseq_h c j) (sseq_h c' j)) \<and>
     (\<forall>j a. prefix (sdata_h c j a) (sdata_h c' j a)) \<and> prefix (published c) (published c')"

lemma bc_grows_refl [simp]: "bc_grows c c"
  by (simp add: bc_grows_def)

lemma pub_step_inv:
  assumes "pub_inv cap n c" "pub_step cap n ts c = Some c'"
  shows "pub_inv cap n c' \<and> bc_grows c c' \<and> subs c' = subs c"
proof -
  let ?C = "unat cap"
  from assms(1) obtain w where p2: "is_power_of_two cap" and
    inv: "bc_pub_inv ?C n w (wcur_h c) (sseq_h c) (sdata_h c) (published c) (pub_view c) (pub_state c)"
    by (auto simp: pub_inv_def)
  note regs = bc_pub_invD(4) [OF inv]
  have ix: "slot_index cap (of_nat w) = w mod ?C" by (rule slot_index_of_nat [OF p2])
  have nums: "(of_nat w :: usize) * 2 + 1 = of_nat (2 * w + 1)" "(of_nat w :: usize) * 2 + 2 = of_nat (2 * w + 2)"
    "(of_nat w :: usize) + 1 = of_nat (Suc w)" by simp_all
  show ?thesis
  proof (cases "pub_state c")
    case PubIdle
    with assms(2) show ?thesis by (simp add: pub_step_def)
  next
    case (PubLoad v)
    with assms(2) obtain x W where ld: "load_relaxed WCur (wcur_h c) ts (pub_view c) = Some (x, W)"
      and c': "c' = c\<lparr>pub_state := PubOdd v x, pub_view := W\<rparr>"
      by (auto simp: pub_step_def split: option.splits)
    from pub_inv_load [OF inv [unfolded PubLoad] ld] p2 show ?thesis
      by (auto simp: c' pub_inv_def bc_grows_def)
  next
    case (PubOdd v x)
    with regs have x: "x = of_nat w" by simp
    obtain h W where st: "store_relaxed (SSeq (w mod ?C)) (of_nat (2 * w + 1)) (sseq_h c (w mod ?C)) (pub_view c) = (h, W)"
      by (metis surj_pair)
    have c': "c' = c\<lparr>sseq_h := (sseq_h c)(w mod ?C := h), pub_state := PubFence v x, pub_view := W\<rparr>"
      using assms(2) PubOdd st by (simp add: pub_step_def Let_def x ix nums(1) del: of_nat_add of_nat_mult)
    from pub_inv_odd [OF inv [unfolded PubOdd] st] p2 show ?thesis
      by (auto simp: c' pub_inv_def bc_grows_def)
  next
    case (PubFence v x)
    from pub_inv_fence [OF inv [unfolded PubFence]] p2 assms(2) PubFence show ?thesis
      by (auto simp: pub_step_def pub_inv_def bc_grows_def)
  next
    case (PubData v x i)
    with regs have x: "x = of_nat w" by simp
    show ?thesis
    proof (cases "i < n")
      case True
      obtain h W where st: "store_relaxed (SData (w mod ?C) i) (v ! i) (sdata_h c (w mod ?C) i) (pub_view c) = (h, W)"
        by (metis surj_pair)
      have c': "c' = c\<lparr>sdata_h := (sdata_h c)(w mod ?C := (sdata_h c (w mod ?C))(i := h)),
          pub_state := PubData v x (Suc i), pub_view := W\<rparr>"
        using assms(2) PubData st True by (simp add: pub_step_def Let_def x ix)
      from pub_inv_part [OF inv [unfolded PubData] True st] p2 show ?thesis
        by (auto simp: c' pub_inv_def bc_grows_def)
    next
      case False
      obtain h W where st: "store_release (SSeq (w mod ?C)) (of_nat (2 * w + 2)) (sseq_h c (w mod ?C)) (pub_view c) = (h, W)"
        by (metis surj_pair)
      have c': "c' = c\<lparr>sseq_h := (sseq_h c)(w mod ?C := h), pub_state := PubCursor v x, pub_view := W\<rparr>"
        using assms(2) PubData st False
        by (simp add: pub_step_def Let_def x ix nums(2) del: of_nat_add of_nat_mult)
      from pub_inv_even [OF inv [unfolded PubData] False st] p2 show ?thesis
        by (auto simp: c' pub_inv_def bc_grows_def)
    qed
  next
    case (PubCursor v x)
    with regs have x: "x = of_nat w" by simp
    obtain h W where st: "store_release WCur (of_nat (Suc w)) (wcur_h c) (pub_view c) = (h, W)"
      by (metis surj_pair)
    have c': "c' = c\<lparr>wcur_h := h, pub_state := PubIdle, pub_view := W\<rparr>"
      using assms(2) PubCursor st by (simp add: pub_step_def Let_def x nums(3) del: of_nat_Suc)
    from pub_inv_cursor [OF inv [unfolded PubCursor] st] p2 show ?thesis
      by (auto simp: c' pub_inv_def bc_grows_def)
  qed
qed

section \<open>Invariants of the consumers\<close>

text \<open>The parts read so far: none older than the value wanted, none newer than the view \<open>b\<close>.\<close>

definition sub_parts :: "nat \<Rightarrow> (nat \<Rightarrow> (bc_loc, 'v) hist) \<Rightarrow> nat \<Rightarrow> nat \<Rightarrow> 'v list \<Rightarrow> bool" where
  "sub_parts n dj k b buf \<longleftrightarrow>
     length buf \<le> n \<and>
     (\<forall>a<length buf. \<exists>m. Suc m < length (dj a) \<and> k \<le> m \<and> buf ! a = fst (dj a ! Suc m) \<and> 2 * m + 1 \<le> b)"

lemma sub_parts_mono:
  assumes "sub_parts n dj k b buf" "b \<le> b'" "\<And>a. prefix (dj a) (dj' a)"
  shows "sub_parts n dj' k b' buf"
  unfolding sub_parts_def
proof (intro conjI allI impI)
  fix a assume "a < length buf"
  with assms(1) obtain m where "Suc m < length (dj a)" "k \<le> m" "buf ! a = fst (dj a ! Suc m)" "2 * m + 1 \<le> b"
    by (auto simp: sub_parts_def)
  with assms(2) prefix_length_le [OF assms(3) [of a]] prefix_nth [OF assms(3) [of a]]
  show "\<exists>m. Suc m < length (dj' a) \<and> k \<le> m \<and> buf ! a = fst (dj' a ! Suc m) \<and> 2 * m + 1 \<le> b'"
    by (intro exI [of _ m]) auto
qed (use assms(1) in \<open>simp add: sub_parts_def\<close>)

text \<open>\<open>R\<close> and \<open>w\<close> are the unbounded values of the two cursors of the consumer.\<close>

fun sub_regs ::
  "nat \<Rightarrow> nat \<Rightarrow> (nat \<Rightarrow> (bc_loc, 'v) hist) \<Rightarrow> nat \<Rightarrow> bc_loc tview \<Rightarrow> nat \<Rightarrow> nat \<Rightarrow> 'v sub_pc \<Rightarrow> bool" where
  "sub_regs C n dj lenP V R w SubIdle \<longleftrightarrow> True"
| "sub_regs C n dj lenP V R w SubCursor \<longleftrightarrow> True"
| "sub_regs C n dj lenP V R w SubSeq1 \<longleftrightarrow> R < w"
| "sub_regs C n dj lenP V R w (SubData s buf) \<longleftrightarrow>
     R < w \<and> s = of_nat (2 * R + 2) \<and> (\<forall>a<n. Suc (R div C) \<le> cur V (SData (R mod C) a)) \<and>
     sub_parts n dj (R div C) (acq V (SSeq (R mod C))) buf"
| "sub_regs C n dj lenP V R w (SubSeq2 s buf) \<longleftrightarrow>
     R < w \<and> s = of_nat (2 * R + 2) \<and> length buf = n \<and>
     sub_parts n dj (R div C) (cur V (SSeq (R mod C))) buf"
| "sub_regs C n dj lenP V R w SubLapped \<longleftrightarrow>
     R < w \<and> (\<exists>p. R + C \<le> p \<and> p < lenP \<and> p \<le> cur V WCur)"

definition sub_inv :: "usize \<Rightarrow> nat \<Rightarrow> 'v bc \<Rightarrow> 'v sub \<Rightarrow> bool" where
  "sub_inv cap n c r \<longleftrightarrow>
     (let C = unat cap; R = sub_pos r in
       explained C (published c) (b_start r) (b_results r) \<and>
       read_cursor (b_local r) = of_nat R \<and>
       (\<exists>w. R \<le> w \<and> w < length (wcur_h c) \<and> w \<le> cur (b_view r) WCur \<and>
          cached_write_cursor (b_local r) = of_nat w \<and>
          (\<forall>j<C. 2 * visits C j w \<le> cur (b_view r) (SSeq j)) \<and>
          sub_regs C n (sdata_h c (R mod C)) (length (published c)) (b_view r) R w (b_pc r)))"

lemma sub_invI:
  assumes "explained (unat cap) (published c) (b_start r) (b_results r)" "read_cursor (b_local r) = of_nat (sub_pos r)"
    "sub_pos r \<le> w" "w < length (wcur_h c)" "w \<le> cur (b_view r) WCur" "cached_write_cursor (b_local r) = of_nat w"
    "\<And>j. j < unat cap \<Longrightarrow> 2 * visits (unat cap) j w \<le> cur (b_view r) (SSeq j)"
    "sub_regs (unat cap) n (sdata_h c (sub_pos r mod unat cap)) (length (published c)) (b_view r) (sub_pos r) w (b_pc r)"
  shows "sub_inv cap n c r"
  unfolding sub_inv_def Let_def using assms by blast

lemma sub_invE:
  assumes "sub_inv cap n c r"
  obtains w where "explained (unat cap) (published c) (b_start r) (b_results r)"
    "read_cursor (b_local r) = of_nat (sub_pos r)"
    "sub_pos r \<le> w" "w < length (wcur_h c)" "w \<le> cur (b_view r) WCur" "cached_write_cursor (b_local r) = of_nat w"
    "\<And>j. j < unat cap \<Longrightarrow> 2 * visits (unat cap) j w \<le> cur (b_view r) (SSeq j)"
    "sub_regs (unat cap) n (sdata_h c (sub_pos r mod unat cap)) (length (published c)) (b_view r) (sub_pos r) w (b_pc r)"
  using assms unfolding sub_inv_def Let_def by blast

lemma sub_regs_grows:
  assumes "sub_regs C n dj l V R w pc" "\<And>a. prefix (dj a) (dj' a)" "l \<le> l'"
  shows "sub_regs C n dj' l' V R w pc"
proof (cases pc)
  case SubLapped
  with assms(1) obtain p where "R < w" "R + C \<le> p" "p < l" "p \<le> cur V WCur" by auto
  with assms(3) SubLapped show ?thesis by auto
qed (use assms(1) sub_parts_mono [OF _ order_refl assms(2)] in auto)

lemma sub_inv_grows:
  assumes "sub_inv cap n c r" "bc_grows c c'"
  shows "sub_inv cap n c' r"
  using assms(1)
proof (rule sub_invE)
  from assms(2) have g: "prefix (wcur_h c) (wcur_h c')" "\<And>j a. prefix (sdata_h c j a) (sdata_h c' j a)"
    "prefix (published c) (published c')"
    by (auto simp: bc_grows_def)
  fix w assume i: "explained (unat cap) (published c) (b_start r) (b_results r)"
    "read_cursor (b_local r) = of_nat (sub_pos r)"
    "sub_pos r \<le> w" "w < length (wcur_h c)" "w \<le> cur (b_view r) WCur" "cached_write_cursor (b_local r) = of_nat w"
    "\<And>j. j < unat cap \<Longrightarrow> 2 * visits (unat cap) j w \<le> cur (b_view r) (SSeq j)"
    "sub_regs (unat cap) n (sdata_h c (sub_pos r mod unat cap)) (length (published c)) (b_view r) (sub_pos r) w (b_pc r)"
  show ?thesis
    by (rule sub_invI [OF explained_grows [OF i(1) g(3)] i(2,3) _ i(5-7) sub_regs_grows [OF i(8) g(2)]])
      (use i(4) g(1,3) prefix_length_le in fastforce)+
qed

section \<open>Every step of a consumer keeps its invariant\<close>

text \<open>
  The entries of its slot that a consumer at \<open>R\<close>, below the cursor \<open>w\<close> it has seen, may still
  load: an odd one, or the even one of the value \<open>m\<close> laps ahead; the number of the latter is
  the expected one iff the value is the one at \<open>R\<close>.
\<close>

lemma slot_entry:
  assumes hist: "bc_hist_inv C n wh sh dh P" and C: "0 < C" and lim: "length P \<le> 2 ^ 63"
    and R: "R < w" "2 * visits C (R mod C) w \<le> ts" "ts < length (sh (R mod C))"
  shows "odd ts \<and> fst (sh (R mod C) ! ts) AND 1 = 1 \<or>
    (\<exists>m. R div C \<le> m \<and> ts = 2 * m + 2 \<and> fst (sh (R mod C) ! ts) AND 1 \<noteq> 1 \<and>
       (fst (sh (R mod C) ! ts) = of_nat (2 * R + 2) \<longleftrightarrow> m = R div C) \<and> R \<le> R mod C + m * C \<and>
       (m \<noteq> R div C \<longrightarrow> R + C \<le> R mod C + m * C))"
proof -
  let ?j = "R mod C"
  have j: "?j < C" using C by simp
  have R': "R = ?j + R div C * C" by simp
  note h = bc_hist_invD [OF hist]
  from visits_pos_eq [OF C R(1)] R(2) have ts: "2 * Suc (R div C) \<le> ts" by auto
  show ?thesis
  proof (cases "odd ts")
    case True
    then obtain m where m: "ts = 2 * m + 1" by (auto elim: oddE)
    from h(3) [OF j, of m] R(3) m have "fst (sh ?j ! ts) = of_nat (2 * (?j + m * C) + 1)" by simp
    then have "fst (sh ?j ! ts) AND 1 = 1" by (simp only: and_1_of_nat) simp
    with True show ?thesis by simp
  next
    case False
    then obtain k where k: "ts = 2 * k" by (auto elim: evenE)
    define m where "m = k - 1"
    have m: "ts = 2 * m + 2" "R div C \<le> m" using k ts by (simp_all add: m_def)
    let ?p = "?j + m * C"
    from h(4,5) [OF j, of m] R(3) m have v: "fst (sh ?j ! ts) = of_nat (2 * ?p + 2)" "?p < length P" by simp_all
    have even: "fst (sh ?j ! ts) AND 1 \<noteq> 1" unfolding v by (simp only: and_1_of_nat) simp
    have "R div C * C \<le> m * C" using m(2) by (rule mult_le_mono1)
    with R' have ge: "R \<le> ?p" by linarith
    have "(of_nat (2 * R + 2) :: usize) = of_nat (2 * ?p + 2) \<longleftrightarrow> 2 * R + 2 = 2 * ?p + 2"
      by (rule of_nat_eq_iff_near) (use ge v(2) lim in auto)
    then have eq: "fst (sh ?j ! ts) = of_nat (2 * R + 2) \<longleftrightarrow> R = ?p" unfolding v(1) by auto
    have lap: "R + C \<le> ?p" if "m \<noteq> R div C"
    proof -
      from that m(2) have "Suc (R div C) \<le> m" by simp
      then have "Suc (R div C) * C \<le> m * C" by (rule mult_le_mono1)
      then have "C + R div C * C \<le> m * C" by simp
      with R' show ?thesis by linarith
    qed
    have "R = ?p \<longleftrightarrow> m = R div C"
    proof
      assume "R = ?p"
      then show "m = R div C" using lap C by (cases "m = R div C") auto
    qed simp
    with eq m even ge lap show ?thesis by blast
  qed
qed

lemma sub_call_inv:
  assumes "sub_inv cap n c r" "b_pc r = SubIdle" "length (wcur_h c) \<le> Suc (length (published c))"
    "length (published c) \<le> 2 ^ 63"
  shows "sub_inv cap n c (sub_call r)"
  using assms(1)
proof (rule sub_invE)
  fix w assume i: "explained (unat cap) (published c) (b_start r) (b_results r)"
    "read_cursor (b_local r) = of_nat (sub_pos r)"
    "sub_pos r \<le> w" "w < length (wcur_h c)" "w \<le> cur (b_view r) WCur" "cached_write_cursor (b_local r) = of_nat w"
    "\<And>j. j < unat cap \<Longrightarrow> 2 * visits (unat cap) j w \<le> cur (b_view r) (SSeq j)"
  have "(of_nat (sub_pos r) :: usize) = of_nat w \<longleftrightarrow> sub_pos r = w"
    by (rule of_nat_eq_iff_near [OF i(3)]) (use i(4) assms(3,4) in simp)
  then have eq: "read_cursor (b_local r) = cached_write_cursor (b_local r) \<longleftrightarrow> sub_pos r = w"
    using i(2,6) by simp
  show ?thesis
    by (rule sub_invI [where w = w]) (use i eq in \<open>auto simp: sub_call_def\<close>)
qed

text \<open>Line 213: the cursor of \<open>is_still_empty\<close>.\<close>

lemma sub_cursor_inv:
  assumes hist: "bc_hist_inv (unat cap) n (wcur_h c) sh dh (published c)" and lim: "length (published c) \<le> 2 ^ 63"
    and inv: "sub_inv cap n c r" and pc: "b_pc r = SubCursor"
    and load: "load_acquire WCur (wcur_h c) ts (b_view r) = Some (x, V)"
  shows "sub_inv cap n c
    (if read_cursor (b_local r) = x
     then r\<lparr>b_pc := SubIdle, b_local := (b_local r)\<lparr>cached_write_cursor := x\<rparr>, b_view := V,
            b_results := b_results r @ [Empty]\<rparr>
     else r\<lparr>b_pc := SubSeq1, b_local := (b_local r)\<lparr>cached_write_cursor := x\<rparr>, b_view := V\<rparr>)"
  using inv
proof (rule sub_invE)
  note l = load_acquire_Some [OF load] and h = bc_hist_invD [OF hist]
  fix w assume i: "explained (unat cap) (published c) (b_start r) (b_results r)"
    "read_cursor (b_local r) = of_nat (sub_pos r)"
    "sub_pos r \<le> w" "w < length (wcur_h c)" "w \<le> cur (b_view r) WCur" "cached_write_cursor (b_local r) = of_nat w"
  have x: "x = of_nat ts" using l(1,3) h(1) by simp
  have ts: "sub_pos r \<le> ts" using i(3,5) l(2) by simp
  have V: "ts \<le> cur V WCur" using l(5) [of WCur] by simp
  have seqs: "2 * visits (unat cap) j ts \<le> cur V (SSeq j)" if "j < unat cap" for j
    using h(2) [OF l(1) that] l(5) [of "SSeq j"] by simp
  have "(of_nat (sub_pos r) :: usize) = of_nat ts \<longleftrightarrow> sub_pos r = ts"
    by (rule of_nat_eq_iff_near [OF ts]) (use l(1) h(12) lim in simp)
  then have eq: "read_cursor (b_local r) = x \<longleftrightarrow> sub_pos r = ts" using i(2) x by simp
  have "explained (unat cap) (published c) (b_start r) (b_results r @ [Empty])"
    using i(1) by (simp add: explained_append)
  then show ?thesis
    by (intro sub_invI [where w = ts])
      (use i(1,2) ts V seqs l(1) x eq in \<open>auto simp: sub_pos_def\<close>)
qed

text \<open>Line 171: the first load of the sequence number.\<close>

lemma sub_seq1_inv:
  assumes hist: "bc_hist_inv (unat cap) n (wcur_h c) (sseq_h c) (sdata_h c) (published c)"
    and lim: "length (published c) \<le> 2 ^ 63" and C: "0 < unat cap"
    and inv: "sub_inv cap n c r" and pc: "b_pc r = SubSeq1"
    and load: "load_acquire (SSeq (sub_pos r mod unat cap)) (sseq_h c (sub_pos r mod unat cap)) ts (b_view r) = Some (s1, V)"
  shows "sub_inv cap n c
    (r\<lparr>b_pc := if s1 AND 1 = 1 then SubSeq1
              else if s1 \<noteq> of_nat (2 * sub_pos r + 2) then SubLapped else SubData s1 [], b_view := V\<rparr>)"
  using inv
proof (rule sub_invE)
  let ?C = "unat cap" and ?R = "sub_pos r"
  let ?j = "?R mod ?C"
  note l = load_acquire_Some [OF load] and h = bc_hist_invD [OF hist]
  have j: "?j < ?C" using C by simp
  fix w assume i: "explained ?C (published c) (b_start r) (b_results r)"
    "read_cursor (b_local r) = of_nat ?R"
    "?R \<le> w" "w < length (wcur_h c)" "w \<le> cur (b_view r) WCur" "cached_write_cursor (b_local r) = of_nat w"
    "\<And>j. j < ?C \<Longrightarrow> 2 * visits ?C j w \<le> cur (b_view r) (SSeq j)"
    "sub_regs ?C n (sdata_h c ?j) (length (published c)) (b_view r) ?R w (b_pc r)"
  have R: "?R < w" using i(8) pc by simp
  have V: "cur (b_view r) x \<le> cur V x" for x using l(5) by simp
  have ts: "2 * visits ?C ?j w \<le> ts" using i(7) [OF j] l(2) by simp
  have keep: "sub_inv cap n c (r\<lparr>b_pc := pc', b_view := V\<rparr>)"
    if "sub_regs ?C n (sdata_h c ?j) (length (published c)) V ?R w pc'" for pc'
    by (rule sub_invI [where w = w])
      (use i(1-6) that order_trans [OF i(5) V] order_trans [OF i(7) V] in auto)
  from slot_entry [OF hist C lim R ts l(1)] show ?thesis
  proof (elim disjE exE conjE)
    assume "odd ts" "fst (sseq_h c ?j ! ts) AND 1 = 1"
    with l(3) keep [of SubSeq1] R show ?thesis by simp
  next
    fix m assume m: "?R div ?C \<le> m" "ts = 2 * m + 2" "fst (sseq_h c ?j ! ts) AND 1 \<noteq> 1"
      "fst (sseq_h c ?j ! ts) = of_nat (2 * ?R + 2) \<longleftrightarrow> m = ?R div ?C"
      "m \<noteq> ?R div ?C \<longrightarrow> ?R + ?C \<le> ?j + m * ?C"
    show ?thesis
    proof (cases "m = ?R div ?C")
      case True
      have "Suc (?R div ?C) \<le> cur V (SData ?j a)" if "a < n" for a
        using h(7) [OF j, of m a] l(1) m(2) that True l(5) [of "SData ?j a"] by simp
      with keep [of "SubData s1 []"] R m True l(3) show ?thesis by (simp add: sub_parts_def)
    next
      case False
      have p: "?j + m * ?C < length (published c)" "?j + m * ?C \<le> cur V WCur"
        using h(5,6) [OF j, of m] l(1) m(2) l(5) [of WCur] by simp_all
      have "sub_regs ?C n (sdata_h c ?j) (length (published c)) V ?R w SubLapped"
        using R p False m(5) by auto
      with keep [of SubLapped] m(3,4) False l(3) show ?thesis by simp
    qed
  qed
qed

text \<open>Line 195: one more part.\<close>

lemma sub_part_inv:
  assumes hist: "bc_hist_inv (unat cap) n (wcur_h c) (sseq_h c) (sdata_h c) (published c)"
    and C: "0 < unat cap" and inv: "sub_inv cap n c r" and pc: "b_pc r = SubData s1 buf" and len: "length buf < n"
    and load: "load_relaxed (SData (sub_pos r mod unat cap) (length buf))
      (sdata_h c (sub_pos r mod unat cap) (length buf)) ts (b_view r) = Some (x, V)"
  shows "sub_inv cap n c (r\<lparr>b_pc := SubData s1 (buf @ [x]), b_view := V\<rparr>)"
  using inv
proof (rule sub_invE)
  let ?C = "unat cap" and ?R = "sub_pos r"
  let ?j = "?R mod ?C"
  note l = load_relaxed_Some [OF load] and h = bc_hist_invD [OF hist]
  have j: "?j < ?C" using C by simp
  fix w assume i: "explained ?C (published c) (b_start r) (b_results r)"
    "read_cursor (b_local r) = of_nat ?R"
    "?R \<le> w" "w < length (wcur_h c)" "w \<le> cur (b_view r) WCur" "cached_write_cursor (b_local r) = of_nat w"
    "\<And>j. j < ?C \<Longrightarrow> 2 * visits ?C j w \<le> cur (b_view r) (SSeq j)"
    "sub_regs ?C n (sdata_h c ?j) (length (published c)) (b_view r) ?R w (b_pc r)"
  from i(8) pc have g: "?R < w" "s1 = of_nat (2 * ?R + 2)"
    "\<And>a. a < n \<Longrightarrow> Suc (?R div ?C) \<le> cur (b_view r) (SData ?j a)"
    "sub_parts n (sdata_h c ?j) (?R div ?C) (acq (b_view r) (SSeq ?j)) buf" by auto
  have V: "cur (b_view r) y \<le> cur V y" for y by (rule load_relaxed_grows [OF load])
  have ts: "Suc (?R div ?C) \<le> ts" using g(3) [OF len] l(2) by simp
  then obtain m where m: "ts = Suc m" "?R div ?C \<le> m" by (cases ts) auto
  have newp: "2 * m + 1 \<le> acq V (SSeq ?j)" "acq (b_view r) (SSeq ?j) \<le> acq V (SSeq ?j)"
    using h(10) [OF j len, of m] l(1) l(6) [of "SSeq ?j"] m(1) by auto
  have "sub_parts n (sdata_h c ?j) (?R div ?C) (acq V (SSeq ?j)) (buf @ [x])"
    using sub_parts_mono [OF g(4) newp(2) prefix_order.refl] newp(1) m l(1,3) len
    by (auto simp: sub_parts_def nth_append less_Suc_eq)
  with g order_trans [OF g(3) V] have
    "sub_regs ?C n (sdata_h c ?j) (length (published c)) V ?R w (SubData s1 (buf @ [x]))" by simp
  then show ?thesis
    by (intro sub_invI [where w = w])
      (use i(1-6) order_trans [OF i(5) V] order_trans [OF i(7) V] in auto)
qed

text \<open>Line 197: the acquire fence.\<close>

lemma sub_fence_inv:
  assumes inv: "sub_inv cap n c r" and pc: "b_pc r = SubData s1 buf" and len: "\<not> length buf < n"
  shows "sub_inv cap n c (r\<lparr>b_pc := SubSeq2 s1 buf, b_view := fence_acquire (b_view r)\<rparr>)"
  using inv
proof (rule sub_invE)
  let ?C = "unat cap" and ?R = "sub_pos r"
  let ?j = "?R mod ?C"
  fix w assume i: "explained ?C (published c) (b_start r) (b_results r)"
    "read_cursor (b_local r) = of_nat ?R"
    "?R \<le> w" "w < length (wcur_h c)" "w \<le> cur (b_view r) WCur" "cached_write_cursor (b_local r) = of_nat w"
    "\<And>j. j < ?C \<Longrightarrow> 2 * visits ?C j w \<le> cur (b_view r) (SSeq j)"
    "sub_regs ?C n (sdata_h c ?j) (length (published c)) (b_view r) ?R w (b_pc r)"
  let ?V = "fence_acquire (b_view r)"
  from i(8) pc have g: "?R < w" "s1 = of_nat (2 * ?R + 2)"
    "sub_parts n (sdata_h c ?j) (?R div ?C) (acq (b_view r) (SSeq ?j)) buf" by auto
  have "sub_parts n (sdata_h c ?j) (?R div ?C) (cur ?V (SSeq ?j)) buf"
    by (rule sub_parts_mono [OF g(3)]) auto
  moreover have "length buf = n" using g(3) len by (simp add: sub_parts_def)
  ultimately have "sub_regs ?C n (sdata_h c ?j) (length (published c)) ?V ?R w (SubSeq2 s1 buf)"
    using g by simp
  then show ?thesis
    by (intro sub_invI [where w = w]) (use i(1-7) in \<open>auto simp: le_max_iff_disj\<close>)
qed

text \<open>Line 198: the second load of the sequence number commits the copy or rejects it.\<close>

lemma sub_copy_is_value:
  assumes hist: "bc_hist_inv C n wh sh dh P" and C: "0 < C" and R: "R < length P"
    and parts: "sub_parts n (dh (R mod C)) (R div C) (2 * (R div C) + 2) buf" and len: "length buf = n"
  shows "P ! R = buf"
proof (rule nth_equalityI)
  note h = bc_hist_invD [OF hist]
  have j: "R mod C < C" using C by simp
  show l: "length (P ! R) = length buf" using h(11) R len by simp
  fix a assume "a < length (P ! R)"
  with l len have a: "a < length buf" "a < n" by simp_all
  with parts obtain m where m: "Suc m < length (dh (R mod C) a)" "R div C \<le> m"
    "buf ! a = fst (dh (R mod C) a ! Suc m)" "2 * m + 1 \<le> 2 * (R div C) + 2"
    by (auto simp: sub_parts_def)
  from m(4) have "m \<le> R div C" by simp
  with m(2) have "m = R div C" by simp
  with h(9) [OF j a(2) m(1)] m(3) show "P ! R ! a = buf ! a" by simp
qed

lemma sub_seq2_inv:
  assumes hist: "bc_hist_inv (unat cap) n (wcur_h c) (sseq_h c) (sdata_h c) (published c)"
    and lim: "length (published c) \<le> 2 ^ 63" and C: "0 < unat cap"
    and inv: "sub_inv cap n c r" and pc: "b_pc r = SubSeq2 s1 buf"
    and load: "load_relaxed (SSeq (sub_pos r mod unat cap)) (sseq_h c (sub_pos r mod unat cap)) ts (b_view r) = Some (s2, V)"
  shows "sub_inv cap n c
    (if s1 = s2
     then r\<lparr>b_pc := SubIdle, b_local := (b_local r)\<lparr>read_cursor := read_cursor (b_local r) + 1\<rparr>,
            b_view := V, b_results := b_results r @ [Value buf]\<rparr>
     else r\<lparr>b_pc := SubSeq1, b_view := V\<rparr>)"
  using inv
proof (rule sub_invE)
  let ?C = "unat cap" and ?R = "sub_pos r"
  let ?j = "?R mod ?C"
  note l = load_relaxed_Some [OF load] and h = bc_hist_invD [OF hist]
  have j: "?j < ?C" using C by simp
  fix w assume i: "explained ?C (published c) (b_start r) (b_results r)"
    "read_cursor (b_local r) = of_nat ?R"
    "?R \<le> w" "w < length (wcur_h c)" "w \<le> cur (b_view r) WCur" "cached_write_cursor (b_local r) = of_nat w"
    "\<And>j. j < ?C \<Longrightarrow> 2 * visits ?C j w \<le> cur (b_view r) (SSeq j)"
    "sub_regs ?C n (sdata_h c ?j) (length (published c)) (b_view r) ?R w (b_pc r)"
  from i(8) pc have g: "?R < w" "s1 = of_nat (2 * ?R + 2)" "length buf = n"
    "sub_parts n (sdata_h c ?j) (?R div ?C) (cur (b_view r) (SSeq ?j)) buf" by auto
  have V: "cur (b_view r) x \<le> cur V x" for x by (rule load_relaxed_grows [OF load])
  have ts: "2 * visits ?C ?j w \<le> ts" using i(7) [OF j] l(2) by simp
  have views: "w \<le> cur V WCur" "\<And>j. j < ?C \<Longrightarrow> 2 * visits ?C j w \<le> cur V (SSeq j)"
    using order_trans [OF i(5) V] order_trans [OF i(7) V] by auto
  show ?thesis
  proof (cases "s1 = s2")
    case False
    then show ?thesis by (intro sub_invI [where w = w]) (use i(1-6) views g(1) in auto)
  next
    case True
    have odd: "(of_nat (2 * ?R + 2) :: usize) AND 1 \<noteq> 1" by (simp only: and_1_of_nat) simp
    from slot_entry [OF hist C lim g(1) ts l(1)] True g(2) l(3) odd
    have "ts = 2 * (?R div ?C) + 2" by auto
    then have "sub_parts n (sdata_h c ?j) (?R div ?C) (2 * (?R div ?C) + 2) buf"
      by (intro sub_parts_mono [OF g(4)]) (use l(2) in auto)
    moreover have R: "?R < length (published c)" using g(1) i(4) h(12) by simp
    ultimately have "published c ! ?R = buf" using sub_copy_is_value [OF hist C] g(3) by blast
    with i(1) R have "explained ?C (published c) (b_start r) (b_results r @ [Value buf])"
      by (simp add: explained_append sub_pos_def)
    with True show ?thesis
      by (intro sub_invI [where w = w]) (use i(2-6) views g(1) in \<open>auto simp: sub_pos_def\<close>)
  qed
qed

text \<open>Line 187: the jump after a lap.\<close>

lemma sub_lapped_inv:
  assumes hist: "bc_hist_inv (unat cap) n (wcur_h c) sh dh (published c)" and lim: "length (published c) \<le> 2 ^ 63"
    and C: "0 < unat cap" and inv: "sub_inv cap n c r" and pc: "b_pc r = SubLapped"
    and load: "load_acquire WCur (wcur_h c) ts (b_view r) = Some (x, V)"
    and jump: "lapped x (b_local r) = (res, k)"
  shows "sub_inv cap n c
    (r\<lparr>b_pc := SubIdle, b_local := k, b_view := V, b_results := b_results r @ [res]\<rparr>)"
  using inv
proof (rule sub_invE)
  note l = load_acquire_Some [OF load] and h = bc_hist_invD [OF hist]
  let ?C = "unat cap" and ?R = "sub_pos r"
  fix w assume i: "explained ?C (published c) (b_start r) (b_results r)"
    "read_cursor (b_local r) = of_nat ?R"
    "?R \<le> w" "w < length (wcur_h c)" "w \<le> cur (b_view r) WCur" "cached_write_cursor (b_local r) = of_nat w"
    "sub_regs ?C n (sdata_h c (?R mod ?C)) (length (published c)) (b_view r) ?R w (b_pc r)"
  from i(7) pc obtain p where p: "?R + ?C \<le> p" "p < length (published c)" "p \<le> cur (b_view r) WCur" by auto
  have x: "x = of_nat ts" using l(1,3) h(1) by simp
  have ts: "?R + ?C \<le> ts" "ts \<le> length (published c)" using p l(1,2) h(12) by simp_all
  have V: "ts \<le> cur V WCur" using l(5) [of WCur] by simp
  have seqs: "2 * visits ?C j ts \<le> cur V (SSeq j)" if "j < ?C" for j
    using h(2) [OF l(1) that] l(5) [of "SSeq j"] by simp
  have pred: "(of_nat ts :: usize) - 1 = of_nat (ts - 1)" using ts(1) C by (simp add: of_nat_diff)
  define d where "d = ts - 1 - ?R"
  have skip: "(of_nat ts :: usize) - 1 - of_nat ?R = of_nat d"
    unfolding pred d_def using ts(1) C by (simp add: of_nat_diff)
  have res: "res = Lapped (of_nat d)"
    and k: "k = (b_local r)\<lparr>cached_write_cursor := of_nat ts, read_cursor := of_nat (ts - 1)\<rparr>"
    using jump i(2) skip pred by (auto simp: lapped_def Let_def x)
  have "d < 2 ^ 64" using ts(2) lim by (simp add: d_def)
  then have un: "unat (of_nat d :: usize) = d" unfolding unat_of_nat_usize by (rule mod_less)
  have pos: "?R + d = ts - 1" using ts(1) C by (simp add: d_def)
  have "explained ?C (published c) (b_start r) (b_results r @ [res])"
    using i(1) p ts C pos by (simp add: explained_append res un sub_pos_def)
  moreover have "b_start r + advance (b_results r @ [res]) = ts - 1"
    using pos by (simp add: res un sub_pos_def)
  ultimately show ?thesis
    by (intro sub_invI [where w = ts]) (use ts C V seqs l(1) in \<open>auto simp: k simp del: advance_append\<close>)
qed

lemma sub_step_inv:
  fixes c :: "'v bc"
  assumes pub: "pub_inv cap n c" and lim: "length (published c) \<le> 2 ^ 63"
    and inv: "sub_inv cap n c r" and step: "sub_step cap n ts c r = Some r'"
  shows "sub_inv cap n c r'"
proof -
  from pub obtain w where p2: "is_power_of_two cap" and "bc_pub_inv (unat cap) n w (wcur_h c) (sseq_h c) (sdata_h c)
      (published c) (pub_view c) (pub_state c)" by (auto simp: pub_inv_def)
  from this(2) have hist: "bc_hist_inv (unat cap) n (wcur_h c) (sseq_h c) (sdata_h c) (published c)"
    by (rule bc_pub_invD(2))
  have C: "0 < unat cap" by (rule power_of_two_pos [OF p2])
  from inv have rc: "read_cursor (b_local r) = of_nat (sub_pos r)" by (rule sub_invE)
  have ix: "slot_index cap (read_cursor (b_local r)) = sub_pos r mod unat cap"
    unfolding rc by (rule slot_index_of_nat [OF p2])
  have e: "read_cursor (b_local r) * 2 + 2 = of_nat (2 * sub_pos r + 2)" unfolding rc by simp
  note step' = step [unfolded sub_step_def Let_def ix e]
  show ?thesis
  proof (cases "b_pc r")
    case SubIdle
    with step' show ?thesis by simp
  next
    case SubCursor
    with step' obtain x V where ld: "load_acquire WCur (wcur_h c) ts (b_view r) = Some (x, V)"
      by (auto split: option.splits)
    from sub_cursor_inv [OF hist lim inv SubCursor ld] step' SubCursor ld show ?thesis by auto
  next
    case SubSeq1
    with step' obtain s1 V where
      ld: "load_acquire (SSeq (sub_pos r mod unat cap)) (sseq_h c (sub_pos r mod unat cap)) ts (b_view r) = Some (s1, V)"
      by (auto split: option.splits)
    from sub_seq1_inv [OF hist lim C inv SubSeq1 ld] step' SubSeq1 ld show ?thesis
      by (simp del: of_nat_add of_nat_mult)
  next
    case (SubData s1 buf)
    show ?thesis
    proof (cases "length buf < n")
      case True
      with step' SubData obtain x V where
        ld: "load_relaxed (SData (sub_pos r mod unat cap) (length buf)) (sdata_h c (sub_pos r mod unat cap) (length buf)) ts
          (b_view r) = Some (x, V)" by (auto split: option.splits)
      from sub_part_inv [OF hist C inv SubData True ld] step' SubData True ld show ?thesis by simp
    next
      case False
      from sub_fence_inv [OF inv SubData False] step' SubData False show ?thesis by simp
    qed
  next
    case (SubSeq2 s1 buf)
    with step' obtain s2 V where
      ld: "load_relaxed (SSeq (sub_pos r mod unat cap)) (sseq_h c (sub_pos r mod unat cap)) ts (b_view r) = Some (s2, V)"
      by (auto split: option.splits)
    from sub_seq2_inv [OF hist lim C inv SubSeq2 ld] step' SubSeq2 ld show ?thesis by simp
  next
    case SubLapped
    with step' obtain x V where ld: "load_acquire WCur (wcur_h c) ts (b_view r) = Some (x, V)"
      by (auto split: option.splits)
    obtain res :: "'v list read_result" and k where jump: "lapped x (b_local r) = (res, k)" by (metis surj_pair)
    from sub_lapped_inv [OF hist lim C inv SubLapped ld jump] step' SubLapped ld jump show ?thesis by simp
  qed
qed

lemma sub_clone_inv:
  assumes "sub_inv cap n c r"
  shows "sub_inv cap n c (sub_clone r)"
  using assms
proof (rule sub_invE)
  have pos: "sub_pos (sub_clone r) = sub_pos r" by (simp add: sub_clone_def sub_pos_def)
  fix w assume "read_cursor (b_local r) = of_nat (sub_pos r)"
    "sub_pos r \<le> w" "w < length (wcur_h c)" "w \<le> cur (b_view r) WCur" "cached_write_cursor (b_local r) = of_nat w"
    "\<And>j. j < unat cap \<Longrightarrow> 2 * visits (unat cap) j w \<le> cur (b_view r) (SSeq j)"
  then show ?thesis
    by (intro sub_invI [where w = w]) (unfold pos, auto simp: sub_clone_def bconsumer_clone_def)
qed

section \<open>The invariant of the machine\<close>

definition bc_inv :: "usize \<Rightarrow> nat \<Rightarrow> 'v bc \<Rightarrow> bool" where
  "bc_inv cap n c \<longleftrightarrow>
     pub_inv cap n c \<and>
     (length (published c) \<le> 2 ^ 63 \<longrightarrow> (\<forall>i r. subs c i = Some r \<longrightarrow> sub_inv cap n c r))"

lemma bc_inv_len: "pub_inv cap n c \<Longrightarrow> length (wcur_h c) \<le> Suc (length (published c))"
  by (auto simp: pub_inv_def dest: bc_pub_invD(2) bc_hist_invD(12))

lemma bc_inv_update:
  assumes "bc_inv cap n c" "length (published c) \<le> 2 ^ 63 \<Longrightarrow> sub_inv cap n c r"
  shows "bc_inv cap n (c\<lparr>subs := (subs c)(i \<mapsto> r)\<rparr>)"
proof -
  have "pub_inv cap n (c\<lparr>subs := s\<rparr>) = pub_inv cap n c" "sub_inv cap n (c\<lparr>subs := s\<rparr>) x = sub_inv cap n c x"
    for s x by (simp_all add: pub_inv_def sub_inv_def)
  with assms show ?thesis by (simp add: bc_inv_def)
qed

lemma bc_inv_sub:
  assumes "bc_inv cap n c" "subs c i = Some r" "length (published c) \<le> 2 ^ 63"
  shows "sub_inv cap n c r" "pub_inv cap n c"
  using assms by (auto simp: bc_inv_def)

lemma bc_step_inv:
  assumes inv: "bc_inv cap n c" and step: "bc_step cap n c e = Some c'"
  shows "bc_inv cap n c'"
proof (cases e)
  case (PubCall v)
  with step have pc: "pub_state c = PubIdle" and v: "length v = n"
    and c': "c' = c\<lparr>pub_state := PubLoad v, published := published c @ [v]\<rparr>"
    by (auto split: pub_pc.splits if_splits)
  have g: "bc_grows c c'" "subs c' = subs c" "length (published c) \<le> length (published c')"
    by (simp_all add: c' bc_grows_def)
  have "pub_inv cap n c'"
    using inv pub_inv_call [OF _ v] pc by (fastforce simp: bc_inv_def pub_inv_def c')
  with inv g sub_inv_grows [OF _ g(1)] show ?thesis by (auto simp: bc_inv_def)
next
  case (PubStep ts)
  with step have "pub_step cap n ts c = Some c'" by simp
  with pub_step_inv [of cap n c ts c'] inv have p: "pub_inv cap n c'" "bc_grows c c'" "subs c' = subs c"
    by (auto simp: bc_inv_def)
  then have "length (published c) \<le> length (published c')" by (simp add: bc_grows_def prefix_length_le)
  with p inv show ?thesis by (auto simp: bc_inv_def intro: sub_inv_grows)
next
  case (SubCall i)
  with step obtain r where r: "subs c i = Some r" "b_pc r = SubIdle" "c' = c\<lparr>subs := (subs c)(i \<mapsto> sub_call r)\<rparr>"
    by (auto split: option.splits sub_pc.splits)
  show ?thesis
    unfolding r(3)
    by (intro bc_inv_update [OF inv] sub_call_inv [OF bc_inv_sub(1) [OF inv r(1)] r(2)]
        bc_inv_len [OF bc_inv_sub(2) [OF inv r(1)]])
next
  case (SubStep i ts)
  with step obtain r r' where r: "subs c i = Some r" "sub_step cap n ts c r = Some r'" "c' = c\<lparr>subs := (subs c)(i \<mapsto> r')\<rparr>"
    by (auto split: option.splits)
  show ?thesis
    unfolding r(3)
    by (intro bc_inv_update [OF inv] sub_step_inv [OF bc_inv_sub(2) [OF inv r(1)] _ bc_inv_sub(1) [OF inv r(1)] r(2)])
next
  case (SubClone i j)
  with step obtain r where r: "subs c i = Some r" "c' = c\<lparr>subs := (subs c)(j \<mapsto> sub_clone r)\<rparr>"
    by (auto split: option.splits sub_pc.splits)
  show ?thesis
    unfolding r(2) by (intro bc_inv_update [OF inv] sub_clone_inv bc_inv_sub(1) [OF inv r(1)])
qed

lemma bc_new_inv:
  assumes "is_power_of_two cap" "length z = n"
  shows "bc_inv cap n (bc_new z)"
proof -
  have "bc_pub_inv (unat cap) n 0 (hist0 0) (\<lambda>_. hist0 0) (\<lambda>_ i. hist0 (z ! i)) [] view0 PubIdle"
    using power_of_two_pos [OF assms(1)] by (auto simp: bc_pub_inv_def bc_hist_inv_def)
  moreover have "sub_inv cap n (bc_new z)
      \<lparr>b_pc = SubIdle, b_local = bconsumer_new, b_view = view0, b_start = 0, b_results = []\<rparr>"
    by (rule sub_invI [where w = 0]) (auto simp: sub_pos_def bconsumer_new_def bc_new_def)
  ultimately show ?thesis
    using assms(1) by (auto simp: bc_inv_def pub_inv_def bc_new_def)
qed

lemma bc_reach_inv: "bc_reach cap n z c \<Longrightarrow> bc_inv cap n c"
  by (induction rule: bc_reach.induct) (auto intro: bc_new_inv bc_step_inv)

end
