(* ===== verification/Spmc_Progress.thy ===== *)
theory Spmc_Progress
  imports Spmc_Concurrent
begin

text \<open>
  What the invariant of \<open>Spmc_Concurrent\<close> gives the users of the broadcast queue: results
  explained by the log, no loss for a consumer that stays within the capacity, a producer that
  is never blocked, and, while no \<open>publish\<close> is in progress, reads that end within a bounded
  number of steps with the answer of the sequential \<open>try_read\<close> of \<open>Spmc_Queue\<close>.
\<close>

section \<open>The newest entries can be read\<close>

definition bc_newest :: "'v bc \<Rightarrow> bc_loc \<Rightarrow> nat" where
  "bc_newest c l =
     (case l of
        WCur \<Rightarrow> length (wcur_h c) - 1
      | SSeq j \<Rightarrow> length (sseq_h c j) - 1
      | SData j a \<Rightarrow> length (sdata_h c j a) - 1)"

definition bc_within :: "'v bc \<Rightarrow> bool" where
  "bc_within c \<longleftrightarrow>
     wcur_h c \<noteq> [] \<and> (\<forall>j. sseq_h c j \<noteq> []) \<and> (\<forall>j a. sdata_h c j a \<noteq> []) \<and>
     hist_within (bc_newest c) (wcur_h c) \<and> (\<forall>j. hist_within (bc_newest c) (sseq_h c j)) \<and>
     (\<forall>j a. hist_within (bc_newest c) (sdata_h c j a)) \<and>
     tview_within (bc_newest c) (pub_view c) \<and>
     (\<forall>i r. subs c i = Some r \<longrightarrow> tview_within (bc_newest c) (b_view r))"

lemma bc_newest_simps [simp]:
  "bc_newest c WCur = length (wcur_h c) - 1" "bc_newest c (SSeq j) = length (sseq_h c j) - 1"
  "bc_newest c (SData j a) = length (sdata_h c j a) - 1"
  by (simp_all add: bc_newest_def)

lemma bc_newest_cong:
  "wcur_h c' = wcur_h c \<Longrightarrow> sseq_h c' = sseq_h c \<Longrightarrow> sdata_h c' = sdata_h c \<Longrightarrow> bc_newest c' = bc_newest c"
  by (simp add: bc_newest_def fun_eq_iff split: bc_loc.split)

lemma bc_withinD:
  assumes "bc_within c"
  shows "length (wcur_h c) = Suc (bc_newest c WCur)" "length (sseq_h c j) = Suc (bc_newest c (SSeq j))"
    "length (sdata_h c j a) = Suc (bc_newest c (SData j a))"
    "hist_within (bc_newest c) (wcur_h c)" "hist_within (bc_newest c) (sseq_h c j)"
    "hist_within (bc_newest c) (sdata_h c j a)" "tview_within (bc_newest c) (pub_view c)"
    "subs c i = Some r \<Longrightarrow> tview_within (bc_newest c) (b_view r)"
  using assms by (auto simp: bc_within_def)

lemma bc_within_store:
  assumes w: "bc_within c" and mono: "\<And>l. bc_newest c l \<le> bc_newest c' l"
    and "wcur_h c' \<noteq> []" "\<And>j. sseq_h c' j \<noteq> []" "\<And>j a. sdata_h c' j a \<noteq> []" "subs c' = subs c"
    and "wcur_h c' = wcur_h c \<or> hist_within (bc_newest c') (wcur_h c')"
    and "\<And>j. sseq_h c' j = sseq_h c j \<or> hist_within (bc_newest c') (sseq_h c' j)"
    and "\<And>j a. sdata_h c' j a = sdata_h c j a \<or> hist_within (bc_newest c') (sdata_h c' j a)"
    and "tview_within (bc_newest c') (pub_view c')"
  shows "bc_within c'"
  using assms(3-) w within_mono(2,3) [of "bc_newest c" "bc_newest c'", OF mono]
  unfolding bc_within_def by metis

lemma pub_step_within:
  assumes w: "bc_within c" and step: "pub_step cap n ts c = Some c'"
  shows "bc_within c'"
proof (cases "pub_state c")
  case PubIdle
  with step show ?thesis by (simp add: pub_step_def)
next
  case (PubLoad v)
  with step obtain s V where ld: "load_relaxed WCur (wcur_h c) ts (pub_view c) = Some (s, V)"
    and c': "c' = c\<lparr>pub_state := PubOdd v s, pub_view := V\<rparr>"
    by (auto simp: pub_step_def split: option.splits)
  have "bc_newest c' = bc_newest c" by (rule bc_newest_cong) (simp_all add: c')
  with within_load_relaxed [OF ld bc_withinD(7,4) [OF w]] w show ?thesis
    by (auto simp: bc_within_def c')
next
  case (PubOdd v x)
  let ?j = "slot_index cap x"
  obtain h V where st: "store_relaxed (SSeq ?j) (x * 2 + 1) (sseq_h c ?j) (pub_view c) = (h, V)"
    by (metis surj_pair)
  with PubOdd step have c': "c' = c\<lparr>sseq_h := (sseq_h c)(?j := h), pub_state := PubFence v x, pub_view := V\<rparr>"
    by (simp add: pub_step_def Let_def)
  have h: "length h = Suc (length (sseq_h c ?j))" using st by (auto simp: store_relaxed_def)
  have mono: "bc_newest c l \<le> bc_newest c' l" for l by (cases l) (simp_all add: c' h)
  have "tview_within (bc_newest c') V \<and> hist_within (bc_newest c') h"
    by (rule within_store(2) [OF bc_withinD(7,5) [OF w] mono _ st]) (simp add: c' h)
  then show ?thesis
    by (intro bc_within_store [OF w mono]) (use h w in \<open>auto simp: c' bc_within_def\<close>)
next
  case (PubFence v x)
  with step have c': "c' = c\<lparr>pub_state := PubData v x 0, pub_view := fence_release (pub_view c)\<rparr>"
    by (simp add: pub_step_def)
  have "bc_newest c' = bc_newest c" by (rule bc_newest_cong) (simp_all add: c')
  with w within_fence(2) show ?thesis by (auto simp: bc_within_def c')
next
  case (PubData v x i)
  let ?j = "slot_index cap x"
  show ?thesis
  proof (cases "i < n")
    case True
    obtain h V where st: "store_relaxed (SData ?j i) (v ! i) (sdata_h c ?j i) (pub_view c) = (h, V)"
      by (metis surj_pair)
    with PubData True step have c': "c' = c\<lparr>sdata_h := (sdata_h c)(?j := (sdata_h c ?j)(i := h)),
        pub_state := PubData v x (Suc i), pub_view := V\<rparr>"
      by (simp add: pub_step_def Let_def)
    have h: "length h = Suc (length (sdata_h c ?j i))" using st by (auto simp: store_relaxed_def)
    have mono: "bc_newest c l \<le> bc_newest c' l" for l by (cases l) (simp_all add: c' h)
    have "tview_within (bc_newest c') V \<and> hist_within (bc_newest c') h"
      by (rule within_store(2) [OF bc_withinD(7,6) [OF w] mono _ st]) (simp add: c' h)
    then show ?thesis
      by (intro bc_within_store [OF w mono]) (use h w in \<open>auto simp: c' bc_within_def\<close>)
  next
    case False
    obtain h V where st: "store_release (SSeq ?j) (x * 2 + 2) (sseq_h c ?j) (pub_view c) = (h, V)"
      by (metis surj_pair)
    with PubData False step have c': "c' = c\<lparr>sseq_h := (sseq_h c)(?j := h), pub_state := PubCursor v x, pub_view := V\<rparr>"
      by (simp add: pub_step_def Let_def)
    have h: "length h = Suc (length (sseq_h c ?j))" using st by (auto simp: store_release_def)
    have mono: "bc_newest c l \<le> bc_newest c' l" for l by (cases l) (simp_all add: c' h)
    have "tview_within (bc_newest c') V \<and> hist_within (bc_newest c') h"
      by (rule within_store(1) [OF bc_withinD(7,5) [OF w] mono _ st]) (simp add: c' h)
    then show ?thesis
      by (intro bc_within_store [OF w mono]) (use h w in \<open>auto simp: c' bc_within_def\<close>)
  qed
next
  case (PubCursor v x)
  obtain h V where st: "store_release WCur (x + 1) (wcur_h c) (pub_view c) = (h, V)"
    by (metis surj_pair)
  with PubCursor step have c': "c' = c\<lparr>wcur_h := h, pub_state := PubIdle, pub_view := V\<rparr>"
    by (simp add: pub_step_def Let_def)
  have h: "length h = Suc (length (wcur_h c))" using st by (auto simp: store_release_def)
  have mono: "bc_newest c l \<le> bc_newest c' l" for l by (cases l) (simp_all add: c' h)
  have "tview_within (bc_newest c') V \<and> hist_within (bc_newest c') h"
    by (rule within_store(1) [OF bc_withinD(7,4) [OF w] mono _ st]) (simp add: c' h)
  then show ?thesis
    by (intro bc_within_store [OF w mono]) (use h w in \<open>auto simp: c' bc_within_def\<close>)
qed

lemma sub_step_within:
  assumes w: "bc_within c" and V: "tview_within (bc_newest c) (b_view r)"
    and step: "sub_step cap n ts c r = Some r'"
  shows "tview_within (bc_newest c) (b_view r')"
proof -
  note acq = within_load_acquire [OF _ V] and rlx = within_load_relaxed [OF _ V]
  let ?j = "slot_index cap (read_cursor (b_local r))"
  show ?thesis
  proof (cases "b_pc r")
    case SubIdle
    with step show ?thesis by (simp add: sub_step_def Let_def)
  next
    case SubCursor
    with step obtain x W where ld: "load_acquire WCur (wcur_h c) ts (b_view r) = Some (x, W)" "b_view r' = W"
      by (auto simp: sub_step_def Let_def split: option.splits if_splits)
    from acq [OF ld(1) bc_withinD(4) [OF w]] ld(2) show ?thesis by simp
  next
    case SubSeq1
    with step obtain x W where ld: "load_acquire (SSeq ?j) (sseq_h c ?j) ts (b_view r) = Some (x, W)" "b_view r' = W"
      by (auto simp: sub_step_def Let_def split: option.splits if_splits)
    from acq [OF ld(1) bc_withinD(5) [OF w]] ld(2) show ?thesis by simp
  next
    case (SubData s buf)
    show ?thesis
    proof (cases "length buf < n")
      case True
      with SubData step obtain x W where
        ld: "load_relaxed (SData ?j (length buf)) (sdata_h c ?j (length buf)) ts (b_view r) = Some (x, W)" "b_view r' = W"
        by (auto simp: sub_step_def Let_def split: option.splits)
      from rlx [OF ld(1) bc_withinD(6) [OF w]] ld(2) show ?thesis by simp
    next
      case False
      with SubData step V show ?thesis by (auto simp: sub_step_def Let_def intro: within_fence)
    qed
  next
    case (SubSeq2 s buf)
    with step obtain x W where ld: "load_relaxed (SSeq ?j) (sseq_h c ?j) ts (b_view r) = Some (x, W)" "b_view r' = W"
      by (auto simp: sub_step_def Let_def split: option.splits if_splits)
    from rlx [OF ld(1) bc_withinD(5) [OF w]] ld(2) show ?thesis by simp
  next
    case SubLapped
    with step obtain x W where ld: "load_acquire WCur (wcur_h c) ts (b_view r) = Some (x, W)" "b_view r' = W"
      by (auto simp: sub_step_def Let_def split: option.splits prod.splits)
    from acq [OF ld(1) bc_withinD(4) [OF w]] ld(2) show ?thesis by simp
  qed
qed

lemma bc_step_within:
  assumes w: "bc_within c" and step: "bc_step cap n c e = Some c'"
  shows "bc_within c'"
proof (cases e)
  case (PubStep ts)
  with w step show ?thesis by (auto intro: pub_step_within)
next
  case (SubStep i ts)
  with step obtain r r' where r: "subs c i = Some r" "sub_step cap n ts c r = Some r'"
    "c' = c\<lparr>subs := (subs c)(i \<mapsto> r')\<rparr>" by (auto split: option.splits)
  have "bc_newest c' = bc_newest c" by (rule bc_newest_cong) (simp_all add: r)
  with sub_step_within [OF w bc_withinD(8) [OF w r(1)] r(2)] w show ?thesis
    by (auto simp: bc_within_def r(3))
qed (use w step bc_newest_cong [of c' c] in
  \<open>auto simp: bc_within_def sub_call_def sub_clone_def split: if_splits option.splits pub_pc.splits sub_pc.splits\<close>)

lemma bc_reach_within: "bc_reach cap n z c \<Longrightarrow> bc_within c"
proof (induction rule: bc_reach.induct)
  case bc_init
  then show ?case by (simp add: bc_within_def bc_new_def)
qed (rule bc_step_within)

section \<open>Idle states are states of the sequential queue\<close>

definition bc_queue :: "usize \<Rightarrow> nat \<Rightarrow> 'v bc \<Rightarrow> 'v list bqueue" where
  "bc_queue cap n c =
     \<lparr>bslots = map (\<lambda>j. Some \<lparr>slot_seq = fst (last (sseq_h c j)),
        slot_data = map (\<lambda>a. fst (last (sdata_h c j a))) [0..<n]\<rparr>) [0..<unat cap],
      write_cursor = fst (last (wcur_h c))\<rparr>"

lemma bc_grows_trans: "bc_grows c c' \<Longrightarrow> bc_grows c' c'' \<Longrightarrow> bc_grows c c''"
  unfolding bc_grows_def by (meson prefix_order.trans)

lemma bc_step_grows:
  assumes "bc_inv cap n c" "bc_step cap n c e = Some c'"
  shows "bc_grows c c'"
proof (cases e)
  case (PubStep ts)
  with assms pub_step_inv [of cap n c ts c'] show ?thesis by (simp add: bc_inv_def)
qed (use assms(2) in \<open>auto simp: bc_grows_def split: if_splits option.splits pub_pc.splits sub_pc.splits\<close>)

lemma bc_reach_grows: "bc_reach cap n z c \<Longrightarrow> bc_grows (bc_new z) c \<and> length z = n"
proof (induction rule: bc_reach.induct)
  case (bc_next c e c')
  from bc_step_grows [OF bc_reach_inv [OF bc_next.hyps(1)] bc_next.hyps(2)] bc_next.IH
  show ?case by (blast intro: bc_grows_trans)
qed simp

lemma bc_reach_first:
  assumes "bc_reach cap n z c"
  shows "fst (sseq_h c j ! 0) = 0" "fst (sdata_h c j a ! 0) = z ! a" "length z = n"
proof -
  from bc_reach_grows [OF assms] have "prefix (hist0 0) (sseq_h c j)" "prefix (hist0 (z ! a)) (sdata_h c j a)"
    by (auto simp: bc_grows_def bc_new_def)
  then show "fst (sseq_h c j ! 0) = 0" "fst (sdata_h c j a ! 0) = z ! a"
    using prefix_nth [of "hist0 0" "sseq_h c j" 0] prefix_nth [of "hist0 (z ! a)" "sdata_h c j a" 0]
    by simp_all
  show "length z = n" using bc_reach_grows [OF assms] by blast
qed

lemma last_entry: "length h = Suc k \<Longrightarrow> last h = h ! k"
  by (cases h rule: rev_cases) auto

lemma bc_queue_slot:
  assumes reach: "bc_reach cap n z c" and j: "j < unat cap"
    and inv: "bc_pub_inv (unat cap) n (length (published c)) (wcur_h c) (sseq_h c) (sdata_h c) (published c) (pub_view c) PubIdle"
  shows "\<lparr>slot_seq = fst (last (sseq_h c j)), slot_data = map (\<lambda>a. fst (last (sdata_h c j a))) [0..<n]\<rparr> =
    slot_state (unat cap) z (published c) j"
proof -
  let ?P = "published c" and ?C = "unat cap"
  note i = bc_pub_invD [OF inv]
  note h = bc_hist_invD [OF i(2)]
  have ls: "length (sseq_h c j) = Suc (2 * visits ?C j (length ?P))" using i(5) [OF j] by simp
  have ld: "length (sdata_h c j a) = Suc (visits ?C j (length ?P))" if "a < n" for a using i(6) [OF j that] by simp
  show ?thesis
  proof (cases "visits ?C j (length ?P)")
    case 0
    have "map (\<lambda>a. fst (last (sdata_h c j a))) [0..<n] = map ((!) z) [0..<n]"
      using last_entry [OF ld] 0 bc_reach_first(2) [OF reach] by (intro map_cong) auto
    also have "\<dots> = z" using bc_reach_first(3) [OF reach] by (metis map_nth)
    finally show ?thesis
      using last_entry [OF ls] 0 bc_reach_first(1) [OF reach] by (simp add: slot_state_def)
  next
    case (Suc k)
    let ?p = "j + k * ?C"
    have pl: "?p < length ?P" by (rule visits_pos(1) [OF j Suc])
    have "2 * k + 2 < length (sseq_h c j)" using ls Suc by simp
    from h(4) [OF j this] last_entry [OF ls] Suc have seq: "fst (last (sseq_h c j)) = of_nat (2 * ?p + 2)" by simp
    have "fst (last (sdata_h c j a)) = ?P ! ?p ! a" if "a < n" for a
      using h(9) [OF j that, of k] ld [OF that] last_entry [OF ld [OF that]] Suc by simp
    then have "map (\<lambda>a. fst (last (sdata_h c j a))) [0..<n] = map ((!) (?P ! ?p)) [0..<n]"
      by (intro map_cong) auto
    also have "\<dots> = ?P ! ?p" using h(11) [of "?P ! ?p"] pl by (metis map_nth nth_mem)
    finally show ?thesis using seq Suc by (simp add: slot_state_def)
  qed
qed

lemma bc_queue_rep:
  assumes reach: "bc_reach cap n z c" and idle: "pub_state c = PubIdle"
  shows "bcast_rep cap z (published c) (bc_queue cap n c)"
proof -
  from bc_reach_inv [OF reach] idle obtain w where p2: "is_power_of_two cap" and
    "bc_pub_inv (unat cap) n w (wcur_h c) (sseq_h c) (sdata_h c) (published c) (pub_view c) PubIdle"
    by (auto simp: bc_inv_def pub_inv_def)
  note inv = this(2)
  then have w: "w = length (published c)" by (auto dest: bc_pub_invD(4))
  note i = bc_pub_invD [OF inv [unfolded w]]
  have "fst (last (wcur_h c)) = of_nat (length (published c))"
    using bc_hist_invD(1) [OF i(2), of "length (published c)"] i(3) last_entry [OF i(3)] by simp
  moreover have "map (\<lambda>j. Some \<lparr>slot_seq = fst (last (sseq_h c j)),
        slot_data = map (\<lambda>a. fst (last (sdata_h c j a))) [0..<n]\<rparr>) [0..<unat cap] =
      map (\<lambda>j. Some (slot_state (unat cap) z (published c) j)) [0..<unat cap]"
    using bc_queue_slot [OF reach _ inv [unfolded w]] by (intro map_cong) auto
  ultimately show ?thesis using p2 unfolding bcast_rep_def bc_queue_def bqueue.simps by blast
qed

lemma sub_inv_cons_rep:
  assumes "sub_inv cap n c r" "length (wcur_h c) \<le> Suc (length (published c))"
  shows "bcons_rep (published c) (sub_pos r) (b_local r)"
  using assms by (fastforce simp: bcons_rep_def elim!: sub_invE)

section \<open>A producer runs to its end\<close>

fun pub_rank :: "nat \<Rightarrow> 'v pub_pc \<Rightarrow> nat" where
  "pub_rank n PubIdle = 0"
| "pub_rank n (PubCursor v w) = 1"
| "pub_rank n (PubData v w i) = Suc (Suc (n - i))"
| "pub_rank n (PubFence v w) = n + 3"
| "pub_rank n (PubOdd v w) = n + 4"
| "pub_rank n (PubLoad v) = n + 5"

fun pub_finish :: "usize \<Rightarrow> nat \<Rightarrow> nat \<Rightarrow> 'v bc \<Rightarrow> 'v bc option" where
  "pub_finish cap n 0 c = Some c"
| "pub_finish cap n (Suc k) c =
     (case pub_state c of
        PubIdle \<Rightarrow> Some c
      | _ \<Rightarrow> (case pub_step cap n (bc_newest c WCur) c of None \<Rightarrow> None | Some c' \<Rightarrow> pub_finish cap n k c'))"

lemma pub_step_rank:
  "pub_step cap n ts c = Some c' \<Longrightarrow>
     pub_rank n (pub_state c') < pub_rank n (pub_state c) \<and> subs c' = subs c \<and> published c' = published c"
  by (cases "pub_state c")
    (auto simp: pub_step_def Let_def store_relaxed_def store_release_def split: option.splits if_splits)

lemma pub_step_enabled:
  assumes "bc_within c" "pub_state c \<noteq> PubIdle"
  shows "\<exists>c'. pub_step cap n (bc_newest c WCur) c = Some c'"
proof -
  from load_newest(2) [of "bc_newest c", OF bc_withinD(7,1) [OF assms(1)]] obtain V where
    "load_relaxed WCur (wcur_h c) (bc_newest c WCur) (pub_view c) = Some (fst (last (wcur_h c)), V)" by blast
  with assms(2) show ?thesis
    by (cases "pub_state c")
      (auto simp: pub_step_def Let_def store_relaxed_def store_release_def simp del: bc_newest_simps)
qed

lemma pub_finish_reach:
  "bc_reach cap n z c \<Longrightarrow> pub_rank n (pub_state c) \<le> k \<Longrightarrow>
     \<exists>c'. pub_finish cap n k c = Some c' \<and> pub_state c' = PubIdle \<and> bc_reach cap n z c' \<and>
       published c' = published c \<and> subs c' = subs c"
proof (induction k arbitrary: c)
  case 0
  then show ?case by (cases "pub_state c") auto
next
  case (Suc k)
  show ?case
  proof (cases "pub_state c = PubIdle")
    case True
    with Suc.prems show ?thesis by simp
  next
    case False
    from pub_step_enabled [OF bc_reach_within [OF Suc.prems(1)] False] obtain c1 where
      st: "pub_step cap n (bc_newest c WCur) c = Some c1" by blast
    then have ev: "bc_step cap n c (PubStep (bc_newest c WCur)) = Some c1" by simp
    note rk = pub_step_rank [OF st]
    then have "pub_rank n (pub_state c1) \<le> k" using Suc.prems(2) by simp
    from Suc.IH [OF bc_next [OF Suc.prems(1) ev] this] rk False st show ?thesis
      by (cases "pub_state c") simp_all
  qed
qed

section \<open>A consumer whose producer is idle\<close>

text \<open>The location a consumer loads next, and its run on newest entries.\<close>

definition sub_next_loc :: "usize \<Rightarrow> 'v sub \<Rightarrow> bc_loc" where
  "sub_next_loc cap r =
     (let j = slot_index cap (read_cursor (b_local r)) in
      case b_pc r of
        SubSeq1 \<Rightarrow> SSeq j
      | SubSeq2 s buf \<Rightarrow> SSeq j
      | SubData s buf \<Rightarrow> SData j (length buf)
      | _ \<Rightarrow> WCur)"

fun sub_finish :: "usize \<Rightarrow> nat \<Rightarrow> 'v bc \<Rightarrow> nat \<Rightarrow> 'v sub \<Rightarrow> 'v sub option" where
  "sub_finish cap n c 0 r = Some r"
| "sub_finish cap n c (Suc k) r =
     (if b_pc r = SubIdle then Some r
      else case sub_step cap n (bc_newest c (sub_next_loc cap r)) c r of
        None \<Rightarrow> None | Some r' \<Rightarrow> sub_finish cap n c k r')"

lemma sub_finish_idle: "b_pc r = SubIdle \<Longrightarrow> sub_finish cap n c k r = Some r"
  by (cases k) auto

lemma sub_finish_add:
  "sub_finish cap n c k r = Some r' \<Longrightarrow> sub_finish cap n c (k + m) r = sub_finish cap n c m r'"
  by (induction k arbitrary: r) (auto simp: sub_finish_idle split: if_splits option.splits)

lemma sub_finish_more:
  "sub_finish cap n c k r = Some r' \<Longrightarrow> b_pc r' = SubIdle \<Longrightarrow> k \<le> m \<Longrightarrow> sub_finish cap n c m r = Some r'"
  by (metis le_Suc_ex sub_finish_add sub_finish_idle)

lemma sub_finish_step:
  "sub_step cap n (bc_newest c (sub_next_loc cap r)) c r = Some r1 \<Longrightarrow> b_pc r \<noteq> SubIdle \<Longrightarrow>
     sub_finish cap n c (Suc k) r = sub_finish cap n c k r1"
  by simp

lemma run_sub_parts:
  assumes within: "bc_within c"
  shows "tview_within (bc_newest c) (b_view r) \<Longrightarrow> b_pc r = SubData s1 buf \<Longrightarrow> length buf + m = n \<Longrightarrow>
     \<exists>V. tview_within (bc_newest c) V \<and> sub_finish cap n c (Suc m) r =
       Some (r\<lparr>b_pc := SubSeq2 s1 (buf @ map (\<lambda>a. fst (last (sdata_h c (slot_index cap (read_cursor (b_local r))) a)))
                  [length buf..<n]), b_view := V\<rparr>)"
proof (induction m arbitrary: r buf)
  case 0
  then show ?case
    by (intro exI [of _ "fence_acquire (b_view r)"]) (simp add: sub_step_def within_fence)
next
  case (Suc m)
  let ?a = "length buf" and ?j = "slot_index cap (read_cursor (b_local r))"
  from Suc.prems(3) have a: "?a < n" by simp
  from load_newest(2) [of "bc_newest c", OF Suc.prems(1) bc_withinD(3) [OF within]] obtain V where
    ld: "load_relaxed (SData ?j ?a) (sdata_h c ?j ?a) (bc_newest c (SData ?j ?a)) (b_view r) =
      Some (fst (last (sdata_h c ?j ?a)), V)" by blast
  let ?x = "fst (last (sdata_h c ?j ?a))"
  let ?r = "r\<lparr>b_pc := SubData s1 (buf @ [?x]), b_view := V\<rparr>"
  have st: "sub_step cap n (bc_newest c (sub_next_loc cap r)) c r = Some ?r"
    using Suc.prems(2) a ld by (simp add: sub_step_def sub_next_loc_def Let_def del: bc_newest_simps)
  have "tview_within (bc_newest c) (b_view ?r)"
    by (rule sub_step_within [OF within Suc.prems(1) st])
  from Suc.IH [OF this] Suc.prems(3) obtain W where
    W: "tview_within (bc_newest c) W" "sub_finish cap n c (Suc m) ?r =
       Some (?r\<lparr>b_pc := SubSeq2 s1 ((buf @ [?x]) @ map (\<lambda>a. fst (last (sdata_h c ?j a))) [Suc ?a..<n]), b_view := W\<rparr>)"
    by fastforce
  have "map (\<lambda>a. fst (last (sdata_h c ?j a))) [?a..<n] = ?x # map (\<lambda>a. fst (last (sdata_h c ?j a))) [Suc ?a..<n]"
    using a by (simp add: upt_conv_Cons)
  with sub_finish_step [OF st] Suc.prems(2) W show ?case by auto
qed

lemma run_sub_seq2:
  assumes within: "bc_within c" and V: "tview_within (bc_newest c) (b_view r)" and pc: "b_pc r = SubSeq2 s1 buf"
    and j: "j = slot_index cap (read_cursor (b_local r))"
  obtains V where "tview_within (bc_newest c) V"
    "sub_finish cap n c (Suc 0) r =
       Some (if s1 = fst (last (sseq_h c j))
             then r\<lparr>b_pc := SubIdle, b_local := (b_local r)\<lparr>read_cursor := read_cursor (b_local r) + 1\<rparr>,
                    b_view := V, b_results := b_results r @ [Value buf]\<rparr>
             else r\<lparr>b_pc := SubSeq1, b_view := V\<rparr>)"
proof -
  from load_newest(2) [of "bc_newest c", OF V bc_withinD(2) [OF within]] obtain W where
    ld: "load_relaxed (SSeq j) (sseq_h c j) (bc_newest c (SSeq j)) (b_view r) = Some (fst (last (sseq_h c j)), W)"
    by blast
  have "tview_within (bc_newest c) W"
    by (rule within_load_relaxed [OF ld V bc_withinD(5) [OF within]]) simp
  with ld pc show thesis
    by (intro that [of W]) (simp_all add: sub_step_def sub_next_loc_def Let_def j del: bc_newest_simps)
qed

text \<open>From the first load of the sequence number, the run is the loop of the sequential \<open>try_read\<close>.\<close>

lemma run_sub_loop:
  fixes r :: "'v sub"
  assumes within: "bc_within c" and V: "tview_within (bc_newest c) (b_view r)" and pc: "b_pc r = SubSeq1"
    and slot: "bslot_at cap (bc_queue cap n c) (read_cursor (b_local r)) = Inr slot" and even: "slot_seq slot AND 1 \<noteq> 1"
  shows "\<exists>r' res. sub_finish cap n c (n + 3) r = Some r' \<and> b_pc r' = SubIdle \<and>
    b_results r' = b_results r @ [res] \<and>
    try_read_loop (bc_queue cap n c) slot (read_cursor (b_local r) * 2 + 2) (b_local r) = Some (res, b_local r')"
proof -
  let ?j = "slot_index cap (read_cursor (b_local r))" and ?e = "read_cursor (b_local r) * 2 + 2"
  let ?d = "map (\<lambda>a. fst (last (sdata_h c ?j a))) [0..<n]" and ?s = "fst (last (sseq_h c ?j))"
  from slot have sl: "slot = \<lparr>slot_seq = ?s, slot_data = ?d\<rparr>"
    by (auto simp: bslot_at_def bc_queue_def Let_def split: if_splits)
  with even have ev: "?s AND 1 \<noteq> 1" by simp
  from load_newest(1) [of "bc_newest c", OF V bc_withinD(2) [OF within]] obtain W where
    ld: "load_acquire (SSeq ?j) (sseq_h c ?j) (bc_newest c (SSeq ?j)) (b_view r) = Some (?s, W)" by blast
  let ?pc = "if ?s \<noteq> ?e then SubLapped else SubData ?s []"
  have st: "sub_step cap n (bc_newest c (sub_next_loc cap r)) c r = Some (r\<lparr>b_pc := ?pc, b_view := W\<rparr>)"
    using pc ld ev by (simp add: sub_step_def sub_next_loc_def Let_def del: bc_newest_simps)
  have W: "tview_within (bc_newest c) W" using sub_step_within [OF within V st] by simp
  show ?thesis
  proof (cases "?s = ?e")
    case False
    let ?r = "r\<lparr>b_pc := SubLapped, b_view := W\<rparr>"
    have WV: "tview_within (bc_newest c) (b_view ?r)" using W by simp
    from load_newest(1) [of "bc_newest c", OF WV bc_withinD(1) [OF within]] obtain U where
      lw: "load_acquire WCur (wcur_h c) (bc_newest c WCur) (b_view ?r) = Some (fst (last (wcur_h c)), U)" by blast
    obtain res :: "'v list read_result" and k where jump: "lapped (fst (last (wcur_h c))) (b_local r) = (res, k)" by (metis surj_pair)
    let ?r' = "r\<lparr>b_pc := SubIdle, b_local := k, b_view := U, b_results := b_results r @ [res]\<rparr>"
    have "sub_step cap n (bc_newest c (sub_next_loc cap ?r)) c ?r = Some ?r'"
      using lw jump by (simp add: sub_step_def sub_next_loc_def Let_def del: bc_newest_simps)
    then have "sub_finish cap n c (Suc (Suc 0)) r = Some ?r'"
      using st pc False by simp
    then have "sub_finish cap n c (n + 3) r = Some ?r'" by (rule sub_finish_more) simp_all
    moreover have "try_read_loop (bc_queue cap n c) slot ?e (b_local r) = Some (res, k)"
      using False ev jump by (subst try_read_loop.simps) (simp add: sl Let_def bc_queue_def)
    ultimately show ?thesis by (intro exI [of _ ?r'] exI [of _ res]) simp
  next
    case True
    let ?r = "r\<lparr>b_pc := SubData ?s [], b_view := W\<rparr>"
    from run_sub_parts [OF within, of ?r ?s "[]" n n cap] W obtain U where
      U: "tview_within (bc_newest c) U" "sub_finish cap n c (Suc n) ?r = Some (?r\<lparr>b_pc := SubSeq2 ?s ?d, b_view := U\<rparr>)"
      by auto
    let ?r2 = "?r\<lparr>b_pc := SubSeq2 ?s ?d, b_view := U\<rparr>"
    obtain X where X: "sub_finish cap n c (Suc 0) ?r2 =
       Some (?r2\<lparr>b_pc := SubIdle, b_local := (b_local r)\<lparr>read_cursor := read_cursor (b_local r) + 1\<rparr>,
                    b_view := X, b_results := b_results r @ [Value ?d]\<rparr>)"
      by (rule run_sub_seq2 [OF within, of ?r2 ?s ?d ?j cap n]) (use U(1) in auto)
    have "sub_finish cap n c (n + 3) r = sub_finish cap n c (Suc n + Suc 0) ?r"
      using sub_finish_step [OF st, of "Suc n + Suc 0"] pc True by (simp add: numeral_3_eq_3)
    also have "\<dots> = sub_finish cap n c (Suc 0) ?r2" by (rule sub_finish_add [OF U(2)])
    finally have "sub_finish cap n c (n + 3) r = sub_finish cap n c (Suc 0) ?r2" .
    note this [unfolded X]
    moreover have "try_read_loop (bc_queue cap n c) slot ?e (b_local r) =
        Some (Value ?d, (b_local r)\<lparr>read_cursor := read_cursor (b_local r) + 1\<rparr>)"
      using True ev by (subst try_read_loop.simps) (simp add: sl Let_def)
    ultimately show ?thesis by auto
  qed
qed

lemma run_sub_cursor:
  assumes within: "bc_within c" and V: "tview_within (bc_newest c) (b_view r)" and pc: "b_pc r = SubCursor"
  obtains V' where "tview_within (bc_newest c) V'"
    "sub_finish cap n c (Suc 0) r =
       Some (let k = (b_local r)\<lparr>cached_write_cursor := fst (last (wcur_h c))\<rparr> in
             if read_cursor k = cached_write_cursor k
             then r\<lparr>b_pc := SubIdle, b_local := k, b_view := V', b_results := b_results r @ [Empty]\<rparr>
             else r\<lparr>b_pc := SubSeq1, b_local := k, b_view := V'\<rparr>)"
proof -
  from load_newest(1) [of "bc_newest c", OF V bc_withinD(1) [OF within]] obtain W where
    ld: "load_acquire WCur (wcur_h c) (bc_newest c WCur) (b_view r) = Some (fst (last (wcur_h c)), W)" by blast
  have "tview_within (bc_newest c) W"
    by (rule within_load_acquire [OF ld V bc_withinD(4) [OF within]]) simp
  with ld pc show thesis
    by (intro that [of W]) (simp_all add: sub_step_def sub_next_loc_def Let_def del: bc_newest_simps)
qed

lemma slot_state_even: "slot_seq (slot_state C z P j) AND 1 \<noteq> 1"
proof (cases "visits C j (length P)")
  case (Suc k)
  have "(of_nat (2 * (j + k * C) + 2) :: usize) AND 1 \<noteq> 1" by (simp only: and_1_of_nat) simp
  with Suc show ?thesis by (simp add: slot_state_def)
qed (simp add: slot_state_def)

text \<open>A fresh call: the machine's run is the sequential \<open>try_read\<close> on the shared queue.\<close>

lemma run_sub_call:
  fixes r :: "'v sub"
  assumes reach: "bc_reach cap n z c" and idle: "pub_state c = PubIdle"
    and r: "subs c i = Some r" "b_pc r = SubIdle" and R: "read_cursor (b_local r) = of_nat R"
  shows "\<exists>r' res. sub_finish cap n c (n + 4) (sub_call r) = Some r' \<and> b_pc r' = SubIdle \<and>
    b_results r' = b_results r @ [res] \<and>
    try_read cap (bc_queue cap n c) (b_local r) = Some (Inr (res, b_local r'))"
proof -
  let ?q = "bc_queue cap n c"
  note w = bc_reach_within [OF reach]
  have V: "tview_within (bc_newest c) (b_view r)" by (rule bc_withinD(8) [OF w r(1)])
  let ?slot = "slot_state (unat cap) z (published c) (R mod unat cap)"
  have slot: "bslot_at cap ?q (read_cursor (b_local r)) = Inr ?slot"
    unfolding R by (rule bslot_at_rep [OF bc_queue_rep [OF reach idle]])
  have wc: "write_cursor ?q = fst (last (wcur_h c))" by (simp add: bc_queue_def)
  show ?thesis
  proof (cases "read_cursor (b_local r) = cached_write_cursor (b_local r)")
    case False
    let ?r = "r\<lparr>b_pc := SubSeq1\<rparr>"
    from run_sub_loop [where r = ?r and cap = cap and n = n and slot = ?slot, OF w _ _ _ slot_state_even] V slot
    obtain r' and res :: "'v list read_result" where
      r': "sub_finish cap n c (n + 3) ?r = Some r'" "b_pc r' = SubIdle" "b_results r' = b_results r @ [res]"
        "try_read_loop ?q ?slot (read_cursor (b_local r) * 2 + 2) (b_local r) = Some (res, b_local r')"
      by auto
    have "sub_finish cap n c (n + 4) (sub_call r) = Some r'"
      using sub_finish_more [OF r'(1,2), of "n + 4"] False by (simp add: sub_call_def)
    moreover have "try_read cap ?q (b_local r) = Some (Inr (res, b_local r'))"
      using False slot r'(4) by (simp add: try_read_def)
    ultimately show ?thesis using r' by blast
  next
    case True
    let ?r = "r\<lparr>b_pc := SubCursor\<rparr>" and ?k = "(b_local r)\<lparr>cached_write_cursor := write_cursor ?q\<rparr>"
    have call: "sub_call r = ?r" using True by (simp add: sub_call_def)
    obtain U where U: "tview_within (bc_newest c) U" "sub_finish cap n c (Suc 0) ?r =
       Some (let k = (b_local ?r)\<lparr>cached_write_cursor := fst (last (wcur_h c))\<rparr> in
             if read_cursor k = cached_write_cursor k
             then ?r\<lparr>b_pc := SubIdle, b_local := k, b_view := U, b_results := b_results ?r @ [Empty]\<rparr>
             else ?r\<lparr>b_pc := SubSeq1, b_local := k, b_view := U\<rparr>)"
      by (rule run_sub_cursor [OF w, of ?r cap n]) (use V in auto)
    show ?thesis
    proof (cases "read_cursor ?k = cached_write_cursor ?k")
      case empty: True
      let ?r' = "r\<lparr>b_pc := SubIdle, b_local := ?k, b_view := U, b_results := b_results r @ [Empty]\<rparr>"
      have "sub_finish cap n c (Suc 0) ?r = Some ?r'" using U(2) empty by (simp add: Let_def wc)
      then have "sub_finish cap n c (n + 4) (sub_call r) = Some ?r'"
        unfolding call by (rule sub_finish_more) simp_all
      moreover have "try_read cap ?q (b_local r) = Some (Inr (Empty, ?k))"
        using True empty by (simp add: try_read_def is_still_empty_def)
      ultimately show ?thesis by (intro exI [of _ ?r'] exI [of _ Empty]) simp
    next
      case item: False
      let ?r1 = "r\<lparr>b_pc := SubSeq1, b_local := ?k, b_view := U\<rparr>"
      have s1: "sub_finish cap n c (Suc 0) ?r = Some ?r1" using U(2) item by (simp add: Let_def wc)
      from run_sub_loop [where r = ?r1 and cap = cap and n = n and slot = ?slot, OF w _ _ _ slot_state_even] U(1) slot
      obtain r' and res :: "'v list read_result" where
        r': "sub_finish cap n c (n + 3) ?r1 = Some r'" "b_pc r' = SubIdle" "b_results r' = b_results r @ [res]"
          "try_read_loop ?q ?slot (read_cursor (b_local r) * 2 + 2) ?k = Some (res, b_local r')"
        by auto
      have four: "n + 4 = Suc 0 + (n + 3)" by simp
      have "sub_finish cap n c (n + 4) (sub_call r) = Some r'"
        unfolding call four sub_finish_add [OF s1] by (rule r'(1))
      moreover have "try_read cap ?q (b_local r) = Some (Inr (res, b_local r'))"
        using True item slot r'(4) by (simp add: try_read_def is_still_empty_def)
      ultimately show ?thesis using r' by blast
    qed
  qed
qed

section \<open>A consumer that has seen everything published\<close>

text \<open>
  \<open>sub_run\<close> takes own steps of a consumer with the loads given; \<open>sub_up_to_date\<close> says that its
  view covers the newest entries of the cursor and of the slot it is about to read. Then every
  load of the call returns the newest entry.
\<close>

fun sub_run :: "usize \<Rightarrow> nat \<Rightarrow> 'v bc \<Rightarrow> nat list \<Rightarrow> 'v sub \<Rightarrow> 'v sub option" where
  "sub_run cap n c [] r = Some r"
| "sub_run cap n c (ts # tss) r =
     (case sub_step cap n ts c r of None \<Rightarrow> None | Some r' \<Rightarrow> sub_run cap n c tss r')"

definition sub_up_to_date :: "usize \<Rightarrow> nat \<Rightarrow> 'v bc \<Rightarrow> 'v sub \<Rightarrow> bool" where
  "sub_up_to_date cap n c r \<longleftrightarrow>
     (let j = slot_index cap (read_cursor (b_local r)); V = cur (b_view r) in
      bc_newest c WCur \<le> V WCur \<and> bc_newest c (SSeq j) \<le> V (SSeq j) \<and>
      list_all (\<lambda>a. bc_newest c (SData j a) \<le> V (SData j a)) [0..<n])"

lemma sub_step_grows: "sub_step cap n ts c r = Some r1 \<Longrightarrow> cur (b_view r) l \<le> cur (b_view r1) l"
  by (auto simp: sub_step_def Let_def split: sub_pc.splits option.splits if_splits prod.splits
      dest: load_relaxed_grows [of _ _ _ _ _ _ l] load_acquire_grows [of _ _ _ _ _ _ l])

lemma sub_step_up_to_date:
  assumes "sub_step cap n ts c r = Some r1" "sub_up_to_date cap n c r"
  shows "sub_step cap n (bc_newest c (sub_next_loc cap r)) c r = Some r1 \<and>
    (b_pc r1 = SubIdle \<or> sub_up_to_date cap n c r1)"
proof -
  have "read_cursor (b_local r1) = read_cursor (b_local r)" if "b_pc r1 \<noteq> SubIdle"
    using assms(1) that by (auto simp: sub_step_def Let_def split: sub_pc.splits option.splits if_splits prod.splits)
  then have "b_pc r1 = SubIdle \<or> sub_up_to_date cap n c r1"
    using assms(2) sub_step_grows [OF assms(1)] unfolding sub_up_to_date_def Let_def list_all_iff by (metis order_trans)
  moreover have "sub_step cap n (bc_newest c (sub_next_loc cap r)) c r = Some r1"
  proof (cases "\<exists>s buf. b_pc r = SubData s buf \<and> \<not> length buf < n \<or> b_pc r = SubIdle")
    case False
    have "ts = bc_newest c (sub_next_loc cap r)"
      using assms False
      by (auto simp: sub_step_def bc_newest_def sub_next_loc_def sub_up_to_date_def list_all_iff Let_def
          split: sub_pc.splits option.splits if_splits dest!: load_forced)
    with assms(1) show ?thesis by simp
  qed (use assms(1) in \<open>auto simp: sub_step_def Let_def\<close>)
  ultimately show ?thesis by simp
qed

lemma sub_run_finish:
  "sub_run cap n c tss r = Some r' \<Longrightarrow> b_pc r = SubIdle \<or> sub_up_to_date cap n c r \<Longrightarrow>
     sub_finish cap n c (length tss) r = Some r'"
proof (induction tss arbitrary: r)
  case (Cons ts tss)
  then obtain r1 where r1: "sub_step cap n ts c r = Some r1" "sub_run cap n c tss r1 = Some r'"
    by (auto split: option.splits)
  then have busy: "b_pc r \<noteq> SubIdle" by (auto simp: sub_step_def)
  with Cons.prems(2) sub_step_up_to_date [OF r1(1)] Cons.IH [OF r1(2)] show ?case by simp
qed simp

lemma sub_run_append:
  "sub_run cap n c (tss @ tss') r = (case sub_run cap n c tss r of None \<Rightarrow> None | Some r' \<Rightarrow> sub_run cap n c tss' r')"
  by (induction tss arbitrary: r) (auto split: option.split)

lemma sub_run_up_to_date:
  assumes run: "sub_run cap n c tss r = Some r'" and cur: "sub_up_to_date cap n c r"
    and fin: "sub_finish cap n c k r = Some r1" "b_pc r1 = SubIdle"
  shows "length tss \<le> k \<and> (b_pc r' = SubIdle \<longrightarrow> r' = r1)"
proof (cases "length tss \<le> k")
  case True
  from sub_finish_add [OF sub_run_finish [OF run disjI2 [OF cur]], of "k - length tss"] True fin(1)
  have "sub_finish cap n c (k - length tss) r' = Some r1" by simp
  with True show ?thesis by (auto simp: sub_finish_idle)
next
  case False
  then have split: "tss = take k tss @ tss ! k # drop (Suc k) tss" by (simp add: id_take_nth_drop)
  from run obtain m where m: "sub_run cap n c (take k tss) r = Some m" "sub_run cap n c (tss ! k # drop (Suc k) tss) m = Some r'"
    by (subst (asm) split) (auto simp: sub_run_append split: option.splits)
  from sub_run_finish [OF m(1) disjI2 [OF cur]] False fin(1) have "m = r1" by simp
  with m(2) fin(2) show ?thesis by (simp add: sub_step_def)
qed

section \<open>What explained results say\<close>

fun received :: "'v read_result list \<Rightarrow> 'v list" where
  "received [] = []"
| "received (Value v # rs) = v # received rs"
| "received (_ # rs) = received rs"

fun skipped_total :: "'v read_result list \<Rightarrow> nat" where
  "skipped_total [] = 0"
| "skipped_total (Lapped k # rs) = unat k + skipped_total rs"
| "skipped_total (_ # rs) = skipped_total rs"

lemma advance_total: "advance rs = length (received rs) + skipped_total rs"
  by (induction rs rule: received.induct) auto

lemma explained_subseq: "explained C P p rs \<Longrightarrow> subseq (received rs) (drop p P)"
proof (induction C P p rs rule: explained.induct)
  case (2 C P p v rs)
  then have "drop p P = v # drop (Suc p) P" by (auto simp: Cons_nth_drop_Suc)
  with 2 show ?case by simp
next
  case (4 C P p k rs)
  then have "subseq (received rs) (drop (unat k) (drop p P))" by (simp add: add.commute)
  then have "subseq (received rs) (take (unat k) (drop p P) @ drop (unat k) (drop p P))"
    by (rule subseq_drop_many)
  then show ?case unfolding append_take_drop_id by simp
qed auto

lemma explained_pos: "explained C P p rs \<Longrightarrow> p \<le> length P \<Longrightarrow> p + advance rs \<le> length P"
  by (induction C P p rs rule: explained.induct) auto

lemma explained_no_lap:
  "explained C P p rs \<Longrightarrow> length P \<le> p + C \<Longrightarrow>
     received rs = take (advance rs) (drop p P) \<and> skipped_total rs = 0"
proof (induction C P p rs rule: explained.induct)
  case (2 C P p v rs)
  then have "drop p P = v # drop (Suc p) P" by (auto simp: Cons_nth_drop_Suc)
  with 2 show ?case by simp
qed auto

section \<open>Properties\<close>

text \<open>
  A run in which two values are published to a ring of one slot before the consumer reads: it
  reports a lap of one value and then reads the second one.
\<close>

definition publish_events :: "nat \<Rightarrow> nat list \<Rightarrow> nat bc_event list" where
  "publish_events k v = PubCall v # map PubStep [k, 0, 0, 0, 0, 0]"

definition lapped_bc_events :: "nat bc_event list" where
  "lapped_bc_events =
     publish_events 0 [1] @ publish_events 1 [2] @
     [SubCall 0] @ map (SubStep 0) [2, 4, 2] @ [SubCall 0] @ map (SubStep 0) [4, 2, 0, 4]"

lemma lapped_bc_run:
  "map_option (\<lambda>c. (pub_state c, published c, map_option (\<lambda>r. (b_pc r, b_start r, b_results r)) (subs c 0)))
     (bc_run 1 1 (bc_new [0]) lapped_bc_events) =
   Some (PubIdle, [[1], [2]], Some (SubIdle, 0, [Lapped 1, Value [2]]))"
  by code_simp

lemma lapped_reach:
  "\<exists>c r. bc_reach 1 1 [0 :: nat] c \<and> pub_state c = PubIdle \<and> published c = [[1], [2]] \<and>
     subs c 0 = Some r \<and> b_pc r = SubIdle \<and> b_start r = 0 \<and> b_results r = [Lapped 1, Value [2]]"
proof -
  from lapped_bc_run obtain c where "bc_run 1 1 (bc_new [0]) lapped_bc_events = Some c" "pub_state c = PubIdle"
    "published c = [[1], [2]]"
    "map_option (\<lambda>r. (b_pc r, b_start r, b_results r)) (subs c 0) = Some (SubIdle, 0, [Lapped 1, Value [2]])"
    by auto
  moreover have "is_power_of_two 1" by code_simp
  then have "bc_reach 1 1 [0 :: nat] (bc_new [0])" by (rule bc_init) simp
  ultimately show ?thesis using bc_reach_run by fastforce
qed

text \<open>
  C4: In any interleaving of the producer with any number of consumers, with any stale values
  the memory model allows, what a consumer's finished calls of \<open>try_read\<close> returned is explained
  by the log of published values, from the position where the consumer was created or cloned:
  every value is the one at its position (so never torn, stale or repeated), and a \<open>Lapped\<close> is
  returned only when more than \<open>CAPACITY\<close> values lie ahead, and skips exactly as many as it says.
\<close>

theorem bc_results_explained:
  assumes "bc_reach cap n zeroed c" "length (published c) \<le> 2 ^ 63" "subs c i = Some r"
  shows "explained (unat cap) (published c) (b_start r) (b_results r)"
  using bc_inv_sub(1) [OF bc_reach_inv [OF assms(1)] assms(3,2)] by (rule sub_invE)

theorem bc_results_explained_witness:
  "\<exists>c r. bc_reach 1 1 [0 :: nat] c \<and> subs c 0 = Some r \<and> b_results r = [Lapped 1, Value [2]] \<and>
     explained (unat (1 :: usize)) (published c) (b_start r) (b_results r)"
proof -
  obtain c r where c: "bc_reach 1 1 [0 :: nat] c" "published c = [[1], [2]]"
    "subs c 0 = Some r" "b_results r = [Lapped 1, Value [2]]"
    using lapped_reach by blast
  have "length (published c) \<le> 2 ^ 63" by (simp add: c(2))
  from bc_results_explained [OF c(1) this c(3)] c show ?thesis by blast
qed

text \<open>
  C5: A consumer never loses a value without being told: the values it received are a
  subsequence of the log from its start, and their number plus the announced skips is how far
  it has moved along the log, which is not past its end.
\<close>

theorem bc_received_accounted:
  assumes "bc_reach cap n zeroed c" "length (published c) \<le> 2 ^ 63" "subs c i = Some r"
  shows "subseq (received (b_results r)) (drop (b_start r) (published c)) \<and>
    read_cursor (b_local r) =
      of_nat (b_start r + length (received (b_results r)) + skipped_total (b_results r)) \<and>
    b_start r + length (received (b_results r)) + skipped_total (b_results r) \<le> length (published c)"
proof -
  note inv = bc_inv_sub [OF bc_reach_inv [OF assms(1)] assms(3,2)]
  note len = bc_inv_len [OF inv(2)]
  from inv(1) show ?thesis
  proof (rule sub_invE)
    fix w assume "explained (unat cap) (published c) (b_start r) (b_results r)"
      "read_cursor (b_local r) = of_nat (sub_pos r)" "sub_pos r \<le> w" "w < length (wcur_h c)"
    with explained_subseq len show ?thesis
      by (auto simp: sub_pos_def advance_total add.assoc)
  qed
qed

theorem bc_received_accounted_witness:
  "\<exists>c r. bc_reach 1 1 [0 :: nat] c \<and> subs c 0 = Some r \<and> received (b_results r) = [[2]] \<and>
     subseq [[2]] (drop 0 [[1], [2 :: nat]]) \<and> read_cursor (b_local r) = 2"
proof -
  obtain c r where c: "bc_reach 1 1 [0 :: nat] c" "published c = [[1], [2]]"
    "subs c 0 = Some r" "b_start r = 0" "b_results r = [Lapped 1, Value [2]]"
    using lapped_reach by blast
  have len: "length (published c) \<le> 2 ^ 63" by (simp add: c(2))
  have "received (b_results r) = [[2]]" "skipped_total (b_results r) = 1"
    by (simp_all add: c(5))
  with bc_received_accounted [OF c(1) len c(3)] c show ?thesis by auto
qed



text \<open>
  C19: A call of \<open>publish\<close> is wait-free and does what the sequential \<open>publish\<close> does: from any
  reachable state, whatever the consumers are doing, it ends within \<open>n + 5\<close> steps of its own,
  leaves every consumer alone and turns the shared queue into the sequential \<open>publish\<close> of it.
\<close>

theorem bc_publish_refines:
  assumes "bc_reach cap n zeroed c" "pub_state c = PubIdle" "length v = n"
  shows "\<exists>c1 c'. bc_step cap n c (PubCall v) = Some c1 \<and> pub_finish cap n (n + 5) c1 = Some c' \<and>
    pub_state c' = PubIdle \<and> subs c' = subs c \<and> published c' = published c @ [v] \<and>
    publish cap (bc_queue cap n c) v = Inr (bc_queue cap n c')"
proof -
  let ?c1 = "c\<lparr>pub_state := PubLoad v, published := published c @ [v]\<rparr>"
  have st: "bc_step cap n c (PubCall v) = Some ?c1" using assms(2,3) by simp
  have "pub_rank n (pub_state ?c1) \<le> n + 5" by simp
  from pub_finish_reach [OF bc_next [OF assms(1) st] this] obtain c' where
    c': "pub_finish cap n (n + 5) ?c1 = Some c'" "pub_state c' = PubIdle" "bc_reach cap n zeroed c'"
      "published c' = published c @ [v]" "subs c' = subs c" by auto
  from publish_rep [OF bc_queue_rep [OF assms(1,2)], of v] obtain q' where
    q': "publish cap (bc_queue cap n c) v = Inr q'" "bcast_rep cap zeroed (published c @ [v]) q'" by blast
  from bc_queue_rep [OF c'(3,2)] q'(2) have "q' = bc_queue cap n c'"
    unfolding c'(4) by (cases q'; cases "bc_queue cap n c'") (simp add: bcast_rep_def)
  with st c' q'(1) show ?thesis by blast
qed

theorem bc_publish_refines_witness:
  "\<exists>c c'. bc_reach 1 1 [0 :: nat] c \<and> published c' = [[1], [2], [4]] \<and>
     publish 1 (bc_queue 1 1 c) [4] = Inr (bc_queue 1 1 c')"
proof -
  obtain c where c: "bc_reach 1 1 [0 :: nat] c" "pub_state c = PubIdle" "published c = [[1], [2]]"
    using lapped_reach by blast
  have "length [4 :: nat] = 1" by simp
  from bc_publish_refines [OF c(1,2) this] c show ?thesis by auto
qed

text \<open>
  C20: While no \<open>publish\<close> is in progress, a call of \<open>try_read\<close> whose loads return the newest
  entries ends within \<open>n + 4\<close> own steps, is the sequential \<open>try_read\<close> on the shared queue, and so
  answers as the log of published values at the consumer's position. (With stale loads it may
  answer for an earlier state, as the first property of this theory says.) A consumer that has
  synchronised with the last \<open>publish\<close> has no other loads: each run of its own steps is at most
  \<open>n + 4\<close> long and ends with that answer.
\<close>

theorem bc_read_refines:
  assumes "bc_reach cap n zeroed c" "pub_state c = PubIdle" "length (published c) \<le> 2 ^ 63"
    and "subs c i = Some r" "b_pc r = SubIdle"
  shows "(\<exists>r'. sub_finish cap n c (n + 4) (sub_call r) = Some r' \<and> b_pc r' = SubIdle \<and>
      try_read cap (bc_queue cap n c) (b_local r) =
        Some (Inr (fst (log_read (unat cap) (published c) (sub_pos r)), b_local r')) \<and>
      b_results r' = b_results r @ [fst (log_read (unat cap) (published c) (sub_pos r))]) \<and>
    (\<forall>tss r'. sub_up_to_date cap n c r \<and> sub_run cap n c tss (sub_call r) = Some r' \<longrightarrow>
       length tss \<le> n + 4 \<and>
       (b_pc r' = SubIdle \<longrightarrow> b_results r' = b_results r @ [fst (log_read (unat cap) (published c) (sub_pos r))]))"
proof -
  note inv = bc_inv_sub [OF bc_reach_inv [OF assms(1)] assms(4,3)]
  have crep: "bcons_rep (published c) (sub_pos r) (b_local r)"
    by (rule sub_inv_cons_rep [OF inv(1) bc_inv_len [OF inv(2)]])
  then have R: "read_cursor (b_local r) = of_nat (sub_pos r)" by (simp add: bcons_rep_def)
  from run_sub_call [OF assms(1,2,4,5) R] obtain r1 res where
    r1: "sub_finish cap n c (n + 4) (sub_call r) = Some r1" "b_pc r1 = SubIdle" "b_results r1 = b_results r @ [res]"
    "try_read cap (bc_queue cap n c) (b_local r) = Some (Inr (res, b_local r1))" by blast
  have res: "res = fst (log_read (unat cap) (published c) (sub_pos r))"
    using r1(4) try_read_rep [OF bc_queue_rep [OF assms(1,2)] crep assms(3)] by auto
  have "sub_up_to_date cap n c r \<longleftrightarrow> sub_up_to_date cap n c (sub_call r)"
    by (simp add: sub_up_to_date_def sub_call_def)
  with r1 sub_run_up_to_date [OF _ _ r1(1,2)] show ?thesis unfolding res by blast
qed

text \<open>Consumer 0 has read the last value, so it is up to date, and finds nothing more.\<close>

lemma lapped_read_again:
  "map_option (\<lambda>c. (pub_state c, published c, map_option (\<lambda>r. (b_pc r, b_start r, b_results r, sub_up_to_date 1 1 c r,
       map_option b_pc (sub_run 1 1 c [2] (sub_call r)))) (subs c 0)))
     (bc_run 1 1 (bc_new [0]) lapped_bc_events) =
   Some (PubIdle, [[1], [2]], Some (SubIdle, 0, [Lapped 1, Value [2]], True, Some SubIdle))"
  by code_simp

theorem bc_read_refines_witness:
  "\<exists>c r r' r''. bc_reach 1 1 [0 :: nat] c \<and> subs c 0 = Some r \<and> sub_up_to_date 1 1 c r \<and>
     sub_finish 1 1 c 5 (sub_call r) = Some r' \<and> b_results r' = [Lapped 1, Value [2], Empty] \<and>
     sub_run 1 1 c [2] (sub_call r) = Some r'' \<and> b_results r'' = [Lapped 1, Value [2], Empty]"
proof -
  from lapped_read_again obtain c r r'' where run: "bc_run 1 1 (bc_new [0]) lapped_bc_events = Some c"
    and c: "pub_state c = PubIdle" "published c = [[1], [2]]" "subs c 0 = Some r" "b_pc r = SubIdle"
      "b_start r = 0" "b_results r = [Lapped 1, Value [2]]"
      "sub_up_to_date 1 1 c r" "sub_run 1 1 c [2] (sub_call r) = Some r''" "b_pc r'' = SubIdle"
    unfolding map_option_eq_Some prod.inject by blast
  have "is_power_of_two 1" by code_simp
  then have "bc_reach 1 1 [0 :: nat] (bc_new [0])" by (rule bc_init) simp
  from bc_reach_run [OF this run] have reach: "bc_reach 1 1 [0] c" .
  have len: "length (published c) \<le> 2 ^ 63" by (simp add: c(2))
  have empty: "fst (log_read (unat (1 :: usize)) (published c) (sub_pos r)) = Empty"
    by (simp add: log_read_def sub_pos_def c(2,5,6))
  note read = bc_read_refines [OF reach c(1) len c(3,4), unfolded empty c(6)]
  from read have "\<exists>r'. sub_finish 1 1 c 5 (sub_call r) = Some r' \<and> b_results r' = [Lapped 1, Value [2], Empty]"
    by auto
  moreover have "b_results r'' = [Lapped 1, Value [2], Empty]"
    using conjunct2 [OF read, rule_format, OF conjI [OF c(7,8)]] c(9) by simp
  ultimately show ?thesis using reach c(3,7,8) by blast
qed

end
