(* ===== verification/Spmc_Shutdown.thy ===== *)
theory Spmc_Shutdown
  imports Bench_Spmc Spmc_Progress
begin

text \<open>
  The SPMC handoff benchmark, \<open>src/src/bench/harness/spmc/handoff.rs\<close>, on the weak-memory machine of the
  broadcast queue, with the flag \<open>done\<close> as one more atomic. \<open>Bench_Spmc\<close> treats a call of the queue
  as one step; here a read may overlap a publish, be torn and retried, or find an old cursor.
\<close>

section \<open>The two threads\<close>

text \<open>
  A stamp is one machine word, so a value has one part. \<open>ca_done\<close> is the store of \<open>true\<close> with the view
  it publishes. \<open>ca_log\<close> is a ghost: the result of each finished \<open>try_read\<close> and the clock after it.
\<close>

record cast =
  ca_queue :: "u64 bc"
  ca_left :: nat
  ca_done :: "bc_loc view option"
  ca_cons :: hcons
  ca_log :: "(u64 spmc_read_result \<times> u64) list"

definition cast_new :: "nat \<Rightarrow> cast" where
  "cast_new n = \<lparr>ca_queue = bc_new [0], ca_left = n, ca_done = None, ca_cons = hcons_new, ca_log = []\<rparr>"

datatype cast_event =
    CastPublish u64
  | CastPubStep nat
  | CastStoreDone
  | CastRead
  | CastReadStep nat u64
  | CastLoadDone bool

text \<open>\<open>done.load(Acquire)\<close> that finds \<open>true\<close> joins the published view to the consumer's.\<close>

definition sub_acquire :: "bc_loc view \<Rightarrow> 'v sub \<Rightarrow> 'v sub" where
  "sub_acquire w r = r\<lparr>b_view := (b_view r)\<lparr>cur := join (cur (b_view r)) w, acq := join (acq (b_view r)) w\<rparr>\<rparr>"

definition bench_result :: "'v list read_result \<Rightarrow> 'v spmc_read_result" where
  "bench_result r = adapt_result (map_read_result hd r)"

text \<open>The consumer's loops after a step of \<open>try_read\<close> that left it as \<open>r\<close>, in the queue state \<open>c\<close>.\<close>

definition cast_read :: "(u64 \<Rightarrow> bool) \<Rightarrow> nat \<Rightarrow> u64 \<Rightarrow> cast \<Rightarrow> u64 bc \<Rightarrow> u64 sub \<Rightarrow> cast" where
  "cast_read accepts warmup now s c r =
     (if b_pc r = SubIdle
      then let res = bench_result (last (b_results r));
               if_empty = (if h_phase (ca_cons s) = Draining then Returned else CheckDone)
        in s\<lparr>ca_queue := c, ca_cons := on_result accepts warmup now res if_empty (ca_cons s), ca_log := ca_log s @ [(res, now)]\<rparr>
      else s\<lparr>ca_queue := c\<rparr>)"

fun cast_step :: "usize \<Rightarrow> (u64 \<Rightarrow> bool) \<Rightarrow> nat \<Rightarrow> cast \<Rightarrow> cast_event \<Rightarrow> cast option" where
  "cast_step cap accepts warmup s (CastPublish ts) =
     (if 0 < ca_left s
      then map_option (\<lambda>c. s\<lparr>ca_queue := c, ca_left := ca_left s - 1\<rparr>) (bc_step cap 1 (ca_queue s) (PubCall [ts]))
      else None)"
| "cast_step cap accepts warmup s (CastPubStep t) =
     map_option (\<lambda>c. s\<lparr>ca_queue := c\<rparr>) (bc_step cap 1 (ca_queue s) (PubStep t))"
| "cast_step cap accepts warmup s CastStoreDone =
     (if ca_left s = 0 \<and> pub_state (ca_queue s) = PubIdle \<and> ca_done s = None
      then Some (s\<lparr>ca_done := Some (cur (pub_view (ca_queue s)))\<rparr>) else None)"
| "cast_step cap accepts warmup s CastRead =
     (if h_phase (ca_cons s) \<in> {Reading, Draining}
      then map_option (\<lambda>c. s\<lparr>ca_queue := c\<rparr>) (bc_step cap 1 (ca_queue s) (SubCall 0)) else None)"
| "cast_step cap accepts warmup s (CastReadStep t now) =
     (case bc_step cap 1 (ca_queue s) (SubStep 0 t) of
        None \<Rightarrow> None
      | Some c \<Rightarrow> map_option (cast_read accepts warmup now s c) (subs c 0))"
| "cast_step cap accepts warmup s (CastLoadDone b) =
     (if h_phase (ca_cons s) \<noteq> CheckDone then None
      else if b
      then (case (ca_done s, subs (ca_queue s) 0) of
              (Some w, Some r) \<Rightarrow>
                Some (s\<lparr>ca_queue := (ca_queue s)\<lparr>subs := (subs (ca_queue s))(0 \<mapsto> sub_acquire w r)\<rparr>,
                        ca_cons := (ca_cons s)\<lparr>h_phase := Draining\<rparr>\<rparr>)
            | _ \<Rightarrow> None)
      else Some (s\<lparr>ca_cons := (ca_cons s)\<lparr>h_phase := Reading\<rparr>\<rparr>))"

inductive cast_reach :: "usize \<Rightarrow> nat \<Rightarrow> (u64 \<Rightarrow> bool) \<Rightarrow> nat \<Rightarrow> cast \<Rightarrow> bool" for cap n accepts warmup where
  cast_init: "is_power_of_two cap \<Longrightarrow> cast_reach cap n accepts warmup (cast_new n)"
| cast_next: "cast_reach cap n accepts warmup s \<Longrightarrow> cast_step cap accepts warmup s e = Some s' \<Longrightarrow> cast_reach cap n accepts warmup s'"

fun cast_run :: "usize \<Rightarrow> (u64 \<Rightarrow> bool) \<Rightarrow> nat \<Rightarrow> cast \<Rightarrow> cast_event list \<Rightarrow> cast option" where
  "cast_run cap accepts warmup s [] = Some s"
| "cast_run cap accepts warmup s (e # es) =
     (case cast_step cap accepts warmup s e of None \<Rightarrow> None | Some s' \<Rightarrow> cast_run cap accepts warmup s' es)"

lemma cast_reach_run:
  "cast_reach cap n accepts warmup s \<Longrightarrow> cast_run cap accepts warmup s es = Some s' \<Longrightarrow> cast_reach cap n accepts warmup s'"
  by (induction es arbitrary: s) (auto split: option.splits intro: cast_next)

section \<open>What steps of the queue change\<close>

lemma sub_step_frame:
  "sub_step cap n ts c r = Some r' \<Longrightarrow>
     b_start r' = b_start r \<and> cur (b_view r) l \<le> cur (b_view r') l \<and>
     (b_pc r' \<noteq> SubIdle \<and> b_results r' = b_results r \<or> b_pc r' = SubIdle \<and> (\<exists>x. b_results r' = b_results r @ [x]))"
  by (cases "b_pc r")
    (auto simp: sub_step_def Let_def load_acquire_grows load_relaxed_grows split: option.splits if_splits prod.splits)

lemma sub_step_busy: "sub_step cap n ts c r = Some r' \<Longrightarrow> b_pc r \<noteq> SubIdle"
  by (auto simp: sub_step_def Let_def)

lemma bc_step_newest: "bc_inv cap n c \<Longrightarrow> bc_step cap n c e = Some c' \<Longrightarrow> bc_newest c l \<le> bc_newest c' l"
  by (frule (1) bc_step_grows) (cases l; auto simp: bc_grows_def bc_newest_def intro!: diff_le_mono prefix_length_le)

lemma sub_acquire_inv:
  assumes "sub_inv cap n c r" "b_pc r = SubIdle"
  shows "sub_inv cap n c (sub_acquire w r)"
  using assms(1)
proof (rule sub_invE)
  have pos: "sub_pos (sub_acquire w r) = sub_pos r" by (simp add: sub_acquire_def sub_pos_def)
  fix v assume "explained (unat cap) (published c) (b_start r) (b_results r)" "read_cursor (b_local r) = of_nat (sub_pos r)"
    "sub_pos r \<le> v" "v < length (wcur_h c)" "v \<le> cur (b_view r) WCur" "cached_write_cursor (b_local r) = of_nat v"
    "\<And>j. j < unat cap \<Longrightarrow> 2 * visits (unat cap) j v \<le> cur (b_view r) (SSeq j)"
  then show ?thesis
    by (intro sub_invI [where w = v])
      (unfold pos, auto simp: sub_acquire_def assms(2) le_max_iff_disj)
qed

lemma bc_inv_acquire:
  assumes "bc_inv cap n c" "subs c i = Some r" "b_pc r = SubIdle"
  shows "bc_inv cap n (c\<lparr>subs := (subs c)(i \<mapsto> sub_acquire w r)\<rparr>)"
  by (intro bc_inv_update [OF assms(1)] sub_acquire_inv [OF _ assms(3)] bc_inv_sub(1) [OF assms(1,2)])

lemma bc_within_acquire:
  assumes "bc_within c" "subs c i = Some r" "view_within (bc_newest c) w"
  shows "bc_within (c\<lparr>subs := (subs c)(i \<mapsto> sub_acquire w r)\<rparr>)"
proof -
  have "bc_newest (c\<lparr>subs := x\<rparr>) = bc_newest c" for x by (rule bc_newest_cong) simp_all
  with assms bc_withinD(8) [OF assms(1,2)] show ?thesis
    by (auto simp: bc_within_def sub_acquire_def tview_within_def view_within_def)
qed

text \<open>A view that has the newest cursor, sequence numbers and values of the queue.\<close>

definition sees_all :: "usize \<Rightarrow> 'v bc \<Rightarrow> bc_loc view \<Rightarrow> bool" where
  "sees_all cap c w \<longleftrightarrow>
     length (published c) \<le> w WCur \<and>
     (\<forall>j<unat cap. length (sseq_h c j) \<le> Suc (w (SSeq j)) \<and> length (sdata_h c j 0) \<le> Suc (w (SData j 0)))"

lemma sees_all_mono:
  assumes "sees_all cap c v" "\<And>l. v l \<le> w l"
  shows "sees_all cap c w"
  using assms(1) unfolding sees_all_def
  by (auto intro: order_trans [OF _ assms(2)] order_trans [OF _ Suc_le_mono [THEN iffD2, OF assms(2)]])

lemma sees_all_subs [simp]: "sees_all cap (c\<lparr>subs := x\<rparr>) w = sees_all cap c w"
  by (simp add: sees_all_def)

text \<open>An idle producer's view of its stores is the newest: everything has been published.\<close>

lemma idle_pub_view:
  assumes "bc_inv cap 1 c" "pub_state c = PubIdle"
  shows "sees_all cap c (cur (pub_view c))"
proof -
  from assms obtain w where p: "bc_pub_inv (unat cap) 1 w (wcur_h c) (sseq_h c) (sdata_h c) (published c) (pub_view c) PubIdle"
    by (auto simp: bc_inv_def pub_inv_def)
  from bc_pub_invD(4,7) [OF p] bc_pub_invD(8,9) [OF p] show ?thesis
    by (simp add: sees_all_def less_Suc_eq)
qed

text \<open>An \<open>Empty\<close> of a consumer that has seen the last store of the cursor: it is at the end of the log.\<close>

lemma empty_after_last_publish:
  assumes inv: "bc_inv cap n c" and lim: "length (published c) \<le> 2 ^ 63" and r: "subs c i = Some r"
    and step: "sub_step cap n ts c r = Some r'" and res: "b_results r' = b_results r @ [Empty]"
    and seen: "length (published c) \<le> cur (b_view r) WCur"
  shows "sub_pos r' = length (published c)"
proof (cases "b_pc r")
  case SubCursor
  note si = bc_inv_sub [OF inv r lim]
  from si(2) obtain w where hist: "bc_hist_inv (unat cap) n (wcur_h c) (sseq_h c) (sdata_h c) (published c)"
    by (auto simp: pub_inv_def dest: bc_pub_invD(2))
  note h = bc_hist_invD [OF hist]
  from step SubCursor res obtain x V where ld: "load_acquire WCur (wcur_h c) ts (b_view r) = Some (x, V)"
    and x: "read_cursor (b_local r) = x"
    by (auto simp: sub_step_def Let_def split: option.splits if_splits)
  note l = load_acquire_Some [OF ld]
  have ts: "ts = length (published c)" using l(1,2) seen h(12) by simp
  from si(1) have rc: "read_cursor (b_local r) = of_nat (sub_pos r)" and le: "sub_pos r < length (wcur_h c)"
    by (auto elim: sub_invE)
  have "(of_nat (sub_pos r) :: usize) = of_nat (length (published c)) \<longleftrightarrow> sub_pos r = length (published c)"
    by (rule of_nat_eq_iff_near) (use le h(12) lim in simp_all)
  with x rc l(1,3) h(1) [of ts] ts have "sub_pos r = length (published c)" by simp
  moreover from sub_step_frame [OF step] have "b_start r' = b_start r" by blast
  ultimately show ?thesis using res by (simp add: sub_pos_def)
qed (use step res in \<open>auto simp: sub_step_def Let_def lapped_def split: option.splits if_splits\<close>)

section \<open>The invariant of the benchmark\<close>

text \<open>Opaque parts: the queue machine, the flag and the phases, the consumer's account.\<close>

definition cast_queue_ok :: "usize \<Rightarrow> u64 bc \<Rightarrow> bool" where
  "cast_queue_ok cap c \<longleftrightarrow> bc_inv cap 1 c \<and> bc_within c"

definition cast_flag_ok :: "usize \<Rightarrow> cast \<Rightarrow> u64 sub \<Rightarrow> bool" where
  "cast_flag_ok cap s r \<longleftrightarrow>
     (\<forall>w. ca_done s = Some w \<longrightarrow>
        ca_left s = 0 \<and> pub_state (ca_queue s) = PubIdle \<and> sees_all cap (ca_queue s) w \<and>
        view_within (bc_newest (ca_queue s)) w) \<and>
     (h_phase (ca_cons s) \<in> {Draining, Returned} \<longrightarrow>
        ca_done s \<noteq> None \<and> sees_all cap (ca_queue s) (cur (b_view r))) \<and>
     (h_phase (ca_cons s) = Returned \<longrightarrow> sub_pos r = length (published (ca_queue s))) \<and>
     (h_phase (ca_cons s) \<in> {CheckDone, Returned} \<longrightarrow> b_pc r = SubIdle)"

fun stamp_ages :: "('v :: minus spmc_read_result \<times> 'v) list \<Rightarrow> 'v list" where
  "stamp_ages [] = []"
| "stamp_ages ((SValue ts, now) # rs) = (now - ts) # stamp_ages rs"
| "stamp_ages (_ # rs) = stamp_ages rs"

definition seen_results :: "('v spmc_read_result \<times> 'b) list \<Rightarrow> ('v spmc_read_result \<times> 'b) list" where
  "seen_results rs = filter (\<lambda>(r, now). case r of SEmpty \<Rightarrow> False | _ \<Rightarrow> True) rs"

definition cast_count_ok :: "nat \<Rightarrow> (u64 \<Rightarrow> bool) \<Rightarrow> nat \<Rightarrow> cast \<Rightarrow> u64 sub \<Rightarrow> bool" where
  "cast_count_ok n accepts warmup s r \<longleftrightarrow>
     length (published (ca_queue s)) + ca_left s = n \<and> b_start r = 0 \<and>
     map fst (ca_log s) = map bench_result (b_results r) \<and>
     h_seen (ca_cons s) = length (seen_results (ca_log s)) \<and>
     h_hist (ca_cons s) = filter accepts (stamp_ages (drop warmup (seen_results (ca_log s))))"

definition cast_inv :: "usize \<Rightarrow> nat \<Rightarrow> (u64 \<Rightarrow> bool) \<Rightarrow> nat \<Rightarrow> cast \<Rightarrow> bool" where
  "cast_inv cap n accepts warmup s \<longleftrightarrow>
     cast_queue_ok cap (ca_queue s) \<and>
     (\<exists>r. subs (ca_queue s) 0 = Some r \<and> cast_flag_ok cap s r \<and> cast_count_ok n accepts warmup s r)"

lemma stamp_ages_append [simp]: "stamp_ages (xs @ ys) = stamp_ages xs @ stamp_ages ys"
  by (induction xs rule: stamp_ages.induct) auto

lemma seen_results_snoc:
  "seen_results (rs @ [(SValue v, now)]) = seen_results rs @ [(SValue v, now)]"
  "seen_results (rs @ [(SLapped k, now)]) = seen_results rs @ [(SLapped k, now)]"
  "seen_results (rs @ [(SEmpty, now)]) = seen_results rs"
  by (simp_all add: seen_results_def)

lemma cast_queue_step: "cast_queue_ok cap c \<Longrightarrow> bc_step cap 1 c e = Some c' \<Longrightarrow> cast_queue_ok cap c'"
  by (auto simp: cast_queue_ok_def intro: bc_step_inv bc_step_within)

lemma cast_read_count:
  assumes "cast_count_ok n accepts warmup s r" "b_results r' = b_results r @ [x]" "b_pc r' = SubIdle" "b_start r' = b_start r"
    "published c = published (ca_queue s)"
  shows "cast_count_ok n accepts warmup (cast_read accepts warmup now s c r') r'"
  using assms
  by (cases x) (auto simp: cast_count_ok_def cast_read_def bench_result_def Let_def seen_results_snoc drop_snoc
      simp del: drop_append)

lemma cast_read_phase:
  "b_pc r' = SubIdle \<Longrightarrow> h_phase (ca_cons (cast_read accepts warmup now s c r')) =
     (if bench_result (last (b_results r')) = SEmpty
      then (if h_phase (ca_cons s) = Draining then Returned else CheckDone) else h_phase (ca_cons s))"
  by (simp add: cast_read_def Let_def on_result_phase)

lemma bench_result_empty [simp]: "bench_result x = SEmpty \<longleftrightarrow> x = Empty"
  by (cases x) (simp_all add: bench_result_def)

lemma cast_read_fields [simp]:
  "ca_queue (cast_read accepts warmup now s c r) = c" "ca_left (cast_read accepts warmup now s c r) = ca_left s"
  "ca_done (cast_read accepts warmup now s c r) = ca_done s"
  by (simp_all add: cast_read_def Let_def)

lemma cast_read_step_inv:
  assumes inv: "cast_inv cap n accepts warmup s" and lim: "n \<le> 2 ^ 63" and r: "subs (ca_queue s) 0 = Some r"
    and step: "sub_step cap 1 t (ca_queue s) r = Some r'"
    and c: "c = (ca_queue s)\<lparr>subs := (subs (ca_queue s))(0 \<mapsto> r')\<rparr>"
  shows "cast_inv cap n accepts warmup (cast_read accepts warmup now s c r')"
proof -
  let ?q = "ca_queue s"
  from inv r have q: "cast_queue_ok cap ?q" and flag: "cast_flag_ok cap s r" and count: "cast_count_ok n accepts warmup s r"
    by (auto simp: cast_inv_def)
  have ev: "bc_step cap 1 ?q (SubStep 0 t) = Some c" using r step by (simp add: c)
  note ok = cast_queue_step [OF q ev]
  have sub0: "subs c 0 = Some r'" by (simp add: c)
  note f = sub_step_frame [OF step]
  have newest: "bc_newest c = bc_newest ?q" by (rule bc_newest_cong) (simp_all add: c)
  have len: "length (published ?q) \<le> 2 ^ 63" using count lim by (simp add: cast_count_ok_def)
  have phase: "h_phase (ca_cons s) \<in> {Reading, Draining}"
    using flag sub_step_busy [OF step] by (cases "h_phase (ca_cons s)") (auto simp: cast_flag_ok_def)
  have seen: "ca_done s \<noteq> None \<and> sees_all cap ?q (cur (b_view r'))" if "h_phase (ca_cons s) = Draining"
    using flag that sees_all_mono [of cap ?q "cur (b_view r)" "cur (b_view r')"] f by (auto simp: cast_flag_ok_def)
  have st: "ca_left s = 0 \<and> pub_state ?q = PubIdle \<and> sees_all cap ?q w \<and> view_within (bc_newest ?q) w"
    if "ca_done s = Some w" for w using flag that by (simp add: cast_flag_ok_def)
  show ?thesis
  proof (cases "b_pc r' = SubIdle")
    case False
    then have s': "cast_read accepts warmup now s c r' = s\<lparr>ca_queue := c\<rparr>" by (simp add: cast_read_def)
    have "cast_flag_ok cap (s\<lparr>ca_queue := c\<rparr>) r'"
      using flag phase seen st newest by (auto simp: cast_flag_ok_def c)
    moreover have "cast_count_ok n accepts warmup (s\<lparr>ca_queue := c\<rparr>) r'"
      using count f False by (auto simp: cast_count_ok_def c)
    ultimately show ?thesis using ok sub0 unfolding s' cast_inv_def by simp
  next
    case True
    with f obtain x where x: "b_results r' = b_results r @ [x]" by blast
    have pos: "sub_pos r' = length (published ?q)" if "h_phase (ca_cons s) = Draining" "x = Empty"
      using empty_after_last_publish [OF _ len r step] q flag x that
      by (simp add: cast_queue_ok_def cast_flag_ok_def sees_all_def)
    have "cast_flag_ok cap (cast_read accepts warmup now s c r') r'"
      using phase seen st newest pos x by (auto simp: cast_flag_ok_def cast_read_phase [OF True] True c)
    moreover have "cast_count_ok n accepts warmup (cast_read accepts warmup now s c r') r'"
      by (rule cast_read_count [OF count x True]) (use f in \<open>simp_all add: c\<close>)
    ultimately show ?thesis using ok sub0 unfolding cast_inv_def by simp
  qed
qed

lemma cast_step_inv:
  assumes inv: "cast_inv cap n accepts warmup s" and lim: "n \<le> 2 ^ 63" and step: "cast_step cap accepts warmup s e = Some s'"
  shows "cast_inv cap n accepts warmup s'"
proof -
  let ?q = "ca_queue s"
  from inv obtain r where q: "cast_queue_ok cap ?q" and r: "subs ?q 0 = Some r"
    and flag: "cast_flag_ok cap s r" and count: "cast_count_ok n accepts warmup s r"
    by (auto simp: cast_inv_def)
  show ?thesis
  proof (cases e)
    case (CastPublish ts)
    with step obtain c where c: "bc_step cap 1 ?q (PubCall [ts]) = Some c" "0 < ca_left s"
      "s' = s\<lparr>ca_queue := c, ca_left := ca_left s - 1\<rparr>" by (auto split: if_splits)
    from c(1) have c': "c = ?q\<lparr>pub_state := PubLoad [ts], published := published ?q @ [[ts]]\<rparr>"
      by (auto split: pub_pc.splits)
    have none: "ca_done s = None" using flag c(2) by (cases "ca_done s") (auto simp: cast_flag_ok_def)
    then have "cast_flag_ok cap s' r" "cast_count_ok n accepts warmup s' r"
      using flag count c(2,3) by (auto simp: cast_flag_ok_def cast_count_ok_def c')
    with cast_queue_step [OF q c(1)] r c(3) show ?thesis by (auto simp: cast_inv_def c')
  next
    case (CastPubStep t)
    with step obtain c where c: "pub_step cap 1 t ?q = Some c" "s' = s\<lparr>ca_queue := c\<rparr>" by auto
    then have busy: "pub_state ?q \<noteq> PubIdle" by (auto simp: pub_step_def)
    note f = pub_step_rank [OF c(1)]
    have none: "ca_done s = None" using flag busy by (cases "ca_done s") (auto simp: cast_flag_ok_def)
    then have "cast_flag_ok cap s' r" "cast_count_ok n accepts warmup s' r"
      using flag count c(2) f by (auto simp: cast_flag_ok_def cast_count_ok_def)
    with cast_queue_step [OF q, of "PubStep t" c] c r f show ?thesis by (auto simp: cast_inv_def)
  next
    case CastStoreDone
    with step have p: "ca_left s = 0" "pub_state ?q = PubIdle" "ca_done s = None"
      "s' = s\<lparr>ca_done := Some (cur (pub_view ?q))\<rparr>" by (auto split: if_splits)
    have "sees_all cap ?q (cur (pub_view ?q))" "view_within (bc_newest ?q) (cur (pub_view ?q))"
      using q p(2) idle_pub_view by (auto simp: cast_queue_ok_def tview_within_def dest: bc_withinD(7))
    with p flag count q r show ?thesis by (auto simp: cast_inv_def cast_flag_ok_def cast_count_ok_def)
  next
    case CastRead
    with step obtain c where c: "bc_step cap 1 ?q (SubCall 0) = Some c" "h_phase (ca_cons s) \<in> {Reading, Draining}"
      "s' = s\<lparr>ca_queue := c\<rparr>" by (auto split: if_splits)
    from c(1) r have c': "c = ?q\<lparr>subs := (subs ?q)(0 \<mapsto> sub_call r)\<rparr>" by (auto split: sub_pc.splits)
    have newest: "bc_newest c = bc_newest ?q" by (rule bc_newest_cong) (simp_all add: c')
    from c(2,3) flag count newest have "cast_flag_ok cap s' (sub_call r)" "cast_count_ok n accepts warmup s' (sub_call r)"
      by (auto simp: cast_flag_ok_def cast_count_ok_def c' sub_call_def)
    with cast_queue_step [OF q c(1)] c(3) show ?thesis by (auto simp: cast_inv_def c')
  next
    case (CastReadStep t now)
    with step r obtain r' c where st: "sub_step cap 1 t ?q r = Some r'"
      and c: "c = ?q\<lparr>subs := (subs ?q)(0 \<mapsto> r')\<rparr>" and s': "s' = cast_read accepts warmup now s c r'"
      by (auto split: option.splits)
    show ?thesis unfolding s' by (rule cast_read_step_inv [OF inv lim r st c])
  next
    case (CastLoadDone b)
    show ?thesis
    proof (cases b)
      case False
      with step CastLoadDone have "s' = s\<lparr>ca_cons := (ca_cons s)\<lparr>h_phase := Reading\<rparr>\<rparr>" by (auto split: if_splits)
      with q r flag count show ?thesis by (auto simp: cast_inv_def cast_flag_ok_def cast_count_ok_def)
    next
      case True
      let ?c = "\<lambda>w. ?q\<lparr>subs := (subs ?q)(0 \<mapsto> sub_acquire w r)\<rparr>"
      from True CastLoadDone step r obtain w where w: "h_phase (ca_cons s) = CheckDone" "ca_done s = Some w"
        "s' = s\<lparr>ca_queue := ?c w, ca_cons := (ca_cons s)\<lparr>h_phase := Draining\<rparr>\<rparr>"
        by (auto split: if_splits option.splits)
      with flag have v: "view_within (bc_newest ?q) w" "sees_all cap ?q w" "b_pc r = SubIdle"
        by (simp_all add: cast_flag_ok_def)
      have newest: "bc_newest (?c w) = bc_newest ?q" by (rule bc_newest_cong) simp_all
      have "cast_queue_ok cap (?c w)"
        using q r v by (auto simp: cast_queue_ok_def intro: bc_inv_acquire bc_within_acquire)
      moreover have "sees_all cap ?q (cur (b_view (sub_acquire w r)))"
        by (rule sees_all_mono [OF v(2)]) (simp add: sub_acquire_def)
      then have "cast_flag_ok cap s' (sub_acquire w r)" "cast_count_ok n accepts warmup s' (sub_acquire w r)"
        using flag count w newest v by (auto simp: cast_flag_ok_def cast_count_ok_def sub_acquire_def)
      ultimately show ?thesis using w(3) by (auto simp: cast_inv_def)
    qed
  qed
qed

lemma cast_new_inv: "is_power_of_two cap \<Longrightarrow> cast_inv cap n accepts warmup (cast_new n)"
proof -
  assume p: "is_power_of_two cap"
  have "bc_reach cap 1 [0] (bc_new [0 :: u64])" by (rule bc_init [OF p]) simp
  from bc_reach_inv [OF this] bc_reach_within [OF this] show ?thesis
    by (auto simp: cast_inv_def cast_queue_ok_def cast_new_def cast_flag_ok_def cast_count_ok_def bc_new_def
        hcons_new_def seen_results_def)
qed

lemma cast_reach_inv: "cast_reach cap n accepts warmup s \<Longrightarrow> n \<le> 2 ^ 63 \<Longrightarrow> cast_inv cap n accepts warmup s"
proof (induction rule: cast_reach.induct)
  case (cast_next s e s')
  from cast_step_inv [OF cast_next.IH [OF cast_next.prems] cast_next.prems cast_next.hyps(2)] show ?case .
qed (rule cast_new_inv)

section \<open>The draining consumer\<close>

text \<open>A copy begun by a consumer that sees everything is of the newest value of its slot.\<close>

definition newest_seq :: "usize \<Rightarrow> 'v bc \<Rightarrow> 'v sub \<Rightarrow> usize" where
  "newest_seq cap c r = fst (last (sseq_h c (slot_index cap (read_cursor (b_local r)))))"

fun sub_current :: "usize \<Rightarrow> 'v sub_pc \<Rightarrow> bool" where
  "sub_current v (SubData x buf) \<longleftrightarrow> x = v"
| "sub_current v (SubSeq2 x buf) \<longleftrightarrow> x = v"
| "sub_current v _ \<longleftrightarrow> True"

fun sub_rank :: "'v sub_pc \<Rightarrow> nat" where
  "sub_rank SubIdle = 7"
| "sub_rank SubCursor = 6"
| "sub_rank SubSeq1 = 5"
| "sub_rank (SubData x buf) = 4 - length buf"
| "sub_rank (SubSeq2 x buf) = 2"
| "sub_rank SubLapped = 1"

lemma drain_sub_step:
  assumes inv: "bc_inv cap 1 c" and lim: "length (published c) \<le> 2 ^ 63" and idle: "pub_state c = PubIdle"
    and r: "subs c i = Some r" and sees: "sees_all cap c (cur (b_view r))"
    and current: "sub_current (newest_seq cap c r) (b_pc r)" and step: "sub_step cap 1 t c r = Some r'"
  shows "sub_current (newest_seq cap c r') (b_pc r') \<and>
    (b_pc r' \<noteq> SubIdle \<and> sub_pos r' = sub_pos r \<and> sub_rank (b_pc r') < sub_rank (b_pc r) \<or>
     b_pc r' = SubIdle \<and> (last (b_results r') = Empty \<or> sub_pos r < sub_pos r'))"
proof -
  let ?C = "unat cap" and ?R = "sub_pos r"
  let ?j = "?R mod ?C"
  note si = bc_inv_sub [OF inv r lim]
  from si(2) idle obtain w where p2: "is_power_of_two cap"
    and p: "bc_pub_inv ?C 1 w (wcur_h c) (sseq_h c) (sdata_h c) (published c) (pub_view c) PubIdle"
    by (auto simp: pub_inv_def)
  have C: "0 < ?C" and j: "?j < ?C" using power_of_two_pos [OF p2] by simp_all
  note hist = bc_pub_invD(2) [OF p] and h = bc_hist_invD [OF bc_pub_invD(2) [OF p]]
  have lenP: "length (published c) = w" "length (wcur_h c) = Suc w" using bc_pub_invD(3,4) [OF p] by simp_all
  have lenS: "length (sseq_h c ?j) = Suc (2 * visits ?C ?j w)" using bc_pub_invD(5) [OF p j] by simp
  from si(1) obtain v where e: "explained ?C (published c) (b_start r) (b_results r)"
    "read_cursor (b_local r) = of_nat ?R" "?R \<le> v" "v < length (wcur_h c)" "v \<le> cur (b_view r) WCur"
    "\<And>j. j < ?C \<Longrightarrow> 2 * visits ?C j v \<le> cur (b_view r) (SSeq j)"
    "sub_regs ?C 1 (sdata_h c ?j) (length (published c)) (b_view r) ?R v (b_pc r)"
    by (auto elim: sub_invE)
  have ix: "slot_index cap (read_cursor (b_local r)) = ?j" unfolding e(2) by (rule slot_index_of_nat [OF p2])
  have seen: "w \<le> cur (b_view r) WCur" "2 * visits ?C ?j w \<le> cur (b_view r) (SSeq ?j)"
    using sees j lenP lenS by (auto simp: sees_all_def)
  have last_seq: "last (sseq_h c ?j) = sseq_h c ?j ! (2 * visits ?C ?j w)" by (rule last_entry [OF lenS])
  note step' = step [unfolded sub_step_def Let_def ix]
  show ?thesis
  proof (cases "b_pc r")
    case SubIdle
    with step' show ?thesis by simp
  next
    case SubCursor
    with step' show ?thesis by (auto simp: newest_seq_def split: option.splits if_splits)
  next
    case SubSeq1
    with step' obtain x V where ld: "load_acquire (SSeq ?j) (sseq_h c ?j) t (b_view r) = Some (x, V)"
      and r': "r' = r\<lparr>b_pc := if x AND 1 = 1 then SubSeq1
        else if x \<noteq> read_cursor (b_local r) * 2 + 2 then SubLapped else SubData x [], b_view := V\<rparr>"
      by (auto split: option.splits)
    note l = load_acquire_Some [OF ld]
    have t: "t = 2 * visits ?C ?j w" using l(1,2) lenS seen(2) by simp
    have R: "?R < v" using e(7) SubSeq1 by simp
    have "2 * visits ?C ?j v \<le> t" using e(6) [OF j] l(2) by simp
    from slot_entry [OF hist C lim R this l(1)] l(3) t have "x AND 1 \<noteq> 1" by auto
    moreover have "x = newest_seq cap c r" using l(3) t last_seq by (simp add: newest_seq_def ix)
    ultimately show ?thesis using SubSeq1 by (simp add: r' newest_seq_def)
  next
    case (SubData s1 buf)
    with current step' e(7) show ?thesis
      by (auto simp: newest_seq_def sub_parts_def split: option.splits if_splits)
  next
    case (SubSeq2 s1 buf)
    with step' obtain x V where ld: "load_relaxed (SSeq ?j) (sseq_h c ?j) t (b_view r) = Some (x, V)"
      by (auto split: option.splits)
    note l = load_relaxed_Some [OF ld]
    have t: "t = 2 * visits ?C ?j w" using l(1,2) lenS seen(2) by simp
    have "x = newest_seq cap c r" using l(3) t last_seq by (simp add: newest_seq_def ix)
    with current SubSeq2 have "s1 = x" by simp
    with step' SubSeq2 ld show ?thesis by (auto simp: sub_pos_def)
  next
    case SubLapped
    with step' obtain x V where ld: "load_acquire WCur (wcur_h c) t (b_view r) = Some (x, V)"
      by (auto split: option.splits)
    obtain res :: "'a list read_result" and k where jump: "lapped x (b_local r) = (res, k)" by (metis surj_pair)
    from step' SubLapped ld jump have r': "r' = r\<lparr>b_pc := SubIdle, b_local := k, b_view := V, b_results := b_results r @ [res]\<rparr>"
      by simp
    note l = load_acquire_Some [OF ld]
    have t: "t = w" using l(1,2) lenP seen(1) by simp
    from e(7) SubLapped lenP(1) obtain q where q: "?R + ?C \<le> q" "q < w" by auto
    have "(of_nat w :: usize) - 1 - of_nat ?R = of_nat (w - 1 - ?R)" using q C by (simp add: of_nat_diff)
    then have res: "res = Lapped (of_nat (w - 1 - ?R))"
      using jump e(2) l(3) h(1) [of w] lenP(2) t by (auto simp: lapped_def Let_def)
    have "w - 1 - ?R < 2 ^ 64" using lim lenP(1) by simp
    then have "unat (of_nat (w - 1 - ?R) :: usize) = w - 1 - ?R" unfolding unat_of_nat_usize by (rule mod_less)
    with q C show ?thesis by (simp add: r' res sub_pos_def)
  qed
qed

lemma sub_step_enabled:
  assumes w: "bc_within c" and r: "subs c i = Some r" "b_pc r \<noteq> SubIdle"
  shows "\<exists>r'. sub_step cap n (bc_newest c (sub_next_loc cap r)) c r = Some r'"
proof -
  note V = bc_withinD(8) [OF w r(1)]
  note n1 = load_newest(1) [OF V] and n2 = load_newest(2) [OF V]
  let ?j = "slot_index cap (read_cursor (b_local r))"
  note step = sub_step_def Let_def sub_next_loc_def
  show ?thesis
  proof (cases "b_pc r")
    case SubCursor
    with n1 [OF bc_withinD(1) [OF w]] show ?thesis by (auto simp: step simp del: bc_newest_simps)
  next
    case SubSeq1
    with n1 [OF bc_withinD(2) [OF w, of ?j]] show ?thesis by (auto simp: step simp del: bc_newest_simps)
  next
    case (SubData x buf)
    with n2 [OF bc_withinD(3) [OF w, of ?j "length buf"]] show ?thesis by (auto simp: step simp del: bc_newest_simps)
  next
    case (SubSeq2 x buf)
    with n2 [OF bc_withinD(2) [OF w, of ?j]] show ?thesis by (auto simp: step simp del: bc_newest_simps)
  next
    case SubLapped
    with n1 [OF bc_withinD(1) [OF w]] show ?thesis by (auto simp: step simp del: bc_newest_simps split: prod.splits)
  qed (use r(2) in simp)
qed

text \<open>How many steps the draining consumer has left, at most.\<close>

definition cast_rank :: "cast \<Rightarrow> nat" where
  "cast_rank s =
     (if h_phase (ca_cons s) = Returned then 0
      else case subs (ca_queue s) 0 of
        None \<Rightarrow> 0
      | Some r \<Rightarrow> 8 * (length (published (ca_queue s)) - sub_pos r) + sub_rank (b_pc r))"

fun cast_consumer_event :: "cast_event \<Rightarrow> bool" where
  "cast_consumer_event CastRead = True"
| "cast_consumer_event (CastReadStep t now) = True"
| "cast_consumer_event (CastLoadDone b) = True"
| "cast_consumer_event _ = False"

definition drain_ok :: "usize \<Rightarrow> cast \<Rightarrow> bool" where
  "drain_ok cap s \<longleftrightarrow>
     (h_phase (ca_cons s) = Draining \<longrightarrow>
       (\<forall>r. subs (ca_queue s) 0 = Some r \<longrightarrow> sub_current (newest_seq cap (ca_queue s) r) (b_pc r)))"

lemma cast_invE:
  assumes "cast_inv cap n accepts warmup s"
  obtains r where "subs (ca_queue s) 0 = Some r" "bc_inv cap 1 (ca_queue s)" "bc_within (ca_queue s)"
    "cast_flag_ok cap s r" "cast_count_ok n accepts warmup s r"
  using assms by (auto simp: cast_inv_def cast_queue_ok_def)

text \<open>While the consumer drains, every possible step is its own and brings it closer to its end.\<close>

lemma cast_drain_read:
  assumes inv: "cast_inv cap n accepts warmup s" and lim: "n \<le> 2 ^ 63" and drain: "h_phase (ca_cons s) = Draining"
    and ok: "drain_ok cap s" and r: "subs (ca_queue s) 0 = Some r" and st: "sub_step cap 1 t (ca_queue s) r = Some r'"
    and c: "c = (ca_queue s)\<lparr>subs := (subs (ca_queue s))(0 \<mapsto> r')\<rparr>"
  shows "drain_ok cap (cast_read accepts warmup now s c r') \<and> cast_rank (cast_read accepts warmup now s c r') < cast_rank s \<and>
    h_phase (ca_cons (cast_read accepts warmup now s c r')) \<in> {Draining, Returned}"
proof -
  let ?q = "ca_queue s"
  from inv r have q: "bc_inv cap 1 ?q" and flag: "cast_flag_ok cap s r" and count: "cast_count_ok n accepts warmup s r"
    by (auto elim!: cast_invE)
  have lim': "length (published ?q) \<le> 2 ^ 63" using count lim by (simp add: cast_count_ok_def)
  have idle: "pub_state ?q = PubIdle" "sees_all cap ?q (cur (b_view r))" using flag drain by (auto simp: cast_flag_ok_def)
  have current: "sub_current (newest_seq cap ?q r) (b_pc r)" using ok drain r by (simp add: drain_ok_def)
  note d = drain_sub_step [OF q lim' idle(1) r idle(2) current st]
  have inv': "cast_inv cap n accepts warmup (cast_read accepts warmup now s c r')" by (rule cast_read_step_inv [OF inv lim r st c])
  have sub0: "subs c 0 = Some r'" by (simp add: c)
  have "bc_inv cap 1 c" using inv' by (auto elim!: cast_invE)
  from bc_inv_sub(1) [OF this sub0] lim' have "explained (unat cap) (published ?q) (b_start r') (b_results r')"
    by (auto simp: c elim: sub_invE)
  then have le: "sub_pos r' \<le> length (published ?q)"
    using explained_pos count sub_step_frame [OF st] by (fastforce simp: sub_pos_def cast_count_ok_def)
  have pos: "0 < sub_rank (b_pc r)" using sub_step_busy [OF st] current
    by (cases "b_pc r") (use bc_inv_sub(1) [OF q r lim'] in \<open>auto simp: sub_parts_def elim!: sub_invE\<close>)
  have newest: "newest_seq cap c r' = newest_seq cap ?q r'" by (simp add: newest_seq_def c)
  show ?thesis
  proof (cases "b_pc r' = SubIdle")
    case False
    then have s': "cast_read accepts warmup now s c r' = s\<lparr>ca_queue := c\<rparr>" by (simp add: cast_read_def)
    from d False have "sub_pos r' = sub_pos r" "sub_rank (b_pc r') < sub_rank (b_pc r)" by simp_all
    with d drain r show ?thesis unfolding s' by (simp add: drain_ok_def cast_rank_def c newest_seq_def)
  next
    case True
    note phase = cast_read_phase [OF True, of accepts warmup now s c]
    from d True consider "last (b_results r') = Empty" | "last (b_results r') \<noteq> Empty" "sub_pos r < sub_pos r'" by auto
    then show ?thesis
    proof cases
      case 1
      with phase drain pos r show ?thesis by (simp add: drain_ok_def cast_rank_def)
    next
      case 2
      with phase drain pos r le sub0 True show ?thesis by (simp add: drain_ok_def cast_rank_def c)
    qed
  qed
qed

lemma cast_drain_step:
  assumes inv: "cast_inv cap n accepts warmup s" and lim: "n \<le> 2 ^ 63" and drain: "h_phase (ca_cons s) = Draining"
    and ok: "drain_ok cap s" and step: "cast_step cap accepts warmup s e = Some s'"
  shows "cast_consumer_event e \<and> drain_ok cap s' \<and> cast_rank s' < cast_rank s \<and> h_phase (ca_cons s') \<in> {Draining, Returned}"
  using inv
proof (rule cast_invE)
  let ?q = "ca_queue s"
  fix r assume r: "subs ?q 0 = Some r" and flag: "cast_flag_ok cap s r"
  have p: "ca_done s \<noteq> None" "ca_left s = 0" "pub_state ?q = PubIdle"
    using flag drain by (auto simp: cast_flag_ok_def)
  show ?thesis
  proof (cases e)
    case CastRead
    with step drain r obtain "b_pc r = SubIdle" and s': "s' = s\<lparr>ca_queue := ?q\<lparr>subs := (subs ?q)(0 \<mapsto> sub_call r)\<rparr>\<rparr>"
      by (auto split: sub_pc.splits)
    then show ?thesis using CastRead drain r by (simp add: drain_ok_def cast_rank_def sub_call_def sub_pos_def)
  next
    case (CastReadStep t now)
    with step r obtain r' c where st: "sub_step cap 1 t ?q r = Some r'"
      and c: "c = ?q\<lparr>subs := (subs ?q)(0 \<mapsto> r')\<rparr>" and s': "s' = cast_read accepts warmup now s c r'"
      by (auto split: option.splits)
    from cast_drain_read [OF inv lim drain ok r st c, of now] CastReadStep show ?thesis unfolding s' by simp
  qed (use step p drain in \<open>auto simp: pub_step_def split: if_splits\<close>)
qed

lemma cast_step_drain_ok:
  assumes inv: "cast_inv cap n accepts warmup s" and lim: "n \<le> 2 ^ 63" and ok: "drain_ok cap s"
    and step: "cast_step cap accepts warmup s e = Some s'"
  shows "drain_ok cap s'"
proof (cases "h_phase (ca_cons s) = Draining")
  case True
  from cast_drain_step [OF inv lim True ok step] show ?thesis by blast
next
  case False
  from inv obtain r where r: "subs (ca_queue s) 0 = Some r" and flag: "cast_flag_ok cap s r" by (rule cast_invE)
  show ?thesis
  proof (cases e)
    case (CastReadStep t now)
    with step r obtain c r' where "s' = cast_read accepts warmup now s c r'" by (auto split: option.splits)
    moreover have "h_phase (ca_cons (cast_read accepts warmup now s c r')) \<noteq> Draining"
      using False by (cases "b_pc r' = SubIdle") (simp_all add: cast_read_phase, simp add: cast_read_def)
    ultimately show ?thesis by (simp add: drain_ok_def)
  next
    case (CastLoadDone b)
    with step r flag show ?thesis
      by (auto simp: drain_ok_def cast_flag_ok_def sub_acquire_def split: if_splits option.splits)
  qed (use step False in \<open>auto simp: drain_ok_def split: if_splits\<close>)
qed

lemma cast_reach_drain_ok: "cast_reach cap n accepts warmup s \<Longrightarrow> n \<le> 2 ^ 63 \<Longrightarrow> drain_ok cap s"
proof (induction rule: cast_reach.induct)
  case cast_init
  then show ?case by (simp add: drain_ok_def cast_new_def hcons_new_def)
next
  case (cast_next s e s')
  from cast_step_drain_ok [OF cast_reach_inv [OF cast_next.hyps(1) cast_next.prems] cast_next.prems
      cast_next.IH [OF cast_next.prems] cast_next.hyps(2)] show ?case .
qed

lemma cast_drain_enabled:
  assumes "cast_inv cap n accepts warmup s" "h_phase (ca_cons s) = Draining"
  shows "\<exists>e s'. cast_step cap accepts warmup s e = Some s'"
  using assms(1)
proof (rule cast_invE)
  let ?q = "ca_queue s"
  fix r assume r: "subs ?q 0 = Some r" and w: "bc_within ?q"
  show ?thesis
  proof (cases "b_pc r = SubIdle")
    case True
    with r assms(2) show ?thesis by (intro exI [of _ CastRead]) simp
  next
    case False
    from sub_step_enabled [OF w r False, of cap 1] obtain r' where
      "sub_step cap 1 (bc_newest ?q (sub_next_loc cap r)) ?q r = Some r'" by blast
    with r show ?thesis by (intro exI [of _ "CastReadStep (bc_newest ?q (sub_next_loc cap r)) 0"]) simp
  qed
qed

section \<open>Properties\<close>

lemma bench_results_received: "s_received (map bench_result rs) = map hd (received rs)"
  by (induction rs rule: received.induct) (simp_all add: bench_result_def)

lemma bench_results_skipped: "s_skipped (map bench_result rs) = skipped_total rs"
  by (induction rs rule: skipped_total.induct) (simp_all add: bench_result_def s_skipped_def)

lemma cast_inv_account:
  assumes "cast_inv cap n accepts warmup s" "n \<le> 2 ^ 63" "subs (ca_queue s) 0 = Some r"
  shows "sub_pos r = length (s_received (map fst (ca_log s))) + s_skipped (map fst (ca_log s))"
    "subseq (s_received (map fst (ca_log s))) (map hd (published (ca_queue s)))"
proof -
  from assms(1,3) have q: "bc_inv cap 1 (ca_queue s)" and count: "cast_count_ok n accepts warmup s r"
    by (auto elim!: cast_invE)
  then have lim: "length (published (ca_queue s)) \<le> 2 ^ 63" and start: "b_start r = 0"
    and log: "map fst (ca_log s) = map bench_result (b_results r)"
    using assms(2) by (simp_all add: cast_count_ok_def)
  show "sub_pos r = length (s_received (map fst (ca_log s))) + s_skipped (map fst (ca_log s))"
    unfolding log bench_results_received bench_results_skipped by (simp add: sub_pos_def start advance_total)
  from bc_inv_sub(1) [OF q assms(3) lim]
  have "explained (unat cap) (published (ca_queue s)) (b_start r) (b_results r)" by (rule sub_invE)
  from explained_subseq [OF this] start have "subseq (received (b_results r)) (published (ca_queue s))" by simp
  then show "subseq (s_received (map fst (ca_log s))) (map hd (published (ca_queue s)))"
    unfolding log bench_results_received by (rule subseq_map)
qed

text \<open>A run in which the consumer finds an old cursor just before it sees \<open>done\<close>.\<close>

definition cast_events :: "cast_event list" where
  "cast_events =
     CastPublish 20 # map CastPubStep [0, 0, 0, 0, 0, 0] @
     [CastStoreDone, CastRead, CastReadStep 0 0, CastLoadDone True,
      CastRead, CastReadStep 1 0, CastReadStep 2 0, CastReadStep 1 0, CastReadStep 0 0, CastReadStep 2 27,
      CastRead, CastReadStep 1 0]"

lemma demo_cast_run:
  "map_option (\<lambda>s. (h_phase (ca_cons s), h_hist (ca_cons s), map fst (ca_log s)))
     (cast_run 2 (\<lambda>_. True) 0 (cast_new 1) cast_events) =
   Some (Returned, [7], [SEmpty, SValue 20, SEmpty])"
  by code_simp

lemma demo_cast_draining:
  "map_option (\<lambda>s. (h_phase (ca_cons s), map fst (ca_log s)))
     (cast_run 2 (\<lambda>_. True) 0 (cast_new 1) (take 11 cast_events)) = Some (Draining, [SEmpty])"
  by code_simp

lemma demo_two_power: "is_power_of_two 2"
  by code_simp

text \<open>C14: In the SPMC handoff benchmark under weak memory, where a read may overlap a publish and find an old
  cursor, sequence number, value or \<open>done\<close>: the stamps the consumer receives are a subsequence of
  those published, and when its thread has returned all \<open>n\<close> have been published, each is received or
  announced as skipped, and the histogram holds, of the ages of the values after the first \<open>warmup\<close>
  results, those that \<open>record\<close> takes, in order.
\<close>

theorem spmc_handoff_weak_accounts:
  assumes "cast_reach cap n accepts warmup s" "n \<le> 2 ^ 63"
  shows "subseq (s_received (map fst (ca_log s))) (map hd (published (ca_queue s))) \<and>
    (h_phase (ca_cons s) = Returned \<longrightarrow>
       length (published (ca_queue s)) = n \<and>
       length (s_received (map fst (ca_log s))) + s_skipped (map fst (ca_log s)) = n \<and>
       h_hist (ca_cons s) = filter accepts (stamp_ages (drop warmup (seen_results (ca_log s)))))"
proof -
  have inv: "cast_inv cap n accepts warmup s" by (rule cast_reach_inv [OF assms])
  then obtain r where r: "subs (ca_queue s) 0 = Some r" and flag: "cast_flag_ok cap s r"
    and count: "cast_count_ok n accepts warmup s r" by (rule cast_invE)
  from cast_inv_account [OF inv assms(2) r] flag count show ?thesis
    by (auto simp: cast_flag_ok_def cast_count_ok_def)
qed

theorem spmc_handoff_weak_accounts_witness:
  "\<exists>s. cast_reach 2 1 (\<lambda>_. True) 0 s \<and> h_phase (ca_cons s) = Returned \<and> h_hist (ca_cons s) = [7] \<and>
     length (s_received (map fst (ca_log s))) + s_skipped (map fst (ca_log s)) = 1"
proof -
  from demo_cast_run obtain s where s: "cast_run 2 (\<lambda>_. True) 0 (cast_new 1) cast_events = Some s"
    "h_phase (ca_cons s) = Returned" "h_hist (ca_cons s) = [7]" by auto
  from cast_reach_run [OF cast_init [OF demo_two_power] s(1)] have reach: "cast_reach 2 1 (\<lambda>_. True) 0 s" .
  from spmc_handoff_weak_accounts [OF this] s reach show ?thesis by auto
qed

text \<open>And it ends: once the consumer has seen \<open>done\<close> there is always a step, every step is its own and brings
  it closer to its end, and it has at most \<open>8\<close> steps for each value it has neither received nor skipped
  and \<open>7\<close> more; no retry of \<open>try_read\<close> is left.
\<close>

theorem spmc_handoff_weak_ends:
  assumes "cast_reach cap n accepts warmup s" "n \<le> 2 ^ 63" "h_phase (ca_cons s) = Draining"
  shows "cast_rank s \<le> 8 * (n - (length (s_received (map fst (ca_log s))) + s_skipped (map fst (ca_log s)))) + 7 \<and>
    (\<exists>e s'. cast_step cap accepts warmup s e = Some s') \<and>
    (\<forall>e s'. cast_step cap accepts warmup s e = Some s' \<longrightarrow>
       cast_consumer_event e \<and> cast_rank s' < cast_rank s \<and> h_phase (ca_cons s') \<in> {Draining, Returned})"
proof (intro conjI allI impI)
  have inv: "cast_inv cap n accepts warmup s" by (rule cast_reach_inv [OF assms(1,2)])
  then obtain r where r: "subs (ca_queue s) 0 = Some r" and flag: "cast_flag_ok cap s r"
    and count: "cast_count_ok n accepts warmup s r" by (rule cast_invE)
  have "sub_rank (b_pc r) \<le> 7" by (cases "b_pc r") simp_all
  then show "cast_rank s \<le> 8 * (n - (length (s_received (map fst (ca_log s))) + s_skipped (map fst (ca_log s)))) + 7"
    using cast_inv_account(1) [OF inv assms(2) r] r flag count assms(3)
    by (auto simp: cast_rank_def cast_flag_ok_def cast_count_ok_def)
  show "\<exists>e s'. cast_step cap accepts warmup s e = Some s'" by (rule cast_drain_enabled [OF inv assms(3)])
  fix e s' assume "cast_step cap accepts warmup s e = Some s'"
  from cast_drain_step [OF inv assms(2,3) cast_reach_drain_ok [OF assms(1,2)] this]
  show "cast_consumer_event e" "cast_rank s' < cast_rank s" "h_phase (ca_cons s') \<in> {Draining, Returned}" by simp_all
qed

theorem spmc_handoff_weak_ends_witness:
  "\<exists>s. cast_reach 2 1 (\<lambda>_. True) 0 s \<and> h_phase (ca_cons s) = Draining \<and> cast_rank s \<le> 15"
proof -
  from demo_cast_draining obtain s where s: "cast_run 2 (\<lambda>_. True) 0 (cast_new 1) (take 11 cast_events) = Some s"
    "h_phase (ca_cons s) = Draining" "map fst (ca_log s) = [SEmpty]" by auto
  from cast_reach_run [OF cast_init [OF demo_two_power] s(1)] have reach: "cast_reach 2 1 (\<lambda>_. True) 0 s" .
  from spmc_handoff_weak_ends [OF this _ s(2)] s(3) have "cast_rank s \<le> 15" by (simp add: s_skipped_def)
  with reach s(2) show ?thesis by blast
qed

end
