(* ===== verification/Seqlock.thy ===== *)
theory Seqlock
  imports Weak_Memory
begin

text \<open>
  The seqlock, \<open>src/src/seqlock\<close>. First the operations run one at a time (\<open>seqlock_write\<close>,
  \<open>seqlock_read\<close>), then the same code as a machine on \<open>Weak_Memory\<close>: one writer thread, any
  number of reader threads, one memory access or fence per step, the value copied in \<open>n\<close> parts
  so that it can be torn. The program counters name the source line that runs next.
\<close>

section \<open>The operations one at a time\<close>

record 'v seqlock_inner =
  sl_data :: 'v
  sl_seq :: u64

definition seqlock_new :: "'v \<Rightarrow> 'v seqlock_inner" where
  "seqlock_new initial_value = \<lparr>sl_data = initial_value, sl_seq = 0\<rparr>"

definition seqlock_write :: "'v seqlock_inner \<Rightarrow> 'v \<Rightarrow> 'v seqlock_inner" where
  "seqlock_write l value =
     (let s = sl_seq l;
          l = l\<lparr>sl_seq := s + 1\<rparr>;
          l = l\<lparr>sl_data := value\<rparr>
      in l\<lparr>sl_seq := s + 2\<rparr>)"

text \<open>The read loop; \<open>None\<close> when it never returns.\<close>

partial_function (option) seqlock_read :: "'v seqlock_inner \<Rightarrow> 'v option" where
  "seqlock_read l =
     (let s1 = sl_seq l
      in if s1 AND 1 = 1 then seqlock_read l
         else let read_attempt = sl_data l; s2 = sl_seq l
           in if s1 = s2 then Some read_attempt else seqlock_read l)"

declare seqlock_read.simps [code]

fun seqlock_writes :: "'v seqlock_inner \<Rightarrow> 'v list \<Rightarrow> 'v seqlock_inner" where
  "seqlock_writes l [] = l"
| "seqlock_writes l (v # vs) = seqlock_writes (seqlock_write l v) vs"

definition seq_even :: "'v seqlock_inner \<Rightarrow> bool" where
  "seq_even l \<longleftrightarrow> sl_seq l AND 1 \<noteq> 1"

lemma and_1_plus_2: "(s + 2 :: u64) AND 1 = 1 \<longleftrightarrow> s AND 1 = 1"
proof -
  obtain n where s: "s = of_nat n" by (metis of_nat_unat ucast_id)
  then have "s + 2 = of_nat (n + 2)" by simp
  with s show ?thesis by (simp only: and_1_of_nat even_add) simp
qed

lemma seqlock_write_simps [simp]:
  "sl_data (seqlock_write l v) = v" "sl_seq (seqlock_write l v) = sl_seq l + 2"
  "seq_even (seqlock_write l v) = seq_even l"
  by (simp_all add: seqlock_write_def seq_even_def and_1_plus_2)

lemma seqlock_new_simps [simp]:
  "sl_data (seqlock_new v) = v" "sl_seq (seqlock_new v) = 0" "seq_even (seqlock_new v)"
  by (simp_all add: seqlock_new_def seq_even_def)

lemma seqlock_read_even: "seq_even l \<Longrightarrow> seqlock_read l = Some (sl_data l)"
  by (subst seqlock_read.simps) (simp add: seq_even_def Let_def)

lemma seqlock_writes_simps:
  "sl_data (seqlock_writes l vs) = last (sl_data l # vs)"
  "sl_seq (seqlock_writes l vs) = sl_seq l + 2 * of_nat (length vs)"
  "seq_even (seqlock_writes l vs) = seq_even l"
  by (induction vs arbitrary: l) (simp_all add: algebra_simps)

section \<open>The machine\<close>

datatype sl_loc = Seq | Data nat

text \<open>
  The writer: before line 66 (load \<open>s\<close>), 67 (store \<open>s + 1\<close>), 69 (release fence), 73 (part \<open>i\<close>
  of the value) and, when all parts are stored, 74 (store \<open>s + 2\<close>).
\<close>

datatype 'v wpc =
    WIdle
  | WLoad "'v list"
  | WOdd "'v list" u64
  | WFence "'v list" u64
  | WData "'v list" u64 nat

text \<open>
  A reader: outside \<open>read\<close>, before line 80 (load \<open>s1\<close>), 86 (part \<open>length buf\<close> of the value; when
  all parts are read, the fence of line 88) and 89 (load \<open>s2\<close> and compare).
\<close>

datatype 'v rpc =
    RIdle
  | RSeq1
  | RData u64 "'v list"
  | RSeq2 u64 "'v list"

record 'v reader =
  r_pc :: "'v rpc"
  r_view :: "sl_loc tview"
  r_got :: "'v list list"   \<comment> \<open>what its finished calls of \<open>read\<close> returned, in order\<close>

record 'v sl =
  seq_h :: "(sl_loc, u64) hist"
  data_h :: "nat \<Rightarrow> (sl_loc, 'v) hist"
  w_pc :: "'v wpc"
  w_view :: "sl_loc tview"
  readers :: "nat \<Rightarrow> 'v reader option"
  written :: "'v list list"   \<comment> \<open>the initial value and the arguments of the calls of \<open>write\<close>\<close>

definition reader_new :: "sl_loc tview \<Rightarrow> 'v reader" where
  "reader_new V = \<lparr>r_pc = RIdle, r_view = V, r_got = []\<rparr>"

definition sl_new :: "nat \<Rightarrow> 'v list \<Rightarrow> 'v sl" where
  "sl_new n v =
     \<lparr>seq_h = hist0 0, data_h = (\<lambda>i. hist0 (v ! i)), w_pc = WIdle, w_view = view0,
      readers = (\<lambda>_. None)(0 := Some (reader_new view0)), written = [v]\<rparr>"

text \<open>One step of \<open>SeqLockInner::write\<close>; \<open>ts\<close> picks the entry that a load reads.\<close>

definition sl_write_step :: "nat \<Rightarrow> nat \<Rightarrow> 'v sl \<Rightarrow> 'v sl option" where
  "sl_write_step n ts c =
     (case w_pc c of
        WIdle \<Rightarrow> None
      | WLoad v \<Rightarrow>
          (case load_relaxed Seq (seq_h c) ts (w_view c) of
             None \<Rightarrow> None
           | Some (s, V) \<Rightarrow> Some (c\<lparr>w_pc := WOdd v s, w_view := V\<rparr>))
      | WOdd v s \<Rightarrow>
          let (h, V) = store_relaxed Seq (s + 1) (seq_h c) (w_view c)
          in Some (c\<lparr>seq_h := h, w_pc := WFence v s, w_view := V\<rparr>)
      | WFence v s \<Rightarrow> Some (c\<lparr>w_pc := WData v s 0, w_view := fence_release (w_view c)\<rparr>)
      | WData v s i \<Rightarrow>
          if i < n
          then let (h, V) = store_relaxed (Data i) (v ! i) (data_h c i) (w_view c)
            in Some (c\<lparr>data_h := (data_h c)(i := h), w_pc := WData v s (Suc i), w_view := V\<rparr>)
          else let (h, V) = store_release Seq (s + 2) (seq_h c) (w_view c)
            in Some (c\<lparr>seq_h := h, w_pc := WIdle, w_view := V\<rparr>))"

text \<open>One step of \<open>SeqLockInner::read\<close> by a reader.\<close>

definition sl_read_step :: "nat \<Rightarrow> nat \<Rightarrow> 'v sl \<Rightarrow> 'v reader \<Rightarrow> 'v reader option" where
  "sl_read_step n ts c r =
     (case r_pc r of
        RIdle \<Rightarrow> None
      | RSeq1 \<Rightarrow>
          (case load_acquire Seq (seq_h c) ts (r_view r) of
             None \<Rightarrow> None
           | Some (s1, V) \<Rightarrow>
               Some (r\<lparr>r_pc := if s1 AND 1 = 1 then RSeq1 else RData s1 [], r_view := V\<rparr>))
      | RData s1 buf \<Rightarrow>
          if length buf < n
          then (case load_relaxed (Data (length buf)) (data_h c (length buf)) ts (r_view r) of
                  None \<Rightarrow> None
                | Some (x, V) \<Rightarrow> Some (r\<lparr>r_pc := RData s1 (buf @ [x]), r_view := V\<rparr>))
          else Some (r\<lparr>r_pc := RSeq2 s1 buf, r_view := fence_acquire (r_view r)\<rparr>)
      | RSeq2 s1 buf \<Rightarrow>
          (case load_relaxed Seq (seq_h c) ts (r_view r) of
             None \<Rightarrow> None
           | Some (s2, V) \<Rightarrow>
               Some (if s1 = s2
                     then r\<lparr>r_pc := RIdle, r_view := V, r_got := r_got r @ [buf]\<rparr>
                     else r\<lparr>r_pc := RSeq1, r_view := V\<rparr>)))"

datatype 'v sl_event =
    WriteCall "'v list"
  | WriteStep nat
  | ReadCall nat
  | ReadStep nat nat
  | CloneReader nat nat

fun sl_step :: "nat \<Rightarrow> 'v sl \<Rightarrow> 'v sl_event \<Rightarrow> 'v sl option" where
  "sl_step n c (WriteCall v) =
     (if w_pc c = WIdle \<and> length v = n
      then Some (c\<lparr>w_pc := WLoad v, written := written c @ [v]\<rparr>) else None)"
| "sl_step n c (WriteStep ts) = sl_write_step n ts c"
| "sl_step n c (ReadCall i) =
     (case readers c i of
        Some r \<Rightarrow> if r_pc r = RIdle then Some (c\<lparr>readers := (readers c)(i \<mapsto> r\<lparr>r_pc := RSeq1\<rparr>)\<rparr>) else None
      | None \<Rightarrow> None)"
| "sl_step n c (ReadStep i ts) =
     (case readers c i of
        Some r \<Rightarrow> (case sl_read_step n ts c r of
            Some r' \<Rightarrow> Some (c\<lparr>readers := (readers c)(i \<mapsto> r')\<rparr>)
          | None \<Rightarrow> None)
      | None \<Rightarrow> None)"
| "sl_step n c (CloneReader i j) =
     (case (readers c i, readers c j) of
        (Some r, None) \<Rightarrow> Some (c\<lparr>readers := (readers c)(j \<mapsto> reader_new (r_view r))\<rparr>)
      | _ \<Rightarrow> None)"

fun sl_run :: "nat \<Rightarrow> 'v sl \<Rightarrow> 'v sl_event list \<Rightarrow> 'v sl option" where
  "sl_run n c [] = Some c"
| "sl_run n c (e # es) = (case sl_step n c e of None \<Rightarrow> None | Some c' \<Rightarrow> sl_run n c' es)"

inductive sl_reach :: "nat \<Rightarrow> 'v list \<Rightarrow> 'v sl \<Rightarrow> bool" for n v0 where
  sl_init: "length v0 = n \<Longrightarrow> sl_reach n v0 (sl_new n v0)"
| sl_next: "sl_reach n v0 c \<Longrightarrow> sl_step n c e = Some c' \<Longrightarrow> sl_reach n v0 c'"

lemma sl_reach_run: "sl_reach n v0 c \<Longrightarrow> sl_run n c es = Some c' \<Longrightarrow> sl_reach n v0 c'"
  by (induction es arbitrary: c) (auto split: option.splits intro: sl_next)

section \<open>Invariants of the machine\<close>

text \<open>
  The histories: entry \<open>t\<close> of \<open>Seq\<close> is the number \<open>t\<close>; the entry \<open>2 * k\<close> that ends write \<open>k\<close>
  publishes part entries up to \<open>k\<close>; part entry \<open>j\<close> comes from value \<open>j\<close>, and carries the odd
  entry of its own write.
\<close>

definition sl_hist_inv ::
  "nat \<Rightarrow> (sl_loc, u64) hist \<Rightarrow> (nat \<Rightarrow> (sl_loc, 'v) hist) \<Rightarrow> 'v list list \<Rightarrow> bool" where
  "sl_hist_inv n sh dh W \<longleftrightarrow>
     (\<forall>t<length sh. fst (sh ! t) = of_nat t) \<and>
     (\<forall>k a. 2 * k < length sh \<longrightarrow> a < n \<longrightarrow> k \<le> snd (sh ! (2 * k)) (Data a)) \<and>
     (\<forall>a j. a < n \<longrightarrow> j < length (dh a) \<longrightarrow>
        j < length W \<and> fst (dh a ! j) = W ! j ! a \<and> 2 * j \<le> Suc (snd (dh a ! j) Seq)) \<and>
     (\<forall>v\<in>set W. length v = n) \<and> length sh < 2 * length W"

text \<open>
  How far the writer is. \<open>L\<close> values have been handed to \<open>write\<close> (the initial one included).
\<close>

fun sl_writer_inv ::
  "nat \<Rightarrow> nat \<Rightarrow> (nat \<Rightarrow> nat) \<Rightarrow> 'v list list \<Rightarrow> sl_loc tview \<Rightarrow> 'v wpc \<Rightarrow> bool" where
  "sl_writer_inv n ls ld W V WIdle \<longleftrightarrow>
     Suc ls = 2 * length W \<and> (\<forall>a<n. ld a = length W)"
| "sl_writer_inv n ls ld W V (WLoad v) \<longleftrightarrow>
     1 < length W \<and> v = last W \<and> ls + 3 = 2 * length W \<and> (\<forall>a<n. Suc (ld a) = length W)"
| "sl_writer_inv n ls ld W V (WOdd v s) \<longleftrightarrow>
     1 < length W \<and> v = last W \<and> ls + 3 = 2 * length W \<and> s = of_nat (ls - 1) \<and>
     (\<forall>a<n. Suc (ld a) = length W)"
| "sl_writer_inv n ls ld W V (WFence v s) \<longleftrightarrow>
     1 < length W \<and> v = last W \<and> ls + 2 = 2 * length W \<and> s = of_nat (ls - 2) \<and>
     (\<forall>a<n. Suc (ld a) = length W)"
| "sl_writer_inv n ls ld W V (WData v s i) \<longleftrightarrow>
     1 < length W \<and> v = last W \<and> ls + 2 = 2 * length W \<and> s = of_nat (ls - 2) \<and> i \<le> n \<and>
     ls \<le> Suc (rel V Seq) \<and>
     (\<forall>a<n. if a < i then ld a = length W else Suc (ld a) = length W)"

definition sl_writer_view :: "nat \<Rightarrow> nat \<Rightarrow> (nat \<Rightarrow> nat) \<Rightarrow> sl_loc tview \<Rightarrow> bool" where
  "sl_writer_view n ls ld V \<longleftrightarrow> Suc (cur V Seq) = ls \<and> (\<forall>a<n. Suc (cur V (Data a)) = ld a)"

text \<open>
  The values a reader has returned are values handed to \<open>write\<close>, in the order of the writes
  and none newer than sequence entry \<open>b\<close>.
\<close>

definition good_reads :: "'v list list \<Rightarrow> nat \<Rightarrow> 'v list list \<Rightarrow> bool" where
  "good_reads W b got \<longleftrightarrow>
     (\<exists>ks. sorted ks \<and> got = map ((!) W) ks \<and> (\<forall>k\<in>set ks. k < length W \<and> 2 * k \<le> b))"

definition sl_parts ::
  "nat \<Rightarrow> (nat \<Rightarrow> (sl_loc, 'v) hist) \<Rightarrow> nat \<Rightarrow> nat \<Rightarrow> 'v list \<Rightarrow> bool" where
  "sl_parts n dh t1 b buf \<longleftrightarrow>
     length buf \<le> n \<and>
     (\<forall>a<length buf. \<exists>j<length (dh a). t1 div 2 \<le> j \<and> buf ! a = fst (dh a ! j) \<and> 2 * j \<le> Suc b)"

definition sl_reader_inv ::
  "nat \<Rightarrow> (sl_loc, u64) hist \<Rightarrow> (nat \<Rightarrow> (sl_loc, 'v) hist) \<Rightarrow> 'v list list \<Rightarrow> 'v reader \<Rightarrow> bool" where
  "sl_reader_inv n sh dh W r \<longleftrightarrow>
     (case r_pc r of
        RIdle \<Rightarrow> length sh \<le> 2 ^ 64 \<longrightarrow> good_reads W (cur (r_view r) Seq) (r_got r)
      | RSeq1 \<Rightarrow> length sh \<le> 2 ^ 64 \<longrightarrow> good_reads W (cur (r_view r) Seq) (r_got r)
      | RData s1 buf \<Rightarrow> \<exists>t1. s1 = of_nat t1 \<and> even t1 \<and> t1 < length sh \<and>
          t1 \<le> cur (r_view r) Seq \<and> (\<forall>a<n. t1 div 2 \<le> cur (r_view r) (Data a)) \<and>
          sl_parts n dh t1 (acq (r_view r) Seq) buf \<and>
          (length sh \<le> 2 ^ 64 \<longrightarrow> good_reads W t1 (r_got r))
      | RSeq2 s1 buf \<Rightarrow> \<exists>t1. s1 = of_nat t1 \<and> even t1 \<and> t1 < length sh \<and>
          t1 \<le> cur (r_view r) Seq \<and> length buf = n \<and>
          sl_parts n dh t1 (cur (r_view r) Seq) buf \<and>
          (length sh \<le> 2 ^ 64 \<longrightarrow> good_reads W t1 (r_got r)))"

definition sl_inv :: "nat \<Rightarrow> 'v sl \<Rightarrow> bool" where
  "sl_inv n c \<longleftrightarrow>
     sl_hist_inv n (seq_h c) (data_h c) (written c) \<and>
     sl_writer_inv n (length (seq_h c)) (\<lambda>a. length (data_h c a)) (written c) (w_view c) (w_pc c) \<and>
     sl_writer_view n (length (seq_h c)) (\<lambda>a. length (data_h c a)) (w_view c) \<and>
     (\<forall>i r. readers c i = Some r \<longrightarrow> sl_reader_inv n (seq_h c) (data_h c) (written c) r)"

lemma good_reads_mono: "good_reads W b got \<Longrightarrow> b \<le> b' \<Longrightarrow> prefix W W' \<Longrightarrow> good_reads W' b' got"
  unfolding good_reads_def
  by (elim exE, rule_tac x = ks in exI) (fastforce simp: prefix_nth dest: prefix_length_le)

lemma good_reads_snoc:
  assumes "good_reads W (2 * k) got" "k < length W" "2 * k \<le> b"
  shows "good_reads W b (got @ [W ! k])"
proof -
  from assms(1) obtain ks where
    "sorted ks" "got = map ((!) W) ks" "\<forall>j\<in>set ks. j < length W \<and> 2 * j \<le> 2 * k"
    by (auto simp: good_reads_def)
  with assms(2,3) show ?thesis
    unfolding good_reads_def by (intro exI [of _ "ks @ [k]"]) (auto simp: sorted_append)
qed

lemma good_reads_Nil [simp]: "good_reads W b []"
  by (simp add: good_reads_def)

lemma sl_parts_mono:
  assumes "sl_parts n dh t1 b buf" "b \<le> b'" "\<And>a. prefix (dh a) (dh' a)"
  shows "sl_parts n dh' t1 b' buf"
  unfolding sl_parts_def
proof (intro conjI allI impI)
  fix a assume "a < length buf"
  with assms(1) obtain j where j: "j < length (dh a)" "t1 div 2 \<le> j" "buf ! a = fst (dh a ! j)"
      "2 * j \<le> Suc b"
    by (auto simp: sl_parts_def)
  with assms(2,3) prefix_length_le [OF assms(3) [of a]] prefix_nth [OF assms(3) [of a] j(1)]
  show "\<exists>j<length (dh' a). t1 div 2 \<le> j \<and> buf ! a = fst (dh' a ! j) \<and> 2 * j \<le> Suc b'"
    by (intro exI [of _ j]) auto
qed (use assms(1) in \<open>simp add: sl_parts_def\<close>)

text \<open>Writes do not disturb what a reader knows.\<close>

lemma sl_reader_inv_mono:
  assumes "sl_reader_inv n sh dh W r" "prefix sh sh'" "\<And>a. prefix (dh a) (dh' a)" "prefix W W'"
  shows "sl_reader_inv n sh' dh' W' r"
proof -
  have len: "length sh \<le> length sh'" using assms(2) by (rule prefix_length_le)
  have good: "good_reads W b got \<Longrightarrow> good_reads W' b got" for b got
    using good_reads_mono [OF _ order_refl assms(4)] .
  have parts: "sl_parts n dh t1 b buf \<Longrightarrow> sl_parts n dh' t1 b buf" for t1 b buf
    using sl_parts_mono [OF _ order_refl assms(3)] .
  show ?thesis
  proof (cases "r_pc r")
    case (RData s1 buf)
    with assms(1) obtain t1 where "s1 = of_nat t1" "even t1" "t1 < length sh"
      "t1 \<le> cur (r_view r) Seq" "\<forall>a<n. t1 div 2 \<le> cur (r_view r) (Data a)"
      "sl_parts n dh t1 (acq (r_view r) Seq) buf" "length sh \<le> 2 ^ 64 \<longrightarrow> good_reads W t1 (r_got r)"
      by (auto simp: sl_reader_inv_def)
    with len show ?thesis
      unfolding sl_reader_inv_def RData rpc.case
      by (intro exI [of _ t1]) (simp add: parts good)
  next
    case (RSeq2 s1 buf)
    with assms(1) obtain t1 where "s1 = of_nat t1" "even t1" "t1 < length sh"
      "t1 \<le> cur (r_view r) Seq" "length buf = n"
      "sl_parts n dh t1 (cur (r_view r) Seq) buf" "length sh \<le> 2 ^ 64 \<longrightarrow> good_reads W t1 (r_got r)"
      by (auto simp: sl_reader_inv_def)
    with len show ?thesis
      unfolding sl_reader_inv_def RSeq2 rpc.case
      by (intro exI [of _ t1]) (simp add: parts good)
  qed (use assms(1) len in \<open>simp_all add: sl_reader_inv_def good\<close>)
qed

lemma sl_hist_invD:
  assumes "sl_hist_inv n sh dh W"
  shows "t < length sh \<Longrightarrow> fst (sh ! t) = of_nat t"
    and "2 * k < length sh \<Longrightarrow> a < n \<Longrightarrow> k \<le> snd (sh ! (2 * k)) (Data a)"
    and "a < n \<Longrightarrow> j < length (dh a) \<Longrightarrow> j < length W"
    and "a < n \<Longrightarrow> j < length (dh a) \<Longrightarrow> fst (dh a ! j) = W ! j ! a"
    and "a < n \<Longrightarrow> j < length (dh a) \<Longrightarrow> 2 * j \<le> Suc (snd (dh a ! j) Seq)"
    and "v \<in> set W \<Longrightarrow> length v = n"
    and "length sh < 2 * length W"
  using assms by (auto simp: sl_hist_inv_def)

section \<open>Each step keeps the invariants\<close>

text \<open>Line 80: an even first load leaves every part at least as new as that write.\<close>

lemma sl_seq1_inv:
  assumes hist: "sl_hist_inv n sh dh W" and inv: "sl_reader_inv n sh dh W r" and pc: "r_pc r = RSeq1"
    and load: "load_acquire Seq sh ts (r_view r) = Some (s1, V)"
  shows "sl_reader_inv n sh dh W (r\<lparr>r_pc := if s1 AND 1 = 1 then RSeq1 else RData s1 [], r_view := V\<rparr>)"
proof -
  note ld = load_acquire_Some [OF load]
  from ld(1,3) sl_hist_invD(1) [OF hist] have s1: "s1 = of_nat ts" by simp
  from ld(5) [of Seq] have ge: "ts \<le> cur V Seq" "cur (r_view r) Seq \<le> cur V Seq" by auto
  from inv pc have good: "length sh \<le> 2 ^ 64 \<longrightarrow> good_reads W (cur (r_view r) Seq) (r_got r)"
    by (simp add: sl_reader_inv_def)
  show ?thesis
  proof (cases "odd ts")
    case True
    with good ge show ?thesis
      by (auto simp: sl_reader_inv_def s1 and_1_of_nat intro: good_reads_mono)
  next
    case False
    have "ts div 2 \<le> cur V (Data a)" if "a < n" for a
      using sl_hist_invD(2) [OF hist _ that, of "ts div 2"] ld(1) ld(5) [of "Data a"] False by auto
    with False good ge ld(1,2) show ?thesis
      unfolding sl_reader_inv_def
      by (auto simp: s1 and_1_of_nat sl_parts_def intro!: exI [of _ ts] intro: good_reads_mono)
  qed
qed

text \<open>Line 86: one more part.\<close>

lemma sl_part_inv:
  assumes hist: "sl_hist_inv n sh dh W" and inv: "sl_reader_inv n sh dh W r" and pc: "r_pc r = RData s1 buf"
    and len: "length buf < n"
    and load: "load_relaxed (Data (length buf)) (dh (length buf)) ts (r_view r) = Some (x, V)"
  shows "sl_reader_inv n sh dh W (r\<lparr>r_pc := RData s1 (buf @ [x]), r_view := V\<rparr>)"
proof -
  note ld = load_relaxed_Some [OF load]
  from inv pc obtain t1 where t1: "s1 = of_nat t1" "even t1" "t1 < length sh"
      "t1 \<le> cur (r_view r) Seq" "\<forall>a<n. t1 div 2 \<le> cur (r_view r) (Data a)"
      "sl_parts n dh t1 (acq (r_view r) Seq) buf" "length sh \<le> 2 ^ 64 \<longrightarrow> good_reads W t1 (r_got r)"
    by (auto simp: sl_reader_inv_def)
  have curs: "cur V Seq = cur (r_view r) Seq" "\<And>a. cur (r_view r) (Data a) \<le> cur V (Data a)"
    using ld(2,4) by auto
  have ge: "t1 div 2 \<le> ts" using t1(5) len ld(2) by (metis le_trans)
  have ts: "2 * ts \<le> Suc (acq V Seq)" "acq (r_view r) Seq \<le> acq V Seq"
    using sl_hist_invD(5) [OF hist len ld(1)] ld(6) [of Seq] by auto
  have "sl_parts n dh t1 (acq V Seq) (buf @ [x])"
    using sl_parts_mono [OF t1(6) ts(2) prefix_order.refl] len ge ts(1) ld(1,3)
    by (auto simp: sl_parts_def nth_append less_Suc_eq)
  then show ?thesis
    unfolding sl_reader_inv_def using t1(1-5,7) curs
    by (auto intro!: exI [of _ t1] intro: order_trans)
qed

text \<open>Line 88: the fence brings the odd entries of the parts' writes into the current view.\<close>

lemma sl_fence_inv:
  assumes inv: "sl_reader_inv n sh dh W r" and pc: "r_pc r = RData s1 buf" and len: "\<not> length buf < n"
  shows "sl_reader_inv n sh dh W (r\<lparr>r_pc := RSeq2 s1 buf, r_view := fence_acquire (r_view r)\<rparr>)"
proof -
  from inv pc obtain t1 where t1: "s1 = of_nat t1" "even t1" "t1 < length sh"
      "t1 \<le> cur (r_view r) Seq"
      "sl_parts n dh t1 (acq (r_view r) Seq) buf" "length sh \<le> 2 ^ 64 \<longrightarrow> good_reads W t1 (r_got r)"
    by (auto simp: sl_reader_inv_def)
  moreover have "sl_parts n dh t1 (max (cur (r_view r) Seq) (acq (r_view r) Seq)) buf"
    by (rule sl_parts_mono [OF t1(5)]) auto
  moreover have "length buf = n" using t1(5) len by (simp add: sl_parts_def)
  ultimately show ?thesis
    unfolding sl_reader_inv_def by (auto intro!: exI [of _ t1])
qed

text \<open>
  Line 90: when the second load returns the first number, no part is older or newer than the
  write that ended with it. The two numbers can only agree on different entries after 2 ^ 63
  writes.
\<close>

lemma sl_parts_agree:
  assumes hist: "sl_hist_inv n sh dh W" and parts: "sl_parts n dh (2 * k) b buf"
    and len: "length buf = n" and k: "2 * k < length sh" and b: "b \<le> 2 * k"
  shows "k < length W" "buf = W ! k"
proof -
  from sl_hist_invD(7) [OF hist] k show kW: "k < length W" by simp
  show "buf = W ! k"
  proof (rule nth_equalityI)
    show "length buf = length (W ! k)"
      using sl_hist_invD(6) [OF hist] kW len by simp
    fix a assume a: "a < length buf"
    with parts obtain j where j: "j < length (dh a)" "k \<le> j" "buf ! a = fst (dh a ! j)" "2 * j \<le> Suc b"
      by (auto simp: sl_parts_def)
    with b have "j = k" by linarith
    with j sl_hist_invD(4) [OF hist _ j(1)] a len show "buf ! a = W ! k ! a" by simp
  qed
qed

lemma sl_seq2_inv:
  assumes hist: "sl_hist_inv n sh dh W" and inv: "sl_reader_inv n sh dh W r" and pc: "r_pc r = RSeq2 s1 buf"
    and load: "load_relaxed Seq sh ts (r_view r) = Some (s2, V)"
  shows "sl_reader_inv n sh dh W
    (if s1 = s2 then r\<lparr>r_pc := RIdle, r_view := V, r_got := r_got r @ [buf]\<rparr>
     else r\<lparr>r_pc := RSeq1, r_view := V\<rparr>)"
proof -
  note ld = load_relaxed_Some [OF load]
  from inv pc obtain t1 where t1: "s1 = of_nat t1" "even t1" "t1 < length sh"
      "t1 \<le> cur (r_view r) Seq" "length buf = n"
      "sl_parts n dh t1 (cur (r_view r) Seq) buf" "length sh \<le> 2 ^ 64 \<longrightarrow> good_reads W t1 (r_got r)"
    by (auto simp: sl_reader_inv_def)
  have ge: "t1 \<le> cur V Seq" using t1(4) ld(2,4) by simp
  have curV: "cur V Seq = ts" using ld(4) by simp
  show ?thesis
  proof (cases "s1 = s2")
    case False
    with ge t1(7) show ?thesis
      by (auto simp: sl_reader_inv_def intro: good_reads_mono)
  next
    case True
    have "good_reads W ts (r_got r @ [buf])" if bound: "length sh \<le> 2 ^ 64"
    proof -
      from True t1(1) ld(1,3) sl_hist_invD(1) [OF hist] have "(of_nat t1 :: u64) = of_nat ts" by simp
      moreover have "t1 \<le> ts" "ts - t1 < 2 ^ 64" using t1(4) ld(1,2) bound by simp_all
      ultimately have "ts = t1" using of_nat_eq_iff_near by blast
      with t1(2) obtain k where k: "t1 = 2 * k" "ts = 2 * k" by (auto elim: evenE)
      from sl_parts_agree [OF hist _ t1(5)] t1(3,6) ld(2) k
      have "k < length W" "buf = W ! k" by auto
      with t1(7) bound k show ?thesis by (auto intro: good_reads_snoc)
    qed
    with True curV show ?thesis by (simp add: sl_reader_inv_def)
  qed
qed

lemma sl_read_step_inv:
  assumes hist: "sl_hist_inv n (seq_h c) (data_h c) W"
    and inv: "sl_reader_inv n (seq_h c) (data_h c) W r" and step: "sl_read_step n ts c r = Some r'"
  shows "sl_reader_inv n (seq_h c) (data_h c) W r'"
proof (cases "r_pc r")
  case RIdle
  with step show ?thesis by (simp add: sl_read_step_def)
next
  case RSeq1
  with step sl_seq1_inv [OF hist inv RSeq1] show ?thesis
    by (auto simp: sl_read_step_def split: option.splits)
next
  case (RData s1 buf)
  with step sl_part_inv [OF hist inv RData] sl_fence_inv [OF inv RData] show ?thesis
    by (auto simp: sl_read_step_def split: option.splits if_splits)
next
  case (RSeq2 s1 buf)
  with step obtain s2 V where "load_relaxed Seq (seq_h c) ts (r_view r) = Some (s2, V)"
    and "r' = (if s1 = s2 then r\<lparr>r_pc := RIdle, r_view := V, r_got := r_got r @ [buf]\<rparr>
     else r\<lparr>r_pc := RSeq1, r_view := V\<rparr>)"
    by (auto simp: sl_read_step_def split: option.splits)
  with sl_seq2_inv [OF hist inv RSeq2] show ?thesis by simp
qed

text \<open>The steps of the writer.\<close>

lemma sl_hist_inv_call:
  "sl_hist_inv n sh dh W \<Longrightarrow> length v = n \<Longrightarrow> sl_hist_inv n sh dh (W @ [v])"
  unfolding sl_hist_inv_def by (auto simp: less_Suc_eq nth_append)

lemma sl_hist_inv_odd:
  assumes "sl_hist_inv n sh dh W" "length sh = Suc (2 * k)" "Suc (length sh) < 2 * length W"
  shows "sl_hist_inv n (sh @ [(of_nat (length sh), w)]) dh W"
  unfolding sl_hist_inv_def
proof (intro conjI allI impI)
  fix k' a assume "2 * k' < length (sh @ [(of_nat (length sh) :: u64, w)])" "a < n"
  moreover have "2 * k' \<noteq> length sh" using assms(2) by presburger
  ultimately show "k' \<le> snd ((sh @ [(of_nat (length sh), w)]) ! (2 * k')) (Data a)"
    using sl_hist_invD(2) [OF assms(1)] by (simp add: nth_append)
qed (use assms in \<open>auto simp: sl_hist_inv_def nth_append less_Suc_eq\<close>)

lemma sl_hist_inv_even:
  assumes "sl_hist_inv n sh dh W" "length sh = 2 * k" "Suc (length sh) < 2 * length W"
    "\<And>a. a < n \<Longrightarrow> k \<le> w (Data a)"
  shows "sl_hist_inv n (sh @ [(of_nat (length sh), w)]) dh W"
  unfolding sl_hist_inv_def
proof (intro conjI allI impI)
  fix k' a assume "2 * k' < length (sh @ [(of_nat (length sh) :: u64, w)])" "a < n"
  then show "k' \<le> snd ((sh @ [(of_nat (length sh), w)]) ! (2 * k')) (Data a)"
    using sl_hist_invD(2) [OF assms(1)] assms(2,4) by (cases "k' = k") (auto simp: nth_append)
qed (use assms in \<open>auto simp: sl_hist_inv_def nth_append less_Suc_eq\<close>)

lemma sl_hist_inv_part:
  assumes "sl_hist_inv n sh dh W" "length (dh i) < length W"
    "x = W ! length (dh i) ! i" "2 * length (dh i) \<le> Suc (w Seq)"
  shows "sl_hist_inv n sh (dh(i := dh i @ [(x, w)])) W"
  using assms unfolding sl_hist_inv_def by (auto simp: nth_append less_Suc_eq)

lemma sl_readers_mono:
  assumes "\<And>i r. readers c i = Some r \<Longrightarrow> sl_reader_inv n sh dh W r"
    "prefix sh sh'" "\<And>a. prefix (dh a) (dh' a)" "prefix W W'" "readers c i = Some r"
  shows "sl_reader_inv n sh' dh' W' r"
  using sl_reader_inv_mono [OF assms(1) [OF assms(5)] assms(2-4)] .

text \<open>Everything about the writer: histories, program counter and view.\<close>

definition sl_core ::
  "nat \<Rightarrow> (sl_loc, u64) hist \<Rightarrow> (nat \<Rightarrow> (sl_loc, 'v) hist) \<Rightarrow> 'v list list \<Rightarrow> sl_loc tview \<Rightarrow> 'v wpc \<Rightarrow> bool" where
  "sl_core n sh dh W V pc \<longleftrightarrow>
     sl_hist_inv n sh dh W \<and> sl_writer_inv n (length sh) (\<lambda>a. length (dh a)) W V pc \<and>
     sl_writer_view n (length sh) (\<lambda>a. length (dh a)) V"

lemma sl_inv_core:
  "sl_inv n c \<longleftrightarrow>
     sl_core n (seq_h c) (data_h c) (written c) (w_view c) (w_pc c) \<and>
     (\<forall>i r. readers c i = Some r \<longrightarrow> sl_reader_inv n (seq_h c) (data_h c) (written c) r)"
  unfolding sl_inv_def sl_core_def by blast

lemma sl_core_call:
  assumes "sl_core n sh dh W V WIdle" "length v = n" "W \<noteq> []"
  shows "sl_core n sh dh (W @ [v]) V (WLoad v)"
  using assms by (auto simp: sl_core_def sl_hist_inv_call Suc_lessI)

lemma sl_core_load:
  assumes "sl_core n sh dh W V (WLoad v)" "load_relaxed Seq sh ts V = Some (s, V')"
  shows "sl_core n sh dh W V' (WOdd v s)"
proof -
  note ld = load_relaxed_Some [OF assms(2)]
  from assms(1) have hist: "sl_hist_inv n sh dh W"
    and view: "Suc (cur V Seq) = length sh" "\<forall>a<n. Suc (cur V (Data a)) = length (dh a)"
    by (auto simp: sl_core_def sl_writer_view_def)
  from view(1) ld(1,2) have "ts = length sh - 1" by simp
  with ld(1,3,4) sl_hist_invD(1) [OF hist ld(1)] view assms(1) show ?thesis
    by (simp add: sl_core_def sl_writer_view_def)
qed

lemma sl_core_odd:
  assumes "sl_core n sh dh W V (WOdd v s)" "store_relaxed Seq (s + 1) sh V = (sh', V')"
  shows "sl_core n sh' dh W V' (WFence v s)" "prefix sh sh'"
proof -
  from assms(1) have hist: "sl_hist_inv n sh dh W"
    and w: "1 < length W" "v = last W" "length sh + 3 = 2 * length W" "s = of_nat (length sh - 1)"
      "\<forall>a<n. Suc (length (dh a)) = length W"
    and view: "\<forall>a<n. Suc (cur V (Data a)) = length (dh a)"
    by (auto simp: sl_core_def sl_writer_view_def)
  from w(1,3) have pos: "1 \<le> length sh" by linarith
  have s1: "s + 1 = of_nat (length sh)" unfolding w(4) by (rule of_nat_pred_word(1) [OF pos])
  from assms(2) have sh': "sh' = sh @ [(of_nat (length sh), (rel V)(Seq := length sh))]"
    and V': "cur V' = (cur V)(Seq := length sh)"
    by (auto simp: store_relaxed_def s1)
  show "prefix sh sh'" by (simp add: sh')
  have "length sh = Suc (2 * (length W - 2))" using w(1,3) by linarith
  then have "sl_hist_inv n sh' dh W"
    unfolding sh' by (rule sl_hist_inv_odd [OF hist]) (use w(3) in linarith)
  moreover have "length sh' + 2 = 2 * length W" "length sh' - 2 = length sh - 1"
    using w(3) by (simp_all add: sh')
  ultimately show "sl_core n sh' dh W V' (WFence v s)"
    using w view by (simp add: sl_core_def sl_writer_view_def V' sh')
qed

lemma sl_core_fence:
  assumes "sl_core n sh dh W V (WFence v s)"
  shows "sl_core n sh dh W (fence_release V) (WData v s 0)"
  using assms by (auto simp: sl_core_def sl_writer_view_def)

lemma sl_core_part:
  assumes "sl_core n sh dh W V (WData v s i)" "i < n"
    "store_relaxed (Data i) (v ! i) (dh i) V = (h, V')"
  shows "sl_core n sh (dh(i := h)) W V' (WData v s (Suc i))" "prefix (dh i) h"
proof -
  from assms(1,2) have hist: "sl_hist_inv n sh dh W"
    and w: "1 < length W" "v = last W" "length sh + 2 = 2 * length W" "s = of_nat (length sh - 2)"
      "length sh \<le> Suc (rel V Seq)" "Suc (length (dh i)) = length W"
      "\<forall>a<n. if a < i then length (dh a) = length W else Suc (length (dh a)) = length W"
    and view: "Suc (cur V Seq) = length sh" "\<forall>a<n. Suc (cur V (Data a)) = length (dh a)"
    by (auto simp: sl_core_def sl_writer_view_def)
  from assms(3) have h: "h = dh i @ [(v ! i, (rel V)(Data i := length (dh i)))]"
    and V': "cur V' = (cur V)(Data i := length (dh i))" "rel V' = rel V"
    by (auto simp: store_relaxed_def)
  show "prefix (dh i) h" by (simp add: h)
  have "length (dh i) = length W - 1" using w(6) by simp
  then have "W ! length (dh i) = v" using w(1,2) by (metis last_conv_nth list.size(3) not_one_less_zero)
  then have "sl_hist_inv n sh (dh(i := h)) W"
    unfolding h using w(3,5,6) by (intro sl_hist_inv_part [OF hist]) auto
  then show "sl_core n sh (dh(i := h)) W V' (WData v s (Suc i))"
    using w view assms(2) by (auto simp: sl_core_def sl_writer_view_def V' h)
qed

lemma sl_core_even:
  assumes "sl_core n sh dh W V (WData v s i)" "\<not> i < n" "store_release Seq (s + 2) sh V = (sh', V')"
  shows "sl_core n sh' dh W V' WIdle" "prefix sh sh'"
proof -
  from assms(1,2) have hist: "sl_hist_inv n sh dh W"
    and w: "1 < length W" "length sh + 2 = 2 * length W" "s = of_nat (length sh - 2)"
      "\<forall>a<n. length (dh a) = length W"
    and view: "\<forall>a<n. Suc (cur V (Data a)) = length (dh a)"
    by (auto simp: sl_core_def sl_writer_view_def)
  from w(1,2) have pos: "2 \<le> length sh" by linarith
  have s2: "s + 2 = of_nat (length sh)" unfolding w(3) by (rule of_nat_pred_word(2) [OF pos])
  from assms(3) have sh': "sh' = sh @ [(of_nat (length sh), (cur V)(Seq := length sh))]"
    and V': "cur V' = (cur V)(Seq := length sh)"
    by (auto simp: store_release_def s2)
  show "prefix sh sh'" by (simp add: sh')
  have "length sh = 2 * (length W - 1)" using w(2) by simp
  then have "sl_hist_inv n sh' dh W"
    unfolding sh' using w(2,4) view by (intro sl_hist_inv_even [OF hist, of "length W - 1"]) fastforce+
  then show "sl_core n sh' dh W V' WIdle"
    using w view by (simp add: sl_core_def sl_writer_view_def V' sh')
qed

lemma sl_write_step_core:
  assumes core: "sl_core n (seq_h c) (data_h c) (written c) (w_view c) (w_pc c)"
    and step: "sl_write_step n ts c = Some c'"
  shows "sl_core n (seq_h c') (data_h c') (written c') (w_view c') (w_pc c') \<and>
    prefix (seq_h c) (seq_h c') \<and> (\<forall>a. prefix (data_h c a) (data_h c' a)) \<and>
    written c' = written c \<and> readers c' = readers c"
proof (cases "w_pc c")
  case WIdle
  with step show ?thesis by (simp add: sl_write_step_def)
next
  case (WLoad v)
  with step core show ?thesis
    by (auto simp: sl_write_step_def split: option.splits intro: sl_core_load)
next
  case (WOdd v s)
  with step core show ?thesis
    by (auto simp: sl_write_step_def split: prod.splits intro: sl_core_odd)
next
  case (WFence v s)
  with step core show ?thesis
    by (auto simp: sl_write_step_def intro: sl_core_fence)
next
  case (WData v s i)
  with step core show ?thesis
    by (cases "i < n") (auto simp: sl_write_step_def split: prod.splits intro: sl_core_part sl_core_even)
qed

lemma sl_core_nonempty: "sl_core n sh dh W V pc \<Longrightarrow> W \<noteq> []"
  by (auto simp: sl_core_def sl_hist_inv_def)

lemma sl_reader_inv_call:
  "sl_reader_inv n sh dh W r \<Longrightarrow> r_pc r = RIdle \<Longrightarrow> sl_reader_inv n sh dh W (r\<lparr>r_pc := RSeq1\<rparr>)"
  by (simp add: sl_reader_inv_def)

lemma sl_reader_inv_new: "sl_reader_inv n sh dh W (reader_new V)"
  by (simp add: sl_reader_inv_def reader_new_def)

lemma sl_step_inv: "sl_inv n c \<Longrightarrow> sl_step n c e = Some c' \<Longrightarrow> sl_inv n c'"
proof (cases e)
  case (WriteCall v)
  assume "sl_inv n c" "sl_step n c e = Some c'"
  with WriteCall sl_core_call [of n "seq_h c" "data_h c" "written c" "w_view c" v]
    sl_reader_inv_mono [OF _ prefix_order.refl prefix_order.refl, of n "seq_h c" "data_h c" "written c"]
  show ?thesis
    by (auto simp: sl_inv_core split: if_splits dest: sl_core_nonempty)
next
  case (WriteStep ts)
  assume inv: "sl_inv n c" and "sl_step n c e = Some c'"
  with WriteStep have "sl_write_step n ts c = Some c'" by simp
  with sl_write_step_core [of n c ts c'] inv show ?thesis
    unfolding sl_inv_core by (auto intro: sl_reader_inv_mono)
next
  case (ReadCall i)
  assume "sl_inv n c" "sl_step n c e = Some c'"
  with ReadCall show ?thesis
    by (auto simp: sl_inv_core sl_reader_inv_call split: option.splits if_splits)
next
  case (ReadStep i ts)
  assume inv: "sl_inv n c" and "sl_step n c e = Some c'"
  with ReadStep obtain r r' where "readers c i = Some r" "sl_read_step n ts c r = Some r'"
    "c' = c\<lparr>readers := (readers c)(i \<mapsto> r')\<rparr>" by (auto split: option.splits)
  with inv sl_read_step_inv [of n c "written c" r ts r'] show ?thesis
    by (auto simp: sl_inv_def)
next
  case (CloneReader i j)
  assume "sl_inv n c" "sl_step n c e = Some c'"
  with CloneReader show ?thesis
    by (auto simp: sl_inv_core sl_reader_inv_new split: option.splits if_splits)
qed

lemma sl_new_inv: "length v = n \<Longrightarrow> sl_inv n (sl_new n v)"
  by (auto simp: sl_inv_def sl_new_def sl_hist_inv_def sl_writer_view_def sl_reader_inv_new)

lemma sl_reach_inv: "sl_reach n v0 c \<Longrightarrow> sl_inv n c"
  by (induction rule: sl_reach.induct) (auto intro: sl_new_inv sl_step_inv)

end
