(* ===== verification/Seqlock_Progress.thy ===== *)
theory Seqlock_Progress
  imports Seqlock
begin

text \<open>
  What the invariant of \<open>Seqlock\<close> gives the users of the lock: every value that \<open>read\<close> returns
  is a whole value handed to \<open>write\<close>, and a reader never goes back to an older one; a writer
  is never blocked; a reader whose writer is idle finishes within \<open>2 * n + 6\<close> own steps for a
  value of \<open>n\<close> parts, and a fresh read returns the last value written.
\<close>

section \<open>The newest entries can be read\<close>

definition sl_newest :: "'v sl \<Rightarrow> sl_loc \<Rightarrow> nat" where
  "sl_newest c l =
     (case l of Seq \<Rightarrow> length (seq_h c) - 1 | Data a \<Rightarrow> length (data_h c a) - 1)"

definition sl_within :: "'v sl \<Rightarrow> bool" where
  "sl_within c \<longleftrightarrow>
     seq_h c \<noteq> [] \<and> (\<forall>a. data_h c a \<noteq> []) \<and>
     hist_within (sl_newest c) (seq_h c) \<and> (\<forall>a. hist_within (sl_newest c) (data_h c a)) \<and>
     tview_within (sl_newest c) (w_view c) \<and>
     (\<forall>i r. readers c i = Some r \<longrightarrow> tview_within (sl_newest c) (r_view r))"

lemma sl_newest_simps [simp]:
  "sl_newest c Seq = length (seq_h c) - 1" "sl_newest c (Data a) = length (data_h c a) - 1"
  by (simp_all add: sl_newest_def)

lemma sl_newest_cong:
  "seq_h c' = seq_h c \<Longrightarrow> data_h c' = data_h c \<Longrightarrow> sl_newest c' = sl_newest c"
  by (simp add: sl_newest_def fun_eq_iff split: sl_loc.split)

lemma sl_withinD:
  assumes "sl_within c"
  shows "length (seq_h c) = Suc (sl_newest c Seq)" "length (data_h c a) = Suc (sl_newest c (Data a))"
    "hist_within (sl_newest c) (seq_h c)" "hist_within (sl_newest c) (data_h c a)"
    "tview_within (sl_newest c) (w_view c)" "readers c i = Some r \<Longrightarrow> tview_within (sl_newest c) (r_view r)"
  using assms by (auto simp: sl_within_def)

lemma read_step_within:
  assumes w: "sl_within c" and V: "tview_within (sl_newest c) (r_view r)"
    and step: "sl_read_step n ts c r = Some r'"
  shows "tview_within (sl_newest c) (r_view r')"
proof (cases "r_pc r")
  case RIdle
  with step show ?thesis by (simp add: sl_read_step_def)
next
  case RSeq1
  with step obtain s1 W where ld: "load_acquire Seq (seq_h c) ts (r_view r) = Some (s1, W)" "r_view r' = W"
    by (auto simp: sl_read_step_def split: option.splits)
  from within_load_acquire [OF ld(1) V sl_withinD(3) [OF w]] ld(2) show ?thesis by simp
next
  case (RData s1 buf)
  show ?thesis
  proof (cases "length buf < n")
    case True
    with RData step obtain x W where
      ld: "load_relaxed (Data (length buf)) (data_h c (length buf)) ts (r_view r) = Some (x, W)" "r_view r' = W"
      by (auto simp: sl_read_step_def split: option.splits)
    from within_load_relaxed [OF ld(1) V sl_withinD(4) [OF w]] ld(2) show ?thesis by simp
  next
    case False
    with RData step V show ?thesis by (auto simp: sl_read_step_def intro: within_fence)
  qed
next
  case (RSeq2 s1 buf)
  with step obtain s2 W where ld: "load_relaxed Seq (seq_h c) ts (r_view r) = Some (s2, W)" "r_view r' = W"
    by (auto simp: sl_read_step_def split: option.splits)
  from within_load_relaxed [OF ld(1) V sl_withinD(3) [OF w]] ld(2) show ?thesis by simp
qed

lemma sl_within_store:
  assumes w: "sl_within c" and mono: "\<And>l. sl_newest c l \<le> sl_newest c' l"
    and "seq_h c' \<noteq> []" "\<And>a. data_h c' a \<noteq> []" "readers c' = readers c"
    and "seq_h c' = seq_h c \<or> hist_within (sl_newest c') (seq_h c')"
    and "\<And>a. data_h c' a = data_h c a \<or> hist_within (sl_newest c') (data_h c' a)"
    and "tview_within (sl_newest c') (w_view c')"
  shows "sl_within c'"
  using assms(3-) w within_mono(2,3) [of "sl_newest c" "sl_newest c'", OF mono]
  unfolding sl_within_def by metis

lemma write_step_within:
  assumes w: "sl_within c" and step: "sl_write_step n ts c = Some c'"
  shows "sl_within c'"
proof (cases "w_pc c")
  case WIdle
  with step show ?thesis by (simp add: sl_write_step_def)
next
  case (WLoad v)
  with step obtain s V where ld: "load_relaxed Seq (seq_h c) ts (w_view c) = Some (s, V)"
    and c': "c' = c\<lparr>w_pc := WOdd v s, w_view := V\<rparr>"
    by (auto simp: sl_write_step_def split: option.splits)
  have "sl_newest c' = sl_newest c" by (rule sl_newest_cong) (simp_all add: c')
  with within_load_relaxed [OF ld sl_withinD(5,3) [OF w]] w show ?thesis
    by (auto simp: sl_within_def c')
next
  case (WOdd v s)
  obtain h V where st: "store_relaxed Seq (s + 1) (seq_h c) (w_view c) = (h, V)"
    by (cases "store_relaxed Seq (s + 1) (seq_h c) (w_view c)")
  with WOdd step have c': "c' = c\<lparr>seq_h := h, w_pc := WFence v s, w_view := V\<rparr>"
    by (simp add: sl_write_step_def)
  have h: "length h = Suc (length (seq_h c))" using st by (auto simp: store_relaxed_def)
  have mono: "sl_newest c l \<le> sl_newest c' l" for l by (cases l) (simp_all add: c' h)
  have "tview_within (sl_newest c') V \<and> hist_within (sl_newest c') h"
    by (rule within_store(2) [OF sl_withinD(5,3) [OF w] mono _ st]) (simp add: c' h)
  then show ?thesis
    by (intro sl_within_store [OF w mono]) (use h w in \<open>auto simp: c' sl_within_def\<close>)
next
  case (WFence v s)
  with step have c': "c' = c\<lparr>w_pc := WData v s 0, w_view := fence_release (w_view c)\<rparr>"
    by (simp add: sl_write_step_def)
  have "sl_newest c' = sl_newest c" by (rule sl_newest_cong) (simp_all add: c')
  with w within_fence(2) show ?thesis by (auto simp: sl_within_def c')
next
  case (WData v s i)
  show ?thesis
  proof (cases "i < n")
    case True
    obtain h V where st: "store_relaxed (Data i) (v ! i) (data_h c i) (w_view c) = (h, V)"
      by (cases "store_relaxed (Data i) (v ! i) (data_h c i) (w_view c)")
    with WData True step have c': "c' = c\<lparr>data_h := (data_h c)(i := h), w_pc := WData v s (Suc i), w_view := V\<rparr>"
      by (simp add: sl_write_step_def)
    have h: "length h = Suc (length (data_h c i))" using st by (auto simp: store_relaxed_def)
    have mono: "sl_newest c l \<le> sl_newest c' l" for l by (cases l) (simp_all add: c' h)
    have "tview_within (sl_newest c') V \<and> hist_within (sl_newest c') h"
      by (rule within_store(2) [OF sl_withinD(5,4) [OF w] mono _ st]) (simp add: c' h)
    then show ?thesis
      by (intro sl_within_store [OF w mono]) (use h w in \<open>auto simp: c' sl_within_def\<close>)
  next
    case False
    obtain h V where st: "store_release Seq (s + 2) (seq_h c) (w_view c) = (h, V)"
      by (cases "store_release Seq (s + 2) (seq_h c) (w_view c)")
    with WData False step have c': "c' = c\<lparr>seq_h := h, w_pc := WIdle, w_view := V\<rparr>"
      by (simp add: sl_write_step_def)
    have h: "length h = Suc (length (seq_h c))" using st by (auto simp: store_release_def)
    have mono: "sl_newest c l \<le> sl_newest c' l" for l by (cases l) (simp_all add: c' h)
    have "tview_within (sl_newest c') V \<and> hist_within (sl_newest c') h"
      by (rule within_store(1) [OF sl_withinD(5,3) [OF w] mono _ st]) (simp add: c' h)
    then show ?thesis
      by (intro sl_within_store [OF w mono]) (use h w in \<open>auto simp: c' sl_within_def\<close>)
  qed
qed

lemma sl_step_within:
  assumes w: "sl_within c" and step: "sl_step n c e = Some c'"
  shows "sl_within c'"
proof (cases e)
  case (WriteStep ts)
  with w step show ?thesis by (auto intro: write_step_within)
next
  case (ReadStep i ts)
  with step obtain r r' where r: "readers c i = Some r" "sl_read_step n ts c r = Some r'"
    "c' = c\<lparr>readers := (readers c)(i \<mapsto> r')\<rparr>" by (auto split: option.splits)
  have "sl_newest c' = sl_newest c" by (rule sl_newest_cong) (simp_all add: r)
  with read_step_within [OF w sl_withinD(6) [OF w r(1)] r(2)] w show ?thesis
    by (auto simp: sl_within_def r(3))
qed (use w step sl_newest_cong [of c' c] in
  \<open>auto simp: sl_within_def reader_new_def split: if_splits option.splits\<close>)

lemma sl_reach_within: "sl_reach n v0 c \<Longrightarrow> sl_within c"
proof (induction rule: sl_reach.induct)
  case sl_init
  then show ?case by (simp add: sl_within_def sl_new_def reader_new_def)
qed (rule sl_step_within)

section \<open>A reader whose writer is idle\<close>

text \<open>The newest entry of the location a reader loads next, and its run on newest entries.\<close>

definition read_newest :: "'v sl \<Rightarrow> 'v reader \<Rightarrow> nat" where
  "read_newest c r =
     (case r_pc r of RData s1 buf \<Rightarrow> sl_newest c (Data (length buf)) | _ \<Rightarrow> sl_newest c Seq)"

fun read_finish :: "nat \<Rightarrow> 'v sl \<Rightarrow> nat \<Rightarrow> 'v reader \<Rightarrow> 'v reader option" where
  "read_finish n c 0 r = Some r"
| "read_finish n c (Suc k) r =
     (if r_pc r = RIdle then Some r
      else case sl_read_step n (read_newest c r) c r of
        None \<Rightarrow> None | Some r' \<Rightarrow> read_finish n c k r')"

lemma read_finish_idle: "r_pc r = RIdle \<Longrightarrow> read_finish n c k r = Some r"
  by (cases k) auto

lemma read_finish_add:
  "read_finish n c k r = Some r' \<Longrightarrow> read_finish n c (k + m) r = read_finish n c m r'"
  by (induction k arbitrary: r) (auto simp: read_finish_idle split: if_splits option.splits)

lemma read_finish_more:
  "read_finish n c k r = Some r' \<Longrightarrow> r_pc r' = RIdle \<Longrightarrow> k \<le> m \<Longrightarrow> read_finish n c m r = Some r'"
  by (metis le_Suc_ex read_finish_add read_finish_idle)

lemma idle_newest:
  assumes inv: "sl_inv n c" and idle: "w_pc c = WIdle"
  shows "fst (last (seq_h c)) = of_nat (2 * (length (written c) - 1))"
    "a < n \<Longrightarrow> fst (last (data_h c a)) = last (written c) ! a" "length (last (written c)) = n"
proof -
  from inv idle have hist: "sl_hist_inv n (seq_h c) (data_h c) (written c)"
    and len: "Suc (length (seq_h c)) = 2 * length (written c)"
      "a < n \<Longrightarrow> length (data_h c a) = length (written c)" for a
    by (auto simp: sl_inv_def)
  let ?k = "length (written c) - 1"
  from len(1) have ls: "length (seq_h c) = Suc (2 * ?k)" and W: "written c \<noteq> []" by auto
  from W have lW: "last (written c) = written c ! ?k" by (rule last_conv_nth)
  from ls have "last (seq_h c) = seq_h c ! (2 * ?k)"
    by (cases "seq_h c" rule: rev_cases) auto
  with sl_hist_invD(1) [OF hist, of "2 * ?k"] ls
  show "fst (last (seq_h c)) = of_nat (2 * (length (written c) - 1))" by simp
  from sl_hist_invD(6) [OF hist] W show "length (last (written c)) = n" by simp
  assume a: "a < n"
  with len(2) W have ne: "data_h c a \<noteq> []" by fastforce
  with sl_hist_invD(4) [OF hist a, of ?k] len(2) [OF a] W show "fst (last (data_h c a)) = last (written c) ! a"
    by (simp add: last_conv_nth)
qed

lemma run_parts:
  assumes within: "sl_within c"
  shows "tview_within (sl_newest c) (r_view r) \<Longrightarrow> r_pc r = RData s1 buf \<Longrightarrow> length buf + m = n \<Longrightarrow>
     \<exists>V. tview_within (sl_newest c) V \<and> read_finish n c (Suc m) r =
       Some (r\<lparr>r_pc := RSeq2 s1 (buf @ map (\<lambda>a. fst (last (data_h c a))) [length buf..<n]), r_view := V\<rparr>)"
proof (induction m arbitrary: r buf)
  case 0
  then show ?case
    by (intro exI [of _ "fence_acquire (r_view r)"]) (simp add: sl_read_step_def within_fence)
next
  case (Suc m)
  let ?a = "length buf"
  from Suc.prems(3) have a: "?a < n" by simp
  from load_newest(2) [of "sl_newest c", OF Suc.prems(1) sl_withinD(2) [OF within]] obtain V where
    ld: "load_relaxed (Data ?a) (data_h c ?a) (sl_newest c (Data ?a)) (r_view r) =
      Some (fst (last (data_h c ?a)), V)" by blast
  let ?x = "fst (last (data_h c ?a))"
  let ?r = "r\<lparr>r_pc := RData s1 (buf @ [?x]), r_view := V\<rparr>"
  have st: "sl_read_step n (read_newest c r) c r = Some ?r"
    using Suc.prems(2) a ld by (simp add: sl_read_step_def read_newest_def del: sl_newest_simps)
  have "tview_within (sl_newest c) (r_view ?r)"
    by (rule read_step_within [OF within Suc.prems(1) st])
  from Suc.IH [OF this] Suc.prems(3) obtain W where
    W: "tview_within (sl_newest c) W" "read_finish n c (Suc m) ?r =
       Some (?r\<lparr>r_pc := RSeq2 s1 ((buf @ [?x]) @ map (\<lambda>a. fst (last (data_h c a))) [Suc ?a..<n]), r_view := W\<rparr>)"
    by fastforce
  have "map (\<lambda>a. fst (last (data_h c a))) [?a..<n] = ?x # map (\<lambda>a. fst (last (data_h c a))) [Suc ?a..<n]"
    using a by (simp add: upt_conv_Cons)
  moreover have "read_finish n c (Suc (Suc m)) r = read_finish n c (Suc m) ?r"
    using Suc.prems(2) st by simp
  ultimately show ?case using W by auto
qed

text \<open>The second load of a reader returns the newest number.\<close>

lemma run_seq2:
  assumes within: "sl_within c" and V: "tview_within (sl_newest c) (r_view r)" and pc: "r_pc r = RSeq2 s1 buf"
  obtains V where "tview_within (sl_newest c) V"
    "read_finish n c (Suc 0) r =
       Some (if s1 = fst (last (seq_h c)) then r\<lparr>r_pc := RIdle, r_view := V, r_got := r_got r @ [buf]\<rparr>
             else r\<lparr>r_pc := RSeq1, r_view := V\<rparr>)"
proof -
  from load_newest(2) [of "sl_newest c", OF V sl_withinD(1) [OF within]] obtain V where
    ld: "load_relaxed Seq (seq_h c) (sl_newest c Seq) (r_view r) = Some (fst (last (seq_h c)), V)" by blast
  then have "tview_within (sl_newest c) V"
    by (rule within_load_relaxed [OF _ V sl_withinD(3) [OF within]]) simp
  moreover have "sl_read_step n (read_newest c r) c r =
      Some (if s1 = fst (last (seq_h c)) then r\<lparr>r_pc := RIdle, r_view := V, r_got := r_got r @ [buf]\<rparr>
            else r\<lparr>r_pc := RSeq1, r_view := V\<rparr>)"
    using pc ld by (simp add: sl_read_step_def read_newest_def del: sl_newest_simps)
  ultimately show thesis using pc by (intro that) simp_all
qed

lemma run_seq1:
  assumes within: "sl_within c" and inv: "sl_inv n c" and idle: "w_pc c = WIdle"
    and r: "tview_within (sl_newest c) (r_view r)" "r_pc r = RSeq1"
  shows "\<exists>r'. read_finish n c (n + 3) r = Some r' \<and> r_pc r' = RIdle \<and> r_got r' = r_got r @ [last (written c)]"
proof -
  note new = idle_newest [OF inv idle]
  let ?s = "fst (last (seq_h c))"
  from load_newest(1) [of "sl_newest c", OF r(1) sl_withinD(1) [OF within]] obtain V where
    ld: "load_acquire Seq (seq_h c) (sl_newest c Seq) (r_view r) = Some (?s, V)" by blast
  have "?s AND 1 \<noteq> 1" unfolding new(1) by (simp only: and_1_of_nat) simp
  then have st: "sl_read_step n (read_newest c r) c r = Some (r\<lparr>r_pc := RData ?s [], r_view := V\<rparr>)"
    using r(2) ld by (simp add: sl_read_step_def read_newest_def del: sl_newest_simps)
  let ?r = "r\<lparr>r_pc := RData ?s [], r_view := V\<rparr>"
  have "tview_within (sl_newest c) (r_view ?r)" by (rule read_step_within [OF within r(1) st])
  from run_parts [OF within this, of ?s "[]" n] obtain W where W: "tview_within (sl_newest c) W"
    "read_finish n c (Suc n) ?r =
       Some (?r\<lparr>r_pc := RSeq2 ?s (map (\<lambda>a. fst (last (data_h c a))) [0..<n]), r_view := W\<rparr>)"
    by auto
  have "map (\<lambda>a. fst (last (data_h c a))) [0..<n] = map ((!) (last (written c))) [0..<n]"
    using new(2) by (intro map_cong) auto
  also have "\<dots> = last (written c)" using new(3) by (metis map_nth)
  finally have "read_finish n c (Suc n) ?r = Some (?r\<lparr>r_pc := RSeq2 ?s (last (written c)), r_view := W\<rparr>)"
    using W(2) by simp
  from read_finish_add [OF this, of "Suc 0"]
  have "read_finish n c (n + 3) r = read_finish n c (Suc 0) (?r\<lparr>r_pc := RSeq2 ?s (last (written c)), r_view := W\<rparr>)"
    using st r(2) by (simp add: numeral_3_eq_3)
  moreover obtain U where "read_finish n c (Suc 0) (?r\<lparr>r_pc := RSeq2 ?s (last (written c)), r_view := W\<rparr>) =
      Some (?r\<lparr>r_pc := RIdle, r_view := U, r_got := r_got r @ [last (written c)]\<rparr>)"
    by (rule run_seq2 [OF within, of "?r\<lparr>r_pc := RSeq2 ?s (last (written c)), r_view := W\<rparr>"]) (use W(1) in auto)
  ultimately show ?thesis by auto
qed

lemma run_seq2_end:
  assumes within: "sl_within c" and inv: "sl_inv n c" and idle: "w_pc c = WIdle"
    and r: "tview_within (sl_newest c) (r_view r)" "r_pc r = RSeq2 s1 buf"
  shows "\<exists>r' v. read_finish n c (n + 4) r = Some r' \<and> r_pc r' = RIdle \<and> r_got r' = r_got r @ [v]"
proof -
  obtain V where V: "tview_within (sl_newest c) V" "read_finish n c (Suc 0) r =
       Some (if s1 = fst (last (seq_h c)) then r\<lparr>r_pc := RIdle, r_view := V, r_got := r_got r @ [buf]\<rparr>
             else r\<lparr>r_pc := RSeq1, r_view := V\<rparr>)"
    by (rule run_seq2 [OF within r])
  have four: "n + 4 = Suc 0 + (n + 3)" by simp
  show ?thesis
    using read_finish_add [OF V(2), of "n + 3"] run_seq1 [OF within inv idle, of "r\<lparr>r_pc := RSeq1, r_view := V\<rparr>"] V(1)
    unfolding four by (auto simp: read_finish_idle split: if_splits)
qed

lemma run_any:
  assumes within: "sl_within c" and inv: "sl_inv n c" and idle: "w_pc c = WIdle" and i: "readers c i = Some r" "r_pc r \<noteq> RIdle"
  shows "\<exists>r' v. read_finish n c (2 * n + 6) r = Some r' \<and> r_pc r' = RIdle \<and> r_got r' = r_got r @ [v]"
proof -
  have V: "tview_within (sl_newest c) (r_view r)" by (rule sl_withinD(6) [OF within i(1)])
  show ?thesis
  proof (cases "r_pc r")
    case RIdle
    with i(2) show ?thesis by simp
  next
    case RSeq1
    with run_seq1 [OF within inv idle V] obtain r' where
      "read_finish n c (n + 3) r = Some r'" "r_pc r' = RIdle" "r_got r' = r_got r @ [last (written c)]"
      by blast
    with read_finish_more [OF this(1,2), of "2 * n + 6"] show ?thesis by auto
  next
    case (RData s1 buf)
    from inv i(1) RData have "length buf \<le> n"
      by (fastforce simp: sl_inv_def sl_reader_inv_def sl_parts_def)
    then obtain m where m: "length buf + m = n" using le_Suc_ex by blast
    from run_parts [OF within V RData m] obtain W buf' where
      W: "tview_within (sl_newest c) W" "read_finish n c (Suc m) r = Some (r\<lparr>r_pc := RSeq2 s1 buf', r_view := W\<rparr>)"
      by blast
    from run_seq2_end [OF within inv idle, of "r\<lparr>r_pc := RSeq2 s1 buf', r_view := W\<rparr>"] W(1) obtain r' v where
      r': "read_finish n c (n + 4) (r\<lparr>r_pc := RSeq2 s1 buf', r_view := W\<rparr>) = Some r'" "r_pc r' = RIdle"
        "r_got r' = r_got r @ [v]"
      by auto
    from r'(1) have "read_finish n c (Suc m + (n + 4)) r = Some r'"
      by (simp only: read_finish_add [OF W(2)])
    from read_finish_more [OF this r'(2), of "2 * n + 6"] m r' show ?thesis by auto
  next
    case (RSeq2 s1 buf)
    with run_seq2_end [OF within inv idle V] obtain r' v where
      "read_finish n c (n + 4) r = Some r'" "r_pc r' = RIdle" "r_got r' = r_got r @ [v]"
      by blast
    with read_finish_more [OF this(1,2), of "2 * n + 6"] show ?thesis by auto
  qed
qed

section \<open>A writer runs to its end\<close>

fun w_rank :: "nat \<Rightarrow> 'v wpc \<Rightarrow> nat" where
  "w_rank n WIdle = 0"
| "w_rank n (WData v s i) = Suc (n - i)"
| "w_rank n (WFence v s) = n + 2"
| "w_rank n (WOdd v s) = n + 3"
| "w_rank n (WLoad v) = n + 4"

fun write_finish :: "nat \<Rightarrow> nat \<Rightarrow> 'v sl \<Rightarrow> 'v sl option" where
  "write_finish n 0 c = Some c"
| "write_finish n (Suc k) c =
     (case w_pc c of
        WIdle \<Rightarrow> Some c
      | _ \<Rightarrow> (case sl_write_step n (sl_newest c Seq) c of None \<Rightarrow> None | Some c' \<Rightarrow> write_finish n k c'))"

lemma write_step_rank:
  "sl_write_step n ts c = Some c' \<Longrightarrow> w_rank n (w_pc c') < w_rank n (w_pc c) \<and> readers c' = readers c"
  by (cases "w_pc c")
    (auto simp: sl_write_step_def store_relaxed_def store_release_def split: option.splits if_splits)

lemma write_step_enabled:
  assumes "sl_within c" "w_pc c \<noteq> WIdle"
  shows "\<exists>c'. sl_write_step n (sl_newest c Seq) c = Some c'"
proof -
  from load_newest(2) [of "sl_newest c", OF sl_withinD(5,1) [OF assms(1)]] obtain V where
    "load_relaxed Seq (seq_h c) (sl_newest c Seq) (w_view c) = Some (fst (last (seq_h c)), V)" by blast
  with assms(2) show ?thesis
    by (cases "w_pc c")
      (auto simp: sl_write_step_def store_relaxed_def store_release_def simp del: sl_newest_simps)
qed

lemma write_finish_inv:
  "sl_within c \<Longrightarrow> sl_inv n c \<Longrightarrow> w_rank n (w_pc c) \<le> k \<Longrightarrow>
     \<exists>c'. write_finish n k c = Some c' \<and> w_pc c' = WIdle \<and> sl_inv n c' \<and>
       written c' = written c \<and> readers c' = readers c"
proof (induction k arbitrary: c)
  case 0
  then show ?case by (cases "w_pc c") auto
next
  case (Suc k)
  show ?case
  proof (cases "w_pc c = WIdle")
    case True
    with Suc.prems show ?thesis by simp
  next
    case False
    from write_step_enabled [OF Suc.prems(1) False] obtain c1 where
      st: "sl_write_step n (sl_newest c Seq) c = Some c1" by blast
    have ev: "sl_step n c (WriteStep (sl_newest c Seq)) = Some c1" using st by simp
    have w1: "written c1 = written c"
      using sl_write_step_core [OF _ st] Suc.prems(2) by (auto simp: sl_inv_core)
    from write_step_rank [OF st] Suc.prems(3) have rk: "w_rank n (w_pc c1) \<le> k" "readers c1 = readers c"
      by simp_all
    from Suc.IH [OF sl_step_within [OF Suc.prems(1) ev] sl_step_inv [OF Suc.prems(2) ev] rk(1)] False st w1 rk(2)
    show ?thesis by (cases "w_pc c") simp_all
  qed
qed

text \<open>The shared state of the lock when no write is in progress.\<close>

definition sl_inner :: "nat \<Rightarrow> 'v sl \<Rightarrow> 'v list seqlock_inner" where
  "sl_inner n c =
     \<lparr>sl_data = map (\<lambda>a. fst (last (data_h c a))) [0..<n], sl_seq = fst (last (seq_h c))\<rparr>"

lemma sl_inner_idle:
  assumes "sl_inv n c" "w_pc c = WIdle"
  shows "sl_inner n c = \<lparr>sl_data = last (written c), sl_seq = of_nat (2 * (length (written c) - 1))\<rparr>"
proof -
  note new = idle_newest [OF assms]
  have "map (\<lambda>a. fst (last (data_h c a))) [0..<n] = map ((!) (last (written c))) [0..<n]"
    using new(2) by (intro map_cong) auto
  also have "\<dots> = last (written c)" using new(3) by (metis map_nth)
  finally show ?thesis by (simp only: sl_inner_def new(1))
qed

lemma sl_inner_idle_read:
  assumes "sl_inv n c" "w_pc c = WIdle"
  shows "seqlock_read (sl_inner n c) = Some (last (written c))"
proof -
  have "seq_even (sl_inner n c)"
    unfolding sl_inner_idle [OF assms] seq_even_def seqlock_inner.simps by (simp only: and_1_of_nat) simp
  from seqlock_read_even [OF this] show ?thesis by (simp add: sl_inner_idle [OF assms])
qed

lemma sl_reader_reads:
  assumes "sl_reach n v0 c" "length (written c) \<le> 2 ^ 63" "readers c i = Some r"
  shows "\<exists>ks. sorted ks \<and> r_got r = map ((!) (written c)) ks \<and> (\<forall>k\<in>set ks. k < length (written c))"
proof -
  have inv: "sl_inv n c" by (rule sl_reach_inv [OF assms(1)])
  then have "sl_hist_inv n (seq_h c) (data_h c) (written c)" by (simp add: sl_inv_def)
  from sl_hist_invD(7) [OF this] assms(2) have "length (seq_h c) \<le> 2 ^ 64" by simp
  moreover have "sl_reader_inv n (seq_h c) (data_h c) (written c) r"
    using inv assms(3) by (simp add: sl_inv_def)
  ultimately have "\<exists>b. good_reads (written c) b (r_got r)"
    by (auto simp: sl_reader_inv_def split: rpc.splits)
  then show ?thesis by (auto simp: good_reads_def)
qed

section \<open>A reader that has seen the last write\<close>

text \<open>
  \<open>read_run\<close> takes own steps of a reader with the loads given; \<open>reader_up_to_date\<close> says that the view of
  the reader covers the newest entries (it has synchronised with the last write). Then every load
  there is returns the newest entry.
\<close>

fun read_run :: "nat \<Rightarrow> 'v sl \<Rightarrow> nat list \<Rightarrow> 'v reader \<Rightarrow> 'v reader option" where
  "read_run n c [] r = Some r"
| "read_run n c (ts # tss) r =
     (case sl_read_step n ts c r of None \<Rightarrow> None | Some r' \<Rightarrow> read_run n c tss r')"

definition reader_up_to_date :: "nat \<Rightarrow> 'v sl \<Rightarrow> 'v reader \<Rightarrow> bool" where
  "reader_up_to_date n c r \<longleftrightarrow>
     sl_newest c Seq \<le> cur (r_view r) Seq \<and> list_all (\<lambda>a. sl_newest c (Data a) \<le> cur (r_view r) (Data a)) [0..<n]"

lemma read_step_current:
  assumes "sl_read_step n ts c r = Some r1" "reader_up_to_date n c r"
  shows "sl_read_step n (read_newest c r) c r = Some r1 \<and> reader_up_to_date n c r1"
proof -
  have grow: "cur (r_view r) l \<le> cur (r_view r1) l" for l
    using assms(1)
    by (auto simp: sl_read_step_def split: rpc.splits option.splits if_splits
        dest: load_relaxed_grows [of _ _ _ _ _ _ l] load_acquire_grows [of _ _ _ _ _ _ l])
  have "reader_up_to_date n c r1" using assms(2) grow unfolding reader_up_to_date_def list_all_iff by (meson order_trans)
  moreover have "sl_read_step n (read_newest c r) c r = Some r1"
  proof (cases "\<exists>s buf. r_pc r = RData s buf \<and> \<not> length buf < n \<or> r_pc r = RIdle")
    case False
    have "ts = read_newest c r"
      using assms False
      by (auto simp: sl_read_step_def read_newest_def reader_up_to_date_def list_all_iff
          split: rpc.splits option.splits if_splits dest!: load_forced)
    with assms(1) show ?thesis by simp
  qed (use assms(1) in \<open>auto simp: sl_read_step_def\<close>)
  ultimately show ?thesis by simp
qed

lemma read_run_finish:
  "read_run n c tss r = Some r' \<Longrightarrow> reader_up_to_date n c r \<Longrightarrow> read_finish n c (length tss) r = Some r'"
proof (induction tss arbitrary: r)
  case (Cons ts tss)
  then obtain r1 where r1: "sl_read_step n ts c r = Some r1" "read_run n c tss r1 = Some r'"
    by (auto split: option.splits)
  then have "r_pc r \<noteq> RIdle" by (auto simp: sl_read_step_def)
  with Cons.IH [OF r1(2)] read_step_current [OF r1(1) Cons.prems(2)] show ?case by simp
qed simp

lemma read_run_append:
  "read_run n c (tss @ tss') r = (case read_run n c tss r of None \<Rightarrow> None | Some r' \<Rightarrow> read_run n c tss' r')"
  by (induction tss arbitrary: r) (auto split: option.split)

lemma read_run_current:
  assumes run: "read_run n c tss r = Some r'" and "reader_up_to_date n c r"
    and fin: "read_finish n c k r = Some r1" "r_pc r1 = RIdle"
  shows "length tss \<le> k \<and> (r_pc r' = RIdle \<longrightarrow> r' = r1)"
proof (cases "length tss \<le> k")
  case True
  from read_finish_add [OF read_run_finish [OF run assms(2)], of "k - length tss"] True fin(1)
  have "read_finish n c (k - length tss) r' = Some r1" by simp
  with True show ?thesis by (auto simp: read_finish_idle)
next
  case False
  then have split: "tss = take k tss @ tss ! k # drop (Suc k) tss" by (simp add: id_take_nth_drop)
  from run obtain m where m: "read_run n c (take k tss) r = Some m" "read_run n c (tss ! k # drop (Suc k) tss) m = Some r'"
    by (subst (asm) split) (auto simp: read_run_append split: option.splits)
  from read_run_finish [OF m(1) assms(2)] False fin(1) have "m = r1" by simp
  with m(2) fin(2) show ?thesis by (simp add: sl_read_step_def)
qed

section \<open>Properties\<close>

text \<open>
  C1: Whatever a reader's calls of \<open>read\<close> have returned, in any interleaving with the writer and
  the other readers and with any stale values the memory model allows, are whole values that
  were handed to \<open>write\<close> (or the initial one), in the order of the writes: no torn value is
  returned and no reader goes back in time. The bound excludes a sequence number that comes
  round to the same value within one call of \<open>read\<close>.
\<close>

theorem sl_reads_whole_monotone:
  assumes "sl_reach n v0 c" "length (written c) \<le> 2 ^ 63" "readers c i = Some r"
  shows "\<exists>ks. sorted ks \<and> r_got r = map ((!) (written c)) ks \<and> (\<forall>k\<in>set ks. k < length (written c))"
  by (rule sl_reader_reads [OF assms])

text \<open>Reader 0 copies one part before and one part after a write; then it retries.\<close>

definition torn_events :: "nat sl_event list" where
  "torn_events =
     [ReadCall 0, ReadStep 0 0, ReadStep 0 0, WriteCall [1, 1], WriteStep 0, WriteStep 0, WriteStep 0,
      WriteStep 0, WriteStep 0, ReadStep 0 1, ReadStep 0 0]"

definition retry_events :: "nat sl_event list" where
  "retry_events =
     torn_events @ [ReadStep 0 1, WriteStep 0, ReadStep 0 2, ReadStep 0 1, ReadStep 0 1, ReadStep 0 0, ReadStep 0 2]"

lemma torn_run:
  "map_option (\<lambda>c. (written c, map_option (\<lambda>r. (r_pc r, r_got r)) (readers c 0)))
     (sl_run 2 (sl_new 2 [0, 0]) torn_events) = Some ([[0, 0], [1, 1]], Some (RSeq2 0 [0, 1], []))"
  by code_simp

lemma torn_reach:
  "\<exists>c r. sl_reach 2 [0, 0 :: nat] c \<and> written c = [[0, 0], [1, 1]] \<and>
     readers c 0 = Some r \<and> r_pc r = RSeq2 0 [0, 1] \<and> r_got r = []"
proof -
  from torn_run obtain c where "sl_run 2 (sl_new 2 [0, 0]) torn_events = Some c"
    "written c = [[0, 0], [1, 1]]" "map_option (\<lambda>r. (r_pc r, r_got r)) (readers c 0) = Some (RSeq2 0 [0, 1], [])"
    by auto
  moreover have "sl_reach 2 [0, 0 :: nat] (sl_new 2 [0, 0])" by (rule sl_init) simp
  ultimately show ?thesis using sl_reach_run by fastforce
qed

lemma retry_run:
  "map_option (\<lambda>c. (w_pc c, written c, map_option (\<lambda>r. (r_pc r, r_got r)) (readers c 0)))
     (sl_run 2 (sl_new 2 [0, 0]) retry_events) = Some (WIdle, [[0, 0], [1, 1]], Some (RIdle, [[1, 1]]))"
  by code_simp

lemma retry_reach:
  "\<exists>c r. sl_reach 2 [0, 0 :: nat] c \<and> w_pc c = WIdle \<and> written c = [[0, 0], [1, 1]] \<and>
     readers c 0 = Some r \<and> r_pc r = RIdle \<and> r_got r = [[1, 1]]"
proof -
  from retry_run obtain c where "sl_run 2 (sl_new 2 [0, 0]) retry_events = Some c" "w_pc c = WIdle"
    "written c = [[0, 0], [1, 1]]" "map_option (\<lambda>r. (r_pc r, r_got r)) (readers c 0) = Some (RIdle, [[1, 1]])"
    by auto
  moreover have "sl_reach 2 [0, 0 :: nat] (sl_new 2 [0, 0])" by (rule sl_init) simp
  ultimately show ?thesis using sl_reach_run by fastforce
qed

theorem sl_reads_whole_monotone_witness:
  "\<exists>c r ks. sl_reach 2 [0, 0 :: nat] c \<and> readers c 0 = Some r \<and> r_got r = [[1, 1]] \<and>
     sorted ks \<and> r_got r = map ((!) (written c)) ks"
proof -
  obtain c r where c: "sl_reach 2 [0, 0 :: nat] c" "written c = [[0, 0], [1, 1]]" "readers c 0 = Some r"
      "r_got r = [[1, 1]]"
    using retry_reach by blast
  have "length (written c) \<le> 2 ^ 63" by (simp add: c(2))
  from sl_reads_whole_monotone [OF c(1) this c(3)] c show ?thesis by blast
qed

text \<open>
  A copy that is not a whole written value (the witness reaches one) is never returned: the
  second load of the sequence number makes the reader retry.
\<close>

theorem sl_torn_copy_retries:
  assumes "sl_reach n v0 c" "length (written c) \<le> 2 ^ 63" "readers c i = Some r"
    and "r_pc r = RSeq2 s1 buf" "buf \<notin> set (written c)" "sl_read_step n ts c r = Some r'"
  shows "r_pc r' = RSeq1 \<and> r_got r' = r_got r"
proof (rule ccontr)
  assume neq: "\<not> ?thesis"
  from assms(4,6) neq have got: "r_got r' = r_got r @ [buf]" "r_pc r' = RIdle"
    by (auto simp: sl_read_step_def split: option.splits if_splits)
  have inv: "sl_inv n c" by (rule sl_reach_inv [OF assms(1)])
  then have hist: "sl_hist_inv n (seq_h c) (data_h c) (written c)" by (simp add: sl_inv_def)
  from inv assms(3) have "sl_reader_inv n (seq_h c) (data_h c) (written c) r" by (simp add: sl_inv_def)
  from sl_read_step_inv [OF hist this assms(6)] got(2) sl_hist_invD(7) [OF hist] assms(2)
  have "good_reads (written c) (cur (r_view r') Seq) (r_got r')" by (simp add: sl_reader_inv_def)
  with got(1) assms(5) show False
    by (fastforce simp: good_reads_def map_eq_append_conv append_eq_map_conv Cons_eq_map_conv)
qed

theorem sl_torn_copy_retries_witness:
  "\<exists>c r r'. sl_reach 2 [0, 0 :: nat] c \<and> readers c 0 = Some r \<and> r_pc r = RSeq2 0 [0, 1] \<and>
     sl_read_step 2 (sl_newest c Seq) c r = Some r' \<and> r_pc r' = RSeq1 \<and> r_got r' = []"
proof -
  obtain c r where c: "sl_reach 2 [0, 0 :: nat] c" "written c = [[0, 0], [1, 1]]"
    "readers c 0 = Some r" "r_pc r = RSeq2 0 [0, 1]" "r_got r = []"
    using torn_reach by blast
  note w = sl_withinD [OF sl_reach_within [OF c(1)]]
  from load_newest(2) [of "sl_newest c", OF w(6) [OF c(3)] w(1)] obtain V where
    "load_relaxed Seq (seq_h c) (sl_newest c Seq) (r_view r) = Some (fst (last (seq_h c)), V)" by blast
  then obtain r' where r': "sl_read_step 2 (sl_newest c Seq) c r = Some r'"
    using c(4) by (simp add: sl_read_step_def del: sl_newest_simps)
  have "length (written c) \<le> 2 ^ 63" "[0, 1] \<notin> set (written c)" by (simp_all add: c(2))
  from sl_torn_copy_retries [OF c(1) this(1) c(3,4) this(2) r'] c r' show ?thesis by fastforce
qed

text \<open>
  C23: A call of \<open>write\<close> is wait-free and does what the sequential \<open>write\<close> does: from any
  reachable state, whatever the readers are doing, it ends within \<open>n + 4\<close> steps of its own, leaves
  every reader alone, and the shared state becomes \<open>seqlock_write\<close> of the shared state before.
\<close>

theorem sl_write_refines:
  assumes "sl_reach n v0 c" "w_pc c = WIdle" "length v = n"
  shows "\<exists>c1 c'. sl_step n c (WriteCall v) = Some c1 \<and> write_finish n (n + 4) c1 = Some c' \<and>
    w_pc c' = WIdle \<and> readers c' = readers c \<and> written c' = written c @ [v] \<and>
    sl_inner n c' = seqlock_write (sl_inner n c) v"
proof -
  have inv: "sl_inv n c" by (rule sl_reach_inv [OF assms(1)])
  let ?c1 = "c\<lparr>w_pc := WLoad v, written := written c @ [v]\<rparr>"
  have st: "sl_step n c (WriteCall v) = Some ?c1" using assms(2,3) by simp
  note r1 = sl_next [OF assms(1) st]
  have "w_rank n (w_pc ?c1) \<le> n + 4" by simp
  from write_finish_inv [OF sl_reach_within [OF r1] sl_reach_inv [OF r1] this] obtain c' where
    c': "write_finish n (n + 4) ?c1 = Some c'" "w_pc c' = WIdle" "sl_inv n c'"
      "written c' = written c @ [v]" "readers c' = readers c" by auto
  have ne: "written c \<noteq> []" using inv sl_core_nonempty unfolding sl_inv_core by blast
  have "(of_nat (2 * length (written c)) :: u64) = of_nat (2 * (length (written c) - 1)) + 2"
    using of_nat_pred_word(2) [of "2 * length (written c)"] ne by (cases "written c") simp_all
  then have "sl_inner n c' = seqlock_write (sl_inner n c) v"
    using c'(4) unfolding sl_inner_idle [OF c'(3,2)] sl_inner_idle [OF inv assms(2)]
    by (simp add: seqlock_write_def)
  with st c' show ?thesis by blast
qed

theorem sl_write_refines_witness:
  "\<exists>c c'. sl_reach 2 [0, 0 :: nat] c \<and> written c = [[0, 0], [1, 1]] \<and> w_pc c' = WIdle \<and>
     sl_inner 2 c' = seqlock_write (sl_inner 2 c) [5, 6]"
proof -
  obtain c where c: "sl_reach 2 [0, 0 :: nat] c" "w_pc c = WIdle" "written c = [[0, 0], [1, 1]]"
    using retry_reach by blast
  have "length [5, 6 :: nat] = 2" by simp
  from sl_write_refines [OF c(1,2) this] c show ?thesis by blast
qed

text \<open>
  C24: While no write is in progress, a fresh call of \<open>read\<close> whose loads return the newest
  entries ends within \<open>n + 3\<close> own steps and returns the last value written, which is what the
  sequential \<open>read\<close> returns on the shared state. (With stale loads it may return an older value,
  as the first property of this theory says.) A reader that has synchronised with the last
  write has no other loads: each run of its own steps is at most \<open>n + 3\<close> long, and the call
  returns the last value written.
\<close>

theorem sl_read_refines:
  assumes "sl_reach n v0 c" "w_pc c = WIdle" "readers c i = Some r" "r_pc r = RIdle"
  shows "(\<exists>r'. read_finish n c (n + 3) (r\<lparr>r_pc := RSeq1\<rparr>) = Some r' \<and> r_pc r' = RIdle \<and>
      r_got r' = r_got r @ [last (written c)]) \<and>
    seqlock_read (sl_inner n c) = Some (last (written c)) \<and>
    (\<forall>tss r'. reader_up_to_date n c r \<and> read_run n c tss (r\<lparr>r_pc := RSeq1\<rparr>) = Some r' \<longrightarrow>
       length tss \<le> n + 3 \<and> (r_pc r' = RIdle \<longrightarrow> r_got r' = r_got r @ [last (written c)]))"
proof -
  have inv: "sl_inv n c" by (rule sl_reach_inv [OF assms(1)])
  have w: "sl_within c" by (rule sl_reach_within [OF assms(1)])
  from run_seq1 [OF w inv assms(2), of "r\<lparr>r_pc := RSeq1\<rparr>"] sl_withinD(6) [OF w assms(3)]
  obtain r1 where r1: "read_finish n c (n + 3) (r\<lparr>r_pc := RSeq1\<rparr>) = Some r1" "r_pc r1 = RIdle"
    "r_got r1 = r_got r @ [last (written c)]" by auto
  have "reader_up_to_date n c r \<longleftrightarrow> reader_up_to_date n c (r\<lparr>r_pc := RSeq1\<rparr>)" by (simp add: reader_up_to_date_def)
  with r1 read_run_current [OF _ _ r1(1,2)] sl_inner_idle_read [OF inv assms(2)] show ?thesis by blast
qed

text \<open>Reader 0 has just read the last value, so it is up to date, and reads it again.\<close>

lemma retry_read_again:
  "map_option (\<lambda>c. (w_pc c, written c, map_option (\<lambda>r. (r_pc r, r_got r, reader_up_to_date 2 c r,
       map_option r_pc (read_run 2 c [2, 1, 1, 0, 2] (r\<lparr>r_pc := RSeq1\<rparr>)))) (readers c 0)))
     (sl_run 2 (sl_new 2 [0, 0]) retry_events) =
   Some (WIdle, [[0, 0], [1, 1]], Some (RIdle, [[1, 1]], True, Some RIdle))"
  by code_simp

theorem sl_read_refines_witness:
  "\<exists>c r r' r''. sl_reach 2 [0, 0 :: nat] c \<and> readers c 0 = Some r \<and> reader_up_to_date 2 c r \<and>
     read_finish 2 c 5 (r\<lparr>r_pc := RSeq1\<rparr>) = Some r' \<and> r_got r' = [[1, 1], [1, 1]] \<and>
     read_run 2 c [2, 1, 1, 0, 2] (r\<lparr>r_pc := RSeq1\<rparr>) = Some r'' \<and> r_got r'' = [[1, 1], [1, 1]]"
proof -
  from retry_read_again obtain c r r'' where run: "sl_run 2 (sl_new 2 [0, 0]) retry_events = Some c"
    and c: "w_pc c = WIdle" "written c = [[0, 0], [1, 1]]" "readers c 0 = Some r" "r_pc r = RIdle" "r_got r = [[1, 1]]"
      "reader_up_to_date 2 c r" "read_run 2 c [2, 1, 1, 0, 2] (r\<lparr>r_pc := RSeq1\<rparr>) = Some r''" "r_pc r'' = RIdle"
    unfolding map_option_eq_Some prod.inject by blast
  have "sl_reach 2 [0, 0 :: nat] (sl_new 2 [0, 0])" by (rule sl_init) simp
  from sl_reach_run [OF this run] have reach: "sl_reach 2 [0, 0] c" .
  note read = sl_read_refines [OF reach c(1,3,4)]
  from read c(2,5) have "\<exists>r'. read_finish 2 c 5 (r\<lparr>r_pc := RSeq1\<rparr>) = Some r' \<and> r_got r' = [[1, 1], [1, 1]]"
    by auto
  moreover have "r_got r'' = [[1, 1], [1, 1]]"
    using conjunct2 [OF conjunct2 [OF read], rule_format, OF conjI [OF c(6,7)]] c(2,5,8) by simp
  ultimately show ?thesis using reach c(3,6,7) by blast
qed

text \<open>
  A reader anywhere inside \<open>read\<close> ends its call within \<open>2 * n + 6\<close> own steps once the writer
  stays idle: at most one retry.
\<close>

theorem sl_read_ends:
  assumes "sl_reach n v0 c" "w_pc c = WIdle" "readers c i = Some r" "r_pc r \<noteq> RIdle"
  shows "\<exists>r' v. read_finish n c (2 * n + 6) r = Some r' \<and> r_pc r' = RIdle \<and> r_got r' = r_got r @ [v]"
  by (rule run_any [OF sl_reach_within [OF assms(1)] sl_reach_inv [OF assms(1)] assms(2-4)])

theorem sl_read_ends_witness:
  "\<exists>c r r' v. sl_reach 2 [0, 0 :: nat] c \<and> r_pc r = RSeq1 \<and> read_finish 2 c 10 r = Some r' \<and>
     r_got r' = [[1, 1], v]"
proof -
  obtain c r where c: "sl_reach 2 [0, 0 :: nat] c" "w_pc c = WIdle" "written c = [[0, 0], [1, 1]]"
    "readers c 0 = Some r" "r_pc r = RIdle" "r_got r = [[1, 1]]"
    using retry_reach by blast
  let ?c = "c\<lparr>readers := (readers c)(0 \<mapsto> r\<lparr>r_pc := RSeq1\<rparr>)\<rparr>"
  have st: "sl_step 2 c (ReadCall 0) = Some ?c" using c(4,5) by simp
  have "w_pc ?c = WIdle" "readers ?c 0 = Some (r\<lparr>r_pc := RSeq1\<rparr>)" "r_pc (r\<lparr>r_pc := RSeq1\<rparr>) \<noteq> RIdle"
    using c(2) by simp_all
  from sl_read_ends [OF sl_next [OF c(1) st] this] obtain r' v where
    "read_finish 2 ?c 10 (r\<lparr>r_pc := RSeq1\<rparr>) = Some r'" "r_got r' = [[1, 1], v]"
    using c(6) by auto
  with sl_next [OF c(1) st] show ?thesis by force
qed

text \<open>
  Run one call at a time, \<open>read\<close> returns the argument of the last \<open>write\<close>, or the initial
  value, for any number of writes (also when the sequence number has wrapped).
\<close>

theorem seqlock_read_last_write:
  "seqlock_read (seqlock_writes (seqlock_new v) vs) = Some (last (v # vs))"
proof -
  have "seq_even (seqlock_writes (seqlock_new v) vs)" by (simp add: seqlock_writes_simps)
  from seqlock_read_even [OF this] show ?thesis by (simp add: seqlock_writes_simps)
qed

lemma seqlock_read_returns_even:
  assumes "seqlock_read l = Some v"
  shows "sl_seq l AND 1 \<noteq> 1"
proof (rule seqlock_read.raw_induct [of "\<lambda>l v. sl_seq l AND 1 \<noteq> 1", OF _ assms])
  fix read :: "'a seqlock_inner \<Rightarrow> 'a option" and l v
  assume "\<And>l v. read l = Some v \<Longrightarrow> sl_seq l AND 1 \<noteq> 1"
    and "(let s1 = sl_seq l
      in if s1 AND 1 = 1 then read l
         else let read_attempt = sl_data l; s2 = sl_seq l
           in if s1 = s2 then Some read_attempt else read l) = Some v"
  then show "sl_seq l AND 1 \<noteq> 1" by (auto simp: Let_def split: if_splits)
qed

text \<open>
  \<open>read\<close> has no bound on its retries: on a lock whose sequence number is odd (a writer that
  stopped between its two stores) it never returns, and it returns on every other one.
\<close>

theorem seqlock_read_spins_iff_odd:
  "seqlock_read l = None \<longleftrightarrow> sl_seq l AND 1 = 1"
  using seqlock_read_returns_even [of l] seqlock_read_even [of l]
  by (cases "seqlock_read l") (auto simp: seq_even_def)

end
