(* ===== verification/Seqlock_Clients.thy ===== *)
theory Seqlock_Clients
  imports Seqlock_Progress Bench_Support
begin

text \<open>
  Programs with one writer thread and several reader threads on the weak-memory seqlock: the test
  \<open>single_writer_multi_reader\<close> of \<open>seqlock/lock.rs\<close>, in which a barrier hands every value to every
  reader, the benchmark \<open>examples/seqlock/bench_handoff.rs\<close>, and \<open>examples/seqlock/hello.rs\<close>. The
  calls of \<open>read\<close> and \<open>write\<close> are the steps of \<open>Seqlock\<close>, so that reads may be stale and overlap
  writes; the rest of a thread's loop body is run with the last step of its call.
\<close>

section \<open>The readers' view of a call\<close>

lemma sl_read_step_got:
  assumes "sl_read_step n ts c r = Some r'"
  shows "(r_pc r' = RIdle \<and> (\<exists>b. r_got r' = r_got r @ [b])) \<or> (r_pc r' \<noteq> RIdle \<and> r_got r' = r_got r)"
  using assms by (auto simp: sl_read_step_def split: rpc.splits option.splits if_splits)

lemma sl_write_step_keeps:
  assumes "sl_write_step n ts c = Some c'"
  shows "written c' = written c" "readers c' = readers c"
  using assms by (auto simp: sl_write_step_def Let_def split: wpc.splits option.splits if_splits prod.splits)

text \<open>
  With distinct values of which at most \<open>m + 1\<close> have been handed to \<open>write\<close>, a reader whose last
  value was number \<open>m - 1\<close> (counting the initial one as 0) reads that one again or number \<open>m\<close>.
\<close>

lemma next_read:
  assumes reads: "sorted ks" "got @ [b] = map ((!) (take (Suc k) W)) ks" "\<forall>j\<in>set ks. j < Suc k"
    and k: "k < length W" "k \<le> m" and W: "distinct W"
    and last: "if got = [] then m = 0 else 0 < m \<and> m \<le> length W \<and> last got = W ! (m - 1)"
  shows "(0 < m \<and> b = W ! (m - 1)) \<or> (m = k \<and> b = W ! m)"
proof -
  from reads(2) obtain js j where ks: "ks = js @ [j]" "got = map ((!) (take (Suc k) W)) js" "b = take (Suc k) W ! j"
    by (cases ks rule: rev_cases) auto
  with reads(3) have j: "j \<le> k" "b = W ! j" by auto
  show ?thesis
  proof (cases "got = []")
    case True
    with last k j show ?thesis by simp
  next
    case False
    with ks(2) have js: "js \<noteq> []" by auto
    then have "last js \<le> j" "last js < Suc k" using reads(1,3) ks(1) by (auto simp: sorted_append)
    moreover have "last got = W ! last js"
      using ks(2) js \<open>last js < Suc k\<close> by (simp add: last_map)
    with False last have "W ! last js = W ! (m - 1)" "0 < m" "m - 1 < length W" by auto
    then have "last js = m - 1" using W \<open>last js < Suc k\<close> k(1) by (simp add: nth_eq_iff_index_eq)
    ultimately have "j = m - 1 \<or> j = m" using j(1) k(2) \<open>0 < m\<close> by linarith
    with j k(2) \<open>0 < m\<close> show ?thesis by auto
  qed
qed

section \<open>The test with the barrier\<close>

text \<open>
  \<open>Barrier\<close>: a thread that has called \<open>wait\<close> for the \<open>g\<close>-th time goes on when every thread has called
  it \<open>g\<close> times. The writer calls \<open>wait\<close> first and after every \<open>write\<close> (\<open>wait_next\<close>); a reader calls it
  after every value it has collected.
\<close>

record 'v swmr =
  lock :: "'v sl"
  to_write :: "'v list list"
  wait_next :: bool
  w_arrived :: nat
  w_passed :: nat
  collected :: "nat \<Rightarrow> 'v list list"
  r_arrived :: "nat \<Rightarrow> nat"
  r_passed :: "nat \<Rightarrow> nat"

datatype swmr_event =
    WriterWait
  | WriterPass
  | WriterCall
  | WriterStep nat
  | ReaderCall nat
  | ReaderStep nat nat
  | ReaderPass nat

definition arrivals :: "nat \<Rightarrow> 'v swmr \<Rightarrow> nat \<Rightarrow> bool" where
  "arrivals R s g \<longleftrightarrow> g \<le> w_arrived s \<and> list_all (\<lambda>i. g \<le> r_arrived s i) [0..<R]"

text \<open>The readers' loop body after \<open>read\<close>: a value equal to the last one collected is read again.\<close>

definition collect_item :: "nat \<Rightarrow> 'v list \<Rightarrow> 'v swmr \<Rightarrow> 'v swmr" where
  "collect_item i item s =
     (if collected s i \<noteq> [] \<and> last (collected s i) = item then s
      else s\<lparr>collected := (collected s)(i := collected s i @ [item]),
             r_arrived := (r_arrived s)(i := r_arrived s i + 1)\<rparr>)"

fun swmr_step :: "nat \<Rightarrow> nat \<Rightarrow> nat \<Rightarrow> 'v swmr \<Rightarrow> swmr_event \<Rightarrow> 'v swmr option" where
  "swmr_step n R full s WriterWait =
     (if wait_next s \<and> w_arrived s = w_passed s \<and> w_pc (lock s) = WIdle
      then Some (s\<lparr>w_arrived := w_arrived s + 1, wait_next := False\<rparr>) else None)"
| "swmr_step n R full s WriterPass =
     (if w_arrived s = w_passed s + 1 \<and> arrivals R s (w_passed s + 1)
      then Some (s\<lparr>w_passed := w_passed s + 1\<rparr>) else None)"
| "swmr_step n R full s WriterCall =
     (if \<not> wait_next s \<and> w_arrived s = w_passed s
      then (case to_write s of
              [] \<Rightarrow> None
            | v # vs \<Rightarrow>
                (case sl_step n (lock s) (WriteCall v) of
                   None \<Rightarrow> None
                 | Some c \<Rightarrow> Some (s\<lparr>lock := c, to_write := vs, wait_next := True\<rparr>)))
      else None)"
| "swmr_step n R full s (WriterStep ts) =
     map_option (\<lambda>c. s\<lparr>lock := c\<rparr>) (sl_step n (lock s) (WriteStep ts))"
| "swmr_step n R full s (ReaderCall i) =
     (if i < R \<and> r_arrived s i = r_passed s i \<and> length (collected s i) \<noteq> full
      then map_option (\<lambda>c. s\<lparr>lock := c\<rparr>) (sl_step n (lock s) (ReadCall i)) else None)"
| "swmr_step n R full s (ReaderStep i ts) =
     (if i < R
      then (case sl_step n (lock s) (ReadStep i ts) of
              None \<Rightarrow> None
            | Some c \<Rightarrow>
                (case readers c i of
                   None \<Rightarrow> None
                 | Some r \<Rightarrow>
                     let s = s\<lparr>lock := c\<rparr>
                     in Some (if r_pc r = RIdle then collect_item i (last (r_got r)) s else s)))
      else None)"
| "swmr_step n R full s (ReaderPass i) =
     (if i < R \<and> r_arrived s i = r_passed s i + 1 \<and> arrivals R s (r_passed s i + 1)
      then Some (s\<lparr>r_passed := (r_passed s)(i := r_passed s i + 1)\<rparr>) else None)"

text \<open>The start: every reader thread has its own view of the lock, all of them as of \<open>new\<close>.\<close>

definition swmr_lock :: "nat \<Rightarrow> nat \<Rightarrow> 'v list \<Rightarrow> 'v sl" where
  "swmr_lock n R v0 = (sl_new n v0)\<lparr>readers := (\<lambda>i. if i < R then Some (reader_new view0) else None)\<rparr>"

definition swmr_new :: "nat \<Rightarrow> nat \<Rightarrow> 'v list \<Rightarrow> 'v list list \<Rightarrow> 'v swmr" where
  "swmr_new n R v0 vals =
     \<lparr>lock = swmr_lock n R v0, to_write = vals, wait_next = True, w_arrived = 0, w_passed = 0,
      collected = (\<lambda>_. []), r_arrived = (\<lambda>_. 0), r_passed = (\<lambda>_. 0)\<rparr>"

inductive swmr_reach :: "nat \<Rightarrow> nat \<Rightarrow> 'v list \<Rightarrow> 'v list list \<Rightarrow> 'v swmr \<Rightarrow> bool" for n R v0 vals where
  swmr_init: "swmr_reach n R v0 vals (swmr_new n R v0 vals)"
| swmr_next: "swmr_reach n R v0 vals s \<Longrightarrow> swmr_step n R (Suc (length vals)) s e = Some s' \<Longrightarrow>
    swmr_reach n R v0 vals s'"

fun swmr_run :: "nat \<Rightarrow> nat \<Rightarrow> nat \<Rightarrow> 'v swmr \<Rightarrow> swmr_event list \<Rightarrow> 'v swmr option" where
  "swmr_run n R full s [] = Some s"
| "swmr_run n R full s (e # es) =
     (case swmr_step n R full s e of None \<Rightarrow> None | Some s' \<Rightarrow> swmr_run n R full s' es)"

lemma swmr_reach_run:
  "swmr_reach n R v0 vals s \<Longrightarrow> swmr_run n R (Suc (length vals)) s es = Some s' \<Longrightarrow> swmr_reach n R v0 vals s'"
  by (induction es arbitrary: s) (auto split: option.splits intro: swmr_next)

lemma swmr_lock_reach:
  fixes v0 :: "'v list"
  assumes "length v0 = n" "0 < R"
  shows "sl_reach n v0 (swmr_lock n R v0)"
  using assms(2)
proof (induction R rule: nat_induct_non_zero)
  case 1
  have "swmr_lock n 1 v0 = sl_new n v0" by (auto simp: swmr_lock_def sl_new_def)
  then show ?case using sl_init [OF assms(1)] by simp
next
  case (Suc R)
  have "readers (swmr_lock n R v0) 0 = Some (reader_new view0)" "readers (swmr_lock n R v0) R = None"
    using Suc.hyps by (simp_all add: swmr_lock_def)
  moreover have "(swmr_lock n R v0)\<lparr>readers := (readers (swmr_lock n R v0))(R \<mapsto> reader_new view0)\<rparr> = swmr_lock n (Suc R) v0"
  proof -
    have "(\<lambda>i. if i < R then Some (reader_new view0 :: 'v reader) else None)(R \<mapsto> reader_new view0) =
      (\<lambda>i. if i < Suc R then Some (reader_new view0) else None)" by (rule ext) auto
    then show ?thesis by (simp add: swmr_lock_def)
  qed
  ultimately have "sl_step n (swmr_lock n R v0) (CloneReader 0 R) = Some (swmr_lock n (Suc R) v0)"
    by (simp add: reader_new_def)
  with sl_next [OF Suc.IH] show ?case .
qed

section \<open>The readers collect every value\<close>

definition swmr_writer :: "'v list \<Rightarrow> 'v list list \<Rightarrow> 'v swmr \<Rightarrow> nat \<Rightarrow> bool" where
  "swmr_writer v0 vals s k \<longleftrightarrow>
     k \<le> length vals \<and> written (lock s) = take (Suc k) (v0 # vals) \<and> to_write s = drop k vals \<and>
     (if wait_next s then w_arrived s = k \<and> w_passed s = k
      else w_arrived s = Suc k \<and> (w_passed s = k \<or> w_passed s = Suc k))"

text \<open>A reader's last read value is the last one it has collected.\<close>

definition up_to_date :: "'v list list \<Rightarrow> 'v reader option \<Rightarrow> bool" where
  "up_to_date col ro \<longleftrightarrow>
     (case ro of
        None \<Rightarrow> False
      | Some r \<Rightarrow> if r_got r = [] then col = [] else col \<noteq> [] \<and> last (r_got r) = last col)"

definition swmr_reader :: "'v list \<Rightarrow> 'v list list \<Rightarrow> 'v swmr \<Rightarrow> nat \<Rightarrow> bool" where
  "swmr_reader v0 vals s i \<longleftrightarrow>
     w_passed s \<le> r_arrived s i \<and> r_arrived s i = length (collected s i) \<and>
     prefix (collected s i) (v0 # vals) \<and> up_to_date (collected s i) (readers (lock s) i)"

definition swmr_inv :: "nat \<Rightarrow> nat \<Rightarrow> 'v list \<Rightarrow> 'v list list \<Rightarrow> 'v swmr \<Rightarrow> bool" where
  "swmr_inv n R v0 vals s \<longleftrightarrow>
     sl_reach n v0 (lock s) \<and> (\<exists>k. swmr_writer v0 vals s k) \<and> (\<forall>i<R. swmr_reader v0 vals s i)"

lemma swmr_inv_new:
  assumes "length v0 = n" "0 < R"
  shows "swmr_inv n R v0 vals (swmr_new n R v0 vals)"
proof -
  have "swmr_writer v0 vals (swmr_new n R v0 vals) 0"
    by (simp add: swmr_writer_def swmr_new_def swmr_lock_def sl_new_def)
  moreover have "swmr_reader v0 vals (swmr_new n R v0 vals) i" if "i < R" for i
    using that by (simp add: swmr_reader_def up_to_date_def swmr_new_def swmr_lock_def reader_new_def)
  moreover have "sl_reach n v0 (lock (swmr_new n R v0 vals))"
    using swmr_lock_reach [OF assms] by (simp add: swmr_new_def)
  ultimately show ?thesis by (auto simp: swmr_inv_def)
qed

text \<open>What the end of a call of \<open>read\<close> adds to a reader's collection.\<close>

lemma collect_next:
  assumes W: "distinct (v0 # vals)" "length vals < 2 ^ 63"
    and inv: "swmr_writer v0 vals s k" "swmr_reader v0 vals s i"
    and r: "readers (lock s) i = Some r" "r_got r' = r_got r @ [b]"
    and c: "sl_reach n v0 c" "written c = written (lock s)" "readers c i = Some r'"
  shows "(collected s i \<noteq> [] \<and> b = last (collected s i)) \<or>
    (b = (v0 # vals) ! length (collected s i) \<and> b \<notin> set (collected s i) \<and>
     length (collected s i) = k)"
proof -
  let ?m = "length (collected s i)" and ?W = "v0 # vals"
  have k: "k < length ?W" "written c = take (Suc k) ?W" "k \<le> ?m"
    using inv c(2) by (auto simp: swmr_writer_def swmr_reader_def split: if_splits)
  have len: "length (written c) \<le> 2 ^ 63" using k W(2) by simp
  obtain ks where ks: "sorted ks" "r_got r @ [b] = map ((!) (take (Suc k) ?W)) ks" "\<forall>j\<in>set ks. j < Suc k"
    using sl_reader_reads [OF c(1) len c(3)] k r(2) by auto
  have col: "collected s i = take ?m ?W" "?m \<le> length ?W"
    using inv(2) by (auto simp: swmr_reader_def prefix_def dest: arg_cong [where f = length])
  have lastc: "last (collected s i) = ?W ! (?m - 1)" if "0 < ?m"
    using that inv(2) by (auto simp: swmr_reader_def prefix_def last_conv_nth nth_append)
  have "if r_got r = [] then ?m = 0 else 0 < ?m \<and> ?m \<le> length ?W \<and> last (r_got r) = ?W ! (?m - 1)"
    using inv(2) r(1) lastc col(2) by (auto simp: swmr_reader_def up_to_date_def split: if_splits)
  from next_read [OF ks k(1,3) W(1) this] show ?thesis
  proof
    assume "0 < ?m \<and> b = ?W ! (?m - 1)"
    with lastc show ?thesis by auto
  next
    assume b: "?m = k \<and> b = ?W ! ?m"
    have "b \<notin> set (collected s i)"
    proof
      assume "b \<in> set (collected s i)"
      then obtain j where "j < ?m" "?W ! j = ?W ! ?m"
        using col(1) b by (metis in_set_conv_nth nth_take)
      with W(1) k(1) b show False by (metis less_trans nat_neq_iff nth_eq_iff_index_eq)
    qed
    with b show ?thesis by simp
  qed
qed

lemma sl_step_keeps:
  assumes "sl_step n c (ReadCall i) = Some c' \<or> sl_step n c (ReadStep i ts) = Some c'"
  shows "written c' = written c" "j \<noteq> i \<Longrightarrow> readers c' j = readers c j"
  using assms by (auto split: option.splits if_splits)

lemma sl_read_call_got:
  assumes "sl_step n c (ReadCall i) = Some c'"
  obtains r r' where "readers c i = Some r" "readers c' i = Some r'" "r_got r' = r_got r"
  using assms by (auto split: option.splits if_splits)

lemma sl_read_step_result:
  assumes "sl_step n c (ReadStep i ts) = Some c'"
  obtains r r' where "readers c i = Some r" "readers c' i = Some r'" "r_pc r' = RIdle"
      "r_got r' = r_got r @ [last (r_got r')]"
    | r r' where "readers c i = Some r" "readers c' i = Some r'" "r_pc r' \<noteq> RIdle" "r_got r' = r_got r"
proof -
  from assms obtain r r' where r: "readers c i = Some r" "readers c' i = Some r'" "sl_read_step n ts c r = Some r'"
    by (auto split: option.splits if_splits)
  from sl_read_step_got [OF r(3)] r(1,2) that show thesis by fastforce
qed

text \<open>Steps that leave the lock, the writer's program or a reader's collection alone.\<close>

lemma swmr_writer_cong:
  assumes "swmr_writer v0 vals s k" "written (lock s') = written (lock s)" "to_write s' = to_write s"
    "wait_next s' = wait_next s" "w_arrived s' = w_arrived s" "w_passed s' = w_passed s"
  shows "swmr_writer v0 vals s' k"
  using assms by (simp add: swmr_writer_def)

lemma swmr_reader_cong:
  assumes "swmr_reader v0 vals s i" "w_passed s' \<le> r_arrived s' i" "r_arrived s' i = r_arrived s i"
    "collected s' i = collected s i" "map_option r_got (readers (lock s') i) = map_option r_got (readers (lock s) i)"
  shows "swmr_reader v0 vals s' i"
proof -
  have "up_to_date (collected s' i) (readers (lock s') i) \<longleftrightarrow> up_to_date (collected s i) (readers (lock s) i)"
    using assms(4,5) by (auto simp: up_to_date_def split: option.splits)
  with assms show ?thesis by (simp add: swmr_reader_def)
qed

lemma swmr_readers_cong:
  assumes "\<forall>i<R. swmr_reader v0 vals s i" "\<forall>i<R. w_passed s' \<le> r_arrived s i"
    "r_arrived s' = r_arrived s" "collected s' = collected s" "readers (lock s') = readers (lock s)"
  shows "\<forall>i<R. swmr_reader v0 vals s' i"
  using assms by (auto intro: swmr_reader_cong [of v0 vals s])

lemma swmr_reader_passed: "\<forall>i<R. swmr_reader v0 vals s i \<Longrightarrow> \<forall>i<R. w_passed s \<le> r_arrived s i"
  by (auto simp: swmr_reader_def)

lemma arrivals_reader: "arrivals R s g \<Longrightarrow> i < R \<Longrightarrow> g \<le> r_arrived s i"
  by (simp add: arrivals_def list_all_iff)

lemma swmr_read_step_inv:
  assumes W: "distinct (v0 # vals)" "length vals < 2 ^ 63"
    and reach: "sl_reach n v0 (lock s)" and w: "swmr_writer v0 vals s k"
    and readers: "\<forall>j<R. swmr_reader v0 vals s j" and i: "i < R"
    and c: "sl_step n (lock s) (ReadStep i ts) = Some c" "readers c i = Some r'"
    and s': "s' = (if r_pc r' = RIdle then collect_item i (last (r_got r')) (s\<lparr>lock := c\<rparr>) else s\<lparr>lock := c\<rparr>)"
  shows "swmr_inv n R v0 vals s'"
proof -
  note keeps = sl_step_keeps [OF disjI2 [OF c(1)]]
  have reach': "sl_reach n v0 c" by (rule sl_next [OF reach c(1)])
  have si: "swmr_reader v0 vals s i" using readers i by simp
  let ?s = "s\<lparr>lock := c\<rparr>" and ?m = "length (collected s i)"
  have other: "swmr_reader v0 vals s' j" if "j < R" "j \<noteq> i" for j
  proof (rule swmr_reader_cong)
    show sj: "swmr_reader v0 vals s j" using readers that(1) by blast
    then show "w_passed s' \<le> r_arrived s' j" using that(2) by (simp add: s' collect_item_def swmr_reader_def)
    show "map_option r_got (readers (lock s') j) = map_option r_got (readers (lock s) j)"
      using that(2) keeps(2) by (simp add: s' collect_item_def)
  qed (use that(2) in \<open>simp_all add: s' collect_item_def\<close>)
  have writer: "swmr_writer v0 vals s' k"
    by (rule swmr_writer_cong [OF w]) (simp_all add: s' collect_item_def keeps(1))
  have lock: "lock s' = c" by (simp add: s' collect_item_def)
  from c(1) have "swmr_reader v0 vals s' i"
  proof (cases rule: sl_read_step_result)
    case (1 r r'')
    then have r: "readers (lock s) i = Some r" "r_pc r' = RIdle" "r_got r' = r_got r @ [last (r_got r')]"
      using c(2) by simp_all
    from collect_next [OF W w si r(1,3) reach' keeps(1) c(2)] show ?thesis
    proof
      assume same: "collected s i \<noteq> [] \<and> last (r_got r') = last (collected s i)"
      then have "s' = ?s" using r(2) by (simp add: s' collect_item_def)
      moreover have "r_got r' \<noteq> []" using r(3) by (metis append_is_Nil_conv not_Cons_self2)
      ultimately show ?thesis using si c(2) same by (simp add: swmr_reader_def up_to_date_def)
    next
      assume new: "last (r_got r') = (v0 # vals) ! ?m \<and> last (r_got r') \<notin> set (collected s i) \<and> ?m = k"
      then have other_item: "\<not> (collected s i \<noteq> [] \<and> last (collected s i) = last (r_got r'))"
        using last_in_set by metis
      have s'': "s' = ?s\<lparr>collected := (collected s)(i := collected s i @ [last (r_got r')]),
          r_arrived := (r_arrived s)(i := r_arrived s i + 1)\<rparr>"
        using r(2) other_item by (auto simp: s' collect_item_def)
      have "?m < length (v0 # vals)" using w new by (simp add: swmr_writer_def)
      then have "prefix (collected s i @ [(v0 # vals) ! ?m]) (v0 # vals)"
        using append_one_prefix [of "collected s i" "v0 # vals"] si unfolding swmr_reader_def by blast
      moreover have "r_got r' \<noteq> []" using r(3) by (metis append_is_Nil_conv not_Cons_self2)
      ultimately show ?thesis using si c(2) new by (simp add: swmr_reader_def up_to_date_def s'')
    qed
  next
    case (2 r r'')
    then have "s' = ?s" "map_option r_got (readers c i) = map_option r_got (readers (lock s) i)"
      using c(2) by (simp_all add: s')
    then show ?thesis by (intro swmr_reader_cong [OF si]) (use si in \<open>simp_all add: swmr_reader_def\<close>)
  qed
  with other have "\<forall>j<R. swmr_reader v0 vals s' j" by blast
  with writer reach' lock show ?thesis by (auto simp: swmr_inv_def)
qed

lemma swmr_step_inv:
  assumes W: "distinct (v0 # vals)" "length vals < 2 ^ 63"
    and inv: "swmr_inv n R v0 vals s" and step: "swmr_step n R full s e = Some s'"
  shows "swmr_inv n R v0 vals s'"
proof -
  from inv obtain k where reach: "sl_reach n v0 (lock s)" and w: "swmr_writer v0 vals s k"
    and rs: "\<forall>i<R. swmr_reader v0 vals s i" by (auto simp: swmr_inv_def)
  show ?thesis
  proof (cases e)
    case WriterWait
    with step have s': "s' = s\<lparr>w_arrived := w_arrived s + 1, wait_next := False\<rparr>" "wait_next s"
      by (simp_all split: if_splits)
    with w have "swmr_writer v0 vals s' k" by (simp add: swmr_writer_def)
    moreover have "\<forall>i<R. swmr_reader v0 vals s' i"
      using swmr_readers_cong [OF rs, of s'] swmr_reader_passed [OF rs] s' by simp
    ultimately show ?thesis using reach s' by (auto simp: swmr_inv_def)
  next
    case WriterPass
    with step have s': "s' = s\<lparr>w_passed := w_passed s + 1\<rparr>" "w_arrived s = w_passed s + 1"
      "arrivals R s (w_passed s + 1)" by (simp_all split: if_splits)
    with w have "swmr_writer v0 vals s' k" by (auto simp: swmr_writer_def split: if_splits)
    moreover have "\<forall>i<R. swmr_reader v0 vals s' i"
      using swmr_readers_cong [OF rs, of s'] arrivals_reader [OF s'(3)] s'(1) by simp
    ultimately show ?thesis using reach s' by (auto simp: swmr_inv_def)
  next
    case WriterCall
    with step obtain v vs c where "to_write s = v # vs" and c: "sl_step n (lock s) (WriteCall v) = Some c"
      and s': "s' = s\<lparr>lock := c, to_write := vs, wait_next := True\<rparr>" "\<not> wait_next s" "w_arrived s = w_passed s"
      by (auto split: if_splits list.splits option.splits)
    then have v: "drop k vals = v # vs" using w by (simp add: swmr_writer_def)
    then have "k < length vals" "vals ! k = v" "drop (Suc k) vals = vs"
      by (metis drop_eq_Nil list.distinct(1) not_le, metis nth_via_drop, metis drop_Suc list.sel(3) tl_drop)
    with take_Suc_conv_app_nth [of "Suc k" "v0 # vals"]
    have vals: "Suc k \<le> length vals" "take (Suc (Suc k)) (v0 # vals) = take (Suc k) (v0 # vals) @ [v]"
      "drop (Suc k) vals = vs" by simp_all
    from c have c': "written c = written (lock s) @ [v]" "readers c = readers (lock s)" by (auto split: if_splits)
    have "swmr_writer v0 vals s' (Suc k)"
      using w s'(2,3) c'(1) vals unfolding s'(1) swmr_writer_def by (simp del: take_Suc_Cons)
    moreover have "\<forall>i<R. swmr_reader v0 vals s' i"
      by (rule swmr_readers_cong [OF rs]) (use swmr_reader_passed [OF rs] c'(2) in \<open>simp_all add: s'(1)\<close>)
    ultimately have "swmr_writer v0 vals s' (Suc k) \<and> (\<forall>i<R. swmr_reader v0 vals s' i)" by blast
    then show ?thesis using sl_next [OF reach c] s'(1) by (auto simp: swmr_inv_def)
  next
    case (WriterStep ts)
    with step obtain c where c: "sl_step n (lock s) (WriteStep ts) = Some c" "s' = s\<lparr>lock := c\<rparr>" by auto
    then have "written c = written (lock s)" "readers c = readers (lock s)" by (auto dest: sl_write_step_keeps)
    then have "swmr_writer v0 vals s' k" "\<forall>i<R. swmr_reader v0 vals s' i"
      using w c(2) swmr_readers_cong [OF rs, of s'] swmr_reader_passed [OF rs] by (simp_all add: swmr_writer_def)
    then show ?thesis using sl_next [OF reach c(1)] c(2) by (auto simp: swmr_inv_def)
  next
    case (ReaderCall i)
    with step obtain c where c: "sl_step n (lock s) (ReadCall i) = Some c" "s' = s\<lparr>lock := c\<rparr>"
      by (auto split: if_splits)
    note keeps = sl_step_keeps [OF disjI1 [OF c(1)]]
    obtain r r' where "readers (lock s) i = Some r" "readers c i = Some r'" "r_got r' = r_got r"
      using sl_read_call_got [OF c(1)] by blast
    then have same: "map_option r_got (readers c j) = map_option r_got (readers (lock s) j)" for j
      by (cases "j = i") (simp_all add: keeps(2))
    have "swmr_reader v0 vals s' j" if "j < R" for j
    proof (rule swmr_reader_cong)
      show "swmr_reader v0 vals s j" using rs that by blast
      then show "w_passed s' \<le> r_arrived s' j" by (simp add: c(2) swmr_reader_def)
    qed (simp_all add: c(2) same)
    moreover have "swmr_writer v0 vals s' k"
      by (rule swmr_writer_cong [OF w]) (simp_all add: c(2) keeps(1))
    ultimately show ?thesis using sl_next [OF reach c(1)] by (auto simp: c(2) swmr_inv_def)
  next
    case (ReaderStep i ts)
    with step obtain c r' where "i < R" "sl_step n (lock s) (ReadStep i ts) = Some c" "readers c i = Some r'"
      "s' = (if r_pc r' = RIdle then collect_item i (last (r_got r')) (s\<lparr>lock := c\<rparr>) else s\<lparr>lock := c\<rparr>)"
      by (simp add: Let_def split: if_splits option.splits)
    with swmr_read_step_inv [OF W reach w rs] show ?thesis by blast
  next
    case (ReaderPass i)
    with step have s': "s' = s\<lparr>r_passed := (r_passed s)(i := r_passed s i + 1)\<rparr>" by (simp split: if_splits)
    have "swmr_writer v0 vals s' k" "\<forall>i<R. swmr_reader v0 vals s' i"
      using w s' swmr_readers_cong [OF rs, of s'] swmr_reader_passed [OF rs] by (simp_all add: swmr_writer_def)
    then show ?thesis using reach s' by (auto simp: swmr_inv_def)
  qed
qed

lemma swmr_reach_inv:
  assumes "swmr_reach n R v0 vals s" "distinct (v0 # vals)" "length vals < 2 ^ 63" "length v0 = n" "0 < R"
  shows "swmr_inv n R v0 vals s"
  using assms(1)
proof (induction rule: swmr_reach.induct)
  case swmr_init
  show ?case by (rule swmr_inv_new [OF assms(4,5)])
next
  case (swmr_next s e s')
  from swmr_step_inv [OF assms(2,3) swmr_next.IH swmr_next.hyps(2)] show ?case .
qed

text \<open>The sizes of the test: readers, the initial value and the values written.\<close>

definition single_writer_multi_reader :: "nat \<times> nat list \<times> nat list list" where
  "single_writer_multi_reader = (3, [0], [[1], [4], [7], [9]])"

text \<open>
  A schedule of the test: in round \<open>k\<close> every reader reads value \<open>k\<close> and goes to the barrier, and then
  the writer writes the next one.
\<close>

definition swmr_round :: "nat \<Rightarrow> nat \<Rightarrow> swmr_event list" where
  "swmr_round R k =
     WriterWait #
     concat (map (\<lambda>i. [ReaderCall i, ReaderStep i (2 * k), ReaderStep i k, ReaderStep i 0, ReaderStep i (2 * k)]) [0..<R]) @
     WriterPass # map ReaderPass [0..<R] @
     [WriterCall, WriterStep (2 * k), WriterStep 0, WriterStep 0, WriterStep 0, WriterStep 0]"

section \<open>The handoff benchmark\<close>

text \<open>
  The writer writes the clock \<open>N\<close> times and spins \<open>BUSY_CYCLES_GIVE_READER_TIME\<close> after each write; the
  reader notes a stamp when it differs from the last one, with the clock after the call, and stops when
  it sees \<open>done\<close>. A load of \<open>done\<close> may be late: it may return \<open>false\<close> at any time. \<open>noted\<close> is a ghost.
\<close>

definition BUSY_CYCLES_GIVE_READER_TIME :: u64 where
  "BUSY_CYCLES_GIVE_READER_TIME = 5000"

record sl_bench_cfg =
  sb_n :: nat
  sb_warmup :: nat

definition sl_bench_default :: sl_bench_cfg where
  "sl_bench_default = \<lparr>sb_n = 2000000, sb_warmup = 100000\<rparr>"

record sl_bench_reader =
  last_ts :: u64
  sb_seen :: nat
  sb_hist :: "u64 list"
  sb_stopped :: bool
  noted :: "(u64 \<times> u64) list"

record sl_bench =
  sb_lock :: "u64 sl"
  sb_left :: nat
  sb_spin :: "u64 option"
  sb_done :: bool
  sb_reader :: sl_bench_reader

datatype sl_bench_event =
    StampWrite u64
  | BenchWriterStep nat
  | Spin u64
  | StoreDone
  | BenchReadCall
  | BenchReadStep nat u64 bool

text \<open>The reader's loop body after \<open>read\<close> has returned \<open>ts\<close>.\<close>

definition note_stamp :: "(u64 \<Rightarrow> bool) \<Rightarrow> nat \<Rightarrow> u64 \<Rightarrow> u64 \<Rightarrow> bool \<Rightarrow> sl_bench_reader \<Rightarrow> sl_bench_reader" where
  "note_stamp accepts warmup ts now is_done b =
     (if is_done then b\<lparr>sb_stopped := True\<rparr>
      else if ts = last_ts b then b
      else let b = b\<lparr>last_ts := ts\<rparr>;
               b = (if warmup \<le> sb_seen b then b\<lparr>sb_hist := recorded accepts (now - ts) (sb_hist b)\<rparr> else b)
        in b\<lparr>sb_seen := sb_seen b + 1, noted := noted b @ [(ts, now)]\<rparr>)"

fun sl_bench_step :: "(u64 \<Rightarrow> bool) \<Rightarrow> nat \<Rightarrow> sl_bench \<Rightarrow> sl_bench_event \<Rightarrow> sl_bench option" where
  "sl_bench_step accepts warmup s (StampWrite ts) =
     (if sb_left s = 0 \<or> sb_spin s \<noteq> None then None
      else map_option (\<lambda>c. s\<lparr>sb_lock := c, sb_left := sb_left s - 1, sb_spin := Some ts\<rparr>)
        (sl_step 1 (sb_lock s) (WriteCall [ts])))"
| "sl_bench_step accepts warmup s (BenchWriterStep t) =
     map_option (\<lambda>c. s\<lparr>sb_lock := c\<rparr>) (sl_step 1 (sb_lock s) (WriteStep t))"
| "sl_bench_step accepts warmup s (Spin now) =
     (case sb_spin s of
        None \<Rightarrow> None
      | Some ts \<Rightarrow>
          if w_pc (sb_lock s) \<noteq> WIdle then None
          else Some (if now < ts + BUSY_CYCLES_GIVE_READER_TIME then s else s\<lparr>sb_spin := None\<rparr>))"
| "sl_bench_step accepts warmup s StoreDone =
     (if sb_left s = 0 \<and> sb_spin s = None then Some (s\<lparr>sb_done := True\<rparr>) else None)"
| "sl_bench_step accepts warmup s BenchReadCall =
     (if sb_stopped (sb_reader s) then None
      else map_option (\<lambda>c. s\<lparr>sb_lock := c\<rparr>) (sl_step 1 (sb_lock s) (ReadCall 0)))"
| "sl_bench_step accepts warmup s (BenchReadStep t now is_done) =
     (if is_done \<and> \<not> sb_done s then None
      else case sl_step 1 (sb_lock s) (ReadStep 0 t) of
        None \<Rightarrow> None
      | Some c \<Rightarrow>
          (case readers c 0 of
             None \<Rightarrow> None
           | Some r \<Rightarrow>
               Some (if r_pc r = RIdle
                     then s\<lparr>sb_lock := c, sb_reader := note_stamp accepts warmup (hd (last (r_got r))) now is_done (sb_reader s)\<rparr>
                     else s\<lparr>sb_lock := c\<rparr>)))"

definition sl_bench_new :: "nat \<Rightarrow> sl_bench" where
  "sl_bench_new n =
     \<lparr>sb_lock = sl_new 1 [0], sb_left = n, sb_spin = None, sb_done = False,
      sb_reader = \<lparr>last_ts = 0, sb_seen = 0, sb_hist = [], sb_stopped = False, noted = []\<rparr>\<rparr>"

inductive sl_bench_reach :: "(u64 \<Rightarrow> bool) \<Rightarrow> sl_bench_cfg \<Rightarrow> sl_bench \<Rightarrow> bool" for accepts cfg where
  sl_bench_init: "sl_bench_reach accepts cfg (sl_bench_new (sb_n cfg))"
| sl_bench_next: "sl_bench_reach accepts cfg s \<Longrightarrow> sl_bench_step accepts (sb_warmup cfg) s e = Some s' \<Longrightarrow> sl_bench_reach accepts cfg s'"

fun sl_bench_run :: "(u64 \<Rightarrow> bool) \<Rightarrow> nat \<Rightarrow> sl_bench \<Rightarrow> sl_bench_event list \<Rightarrow> sl_bench option" where
  "sl_bench_run accepts warmup s [] = Some s"
| "sl_bench_run accepts warmup s (e # es) =
     (case sl_bench_step accepts warmup s e of None \<Rightarrow> None | Some s' \<Rightarrow> sl_bench_run accepts warmup s' es)"

lemma sl_bench_reach_run:
  "sl_bench_reach accepts cfg s \<Longrightarrow> sl_bench_run accepts (sb_warmup cfg) s es = Some s' \<Longrightarrow> sl_bench_reach accepts cfg s'"
  by (induction es arbitrary: s) (auto split: option.splits intro: sl_bench_next)

text \<open>What the reader has noted are the values read, without repetitions and without the initial one.\<close>

definition noted_inv :: "(u64 \<Rightarrow> bool) \<Rightarrow> nat \<Rightarrow> u64 list \<Rightarrow> sl_bench_reader \<Rightarrow> bool" where
  "noted_inv accepts warmup got b \<longleftrightarrow>
     0 # map fst (noted b) = remdups_adj (0 # got) \<and> last_ts b = last (0 # got) \<and>
     sb_seen b = length (noted b) \<and> sb_hist b = filter accepts (map (\<lambda>(ts, now). now - ts) (drop warmup (noted b)))"

definition bench_reads :: "(u64 \<Rightarrow> bool) \<Rightarrow> nat \<Rightarrow> u64 reader \<Rightarrow> sl_bench_reader \<Rightarrow> bool" where
  "bench_reads accepts warmup r b \<longleftrightarrow>
     (\<exists>got rest. map hd (r_got r) = got @ rest \<and> noted_inv accepts warmup got b \<and>
       (if sb_stopped b then r_pc r = RIdle else rest = []))"

definition sl_bench_inv :: "(u64 \<Rightarrow> bool) \<Rightarrow> sl_bench_cfg \<Rightarrow> sl_bench \<Rightarrow> bool" where
  "sl_bench_inv accepts cfg s \<longleftrightarrow>
     sl_reach 1 [0] (sb_lock s) \<and> length (written (sb_lock s)) + sb_left s = Suc (sb_n cfg) \<and>
     (\<exists>r. readers (sb_lock s) 0 = Some r \<and> bench_reads accepts (sb_warmup cfg) r (sb_reader s))"

lemma remdups_adj_snoc:
  "remdups_adj (x # xs @ [y]) =
     (if last (x # xs) = y then remdups_adj (x # xs) else remdups_adj (x # xs) @ [y])"
  by (induction xs arbitrary: x) simp_all

lemma note_stamp_inv:
  assumes "noted_inv accepts warmup got b" "\<not> is_done"
  shows "noted_inv accepts warmup (got @ [ts]) (note_stamp accepts warmup ts now is_done b)"
proof (cases "ts = last_ts b")
  case True
  with assms show ?thesis by (auto simp: noted_inv_def note_stamp_def remdups_adj_snoc)
next
  case False
  then have "last (0 # got) \<noteq> ts" using assms(1) by (simp add: noted_inv_def)
  moreover have "last (0 # got @ [ts]) = ts" by simp
  ultimately show ?thesis using False assms
    by (auto simp: noted_inv_def note_stamp_def remdups_adj_snoc Let_def simp del: last.simps)
qed

lemma sorted_remdups_strict: "sorted xs \<Longrightarrow> sorted_wrt (<) (remdups_adj (xs :: 'a :: linorder list))"
  by (induction xs rule: remdups_adj.induct) (auto simp: order_less_le)

lemma sl_read_step_busy: "sl_step n c (ReadStep i ts) = Some c' \<Longrightarrow> readers c i = Some r \<Longrightarrow> r_pc r \<noteq> RIdle"
  by (auto simp: sl_read_step_def split: option.splits)

lemma note_stamp_stopped [simp]: "sb_stopped (note_stamp accepts warmup ts now is_done b) \<longleftrightarrow> is_done \<or> sb_stopped b"
  by (simp add: note_stamp_def Let_def)

lemma sl_bench_step_inv:
  assumes inv: "sl_bench_inv accepts cfg s" and step: "sl_bench_step accepts (sb_warmup cfg) s e = Some s'"
  shows "sl_bench_inv accepts cfg s'"
proof -
  from inv obtain r where reach: "sl_reach 1 [0] (sb_lock s)"
    and len: "length (written (sb_lock s)) + sb_left s = Suc (sb_n cfg)"
    and r: "readers (sb_lock s) 0 = Some r" "bench_reads accepts (sb_warmup cfg) r (sb_reader s)"
    by (auto simp: sl_bench_inv_def)
  have lock_step: "sl_bench_inv accepts cfg s'" if "sl_step 1 (sb_lock s) e' = Some (sb_lock s')"
    "length (written (sb_lock s')) + sb_left s' = Suc (sb_n cfg)" "sb_reader s' = sb_reader s"
    "readers (sb_lock s') 0 = Some r'" "r_got r' = r_got r" "sb_stopped (sb_reader s) \<Longrightarrow> r' = r" for e' r'
  proof -
    have "bench_reads accepts (sb_warmup cfg) r' (sb_reader s)"
      using r(2) that(5,6) by (cases "sb_stopped (sb_reader s)") (simp_all add: bench_reads_def)
    with that(1-4) sl_next [OF reach that(1)] show ?thesis by (simp add: sl_bench_inv_def)
  qed
  have same_lock: "sl_bench_inv accepts cfg s'" if "sb_lock s' = sb_lock s" "sb_left s' = sb_left s" "sb_reader s' = sb_reader s"
    using inv that by (simp add: sl_bench_inv_def)
  show ?thesis
  proof (cases e)
    case (StampWrite ts)
    with step obtain c where c: "sl_step 1 (sb_lock s) (WriteCall [ts]) = Some c" "0 < sb_left s"
      "s' = s\<lparr>sb_lock := c, sb_left := sb_left s - 1, sb_spin := Some ts\<rparr>" by (auto split: if_splits)
    then have "written c = written (sb_lock s) @ [[ts]]" "readers c = readers (sb_lock s)" by (auto split: if_splits)
    then show ?thesis using c len r(1) by (intro lock_step [of "WriteCall [ts]" r]) simp_all
  next
    case (BenchWriterStep t)
    with step obtain c where c: "sl_step 1 (sb_lock s) (WriteStep t) = Some c" "s' = s\<lparr>sb_lock := c\<rparr>" by auto
    then have "written c = written (sb_lock s)" "readers c = readers (sb_lock s)"
      using sl_write_step_keeps by auto
    then show ?thesis using c len r(1) by (intro lock_step [of "WriteStep t" r]) simp_all
  next
    case (Spin now)
    with step show ?thesis by (intro same_lock) (auto split: option.splits if_splits)
  next
    case StoreDone
    with step show ?thesis by (intro same_lock) (auto split: if_splits)
  next
    case BenchReadCall
    with step obtain c where c: "sl_step 1 (sb_lock s) (ReadCall 0) = Some c" "s' = s\<lparr>sb_lock := c\<rparr>"
      "\<not> sb_stopped (sb_reader s)" by (auto split: if_splits)
    obtain r1 r2 where "readers (sb_lock s) 0 = Some r1" "readers c 0 = Some r2" "r_got r2 = r_got r1"
      using sl_read_call_got [OF c(1)] by blast
    then show ?thesis
      using c len r(1) sl_step_keeps(1) [OF disjI1 [OF c(1)]] by (intro lock_step [of "ReadCall 0" r2]) simp_all
  next
    case (BenchReadStep t now is_done)
    with step obtain c where c: "sl_step 1 (sb_lock s) (ReadStep 0 t) = Some c"
      by (auto split: if_splits option.splits)
    note w = sl_step_keeps(1) [OF disjI2 [OF c]]
    obtain got where running: "\<not> sb_stopped (sb_reader s)"
      and r_got: "map hd (r_got r) = got" "noted_inv accepts (sb_warmup cfg) got (sb_reader s)"
      using sl_read_step_busy [OF c r(1)] r(2) by (auto simp: bench_reads_def split: if_splits)
    from c show ?thesis
    proof (cases rule: sl_read_step_result)
      case (1 r1 r2)
      let ?ts = "hd (last (r_got r2))"
      let ?b = "note_stamp accepts (sb_warmup cfg) ?ts now is_done (sb_reader s)"
      have s': "s' = s\<lparr>sb_lock := c, sb_reader := ?b\<rparr>"
        using step BenchReadStep c 1(2,3) by (simp split: if_splits)
      have "r1 = r" using 1(1) r(1) by simp
      then have got: "map hd (r_got r2) = got @ [?ts]"
        using arg_cong [OF 1(4), of "map hd"] r_got(1) by simp
      have "bench_reads accepts (sb_warmup cfg) r2 ?b"
      proof (cases is_done)
        case True
        then have "noted_inv accepts (sb_warmup cfg) got ?b" using r_got(2) by (simp add: note_stamp_def noted_inv_def)
        with True 1(3) got show ?thesis unfolding bench_reads_def by auto
      next
        case False
        with running got note_stamp_inv [OF r_got(2), of is_done ?ts now] show ?thesis
          unfolding bench_reads_def by auto
      qed
      with 1(2) sl_next [OF reach c] len w show ?thesis by (simp add: sl_bench_inv_def s')
    next
      case (2 r1 r2)
      then have "s' = s\<lparr>sb_lock := c\<rparr>" using step BenchReadStep c by (simp split: if_splits)
      with 2 r(1) c len w running(1) show ?thesis by (intro lock_step [of "ReadStep 0 t" r2]) simp_all
    qed
  qed
qed

lemma sl_bench_reach_inv: "sl_bench_reach accepts cfg s \<Longrightarrow> sl_bench_inv accepts cfg s"
proof (induction rule: sl_bench_reach.induct)
  case sl_bench_init
  have "sl_reach 1 [0] (sl_new 1 [0 :: u64])" by (rule sl_init) simp
  moreover have "readers (sl_new 1 [0 :: u64]) 0 = Some (reader_new view0)" "length (written (sl_new 1 [0 :: u64])) = 1"
    by (simp_all add: sl_new_def)
  moreover have "bench_reads accepts (sb_warmup cfg) (reader_new view0) (sb_reader (sl_bench_new (sb_n cfg)))"
    by (simp add: bench_reads_def noted_inv_def reader_new_def sl_bench_new_def)
  ultimately show ?case by (simp add: sl_bench_inv_def) (simp add: sl_bench_new_def)
next
  case (sl_bench_next s e s')
  from sl_bench_step_inv [OF sl_bench_next.IH sl_bench_next.hyps(2)] show ?case .
qed

lemma sl_reach_written: "sl_reach n v0 c \<Longrightarrow> \<exists>ws. written c = v0 # ws"
proof (induction rule: sl_reach.induct)
  case sl_init
  then show ?case by (simp add: sl_new_def)
next
  case (sl_next c e c')
  have "prefix (written c) (written c')"
  proof (cases e)
    case (WriteStep ts)
    with sl_next.hyps(2) show ?thesis by (simp add: sl_write_step_keeps)
  qed (use sl_next.hyps(2) in \<open>auto split: if_splits option.splits\<close>)
  with sl_next.IH show ?case by (auto simp: prefix_def)
qed

lemma sorted_reads:
  fixes W :: "'a :: linorder list"
  assumes "sorted W" "sorted ks" "\<forall>k\<in>set ks. k < length W"
  shows "sorted (map ((!) W) ks)"
  using assms by (auto simp: sorted_map intro: sorted_wrt_mono_rel sorted_nth_mono)

lemma swmr_collected:
  assumes "swmr_reach n R v0 vals s" "distinct (v0 # vals)" "length vals < 2 ^ 63" "length v0 = n" "i < R"
  shows "prefix (collected s i) (v0 # vals) \<and>
    (length (collected s i) = length vals + 1 \<longrightarrow> collected s i = v0 # vals)"
proof -
  have "swmr_reader v0 vals s i"
    using swmr_reach_inv [OF assms(1-4)] assms(5) by (auto simp: swmr_inv_def)
  then have p: "prefix (collected s i) (v0 # vals)" by (simp add: swmr_reader_def)
  then obtain zs where zs: "v0 # vals = collected s i @ zs" by (auto simp: prefix_def)
  have "length (v0 # vals) = length (collected s i) + length zs" by (simp only: zs length_append)
  then have "length (collected s i) = length vals + 1 \<Longrightarrow> zs = []" by simp
  with p zs show ?thesis by auto
qed

text \<open>The test itself: three readers and four values.\<close>

lemma single_writer_multi_reader_passes:
  assumes "single_writer_multi_reader = (R, v0, vals)" "swmr_reach 1 R v0 vals s"
    "i < R" "length (collected s i) = length vals + 1"
  shows "tl (collected s i) = vals"
proof -
  have "R = 3" "v0 = [0]" "vals = [[1], [4], [7], [9]]" using assms(1) by (simp_all add: single_writer_multi_reader_def)
  with swmr_collected [OF assms(2) _ _ _ assms(3)] assms(4) show ?thesis by auto
qed

section \<open>Properties\<close>

text \<open>In \<open>single_writer_multi_reader\<close>, with any number of readers and any list of different values, in any
  interleaving and with any stale values the memory allows: what a reader has collected is a prefix of
  the initial value followed by the values written, no value missed and none torn, and when its loop has
  ended it is all of them, which is what the test asserts.
\<close>

theorem swmr_collects_all:
  assumes "swmr_reach n R v0 vals s" "distinct (v0 # vals)" "length vals < 2 ^ 63" "length v0 = n" "i < R"
  shows "prefix (collected s i) (v0 # vals) \<and>
    (length (collected s i) = length vals + 1 \<longrightarrow> collected s i = v0 # vals)"
  by (rule swmr_collected [OF assms])

lemma swmr_small_run:
  "map_option (\<lambda>s. map (collected s) [0, 1])
     (swmr_run 1 2 3 (swmr_new 1 2 [0 :: nat] [[1], [4]])
       (swmr_round 2 0 @ swmr_round 2 1 @ take 11 (swmr_round 2 2))) =
   Some [[[0], [1], [4]], [[0], [1], [4]]]"
  by code_simp

theorem swmr_collects_all_witness:
  "\<exists>s. swmr_reach 1 2 [0 :: nat] [[1], [4]] s \<and> length (collected s 1) = 3 \<and> collected s 1 = [[0], [1], [4]]"
proof -
  have three: "Suc (length [[1 :: nat], [4]]) = 3" by simp
  obtain s where run: "swmr_run 1 2 3 (swmr_new 1 2 [0 :: nat] [[1], [4]])
      (swmr_round 2 0 @ swmr_round 2 1 @ take 11 (swmr_round 2 2)) = Some s"
    and m: "map (collected s) [0, 1] = [[[0], [1], [4]], [[0], [1], [4]]]"
    using swmr_small_run by (elim map_option_eq_Some [THEN iffD1, THEN exE] conjE)
  from swmr_reach_run [OF swmr_init run [folded three]] have reach: "swmr_reach 1 2 [0] [[1], [4]] s" .
  have len: "length (collected s 1) = length [[1 :: nat], [4]] + 1" using m by simp
  have "distinct [[0 :: nat], [1], [4]]" "length [[1 :: nat], [4]] < 2 ^ 63" "length [0 :: nat] = 1" "(1 :: nat) < 2"
    by simp_all
  from swmr_collects_all [OF reach this] have "collected s 1 = [[0], [1], [4]]" using len by blast
  with reach show ?thesis by auto
qed

text \<open>C28: In the seqlock handoff benchmark, when the stamps handed to \<open>write\<close> increase: the stamps the reader
  notes increase strictly (none twice, none going back, never the initial value), all of them were written,
  there are at most \<open>N\<close>, and the histogram holds, of the ages of all but the first \<open>WARMUP\<close>, those that
  \<open>record\<close> takes, in order, in any interleaving and with any stale values.
\<close>

theorem sl_bench_exact:
  assumes "sl_bench_reach accepts cfg s" "sb_n cfg < 2 ^ 63" "sorted_wrt (<) (map hd (written (sb_lock s)))"
  shows "sorted_wrt (<) (map fst (noted (sb_reader s))) \<and>
    set (map fst (noted (sb_reader s))) \<subseteq> set (map hd (tl (written (sb_lock s)))) \<and>
    length (noted (sb_reader s)) \<le> sb_n cfg \<and>
    sb_hist (sb_reader s) = filter accepts (map (\<lambda>(ts, now). now - ts) (drop (sb_warmup cfg) (noted (sb_reader s))))"
proof -
  let ?W = "map hd (written (sb_lock s))" and ?N = "map fst (noted (sb_reader s))"
  obtain r got rest where reach: "sl_reach 1 [0] (sb_lock s)" "length (written (sb_lock s)) \<le> Suc (sb_n cfg)"
    and r: "readers (sb_lock s) 0 = Some r" "map hd (r_got r) = got @ rest" "noted_inv accepts (sb_warmup cfg) got (sb_reader s)"
    using sl_bench_reach_inv [OF assms(1)] by (auto simp: sl_bench_inv_def bench_reads_def)
  obtain ws where ws: "written (sb_lock s) = [0] # ws" using sl_reach_written [OF reach(1)] by blast
  have "length (written (sb_lock s)) \<le> 2 ^ 63" using reach(2) assms(2) by simp
  from sl_reader_reads [OF reach(1) this r(1)] obtain ks where
    ks: "sorted ks" "r_got r = map ((!) (written (sb_lock s))) ks" "\<forall>k\<in>set ks. k < length (written (sb_lock s))"
    by blast
  have "map hd (r_got r) = map ((!) ?W) ks" using ks(2,3) by (auto intro: map_cong)
  moreover have "sorted (map ((!) ?W) ks)"
    by (rule sorted_reads) (use assms(3) ks in \<open>simp_all add: strict_sorted_imp_sorted\<close>)
  moreover have "set (map ((!) ?W) ks) \<subseteq> set ?W" using ks(3) nth_mem [of _ ?W] by auto
  ultimately have "sorted (got @ rest)" "set (got @ rest) \<subseteq> set ?W" using r(2) by simp_all
  then have got: "sorted (0 # got)" "set got \<subseteq> set ?W" by (auto simp: sorted_append)
  from r(3) have N: "0 # ?N = remdups_adj (0 # got)" by (simp add: noted_inv_def)
  from sorted_remdups_strict [OF got(1)] have strict: "sorted_wrt (<) (0 # ?N)" by (simp only: N)
  have "set (0 # ?N) = set (0 # got)" by (simp only: N remdups_adj_set)
  then have "set ?N \<subseteq> insert 0 (set got)" by auto
  also have "\<dots> \<subseteq> insert 0 (set (map hd ws))" using got(2) ws by auto
  finally have "set ?N \<subseteq> insert 0 (set (map hd ws))" .
  moreover have "0 \<notin> set ?N" using strict by auto
  ultimately have sub: "set ?N \<subseteq> set (map hd ws)" by blast
  have "distinct ?N" using strict by (simp add: strict_sorted_iff)
  then have "length ?N = card (set ?N)" by (rule distinct_card [symmetric])
  also have "\<dots> \<le> length ws" using sub card_mono [OF _ sub] card_length [of "map hd ws"] by simp
  finally have "length (noted (sb_reader s)) \<le> sb_n cfg" using reach(2) ws by simp
  with strict sub r(3) ws show ?thesis by (simp add: noted_inv_def)
qed

text \<open>
  The first read starts before the write of the stamp and is tried again; the second finds the same stamp;
  at the third \<open>done\<close> is seen.
\<close>

definition sl_bench_events :: "sl_bench_event list" where
  "sl_bench_events =
     [StampWrite 10, BenchWriterStep 0, BenchReadCall, BenchReadStep 0 0 False, BenchWriterStep 0, BenchWriterStep 0,
      BenchWriterStep 0, BenchReadStep 1 0 False, BenchReadStep 0 0 False, BenchReadStep 1 0 False,
      BenchWriterStep 0, BenchReadStep 2 0 False, BenchReadStep 1 0 False, BenchReadStep 0 0 False,
      BenchReadStep 2 25 False, Spin 30, Spin 5010, StoreDone,
      BenchReadCall, BenchReadStep 2 0 False, BenchReadStep 1 0 False, BenchReadStep 0 0 False, BenchReadStep 2 5050 True]"

lemma sl_bench_events_run:
  "map_option (\<lambda>s. (written (sb_lock s), sb_reader s)) (sl_bench_run (\<lambda>_. True) 0 (sl_bench_new 1) sl_bench_events) =
   Some ([[0], [10]], \<lparr>last_ts = 10, sb_seen = 1, sb_hist = [15], sb_stopped = True, noted = [(10, 25)]\<rparr>)"
  by code_simp

theorem sl_bench_exact_witness:
  "\<exists>s. sl_bench_reach (\<lambda>_. True) \<lparr>sb_n = 1, sb_warmup = 0\<rparr> s \<and> sb_stopped (sb_reader s) \<and>
     map fst (noted (sb_reader s)) = [10] \<and> sb_hist (sb_reader s) = [25 - 10] \<and>
     set (map fst (noted (sb_reader s))) \<subseteq> set (map hd (tl (written (sb_lock s))))"
proof -
  let ?cfg = "\<lparr>sb_n = 1, sb_warmup = 0\<rparr>"
  obtain s where run: "sl_bench_run (\<lambda>_. True) 0 (sl_bench_new 1) sl_bench_events = Some s"
    and m: "(written (sb_lock s), sb_reader s) = ([[0], [10]], \<lparr>last_ts = 10, sb_seen = 1, sb_hist = [15],
      sb_stopped = True, noted = [(10, 25)]\<rparr>)"
    using sl_bench_events_run by (elim map_option_eq_Some [THEN iffD1, THEN exE] conjE)
  have "sl_bench_reach (\<lambda>_. True) ?cfg (sl_bench_new 1)" using sl_bench_init [of "\<lambda>_. True" ?cfg] by simp
  from sl_bench_reach_run [OF this, of sl_bench_events s] run have reach: "sl_bench_reach (\<lambda>_. True) ?cfg s" by simp
  have "sb_n ?cfg < 2 ^ 63" "sorted_wrt (<) (map hd (written (sb_lock s)))" using m by simp_all
  from sl_bench_exact [OF reach this] reach m show ?thesis by (intro exI [of _ s]) simp
qed

section \<open>The hello example\<close>

text \<open>\<open>examples/seqlock/hello.rs\<close>: the writer writes 1 to 1000, the reader samples five times.\<close>

definition hello_values :: "nat list list" where
  "hello_values = map (\<lambda>i. [i]) [1..<1001]"

definition hello_samples :: "nat reader \<Rightarrow> nat list" where
  "hello_samples r = map hd (take 5 (r_got r))"

lemma hello_seqlock:
  assumes "sl_reach 1 [0] c" "prefix (written c) ([0] # hello_values)" "readers c i = Some r"
  shows "sorted (hello_samples r) \<and> (\<forall>x\<in>set (hello_samples r). x \<le> 1000)"
proof -
  obtain zs where zs: "[0] # hello_values = written c @ zs" using assms(2) by (auto simp: prefix_def)
  have "length ([0] # hello_values) = 1001" by (simp add: hello_values_def)
  then have len: "length (written c) \<le> 1001" by (simp add: zs)
  have W: "map hd (written c) = [0..<length (written c)]"
  proof (rule nth_equalityI)
    fix k assume k: "k < length (map hd (written c))"
    then have "written c ! k = ([0] # hello_values) ! k" by (simp add: zs nth_append)
    also have "hd \<dots> = k" using k len by (cases k) (simp_all add: hello_values_def)
    finally show "map hd (written c) ! k = [0..<length (written c)] ! k" using k by simp
  qed simp
  have "length (written c) \<le> 2 ^ 63" using len by simp
  from sl_reader_reads [OF assms(1) this assms(3)] obtain ks where
    ks: "sorted ks" "r_got r = map ((!) (written c)) ks" "\<forall>k\<in>set ks. k < length (written c)" by blast
  have "map hd (r_got r) = map ((!) (map hd (written c))) ks" using ks(2,3) by auto
  also have "\<dots> = ks" unfolding W by (rule map_idI) (use ks(3) in simp)
  finally have "hello_samples r = take 5 ks" by (simp add: hello_samples_def take_map [symmetric])
  moreover have "\<forall>k\<in>set ks. k \<le> 1000" using ks(3) len by fastforce
  ultimately show ?thesis using ks(1) by (auto simp: sorted_wrt_take dest: in_set_takeD)
qed

end
