(* ===== verification/Bench_Runs.thy ===== *)
theory Bench_Runs
  imports Bench_Threads Spsc_Shutdown Spmc_Shutdown Seqlock_Clients
begin

text \<open>
  The bodies of the handoff benchmarks, on the weak-memory machines, put between the start and the end
  of \<open>Bench_Threads\<close>: the whole of \<open>run_spsc_handoff\<close>, \<open>run_spmc_handoff\<close> and the \<open>main\<close> of
  \<open>examples/seqlock/bench_handoff.rs\<close> from the spawning of the threads to the joins.
\<close>

section \<open>The SPSC handoff benchmark\<close>

definition hand_body :: "usize \<Rightarrow> (u64 \<Rightarrow> bool) \<Rightarrow> nat \<Rightarrow> (hand, hand_event) bench_body" where
  "hand_body cap accepts warmup =
     \<lparr>bb_step = hand_step cap accepts warmup, bb_mine = consumer_event, bb_p_end = (\<lambda>s. hd_done s \<noteq> None),
      bb_c_end = (\<lambda>s. hd_phase s = HandEnd)\<rparr>"

definition hand_final :: "nat \<Rightarrow> (u64 \<Rightarrow> bool) \<Rightarrow> nat \<Rightarrow> hand \<Rightarrow> bool" where
  "hand_final n accepts warmup s \<longleftrightarrow>
     length (sent (hd_queue s)) = n \<and> got (hd_queue s) = sent (hd_queue s) \<and> length (hd_times s) = n \<and>
     hd_hist s = filter accepts (map (\<lambda>(ts, now). now - ts) (drop warmup (zip (sent (hd_queue s)) (hd_times s))))"

lemma hand_inv_final:
  assumes "hand_inv cap n accepts warmup s" "hd_phase s = HandEnd"
  shows "hand_final n accepts warmup s"
proof -
  from assms(1) have "sp_inv cap (hd_queue s)" by (simp add: hand_inv_def hand_queue_ok_def)
  then have "prefix (got (hd_queue s)) (sent (hd_queue s))" by (rule sp_inv_prefix)
  moreover from assms have "length (got (hd_queue s)) = length (sent (hd_queue s))"
    by (simp add: hand_inv_def hand_flag_ok_def)
  ultimately have "got (hd_queue s) = sent (hd_queue s)" by (auto simp: prefix_def)
  with assms show ?thesis by (auto simp: hand_final_def hand_inv_def hand_flag_ok_def hand_count_ok_def)
qed

lemma hand_load_newest:
  assumes "hand_inv cap n accepts warmup s"
  shows "\<exists>v V. load_acquire Head (head_h (hd_queue s)) (sp_newest (hd_queue s) Head) (p_view (hd_queue s)) = Some (v, V)"
    "\<exists>v V. load_acquire Tail (tail_h (hd_queue s)) (sp_newest (hd_queue s) Tail) (c_view (hd_queue s)) = Some (v, V)"
proof -
  from assms have w: "sp_within (hd_queue s)" by (simp add: hand_inv_def hand_queue_ok_def)
  then have "length (head_h (hd_queue s)) = Suc (sp_newest (hd_queue s) Head)" "tview_within (sp_newest (hd_queue s)) (p_view (hd_queue s))"
    "length (tail_h (hd_queue s)) = Suc (sp_newest (hd_queue s) Tail)" "tview_within (sp_newest (hd_queue s)) (c_view (hd_queue s))"
    by (simp_all add: sp_within_def)
  note w = this
  from load_newest(1) [OF w(2,1)] load_newest(1) [OF w(4,3)] show
    "\<exists>v V. load_acquire Head (head_h (hd_queue s)) (sp_newest (hd_queue s) Head) (p_view (hd_queue s)) = Some (v, V)"
    "\<exists>v V. load_acquire Tail (tail_h (hd_queue s)) (sp_newest (hd_queue s) Tail) (c_view (hd_queue s)) = Some (v, V)"
    by blast+
qed

lemma hand_producer_live:
  assumes inv: "hand_inv cap n accepts warmup s" and "hd_done s = None"
  shows "\<exists>e r. \<not> consumer_event e \<and> hand_step cap accepts warmup s e = Some r"
proof (cases "p_pc (hd_queue s) = PIdle")
  case False
  from hand_load_newest(1) [OF inv] False have
    "\<exists>r. push_step cap (sp_newest (hd_queue s) Head) (hd_queue s) = Some r"
    by (cases "p_pc (hd_queue s)") (auto simp: push_step_def Let_def store_release_def simp del: sp_newest_simps split: sum.split)
  then obtain r where "push_step cap (sp_newest (hd_queue s) Head) (hd_queue s) = Some r" ..
  then show ?thesis
    by (intro exI [of _ "HandPushStep (sp_newest (hd_queue s) Head)"]) (cases r; simp del: sp_newest_simps)
next
  case True
  show ?thesis
  proof (cases "hd_left s = 0")
    case True
    with assms(2) show ?thesis by (intro exI [of _ HandStoreDone]) simp
  next
    case False
    with True show ?thesis by (intro exI [of _ "HandPush 0"]) simp
  qed
qed

lemma hand_consumer_live:
  assumes inv: "hand_inv cap n accepts warmup s" and "hd_phase s \<noteq> HandEnd"
  shows "\<exists>e r. consumer_event e \<and> hand_step cap accepts warmup s e = Some r"
proof (cases "c_pc (hd_queue s) = CIdle")
  case False
  from hand_load_newest(2) [OF inv] False have
    "\<exists>r. pop_step cap (sp_newest (hd_queue s) Tail) (hd_queue s) = Some r"
    by (cases "c_pc (hd_queue s)") (auto simp: pop_step_def Let_def store_release_def simp del: sp_newest_simps split: sum.split)
  then obtain r where "pop_step cap (sp_newest (hd_queue s) Tail) (hd_queue s) = Some r" ..
  then show ?thesis
    by (intro exI [of _ "HandPopStep (sp_newest (hd_queue s) Tail) 0"]) (cases r; simp del: sp_newest_simps)
next
  case True
  show ?thesis
  proof (cases "hd_phase s = HandCheck")
    case True
    then show ?thesis by (intro exI [of _ "HandLoadDone False"]) simp
  next
    case False
    with True assms(2) show ?thesis by (intro exI [of _ HandPop]) (cases "hd_phase s"; simp)
  qed
qed

lemma hand_ends_stay:
  assumes "hand_inv cap n accepts warmup s" "hand_step cap accepts warmup s e = Some (Inr s')"
  shows "(hd_done s \<noteq> None \<longrightarrow> hd_done s' \<noteq> None) \<and> (hd_phase s = HandEnd \<longrightarrow> hd_phase s' = HandEnd)"
proof (cases e)
  case (HandPopStep t now)
  with assms(2) have "c_pc (hd_queue s) \<noteq> CIdle" by (auto simp: pop_step_def)
  with assms(1) have "hd_phase s \<noteq> HandEnd" by (auto simp: hand_inv_def hand_flag_ok_def)
  moreover from HandPopStep assms(2) have "hd_done s' = hd_done s"
    by (auto simp: hand_popped_def Let_def split: option.splits sum.splits if_splits)
  ultimately show ?thesis by simp
qed (use assms(2) in \<open>auto split: if_splits option.splits sum.splits\<close>)

interpretation spsc_run: correct_body "hand_body cap accepts warmup" "hand_inv cap n accepts warmup" "hand_final n accepts warmup"
  for cap n accepts warmup
proof unfold_locales
  fix x e r
  assume inv: "hand_inv cap n accepts warmup x"
  { assume "bb_step (hand_body cap accepts warmup) x e = Some r"
    then show "\<exists>x'. r = Inr x' \<and> hand_inv cap n accepts warmup x'"
      using hand_step_inv [OF inv] by (simp add: hand_body_def) }
  { assume "\<not> bb_p_end (hand_body cap accepts warmup) x"
    then show "\<exists>e r. \<not> bb_mine (hand_body cap accepts warmup) e \<and> bb_step (hand_body cap accepts warmup) x e = Some r"
      using hand_producer_live [OF inv] by (simp add: hand_body_def) }
  { assume "\<not> bb_c_end (hand_body cap accepts warmup) x"
    then show "\<exists>e r. bb_mine (hand_body cap accepts warmup) e \<and> bb_step (hand_body cap accepts warmup) x e = Some r"
      using hand_consumer_live [OF inv] by (simp add: hand_body_def) }
  { assume "bb_p_end (hand_body cap accepts warmup) x" "bb_c_end (hand_body cap accepts warmup) x"
    then show "hand_final n accepts warmup x" using hand_inv_final [OF inv] by (simp add: hand_body_def) }
  fix x'
  assume "bb_step (hand_body cap accepts warmup) x e = Some (Inr x')"
  then show "(bb_p_end (hand_body cap accepts warmup) x \<longrightarrow> bb_p_end (hand_body cap accepts warmup) x') \<and>
      (bb_c_end (hand_body cap accepts warmup) x \<longrightarrow> bb_c_end (hand_body cap accepts warmup) x')"
    using hand_ends_stay [OF inv] by (simp add: hand_body_def)
qed

section \<open>The SPMC handoff benchmark\<close>

definition cast_body :: "usize \<Rightarrow> (u64 \<Rightarrow> bool) \<Rightarrow> nat \<Rightarrow> (cast, cast_event) bench_body" where
  "cast_body cap accepts warmup =
     \<lparr>bb_step = (\<lambda>s e. map_option Inr (cast_step cap accepts warmup s e)), bb_mine = cast_consumer_event,
      bb_p_end = (\<lambda>s. ca_done s \<noteq> None), bb_c_end = (\<lambda>s. h_phase (ca_cons s) = Returned)\<rparr>"

definition cast_final :: "nat \<Rightarrow> (u64 \<Rightarrow> bool) \<Rightarrow> nat \<Rightarrow> cast \<Rightarrow> bool" where
  "cast_final n accepts warmup s \<longleftrightarrow>
     length (published (ca_queue s)) = n \<and>
     subseq (s_received (map fst (ca_log s))) (map hd (published (ca_queue s))) \<and>
     length (s_received (map fst (ca_log s))) + s_skipped (map fst (ca_log s)) = n \<and>
     h_hist (ca_cons s) = filter accepts (stamp_ages (drop warmup (seen_results (ca_log s))))"

lemma cast_inv_final:
  assumes "cast_inv cap n accepts warmup s" "n \<le> 2 ^ 63" "h_phase (ca_cons s) = Returned"
  shows "cast_final n accepts warmup s"
  using assms(1)
proof (rule cast_invE)
  fix r assume r: "subs (ca_queue s) 0 = Some r" "cast_flag_ok cap s r" "cast_count_ok n accepts warmup s r"
  with cast_inv_account [OF assms(1,2) r(1)] assms(3) show ?thesis
    by (auto simp: cast_final_def cast_flag_ok_def cast_count_ok_def)
qed

lemma cast_producer_live:
  assumes inv: "cast_inv cap n accepts warmup s" and none: "ca_done s = None"
  shows "\<exists>e s'. \<not> cast_consumer_event e \<and> cast_step cap accepts warmup s e = Some s'"
  using inv
proof (rule cast_invE)
  let ?q = "ca_queue s"
  assume w: "bc_within ?q"
  show ?thesis
  proof (cases "pub_state ?q = PubIdle")
    case False
    from pub_step_enabled [OF w False, of cap 1] obtain c where "pub_step cap 1 (bc_newest ?q WCur) ?q = Some c" by blast
    then show ?thesis by (intro exI [of _ "CastPubStep (bc_newest ?q WCur)"]) (simp del: bc_newest_simps)
  next
    case True
    show ?thesis
    proof (cases "ca_left s = 0")
      case True
      with none \<open>pub_state ?q = PubIdle\<close> show ?thesis by (intro exI [of _ CastStoreDone]) simp
    next
      case False
      with True show ?thesis by (intro exI [of _ "CastPublish 0"]) simp
    qed
  qed
qed

lemma cast_consumer_live:
  assumes inv: "cast_inv cap n accepts warmup s" and run: "h_phase (ca_cons s) \<noteq> Returned"
  shows "\<exists>e s'. cast_consumer_event e \<and> cast_step cap accepts warmup s e = Some s'"
  using inv
proof (rule cast_invE)
  let ?q = "ca_queue s"
  fix r assume r: "subs ?q 0 = Some r" and w: "bc_within ?q"
  show ?thesis
  proof (cases "h_phase (ca_cons s) = CheckDone")
    case True
    then show ?thesis by (intro exI [of _ "CastLoadDone False"]) simp
  next
    case False
    with run have phase: "h_phase (ca_cons s) \<in> {Reading, Draining}" by (cases "h_phase (ca_cons s)") simp_all
    show ?thesis
    proof (cases "b_pc r = SubIdle")
      case True
      with r phase show ?thesis by (intro exI [of _ CastRead]) auto
    next
      case False
      from sub_step_enabled [OF w r False, of cap 1] obtain r' where
        "sub_step cap 1 (bc_newest ?q (sub_next_loc cap r)) ?q r = Some r'" by blast
      with r show ?thesis by (intro exI [of _ "CastReadStep (bc_newest ?q (sub_next_loc cap r)) 0"]) simp
    qed
  qed
qed

lemma cast_ends_stay:
  assumes "cast_inv cap n accepts warmup s" "cast_step cap accepts warmup s e = Some s'"
  shows "(ca_done s \<noteq> None \<longrightarrow> ca_done s' \<noteq> None) \<and> (h_phase (ca_cons s) = Returned \<longrightarrow> h_phase (ca_cons s') = Returned)"
  using assms(1)
proof (rule cast_invE)
  fix r assume r: "subs (ca_queue s) 0 = Some r" and flag: "cast_flag_ok cap s r"
  show ?thesis
  proof (cases e)
    case (CastReadStep t now)
    with assms(2) r obtain r' c where st: "sub_step cap 1 t (ca_queue s) r = Some r'" and s': "s' = cast_read accepts warmup now s c r'"
      by (auto split: option.splits)
    from flag sub_step_busy [OF st] have "h_phase (ca_cons s) \<noteq> Returned" by (auto simp: cast_flag_ok_def)
    then show ?thesis by (simp add: s')
  qed (use assms(2) in \<open>auto split: if_splits option.splits\<close>)
qed

interpretation spmc_run: correct_body "cast_body cap accepts warmup" "\<lambda>s. cast_inv cap n accepts warmup s \<and> n \<le> 2 ^ 63" "cast_final n accepts warmup"
  for cap n accepts warmup
proof unfold_locales
  fix x e r
  assume "cast_inv cap n accepts warmup x \<and> n \<le> 2 ^ 63"
  then have inv: "cast_inv cap n accepts warmup x" and lim: "n \<le> 2 ^ 63" by simp_all
  { assume "bb_step (cast_body cap accepts warmup) x e = Some r"
    then show "\<exists>x'. r = Inr x' \<and> cast_inv cap n accepts warmup x' \<and> n \<le> 2 ^ 63"
      using cast_step_inv [OF inv lim] lim by (auto simp: cast_body_def) }
  { assume "\<not> bb_p_end (cast_body cap accepts warmup) x"
    then show "\<exists>e r. \<not> bb_mine (cast_body cap accepts warmup) e \<and> bb_step (cast_body cap accepts warmup) x e = Some r"
      using cast_producer_live [OF inv] by (fastforce simp: cast_body_def) }
  { assume "\<not> bb_c_end (cast_body cap accepts warmup) x"
    then show "\<exists>e r. bb_mine (cast_body cap accepts warmup) e \<and> bb_step (cast_body cap accepts warmup) x e = Some r"
      using cast_consumer_live [OF inv] by (fastforce simp: cast_body_def) }
  { assume "bb_p_end (cast_body cap accepts warmup) x" "bb_c_end (cast_body cap accepts warmup) x"
    then show "cast_final n accepts warmup x" using cast_inv_final [OF inv lim] by (simp add: cast_body_def) }
  fix x'
  assume "bb_step (cast_body cap accepts warmup) x e = Some (Inr x')"
  then have "cast_step cap accepts warmup x e = Some x'" by (auto simp: cast_body_def)
  from cast_ends_stay [OF inv this]
  show "(bb_p_end (cast_body cap accepts warmup) x \<longrightarrow> bb_p_end (cast_body cap accepts warmup) x') \<and>
      (bb_c_end (cast_body cap accepts warmup) x \<longrightarrow> bb_c_end (cast_body cap accepts warmup) x')"
    by (simp add: cast_body_def)
qed

section \<open>The seqlock benchmark\<close>

fun sl_reader_event :: "sl_bench_event \<Rightarrow> bool" where
  "sl_reader_event BenchReadCall = True"
| "sl_reader_event (BenchReadStep t now is_done) = True"
| "sl_reader_event _ = False"

definition sl_body :: "(u64 \<Rightarrow> bool) \<Rightarrow> nat \<Rightarrow> (sl_bench, sl_bench_event) bench_body" where
  "sl_body accepts warmup =
     \<lparr>bb_step = (\<lambda>s e. map_option Inr (sl_bench_step accepts warmup s e)), bb_mine = sl_reader_event,
      bb_p_end = sb_done, bb_c_end = (\<lambda>s. sb_stopped (sb_reader s))\<rparr>"

definition sl_final :: "(u64 \<Rightarrow> bool) \<Rightarrow> sl_bench_cfg \<Rightarrow> sl_bench \<Rightarrow> bool" where
  "sl_final accepts cfg s \<longleftrightarrow>
     sl_bench_reach accepts cfg s \<and> length (written (sb_lock s)) = Suc (sb_n cfg) \<and>
     sb_hist (sb_reader s) = filter accepts (map (\<lambda>(ts, now). now - ts) (drop (sb_warmup cfg) (noted (sb_reader s))))"

lemma sl_bench_flags: "sl_bench_reach accepts cfg s \<Longrightarrow> sb_done s \<longrightarrow> sb_left s = 0"
proof (induction rule: sl_bench_reach.induct)
  case sl_bench_init
  show ?case by (simp add: sl_bench_new_def)
next
  case (sl_bench_next s e s')
  then show ?case by (cases e) (auto split: if_splits option.splits)
qed

lemma sl_reach_final:
  assumes "sl_bench_reach accepts cfg s" "sb_done s"
  shows "sl_final accepts cfg s"
  using sl_bench_reach_inv [OF assms(1)] sl_bench_flags [OF assms(1)] assms
  by (auto simp: sl_final_def sl_bench_inv_def bench_reads_def noted_inv_def)

lemma sl_read_step_enabled:
  assumes w: "sl_within c" and r: "readers c i = Some r" "r_pc r \<noteq> RIdle"
  shows "\<exists>t r'. sl_read_step n t c r = Some r'"
proof -
  note V = sl_withinD(6) [OF w r(1)]
  note n1 = load_newest(1) [OF V sl_withinD(1) [OF w]] and n2 = load_newest(2) [OF V sl_withinD(1) [OF w]]
    and n3 = load_newest(2) [OF V sl_withinD(2) [OF w]]
  show ?thesis
  proof (cases "r_pc r")
    case RSeq1
    with n1 show ?thesis by (intro exI [of _ "sl_newest c Seq"]) (auto simp: sl_read_step_def simp del: sl_newest_simps)
  next
    case (RData s1 buf)
    with n3 [of "length buf"] show ?thesis
      by (intro exI [of _ "sl_newest c (Data (length buf))"]) (auto simp: sl_read_step_def simp del: sl_newest_simps)
  next
    case (RSeq2 s1 buf)
    with n2 show ?thesis by (intro exI [of _ "sl_newest c Seq"]) (auto simp: sl_read_step_def simp del: sl_newest_simps)
  qed (use r(2) in simp)
qed

lemma sl_writer_live:
  assumes reach: "sl_bench_reach accepts cfg s" and run: "\<not> sb_done s"
  shows "\<exists>e s'. \<not> sl_reader_event e \<and> sl_bench_step accepts w s e = Some s'"
proof (cases "w_pc (sb_lock s) = WIdle")
  case False
  from sl_bench_reach_inv [OF reach] have "sl_reach 1 [0] (sb_lock s)" by (auto simp: sl_bench_inv_def)
  from write_step_enabled [OF sl_reach_within [OF this] False, of 1] obtain c where
    "sl_write_step 1 (sl_newest (sb_lock s) Seq) (sb_lock s) = Some c" by blast
  then show ?thesis by (intro exI [of _ "BenchWriterStep (sl_newest (sb_lock s) Seq)"]) (simp del: sl_newest_simps)
next
  case True
  show ?thesis
  proof (cases "sb_spin s")
    case (Some ts)
    with True show ?thesis by (intro exI [of _ "Spin 0"]) simp
  next
    case None
    show ?thesis
    proof (cases "sb_left s = 0")
      case True
      with None show ?thesis by (intro exI [of _ StoreDone]) simp
    next
      case False
      with True None show ?thesis by (intro exI [of _ "StampWrite 0"]) simp
    qed
  qed
qed

lemma sl_reader_live:
  assumes reach: "sl_bench_reach accepts cfg s" and run: "\<not> sb_stopped (sb_reader s)"
  shows "\<exists>e s'. sl_reader_event e \<and> sl_bench_step accepts w s e = Some s'"
proof -
  from sl_bench_reach_inv [OF reach] obtain r where l: "sl_reach 1 [0] (sb_lock s)" "readers (sb_lock s) 0 = Some r"
    by (auto simp: sl_bench_inv_def)
  show ?thesis
  proof (cases "r_pc r = RIdle")
    case True
    with run l(2) show ?thesis by (intro exI [of _ BenchReadCall]) simp
  next
    case False
    from sl_read_step_enabled [OF sl_reach_within [OF l(1)] l(2) False] obtain t r' where
      "sl_read_step 1 t (sb_lock s) r = Some r'" by blast
    with l(2) show ?thesis by (intro exI [of _ "BenchReadStep t 0 False"]) simp
  qed
qed

lemma sl_ends_stay:
  assumes "sl_bench_reach accepts cfg s" "sl_bench_step accepts w s e = Some s'"
  shows "(sb_done s \<longrightarrow> sb_done s') \<and> (sb_stopped (sb_reader s) \<longrightarrow> sb_stopped (sb_reader s'))"
  using assms(2) by (cases e) (auto split: if_splits option.splits)

interpretation seqlock_run: correct_body "sl_body accepts (sb_warmup cfg)" "sl_bench_reach accepts cfg" "sl_final accepts cfg" for accepts cfg
proof unfold_locales
  fix x e r
  assume reach: "sl_bench_reach accepts cfg x"
  { assume "bb_step (sl_body accepts (sb_warmup cfg)) x e = Some r"
    then show "\<exists>x'. r = Inr x' \<and> sl_bench_reach accepts cfg x'"
      using sl_bench_next [OF reach] by (auto simp: sl_body_def) }
  { assume "\<not> bb_p_end (sl_body accepts (sb_warmup cfg)) x"
    then show "\<exists>e r. \<not> bb_mine (sl_body accepts (sb_warmup cfg)) e \<and> bb_step (sl_body accepts (sb_warmup cfg)) x e = Some r"
      using sl_writer_live [OF reach] by (fastforce simp: sl_body_def) }
  { assume "\<not> bb_c_end (sl_body accepts (sb_warmup cfg)) x"
    then show "\<exists>e r. bb_mine (sl_body accepts (sb_warmup cfg)) e \<and> bb_step (sl_body accepts (sb_warmup cfg)) x e = Some r"
      using sl_reader_live [OF reach] by (fastforce simp: sl_body_def) }
  { assume "bb_p_end (sl_body accepts (sb_warmup cfg)) x" "bb_c_end (sl_body accepts (sb_warmup cfg)) x"
    then show "sl_final accepts cfg x" using sl_reach_final [OF reach] by (simp add: sl_body_def) }
  fix x'
  assume "bb_step (sl_body accepts (sb_warmup cfg)) x e = Some (Inr x')"
  then have "sl_bench_step accepts (sb_warmup cfg) x e = Some x'" by (auto simp: sl_body_def)
  from sl_ends_stay [OF reach this]
  show "(bb_p_end (sl_body accepts (sb_warmup cfg)) x \<longrightarrow> bb_p_end (sl_body accepts (sb_warmup cfg)) x') \<and>
      (bb_c_end (sl_body accepts (sb_warmup cfg)) x \<longrightarrow> bb_c_end (sl_body accepts (sb_warmup cfg)) x')"
    by (simp add: sl_body_def)
qed

lemma pinned_no_panic:
  assumes "th_reach st body x s" "pinned (producer_pin st)"
  shows "th_main s \<noteq> MainPanic"
  using start_reach_inv [OF assms(1)] assms(2) by (auto simp: start_inv_def pins_ok_def)

end
