(* ===== verification/Bench_Spsc.thy ===== *)
theory Bench_Spsc
  imports Spsc_Queue Bench_Support
begin

text \<open>
  The SPSC benchmark harness, \<open>src/src/bench/harness/spsc\<close>, with its adapter for the crate's own
  queue, \<open>adapters/ours_spsc.rs\<close>: the trait contract, the producer and consumer threads of the
  handoff and of the throttled benchmark as step relations over calls (time stamps, the order of
  the steps and what the clock shows are inputs of a run), and the figures derived from a run.
  A histogram is the list of the samples recorded in it. \<open>Spsc_Progress\<close> shows that a call of the
  weak-memory machine acts as one step on the shared queue, which is the granularity used here.
\<close>

section \<open>The trait contract and the adapter\<close>

text \<open>
  \<open>SpscProd\<close> and \<open>SpscCons\<close>: \<open>try_push\<close> returns \<open>Ok(())\<close> or \<open>Err(v)\<close> (here \<open>Inr ()\<close> and \<open>Inl v\<close>),
  \<open>try_pop\<close> the next value or nothing.
\<close>

locale spsc_bench =
  fixes try_push :: "'s \<Rightarrow> 'a \<Rightarrow> 'f + (('a + unit) \<times> 's)"
    and try_pop :: "'s \<Rightarrow> 'f + ('a option \<times> 's)"
    and contents :: "'s \<Rightarrow> 'a list"
    and invar :: "'s \<Rightarrow> bool"
  assumes push_law: "invar s \<Longrightarrow>
      (\<exists>s'. try_push s x = Inr (Inr (), s') \<and> invar s' \<and> contents s' = contents s @ [x]) \<or>
      (\<exists>s'. try_push s x = Inr (Inl x, s') \<and> invar s' \<and> contents s' = contents s)"
    and push_first: "invar s \<Longrightarrow> contents s = [] \<Longrightarrow>
      \<exists>s'. try_push s x = Inr (Inr (), s') \<and> invar s' \<and> contents s' = [x]"
    and pop_law: "invar s \<Longrightarrow> contents s = x # xs \<Longrightarrow>
      \<exists>s'. try_pop s = Inr (Some x, s') \<and> invar s' \<and> contents s' = xs"
    and pop_none: "invar s \<Longrightarrow> contents s = [] \<Longrightarrow>
      \<exists>s'. try_pop s = Inr (None, s') \<and> invar s' \<and> contents s' = []"

text \<open>\<open>OursSpsc\<close>: \<open>push\<close> hands the item back when full.\<close>

definition ours_new ::
  "(usize \<Rightarrow> global_options \<Rightarrow> fault + ('a, 'z) region_scheme) \<Rightarrow> usize \<Rightarrow> fault + 'a spsc" where
  "ours_new allocate cap = spsc_new allocate cap \<lparr>g_mlock = True\<rparr>"

definition ours_try_push :: "usize \<Rightarrow> 'a spsc \<Rightarrow> 'a \<Rightarrow> fault + (('a + unit) \<times> 'a spsc)" where
  "ours_try_push cap s v =
     (case spsc_enq cap s v of
        Inl f \<Rightarrow> Inl f
      | Inr (None, s) \<Rightarrow> Inr (Inr (), s)
      | Inr (Some v, s) \<Rightarrow> Inr (Inl v, s))"

definition ours_try_pop :: "usize \<Rightarrow> 'a spsc \<Rightarrow> fault + ('a option \<times> 'a spsc)" where
  "ours_try_pop cap s = spsc_deq cap s"

interpretation ours: spsc_bench "ours_try_push cap" "ours_try_pop cap" "spsc_contents cap" "spsc_inv cap"
  for cap :: usize
proof unfold_locales
  fix s :: "'a spsc" and x
  assume inv: "spsc_inv cap s"
  then show "(\<exists>s'. ours_try_push cap s x = Inr (Inr (), s') \<and> spsc_inv cap s' \<and>
        spsc_contents cap s' = spsc_contents cap s @ [x]) \<or>
      (\<exists>s'. ours_try_push cap s x = Inr (Inl x, s') \<and> spsc_inv cap s' \<and>
        spsc_contents cap s' = spsc_contents cap s)"
    by (cases rule: spsc.enq_cases [where x = x]) (simp_all add: ours_try_push_def)
  assume "spsc_contents cap s = []"
  moreover from inv have "0 < unat cap" by (auto simp: spsc_inv_def spsc_rep_def power_of_two_pos)
  ultimately show "\<exists>s'. ours_try_push cap s x = Inr (Inr (), s') \<and> spsc_inv cap s' \<and> spsc_contents cap s' = [x]"
    using spsc.enq_space [OF inv, of x] by (auto simp: ours_try_push_def)
qed (unfold ours_try_pop_def, (rule spsc.deq_item spsc.deq_empty; assumption)+)

section \<open>The consumer thread\<close>

text \<open>
  The consumer threads of both benchmarks have one shape: poll until \<open>try_pop\<close> finds nothing,
  load \<open>done\<close>, poll again or drain what is left and stop. \<open>sample\<close> is what the thread does with an
  item and the clock after it when \<open>seen >= warmup\<close>. Two ghost fields keep what was pushed and
  what was popped.
\<close>

datatype phase = Polling | Checking | Draining | Finished

record ('s, 'a, 'h) bench =
  queue_of :: 's
  done_flag :: bool
  phase_of :: phase
  seen :: nat
  hist_of :: 'h
  sent :: "'a list"
  got :: "('a \<times> u64) list"

definition bench_new :: "'s \<Rightarrow> 'h \<Rightarrow> ('s, 'a, 'h) bench" where
  "bench_new s h =
     \<lparr>queue_of = s, done_flag = False, phase_of = Polling, seen = 0, hist_of = h, sent = [], got = []\<rparr>"

definition take_item ::
  "('a \<Rightarrow> u64 \<Rightarrow> 'h \<Rightarrow> 'h) \<Rightarrow> nat \<Rightarrow> 'a \<Rightarrow> u64 \<Rightarrow> ('s, 'a, 'h) bench \<Rightarrow> ('s, 'a, 'h) bench" where
  "take_item sample warmup x now b =
     (let b = (if warmup \<le> seen b then b\<lparr>hist_of := sample x now (hist_of b)\<rparr> else b)
      in b\<lparr>seen := seen b + 1, got := got b @ [(x, now)]\<rparr>)"

lemma take_item_simps [simp]:
  "queue_of (take_item sample warmup x now b) = queue_of b"
  "done_flag (take_item sample warmup x now b) = done_flag b"
  "phase_of (take_item sample warmup x now b) = phase_of b"
  "seen (take_item sample warmup x now b) = seen b + 1"
  "sent (take_item sample warmup x now b) = sent b"
  "got (take_item sample warmup x now b) = got b @ [(x, now)]"
  "hist_of (take_item sample warmup x now b) =
     (if warmup \<le> seen b then sample x now (hist_of b) else hist_of b)"
  by (simp_all add: take_item_def Let_def)

definition consumer_step ::
  "('s \<Rightarrow> 'f + ('a option \<times> 's)) \<Rightarrow> ('a \<Rightarrow> u64 \<Rightarrow> 'h \<Rightarrow> 'h) \<Rightarrow> nat \<Rightarrow> u64 \<Rightarrow>
     ('s, 'a, 'h) bench \<Rightarrow> 'f + ('s, 'a, 'h) bench" where
  "consumer_step try_pop sample warmup now b =
     (case phase_of b of
        Polling \<Rightarrow>
          (case try_pop (queue_of b) of
             Inl f \<Rightarrow> Inl f
           | Inr (Some x, s) \<Rightarrow> Inr (take_item sample warmup x now (b\<lparr>queue_of := s\<rparr>))
           | Inr (None, s) \<Rightarrow> Inr (b\<lparr>queue_of := s, phase_of := Checking\<rparr>))
      | Checking \<Rightarrow> Inr (b\<lparr>phase_of := (if done_flag b then Draining else Polling)\<rparr>)
      | Draining \<Rightarrow>
          (case try_pop (queue_of b) of
             Inl f \<Rightarrow> Inl f
           | Inr (Some x, s) \<Rightarrow> Inr (take_item sample warmup x now (b\<lparr>queue_of := s\<rparr>))
           | Inr (None, s) \<Rightarrow> Inr (b\<lparr>queue_of := s, phase_of := Finished\<rparr>))
      | Finished \<Rightarrow> Inr b)"

fun consumer_steps ::
  "('s \<Rightarrow> 'f + ('a option \<times> 's)) \<Rightarrow> ('a \<Rightarrow> u64 \<Rightarrow> 'h \<Rightarrow> 'h) \<Rightarrow> nat \<Rightarrow> u64 list \<Rightarrow>
     ('s, 'a, 'h) bench \<Rightarrow> 'f + ('s, 'a, 'h) bench" where
  "consumer_steps try_pop sample warmup [] b = Inr b"
| "consumer_steps try_pop sample warmup (now # nows) b =
     (case consumer_step try_pop sample warmup now b of
        Inl f \<Rightarrow> Inl f | Inr b' \<Rightarrow> consumer_steps try_pop sample warmup nows b')"

text \<open>The samples a list of popped items leads to.\<close>

definition samples :: "('a \<Rightarrow> u64 \<Rightarrow> 'h \<Rightarrow> 'h) \<Rightarrow> ('a \<times> u64) list \<Rightarrow> 'h \<Rightarrow> 'h" where
  "samples sample xs h = fold (\<lambda>(x, now). sample x now) xs h"

context spsc_bench
begin

definition bench_inv :: "('a \<Rightarrow> u64 \<Rightarrow> 'h \<Rightarrow> 'h) \<Rightarrow> nat \<Rightarrow> 'h \<Rightarrow> ('s, 'a, 'h) bench \<Rightarrow> bool" where
  "bench_inv sample warmup h0 b \<longleftrightarrow>
     invar (queue_of b) \<and> sent b = map fst (got b) @ contents (queue_of b) \<and> seen b = length (got b) \<and>
     hist_of b = samples sample (drop warmup (got b)) h0 \<and>
     (phase_of b = Draining \<longrightarrow> done_flag b) \<and> (phase_of b = Finished \<longrightarrow> done_flag b \<and> contents (queue_of b) = [])"

lemma bench_inv_new: "invar s \<Longrightarrow> contents s = [] \<Longrightarrow> bench_inv sample warmup h (bench_new s h)"
  by (simp add: bench_inv_def bench_new_def samples_def)

lemma take_item_inv:
  assumes "bench_inv sample warmup h0 b" "contents (queue_of b) = x # xs" "invar s" "contents s = xs"
    "phase_of b \<noteq> Finished"
  shows "bench_inv sample warmup h0 (take_item sample warmup x now (b\<lparr>queue_of := s\<rparr>))"
proof (cases "warmup \<le> length (got b)")
  case True
  then have "drop warmup (got b @ [(x, now)]) = drop warmup (got b) @ [(x, now)]" by simp
  with assms True show ?thesis by (auto simp: bench_inv_def samples_def)
next
  case False
  with assms show ?thesis by (auto simp: bench_inv_def samples_def)
qed

lemma consumer_step_inv:
  assumes "bench_inv sample warmup h0 b"
  shows "\<exists>b'. consumer_step try_pop sample warmup now b = Inr b' \<and> bench_inv sample warmup h0 b' \<and>
    sent b' = sent b \<and> done_flag b' = done_flag b"
proof -
  from assms have s: "invar (queue_of b)" by (simp add: bench_inv_def)
  show ?thesis
  proof (cases "contents (queue_of b)")
    case Nil
    from pop_none [OF s Nil] obtain s' where
      s': "try_pop (queue_of b) = Inr (None, s')" "invar s'" "contents s' = []" by blast
    with assms Nil show ?thesis
      by (cases "phase_of b") (auto simp: consumer_step_def bench_inv_def)
  next
    case (Cons x xs)
    from pop_law [OF s Cons] obtain s' where
      s': "try_pop (queue_of b) = Inr (Some x, s')" "invar s'" "contents s' = xs" by blast
    have nf: "phase_of b \<noteq> Finished" using assms Cons by (auto simp: bench_inv_def)
    show ?thesis
    proof (cases "phase_of b = Checking")
      case True
      with assms show ?thesis by (auto simp: consumer_step_def bench_inv_def)
    next
      case False
      with nf have "consumer_step try_pop sample warmup now b =
        Inr (take_item sample warmup x now (b\<lparr>queue_of := s'\<rparr>))"
        by (cases "phase_of b") (simp_all add: consumer_step_def s'(1))
      with take_item_inv [OF assms Cons s'(2,3) nf] show ?thesis by simp
    qed
  qed
qed

lemma bench_inv_push:
  "bench_inv sample warmup h0 b \<Longrightarrow> phase_of b \<noteq> Finished \<Longrightarrow> invar s \<Longrightarrow>
     contents s = contents (queue_of b) @ [x] \<Longrightarrow>
     bench_inv sample warmup h0 (b\<lparr>queue_of := s, sent := sent b @ [x]\<rparr>)"
  "bench_inv sample warmup h0 b \<Longrightarrow> phase_of b \<noteq> Finished \<Longrightarrow> invar s \<Longrightarrow>
     contents s = contents (queue_of b) \<Longrightarrow> bench_inv sample warmup h0 (b\<lparr>queue_of := s\<rparr>)"
  by (simp_all add: bench_inv_def)

lemma bench_inv_done: "bench_inv sample warmup h0 b \<Longrightarrow> bench_inv sample warmup h0 (b\<lparr>done_flag := True\<rparr>)"
  by (simp add: bench_inv_def)

lemma bench_invD:
  assumes "bench_inv sample warmup h0 b"
  shows "invar (queue_of b)" "\<not> done_flag b \<Longrightarrow> phase_of b \<noteq> Finished"
    "phase_of b = Finished \<Longrightarrow> map fst (got b) = sent b"
    "hist_of b = samples sample (drop warmup (got b)) h0"
  using assms by (auto simp: bench_inv_def)

text \<open>Once \<open>done\<close> is set, the consumer ends after at most three steps more than items are left.\<close>

definition rank :: "('s, 'a, 'h) bench \<Rightarrow> nat" where
  "rank b = length (contents (queue_of b)) +
     (case phase_of b of Polling \<Rightarrow> 3 | Checking \<Rightarrow> 2 | Draining \<Rightarrow> 1 | Finished \<Rightarrow> 0)"

lemma consumer_step_rank:
  assumes "bench_inv sample warmup h0 b" "done_flag b" "consumer_step try_pop sample warmup now b = Inr b'"
    "phase_of b \<noteq> Finished"
  shows "rank b' < rank b"
proof -
  from assms have s: "invar (queue_of b)" by (simp add: bench_inv_def)
  show ?thesis
  proof (cases "contents (queue_of b)")
    case Nil
    from pop_none [OF s Nil] assms Nil show ?thesis
      by (cases "phase_of b") (auto simp: consumer_step_def rank_def)
  next
    case (Cons x xs)
    from pop_law [OF s Cons] assms Cons show ?thesis
      by (cases "phase_of b") (auto simp: consumer_step_def rank_def)
  qed
qed

lemma consumer_steps_end:
  "bench_inv sample warmup h0 b \<Longrightarrow> done_flag b \<Longrightarrow> rank b \<le> length nows \<Longrightarrow>
     \<exists>b'. consumer_steps try_pop sample warmup nows b = Inr b' \<and> bench_inv sample warmup h0 b' \<and>
       phase_of b' = Finished \<and> sent b' = sent b"
proof (induction nows arbitrary: b)
  case Nil
  then show ?case by (auto simp: rank_def split: phase.splits)
next
  case (Cons now nows)
  from consumer_step_inv [OF Cons.prems(1)] obtain b' where
    b': "consumer_step try_pop sample warmup now b = Inr b'" "bench_inv sample warmup h0 b'"
      "sent b' = sent b" "done_flag b' = done_flag b" by blast
  have "rank b' \<le> length nows"
  proof (cases "phase_of b = Finished")
    case True
    with b'(1) have "b' = b" by (simp add: consumer_step_def)
    with True Cons.prems(1) show ?thesis by (simp add: rank_def bench_inv_def)
  next
    case False
    from consumer_step_rank [OF Cons.prems(1,2) b'(1) False] Cons.prems(3) show ?thesis by simp
  qed
  moreover have "done_flag b'" using b'(4) Cons.prems(2) by simp
  ultimately obtain b'' where "consumer_steps try_pop sample warmup nows b' = Inr b''"
    "bench_inv sample warmup h0 b''" "phase_of b'' = Finished" "sent b'' = sent b'"
    using Cons.IH [OF b'(2)] by blast
  with b'(1,3) show ?case by simp
qed

end

section \<open>The handoff benchmark\<close>

text \<open>
  \<open>run_spsc_handoff\<close>: the producer thread tries to push a fresh time stamp until it is accepted,
  \<open>n\<close> times, and then sets \<open>done\<close>; the consumer thread hands the age of each stamp to \<open>record\<close>. The state
  is the shared part with the consumer thread, and the items the producer still has to push.
\<close>

record handoff_cfg =
  cfg_n :: nat
  cfg_warmup :: nat

definition default_handoff_cfg :: handoff_cfg where
  "default_handoff_cfg = \<lparr>cfg_n = 10000000, cfg_warmup = 1000000\<rparr>"

definition age :: "(u64 \<Rightarrow> bool) \<Rightarrow> u64 \<Rightarrow> u64 \<Rightarrow> u64 list \<Rightarrow> u64 list" where
  "age accepts ts now h = recorded accepts (now - ts) h"

datatype handoff_event = PushAttempt u64 | SetDone | ConsumerStep u64

fun handoff_step ::
  "('s \<Rightarrow> u64 \<Rightarrow> 'f + ((u64 + unit) \<times> 's)) \<Rightarrow> ('s \<Rightarrow> 'f + (u64 option \<times> 's)) \<Rightarrow> (u64 \<Rightarrow> bool) \<Rightarrow> nat \<Rightarrow>
     ('s, u64, u64 list) bench \<times> nat \<Rightarrow> handoff_event \<Rightarrow>
     ('f + (('s, u64, u64 list) bench \<times> nat)) option" where
  "handoff_step try_push try_pop accepts warmup (b, left) (PushAttempt ts) =
     (if left = 0 then None
      else Some (case try_push (queue_of b) ts of
        Inl f \<Rightarrow> Inl f
      | Inr (Inr _, s) \<Rightarrow> Inr (b\<lparr>queue_of := s, sent := sent b @ [ts]\<rparr>, left - 1)
      | Inr (Inl _, s) \<Rightarrow> Inr (b\<lparr>queue_of := s\<rparr>, left)))"
| "handoff_step try_push try_pop accepts warmup (b, left) SetDone =
     (if left = 0 \<and> \<not> done_flag b then Some (Inr (b\<lparr>done_flag := True\<rparr>, left)) else None)"
| "handoff_step try_push try_pop accepts warmup (b, left) (ConsumerStep now) =
     Some (case consumer_step try_pop (age accepts) warmup now b of Inl f \<Rightarrow> Inl f | Inr b' \<Rightarrow> Inr (b', left))"

inductive handoff_reach ::
  "('s \<Rightarrow> u64 \<Rightarrow> 'f + ((u64 + unit) \<times> 's)) \<Rightarrow> ('s \<Rightarrow> 'f + (u64 option \<times> 's)) \<Rightarrow> (u64 \<Rightarrow> bool) \<Rightarrow> handoff_cfg \<Rightarrow> 's \<Rightarrow>
     ('s, u64, u64 list) bench \<times> nat \<Rightarrow> bool" for try_push try_pop accepts cfg s where
  handoff_init: "handoff_reach try_push try_pop accepts cfg s (bench_new s [], cfg_n cfg)"
| handoff_next: "handoff_reach try_push try_pop accepts cfg s st \<Longrightarrow>
    handoff_step try_push try_pop accepts (cfg_warmup cfg) st e = Some (Inr st') \<Longrightarrow>
    handoff_reach try_push try_pop accepts cfg s st'"

fun handoff_run ::
  "('s \<Rightarrow> u64 \<Rightarrow> 'f + ((u64 + unit) \<times> 's)) \<Rightarrow> ('s \<Rightarrow> 'f + (u64 option \<times> 's)) \<Rightarrow> (u64 \<Rightarrow> bool) \<Rightarrow> nat \<Rightarrow>
     ('s, u64, u64 list) bench \<times> nat \<Rightarrow> handoff_event list \<Rightarrow>
     ('f + (('s, u64, u64 list) bench \<times> nat)) option" where
  "handoff_run try_push try_pop accepts warmup st [] = Some (Inr st)"
| "handoff_run try_push try_pop accepts warmup st (e # es) =
     (case handoff_step try_push try_pop accepts warmup st e of
        Some (Inr st') \<Rightarrow> handoff_run try_push try_pop accepts warmup st' es
      | r \<Rightarrow> r)"

lemma handoff_reach_run:
  "handoff_reach try_push try_pop accepts cfg s st \<Longrightarrow>
     handoff_run try_push try_pop accepts (cfg_warmup cfg) st es = Some (Inr st') \<Longrightarrow>
     handoff_reach try_push try_pop accepts cfg s st'"
  by (induction es arbitrary: st) (auto split: option.splits sum.splits intro: handoff_next)

lemma samples_age: "samples (age accepts) xs h = h @ filter accepts (map (\<lambda>(ts, now). now - ts) xs)"
  by (induction xs arbitrary: h) (auto simp: samples_def age_def)

locale stamp_bench = spsc_bench try_push try_pop contents invar
  for try_push :: "'s \<Rightarrow> u64 \<Rightarrow> 'f + ((u64 + unit) \<times> 's)"
    and try_pop :: "'s \<Rightarrow> 'f + (u64 option \<times> 's)"
    and contents :: "'s \<Rightarrow> u64 list"
    and invar :: "'s \<Rightarrow> bool"
begin

definition handoff_inv :: "(u64 \<Rightarrow> bool) \<Rightarrow> handoff_cfg \<Rightarrow> ('s, u64, u64 list) bench \<Rightarrow> nat \<Rightarrow> bool" where
  "handoff_inv accepts cfg b left \<longleftrightarrow>
     bench_inv (age accepts) (cfg_warmup cfg) [] b \<and> length (sent b) + left = cfg_n cfg \<and> (done_flag b \<longrightarrow> left = 0)"

lemma handoff_step_inv:
  assumes "handoff_inv accepts cfg b left"
    and "handoff_step try_push try_pop accepts (cfg_warmup cfg) (b, left) e = Some r"
  shows "\<exists>b' left'. r = Inr (b', left') \<and> handoff_inv accepts cfg b' left'"
proof (cases e)
  case (PushAttempt ts)
  from assms(1) have b: "bench_inv (age accepts) (cfg_warmup cfg) [] b" by (simp add: handoff_inv_def)
  from assms(2) PushAttempt have left: "0 < left" by (simp split: if_splits)
  with assms(1) have "\<not> done_flag b" by (simp add: handoff_inv_def)
  note fin = bench_invD(2) [OF b this]
  from push_law [OF bench_invD(1) [OF b], of ts] show ?thesis
  proof (elim disjE exE conjE)
    fix s' assume s': "try_push (queue_of b) ts = Inr (Inr (), s')" "invar s'"
      "contents s' = contents (queue_of b) @ [ts]"
    from assms(2) PushAttempt left s'(1) have
      "r = Inr (b\<lparr>queue_of := s', sent := sent b @ [ts]\<rparr>, left - 1)" by simp
    with bench_inv_push(1) [OF b fin s'(2,3)] assms(1) left show ?thesis by (simp add: handoff_inv_def)
  next
    fix s' assume s': "try_push (queue_of b) ts = Inr (Inl ts, s')" "invar s'" "contents s' = contents (queue_of b)"
    from assms(2) PushAttempt left s'(1) have "r = Inr (b\<lparr>queue_of := s'\<rparr>, left)" by simp
    with bench_inv_push(2) [OF b fin s'(2,3)] assms(1) show ?thesis by (simp add: handoff_inv_def)
  qed
next
  case SetDone
  with assms(2) have "r = Inr (b\<lparr>done_flag := True\<rparr>, left)" "left = 0" by (simp_all split: if_splits)
  with assms(1) show ?thesis by (simp add: handoff_inv_def bench_inv_done)
next
  case (ConsumerStep now)
  from assms(1) have "bench_inv (age accepts) (cfg_warmup cfg) [] b" by (simp add: handoff_inv_def)
  from consumer_step_inv [OF this, of now] obtain b' where
    "consumer_step try_pop (age accepts) (cfg_warmup cfg) now b = Inr b'" "bench_inv (age accepts) (cfg_warmup cfg) [] b'"
    "sent b' = sent b" "done_flag b' = done_flag b" by blast
  moreover from this(1) assms(2) ConsumerStep have "r = Inr (b', left)" by simp
  ultimately show ?thesis using assms(1) by (simp add: handoff_inv_def)
qed

lemma handoff_reach_inv:
  "handoff_reach try_push try_pop accepts cfg s st \<Longrightarrow> invar s \<Longrightarrow> contents s = [] \<Longrightarrow> handoff_inv accepts cfg (fst st) (snd st)"
proof (induction rule: handoff_reach.induct)
  case handoff_init
  then show ?case by (simp add: handoff_inv_def bench_inv_new) (simp add: bench_new_def)
next
  case (handoff_next st e st')
  then have "handoff_inv accepts cfg (fst st) (snd st)" by simp
  from handoff_step_inv [OF this, of e "Inr st'"] handoff_next show ?case by auto
qed

end

interpretation ours_stamps: stamp_bench "ours_try_push cap" "ours_try_pop cap" "spsc_contents cap" "spsc_inv cap"
  for cap :: usize
  by (rule stamp_bench.intro) (rule ours.spsc_bench_axioms)

section \<open>The throttled benchmark\<close>

text \<open>
  \<open>measure_at_rate\<close>: items on an open-loop schedule kept in Q32 fixed point in a \<open>u128\<close>. The
  program counter of the producer thread names what it does next; \<open>full_first\<close> is a ghost
  counter of the items whose first push attempt found the queue full.
\<close>

type_synonym u128 = "128 word"

record stamped =
  schedule_tsc :: u64
  push_tsc :: u64

datatype tpc =
    NextItem
  | WaitUntil u64
  | StampItem u64
  | TryItem stamped bool
  | StoreDone u64
  | ProducerEnd

record tprod =
  pc_of :: tpc
  items_left :: nat
  t_start :: u64
  schedule_q32 :: u128
  full_pushes :: u64
  full_first :: nat
  outcome :: "(u64 \<times> u64 \<times> u64) option"

text \<open>\<open>dt_q32 = ((tsc_hz as u128) << 32) / (rate_hz as u128)\<close>; a division by zero panics.\<close>

definition dt_q32 :: "u64 \<Rightarrow> u64 \<Rightarrow> u128 option" where
  "dt_q32 tsc_hz rate_hz =
     (if rate_hz = 0 then None else Some (push_bit 32 (ucast tsc_hz) div ucast rate_hz))"

definition tprod_new :: "nat \<Rightarrow> u64 \<Rightarrow> tprod" where
  "tprod_new n start =
     \<lparr>pc_of = NextItem, items_left = n, t_start = start, schedule_q32 = push_bit 32 (ucast start),
      full_pushes = 0, full_first = 0, outcome = None\<rparr>"

definition schedule_of :: "u128 \<Rightarrow> u64" where
  "schedule_of q = ucast (drop_bit 32 q)"

text \<open>One step of the producer thread; \<open>now\<close> is what the clock shows when it is read.\<close>

definition producer_step ::
  "('s \<Rightarrow> stamped \<Rightarrow> 'f + ((stamped + unit) \<times> 's)) \<Rightarrow> u128 \<Rightarrow> u64 \<Rightarrow>
     ('s, stamped, 'h) bench \<times> tprod \<Rightarrow> 'f + (('s, stamped, 'h) bench \<times> tprod)" where
  "producer_step try_push dt now st =
     (case st of (b, p) \<Rightarrow>
        (case pc_of p of
           NextItem \<Rightarrow>
             if items_left p = 0 then Inr (b, p\<lparr>pc_of := StoreDone now\<rparr>)
             else let q = schedule_q32 p + dt
               in Inr (b, p\<lparr>schedule_q32 := q, pc_of := WaitUntil (schedule_of q)\<rparr>)
         | WaitUntil s \<Rightarrow> if s \<le> now then Inr (b, p\<lparr>pc_of := StampItem s\<rparr>) else Inr (b, p)
         | StampItem s \<Rightarrow>
             Inr (b, p\<lparr>pc_of := TryItem \<lparr>schedule_tsc = s, push_tsc = now\<rparr> False\<rparr>)
         | TryItem it was_full \<Rightarrow>
             (case try_push (queue_of b) it of
                Inl f \<Rightarrow> Inl f
              | Inr (Inr _, s) \<Rightarrow>
                  Inr (b\<lparr>queue_of := s, sent := sent b @ [it]\<rparr>,
                    p\<lparr>full_pushes := (if was_full then full_pushes p + 1 else full_pushes p),
                      items_left := items_left p - 1, pc_of := NextItem\<rparr>)
              | Inr (Inl it, s) \<Rightarrow>
                  Inr (b\<lparr>queue_of := s\<rparr>,
                    p\<lparr>full_first := (if was_full then full_first p else full_first p + 1),
                      pc_of := TryItem it True\<rparr>))
         | StoreDone t_end \<Rightarrow>
             Inr (b\<lparr>done_flag := True\<rparr>,
               p\<lparr>outcome := Some (t_end - t_start p, full_pushes p,
                   saturating_sub t_end (schedule_of (schedule_q32 p))),
                 pc_of := ProducerEnd\<rparr>)
         | ProducerEnd \<Rightarrow> Inr (b, p)))"

text \<open>The consumer hands \<open>record\<close> the age since the schedule, and since the push when asked to.\<close>

definition ages :: "(u64 \<Rightarrow> bool) \<Rightarrow> stamped \<Rightarrow> u64 \<Rightarrow> u64 list \<times> u64 list option \<Rightarrow> u64 list \<times> u64 list option" where
  "ages accepts it now h =
     (case h of (user_hist, sys_hist) \<Rightarrow>
        (recorded accepts (now - schedule_tsc it) user_hist, map_option (recorded accepts (now - push_tsc it)) sys_hist))"

definition throttled_hist :: "bool \<Rightarrow> u64 list \<times> u64 list option" where
  "throttled_hist capture_sys = ([], if capture_sys then Some [] else None)"

datatype throttled_event = Producer u64 | Consumer u64

fun throttled_step ::
  "('s \<Rightarrow> stamped \<Rightarrow> 'f + ((stamped + unit) \<times> 's)) \<Rightarrow> ('s \<Rightarrow> 'f + (stamped option \<times> 's)) \<Rightarrow>
     u128 \<Rightarrow> (u64 \<Rightarrow> bool) \<Rightarrow> nat \<Rightarrow> ('s, stamped, u64 list \<times> u64 list option) bench \<times> tprod \<Rightarrow> throttled_event \<Rightarrow>
     'f + (('s, stamped, u64 list \<times> u64 list option) bench \<times> tprod)" where
  "throttled_step try_push try_pop dt accepts warmup st (Producer now) = producer_step try_push dt now st"
| "throttled_step try_push try_pop dt accepts warmup st (Consumer now) =
     (case consumer_step try_pop (ages accepts) warmup now (fst st) of Inl f \<Rightarrow> Inl f | Inr b \<Rightarrow> Inr (b, snd st))"

inductive throttled_reach ::
  "('s \<Rightarrow> stamped \<Rightarrow> 'f + ((stamped + unit) \<times> 's)) \<Rightarrow> ('s \<Rightarrow> 'f + (stamped option \<times> 's)) \<Rightarrow>
     u128 \<Rightarrow> nat \<Rightarrow> (u64 \<Rightarrow> bool) \<Rightarrow> nat \<Rightarrow> bool \<Rightarrow> u64 \<Rightarrow> 's \<Rightarrow>
     ('s, stamped, u64 list \<times> u64 list option) bench \<times> tprod \<Rightarrow> bool"
  for try_push try_pop dt n accepts warmup capture_sys start s where
  throttled_init: "throttled_reach try_push try_pop dt n accepts warmup capture_sys start s
    (bench_new s (throttled_hist capture_sys), tprod_new n start)"
| throttled_next: "throttled_reach try_push try_pop dt n accepts warmup capture_sys start s st \<Longrightarrow>
    throttled_step try_push try_pop dt accepts warmup st e = Inr st' \<Longrightarrow>
    throttled_reach try_push try_pop dt n accepts warmup capture_sys start s st'"

fun throttled_run ::
  "('s \<Rightarrow> stamped \<Rightarrow> 'f + ((stamped + unit) \<times> 's)) \<Rightarrow> ('s \<Rightarrow> 'f + (stamped option \<times> 's)) \<Rightarrow>
     u128 \<Rightarrow> (u64 \<Rightarrow> bool) \<Rightarrow> nat \<Rightarrow> ('s, stamped, u64 list \<times> u64 list option) bench \<times> tprod \<Rightarrow> throttled_event list \<Rightarrow>
     'f + (('s, stamped, u64 list \<times> u64 list option) bench \<times> tprod)" where
  "throttled_run try_push try_pop dt accepts warmup st [] = Inr st"
| "throttled_run try_push try_pop dt accepts warmup st (e # es) =
     (case throttled_step try_push try_pop dt accepts warmup st e of
        Inl f \<Rightarrow> Inl f | Inr st' \<Rightarrow> throttled_run try_push try_pop dt accepts warmup st' es)"

lemma throttled_reach_run:
  "throttled_reach try_push try_pop dt n accepts warmup capture_sys start s st \<Longrightarrow>
     throttled_run try_push try_pop dt accepts warmup st es = Inr st' \<Longrightarrow>
     throttled_reach try_push try_pop dt n accepts warmup capture_sys start s st'"
  by (induction es arbitrary: st) (auto split: sum.splits intro: throttled_next)

text \<open>
  The configuration of a run: \<open>n\<close> from the rate and the target time, clamped (\<open>clamp\<close> panics when
  the bounds are the wrong way round), and the warmup as a fraction of it.
\<close>

record throttled_cfg =
  rates_hz :: "u64 list"
  target_secs :: u64
  warmup_divisor :: u64
  capture_sys_latency :: bool
  min_n :: u64
  max_n :: u64

definition default_throttled_cfg :: throttled_cfg where
  "default_throttled_cfg =
     \<lparr>rates_hz = [1000000, 10000000, 20000000, 30000000, 35000000, 40000000, 50000000],
      target_secs = 3, warmup_divisor = 10, capture_sys_latency = False,
      min_n = 1000000, max_n = 50000000\<rparr>"

definition items_and_warmup :: "throttled_cfg \<Rightarrow> u64 \<Rightarrow> (u64 \<times> u64) option" where
  "items_and_warmup cfg rate =
     (if max_n cfg < min_n cfg then None
      else let n = max (min_n cfg) (min (max_n cfg) (saturating_mul rate (target_secs cfg)))
        in if warmup_divisor cfg = 0 then None else Some (n, n div warmup_divisor cfg))"

record 'h throttled_result =
  rate_hz :: u64
  effective_hz :: u64
  n_of :: u64
  full_of :: u64
  final_lag_ns :: u64
  saturated :: bool
  user_hist :: 'h
  sys_hist :: "'h option"
  t_loc_delta :: "(nat \<times> u64 option) list"

definition effective_rate :: "u64 \<Rightarrow> u64 \<Rightarrow> u64" where
  "effective_rate n elapsed_ns =
     (if elapsed_ns = 0 then 0 else of_nat (unat n * 1000000000 div unat elapsed_ns))"

definition period_ns :: "u64 \<Rightarrow> nat" where
  "period_ns rate = max 1 (1000000000 div unat rate)"

definition is_saturated :: "u64 \<Rightarrow> u64 \<Rightarrow> u64 \<Rightarrow> u64 \<Rightarrow> bool" where
  "is_saturated rate n full lag_ns \<longleftrightarrow>
     n < saturating_mul full 100 \<or> max 10000000 (100 * period_ns rate) < unat lag_ns"

text \<open>The figures of one rate, from what the two threads return; \<open>None\<close> is a panic.\<close>

definition throttled_result_of ::
  "u64 \<Rightarrow> u64 \<Rightarrow> u64 \<Rightarrow> (u64 \<times> u64 \<times> u64) \<Rightarrow> 'h \<times> 'h option \<Rightarrow> (nat \<times> u64 option) list \<Rightarrow>
     'h throttled_result option" where
  "throttled_result_of tsc_hz rate n producer hists deltas =
     (case producer of (elapsed_tsc, full, final_lag_tsc) \<Rightarrow>
      case (to_ns tsc_hz elapsed_tsc, to_ns tsc_hz final_lag_tsc) of
        (Some elapsed_ns, Some lag_ns) \<Rightarrow>
          if rate = 0 then None
          else let sat = is_saturated rate n full lag_ns
            in Some \<lparr>rate_hz = rate, effective_hz = effective_rate n elapsed_ns, n_of = n, full_of = full,
                  final_lag_ns = lag_ns, saturated = sat, user_hist = fst hists,
                  sys_hist = (if sat then None else snd hists), t_loc_delta = deltas\<rparr>
      | _ \<Rightarrow> None)"

text \<open>
  The system line of \<open>print_rate\<close>: nothing without a histogram, else a note that it is
  suppressed or the figures.
\<close>

datatype sys_line = NoLine | Suppressed | Figures

definition print_sys :: "'h throttled_result \<Rightarrow> sys_line" where
  "print_sys r =
     (case sys_hist r of
        None \<Rightarrow> NoLine
      | Some h \<Rightarrow> if saturated r then Suppressed else Figures)"

section \<open>What the throttled producer keeps\<close>

text \<open>The schedule after \<open>k\<close> items, and the items scheduled beyond those pushed.\<close>

definition schedule_at :: "u64 \<Rightarrow> u128 \<Rightarrow> nat \<Rightarrow> u128" where
  "schedule_at start dt k = push_bit 32 (ucast start) + of_nat k * dt"

fun ahead :: "tpc \<Rightarrow> nat" where
  "ahead (WaitUntil s) = 1"
| "ahead (StampItem s) = 1"
| "ahead (TryItem it was_full) = 1"
| "ahead _ = 0"

fun refused :: "tpc \<Rightarrow> nat" where
  "refused (TryItem it True) = 1"
| "refused _ = 0"

fun pc_schedule :: "u64 \<Rightarrow> tpc \<Rightarrow> bool" where
  "pc_schedule q (WaitUntil s) \<longleftrightarrow> s = q"
| "pc_schedule q (StampItem s) \<longleftrightarrow> s = q"
| "pc_schedule q (TryItem it was_full) \<longleftrightarrow> schedule_tsc it = q"
| "pc_schedule q _ \<longleftrightarrow> True"

definition producer_inv :: "u128 \<Rightarrow> nat \<Rightarrow> u64 \<Rightarrow> stamped list \<Rightarrow> tprod \<Rightarrow> bool" where
  "producer_inv dt n start xs p \<longleftrightarrow>
     length xs + items_left p = n \<and> t_start p = start \<and>
     schedule_q32 p = schedule_at start dt (length xs + ahead (pc_of p)) \<and>
     (ahead (pc_of p) = 1 \<longrightarrow> 0 < items_left p) \<and>
     pc_schedule (schedule_of (schedule_q32 p)) (pc_of p) \<and>
     (\<forall>k<length xs. schedule_tsc (xs ! k) = schedule_of (schedule_at start dt (k + 1))) \<and>
     full_pushes p + of_nat (refused (pc_of p)) = of_nat (full_first p) \<and>
     full_first p \<le> length xs + refused (pc_of p)"

definition producer_end :: "tprod \<Rightarrow> bool" where
  "producer_end p \<longleftrightarrow> pc_of p = ProducerEnd \<and> items_left p = 0"

lemma producer_inv_new: "producer_inv dt n start [] (tprod_new n start)"
  by (simp add: producer_inv_def tprod_new_def schedule_at_def)

lemma schedule_at_Suc: "schedule_at start dt k + dt = schedule_at start dt (Suc k)"
  by (simp add: schedule_at_def algebra_simps)

lemma producer_inv_next:
  assumes "producer_inv dt n start xs p" "pc_of p = NextItem" "items_left p \<noteq> 0"
  shows "producer_inv dt n start xs
    (p\<lparr>schedule_q32 := schedule_q32 p + dt, pc_of := WaitUntil (schedule_of (schedule_q32 p + dt))\<rparr>)"
  using assms by (simp add: producer_inv_def schedule_at_Suc)

lemma producer_inv_pushed:
  assumes "producer_inv dt n start xs p" "pc_of p = TryItem it was_full"
  shows "producer_inv dt n start (xs @ [it])
    (p\<lparr>full_pushes := (if was_full then full_pushes p + 1 else full_pushes p),
       items_left := items_left p - 1, pc_of := NextItem\<rparr>)"
  using assms by (cases was_full) (simp_all add: producer_inv_def nth_append less_Suc_eq)

lemma producer_inv_refused:
  assumes "producer_inv dt n start xs p" "pc_of p = TryItem it was_full"
  shows "producer_inv dt n start xs
    (p\<lparr>full_first := (if was_full then full_first p else full_first p + 1), pc_of := TryItem it True\<rparr>)"
  using assms by (cases was_full) (simp_all add: producer_inv_def)

locale stamped_bench = spsc_bench try_push try_pop contents invar
  for try_push :: "'s \<Rightarrow> stamped \<Rightarrow> 'f + ((stamped + unit) \<times> 's)"
    and try_pop :: "'s \<Rightarrow> 'f + (stamped option \<times> 's)"
    and contents :: "'s \<Rightarrow> stamped list"
    and invar :: "'s \<Rightarrow> bool"
begin

definition throttled_inv ::
  "u128 \<Rightarrow> nat \<Rightarrow> (u64 \<Rightarrow> bool) \<Rightarrow> nat \<Rightarrow> bool \<Rightarrow> u64 \<Rightarrow> ('s, stamped, u64 list \<times> u64 list option) bench \<Rightarrow> tprod \<Rightarrow> bool" where
  "throttled_inv dt n accepts warmup capture_sys start b p \<longleftrightarrow>
     bench_inv (ages accepts) warmup (throttled_hist capture_sys) b \<and> producer_inv dt n start (sent b) p \<and>
     (done_flag b \<longrightarrow> producer_end p) \<and> (\<forall>t. pc_of p = StoreDone t \<longrightarrow> items_left p = 0) \<and>
     (outcome p = None \<or> done_flag b \<and> fst (snd (the (outcome p))) = full_pushes p)"

lemma throttled_try:
  assumes "throttled_inv dt n accepts warmup capture_sys start b p" "pc_of p = TryItem it was_full"
  shows "\<exists>b' p'. producer_step try_push dt now (b, p) = Inr (b', p') \<and>
    throttled_inv dt n accepts warmup capture_sys start b' p'"
proof -
  let ?p1 = "p\<lparr>full_pushes := (if was_full then full_pushes p + 1 else full_pushes p),
       items_left := items_left p - 1, pc_of := NextItem\<rparr>"
  let ?p2 = "p\<lparr>full_first := (if was_full then full_first p else full_first p + 1), pc_of := TryItem it True\<rparr>"
  from assms have b: "bench_inv (ages accepts) warmup (throttled_hist capture_sys) b"
    and p: "producer_inv dt n start (sent b) p" and nd: "\<not> done_flag b"
    by (auto simp: throttled_inv_def producer_end_def)
  note fin = bench_invD(2) [OF b nd]
  have out: "outcome p = None" using assms(1) nd by (auto simp: throttled_inv_def)
  from push_law [OF bench_invD(1) [OF b], of it] show ?thesis
  proof (elim disjE exE conjE)
    fix s assume s: "try_push (queue_of b) it = Inr (Inr (), s)" "invar s" "contents s = contents (queue_of b) @ [it]"
    have "producer_step try_push dt now (b, p) = Inr (b\<lparr>queue_of := s, sent := sent b @ [it]\<rparr>, ?p1)"
      by (simp add: producer_step_def assms(2) s(1))
    moreover have "throttled_inv dt n accepts warmup capture_sys start (b\<lparr>queue_of := s, sent := sent b @ [it]\<rparr>) ?p1"
      using bench_inv_push(1) [OF b fin s(2,3)] producer_inv_pushed [OF p assms(2)] nd out
      by (simp add: throttled_inv_def)
    ultimately show ?thesis by blast
  next
    fix s assume s: "try_push (queue_of b) it = Inr (Inl it, s)" "invar s" "contents s = contents (queue_of b)"
    have "producer_step try_push dt now (b, p) = Inr (b\<lparr>queue_of := s\<rparr>, ?p2)"
      by (simp add: producer_step_def assms(2) s(1))
    moreover have "throttled_inv dt n accepts warmup capture_sys start (b\<lparr>queue_of := s\<rparr>) ?p2"
      using bench_inv_push(2) [OF b fin s(2,3)] producer_inv_refused [OF p assms(2)] nd out
      by (simp add: throttled_inv_def)
    ultimately show ?thesis by blast
  qed
qed

lemma throttled_producer_inv:
  assumes "throttled_inv dt n accepts warmup capture_sys start b p"
  shows "\<exists>b' p'. producer_step try_push dt now (b, p) = Inr (b', p') \<and>
    throttled_inv dt n accepts warmup capture_sys start b' p'"
proof (cases "pc_of p")
  case NextItem
  with assms have nd: "\<not> done_flag b" by (auto simp: throttled_inv_def producer_end_def)
  from assms have p: "producer_inv dt n start (sent b) p" by (simp add: throttled_inv_def)
  show ?thesis
  proof (cases "items_left p = 0")
    case True
    have "producer_inv dt n start (sent b) (p\<lparr>pc_of := StoreDone now\<rparr>)"
      using p True NextItem by (simp add: producer_inv_def)
    with True NextItem nd assms show ?thesis by (simp add: producer_step_def throttled_inv_def)
  next
    case False
    from producer_inv_next [OF p NextItem this] False NextItem nd assms show ?thesis
      by (simp add: producer_step_def throttled_inv_def Let_def)
  qed
next
  case (WaitUntil s)
  with assms have "producer_inv dt n start (sent b) (p\<lparr>pc_of := StampItem s\<rparr>)"
    by (simp add: throttled_inv_def producer_inv_def)
  with WaitUntil assms show ?thesis
    by (auto simp: producer_step_def throttled_inv_def producer_end_def)
next
  case (StampItem s)
  with assms have "producer_inv dt n start (sent b) (p\<lparr>pc_of := TryItem \<lparr>schedule_tsc = s, push_tsc = now\<rparr> False\<rparr>)"
    by (simp add: throttled_inv_def producer_inv_def)
  with StampItem assms show ?thesis
    by (auto simp: producer_step_def throttled_inv_def producer_end_def)
next
  case (TryItem it was_full)
  then show ?thesis by (rule throttled_try [OF assms])
next
  case (StoreDone t)
  with assms have "items_left p = 0" "bench_inv (ages accepts) warmup (throttled_hist capture_sys) (b\<lparr>done_flag := True\<rparr>)"
    by (simp_all add: throttled_inv_def bench_inv_done)
  with StoreDone assms show ?thesis
    by (simp add: producer_step_def throttled_inv_def producer_end_def producer_inv_def)
next
  case ProducerEnd
  with assms show ?thesis by (simp add: producer_step_def)
qed

lemma throttled_reach_inv:
  "throttled_reach try_push try_pop dt n accepts warmup capture_sys start s st \<Longrightarrow> invar s \<Longrightarrow> contents s = [] \<Longrightarrow>
     throttled_inv dt n accepts warmup capture_sys start (fst st) (snd st)"
proof (induction rule: throttled_reach.induct)
  case throttled_init
  then show ?case by (simp add: throttled_inv_def bench_inv_new)
    (simp add: bench_new_def producer_inv_new, simp add: tprod_new_def)
next
  case (throttled_next st e st')
  then have inv: "throttled_inv dt n accepts warmup capture_sys start (fst st) (snd st)" by simp
  show ?case
  proof (cases e)
    case (Producer now)
    from throttled_producer_inv [OF inv, of now] throttled_next(2) Producer show ?thesis by auto
  next
    case (Consumer now)
    from inv have "bench_inv (ages accepts) warmup (throttled_hist capture_sys) (fst st)" by (simp add: throttled_inv_def)
    from consumer_step_inv [OF this, of now] obtain b' where
      "consumer_step try_pop (ages accepts) warmup now (fst st) = Inr b'"
      "bench_inv (ages accepts) warmup (throttled_hist capture_sys) b'" "sent b' = sent (fst st)"
      "done_flag b' = done_flag (fst st)" by blast
    moreover from this(1) throttled_next(2) Consumer have "st' = (b', snd st)" by simp
    ultimately show ?thesis using inv by (simp add: throttled_inv_def)
  qed
qed

end

interpretation ours_stamped: stamped_bench "ours_try_push cap" "ours_try_pop cap" "spsc_contents cap" "spsc_inv cap"
  for cap :: usize
  by (rule stamped_bench.intro) (rule ours.spsc_bench_axioms)

section \<open>The schedule in fixed point\<close>

lemma unat_ucast_64_128: "unat (ucast (x :: u64) :: u128) = unat x"
proof -
  have "unat x < 2 ^ 64" using unsigned_less [of x] by simp
  then have "unat x < 2 ^ 128" by simp
  then show ?thesis by (simp add: unsigned_ucast_eq take_bit_nat_eq_self)
qed

lemma unat_push_bit_32: "unat (push_bit 32 (ucast (x :: u64)) :: u128) = unat x * 2 ^ 32"
proof -
  have "unat x < 2 ^ 64" using unsigned_less [of x] by simp
  then have "unat x * 2 ^ 32 < (2 :: nat) ^ 128" by simp
  moreover have "unat (push_bit 32 (ucast x) :: u128) = take_bit 128 (push_bit 32 (unat x))"
    by (simp add: unsigned_push_bit_eq unat_ucast_64_128)
  ultimately show ?thesis by (simp add: push_bit_eq_mult take_bit_nat_eq_self)
qed

lemma unat_dt_q32:
  assumes "dt_q32 tsc_hz rate = Some dt"
  shows "0 < unat rate" "unat dt = unat tsc_hz * 2 ^ 32 div unat rate"
proof -
  from assms show "0 < unat rate" by (simp add: dt_q32_def unat_gt_0 split: if_splits)
  from assms have "dt = push_bit 32 (ucast tsc_hz) div ucast rate" by (simp add: dt_q32_def split: if_splits)
  then show "unat dt = unat tsc_hz * 2 ^ 32 div unat rate"
    by (simp add: unat_div unat_push_bit_32 unat_ucast_64_128)
qed

lemma unat_schedule_of: "unat (schedule_of q) = unat q div 2 ^ 32 mod 2 ^ 64"
  by (simp add: schedule_of_def unsigned_ucast_eq unsigned_drop_bit_eq drop_bit_eq_div take_bit_eq_mod unat_div)

lemma unat_schedule_at:
  assumes "unat start * 2 ^ 32 + k * unat dt < 2 ^ 128"
  shows "unat (schedule_at start dt k) = unat start * 2 ^ 32 + k * unat dt"
proof -
  have "push_bit 32 (ucast start) = (of_nat (unat start * 2 ^ 32) :: u128)"
    unfolding unat_push_bit_32 [symmetric] by (simp only: of_nat_unat ucast_id)
  then have "schedule_at start dt k = of_nat (unat start * 2 ^ 32) + of_nat (k * unat dt)"
    unfolding schedule_at_def by (simp only: of_nat_mult of_nat_unat ucast_id)
  then have "schedule_at start dt k = of_nat (unat start * 2 ^ 32 + k * unat dt)"
    by (simp only: of_nat_add)
  then have "unat (schedule_at start dt k) = (unat start * 2 ^ 32 + k * unat dt) mod 2 ^ 128"
    by (simp only: unat_of_nat) simp
  with assms show ?thesis by simp
qed

text \<open>Rounding the step down to \<open>2 ^ (-32)\<close> ticks loses at most one tick in \<open>2 ^ 32\<close> items.\<close>

lemma fixed_point_drift:
  fixes hz rate k T :: nat
  assumes "0 < rate" "k \<le> 2 ^ 32" "D = hz * 2 ^ 32 div rate"
  shows "(T * 2 ^ 32 + k * D) div 2 ^ 32 \<le> T + k * hz div rate"
    and "T + k * hz div rate \<le> (T * 2 ^ 32 + k * D) div 2 ^ 32 + 1"
proof -
  have split: "(T * 2 ^ 32 + k * D) div 2 ^ 32 = T + k * D div 2 ^ 32" by simp
  have "D * rate \<le> hz * 2 ^ 32" using assms(3) by simp
  then have "k * D * rate \<le> k * (hz * 2 ^ 32)" by (simp add: mult.assoc)
  then have "k * D \<le> k * hz * 2 ^ 32 div rate" using assms(1) by (simp add: less_eq_div_iff_mult_less_eq mult.assoc)
  then have "k * D div 2 ^ 32 \<le> k * hz * 2 ^ 32 div rate div 2 ^ 32" by (rule div_le_mono)
  also have "\<dots> = k * hz div rate" by (metis div_mult2_eq div_mult_mult2 mult.commute power_not_zero zero_neq_numeral)
  finally show "(T * 2 ^ 32 + k * D) div 2 ^ 32 \<le> T + k * hz div rate" unfolding split by simp
  have "hz * 2 ^ 32 < (D + 1) * rate" using assms(1,3) by (metis Suc_eq_plus1 dividend_less_times_div mult.commute mult_Suc_right)
  then have "hz * 2 ^ 32 \<le> (D + 1) * rate" by simp
  then have "k * (hz * 2 ^ 32) \<le> k * ((D + 1) * rate)" by (rule mult_le_mono2)
  also have "\<dots> = (k * D + k) * rate" by (simp add: algebra_simps)
  also have "\<dots> \<le> (k * D + 2 ^ 32) * rate" using assms(2) by simp
  finally have "k * hz * 2 ^ 32 \<le> (k * D + 2 ^ 32) * rate" by (simp add: mult.assoc)
  then have "k * hz * 2 ^ 32 div rate \<le> (k * D + 2 ^ 32) * rate div rate" by (rule div_le_mono)
  then have "k * hz * 2 ^ 32 div rate \<le> k * D + 2 ^ 32" using assms(1) by simp
  then have "k * hz * 2 ^ 32 div rate div 2 ^ 32 \<le> (k * D + 2 ^ 32) div 2 ^ 32" by (rule div_le_mono)
  moreover have "k * hz * 2 ^ 32 div rate div 2 ^ 32 = k * hz div rate"
    by (metis div_mult2_eq div_mult_mult2 mult.commute power_not_zero zero_neq_numeral)
  ultimately have "k * hz div rate \<le> k * D div 2 ^ 32 + 1" by simp
  then show "T + k * hz div rate \<le> (T * 2 ^ 32 + k * D) div 2 ^ 32 + 1" unfolding split by simp
qed

lemma schedule_drift:
  assumes "dt_q32 tsc_hz rate = Some dt" "k \<le> 2 ^ 32" "unat start + k * unat tsc_hz div unat rate < 2 ^ 64"
  shows "unat (schedule_of (schedule_at start dt k)) \<le> unat start + k * unat tsc_hz div unat rate"
    and "unat start + k * unat tsc_hz div unat rate \<le> unat (schedule_of (schedule_at start dt k)) + 1"
proof -
  note dt = unat_dt_q32 [OF assms(1)]
  note drift = fixed_point_drift [OF dt(1) assms(2) dt(2), of "unat start"]
  have lt: "(unat start * 2 ^ 32 + k * unat dt) div 2 ^ 32 < 2 ^ 64" using drift(1) assms(3) by linarith
  then have "unat start * 2 ^ 32 + k * unat dt < 2 ^ 64 * 2 ^ 32" by (simp add: div_less_iff_less_mult)
  then have "unat start * 2 ^ 32 + k * unat dt < 2 ^ 128" by simp
  note at = unat_schedule_at [OF this]
  have "unat (schedule_of (schedule_at start dt k)) = (unat start * 2 ^ 32 + k * unat dt) div 2 ^ 32"
    unfolding unat_schedule_of at using lt by simp
  with drift show "unat (schedule_of (schedule_at start dt k)) \<le> unat start + k * unat tsc_hz div unat rate"
    "unat start + k * unat tsc_hz div unat rate \<le> unat (schedule_of (schedule_at start dt k)) + 1"
    by simp_all
qed

section \<open>Properties\<close>

lemma ours_new_rep:
  assumes "slot_allocator allocate" "ours_new allocate cap = Inr s"
  shows "spsc_inv cap s" "spsc_contents cap s = []"
proof -
  have "spsc_rep cap 0 [] s"
    using slot_allocator.spsc_new_rep [OF assms(1)] assms(2) unfolding ours_new_def by blast
  then show "spsc_inv cap s" "spsc_contents cap s = []" by (rule spsc_rep_inv spsc_rep_contents)+
qed

text \<open>
  In the handoff benchmark over the crate's queue, whatever the interleaving of the threads
  and whatever the clock shows, no step panics, and when the consumer thread ends it has popped
  all \<open>n\<close> stamps in the order they were pushed (nothing pushed before \<open>done\<close> is missed) and its
  histogram holds the ages of all but the first \<open>warmup\<close>, in order, less those that \<open>record\<close> rejects.
\<close>

theorem handoff_exact:
  assumes "slot_allocator allocate" "ours_new allocate cap = Inr s"
    and "handoff_reach (ours_try_push cap) (ours_try_pop cap) accepts cfg s (b, left)"
  shows "handoff_step (ours_try_push cap) (ours_try_pop cap) accepts (cfg_warmup cfg) (b, left) e \<noteq> Some (Inl f) \<and>
    (phase_of b = Finished \<longrightarrow> length (sent b) = cfg_n cfg \<and> map fst (got b) = sent b \<and>
       hist_of b = filter accepts (map (\<lambda>(ts, now). now - ts) (drop (cfg_warmup cfg) (got b))))"
proof -
  from ours_stamps.handoff_reach_inv [OF assms(3) ours_new_rep [OF assms(1,2)]]
  have inv: "ours_stamps.handoff_inv cap accepts cfg b left" by simp
  then have b: "ours.bench_inv cap (age accepts) (cfg_warmup cfg) [] b" by (simp add: ours_stamps.handoff_inv_def)
  from inv have "phase_of b = Finished \<Longrightarrow> length (sent b) = cfg_n cfg"
    using ours.bench_invD(2) [OF b] by (auto simp: ours_stamps.handoff_inv_def)
  with ours.bench_invD(3,4) [OF b] ours_stamps.handoff_step_inv [OF inv, of e "Inl f"]
  show ?thesis by (auto simp: samples_age)
qed

definition handoff_events :: "handoff_event list" where
  "handoff_events =
     [PushAttempt 10, PushAttempt 20, PushAttempt 25, ConsumerStep 30, PushAttempt 40, SetDone,
      ConsumerStep 50, ConsumerStep 60, ConsumerStep 0, ConsumerStep 0, ConsumerStep 0]"

definition demo_stamp_alloc :: "usize \<Rightarrow> global_options \<Rightarrow> fault + u64 global_allocation" where
  "demo_stamp_alloc = global_allocate demo_os 8 8"

lemma demo_stamp_allocator: "slot_allocator demo_stamp_alloc"
  unfolding demo_stamp_alloc_def by (rule galloc.slot_allocator_axioms)

lemma demo_handoff_run:
  "map_option (map_sum id (\<lambda>(b, left). (phase_of b, done_flag b, sent b, hist_of b)))
     (case ours_new demo_stamp_alloc 2 of
        Inl f \<Rightarrow> None
      | Inr s \<Rightarrow> handoff_run (ours_try_push 2) (ours_try_pop 2) (\<lambda>_. True) 1 (bench_new s [], 3) handoff_events) =
   Some (Inr (Finished, True, [10, 20, 40], [30, 20]))"
  by code_simp

lemma demo_handoff:
  obtains s b left where "ours_new demo_stamp_alloc 2 = Inr s"
    "handoff_reach (ours_try_push 2) (ours_try_pop 2) (\<lambda>_. True) \<lparr>cfg_n = 3, cfg_warmup = 1\<rparr> s (b, left)"
    "phase_of b = Finished" "done_flag b" "sent b = [10, 20, 40]" "hist_of b = [30, 20]"
proof -
  let ?cfg = "\<lparr>cfg_n = 3, cfg_warmup = 1\<rparr>"
  obtain s where s: "ours_new demo_stamp_alloc 2 = Inr s"
    using demo_handoff_run by (cases "ours_new demo_stamp_alloc 2") simp_all
  from demo_handoff_run obtain z where
    z: "handoff_run (ours_try_push 2) (ours_try_pop 2) (\<lambda>_. True) 1 (bench_new s [], 3) handoff_events = Some (Inr z)"
      "(case z of (b, left) \<Rightarrow> (phase_of b, done_flag b, sent b, hist_of b)) =
        (Finished, True, [10, 20, 40], [30, 20])"
    unfolding s sum.case map_run_iff by blast
  obtain b left where "z = (b, left)" by (cases z)
  with z have run: "handoff_run (ours_try_push 2) (ours_try_pop 2) (\<lambda>_. True) 1 (bench_new s [], 3) handoff_events =
      Some (Inr (b, left))"
    and b: "phase_of b = Finished" "done_flag b" "sent b = [10, 20, 40]" "hist_of b = [30, 20]" by simp_all
  have "handoff_reach (ours_try_push 2) (ours_try_pop 2) (\<lambda>_. True) ?cfg s (bench_new s [], 3)"
    using handoff_init [of "ours_try_push 2" "ours_try_pop 2" "\<lambda>_. True" ?cfg s] by simp
  from handoff_reach_run [OF this, of handoff_events "(b, left)"] run
  have "handoff_reach (ours_try_push 2) (ours_try_pop 2) (\<lambda>_. True) ?cfg s (b, left)" by simp
  with s b show thesis by (intro that)
qed

theorem handoff_exact_witness:
  "\<exists>s b left. ours_new demo_stamp_alloc 2 = Inr s \<and>
     handoff_reach (ours_try_push 2) (ours_try_pop 2) (\<lambda>_. True) \<lparr>cfg_n = 3, cfg_warmup = 1\<rparr> s (b, left) \<and>
     phase_of b = Finished \<and> map fst (got b) = [10, 20, 40] \<and>
     map (\<lambda>(ts, now). now - ts) (drop 1 (got b)) = [30, 20]"
proof -
  obtain s b left where d: "ours_new demo_stamp_alloc 2 = Inr s"
    "handoff_reach (ours_try_push 2) (ours_try_pop 2) (\<lambda>_. True) \<lparr>cfg_n = 3, cfg_warmup = 1\<rparr> s (b, left)"
    "phase_of b = Finished" "sent b = [10, 20, 40]" "hist_of b = [30, 20]"
    by (rule demo_handoff)
  from handoff_exact [OF demo_stamp_allocator d(1,2), of SetDone undefined] d(3-5)
  have "map fst (got b) = [10, 20, 40]" "map (\<lambda>(ts, now). now - ts) (drop 1 (got b)) = [30, 20]"
    by auto
  with d(1-3) show ?thesis by (intro exI conjI)
qed

text \<open>
  Once the producer thread has set \<open>done\<close>, the consumer thread ends: from any state reached,
  within three steps more than there are items in the queue.
\<close>

theorem handoff_ends:
  assumes "slot_allocator allocate" "ours_new allocate cap = Inr s"
    and "handoff_reach (ours_try_push cap) (ours_try_pop cap) accepts cfg s (b, left)" "done_flag b"
    and "length (spsc_contents cap (queue_of b)) + 3 \<le> length nows"
  shows "\<exists>b'. consumer_steps (ours_try_pop cap) (age accepts) (cfg_warmup cfg) nows b = Inr b' \<and>
    phase_of b' = Finished \<and> map fst (got b') = sent b"
proof -
  from ours_stamps.handoff_reach_inv [OF assms(3) ours_new_rep [OF assms(1,2)]]
  have b: "ours.bench_inv cap (age accepts) (cfg_warmup cfg) [] b" by (simp add: ours_stamps.handoff_inv_def)
  have "ours.rank cap b \<le> length nows"
    using assms(5) by (cases "phase_of b") (simp_all add: ours.rank_def)
  from ours.consumer_steps_end [OF b assms(4) this] ours.bench_invD(3) show ?thesis by metis
qed

theorem handoff_ends_witness:
  "\<exists>s b left b'. ours_new demo_stamp_alloc 2 = Inr s \<and>
     handoff_reach (ours_try_push 2) (ours_try_pop 2) (\<lambda>_. True) \<lparr>cfg_n = 3, cfg_warmup = 1\<rparr> s (b, left) \<and>
     consumer_steps (ours_try_pop 2) (age (\<lambda>_. True)) 1 (replicate (length (spsc_contents 2 (queue_of b)) + 3) 0) b = Inr b' \<and>
     phase_of b' = Finished \<and> map fst (got b') = [10, 20, 40]"
proof -
  obtain s b left where d: "ours_new demo_stamp_alloc 2 = Inr s"
    "handoff_reach (ours_try_push 2) (ours_try_pop 2) (\<lambda>_. True) \<lparr>cfg_n = 3, cfg_warmup = 1\<rparr> s (b, left)"
    "done_flag b" "sent b = [10, 20, 40]"
    by (rule demo_handoff)
  have "length (spsc_contents 2 (queue_of b)) + 3 \<le>
      length (replicate (length (spsc_contents 2 (queue_of b)) + 3) (0 :: u64))" by simp
  from handoff_ends [OF demo_stamp_allocator d(1-3) this] d show ?thesis by auto
qed

lemma throttled_reached:
  assumes "slot_allocator allocate" "ours_new allocate cap = Inr s"
    and "throttled_reach (ours_try_push cap) (ours_try_pop cap) dt n accepts warmup capture_sys start s (b, p)"
  shows "ours.bench_inv cap (ages accepts) warmup (throttled_hist capture_sys) b"
    "producer_inv dt n start (sent b) p" "done_flag b \<Longrightarrow> producer_end p"
    "outcome p = None \<or> done_flag b \<and> fst (snd (the (outcome p))) = full_pushes p"
  using ours_stamped.throttled_reach_inv [OF assms(3) ours_new_rep [OF assms(1,2)]]
  by (simp_all add: ours_stamped.throttled_inv_def)

text \<open>
  C32: The open-loop schedule of the throttled benchmark does not drift: the \<open>k\<close>-th item carries
  the ideal time \<open>t_start + (k + 1) * tsc_hz / rate\<close>, rounded down, or the tick before it, for the
  first \<open>2 ^ 32\<close> items, whatever the queue and the consumer do, as long as that time fits \<open>u64\<close>.
\<close>

theorem throttled_schedule:
  assumes "slot_allocator allocate" "ours_new allocate cap = Inr s" "dt_q32 tsc_hz rate = Some dt"
    and "throttled_reach (ours_try_push cap) (ours_try_pop cap) dt n accepts warmup capture_sys start s (b, p)"
    and "k < length (sent b)" "k < 2 ^ 32"
    and "unat start + (k + 1) * unat tsc_hz div unat rate < 2 ^ 64"
  shows "unat (schedule_tsc (sent b ! k)) \<le> unat start + (k + 1) * unat tsc_hz div unat rate \<and>
    unat start + (k + 1) * unat tsc_hz div unat rate \<le> unat (schedule_tsc (sent b ! k)) + 1"
proof -
  from throttled_reached(2) [OF assms(1,2,4)] assms(5)
  have "schedule_tsc (sent b ! k) = schedule_of (schedule_at start dt (k + 1))"
    by (simp add: producer_inv_def)
  moreover have "k + 1 \<le> 2 ^ 32" using assms(6) by simp
  ultimately show ?thesis using schedule_drift [OF assms(3) _ assms(7)] by presburger
qed

text \<open>
  C33: When the consumer thread of the throttled benchmark ends, it has popped all \<open>n\<close> items in
  order, its histograms hold the ages of all but the first \<open>warmup\<close> that \<open>record\<close> takes, and the count the producer
  returns is the number of items whose first push attempt found the queue full.
\<close>

theorem throttled_exact:
  assumes "slot_allocator allocate" "ours_new allocate cap = Inr s"
    and "throttled_reach (ours_try_push cap) (ours_try_pop cap) dt n accepts warmup capture_sys start s (b, p)"
    and "phase_of b = Finished" "n < 2 ^ 64"
  shows "length (sent b) = n \<and> map fst (got b) = sent b \<and>
    hist_of b = samples (ages accepts) (drop warmup (got b)) (throttled_hist capture_sys) \<and>
    (\<forall>r\<in>set_option (outcome p). unat (fst (snd r)) = full_first p)"
proof -
  note r = throttled_reached [OF assms(1-3)]
  from ours.bench_invD(2) [OF r(1)] assms(4) have d: "done_flag b" by blast
  from r(3) [OF d] have pe: "pc_of p = ProducerEnd" "items_left p = 0" by (simp_all add: producer_end_def)
  with r(2) have n: "length (sent b) = n" "full_pushes p = of_nat (full_first p)" "full_first p \<le> n"
    by (auto simp: producer_inv_def)
  have "full_first p < 2 ^ 64" using n(3) assms(5) by simp
  then have "unat (full_pushes p) = full_first p" unfolding n(2) by (simp only: unat_of_nat_usize mod_less)
  with r(4) n(1) ours.bench_invD(3,4) [OF r(1)] assms(4) show ?thesis by auto
qed

definition throttled_events :: "throttled_event list" where
  "throttled_events =
     map Producer [0, 103, 104, 0, 0, 200, 201, 0, 0, 300, 301, 0] @
     [Consumer 310, Producer 0, Producer 400, Producer 0, Consumer 410, Consumer 420,
      Consumer 430, Consumer 440, Consumer 450]"

definition demo_item_alloc :: "usize \<Rightarrow> global_options \<Rightarrow> fault + stamped global_allocation" where
  "demo_item_alloc = global_allocate demo_os 16 8"

lemma demo_item_allocator: "slot_allocator demo_item_alloc"
  unfolding demo_item_alloc_def by (rule galloc.slot_allocator_axioms)

lemma demo_dt: "dt_q32 10 3 = Some 14316557653"
  by code_simp

lemma demo_throttled_run:
  "map_option (map_sum id (\<lambda>(b, p).
       (phase_of b, map schedule_tsc (sent b), hist_of b, map_option (fst \<circ> snd) (outcome p), full_first p)))
     (case ours_new demo_item_alloc 2 of
        Inl f \<Rightarrow> None
      | Inr s \<Rightarrow> Some (throttled_run (ours_try_push 2) (ours_try_pop 2) 14316557653 (\<lambda>_. True) 1
          (bench_new s (throttled_hist True), tprod_new 3 100) throttled_events)) =
   Some (Inr (Finished, [103, 106, 109], ([304, 311], Some [209, 119]), Some 1, 1))"
  by code_simp

lemma demo_throttled:
  obtains s b p where "ours_new demo_item_alloc 2 = Inr s"
    "throttled_reach (ours_try_push 2) (ours_try_pop 2) 14316557653 3 (\<lambda>_. True) 1 True 100 s (b, p)"
    "phase_of b = Finished" "map schedule_tsc (sent b) = [103, 106, 109]"
    "hist_of b = ([304, 311], Some [209, 119])" "map_option (fst \<circ> snd) (outcome p) = Some 1"
proof -
  obtain s where s: "ours_new demo_item_alloc 2 = Inr s"
    using demo_throttled_run by (cases "ours_new demo_item_alloc 2") simp_all
  from demo_throttled_run obtain z where
    z: "throttled_run (ours_try_push 2) (ours_try_pop 2) 14316557653 (\<lambda>_. True) 1
        (bench_new s (throttled_hist True), tprod_new 3 100) throttled_events = Inr z"
      "(case z of (b, p) \<Rightarrow>
         (phase_of b, map schedule_tsc (sent b), hist_of b, map_option (fst \<circ> snd) (outcome p), full_first p)) =
       (Finished, [103, 106, 109], ([304, 311], Some [209, 119]), Some 1, 1)"
    unfolding s sum.case map_run_iff by blast
  obtain b p where "z = (b, p)" by (cases z)
  with z throttled_reach_run [OF throttled_init, of "ours_try_push 2" "ours_try_pop 2" 14316557653 "\<lambda>_. True" 1 s True 3 100
      throttled_events z]
  have reach: "throttled_reach (ours_try_push 2) (ours_try_pop 2) 14316557653 3 (\<lambda>_. True) 1 True 100 s (b, p)" by simp
  have "phase_of b = Finished" "map schedule_tsc (sent b) = [103, 106, 109]"
    "hist_of b = ([304, 311], Some [209, 119])" "map_option (fst \<circ> snd) (outcome p) = Some 1"
    using z(2) \<open>z = (b, p)\<close> by simp_all
  from that [OF s reach this] show thesis .
qed

theorem throttled_schedule_witness:
  "\<exists>s b p. ours_new demo_item_alloc 2 = Inr s \<and>
     throttled_reach (ours_try_push 2) (ours_try_pop 2) 14316557653 3 (\<lambda>_. True) 1 True 100 s (b, p) \<and>
     unat (schedule_tsc (sent b ! 2)) \<le> 110 \<and> 110 \<le> unat (schedule_tsc (sent b ! 2)) + 1"
proof -
  obtain s b p where d: "ours_new demo_item_alloc 2 = Inr s"
    "throttled_reach (ours_try_push 2) (ours_try_pop 2) 14316557653 3 (\<lambda>_. True) 1 True 100 s (b, p)"
    "map schedule_tsc (sent b) = [103, 106, 109]"
    by (rule demo_throttled)
  have len: "2 < length (sent b)" using arg_cong [OF d(3), of length] by simp
  have "unat (100 :: u64) + (2 + 1) * unat (10 :: u64) div unat (3 :: u64) < 2 ^ 64" by simp
  from throttled_schedule [OF demo_item_allocator d(1) demo_dt d(2) len _ this]
  have "unat (schedule_tsc (sent b ! 2)) \<le> 110 \<and> 110 \<le> unat (schedule_tsc (sent b ! 2)) + 1" by simp
  with d(1,2) show ?thesis by blast
qed

theorem throttled_exact_witness:
  "\<exists>s b p. ours_new demo_item_alloc 2 = Inr s \<and>
     throttled_reach (ours_try_push 2) (ours_try_pop 2) 14316557653 3 (\<lambda>_. True) 1 True 100 s (b, p) \<and>
     phase_of b = Finished \<and> map schedule_tsc (map fst (got b)) = [103, 106, 109] \<and> full_first p = 1"
proof -
  obtain s b p where d: "ours_new demo_item_alloc 2 = Inr s"
    "throttled_reach (ours_try_push 2) (ours_try_pop 2) 14316557653 3 (\<lambda>_. True) 1 True 100 s (b, p)"
    "phase_of b = Finished" "map schedule_tsc (sent b) = [103, 106, 109]"
    "map_option (fst \<circ> snd) (outcome p) = Some 1"
    by (rule demo_throttled)
  have "(3 :: nat) < 2 ^ 64" by simp
  from throttled_exact [OF demo_item_allocator d(1-3) this] have
    "map fst (got b) = sent b" "\<forall>r\<in>set_option (outcome p). unat (fst (snd r)) = full_first p" by auto
  with d(4,5) have "map schedule_tsc (map fst (got b)) = [103, 106, 109]" "full_first p = 1" by auto
  with d(1-3) show ?thesis by (intro exI conjI)
qed

text \<open>
  A rate is flagged saturated exactly when more than one per cent of its items met a full queue
  or the producer ended more than the larger of 10 ms and 100 periods behind, as computed without
  overflow; a flagged rate keeps no system histogram, so the branch of \<open>print_rate\<close> that would say
  so is never taken.
\<close>

theorem throttled_saturation:
  assumes "throttled_result_of tsc_hz rate n (elapsed, full, lag) hists deltas = Some r"
    and "unat n < 2 ^ 64 - 1" "unat lag * 1000000000 div unat tsc_hz < 2 ^ 64"
  shows "(saturated r \<longleftrightarrow> unat n < 100 * unat full \<or>
      max 10000000 (100 * max 1 (1000000000 div unat rate)) < unat lag * 1000000000 div unat tsc_hz) \<and>
    (saturated r \<longrightarrow> sys_hist r = None) \<and> print_sys r \<noteq> Suppressed"
proof -
  from assms(1) have nz: "tsc_hz \<noteq> 0" by (auto simp: throttled_result_of_def to_ns_def split: if_splits)
  let ?lag = "of_nat (unat lag * 1000000000 div unat tsc_hz) :: u64"
  have ns: "unat ?lag = unat lag * 1000000000 div unat tsc_hz"
    using assms(3) by (simp only: unat_of_nat_usize mod_less)
  from assms(1) nz have r: "saturated r = is_saturated rate n full ?lag"
    "sys_hist r = (if saturated r then None else snd hists)"
    by (auto simp: throttled_result_of_def to_ns_def Let_def split: if_splits)
  have "n < saturating_mul full 100 \<longleftrightarrow> unat n < 100 * unat full"
    using assms(2) by (simp add: word_less_nat_alt unat_saturating_mul mult.commute)
  with r(1) ns have "saturated r \<longleftrightarrow> unat n < 100 * unat full \<or>
      max 10000000 (100 * max 1 (1000000000 div unat rate)) < unat lag * 1000000000 div unat tsc_hz"
    by (simp only: is_saturated_def period_ns_def)
  moreover have "saturated r \<longrightarrow> sys_hist r = None" using r(2) by simp
  moreover from this have "print_sys r \<noteq> Suppressed" by (simp add: print_sys_def split: option.split)
  ultimately show ?thesis by blast
qed

theorem throttled_saturation_witness:
  "\<exists>r. throttled_result_of 1000000000 1000 500 (600, 6, 7) ([] :: u64 list, Some []) [] = Some r \<and>
     saturated r \<and> sys_hist r = None"
proof -
  let ?r = "throttled_result_of 1000000000 1000 500 (600, 6, 7) ([] :: u64 list, Some []) []"
  have "map_option saturated ?r = Some True"
    by (simp add: throttled_result_of_def to_ns_def is_saturated_def saturating_mul_def Let_def word_less_nat_alt)
  then obtain r where r: "?r = Some r" "saturated r" by auto
  have "unat (500 :: u64) < 2 ^ 64 - 1" "unat (7 :: u64) * 1000000000 div unat (1000000000 :: u64) < 2 ^ 64"
    by simp_all
  from throttled_saturation [OF r(1) this] r show ?thesis by blast
qed

text \<open>
  The number of items of a rate lies within the configured bounds (a run is refused with a
  panic when they are the wrong way round or the warmup divisor is zero), it is the rate times the
  target time when that lies between them, and the warmup is no more than the number of items.
\<close>

theorem throttled_items_clamped:
  assumes "items_and_warmup cfg rate = Some (n, warmup)"
  shows "min_n cfg \<le> n \<and> n \<le> max_n cfg \<and> unat warmup = unat n div unat (warmup_divisor cfg) \<and>
    (unat (min_n cfg) \<le> unat rate * unat (target_secs cfg) \<and>
     unat rate * unat (target_secs cfg) \<le> unat (max_n cfg) \<longrightarrow> unat n = unat rate * unat (target_secs cfg))"
proof -
  let ?m = "saturating_mul rate (target_secs cfg)"
  from assms have n: "n = max (min_n cfg) (min (max_n cfg) ?m)" "min_n cfg \<le> max_n cfg"
    "warmup = n div warmup_divisor cfg"
    by (auto simp: items_and_warmup_def Let_def split: if_splits)
  then have "min_n cfg \<le> n" "n \<le> max_n cfg" by simp_all
  moreover have "unat n = unat rate * unat (target_secs cfg)"
    if "unat (min_n cfg) \<le> unat rate * unat (target_secs cfg)"
      "unat rate * unat (target_secs cfg) \<le> unat (max_n cfg)"
  proof -
    have "unat (max_n cfg) < 2 ^ 64" using unsigned_less [of "max_n cfg"] by simp
    with that(2) have m: "unat ?m = unat rate * unat (target_secs cfg)" by (simp add: unat_saturating_mul)
    with that have "min_n cfg \<le> ?m" "?m \<le> max_n cfg" by (simp_all add: word_le_nat_alt)
    then have "n = ?m" unfolding n(1) by (simp add: max_def min_def)
    with m show ?thesis by simp
  qed
  ultimately show ?thesis using n(3) by (simp add: unat_div)
qed

theorem throttled_items_clamped_witness:
  "\<exists>n warmup. items_and_warmup default_throttled_cfg 10000000 = Some (n, warmup) \<and> unat n = 30000000 \<and>
     unat warmup = 3000000"
proof -
  have "items_and_warmup default_throttled_cfg 10000000 = Some (30000000, 3000000)"
    by (simp add: items_and_warmup_def default_throttled_cfg_def saturating_mul_def Let_def)
  from this throttled_items_clamped [OF this] show ?thesis by (simp add: default_throttled_cfg_def)
qed

end
