(* ===== verification/Bench_Programs.thy ===== *)
theory Bench_Programs
  imports Bench_Runs Bench_Spsc Bench_Spmc
begin

text \<open>
  The threads of every cross-core benchmark as one program: how it starts (\<open>Bench_Threads\<close>), its body
  and the first state of its body. The handoff bodies are those of \<open>Bench_Runs\<close>, on weak memory; the
  throttled, lapped and capacity bodies are the loops of \<open>Bench_Spsc\<close> and \<open>Bench_Spmc\<close>, over calls.
\<close>

record ('s, 'e) bench_program =
  bp_start :: bench_start
  bp_body :: "('s, 'e) bench_body"
  bp_new :: 's

definition program_reach :: "('s, 'e) bench_program \<Rightarrow> 's threads \<Rightarrow> bool" where
  "program_reach p s \<longleftrightarrow> th_reach (bp_start p) (bp_body p) (bp_new p) s"

definition program_step :: "('s, 'e) bench_program \<Rightarrow> 's threads \<Rightarrow> 'e th_event \<Rightarrow> (fault + 's threads) option" where
  "program_step p = th_step (bp_start p) (bp_body p)"

text \<open>\<open>producer_core\<close> and \<open>consumer_core\<close> with what the operating system answers, and a barrier of three.\<close>

definition harness_start :: "pin \<Rightarrow> pin \<Rightarrow> bench_start" where
  "harness_start p c = \<lparr>main_waits = True, producer_pin = p, consumer_pin = c\<rparr>"

definition spsc_handoff_program :: "pin \<Rightarrow> pin \<Rightarrow> usize \<Rightarrow> (u64 \<Rightarrow> bool) \<Rightarrow> handoff_cfg \<Rightarrow> (hand, hand_event) bench_program" where
  "spsc_handoff_program p c cap accepts cfg =
     \<lparr>bp_start = harness_start p c, bp_body = hand_body cap accepts (cfg_warmup cfg), bp_new = hand_new cap (cfg_n cfg)\<rparr>"

definition spmc_handoff_program :: "pin \<Rightarrow> pin \<Rightarrow> usize \<Rightarrow> (u64 \<Rightarrow> bool) \<Rightarrow> spmc_handoff_cfg \<Rightarrow> (cast, cast_event) bench_program" where
  "spmc_handoff_program p c cap accepts cfg =
     \<lparr>bp_start = harness_start p c, bp_body = cast_body cap accepts (sh_warmup cfg), bp_new = cast_new (sh_n cfg)\<rparr>"

text \<open>In the seqlock benchmark the barrier is of the two threads, and \<open>main\<close> goes to the joins.\<close>

definition seqlock_program :: "pin \<Rightarrow> pin \<Rightarrow> (u64 \<Rightarrow> bool) \<Rightarrow> sl_bench_cfg \<Rightarrow> (sl_bench, sl_bench_event) bench_program" where
  "seqlock_program w r accepts cfg =
     \<lparr>bp_start = \<lparr>main_waits = False, producer_pin = w, consumer_pin = r\<rparr>, bp_body = sl_body accepts (sb_warmup cfg),
      bp_new = sl_bench_new (sb_n cfg)\<rparr>"

text \<open>\<open>measure_at_rate\<close>, from the clock \<open>start\<close> that the producer reads after the barrier.\<close>

fun throttled_consumer_event :: "throttled_event \<Rightarrow> bool" where
  "throttled_consumer_event (Consumer now) = True"
| "throttled_consumer_event (Producer now) = False"

definition throttled_body ::
  "usize \<Rightarrow> u128 \<Rightarrow> (u64 \<Rightarrow> bool) \<Rightarrow> nat \<Rightarrow>
     ((stamped spsc, stamped, u64 list \<times> u64 list option) bench \<times> tprod, throttled_event) bench_body" where
  "throttled_body cap dt accepts warmup =
     \<lparr>bb_step = (\<lambda>s e. Some (throttled_step (ours_try_push cap) (ours_try_pop cap) dt accepts warmup s e)),
      bb_mine = throttled_consumer_event, bb_p_end = (\<lambda>s. pc_of (snd s) = ProducerEnd),
      bb_c_end = (\<lambda>s. phase_of (fst s) = Finished)\<rparr>"

definition throttled_program ::
  "pin \<Rightarrow> pin \<Rightarrow> usize \<Rightarrow> u128 \<Rightarrow> nat \<Rightarrow> (u64 \<Rightarrow> bool) \<Rightarrow> nat \<Rightarrow> bool \<Rightarrow> u64 \<Rightarrow> stamped spsc \<Rightarrow>
     ((stamped spsc, stamped, u64 list \<times> u64 list option) bench \<times> tprod, throttled_event) bench_program" where
  "throttled_program p c cap dt n accepts warmup capture_sys start q =
     \<lparr>bp_start = harness_start p c, bp_body = throttled_body cap dt accepts warmup,
      bp_new = (bench_new q (throttled_hist capture_sys), tprod_new n start)\<rparr>"

text \<open>\<open>measure\<close> of the lapped benchmark and one capacity of the capacity sweep.\<close>

fun window_consumer_event :: "thread_event \<Rightarrow> bool" where
  "window_consumer_event (Cons now) = True"
| "window_consumer_event (Prod now) = False"

definition lapped_program ::
  "pin \<Rightarrow> pin \<Rightarrow> usize \<Rightarrow> u64 \<Rightarrow> u64 bqueue \<Rightarrow> bconsumer \<Rightarrow>
     ((u64 bqueue, bconsumer, u64) run \<times> wprod \<times> lcons, thread_event) bench_program" where
  "lapped_program p c cap stop_at q k =
     \<lparr>bp_start = harness_start p c,
      bp_body = \<lparr>bb_step = two_threads (window_producer_step (ours_try_publish cap) stop_at) (lapped_consumer_step (ours_try_read cap)),
        bb_mine = window_consumer_event, bb_p_end = (\<lambda>(st, w, l). wp_pc w = Ended), bb_c_end = (\<lambda>(st, w, l). l_phase l = Returned)\<rparr>,
      bp_new = (run_new q k, wprod_new, lcons_new)\<rparr>"

definition capacity_program ::
  "pin \<Rightarrow> pin \<Rightarrow> usize \<Rightarrow> u64 \<Rightarrow> u64 bqueue \<Rightarrow> bconsumer \<Rightarrow>
     ((u64 bqueue, bconsumer, u64) run \<times> wprod \<times> ccons, thread_event) bench_program" where
  "capacity_program p c cap stop_at q k =
     \<lparr>bp_start = harness_start p c,
      bp_body = \<lparr>bb_step = two_threads (retry_producer_step (ours_try_publish cap) stop_at) (capacity_consumer_step (ours_try_read cap)),
        bb_mine = window_consumer_event, bb_p_end = (\<lambda>(st, w, l). wp_pc w = Ended), bb_c_end = (\<lambda>(st, w, l). c_phase l = Returned)\<rparr>,
      bp_new = (run_new q k, wprod_new, ccons_new)\<rparr>"

section \<open>The throttled body is correct\<close>

abbreviation throttled_ok ::
  "usize \<Rightarrow> u128 \<Rightarrow> nat \<Rightarrow> (u64 \<Rightarrow> bool) \<Rightarrow> nat \<Rightarrow> bool \<Rightarrow> u64 \<Rightarrow>
     (stamped spsc, stamped, u64 list \<times> u64 list option) bench \<times> tprod \<Rightarrow> bool" where
  "throttled_ok cap dt n accepts warmup capture_sys start s \<equiv>
     ours_stamped.throttled_inv cap dt n accepts warmup capture_sys start (fst s) (snd s)"

definition throttled_final ::
  "nat \<Rightarrow> (u64 \<Rightarrow> bool) \<Rightarrow> nat \<Rightarrow> bool \<Rightarrow> (stamped spsc, stamped, u64 list \<times> u64 list option) bench \<times> tprod \<Rightarrow> bool" where
  "throttled_final n accepts warmup capture_sys s \<longleftrightarrow>
     length (sent (fst s)) = n \<and> map fst (got (fst s)) = sent (fst s) \<and>
     hist_of (fst s) = samples (ages accepts) (drop warmup (got (fst s))) (throttled_hist capture_sys)"

lemma producer_step_frame:
  assumes "producer_step try_push dt now (b, p) = Inr (b', p')"
  shows "phase_of b' = phase_of b" "pc_of p = ProducerEnd \<longrightarrow> pc_of p' = ProducerEnd"
proof -
  show "phase_of b' = phase_of b"
  proof (cases "pc_of p")
    case (TryItem it was_full)
    with assms show ?thesis by (cases "try_push (queue_of b) it") (auto simp: producer_step_def split: sum.splits)
  qed (use assms in \<open>auto simp: producer_step_def Let_def split: if_splits\<close>)
  show "pc_of p = ProducerEnd \<longrightarrow> pc_of p' = ProducerEnd" using assms by (auto simp: producer_step_def)
qed

lemma throttled_step_ok:
  assumes inv: "throttled_ok cap dt n accepts warmup capture_sys start s"
  shows "\<exists>s'. throttled_step (ours_try_push cap) (ours_try_pop cap) dt accepts warmup s e = Inr s' \<and>
    throttled_ok cap dt n accepts warmup capture_sys start s' \<and>
    (pc_of (snd s) = ProducerEnd \<longrightarrow> pc_of (snd s') = ProducerEnd) \<and>
    (phase_of (fst s) = Finished \<longrightarrow> phase_of (fst s') = Finished)"
proof (cases e)
  case (Producer now)
  from ours_stamped.throttled_producer_inv [OF inv, of now] obtain b' p' where
    st: "producer_step (ours_try_push cap) dt now (fst s, snd s) = Inr (b', p')"
    and inv': "throttled_ok cap dt n accepts warmup capture_sys start (b', p')" by auto
  note frame = producer_step_frame [OF st]
  with st inv' Producer frame show ?thesis by (intro exI [of _ "(b', p')"]) simp
next
  case (Consumer now)
  from inv have "ours.bench_inv cap (ages accepts) warmup (throttled_hist capture_sys) (fst s)"
    by (simp add: ours_stamped.throttled_inv_def)
  from ours.consumer_step_inv [OF this, of now] obtain b' where
    b': "consumer_step (ours_try_pop cap) (ages accepts) warmup now (fst s) = Inr b'"
      "ours.bench_inv cap (ages accepts) warmup (throttled_hist capture_sys) b'" "sent b' = sent (fst s)"
      "done_flag b' = done_flag (fst s)" by blast
  have "phase_of (fst s) = Finished \<longrightarrow> phase_of b' = Finished" using b'(1) by (auto simp: consumer_step_def)
  with b' Consumer inv show ?thesis
    by (intro exI [of _ "(b', snd s)"]) (simp add: ours_stamped.throttled_inv_def)
qed

interpretation throttled_run: correct_body "throttled_body cap dt accepts warmup" "throttled_ok cap dt n accepts warmup capture_sys start"
    "throttled_final n accepts warmup capture_sys"
  for cap dt n accepts warmup capture_sys start
proof unfold_locales
  fix x e r
  assume inv: "throttled_ok cap dt n accepts warmup capture_sys start x"
  note st = throttled_step_ok [OF inv]
  { assume "bb_step (throttled_body cap dt accepts warmup) x e = Some r"
    with st [of e] show "\<exists>x'. r = Inr x' \<and> throttled_ok cap dt n accepts warmup capture_sys start x'"
      by (auto simp: throttled_body_def) }
  { show "\<exists>e r. \<not> bb_mine (throttled_body cap dt accepts warmup) e \<and> bb_step (throttled_body cap dt accepts warmup) x e = Some r"
      by (intro exI [of _ "Producer 0"]) (simp add: throttled_body_def) }
  { show "\<exists>e r. bb_mine (throttled_body cap dt accepts warmup) e \<and> bb_step (throttled_body cap dt accepts warmup) x e = Some r"
      by (intro exI [of _ "Consumer 0"]) (simp add: throttled_body_def) }
  { assume "bb_c_end (throttled_body cap dt accepts warmup) x"
    then have fin: "phase_of (fst x) = Finished" by (simp add: throttled_body_def)
    from inv have b: "ours.bench_inv cap (ages accepts) warmup (throttled_hist capture_sys) (fst x)"
      and p: "producer_inv dt n start (sent (fst x)) (snd x)" "done_flag (fst x) \<longrightarrow> producer_end (snd x)"
      by (simp_all add: ours_stamped.throttled_inv_def)
    from ours.bench_invD(2) [OF b] fin have "done_flag (fst x)" by blast
    with p ours.bench_invD(3,4) [OF b] fin show "throttled_final n accepts warmup capture_sys x"
      by (simp add: throttled_final_def producer_inv_def producer_end_def) }
  fix x'
  assume "bb_step (throttled_body cap dt accepts warmup) x e = Some (Inr x')"
  with st [of e] show "(bb_p_end (throttled_body cap dt accepts warmup) x \<longrightarrow> bb_p_end (throttled_body cap dt accepts warmup) x') \<and>
      (bb_c_end (throttled_body cap dt accepts warmup) x \<longrightarrow> bb_c_end (throttled_body cap dt accepts warmup) x')"
    by (auto simp: throttled_body_def)
qed

section \<open>Properties\<close>

definition demo_pin :: "usize \<Rightarrow> bool \<Rightarrow> pin" where
  "demo_pin core ok = \<lparr>set_for_current = ok, sched_getcpu = ucast core, core_id = core\<rparr>"

text \<open>Pin and wait, the last caller opens the barrier; the body; the threads end and are joined.\<close>

definition start_events :: "'e th_event list" where
  "start_events = [PStep, CStep, CStep, PStep, MStep, PStep, CStep]"

definition end_events :: "'e th_event list" where
  "end_events = [PStep, MStep, CStep, MStep]"

definition hand_run_events :: "hand_event th_event list" where
  "hand_run_events =
     start_events @
     map BodyStep [HandPush 10, HandPushStep 0, HandPushStep 0, HandStoreDone, HandPop, HandPopStep 0 0, HandLoadDone True,
       HandPop, HandPopStep 1 0, HandPopStep 0 0, HandPopStep 0 17, HandPop, HandPopStep 1 0] @ end_events"

definition demo_spsc_program :: "bool \<Rightarrow> (hand, hand_event) bench_program" where
  "demo_spsc_program ok =
     spsc_handoff_program (demo_pin 2 True) (demo_pin 3 ok) 2 (\<lambda>_. True) \<lparr>cfg_n = 1, cfg_warmup = 0\<rparr>"

definition demo_spmc_program :: "(cast, cast_event) bench_program" where
  "demo_spmc_program =
     spmc_handoff_program (demo_pin 2 True) (demo_pin 3 True) 2 (\<lambda>_. True) \<lparr>sh_n = 1, sh_warmup = 0, producer_pace_cycles = 0\<rparr>"

definition program_run :: "('s, 'e) bench_program \<Rightarrow> 'e th_event list \<Rightarrow> (fault + 's threads) option" where
  "program_run p = th_run (bp_start p) (bp_body p) (th_new (bp_start p) (bp_new p))"

lemma program_reach_run: "program_run p es = Some (Inr s) \<Longrightarrow> program_reach p s"
  unfolding program_run_def program_reach_def by (rule th_reach_run [OF th_init])

lemma program_run_iff:
  "map_option (map_sum id f) (program_run p es) = Some (Inr y) \<longleftrightarrow> (\<exists>s. program_run p es = Some (Inr s) \<and> f s = y)"
  by (auto simp: map_option_case map_sum_def split: option.splits sum.splits)

lemma demo_hand_program:
  "map_option (map_sum id (\<lambda>s. (th_main s, hd_hist (th_body s)))) (program_run (demo_spsc_program True) hand_run_events) =
   Some (Inr (MainReport, [7]))"
  by code_simp

lemma demo_hand_failed:
  "map_option (map_sum id (\<lambda>s. (th_main s, start_rank s)))
     (program_run (demo_spsc_program False) [PStep, CStep, MStep, PStep]) = Some (Inr (MainBarrier 0, 0))"
  by code_simp

definition cast_run_events :: "cast_event th_event list" where
  "cast_run_events = start_events @ map BodyStep cast_events @ end_events"

lemma demo_cast_program:
  "map_option (map_sum id (\<lambda>s. (th_main s, h_hist (ca_cons (th_body s))))) (program_run demo_spmc_program cast_run_events) =
   Some (Inr (MainReport, [7]))"
  by code_simp

text \<open>C16: The SPSC handoff benchmark from the spawning of its threads to the joins, when both threads are pinned
  where requested: no step faults, \<open>main\<close> does not panic, as long as \<open>main\<close> has not both results some
  thread can go on, and when it has them all \<open>n\<close> stamps were received in order and the histogram holds,
  of the ages of all but the first \<open>warmup\<close>, those that \<open>record\<close> takes, in order.
\<close>

theorem spsc_handoff_runs:
  assumes "is_power_of_two cap" "pinned p" "pinned c" "program_reach (spsc_handoff_program p c cap accepts cfg) s"
  shows "program_step (spsc_handoff_program p c cap accepts cfg) s e \<noteq> Some (Inl f) \<and> th_main s \<noteq> MainPanic \<and>
    (th_main s \<noteq> MainReport \<longrightarrow> (\<exists>e s'. program_step (spsc_handoff_program p c cap accepts cfg) s e = Some (Inr s'))) \<and>
    (th_main s = MainReport \<longrightarrow>
       length (sp.sent (hd_queue (th_body s))) = cfg_n cfg \<and> sp.got (hd_queue (th_body s)) = sp.sent (hd_queue (th_body s)) \<and>
       hd_hist (th_body s) =
         filter accepts (map (\<lambda>(ts, now). now - ts) (drop (cfg_warmup cfg) (zip (sp.sent (hd_queue (th_body s))) (hd_times (th_body s))))))"
proof (intro conjI impI)
  let ?body = "hand_body cap accepts (cfg_warmup cfg)" and ?st = "harness_start p c"
  note init = hand_new_inv [OF assms(1), of "cfg_n cfg" accepts "cfg_warmup cfg"]
  have reach: "th_reach ?st ?body (hand_new cap (cfg_n cfg)) s"
    using assms(4) by (simp add: program_reach_def spsc_handoff_program_def)
  have pins: "pinned (producer_pin ?st)" "pinned (consumer_pin ?st)" using assms(2,3) by (simp_all add: harness_start_def)
  have step: "program_step (spsc_handoff_program p c cap accepts cfg) = th_step ?st ?body"
    by (simp add: program_step_def spsc_handoff_program_def)
  show "program_step (spsc_handoff_program p c cap accepts cfg) s e \<noteq> Some (Inl f)"
    unfolding step by (rule spsc_run.run_no_fault [OF reach init])
  show "th_main s \<noteq> MainPanic" by (rule pinned_no_panic [OF reach pins(1)])
  { assume "th_main s \<noteq> MainReport"
    from spsc_run.run_not_stuck [OF reach init pins this] spsc_run.run_step [OF spsc_run.run_reach [OF reach init]]
    show "\<exists>e s'. program_step (spsc_handoff_program p c cap accepts cfg) s e = Some (Inr s')" unfolding step by blast }
  assume "th_main s = MainReport"
  from spsc_run.run_final [OF reach init this] show "length (sp.sent (hd_queue (th_body s))) = cfg_n cfg"
    "sp.got (hd_queue (th_body s)) = sp.sent (hd_queue (th_body s))"
    "hd_hist (th_body s) =
       filter accepts (map (\<lambda>(ts, now). now - ts) (drop (cfg_warmup cfg) (zip (sp.sent (hd_queue (th_body s))) (hd_times (th_body s)))))"
    by (simp_all add: hand_final_def)
qed

theorem spsc_handoff_runs_witness:
  "\<exists>s. program_reach (demo_spsc_program True) s \<and> th_main s = MainReport \<and>
     length (sp.got (hd_queue (th_body s))) = 1 \<and> hd_hist (th_body s) = [7]"
proof -
  from demo_hand_program [unfolded program_run_iff] obtain s where s: "program_run (demo_spsc_program True) hand_run_events = Some (Inr s)"
    "th_main s = MainReport" "hd_hist (th_body s) = [7]" by auto
  from program_reach_run [OF s(1)] have reach: "program_reach (demo_spsc_program True) s" .
  have "pinned (demo_pin 2 True)" "pinned (demo_pin 3 True)" by code_simp+
  from spsc_handoff_runs [OF demo_two_power this reach [unfolded demo_spsc_program_def]] s reach show ?thesis by auto
qed

text \<open>The SPMC handoff benchmark from the spawning of its threads to the joins, when both threads are pinned:
  \<open>main\<close> does not panic, as long as it has not both results some thread can go on, and when it has
  them all \<open>n\<close> stamps were published and each was received, in order, or announced as skipped.
\<close>

theorem spmc_handoff_runs:
  assumes "is_power_of_two cap" "sh_n cfg \<le> 2 ^ 63" "pinned p" "pinned c"
    "program_reach (spmc_handoff_program p c cap accepts cfg) s"
  shows "th_main s \<noteq> MainPanic \<and>
    (th_main s \<noteq> MainReport \<longrightarrow> (\<exists>e s'. program_step (spmc_handoff_program p c cap accepts cfg) s e = Some (Inr s'))) \<and>
    (th_main s = MainReport \<longrightarrow>
       length (published (ca_queue (th_body s))) = sh_n cfg \<and>
       subseq (s_received (map fst (ca_log (th_body s)))) (map hd (published (ca_queue (th_body s)))) \<and>
       length (s_received (map fst (ca_log (th_body s)))) + s_skipped (map fst (ca_log (th_body s))) = sh_n cfg)"
proof (intro conjI impI)
  let ?body = "cast_body cap accepts (sh_warmup cfg)" and ?st = "harness_start p c"
  have init: "cast_inv cap (sh_n cfg) accepts (sh_warmup cfg) (cast_new (sh_n cfg)) \<and> sh_n cfg \<le> 2 ^ 63"
    using cast_new_inv [OF assms(1)] assms(2) by blast
  have reach: "th_reach ?st ?body (cast_new (sh_n cfg)) s"
    using assms(5) by (simp add: program_reach_def spmc_handoff_program_def)
  have pins: "pinned (producer_pin ?st)" "pinned (consumer_pin ?st)" using assms(3,4) by (simp_all add: harness_start_def)
  have step: "program_step (spmc_handoff_program p c cap accepts cfg) = th_step ?st ?body"
    by (simp add: program_step_def spmc_handoff_program_def)
  show "th_main s \<noteq> MainPanic" by (rule pinned_no_panic [OF reach pins(1)])
  { assume "th_main s \<noteq> MainReport"
    from spmc_run.run_not_stuck [OF reach init pins this] spmc_run.run_step [OF spmc_run.run_reach [OF reach init]]
    show "\<exists>e s'. program_step (spmc_handoff_program p c cap accepts cfg) s e = Some (Inr s')" unfolding step by blast }
  assume "th_main s = MainReport"
  from spmc_run.run_final [OF reach init this] show "length (published (ca_queue (th_body s))) = sh_n cfg"
    "subseq (s_received (map fst (ca_log (th_body s)))) (map hd (published (ca_queue (th_body s))))"
    "length (s_received (map fst (ca_log (th_body s)))) + s_skipped (map fst (ca_log (th_body s))) = sh_n cfg"
    by (simp_all add: cast_final_def)
qed

theorem spmc_handoff_runs_witness:
  "\<exists>s. program_reach demo_spmc_program s \<and> th_main s = MainReport \<and>
     length (published (ca_queue (th_body s))) = 1 \<and> h_hist (ca_cons (th_body s)) = [7]"
proof -
  from demo_cast_program [unfolded program_run_iff] obtain s where s: "program_run demo_spmc_program cast_run_events = Some (Inr s)"
    "th_main s = MainReport" "h_hist (ca_cons (th_body s)) = [7]" by auto
  from program_reach_run [OF s(1)] have reach: "program_reach demo_spmc_program s" .
  have "pinned (demo_pin 2 True)" "pinned (demo_pin 3 True)" by code_simp+
  from spmc_handoff_runs [OF demo_two_power _ this reach [unfolded demo_spmc_program_def]] s reach show ?thesis by auto
qed

text \<open>The seqlock benchmark and one rate of the throttled benchmark likewise.\<close>

theorem seqlock_program_runs:
  assumes "pinned w" "pinned r" "program_reach (seqlock_program w r accepts cfg) s"
  shows "th_main s \<noteq> MainPanic \<and>
    (th_main s \<noteq> MainReport \<longrightarrow> (\<exists>e x. program_step (seqlock_program w r accepts cfg) s e = Some x)) \<and>
    (th_main s = MainReport \<longrightarrow> sl_final accepts cfg (th_body s))"
proof -
  let ?st = "\<lparr>main_waits = False, producer_pin = w, consumer_pin = r\<rparr>"
  have reach: "th_reach ?st (sl_body accepts (sb_warmup cfg)) (sl_bench_new (sb_n cfg)) s"
    using assms(3) by (simp add: program_reach_def seqlock_program_def)
  have pins: "pinned (producer_pin ?st)" "pinned (consumer_pin ?st)" using assms(1,2) by simp_all
  from pinned_no_panic [OF reach pins(1)] seqlock_run.run_not_stuck [OF reach sl_bench_init pins]
    seqlock_run.run_final [OF reach sl_bench_init]
  show ?thesis by (simp add: program_step_def seqlock_program_def)
qed

theorem throttled_program_runs:
  assumes "slot_allocator allocate" "ours_new allocate cap = Inr q" "pinned p" "pinned c"
    "program_reach (throttled_program p c cap dt n accepts warmup capture_sys start q) s"
  shows "th_main s \<noteq> MainPanic \<and>
    (th_main s \<noteq> MainReport \<longrightarrow> (\<exists>e x. program_step (throttled_program p c cap dt n accepts warmup capture_sys start q) s e = Some x)) \<and>
    (th_main s = MainReport \<longrightarrow> throttled_final n accepts warmup capture_sys (th_body s))"
proof -
  have init: "throttled_ok cap dt n accepts warmup capture_sys start (bench_new q (throttled_hist capture_sys), tprod_new n start)"
    using ours_stamped.throttled_reach_inv [OF throttled_init ours_new_rep [OF assms(1,2)]] by simp
  have reach: "th_reach (harness_start p c) (throttled_body cap dt accepts warmup) (bench_new q (throttled_hist capture_sys), tprod_new n start) s"
    using assms(5) by (simp add: program_reach_def throttled_program_def)
  have pins: "pinned (producer_pin (harness_start p c))" "pinned (consumer_pin (harness_start p c))"
    using assms(3,4) by (simp_all add: harness_start_def)
  from pinned_no_panic [OF reach pins(1)] throttled_run.run_not_stuck [OF reach init pins] throttled_run.run_final [OF reach init]
  show ?thesis by (simp add: program_step_def throttled_program_def)
qed

text \<open>C17: A thread that cannot be pinned does not make its benchmark panic, as the documentation of the harness
  says, but hang: if an assertion of either thread fails, \<open>main\<close> never gets a result and, where it waits
  at the barrier or the failing thread is the consumer, never panics either; the measurement does not
  start, and every run comes to a standstill within five steps. This holds for each of the programs.
\<close>

theorem failed_pin_hangs:
  assumes "program_reach p s" "\<not> (pinned (producer_pin (bp_start p)) \<and> pinned (consumer_pin (bp_start p)))"
  shows "th_main s \<noteq> MainReport \<and>
    (main_waits (bp_start p) \<or> pinned (producer_pin (bp_start p)) \<longrightarrow> th_main s \<noteq> MainPanic) \<and>
    th_body s = bp_new p \<and> start_rank s \<le> 5 \<and>
    (\<forall>e r. program_step p s e = Some r \<longrightarrow> (\<exists>s'. r = Inr s' \<and> start_rank s' < start_rank s))"
proof -
  note reach = assms(1) [unfolded program_reach_def] and u = unpinned_before [OF assms(1) [unfolded program_reach_def] assms(2)]
  have "th_main s \<noteq> MainReport" "main_waits (bp_start p) \<longrightarrow> th_main s \<noteq> MainPanic"
    using before_openD(3) [OF u(2)] by (auto split: if_splits)
  moreover have "pinned (producer_pin (bp_start p)) \<longrightarrow> th_main s \<noteq> MainPanic" using pinned_no_panic [OF reach] by blast
  ultimately show ?thesis
    using unpinned_body [OF reach assms(2)] start_rank_le [OF u(2)] failed_pin_step [OF u assms(2)]
    unfolding program_step_def by blast
qed

theorem failed_pin_hangs_witness:
  "\<exists>s. program_reach (demo_spsc_program False) s \<and> th_main s = MainBarrier 0 \<and>
     (\<forall>e. program_step (demo_spsc_program False) s e = None)"
proof -
  from demo_hand_failed [unfolded program_run_iff] obtain s where
    s: "program_run (demo_spsc_program False) [PStep, CStep, MStep, PStep] = Some (Inr s)"
      "th_main s = MainBarrier 0" "start_rank s = 0" by auto
  from program_reach_run [OF s(1)] have reach: "program_reach (demo_spsc_program False) s" .
  have "\<not> (pinned (producer_pin (bp_start (demo_spsc_program False))) \<and> pinned (consumer_pin (bp_start (demo_spsc_program False))))"
    by code_simp
  from failed_pin_hangs [OF reach this] s(3) have "program_step (demo_spsc_program False) s e = None" for e
    by (cases "program_step (demo_spsc_program False) s e") auto
  with reach s(2) show ?thesis by blast
qed

end
