(* ===== verification/Scenarios.thy ===== *)
theory Scenarios
  imports Spsc_Queue Spmc_Progress Seqlock
begin

text \<open>
  The scenarios the crate ships with: the smoke binary \<open>bin/smoke.rs\<close>, the basic tests of the
  three structures and the two-thread transfers of the loom tests and of the \<open>hello\<close> examples.
  A test is the list of its calls with the answers it asserts; running it stops at the first
  fault or failed assertion.
\<close>

section \<open>Construction options\<close>

text \<open>\<open>Options::global_mlocked\<close> of \<open>spsc/builder.rs\<close> and \<open>spmc/builder.rs\<close>.\<close>

record 'o options =
  alloc :: 'o

definition global_mlocked :: "global_options options" where
  "global_mlocked = \<lparr>alloc = \<lparr>g_mlock = True\<rparr>\<rparr>"

section \<open>Tests of the SPSC queue\<close>

datatype 'a expect = Expect "'a answer" | ExpectSome | Ignore

fun meets :: "'a expect \<Rightarrow> 'a answer \<Rightarrow> bool" where
  "meets (Expect a) r \<longleftrightarrow> r = a"
| "meets ExpectSome r \<longleftrightarrow> (case r of DeqAnswer (Some _) \<Rightarrow> True | _ \<Rightarrow> False)"
| "meets Ignore r \<longleftrightarrow> True"

datatype 'a test_failure = Panicked fault | AssertionFailed "'a answer"

type_synonym 'a test = "('a call \<times> 'a expect) list"

fun run_test :: "usize \<Rightarrow> 'a spsc \<Rightarrow> 'a test \<Rightarrow> 'a test_failure + 'a spsc" where
  "run_test cap s [] = Inr s"
| "run_test cap s ((Enq x, e) # t) =
     (case spsc_enq cap s x of
        Inl f \<Rightarrow> Inl (Panicked f)
      | Inr (r, s') \<Rightarrow>
          if meets e (EnqAnswer r) then run_test cap s' t else Inl (AssertionFailed (EnqAnswer r)))"
| "run_test cap s ((Deq, e) # t) =
     (case spsc_deq cap s of
        Inl f \<Rightarrow> Inl (Panicked f)
      | Inr (r, s') \<Rightarrow>
          if meets e (DeqAnswer r) then run_test cap s' t else Inl (AssertionFailed (DeqAnswer r)))"

definition push_ok :: "'a \<Rightarrow> 'a call \<times> 'a expect" where
  "push_ok x = (Enq x, Expect (EnqAnswer None))"

definition push_back :: "'a \<Rightarrow> 'a call \<times> 'a expect" where
  "push_back x = (Enq x, Expect (EnqAnswer (Some x)))"

definition pops :: "'a \<Rightarrow> 'a call \<times> 'a expect" where
  "pops x = (Deq, Expect (DeqAnswer (Some x)))"

definition pops_none :: "'a call \<times> 'a expect" where
  "pops_none = (Deq, Expect (DeqAnswer None))"

definition smoke_spsc :: "nat test" where
  "smoke_spsc = [push_ok 123, pops 123]"

definition move_producer_consumer_to_threads :: "nat test" where
  "move_producer_consumer_to_threads = [(Enq 123, Ignore), pops 123]"

definition handoff_one_value :: "nat test" where
  "handoff_one_value = [push_ok 123, pops 123]"

definition drops_unread_items :: "nat \<Rightarrow> nat test" where
  "drops_unread_items capacity =
     map push_ok [0..<capacity] @ replicate (capacity div 2) (Deq, ExpectSome)"

definition empty_returns_none :: "nat test" where
  "empty_returns_none = [pops_none, pops_none]"

definition full_returns_item_back :: "nat test" where
  "full_returns_item_back = [push_ok 1, push_ok 2, push_back 3, push_back 4]"

definition fifo_ordering :: "nat test" where
  "fifo_ordering = map push_ok [0..<8] @ map pops [0..<8]"

definition wraparound_lap :: "nat \<Rightarrow> nat \<Rightarrow> nat test" where
  "wraparound_lap capacity lap =
     map (\<lambda>i. push_ok (lap * capacity + i)) [0..<capacity] @ [push_back 9999] @
     map (\<lambda>i. pops (lap * capacity + i)) [0..<capacity] @ [pops_none]"

definition wraparound_n_laps :: "nat \<Rightarrow> nat \<Rightarrow> nat test" where
  "wraparound_n_laps capacity laps = concat (map (wraparound_lap capacity) [0..<laps])"

definition interleaved_push_pop :: "nat \<Rightarrow> nat test" where
  "interleaved_push_pop rounds = concat (map (\<lambda>i. [push_ok i, pops i]) [0..<rounds])"

definition capacity_one :: "nat test" where
  "capacity_one = [pops_none, push_ok 42, push_back 43, pops 42, pops_none]"

definition move_only_type :: "'a \<Rightarrow> 'a test" where
  "move_only_type s = [push_ok s, pops s]"

text \<open>A test passes when the bounded list gives the answers it asserts.\<close>

lemma run_test_list:
  assumes "spsc_inv cap s" "spsc_contents cap s = xs"
    "list_run (unat cap) xs (map fst t) = (rs, ys)" "list_all2 meets (map snd t) rs"
  shows "\<exists>s'. run_test cap s t = Inr s' \<and> spsc_inv cap s' \<and> spsc_contents cap s' = ys"
  using assms
proof (induction t arbitrary: s xs rs)
  case Nil
  then show ?case by auto
next
  case (Cons ce t)
  obtain c e where ce: "ce = (c, e)" by (cases ce)
  show ?case
  proof (cases c)
    case (Enq x)
    from Cons.prems(1) show ?thesis
    proof (cases rule: spsc.enq_cases [where x = x])
      case (1 s')
      from Cons.prems 1 obtain rs' where
        "list_run (unat cap) (xs @ [x]) (map fst t) = (rs', ys)" "rs = EnqAnswer None # rs'"
        by (auto simp: ce Enq Let_def split: prod.splits)
      with Cons.IH [OF 1(3) refl] 1 Cons.prems(2,4) show ?thesis by (auto simp: ce Enq)
    next
      case (2 s')
      from Cons.prems 2 obtain rs' where
        "list_run (unat cap) xs (map fst t) = (rs', ys)" "rs = EnqAnswer (Some x) # rs'"
        by (auto simp: ce Enq Let_def split: prod.splits)
      with Cons.IH [OF 2(3) refl] 2 Cons.prems(2,4) show ?thesis by (auto simp: ce Enq)
    qed
  next
    case Deq
    show ?thesis
    proof (cases xs)
      case Nil
      with spsc.deq_empty [OF Cons.prems(1)] Cons.prems(2) obtain s' where
        s': "spsc_deq cap s = Inr (None, s')" "spsc_inv cap s'" "spsc_contents cap s' = []" by blast
      from Cons.prems Nil obtain rs' where
        "list_run (unat cap) [] (map fst t) = (rs', ys)" "rs = DeqAnswer None # rs'"
        by (auto simp: ce Deq Let_def split: prod.splits)
      with Cons.IH [OF s'(2) refl] s' Cons.prems(4) show ?thesis by (auto simp: ce Deq)
    next
      case (Cons x xs')
      with spsc.deq_item [OF Cons.prems(1)] Cons.prems(2) obtain s' where
        s': "spsc_deq cap s = Inr (Some x, s')" "spsc_inv cap s'" "spsc_contents cap s' = xs'" by blast
      from Cons.prems Cons obtain rs' where
        "list_run (unat cap) xs' (map fst t) = (rs', ys)" "rs = DeqAnswer (Some x) # rs'"
        by (auto simp: ce Deq Let_def split: prod.splits)
      with Cons.IH [OF s'(2) refl] s' Cons.prems(4) show ?thesis by (auto simp: ce Deq)
    qed
  qed
qed

text \<open>What a test does to the bounded list: its answers are the asserted ones.\<close>

definition passes :: "nat \<Rightarrow> 'a list \<Rightarrow> 'a test \<Rightarrow> 'a list \<Rightarrow> bool" where
  "passes cap xs t ys \<longleftrightarrow>
     (\<exists>rs. list_run cap xs (map fst t) = (rs, ys) \<and> list_all2 meets (map snd t) rs)"

lemma list_run_append:
  "list_run cap xs cs = (rs, ys) \<Longrightarrow> list_run cap ys ds = (rs', zs) \<Longrightarrow>
     list_run cap xs (cs @ ds) = (rs @ rs', zs)"
  by (induction cap xs cs arbitrary: rs rule: list_run.induct)
    (auto simp: Let_def split: prod.splits if_splits)

lemma passes_append: "passes cap xs t ys \<Longrightarrow> passes cap ys t' zs \<Longrightarrow> passes cap xs (t @ t') zs"
  unfolding passes_def by (force intro: list_run_append list_all2_appendI)

lemma passes_Nil: "passes cap xs [] xs"
  by (simp add: passes_def)

lemma passes_push_ok: "length xs < cap \<Longrightarrow> passes cap xs [push_ok x] (xs @ [x])"
  by (simp add: passes_def push_ok_def)

lemma passes_push_back: "length xs = cap \<Longrightarrow> passes cap xs [push_back x] xs"
  by (simp add: passes_def push_back_def)

lemma passes_pops: "passes cap (x # xs) [pops x] xs"
  by (simp add: passes_def pops_def)

lemma passes_pops_none: "passes cap [] [pops_none] []"
  by (simp add: passes_def pops_none_def)

lemma passes_some: "passes cap (x # xs) [(Deq, ExpectSome)] xs"
  by (simp add: passes_def)

lemma passes_ignored: "length xs < cap \<Longrightarrow> passes cap xs [(Enq x, Ignore)] (xs @ [x])"
  by (simp add: passes_def)

lemmas passes_steps = passes_push_ok passes_push_back passes_pops passes_pops_none passes_some passes_ignored

lemma passes_fill: "length xs + length vs \<le> cap \<Longrightarrow> passes cap xs (map push_ok vs) (xs @ vs)"
proof (induction vs arbitrary: xs)
  case Nil
  then show ?case by (simp add: passes_Nil)
next
  case (Cons v vs)
  from Cons.prems have "length xs < cap" "length (xs @ [v]) + length vs \<le> cap" by simp_all
  from passes_append [OF passes_push_ok [OF this(1), of v] Cons.IH [OF this(2)]] show ?case by simp
qed

lemma passes_drain: "passes cap (vs @ xs) (map pops vs) xs"
proof (induction vs)
  case Nil
  then show ?case by (simp add: passes_Nil)
next
  case (Cons v vs)
  from passes_append [OF passes_pops [of cap v "vs @ xs"] Cons] show ?case by simp
qed

lemma passes_drain_some: "k \<le> length xs \<Longrightarrow> passes cap xs (replicate k (Deq, ExpectSome)) (drop k xs)"
proof (induction k arbitrary: xs)
  case 0
  then show ?case by (simp add: passes_Nil)
next
  case (Suc k)
  then obtain x xs' where xs: "xs = x # xs'" by (cases xs) auto
  with Suc.prems have "k \<le> length xs'" by simp
  from passes_append [OF passes_some [of cap x xs'] Suc.IH [OF this]] show ?case by (simp add: xs)
qed

lemma passes_repeat:
  assumes "\<And>i. passes cap [] (f i) []"
  shows "passes cap [] (concat (map f is)) []"
  by (induction "is") (auto intro: passes_Nil passes_append assms)

lemma passes_wraparound_lap: "passes cap [] (wraparound_lap cap lap) []"
proof -
  let ?vs = "map (\<lambda>i. lap * cap + i) [0..<cap]"
  have "passes cap [] (map push_ok ?vs) ?vs" using passes_fill [of "[]" ?vs cap] by simp
  moreover have "passes cap ?vs [push_back 9999] ?vs" by (rule passes_push_back) simp
  moreover have "passes cap ?vs (map pops ?vs) []" using passes_drain [of cap ?vs "[]"] by simp
  moreover note passes_pops_none
  ultimately have "passes cap [] (map push_ok ?vs @ [push_back 9999] @ map pops ?vs @ [pops_none]) []"
    by (blast intro: passes_append)
  then show ?thesis by (simp add: wraparound_lap_def comp_def)
qed

lemma passes_wraparound: "passes cap [] (wraparound_n_laps cap laps) []"
  unfolding wraparound_n_laps_def by (rule passes_repeat) (rule passes_wraparound_lap)

lemma passes_interleaved: "0 < cap \<Longrightarrow> passes cap [] (interleaved_push_pop rounds) []"
  unfolding interleaved_push_pop_def
proof (rule passes_repeat)
  fix i :: nat
  assume "0 < cap"
  then have "passes cap [] [push_ok i] [i]" using passes_push_ok [of "[]" cap i] by simp
  from passes_append [OF this passes_pops] show "passes cap [] [push_ok i, pops i] []" by simp
qed

lemma passes_drops: "passes cap [] (drops_unread_items cap) [cap div 2..<cap]"
proof -
  have "passes cap [] (map push_ok [0..<cap]) [0..<cap]" using passes_fill [of "[]" "[0..<cap]" cap] by simp
  moreover have "passes cap [0..<cap] (replicate (cap div 2) (Deq, ExpectSome)) [cap div 2..<cap]"
    using passes_drain_some [of "cap div 2" "[0..<cap]" cap] by (simp add: drop_upt)
  ultimately show ?thesis unfolding drops_unread_items_def by (rule passes_append)
qed

lemma run_test_passes:
  assumes "slot_allocator allocate" "spsc_new allocate cap opts = Inr s" "passes (unat cap) [] t ys"
  shows "\<exists>s'. run_test cap s t = Inr s' \<and> spsc_inv cap s' \<and> spsc_contents cap s' = ys"
proof -
  have rep: "spsc_rep cap 0 [] s" by (rule slot_allocator.spsc_new_rep [OF assms(1,2)])
  from assms(3) show ?thesis
    unfolding passes_def
    using run_test_list [OF spsc_rep_inv [OF rep] spsc_rep_contents [OF rep]] by blast
qed

lemmas passes_defs = smoke_spsc_def move_producer_consumer_to_threads_def handoff_one_value_def
  empty_returns_none_def full_returns_item_back_def fifo_ordering_def capacity_one_def move_only_type_def
  push_ok_def push_back_def pops_def pops_none_def passes_def upt_rec

text \<open>The tests with the capacities they instantiate.\<close>

definition spsc_tests :: "(usize \<times> nat test) list" where
  "spsc_tests =
     [(128, smoke_spsc), (2, move_producer_consumer_to_threads), (2, handoff_one_value),
      (4, empty_returns_none), (2, full_returns_item_back), (8, fifo_ordering),
      (4, wraparound_n_laps 4 100), (2, interleaved_push_pop 1000), (1, capacity_one)]"

lemma passes_tests:
  assumes "(cap, t) \<in> set spsc_tests"
  shows "\<exists>ys. passes (unat cap) [] t ys"
proof -
  have "\<exists>ys. passes 2 [] full_returns_item_back ys" by (simp add: passes_defs)
  moreover have "passes 128 [] smoke_spsc []" "passes 2 [] move_producer_consumer_to_threads []"
    "passes 2 [] handoff_one_value []" "passes 4 [] empty_returns_none []"
    "passes 8 [] fifo_ordering []" "passes 1 [] capacity_one []"
    by (simp_all add: passes_defs)
  moreover have "passes 4 [] (wraparound_n_laps 4 100) []" by (rule passes_wraparound)
  moreover have "passes 2 [] (interleaved_push_pop 1000) []" by (rule passes_interleaved) simp
  ultimately show ?thesis using assms unfolding spsc_tests_def by auto
qed

section \<open>Tests of the SPMC queue\<close>

text \<open>A test of the SPMC queue: the calls and the answers of all \<open>try_read\<close> calls, in order.\<close>

definition smoke_spmc :: "nat bcall list \<times> (nat \<times> nat read_result) list" where
  "smoke_spmc =
     ([CloneConsumer 1 2, TryRead 1, TryRead 2, Publish 123, TryRead 1, TryRead 2, TryRead 1, TryRead 2],
      [(1, Empty), (2, Empty), (1, Value 123), (2, Value 123), (1, Empty), (2, Empty)])"

definition single_thread_multiple_consumers_read_messages ::
  "nat bcall list \<times> (nat \<times> nat read_result) list" where
  "single_thread_multiple_consumers_read_messages =
     ([CloneConsumer 1 2, CloneConsumer 1 3, TryRead 1, TryRead 2, TryRead 3,
       Publish 1, TryRead 1, TryRead 2, TryRead 3, TryRead 1, TryRead 2, TryRead 3,
       Publish 2, TryRead 1, TryRead 2, TryRead 1, TryRead 2,
       Publish 3, TryRead 1, TryRead 1, TryRead 2, TryRead 2, TryRead 3, TryRead 3, TryRead 3],
      [(1, Empty), (2, Empty), (3, Empty),
       (1, Value 1), (2, Value 1), (3, Value 1), (1, Empty), (2, Empty), (3, Empty),
       (1, Value 2), (2, Value 2), (1, Empty), (2, Empty),
       (1, Value 3), (1, Empty), (2, Value 3), (2, Empty), (3, Value 2), (3, Value 3), (3, Empty)])"

definition consumer_can_be_overlapped_by_writer ::
  "nat \<Rightarrow> nat bcall list \<times> (nat \<times> nat read_result) list" where
  "consumer_can_be_overlapped_by_writer capacity =
     (TryRead 1 # map Publish [0..<capacity] @
        [TryRead 1, Publish (capacity + 1), Publish (capacity + 2), TryRead 1, TryRead 1],
      [(1, Empty), (1, Value 0), (1, Lapped 8), (1, Value (capacity + 2))])"

definition spmc_tests :: "(usize \<times> nat bcall list \<times> (nat \<times> nat read_result) list) list" where
  "spmc_tests =
     [(128, smoke_spmc), (128, single_thread_multiple_consumers_read_messages),
      (8, consumer_can_be_overlapped_by_writer 8)]"

lemma spmc_tests_log:
  "(cap, es, rs) \<in> set spmc_tests \<Longrightarrow>
     fst (log_run (unat cap) [] (Map.empty(1 \<mapsto> 0)) es) = rs \<and> publishes es \<le> 2 ^ 63"
  unfolding spmc_tests_def smoke_spmc_def single_thread_multiple_consumers_read_messages_def
    consumer_can_be_overlapped_by_writer_def
  by (auto simp: log_read_def Let_def upt_rec)

lemma run_log_new:
  assumes "slot_allocator allocate" "spmc_new allocate z cap opts = Inr (q, c)" "publishes es \<le> 2 ^ 63"
  shows "\<exists>q' cs'. bcast_run (publish cap) (try_read cap) bconsumer_clone q (Map.empty(i \<mapsto> c)) es =
    Some (Inr (fst (log_run (unat cap) [] (Map.empty(i \<mapsto> 0)) es), q', cs'))"
proof -
  note new = spmc_new_rep [OF assms(1,2)]
  have "spmc.creps [] (Map.empty(i \<mapsto> 0)) (Map.empty(i \<mapsto> c))"
    using new(2) by (simp add: spmc.creps_def)
  from spmc.run_log [OF new(1) this, of es] assms(3) show ?thesis by auto
qed

text \<open>
  The consumer thread of \<open>concurrent_single_producer_multiple_consumers\<close>, over the answers of
  its calls of \<open>try_read\<close>, each with the value of \<open>done\<close> that a load after it sees. \<open>None\<close> while
  the thread is still running, \<open>Inl\<close> when its assertion fails, \<open>Inr got\<close> when it returns.
\<close>

fun test_drain :: "nat option \<Rightarrow> nat \<Rightarrow> nat read_result list \<Rightarrow> ((nat \<times> nat) + nat) option" where
  "test_drain latest got [] = None"
| "test_drain latest got (Value v # rs) =
     (case latest of
        Some prev \<Rightarrow> if v > prev then test_drain (Some v) (got + 1) rs else Some (Inl (prev, v))
      | None \<Rightarrow> test_drain (Some v) (got + 1) rs)"
| "test_drain latest got (_ # rs) = Some (Inr got)"

fun test_consumer :: "nat option \<Rightarrow> nat \<Rightarrow> (nat read_result \<times> bool) list \<Rightarrow> ((nat \<times> nat) + nat) option" where
  "test_consumer latest got [] = None"
| "test_consumer latest got ((Value v, is_done) # rs) =
     (case latest of
        Some prev \<Rightarrow> if v > prev then test_consumer (Some v) (got + 1) rs else Some (Inl (prev, v))
      | None \<Rightarrow> test_consumer (Some v) (got + 1) rs)"
| "test_consumer latest got ((Lapped k, is_done) # rs) = test_consumer latest got rs"
| "test_consumer latest got ((Empty, is_done) # rs) =
     (if is_done then test_drain latest got (map fst rs) else test_consumer latest got rs)"

lemma test_drain_increasing:
  "sorted_wrt (<) (ls @ received rs) \<Longrightarrow> ls = (case latest of None \<Rightarrow> [] | Some p \<Rightarrow> [p]) \<Longrightarrow>
     test_drain latest got rs \<noteq> Some (Inl e)"
proof (induction latest got rs arbitrary: ls rule: test_drain.induct)
  case (2 latest got v rs)
  then show ?case
    by (cases latest) (auto dest: "2.IH"(2))
qed auto

lemma test_consumer_increasing:
  "sorted_wrt (<) (ls @ received (map fst rs)) \<Longrightarrow>
     ls = (case latest of None \<Rightarrow> [] | Some p \<Rightarrow> [p]) \<Longrightarrow>
     test_consumer latest got rs \<noteq> Some (Inl e)"
proof (induction latest got rs arbitrary: ls rule: test_consumer.induct)
  case (2 latest got v is_done rs)
  then show ?case by (cases latest) auto
next
  case (4 latest got is_done rs)
  then show ?case using test_drain_increasing by auto
qed auto

text \<open>
  The schedule in which the consumer thread sees an empty queue, is suspended while the
  producer publishes everything and sets \<open>done\<close>, and then goes on.
\<close>

definition late_consumer_calls :: "nat \<Rightarrow> nat bcall list" where
  "late_consumer_calls n = TryRead 1 # map Publish [0..<n] @ [TryRead 1]"

lemma log_run_publishes: "log_run cap P ps (map Publish vs @ es) = log_run cap (P @ vs) ps es"
  by (induction vs arbitrary: P) simp_all

lemma publishes_append: "publishes (es @ es') = publishes es + publishes es'"
  by (induction es rule: publishes.induct) simp_all

lemma publishes_map: "publishes (map Publish vs) = length vs"
  by (induction vs) simp_all

lemma late_consumer_log:
  assumes "cap < n"
  shows "fst (log_run cap [] (Map.empty(1 \<mapsto> 0)) (late_consumer_calls n)) =
    [(1, Empty), (1, Lapped (of_nat (n - 1)))]"
  using assms by (simp add: late_consumer_calls_def log_run_publishes log_read_def)

lemma late_consumer_publishes: "publishes (late_consumer_calls n) = n"
  by (simp add: late_consumer_calls_def publishes_append publishes_map)

text \<open>\<open>collect\<close> of \<open>examples/spmc/hello.rs\<close>, over the answers of \<open>try_read\<close>.\<close>

fun hello_collect :: "nat \<Rightarrow> 'v list \<Rightarrow> 'v read_result list \<Rightarrow> 'v list option" where
  "hello_collect n seen [] = (if length seen < n then None else Some seen)"
| "hello_collect n seen (r # rs) =
     (if length seen < n
      then (case r of
              Value v \<Rightarrow> hello_collect n (seen @ [v]) rs
            | Lapped skipped \<Rightarrow> hello_collect n seen rs
            | Empty \<Rightarrow> hello_collect n seen rs)
      else Some seen)"

lemma hello_collect_received:
  "hello_collect n seen rs = Some vs \<Longrightarrow> length seen \<le> n \<Longrightarrow>
     vs = take n (seen @ received rs) \<and> length vs = n"
proof (induction rs arbitrary: seen)
  case Nil
  then show ?case by (auto split: if_splits)
next
  case (Cons r rs)
  show ?case
  proof (cases "length seen < n")
    case True
    with Cons.prems Cons.IH [of "seen @ [x]" for x] Cons.IH [of seen] show ?thesis
      by (cases r) auto
  next
    case False
    with Cons.prems show ?thesis by auto
  qed
qed

section \<open>Tests of the seqlock\<close>

text \<open>The tests of \<open>seqlock/lock.rs\<close> and of the smoke binary: writes and asserted reads.\<close>

datatype 'v lock_call = Write 'v | ReadExpect 'v

fun lock_test :: "'v seqlock_inner \<Rightarrow> 'v lock_call list \<Rightarrow> ('v + 'v seqlock_inner) option" where
  "lock_test l [] = Some (Inr l)"
| "lock_test l (Write v # cs) = lock_test (seqlock_write l v) cs"
| "lock_test l (ReadExpect v # cs) =
     (case seqlock_read l of
        None \<Rightarrow> None
      | Some w \<Rightarrow> if w = v then lock_test l cs else Some (Inl w))"

definition smoke_seqlock :: "nat lock_call list" where
  "smoke_seqlock = [Write 123, ReadExpect 123]"

definition first_read_returns_initial_value :: "nat \<Rightarrow> nat lock_call list" where
  "first_read_returns_initial_value init_value = [ReadExpect init_value]"

definition single_thread_reads_what_it_has_written :: "nat list \<Rightarrow> nat lock_call list" where
  "single_thread_reads_what_it_has_written values =
     concat (map (\<lambda>value. [Write value, ReadExpect value]) values)"

lemma lock_test_writes:
  "seq_even l \<Longrightarrow> \<exists>l'. lock_test l (concat (map (\<lambda>v. [Write v, ReadExpect v]) vs)) = Some (Inr l')"
  by (induction vs arbitrary: l) (simp_all add: seqlock_read_even)

section \<open>Transfers between two threads\<close>

text \<open>
  The loom tests \<open>concurrent_with_full_queue\<close> and \<open>concurrent_no_values_lost\<close> and
  \<open>examples/spsc/hello.rs\<close>: one thread pushes a list of items and tries each again until it is
  accepted, the other pops until it has collected \<open>n\<close> items. The threads interleave call by
  call; \<open>Spsc_Progress\<close> shows that a call of the weak-memory machine acts as one step here.
\<close>

record 'a transfer =
  t_queue :: "'a spsc"
  to_push :: "'a list"
  collected :: "'a list"

datatype transfer_event = TryPush | TryPop

fun transfer_step :: "usize \<Rightarrow> nat \<Rightarrow> 'a transfer \<Rightarrow> transfer_event \<Rightarrow> fault + 'a transfer" where
  "transfer_step cap n t TryPush =
     (case to_push t of
        [] \<Rightarrow> Inr t
      | i # rest \<Rightarrow>
          (case spsc_enq cap (t_queue t) i of
             Inl f \<Rightarrow> Inl f
           | Inr (None, q) \<Rightarrow> Inr (t\<lparr>t_queue := q, to_push := rest\<rparr>)
           | Inr (Some _, q) \<Rightarrow> Inr (t\<lparr>t_queue := q\<rparr>)))"
| "transfer_step cap n t TryPop =
     (if length (collected t) < n
      then (case spsc_deq cap (t_queue t) of
              Inl f \<Rightarrow> Inl f
            | Inr (Some v, q) \<Rightarrow> Inr (t\<lparr>t_queue := q, collected := collected t @ [v]\<rparr>)
            | Inr (None, q) \<Rightarrow> Inr (t\<lparr>t_queue := q\<rparr>))
      else Inr t)"

fun transfer_run :: "usize \<Rightarrow> nat \<Rightarrow> 'a transfer \<Rightarrow> transfer_event list \<Rightarrow> fault + 'a transfer" where
  "transfer_run cap n t [] = Inr t"
| "transfer_run cap n t (e # es) =
     (case transfer_step cap n t e of Inl f \<Rightarrow> Inl f | Inr t' \<Rightarrow> transfer_run cap n t' es)"

definition transfer_inv :: "usize \<Rightarrow> nat \<Rightarrow> 'a list \<Rightarrow> 'a transfer \<Rightarrow> bool" where
  "transfer_inv cap n items t \<longleftrightarrow>
     spsc_inv cap (t_queue t) \<and> length (collected t) \<le> n \<and>
     collected t @ spsc_contents cap (t_queue t) @ to_push t = items"

lemma transfer_step_inv:
  assumes "transfer_inv cap n items t"
  shows "\<exists>t'. transfer_step cap n t e = Inr t' \<and> transfer_inv cap n items t'"
proof -
  from assms have q: "spsc_inv cap (t_queue t)" by (simp add: transfer_inv_def)
  show ?thesis
  proof (cases e)
    case TryPush
    show ?thesis
    proof (cases "to_push t")
      case (Cons x xs)
      from q show ?thesis
        by (cases rule: spsc.enq_cases [where x = x])
          (use assms Cons TryPush in \<open>simp_all add: transfer_inv_def\<close>)
    qed (use assms TryPush in simp)
  next
    case TryPop
    show ?thesis
    proof (cases "length (collected t) < n")
      case True
      show ?thesis
      proof (cases "spsc_contents cap (t_queue t)")
        case Nil
        with spsc.deq_empty [OF q] assms TryPop show ?thesis by (auto simp: transfer_inv_def)
      next
        case (Cons x xs)
        with spsc.deq_item [OF q] assms TryPop True show ?thesis by (fastforce simp: transfer_inv_def)
      qed
    qed (use assms TryPop in simp)
  qed
qed

lemma transfer_run_inv:
  "transfer_inv cap n items t \<Longrightarrow> \<exists>t'. transfer_run cap n t es = Inr t' \<and> transfer_inv cap n items t'"
proof (induction es arbitrary: t)
  case (Cons e es)
  from transfer_step_inv [OF Cons.prems] obtain t' where
    "transfer_step cap n t e = Inr t'" "transfer_inv cap n items t'" by blast
  with Cons.IH [of t'] show ?case by simp
qed simp

text \<open>
  The loom test \<open>concurrent_push_pop\<close>: here the producer thread pushes each item once and ignores whether
  the queue took it.
\<close>

fun burst_step :: "usize \<Rightarrow> nat \<Rightarrow> 'a transfer \<Rightarrow> transfer_event \<Rightarrow> fault + 'a transfer" where
  "burst_step cap n t TryPush =
     (case to_push t of
        [] \<Rightarrow> Inr t
      | i # rest \<Rightarrow>
          (case spsc_enq cap (t_queue t) i of
             Inl f \<Rightarrow> Inl f
           | Inr (_, q) \<Rightarrow> Inr (t\<lparr>t_queue := q, to_push := rest\<rparr>)))"
| "burst_step cap n t TryPop = transfer_step cap n t TryPop"

fun burst_run :: "usize \<Rightarrow> nat \<Rightarrow> 'a transfer \<Rightarrow> transfer_event list \<Rightarrow> fault + 'a transfer" where
  "burst_run cap n t [] = Inr t"
| "burst_run cap n t (e # es) =
     (case burst_step cap n t e of Inl f \<Rightarrow> Inl f | Inr t' \<Rightarrow> burst_run cap n t' es)"

lemma burst_step_transfer:
  assumes "transfer_inv cap n items t" "length items \<le> unat cap"
  shows "burst_step cap n t e = transfer_step cap n t e"
proof (cases e)
  case TryPush
  show ?thesis
  proof (cases "to_push t")
    case (Cons x xs)
    from assms have q: "spsc_inv cap (t_queue t)" by (simp add: transfer_inv_def)
    from assms(1) have "length items = length (collected t) + length (spsc_contents cap (t_queue t)) + length (x # xs)"
      by (auto simp: transfer_inv_def Cons)
    then have "length (spsc_contents cap (t_queue t)) < unat cap" using assms(2) by simp
    from spsc.enq_space [OF q this, of x] Cons TryPush show ?thesis by auto
  qed (simp add: TryPush)
qed simp

lemma burst_run_transfer:
  "transfer_inv cap n items t \<Longrightarrow> length items \<le> unat cap \<Longrightarrow> burst_run cap n t es = transfer_run cap n t es"
proof (induction es arbitrary: t)
  case (Cons e es)
  from transfer_step_inv [OF Cons.prems(1), of e] obtain t' where
    "transfer_step cap n t e = Inr t'" "transfer_inv cap n items t'" by blast
  with Cons burst_step_transfer [OF Cons.prems, of e] show ?case by simp
qed simp

text \<open>When the threads alternate, each round moves one item through an empty queue.\<close>

lemma transfer_alternating:
  assumes "spsc_inv cap q" "spsc_contents cap q = []" "0 < unat cap" "length got + length xs \<le> n"
  shows "\<exists>q'. transfer_run cap n \<lparr>t_queue = q, to_push = xs, collected = got\<rparr>
      (concat (replicate (length xs) [TryPush, TryPop])) =
    Inr \<lparr>t_queue = q', to_push = [], collected = got @ xs\<rparr>"
  using assms
proof (induction xs arbitrary: q got)
  case (Cons x xs)
  from spsc.enq_space [OF Cons.prems(1), of x] Cons.prems(2,3) obtain q1 where
    q1: "spsc_enq cap q x = Inr (None, q1)" "spsc_inv cap q1" "spsc_contents cap q1 = [x]" by auto
  from spsc.deq_item [OF q1(2,3)] obtain q2 where
    q2: "spsc_deq cap q1 = Inr (Some x, q2)" "spsc_inv cap q2" "spsc_contents cap q2 = []" by blast
  from Cons.IH [OF q2(2,3) Cons.prems(3), of "got @ [x]"] Cons.prems(4) q1(1) q2(1) show ?case by simp
qed auto

lemma received_map: "received (map (map_read_result f) rs) = map f (received rs)"
  by (induction rs rule: received.induct) simp_all

text \<open>The transfers of the crate: the capacity and the items, in order.\<close>

definition concurrent_push_pop :: "usize \<times> nat list" where
  "concurrent_push_pop = (4, [1, 2, 3])"

definition concurrent_with_full_queue :: "usize \<times> nat list" where
  "concurrent_with_full_queue = (1, [0..<3])"

definition concurrent_no_values_lost :: "usize \<times> nat list" where
  "concurrent_no_values_lost = (2, [0..<3])"

definition hello_spsc :: "usize \<times> nat list" where
  "hello_spsc = (16, [0..<8])"

lemma complete_prefix: "xs @ ys = zs \<Longrightarrow> length zs = n \<Longrightarrow> length xs = n \<longrightarrow> xs = zs"
  using append_eq_append_conv [of xs zs ys "[]"] by simp

section \<open>Properties\<close>

text \<open>
  The single-threaded tests of the SPSC queue pass on every queue that \<open>spsc::new\<close> returns,
  with any allocator that hands out uninitialised cells: no call panics and every assertion
  holds; \<open>wraparound_n_laps\<close> does so for every capacity and every number of laps.
\<close>

theorem spsc_tests_pass:
  assumes "slot_allocator allocate" "spsc_new allocate cap opts = Inr s"
    and "(cap, t) \<in> set spsc_tests \<or> t = wraparound_n_laps (unat cap) laps"
  shows "\<exists>s'. run_test cap s t = Inr s'"
proof -
  from assms(3) have "\<exists>ys. passes (unat cap) [] t ys"
    using passes_tests passes_wraparound by blast
  with run_test_passes [OF assms(1,2)] show ?thesis by blast
qed

theorem spsc_tests_pass_witness:
  "\<exists>s s'. spsc_new demo_alloc 2 \<lparr>g_mlock = True\<rparr> = Inr s \<and> run_test 2 s full_returns_item_back = Inr s'"
proof -
  have "(2, full_returns_item_back) \<in> set spsc_tests" by (simp add: spsc_tests_def)
  with spsc_tests_pass [OF demo_slot_allocator demo_spsc_new, of full_returns_item_back] demo_spsc_new
  show ?thesis by blast
qed

text \<open>
  The test \<open>drops_unread_items\<close> passes for every capacity: the pushes and pops succeed, and
  dropping both handles drops the \<open>CAPACITY - CAPACITY / 2\<close> items that were not popped, so that
  together with the popped ones every item is dropped once.
\<close>

theorem drops_unread_test:
  assumes "slot_allocator allocate" "spsc_new allocate cap opts = Inr s"
  shows "\<exists>q p c. run_test cap s (drops_unread_items (unat cap)) = Inr (q, p, c) \<and>
    queue_drop cap q = Inr ([unat cap div 2..<unat cap], replicate (unat cap) None)"
proof -
  from run_test_passes [OF assms passes_drops] obtain q p c where
    run: "run_test cap s (drops_unread_items (unat cap)) = Inr (q, p, c)" and
    inv: "spsc_inv cap (q, p, c)" and
    rest: "spsc_contents cap (q, p, c) = [unat cap div 2..<unat cap]" by (auto simp: split_paired_all)
  from inv have "queue_drop cap q = Inr (spsc_contents cap (q, p, c), replicate (unat cap) None)"
    by (auto simp: spsc_inv_rep dest: queue_drop_rep)
  with run show ?thesis unfolding rest by blast
qed

theorem drops_unread_test_witness:
  "\<exists>s q p c. spsc_new demo_alloc 2 \<lparr>g_mlock = True\<rparr> = Inr s \<and>
     run_test 2 s (drops_unread_items 2) = Inr (q, p, c) \<and> queue_drop 2 q = Inr ([1], [None, None])"
proof -
  have "unat (2 :: usize) = 2" by simp
  with drops_unread_test [OF demo_slot_allocator demo_spsc_new] demo_spsc_new show ?thesis
    unfolding two_cells by (simp add: upt_rec)
qed

text \<open>
  The single-threaded tests of the SPMC queue pass: the calls return exactly the answers the
  tests assert, the lap of eight values in \<open>consumer_can_be_overlapped_by_writer\<close> included.
\<close>

theorem spmc_tests_pass:
  assumes "slot_allocator allocate" "spmc_new allocate z cap opts = Inr (q, c)"
    and "(cap, es, rs) \<in> set spmc_tests"
  shows "\<exists>q' cs'. bcast_run (publish cap) (try_read cap) bconsumer_clone q (Map.empty(1 \<mapsto> c)) es =
    Some (Inr (rs, q', cs'))"
  using run_log_new [OF assms(1,2), of es 1] spmc_tests_log [OF assms(3)] by blast

theorem spmc_tests_pass_witness:
  "\<exists>q c q' cs'. spmc_new demo_bcast_alloc 0 8 \<lparr>g_mlock = True\<rparr> = Inr (q, c) \<and>
     bcast_run (publish 8) (try_read 8) bconsumer_clone q (Map.empty(1 \<mapsto> c))
       (fst (consumer_can_be_overlapped_by_writer 8)) =
     Some (Inr ([(1, Empty), (1, Value 0), (1, Lapped 8), (1, Value 10)], q', cs'))"
proof -
  have "(8, fst (consumer_can_be_overlapped_by_writer 8),
      [(1, Empty), (1, Value 0), (1, Lapped 8), (1, Value 10)]) \<in> set spmc_tests"
    by (simp add: spmc_tests_def consumer_can_be_overlapped_by_writer_def)
  from spmc_tests_pass [OF demo_bcast_allocator demo_spmc_new this] demo_spmc_new show ?thesis by blast
qed

text \<open>
  In \<open>concurrent_single_producer_multiple_consumers\<close>, the assertion \<open>v > prev\<close> never fails,
  in any interleaving and with any stale values: what the calls of a consumer return, when the
  producer publishes increasing numbers, never makes its thread panic, whatever it sees in \<open>done\<close>.
\<close>

theorem concurrent_test_never_panics:
  assumes "bc_reach cap 1 zeroed c" "length (published c) \<le> 2 ^ 63" "subs c i = Some r"
    and "published c = map (\<lambda>k. [k]) [0..<length (published c)]"
    and "map fst rs = map (map_read_result hd) (b_results r)"
  shows "test_consumer None 0 rs \<noteq> Some (Inl e)"
proof -
  from bc_inv_sub(1) [OF bc_reach_inv [OF assms(1)] assms(3,2)]
  have "explained (unat cap) (published c) (b_start r) (b_results r)" by (rule sub_invE)
  then have "subseq (received (b_results r)) (drop (b_start r) (published c))" by (rule explained_subseq)
  then have "subseq (map hd (received (b_results r))) (map hd (drop (b_start r) (published c)))"
    by (rule subseq_map)
  also have "map hd (drop (b_start r) (published c)) = [b_start r..<length (published c)]"
    by (subst assms(4)) (simp add: drop_map comp_def drop_upt)
  finally have "sorted_wrt (<) (map hd (received (b_results r)))"
    by (rule sorted_wrt_subseq) simp
  also have "map hd (received (b_results r)) = received (map fst rs)"
    by (simp only: assms(5) received_map)
  finally show ?thesis by (intro test_consumer_increasing [of "[]"]) simp_all
qed

theorem concurrent_test_never_panics_witness:
  "\<exists>c r. bc_reach 1 1 [0 :: nat] c \<and> subs c 0 = Some r \<and> b_results r = [Value [0]] \<and>
     (\<forall>e. test_consumer None 0 [(Value 0, True)] \<noteq> Some (Inl e))"
proof -
  have "map_option (\<lambda>c. (published c, map_option (\<lambda>r. (b_start r, b_results r)) (subs c 0)))
     (bc_run 1 1 (bc_new [0]) (publish_events 0 [0] @ [SubCall 0] @ map (SubStep 0) [1, 2, 1, 0, 2])) =
     Some ([[0]], Some (0, [Value [0]]))" by code_simp
  then obtain c r where run: "bc_run 1 1 (bc_new [0])
      (publish_events 0 [0] @ [SubCall 0] @ map (SubStep 0) [1, 2, 1, 0, 2]) = Some c"
    and c: "published c = [[0]]" "subs c 0 = Some r" "b_results r = [Value [0]]"
    by auto
  have "is_power_of_two 1" by code_simp
  then have "bc_reach 1 1 [0 :: nat] (bc_new [0])" by (rule bc_init) simp
  from bc_reach_run [OF this run] have reach: "bc_reach 1 1 [0] c" .
  have "length (published c) \<le> 2 ^ 63" "published c = map (\<lambda>k. [k]) [0..<length (published c)]"
    "map fst [(Value 0, True)] = map (map_read_result hd) (b_results r)"
    by (simp_all add: c)
  from concurrent_test_never_panics [OF reach this(1) c(2) this(2,3)] reach c show ?thesis by blast
qed

text \<open>
  C37: The last assertion of that test, \<open>got > 0\<close>, can fail: a consumer thread that reads \<open>Empty\<close>
  before the first \<open>publish\<close> and is then suspended until \<open>done\<close> is set gets \<open>Lapped\<close> from its next
  call, which ends its drain loop, and returns \<open>got = 0\<close> after more than \<open>CAPACITY\<close> publishes.
\<close>

theorem concurrent_test_can_get_nothing:
  assumes "slot_allocator allocate" "spmc_new allocate z cap opts = Inr (q, c)"
    and "unat cap < n" "n \<le> 2 ^ 63"
  shows "\<exists>q' cs' k. bcast_run (publish cap) (try_read cap) bconsumer_clone q (Map.empty(1 \<mapsto> c))
      (late_consumer_calls n) = Some (Inr ([(1, Empty), (1, Lapped k)], q', cs')) \<and>
    test_consumer None 0 [(Empty, True), (Lapped k, is_done)] = Some (Inr 0)"
proof -
  have "publishes (late_consumer_calls n) \<le> 2 ^ 63" using assms(4) by (simp add: late_consumer_publishes)
  from run_log_new [OF assms(1,2) this, of 1] late_consumer_log [OF assms(3)] show ?thesis by simp blast
qed

theorem concurrent_test_can_get_nothing_witness:
  "\<exists>q c q' cs' k. spmc_new demo_bcast_alloc 0 8 \<lparr>g_mlock = True\<rparr> = Inr (q, c) \<and>
     bcast_run (publish 8) (try_read 8) bconsumer_clone q (Map.empty(1 \<mapsto> c)) (late_consumer_calls 200000) =
       Some (Inr ([(1, Empty), (1, Lapped k)], q', cs')) \<and>
     test_consumer None 0 [(Empty, True), (Lapped k, False)] = Some (Inr 0)"
proof -
  have "unat (8 :: usize) < 200000" "(200000 :: nat) \<le> 2 ^ 63" by simp_all
  from concurrent_test_can_get_nothing [OF demo_bcast_allocator demo_spmc_new this, of False] demo_spmc_new
  show ?thesis by blast
qed

text \<open>
  The tests of the seqlock pass for every initial value and every list of values written:
  the first \<open>read\<close> returns the initial value, each later one the value just written, and no call
  of \<open>read\<close> fails to return.
\<close>

theorem seqlock_tests_pass:
  "(\<exists>l. lock_test (seqlock_new 0) smoke_seqlock = Some (Inr l)) \<and>
   (\<exists>l. lock_test (seqlock_new v) (first_read_returns_initial_value v) = Some (Inr l)) \<and>
   (\<exists>l. lock_test (seqlock_new 0) (single_thread_reads_what_it_has_written values) = Some (Inr l))"
  by (simp add: smoke_seqlock_def first_read_returns_initial_value_def
      single_thread_reads_what_it_has_written_def lock_test_writes seqlock_read_even)

text \<open>
  In the two-thread transfers (loom tests, \<open>hello\<close>), whatever the order in which the threads
  make their calls, no call panics, the consumer's collection is a prefix of the items in order,
  and it is all of them once it has the requested number; with the threads taking turns, one
  round per item is enough for that.
\<close>

theorem transfer_exact:
  assumes "slot_allocator allocate" "spsc_new allocate cap opts = Inr s" "length items = n"
  shows "(\<exists>t. transfer_run cap n \<lparr>t_queue = s, to_push = items, collected = []\<rparr> es = Inr t \<and>
      prefix (collected t) items \<and> (length (collected t) = n \<longrightarrow> collected t = items)) \<and>
    (\<exists>t. transfer_run cap n \<lparr>t_queue = s, to_push = items, collected = []\<rparr>
      (concat (replicate n [TryPush, TryPop])) = Inr t \<and> collected t = items)"
proof -
  have rep: "spsc_rep cap 0 [] s" by (rule slot_allocator.spsc_new_rep [OF assms(1,2)])
  note q = spsc_rep_inv [OF rep] spsc_rep_contents [OF rep]
  have "0 < unat cap" using rep by (auto simp: spsc_rep_def power_of_two_pos split: prod.splits)
  from transfer_alternating [OF q this, of "[]" items n] assms(3) have
    "\<exists>t. transfer_run cap n \<lparr>t_queue = s, to_push = items, collected = []\<rparr>
      (concat (replicate n [TryPush, TryPop])) = Inr t \<and> collected t = items" by auto
  moreover have "transfer_inv cap n items \<lparr>t_queue = s, to_push = items, collected = []\<rparr>"
    using q by (simp add: transfer_inv_def)
  from transfer_run_inv [OF this, of es] obtain t where
    "transfer_run cap n \<lparr>t_queue = s, to_push = items, collected = []\<rparr> es = Inr t"
    and parts: "collected t @ spsc_contents cap (t_queue t) @ to_push t = items"
    by (auto simp: transfer_inv_def)
  moreover have "length (collected t) = n \<longrightarrow> collected t = items"
    using complete_prefix [OF parts] assms(3) by blast
  moreover from parts have "prefix (collected t) items" by (rule prefixI [OF sym])
  ultimately show ?thesis by blast
qed

theorem transfer_exact_witness:
  "\<exists>s t. spsc_new demo_alloc 2 \<lparr>g_mlock = True\<rparr> = Inr s \<and>
     transfer_run 2 3 \<lparr>t_queue = s, to_push = [0, 1, 2], collected = []\<rparr>
       [TryPush, TryPush, TryPush, TryPop, TryPush, TryPop, TryPop, TryPop] = Inr t \<and>
     prefix (collected t) [0, 1, 2]"
proof -
  have "length [0, 1, 2 :: nat] = 3" by simp
  from transfer_exact [OF demo_slot_allocator demo_spsc_new this,
      of "[TryPush, TryPush, TryPush, TryPop, TryPush, TryPop, TryPop, TryPop]"] demo_spsc_new
  show ?thesis by blast
qed

text \<open>
  The loom test \<open>concurrent_push_pop\<close> passes: no push is refused, whatever the order of the calls, so
  ignoring the answer loses nothing and the consumer's collection ends as the items in order.
\<close>

theorem burst_exact:
  assumes "slot_allocator allocate" "spsc_new allocate (fst concurrent_push_pop) opts = Inr s"
  shows "\<exists>t. burst_run (fst concurrent_push_pop) 3
      \<lparr>t_queue = s, to_push = snd concurrent_push_pop, collected = []\<rparr> es = Inr t \<and>
    (length (collected t) = 3 \<longrightarrow> collected t = snd concurrent_push_pop)"
proof -
  let ?t = "\<lparr>t_queue = s, to_push = snd concurrent_push_pop, collected = []\<rparr>"
  have rep: "spsc_rep (fst concurrent_push_pop) 0 [] s" by (rule slot_allocator.spsc_new_rep [OF assms])
  have inv: "transfer_inv (fst concurrent_push_pop) 3 (snd concurrent_push_pop) ?t"
    using spsc_rep_inv [OF rep] spsc_rep_contents [OF rep] by (simp add: transfer_inv_def)
  have len: "length (snd concurrent_push_pop) \<le> unat (fst concurrent_push_pop)" "length (snd concurrent_push_pop) = 3"
    by (simp_all add: concurrent_push_pop_def)
  from transfer_run_inv [OF inv, of es] obtain t where t:
    "transfer_run (fst concurrent_push_pop) 3 ?t es = Inr t"
    "collected t @ spsc_contents (fst concurrent_push_pop) (t_queue t) @ to_push t = snd concurrent_push_pop"
    by (auto simp: transfer_inv_def)
  from complete_prefix [OF t(2) len(2)] t(1) burst_run_transfer [OF inv len(1), of es] show ?thesis by simp
qed

theorem burst_exact_witness:
  "\<exists>s t. spsc_new demo_alloc 4 \<lparr>g_mlock = True\<rparr> = Inr s \<and>
     burst_run 4 3 \<lparr>t_queue = s, to_push = [1, 2, 3], collected = []\<rparr>
       [TryPush, TryPop, TryPop, TryPush, TryPush, TryPop, TryPop] = Inr t \<and>
     (length (collected t) = 3 \<longrightarrow> collected t = [1, 2, 3])"
proof -
  obtain s where s: "spsc_new demo_alloc 4 \<lparr>g_mlock = True\<rparr> = Inr s"
    by (cases "spsc_new demo_alloc 4 \<lparr>g_mlock = True\<rparr>") (code_simp, simp)
  have "spsc_new demo_alloc (fst concurrent_push_pop) \<lparr>g_mlock = True\<rparr> = Inr s"
    by (simp add: concurrent_push_pop_def s)
  from burst_exact [OF demo_slot_allocator this, of "[TryPush, TryPop, TryPop, TryPush, TryPush, TryPop, TryPop]"] s
  show ?thesis by (auto simp: concurrent_push_pop_def)
qed

section \<open>Capacities\<close>

text \<open>
  The test \<open>allows_queues_with_powers_of_two_capacity\<close>, and the \<open>compile_fail\<close> example of \<open>new\<close>, which
  builds queues of the capacities next to each power of two: the results of their calls of \<open>new\<close>.
\<close>

definition allows_queues_with_powers_of_two_capacity ::
  "(usize \<Rightarrow> 'o \<Rightarrow> fault + ('a, 'z) region_scheme) \<Rightarrow> 'o \<Rightarrow> (fault + 'a spsc) list" where
  "allows_queues_with_powers_of_two_capacity allocate options =
     map (\<lambda>N. spsc_new allocate (2 ^ N) options) [0..<20]"

definition compile_fail_example ::
  "(usize \<Rightarrow> 'o \<Rightarrow> fault + ('a, 'z) region_scheme) \<Rightarrow> 'o \<Rightarrow> (fault + 'a spsc) list" where
  "compile_fail_example allocate options =
     concat (map (\<lambda>N. [spsc_new allocate (2 ^ N - 1) options, spsc_new allocate (2 ^ N + 1) options]) [2..<20])"

lemma odd_not_power_of_two: "odd (unat c) \<Longrightarrow> unat c \<noteq> 1 \<Longrightarrow> \<not> is_power_of_two c"
  by (auto simp: is_power_of_two_iff)

lemma unat_two_power: "N < 64 \<Longrightarrow> unat (2 ^ N :: usize) = 2 ^ N"
proof -
  assume N: "N < 64"
  then have "(2 :: nat) ^ N < 2 ^ 64" by (rule power_strict_increasing) simp
  then have "unat (of_nat (2 ^ N) :: usize) = 2 ^ N" by (simp only: unat_of_nat_usize mod_less)
  then show ?thesis by simp
qed

lemma powers_of_two:
  "list_all (\<lambda>N. is_power_of_two (2 ^ N :: usize)) [0..<20]"
  "list_all (\<lambda>N. \<not> is_power_of_two (2 ^ N - 1 :: usize) \<and> \<not> is_power_of_two (2 ^ N + 1 :: usize)) [2..<20]"
proof -
  show "list_all (\<lambda>N. is_power_of_two (2 ^ N :: usize)) [0..<20]"
    by (auto simp: list_all_iff is_power_of_two_iff unat_two_power intro!: exI)
  show "list_all (\<lambda>N. \<not> is_power_of_two (2 ^ N - 1 :: usize) \<and> \<not> is_power_of_two (2 ^ N + 1 :: usize)) [2..<20]"
    by (simp add: upt_rec odd_not_power_of_two)
qed

text \<open>
  \<open>new\<close> accepts every capacity of the test if the allocator can serve it, and rejects every one of the example.
\<close>

theorem capacities_checked:
  assumes "\<And>N. N < 20 \<Longrightarrow> \<not> isl (allocate (2 ^ N) options)"
  shows "list_all (\<lambda>r. \<not> isl r) (allows_queues_with_powers_of_two_capacity allocate options) \<and>
    list_all (\<lambda>r. r = Inl CapacityNotPowerOfTwo) (compile_fail_example allocate options)"
proof
  have "\<not> isl (spsc_new allocate (2 ^ N) options)" if "N < 20" for N
  proof -
    have "is_power_of_two (2 ^ N :: usize)" using powers_of_two(1) that by (simp add: list_all_iff)
    with assms [OF that] show ?thesis by (cases "allocate (2 ^ N) options") (simp_all add: spsc_new_def)
  qed
  then show "list_all (\<lambda>r. \<not> isl r) (allows_queues_with_powers_of_two_capacity allocate options)"
    by (simp add: allows_queues_with_powers_of_two_capacity_def list_all_iff)
  show "list_all (\<lambda>r. r = Inl CapacityNotPowerOfTwo) (compile_fail_example allocate options)"
    using powers_of_two(2) by (auto simp: compile_fail_example_def list_all_iff spsc_new_def)
qed

theorem capacities_checked_witness:
  "list_all (\<lambda>r. \<not> isl r) (allows_queues_with_powers_of_two_capacity (loom_allocate (\<lambda>_. 8) :: usize \<Rightarrow> unit \<Rightarrow> fault + nat loom_allocation) ())"
  using capacities_checked [of "loom_allocate (\<lambda>_. 8) :: usize \<Rightarrow> unit \<Rightarrow> fault + nat loom_allocation" "()"]
  by (simp add: loom_allocate_def)

end
