(* ===== verification/Text.thy ===== *)
theory Text
  imports Prelude "HOL-Library.Char_ord"
begin

text \<open>
  The operations on strings that the benchmark support uses, from Rust's \<open>str\<close>: \<open>trim\<close>, \<open>split\<close>,
  \<open>split_once\<close>, \<open>lines\<close>, \<open>split_whitespace\<close>, \<open>strip_prefix\<close>, \<open>contains\<close>, and the decimal form of
  unsigned numbers in both directions. The files they are applied to are ASCII; a string is a
  list of characters.
\<close>

section \<open>Cutting strings\<close>

definition is_space :: "char \<Rightarrow> bool" where
  "is_space c \<longleftrightarrow> of_char c \<in> {9, 10, 11, 12, 13, 32 :: nat}"

definition trim_start :: "string \<Rightarrow> string" where
  "trim_start s = dropWhile is_space s"

definition trim :: "string \<Rightarrow> string" where
  "trim s = rev (trim_start (rev (trim_start s)))"

fun split_at :: "char \<Rightarrow> string \<Rightarrow> string list" where
  "split_at c [] = [[]]"
| "split_at c (x # xs) =
     (if x = c then [] # split_at c xs
      else (case split_at c xs of [] \<Rightarrow> [[x]] | p # ps \<Rightarrow> (x # p) # ps))"

definition split_once :: "char \<Rightarrow> string \<Rightarrow> (string \<times> string) option" where
  "split_once c s =
     (if c \<in> set s then Some (takeWhile (\<lambda>x. x \<noteq> c) s, tl (dropWhile (\<lambda>x. x \<noteq> c) s)) else None)"

fun strip_prefix :: "string \<Rightarrow> string \<Rightarrow> string option" where
  "strip_prefix [] s = Some s"
| "strip_prefix (p # ps) [] = None"
| "strip_prefix (p # ps) (x # xs) = (if p = x then strip_prefix ps xs else None)"

fun contains_text :: "string \<Rightarrow> string \<Rightarrow> bool" where
  "contains_text pat [] \<longleftrightarrow> pat = []"
| "contains_text pat (x # xs) \<longleftrightarrow> prefix pat (x # xs) \<or> contains_text pat xs"

definition strip_cr :: "string \<Rightarrow> string" where
  "strip_cr s = (if s \<noteq> [] \<and> last s = CHR 0x0D then butlast s else s)"

text \<open>\<open>str::lines\<close>: the last line need not end in a newline, and keeps a carriage return then.\<close>

definition lines_of :: "string \<Rightarrow> string list" where
  "lines_of s =
     (let ps = split_at (CHR 0x0A) s
      in map strip_cr (butlast ps) @ (if last ps = [] then [] else [last ps]))"

fun words_acc :: "string \<Rightarrow> string \<Rightarrow> string list" where
  "words_acc w [] = (if w = [] then [] else [w])"
| "words_acc w (x # xs) =
     (if is_space x then (if w = [] then words_acc [] xs else w # words_acc [] xs)
      else words_acc (w @ [x]) xs)"

definition split_whitespace :: "string \<Rightarrow> string list" where
  "split_whitespace s = words_acc [] s"

lemma split_at_nonempty [simp]: "split_at c s \<noteq> []"
  by (induction s) (auto split: list.split)

lemma split_at_single: "c \<notin> set s \<Longrightarrow> split_at c s = [s]"
  by (induction s) auto

lemma split_at_append: "c \<notin> set s \<Longrightarrow> split_at c (s @ c # t) = s # split_at c t"
  by (induction s) auto

lemma split_once_hit: "c \<notin> set a \<Longrightarrow> split_once c (a @ c # b) = Some (a, b)"
  by (induction a) (auto simp: split_once_def)

lemma split_once_miss: "c \<notin> set s \<Longrightarrow> split_once c s = None"
  by (simp add: split_once_def)

lemma words_acc_word: "\<forall>x\<in>set v. \<not> is_space x \<Longrightarrow> words_acc w (v @ s) = words_acc (w @ v) s"
  by (induction v arbitrary: w) simp_all

text \<open>Words joined by blanks are split again.\<close>

fun unwords :: "string list \<Rightarrow> string" where
  "unwords [] = []"
| "unwords (w # ws) = '' '' @ w @ unwords ws"

definition plain :: "string \<Rightarrow> bool" where
  "plain w \<longleftrightarrow> w \<noteq> [] \<and> (\<forall>x\<in>set w. \<not> is_space x)"

lemma space_is_space [simp]: "is_space (CHR '' '')"
  by (simp add: is_space_def)

lemma words_acc_unwords:
  "\<forall>w\<in>set ws. plain w \<Longrightarrow> words_acc v (unwords ws) = (if v = [] then ws else v # ws)"
proof (induction ws arbitrary: v)
  case (Cons w ws)
  have "words_acc [] (w @ unwords ws) = words_acc w (unwords ws)"
    using Cons.prems words_acc_word [of w "[]"] by (simp add: plain_def)
  also have "\<dots> = w # ws" using Cons by (auto simp: plain_def)
  finally show ?case by simp
qed simp

lemma split_whitespace_unwords: "\<forall>w\<in>set ws. plain w \<Longrightarrow> split_whitespace (unwords ws) = ws"
  by (simp add: split_whitespace_def words_acc_unwords)

lemma strip_prefix_append [simp]: "strip_prefix p (p @ s) = Some s"
  by (induction p) simp_all

lemma strip_prefix_Some: "strip_prefix p s = Some t \<longleftrightarrow> s = p @ t"
  by (induction p s rule: strip_prefix.induct) auto

lemma contains_text_iff: "contains_text pat s \<longleftrightarrow> (\<exists>u v. s = u @ pat @ v)"
proof (induction s)
  case (Cons x xs)
  have "(\<exists>u v. x # xs = u @ pat @ v) \<longleftrightarrow> prefix pat (x # xs) \<or> (\<exists>u v. xs = u @ pat @ v)"
    by (metis (no_types, lifting) Cons_eq_append_conv append_Nil prefix_def)
  with Cons show ?case by simp
qed simp

section \<open>Decimal numbers\<close>

definition is_digit :: "char \<Rightarrow> bool" where
  "is_digit c \<longleftrightarrow> 48 \<le> (of_char c :: nat) \<and> (of_char c :: nat) \<le> 57"

definition digit_value :: "char \<Rightarrow> nat" where
  "digit_value c = of_char c - 48"

definition digits_value :: "string \<Rightarrow> nat" where
  "digits_value ds = foldl (\<lambda>n d. 10 * n + digit_value d) 0 ds"

text \<open>
  \<open>parse::<usize>\<close> and \<open>parse::<u64>\<close>: an optional plus sign and at least one digit, nothing else,
  with a value below \<open>2 ^ 64\<close>.
\<close>

definition parse_unsigned :: "string \<Rightarrow> nat option" where
  "parse_unsigned s =
     (let ds = (case s of [] \<Rightarrow> [] | c # cs \<Rightarrow> if c = CHR ''+'' then cs else s)
      in if ds \<noteq> [] \<and> list_all is_digit ds \<and> digits_value ds < 2 ^ 64 then Some (digits_value ds) else None)"

definition digit_char :: "nat \<Rightarrow> char" where
  "digit_char n = char_of (48 + n)"

fun show_nat :: "nat \<Rightarrow> string" where
  "show_nat n = (if n < 10 then [digit_char n] else show_nat (n div 10) @ [digit_char (n mod 10)])"

declare show_nat.simps [simp del]

lemma of_char_digit: "n < 10 \<Longrightarrow> of_char (digit_char n) = 48 + n"
  by (simp add: digit_char_def)

lemma digit_char_props:
  assumes "n < 10"
  shows "is_digit (digit_char n)" "digit_value (digit_char n) = n" "\<not> is_space (digit_char n)"
    "digit_char n \<noteq> CHR ''+''" "digit_char n \<noteq> CHR ''-''" "digit_char n \<noteq> CHR '',''"
proof -
  note c = of_char_digit [OF assms]
  from c show "is_digit (digit_char n)" "digit_value (digit_char n) = n" "\<not> is_space (digit_char n)"
    using assms by (auto simp: is_digit_def digit_value_def is_space_def)
  have "of_char (CHR ''+'') = (43 :: nat)" "of_char (CHR ''-'') = (45 :: nat)" "of_char (CHR '','') = (44 :: nat)"
    by simp_all
  with c show "digit_char n \<noteq> CHR ''+''" "digit_char n \<noteq> CHR ''-''" "digit_char n \<noteq> CHR '',''" by auto
qed

lemma show_nat_chars: "c \<in> set (show_nat n) \<Longrightarrow> \<exists>k<10. c = digit_char k"
proof (induction n rule: show_nat.induct)
  case (1 n)
  show ?case
  proof (cases "n < 10")
    case True
    with "1.prems" show ?thesis by (simp add: show_nat.simps [of n]) blast
  next
    case False
    with "1.prems" have "c \<in> set (show_nat (n div 10)) \<or> c = digit_char (n mod 10)"
      by (auto simp: show_nat.simps [of n])
    moreover have "n mod 10 < 10" by simp
    ultimately show ?thesis using "1.IH" [OF False] by blast
  qed
qed

lemma show_nat_nonempty [simp]: "show_nat n \<noteq> []"
  by (subst show_nat.simps) simp

lemma digits_value_snoc: "digits_value (ds @ [d]) = 10 * digits_value ds + digit_value d"
  by (simp add: digits_value_def)

lemma digits_value_show: "digits_value (show_nat n) = n"
proof (induction n rule: show_nat.induct)
  case (1 n)
  show ?case
  proof (cases "n < 10")
    case True
    then show ?thesis by (simp add: show_nat.simps [of n] digits_value_def digit_char_props)
  next
    case False
    then show ?thesis using 1
      by (simp add: show_nat.simps [of n] digits_value_snoc digit_char_props)
  qed
qed

lemma show_nat_inject: "show_nat m = show_nat n \<Longrightarrow> m = n"
  using arg_cong [of _ _ digits_value] by (metis digits_value_show)

lemma show_nat_free:
  "CHR ''-'' \<notin> set (show_nat n)" "CHR '','' \<notin> set (show_nat n)" "CHR ''+'' \<notin> set (show_nat n)"
  using show_nat_chars digit_char_props(4-6) by metis+

lemma plain_show_nat: "plain (show_nat n)"
  using show_nat_chars digit_char_props(3) by (auto simp: plain_def)

text \<open>Reading back what was written.\<close>

lemma parse_show:
  assumes "n < 2 ^ 64"
  shows "parse_unsigned (show_nat n) = Some n"
proof -
  obtain c cs where s: "show_nat n = c # cs" by (cases "show_nat n") auto
  have "c \<noteq> CHR ''+''" using show_nat_free(3) [of n] s by auto
  moreover have "list_all is_digit (show_nat n)"
    using show_nat_chars digit_char_props(1) by (auto simp: list_all_iff)
  ultimately show ?thesis using assms digits_value_show [of n] by (simp add: parse_unsigned_def s)
qed

end
