(* ===== verification/Micro_Benches.thy ===== *)
theory Micro_Benches
  imports Scenarios Text
begin

text \<open>
  The criterion benches, \<open>src/benches\<close>: each makes a structure and lets criterion call a closure on
  it, a write and the read of it, as often as criterion likes (\<open>b.iter\<close>). A run of a closure is
  what the two calls return, \<open>None\<close> when one of them never returns.
\<close>

section \<open>The closure of a bench, iterated\<close>

fun bench_iter :: "('s \<Rightarrow> (fault + ('r \<times> 's)) option) \<Rightarrow> nat \<Rightarrow> 's \<Rightarrow> (fault + 'r list) option" where
  "bench_iter body 0 s = Some (Inr [])"
| "bench_iter body (Suc n) s =
     (case body s of
        None \<Rightarrow> None
      | Some (Inl e) \<Rightarrow> Some (Inl e)
      | Some (Inr (r, s)) \<Rightarrow> map_option (map_sum id ((#) r)) (bench_iter body n s))"

lemma bench_iter_same:
  assumes step: "\<And>s m. m < n \<Longrightarrow> I m s \<Longrightarrow> \<exists>s'. body s = Some (Inr (r, s')) \<and> I (Suc m) s'" and start: "I 0 s"
  shows "bench_iter body n s = Some (Inr (replicate n r))"
proof -
  have "m \<le> n \<Longrightarrow> I (n - m) s \<Longrightarrow> bench_iter body m s = Some (Inr (replicate m r))" for m
  proof (induction m arbitrary: s)
    case (Suc m)
    from Suc.prems step [of "n - Suc m" s] obtain s' where s': "body s = Some (Inr (r, s'))"
        "I (Suc (n - Suc m)) s'" by auto
    moreover from Suc.prems have "Suc (n - Suc m) = n - m" by simp
    ultimately show ?case using Suc.IH [of s'] Suc.prems by simp
  qed simp
  from this [of n] start show ?thesis by simp
qed

section \<open>The three benches\<close>

text \<open>The integer literal \<open>42\<close> of the sources is an \<open>i32\<close>.\<close>

type_synonym i32 = "32 word"

definition spsc_ping_pong ::
  "usize \<Rightarrow> i32 spsc \<Rightarrow> (fault + ((i32 option \<times> i32 option) \<times> i32 spsc)) option" where
  "spsc_ping_pong cap s =
     (case spsc_enq cap s 42 of
        Inl e \<Rightarrow> Some (Inl e)
      | Inr (refused, s) \<Rightarrow>
          (case spsc_deq cap s of
             Inl e \<Rightarrow> Some (Inl e)
           | Inr (got, s) \<Rightarrow> Some (Inr ((refused, got), s))))"

definition spmc_ping_pong ::
  "usize \<Rightarrow> i32 bqueue \<times> bconsumer \<Rightarrow> (fault + (i32 read_result \<times> (i32 bqueue \<times> bconsumer))) option" where
  "spmc_ping_pong cap s =
     (case s of (q, c) \<Rightarrow>
        (case publish cap q 42 of
           Inl e \<Rightarrow> Some (Inl e)
         | Inr q \<Rightarrow> map_option (map_sum id (\<lambda>(got, c). (got, (q, c)))) (try_read cap q c)))"

definition seqlock_ping_pong :: "i32 seqlock_inner \<Rightarrow> (fault + (i32 \<times> i32 seqlock_inner)) option" where
  "seqlock_ping_pong l =
     (let l = seqlock_write l 42 in map_option (\<lambda>got. Inr (got, l)) (seqlock_read l))"

text \<open>
  The groups. A row of a group is its name and what the iterations return; a construction that
  panics ends the row. The layouts are those of \<open>i32\<close> and of a slot with its counter and an \<open>i32\<close>.
\<close>

definition bench_capacities :: "usize list" where
  "bench_capacities = [64, 1024, 65536]"

definition bench_label :: "usize \<Rightarrow> string" where
  "bench_label cap = ''capacity='' @ show_nat (unat cap)"

text \<open>\<open>Options::global_mlocked\<close> of \<open>spmc/builder.rs\<close>; \<open>Scenarios\<close> has the one of \<open>spsc/builder.rs\<close>.\<close>

definition spmc_global_mlocked :: "global_options options" where
  "spmc_global_mlocked = \<lparr>alloc = \<lparr>g_mlock = True\<rparr>\<rparr>"

definition spsc_single_thread_ping_pong ::
  "sys \<Rightarrow> nat \<Rightarrow> (string \<times> (fault + (i32 option \<times> i32 option) list) option) list" where
  "spsc_single_thread_ping_pong os n =
     map (\<lambda>cap. (bench_label cap,
       case spsc_new (global_allocate os 4 4) cap (alloc global_mlocked) of
         Inl e \<Rightarrow> Some (Inl e)
       | Inr s \<Rightarrow> bench_iter (spsc_ping_pong cap) n s)) bench_capacities"

definition spmc_single_thread_ping_pong ::
  "sys \<Rightarrow> nat \<Rightarrow> (string \<times> (fault + i32 read_result list) option) list" where
  "spmc_single_thread_ping_pong os n =
     map (\<lambda>cap. (bench_label cap,
       case spmc_new (global_allocate os 16 8) 0 cap (alloc spmc_global_mlocked) of
         Inl e \<Rightarrow> Some (Inl e)
       | Inr s \<Rightarrow> bench_iter (spmc_ping_pong cap) n s)) bench_capacities"

definition single_thread_write_read :: "nat \<Rightarrow> (fault + i32 list) option" where
  "single_thread_write_read n = bench_iter seqlock_ping_pong n (seqlock_new 0)"

section \<open>What every iteration returns\<close>

lemma spsc_ping_pong_answers:
  assumes "slot_allocator allocate" "spsc_new allocate cap opts = Inr s"
  shows "bench_iter (spsc_ping_pong cap) n s = Some (Inr (replicate n (None, Some 42)))"
proof (rule bench_iter_same [where I = "\<lambda>_ s. spsc_inv cap s \<and> spsc_contents cap s = []"])
  have rep: "spsc_rep cap 0 [] s" by (rule slot_allocator.spsc_new_rep [OF assms])
  from rep show "spsc_inv cap s \<and> spsc_contents cap s = []"
    by (simp add: spsc_rep_inv spsc_rep_contents)
  from assms have "0 < unat cap" by (auto simp: spsc_new_def power_of_two_pos split: if_splits)
  fix s :: "i32 spsc" assume "spsc_inv cap s \<and> spsc_contents cap s = []"
  then show "\<exists>s'. spsc_ping_pong cap s = Some (Inr ((None, Some 42), s')) \<and>
      spsc_inv cap s' \<and> spsc_contents cap s' = []"
    using spsc.enq_space [of cap s 42] spsc.deq_item [of cap _ 42 "[]"] \<open>0 < unat cap\<close>
    by (fastforce simp: spsc_ping_pong_def)
qed

lemma log_read_latest: "0 < C \<Longrightarrow> log_read C (P @ [v]) (length P) = (Value v, Suc (length P))"
  by (simp add: log_read_def)

lemma spmc_ping_pong_answers:
  assumes "slot_allocator allocate" "spmc_new allocate z cap opts = Inr s" "n \<le> 2 ^ 63"
  shows "bench_iter (spmc_ping_pong cap) n s = Some (Inr (replicate n (Value 42)))"
proof (rule bench_iter_same [where I = "\<lambda>m s. \<exists>P. length P = m \<and> bcast_rep cap z P (fst s) \<and> bcons_rep P m (snd s)"])
  from assms(2) spmc_new_rep [OF assms(1), of z cap opts "fst s" "snd s"]
  show "\<exists>P. length P = 0 \<and> bcast_rep cap z P (fst s) \<and> bcons_rep P 0 (snd s)" by simp
  fix s :: "i32 bqueue \<times> bconsumer" and m
  assume m: "m < n" "\<exists>P. length P = m \<and> bcast_rep cap z P (fst s) \<and> bcons_rep P m (snd s)"
  then obtain P where P: "length P = m" "bcast_rep cap z P (fst s)" "bcons_rep P m (snd s)" by blast
  from publish_rep [OF P(2), of 42] obtain q where q: "publish cap (fst s) 42 = Inr q"
      "bcast_rep cap z (P @ [42]) q" by blast
  from P(2) have "0 < unat cap" by (simp add: bcast_rep_def power_of_two_pos)
  moreover from P(3) have "bcons_rep (P @ [42]) m (snd s)" by (fastforce simp: bcons_rep_def)
  ultimately obtain c where "try_read cap q (snd s) = Some (Inr (Value 42, c))" "bcons_rep (P @ [42]) (Suc m) c"
    using try_read_rep [OF q(2), of m "snd s"] log_read_latest [of "unat cap" P 42] P(1) m(1) assms(3) by auto
  with q P(1) show "\<exists>s'. spmc_ping_pong cap s = Some (Inr (Value 42, s')) \<and>
      (\<exists>P. length P = Suc m \<and> bcast_rep cap z P (fst s') \<and> bcons_rep P (Suc m) (snd s'))"
    by (cases s) (auto simp: spmc_ping_pong_def intro!: exI [of _ "P @ [42]"])
qed

lemma seqlock_ping_pong_answers: "single_thread_write_read n = Some (Inr (replicate n 42))"
  unfolding single_thread_write_read_def
  by (rule bench_iter_same [where I = "\<lambda>_. seq_even"])
    (simp_all add: seqlock_ping_pong_def seqlock_read_even Let_def)

text \<open>
  Whatever the number of iterations (for the broadcast queue up to \<open>2 ^ 63\<close>), every iteration of every
  row pushes without being refused and reads back the value just written: a row whose construction
  does not panic measures \<open>n\<close> round trips and nothing else, no refused push, no empty read, no lap.
\<close>

theorem benches_measure_round_trips:
  assumes "n \<le> 2 ^ 63"
  shows "spsc_single_thread_ping_pong os n =
      map (\<lambda>cap. (bench_label cap,
        case spsc_new (global_allocate os 4 4) cap (alloc global_mlocked) :: fault + i32 spsc of
          Inl e \<Rightarrow> Some (Inl e) | Inr _ \<Rightarrow> Some (Inr (replicate n (None, Some 42))))) bench_capacities \<and>
    spmc_single_thread_ping_pong os n =
      map (\<lambda>cap. (bench_label cap,
        case spmc_new (global_allocate os 16 8) 0 cap (alloc spmc_global_mlocked) :: fault + (i32 bqueue \<times> bconsumer) of
          Inl e \<Rightarrow> Some (Inl e) | Inr _ \<Rightarrow> Some (Inr (replicate n (Value 42))))) bench_capacities \<and>
    single_thread_write_read n = Some (Inr (replicate n 42))"
  unfolding spsc_single_thread_ping_pong_def spmc_single_thread_ping_pong_def
  by (auto split: sum.split simp: seqlock_ping_pong_answers
      spsc_ping_pong_answers [OF galloc.slot_allocator_axioms]
      spmc_ping_pong_answers [OF galloc.slot_allocator_axioms _ assms])

end
