(* ===== verification/Spmc_Test.thy ===== *)
theory Spmc_Test
  imports Spmc_Shutdown Scenarios
begin

text \<open>
  The test \<open>concurrent_single_producer_multiple_consumers\<close> of \<open>src/src/spmc/queue.rs\<close> on the weak-memory
  machine of the broadcast queue: the main thread that publishes, stores \<open>done\<close> and joins, and a
  thread per clone of the consumer, which checks that what it reads increases and counts it. The
  assertion on the count fails in one situation only, which \<open>Scenarios\<close> shows to exist. Also what the
  threads of \<open>examples/spmc/hello.rs\<close> collect.
\<close>

section \<open>The threads\<close>

datatype test_phase = Trying | Checking | Finishing | Counted | Panicked

record tcons =
  t_phase :: test_phase
  t_latest :: "u64 option"
  t_got :: nat

definition tcons_new :: tcons where
  "tcons_new = \<lparr>t_phase = Trying, t_latest = None, t_got = 0\<rparr>"

text \<open>The two arms for \<open>ReadResult::Value\<close>: the assertion \<open>v > prev\<close>, then \<open>last\<close> and \<open>got\<close>.\<close>

definition test_value :: "u64 \<Rightarrow> tcons \<Rightarrow> tcons" where
  "test_value v k =
     (case t_latest k of
        Some prev \<Rightarrow>
          if v > prev then k\<lparr>t_latest := Some v, t_got := t_got k + 1\<rparr> else k\<lparr>t_phase := Panicked\<rparr>
      | None \<Rightarrow> k\<lparr>t_latest := Some v, t_got := t_got k + 1\<rparr>)"

text \<open>The outer \<open>match\<close>, and the \<open>while let\<close> once \<open>done\<close> has been seen.\<close>

definition test_result :: "u64 list read_result \<Rightarrow> tcons \<Rightarrow> tcons" where
  "test_result res k =
     (case res of
        Value v \<Rightarrow> test_value (hd v) k
      | Lapped _ \<Rightarrow> if t_phase k = Finishing then k\<lparr>t_phase := Counted\<rparr> else k
      | Empty \<Rightarrow> k\<lparr>t_phase := if t_phase k = Finishing then Counted else Checking\<rparr>)"

datatype test_main = TestPublishing nat | TestJoining nat | TestPassed | TestFailed

record ctest =
  ct_queue :: "u64 bc"
  ct_main :: test_main
  ct_done :: "bc_loc view option"
  ct_cons :: "nat \<Rightarrow> tcons option"

text \<open>The consumers \<open>1 .. nconsumers\<close> are the clones of \<open>c0\<close>, number \<open>0\<close>, which is dropped.\<close>

definition test_clones :: "usize \<Rightarrow> nat \<Rightarrow> u64 bc option" where
  "test_clones cap nconsumers =
     map_option (\<lambda>c. c\<lparr>subs := (subs c)(0 := None)\<rparr>)
       (bc_run cap 1 (bc_new [0]) (map (SubClone 0) [1..<Suc nconsumers]))"

definition ctest_new :: "nat \<Rightarrow> u64 bc \<Rightarrow> ctest" where
  "ctest_new nconsumers c =
     \<lparr>ct_queue = c, ct_main = TestPublishing 0, ct_done = None,
      ct_cons = (\<lambda>i. if i \<in> {1..nconsumers} then Some tcons_new else None)\<rparr>"

datatype test_event =
    TestPublish
  | TestPubStep nat
  | TestStoreDone
  | TestRead nat
  | TestReadStep nat nat
  | TestLoadDone nat bool
  | TestJoin

text \<open>A step of \<open>try_read\<close> of consumer \<open>i\<close> that left it as \<open>r\<close>, in the queue state \<open>c\<close>.\<close>

definition ctest_read :: "nat \<Rightarrow> ctest \<Rightarrow> u64 bc \<Rightarrow> u64 sub \<Rightarrow> ctest" where
  "ctest_read i s c r =
     (if b_pc r = SubIdle
      then s\<lparr>ct_queue := c,
             ct_cons := (ct_cons s)(i := map_option (test_result (last (b_results r))) (ct_cons s i))\<rparr>
      else s\<lparr>ct_queue := c\<rparr>)"

text \<open>\<open>h.join().unwrap()\<close> of the next handle and the assertion on its count.\<close>

definition join_next :: "nat \<Rightarrow> ctest \<Rightarrow> ctest option" where
  "join_next nconsumers s =
     (case ct_main s of
        TestJoining i \<Rightarrow>
          if nconsumers < i then Some (s\<lparr>ct_main := TestPassed\<rparr>)
          else (case ct_cons s i of
                  None \<Rightarrow> None
                | Some k \<Rightarrow>
                    (case t_phase k of
                       Counted \<Rightarrow> Some (s\<lparr>ct_main := if 0 < t_got k then TestJoining (Suc i) else TestFailed\<rparr>)
                     | Panicked \<Rightarrow> Some (s\<lparr>ct_main := TestFailed\<rparr>)
                     | _ \<Rightarrow> None))
      | _ \<Rightarrow> None)"

definition in_try_read :: "tcons \<Rightarrow> bool" where
  "in_try_read k \<longleftrightarrow> t_phase k = Trying \<or> t_phase k = Finishing"

fun ctest_step :: "usize \<Rightarrow> nat \<Rightarrow> nat \<Rightarrow> ctest \<Rightarrow> test_event \<Rightarrow> ctest option" where
  "ctest_step cap nconsumers n s TestPublish =
     (case ct_main s of
        TestPublishing i \<Rightarrow>
          if i < n
          then map_option (\<lambda>c. s\<lparr>ct_queue := c, ct_main := TestPublishing (Suc i)\<rparr>)
            (bc_step cap 1 (ct_queue s) (PubCall [of_nat i]))
          else None
      | _ \<Rightarrow> None)"
| "ctest_step cap nconsumers n s (TestPubStep t) =
     map_option (\<lambda>c. s\<lparr>ct_queue := c\<rparr>) (bc_step cap 1 (ct_queue s) (PubStep t))"
| "ctest_step cap nconsumers n s TestStoreDone =
     (if ct_main s = TestPublishing n \<and> pub_state (ct_queue s) = PubIdle
      then Some (s\<lparr>ct_done := Some (cur (pub_view (ct_queue s))), ct_main := TestJoining 1\<rparr>) else None)"
| "ctest_step cap nconsumers n s (TestRead i) =
     (case ct_cons s i of
        Some k \<Rightarrow>
          if in_try_read k
          then map_option (\<lambda>c. s\<lparr>ct_queue := c\<rparr>) (bc_step cap 1 (ct_queue s) (SubCall i)) else None
      | None \<Rightarrow> None)"
| "ctest_step cap nconsumers n s (TestReadStep i t) =
     (case (ct_cons s i, bc_step cap 1 (ct_queue s) (SubStep i t)) of
        (Some _, Some c) \<Rightarrow> map_option (ctest_read i s c) (subs c i)
      | _ \<Rightarrow> None)"
| "ctest_step cap nconsumers n s (TestLoadDone i b) =
     (case ct_cons s i of
        None \<Rightarrow> None
      | Some k \<Rightarrow>
          if t_phase k \<noteq> Checking then None
          else if b
          then (case (ct_done s, subs (ct_queue s) i) of
                  (Some w, Some r) \<Rightarrow>
                    Some (s\<lparr>ct_queue := (ct_queue s)\<lparr>subs := (subs (ct_queue s))(i \<mapsto> sub_acquire w r)\<rparr>,
                            ct_cons := (ct_cons s)(i \<mapsto> k\<lparr>t_phase := Finishing\<rparr>)\<rparr>)
                | _ \<Rightarrow> None)
          else Some (s\<lparr>ct_cons := (ct_cons s)(i \<mapsto> k\<lparr>t_phase := Trying\<rparr>)\<rparr>))"
| "ctest_step cap nconsumers n s TestJoin = join_next nconsumers s"

inductive ctest_reach :: "usize \<Rightarrow> nat \<Rightarrow> nat \<Rightarrow> ctest \<Rightarrow> bool" for cap nconsumers n where
  ctest_init: "is_power_of_two cap \<Longrightarrow> test_clones cap nconsumers = Some c \<Longrightarrow>
    ctest_reach cap nconsumers n (ctest_new nconsumers c)"
| ctest_next: "ctest_reach cap nconsumers n s \<Longrightarrow> ctest_step cap nconsumers n s e = Some s' \<Longrightarrow>
    ctest_reach cap nconsumers n s'"

fun ctest_run :: "usize \<Rightarrow> nat \<Rightarrow> nat \<Rightarrow> ctest \<Rightarrow> test_event list \<Rightarrow> ctest option" where
  "ctest_run cap nconsumers n s [] = Some s"
| "ctest_run cap nconsumers n s (e # es) =
     (case ctest_step cap nconsumers n s e of None \<Rightarrow> None | Some s' \<Rightarrow> ctest_run cap nconsumers n s' es)"

lemma ctest_reach_run:
  "ctest_reach cap m n s \<Longrightarrow> ctest_run cap m n s es = Some s' \<Longrightarrow> ctest_reach cap m n s'"
  by (induction es arbitrary: s) (auto split: option.splits intro: ctest_next)

section \<open>The invariant\<close>

definition latest_of :: "u64 list read_result list \<Rightarrow> u64 option" where
  "latest_of rs = (if received rs = [] then None else Some (hd (last (received rs))))"

definition tcons_ok :: "usize \<Rightarrow> u64 bc \<Rightarrow> bc_loc view option \<Rightarrow> tcons \<Rightarrow> u64 sub \<Rightarrow> bool" where
  "tcons_ok cap q fin k r \<longleftrightarrow>
     b_start r = 0 \<and> t_got k = length (received (b_results r)) \<and> t_latest k = latest_of (b_results r) \<and>
     t_phase k \<noteq> Panicked \<and> (t_phase k \<in> {Checking, Counted} \<longrightarrow> b_pc r = SubIdle) \<and>
     (t_phase k \<in> {Finishing, Counted} \<longrightarrow> fin \<noteq> None) \<and>
     (t_phase k = Finishing \<longrightarrow> sees_all cap q (cur (b_view r))) \<and>
     (t_phase k = Counted \<longrightarrow>
        (\<exists>j. last (b_results r) = Lapped j) \<and> b_results r \<noteq> [] \<or>
        last (b_results r) = Empty \<and> sub_pos r = length (published q))"

definition count_up :: "u64 list list \<Rightarrow> bool" where
  "count_up P \<longleftrightarrow> P = map (\<lambda>k. [of_nat k]) [0..<length P]"

definition test_main_ok :: "nat \<Rightarrow> ctest \<Rightarrow> bool" where
  "test_main_ok n s \<longleftrightarrow>
     count_up (published (ct_queue s)) \<and>
     (case ct_main s of
        TestPublishing i \<Rightarrow> length (published (ct_queue s)) = i \<and> i \<le> n \<and> ct_done s = None
      | _ \<Rightarrow> length (published (ct_queue s)) = n \<and> ct_done s \<noteq> None) \<and>
     (ct_main s = TestFailed \<longrightarrow>
        (\<exists>i k. ct_cons s i = Some k \<and> t_phase k = Counted \<and> t_got k = 0))"

definition test_flag_ok :: "usize \<Rightarrow> ctest \<Rightarrow> bool" where
  "test_flag_ok cap s \<longleftrightarrow>
     (\<forall>w. ct_done s = Some w \<longrightarrow>
        pub_state (ct_queue s) = PubIdle \<and> sees_all cap (ct_queue s) w \<and> view_within (bc_newest (ct_queue s)) w)"

definition ctest_inv :: "usize \<Rightarrow> nat \<Rightarrow> ctest \<Rightarrow> bool" where
  "ctest_inv cap n s \<longleftrightarrow>
     cast_queue_ok cap (ct_queue s) \<and> test_main_ok n s \<and> test_flag_ok cap s \<and>
     (\<forall>i k. ct_cons s i = Some k \<longrightarrow> (\<exists>r. subs (ct_queue s) i = Some r \<and> tcons_ok cap (ct_queue s) (ct_done s) k r))"

lemma ctest_invD:
  assumes "ctest_inv cap n s"
  shows "bc_inv cap 1 (ct_queue s)" "bc_within (ct_queue s)" "test_main_ok n s" "test_flag_ok cap s"
    "ct_cons s i = Some k \<Longrightarrow> \<exists>r. subs (ct_queue s) i = Some r \<and> tcons_ok cap (ct_queue s) (ct_done s) k r"
  using assms by (auto simp: ctest_inv_def cast_queue_ok_def)

lemma test_main_len: "test_main_ok n s \<Longrightarrow> length (published (ct_queue s)) \<le> n"
  by (auto simp: test_main_ok_def split: test_main.splits)

lemma count_up_snoc: "count_up P \<Longrightarrow> count_up (P @ [[of_nat (length P)]])"
  by (simp add: count_up_def)

text \<open>Nothing about a consumer mentions the queue before \<open>done\<close>.\<close>

lemma tcons_ok_none: "tcons_ok cap q None k r \<Longrightarrow> tcons_ok cap q' None k r"
  by (auto simp: tcons_ok_def)

lemma tcons_ok_subs [simp]: "tcons_ok cap (q\<lparr>subs := x\<rparr>) fin k r = tcons_ok cap q fin k r"
  by (simp add: tcons_ok_def)

lemma received_snoc:
  "received (rs @ [Value v]) = received rs @ [v]" "received (rs @ [Lapped j]) = received rs"
  "received (rs @ [Empty]) = received rs"
  by (induction rs rule: received.induct) simp_all

lemma latest_of_snoc:
  "latest_of (rs @ [Value v]) = Some (hd v)" "latest_of (rs @ [Lapped j]) = latest_of rs"
  "latest_of (rs @ [Empty]) = latest_of rs"
  by (simp_all add: latest_of_def received_snoc)

text \<open>Values that increase along the log increase along what a consumer has received.\<close>

lemma received_increase:
  assumes "explained C P 0 (rs @ [Value v])" and P: "count_up P"
    and lim: "length P \<le> 2 ^ 63" and prev: "latest_of rs = Some prev"
  shows "prev < hd v"
proof -
  have "sorted_wrt (<) (map of_nat [0..<m] :: u64 list)" if "m \<le> 2 ^ 63" for m
    using that by (auto simp: sorted_wrt_iff_nth_less word_less_nat_alt unat_of_nat_usize mod_less)
  moreover have "map hd P = map of_nat [0..<length P]" by (subst P [unfolded count_up_def]) (simp add: comp_def)
  ultimately have "sorted_wrt (<) (map hd P)" using lim by simp
  moreover from explained_subseq [OF assms(1)]
  have "subseq (map hd (received rs @ [v])) (map hd P)" by (simp only: received_snoc subseq_map drop_0)
  ultimately have "sorted_wrt (<) (map hd (received rs @ [v]))" by (rule sorted_wrt_subseq [rotated])
  with prev show ?thesis
    by (auto simp: latest_of_def sorted_wrt_append hd_map last_map split: if_splits intro: last_in_set)
qed

lemma test_value_ok:
  "(\<And>prev. t_latest k = Some prev \<Longrightarrow> prev < v) \<Longrightarrow>
     test_value v k = k\<lparr>t_latest := Some v, t_got := t_got k + 1\<rparr>"
  by (auto simp: test_value_def split: option.split)

lemma test_result_ok:
  assumes ok: "tcons_ok cap q fin k r" and k: "in_try_read k"
    and r': "b_results r' = b_results r @ [x]" "b_pc r' = SubIdle" "b_start r' = b_start r"
      "\<And>l. cur (b_view r) l \<le> cur (b_view r') l"
    and ex: "explained (unat cap) (published q) 0 (b_results r')"
    and P: "count_up (published q)" "length (published q) \<le> 2 ^ 63"
    and pos: "t_phase k = Finishing \<Longrightarrow> x = Empty \<Longrightarrow> sub_pos r' = length (published q)"
  shows "tcons_ok cap q fin (test_result x k) r'"
proof -
  have seen: "sees_all cap q (cur (b_view r'))" if "t_phase k = Finishing"
    using ok that sees_all_mono [OF _ r'(4)] by (auto simp: tcons_ok_def)
  show ?thesis
  proof (cases x)
    case (Value v)
    have "test_value (hd v) k = k\<lparr>t_latest := Some (hd v), t_got := t_got k + 1\<rparr>"
    proof (rule test_value_ok)
      fix prev assume "t_latest k = Some prev"
      with ok have "latest_of (b_results r) = Some prev" by (simp add: tcons_ok_def)
      from received_increase [OF _ P this] ex r'(1) Value show "prev < hd v" by simp
    qed
    with ok k r' seen Value show ?thesis
      by (auto simp: tcons_ok_def test_result_def received_snoc latest_of_snoc in_try_read_def)
  next
    case (Lapped j)
    with ok k r' seen show ?thesis
      by (auto simp: tcons_ok_def test_result_def received_snoc latest_of_snoc in_try_read_def)
  next
    case Empty
    with ok k r' seen pos show ?thesis
      by (auto simp: tcons_ok_def test_result_def received_snoc latest_of_snoc in_try_read_def)
  qed
qed

section \<open>The invariant is kept\<close>

lemma ctest_read_fields [simp]:
  "ct_queue (ctest_read i s c r) = c" "ct_main (ctest_read i s c r) = ct_main s"
  "ct_done (ctest_read i s c r) = ct_done s"
  by (simp_all add: ctest_read_def)

text \<open>A step that leaves the log, the producer and the newest entries alone.\<close>

definition same_log :: "u64 bc \<Rightarrow> u64 bc \<Rightarrow> bool" where
  "same_log q c \<longleftrightarrow> (\<exists>x. c = q\<lparr>subs := x\<rparr>)"

lemma same_log_flag:
  "same_log (ct_queue s) (ct_queue s') \<Longrightarrow> ct_done s' = ct_done s \<Longrightarrow> test_flag_ok cap s \<Longrightarrow> test_flag_ok cap s'"
  by (auto simp: same_log_def test_flag_ok_def cong: bc_newest_cong)

lemma same_log_main:
  "same_log (ct_queue s) (ct_queue s') \<Longrightarrow> ct_done s' = ct_done s \<Longrightarrow> ct_main s' = ct_main s \<Longrightarrow>
     (\<And>i k. ct_cons s i = Some k \<Longrightarrow> t_phase k = Counted \<Longrightarrow> ct_cons s' i = Some k) \<Longrightarrow>
     test_main_ok n s \<Longrightarrow> test_main_ok n s'"
  by (auto simp: same_log_def test_main_ok_def split: test_main.splits)

lemma ctest_read_step_inv:
  assumes inv: "ctest_inv cap n s" and lim: "n \<le> 2 ^ 63" and k: "ct_cons s i = Some k"
    and r: "subs (ct_queue s) i = Some r" and step: "sub_step cap 1 t (ct_queue s) r = Some r'"
    and c: "c = (ct_queue s)\<lparr>subs := (subs (ct_queue s))(i \<mapsto> r')\<rparr>"
  shows "ctest_inv cap n (ctest_read i s c r')"
proof -
  let ?q = "ct_queue s" and ?s = "ctest_read i s c r'"
  note I = ctest_invD [OF inv]
  from I(5) [OF k] r have ok: "tcons_ok cap ?q (ct_done s) k r" by auto
  have len: "length (published ?q) \<le> 2 ^ 63" using test_main_len [OF I(3)] lim by simp
  have ev: "bc_step cap 1 ?q (SubStep i t) = Some c" using r step by (simp add: c)
  have q: "cast_queue_ok cap c" using cast_queue_step [OF _ ev] I(1,2) by (simp add: cast_queue_ok_def)
  note f = sub_step_frame [OF step]
  have busy: "in_try_read k"
    using ok sub_step_busy [OF step] by (cases "t_phase k") (auto simp: tcons_ok_def in_try_read_def)
  have start: "b_start r' = 0" using f ok by (simp add: tcons_ok_def)
  have seen: "sees_all cap ?q (cur (b_view r'))" if "t_phase k = Finishing"
    using ok that f sees_all_mono [of cap ?q "cur (b_view r)" "cur (b_view r')"] by (simp add: tcons_ok_def)
  have same: "same_log ?q (ct_queue ?s)" by (auto simp: same_log_def c)
  have others: "ct_cons ?s j = ct_cons s j" if "j \<noteq> i" for j using that by (simp add: ctest_read_def)
  have counted: "ct_cons ?s j = Some k'" if "ct_cons s j = Some k'" "t_phase k' = Counted" for j k'
    using that k busy others [of j] by (cases "j = i") (auto simp: in_try_read_def)
  have mine: "\<exists>k'. ct_cons ?s i = Some k' \<and> tcons_ok cap ?q (ct_done s) k' r'"
  proof (cases "b_pc r' = SubIdle")
    case False
    with f have "b_results r' = b_results r" by simp
    with ok start busy False seen have "tcons_ok cap ?q (ct_done s) k r'"
      by (auto simp: tcons_ok_def in_try_read_def)
    with False k show ?thesis by (simp add: ctest_read_def)
  next
    case True
    with f obtain x where x: "b_results r' = b_results r @ [x]" by blast
    have sub: "subs c i = Some r'" and pub: "published c = published ?q" by (simp_all add: c)
    have "bc_inv cap 1 c" using q by (simp add: cast_queue_ok_def)
    from bc_inv_sub(1) [OF this sub] len pub
    have "explained (unat cap) (published ?q) (b_start r') (b_results r')" by (auto elim: sub_invE)
    then have ex: "explained (unat cap) (published ?q) 0 (b_results r')" using start by simp
    have P: "count_up (published ?q)" using I(3) by (simp add: test_main_ok_def)
    have pos: "sub_pos r' = length (published ?q)" if "t_phase k = Finishing" "x = Empty"
      using empty_after_last_publish [OF I(1) len r step] ok that x by (simp add: tcons_ok_def sees_all_def)
    from f have "b_start r' = b_start r" "\<And>l. cur (b_view r) l \<le> cur (b_view r') l" by blast+
    from test_result_ok [OF ok busy x True this ex P len pos]
    have "tcons_ok cap ?q (ct_done s) (test_result x k) r'" .
    with True k x show ?thesis by (simp add: ctest_read_def)
  qed
  have "\<exists>r. subs c j = Some r \<and> tcons_ok cap c (ct_done s) k' r" if "ct_cons ?s j = Some k'" for j k'
  proof (cases "j = i")
    case True
    with mine that show ?thesis by (auto simp: c)
  next
    case False
    with I(5) [of j k'] others [OF False] that show ?thesis by (simp add: c)
  qed
  moreover have "test_main_ok n ?s" by (rule same_log_main [OF same _ _ counted I(3)]) simp_all
  moreover have "test_flag_ok cap ?s" by (rule same_log_flag [OF same _ I(4)]) simp
  ultimately show ?thesis using q by (simp add: ctest_inv_def)
qed

lemma ctest_publisher_inv:
  assumes inv: "ctest_inv cap n s" and q: "cast_queue_ok cap c" and subs: "subs c = subs (ct_queue s)"
    and none: "ct_done s = None" and main: "test_main_ok n (s\<lparr>ct_queue := c, ct_main := m\<rparr>)"
  shows "ctest_inv cap n (s\<lparr>ct_queue := c, ct_main := m\<rparr>)"
  using q main ctest_invD(5) [OF inv] tcons_ok_none none
  by (simp add: ctest_inv_def test_flag_ok_def subs) blast

lemma join_next_inv:
  assumes inv: "ctest_inv cap n s" and step: "join_next m s = Some s'"
  shows "ctest_inv cap n s'"
proof -
  note I = ctest_invD [OF inv]
  from step obtain i where i: "ct_main s = TestJoining i" by (auto simp: join_next_def split: test_main.splits)
  have "\<exists>x. s' = s\<lparr>ct_main := x\<rparr> \<and> (\<forall>j. x \<noteq> TestPublishing j) \<and>
      (x = TestFailed \<longrightarrow> (\<exists>k. ct_cons s i = Some k \<and> t_phase k = Counted \<and> t_got k = 0))"
  proof (cases "m < i")
    case True
    with step i show ?thesis by (auto simp: join_next_def)
  next
    case False
    with step i obtain k where k: "ct_cons s i = Some k" by (auto simp: join_next_def split: option.splits)
    with I(5) [OF this] have "t_phase k \<noteq> Panicked" by (auto simp: tcons_ok_def)
    with step i k False show ?thesis by (auto simp: join_next_def split: test_phase.splits if_splits)
  qed
  then obtain x where x: "s' = s\<lparr>ct_main := x\<rparr>" "\<forall>j. x \<noteq> TestPublishing j"
    "x = TestFailed \<longrightarrow> (\<exists>k. ct_cons s i = Some k \<and> t_phase k = Counted \<and> t_got k = 0)" by blast
  from inv x i show ?thesis
    by (cases x) (auto simp: ctest_inv_def test_main_ok_def test_flag_ok_def)
qed

lemma ctest_read_inv:
  assumes inv: "ctest_inv cap n s" and c: "bc_step cap 1 (ct_queue s) (SubCall i) = Some c"
    and k: "ct_cons s i = Some k" "in_try_read k"
  shows "ctest_inv cap n (s\<lparr>ct_queue := c\<rparr>)"
proof -
  let ?q = "ct_queue s" and ?s = "s\<lparr>ct_queue := c\<rparr>"
  note I = ctest_invD [OF inv]
  from I(5) [OF k(1)] obtain r where r: "subs ?q i = Some r" "tcons_ok cap ?q (ct_done s) k r" by blast
  from c r have c': "c = ?q\<lparr>subs := (subs ?q)(i \<mapsto> sub_call r)\<rparr>" by (auto split: sub_pc.splits)
  then have same: "same_log ?q (ct_queue ?s)" by (auto simp: same_log_def)
  have "tcons_ok cap ?q (ct_done s) k (sub_call r)"
    using r(2) k(2) by (auto simp: tcons_ok_def sub_call_def in_try_read_def)
  then have "\<exists>r. subs c j = Some r \<and> tcons_ok cap c (ct_done s) k' r" if "ct_cons s j = Some k'" for j k'
    using I(5) [OF that] that k(1) by (cases "j = i") (auto simp: c')
  moreover have "test_main_ok n ?s" by (rule same_log_main [OF same _ _ _ I(3)]) simp_all
  moreover have "test_flag_ok cap ?s" by (rule same_log_flag [OF same _ I(4)]) simp
  moreover have "cast_queue_ok cap c" using cast_queue_step [OF _ c] I(1,2) by (simp add: cast_queue_ok_def)
  ultimately show ?thesis by (simp add: ctest_inv_def)
qed

lemma ctest_load_inv:
  assumes inv: "ctest_inv cap n s" and step: "ctest_step cap m n s (TestLoadDone i b) = Some s'"
  shows "ctest_inv cap n s'"
proof -
  let ?q = "ct_queue s"
  note I = ctest_invD [OF inv]
  from step obtain k where k: "ct_cons s i = Some k" "t_phase k = Checking" by (auto split: option.splits if_splits)
  from I(5) [OF this(1)] obtain r where r: "subs ?q i = Some r" "tcons_ok cap ?q (ct_done s) k r" by blast
  show ?thesis
  proof (cases b)
    case False
    with step k have s': "s' = s\<lparr>ct_cons := (ct_cons s)(i \<mapsto> k\<lparr>t_phase := Trying\<rparr>)\<rparr>" by simp
    have same: "same_log ?q (ct_queue s')" unfolding s' same_log_def by (intro exI [of _ "subs ?q"]) simp
    have "tcons_ok cap ?q (ct_done s) (k\<lparr>t_phase := Trying\<rparr>) r" using r(2) by (simp add: tcons_ok_def)
    moreover have "test_main_ok n s'" by (rule same_log_main [OF same _ _ _ I(3)]) (use k in \<open>auto simp: s'\<close>)
    moreover have "test_flag_ok cap s'" by (rule same_log_flag [OF same _ I(4)]) (simp add: s')
    ultimately show ?thesis using I(1,2,5) r(1) by (auto simp: s' ctest_inv_def cast_queue_ok_def)
  next
    case True
    let ?c = "\<lambda>w. ?q\<lparr>subs := (subs ?q)(i \<mapsto> sub_acquire w r)\<rparr>"
    from True step k r(1) obtain w where w: "ct_done s = Some w"
      and s': "s' = s\<lparr>ct_queue := ?c w, ct_cons := (ct_cons s)(i \<mapsto> k\<lparr>t_phase := Finishing\<rparr>)\<rparr>"
      by (auto split: option.splits)
    from I(4) w have v: "view_within (bc_newest ?q) w" "sees_all cap ?q w" by (simp_all add: test_flag_ok_def)
    have idle: "b_pc r = SubIdle" using r(2) k(2) by (simp add: tcons_ok_def)
    have same: "same_log ?q (ct_queue s')" by (auto simp: s' same_log_def)
    have "sees_all cap ?q (cur (b_view (sub_acquire w r)))"
      by (rule sees_all_mono [OF v(2)]) (simp add: sub_acquire_def)
    then have "tcons_ok cap ?q (ct_done s) (k\<lparr>t_phase := Finishing\<rparr>) (sub_acquire w r)"
      using r(2) w by (simp add: tcons_ok_def) (simp add: sub_acquire_def)
    then have "\<exists>r. subs (?c w) j = Some r \<and> tcons_ok cap (?c w) (ct_done s) k' r" if "ct_cons s' j = Some k'" for j k'
      using I(5) [of j k'] that by (cases "j = i") (auto simp: s')
    moreover have "cast_queue_ok cap (?c w)"
      using I(1,2) r(1) v(1) idle by (auto simp: cast_queue_ok_def intro: bc_inv_acquire bc_within_acquire)
    moreover have "test_main_ok n s'" by (rule same_log_main [OF same _ _ _ I(3)]) (use k in \<open>auto simp: s'\<close>)
    moreover have "test_flag_ok cap s'" by (rule same_log_flag [OF same _ I(4)]) (simp add: s')
    ultimately show ?thesis by (simp add: ctest_inv_def s')
  qed
qed

lemma ctest_step_inv:
  assumes inv: "ctest_inv cap n s" and lim: "n \<le> 2 ^ 63" and step: "ctest_step cap m n s e = Some s'"
  shows "ctest_inv cap n s'"
proof -
  let ?q = "ct_queue s"
  note I = ctest_invD [OF inv]
  have Q: "cast_queue_ok cap ?q" using I(1,2) by (simp add: cast_queue_ok_def)
  show ?thesis
  proof (cases e)
    case TestPublish
    with step obtain i c where i: "ct_main s = TestPublishing i" "i < n"
      and c: "bc_step cap 1 ?q (PubCall [of_nat i]) = Some c"
      and s': "s' = s\<lparr>ct_queue := c, ct_main := TestPublishing (Suc i)\<rparr>" by (auto split: test_main.splits if_splits)
    from c have c': "c = ?q\<lparr>pub_state := PubLoad [of_nat i], published := published ?q @ [[of_nat i]]\<rparr>"
      by (auto split: pub_pc.splits)
    from I(3) i(1) have main: "length (published ?q) = i" "ct_done s = None"
      "count_up (published ?q)" by (auto simp: test_main_ok_def)
    then have "count_up (published c)" using count_up_snoc [of "published ?q"] by (simp add: c')
    show ?thesis unfolding s'
      by (rule ctest_publisher_inv [OF inv cast_queue_step [OF Q c]])
        (use main i(2) \<open>count_up (published c)\<close> in \<open>simp_all add: c' test_main_ok_def\<close>)
  next
    case (TestPubStep t)
    with step obtain c where c: "pub_step cap 1 t ?q = Some c" "s' = s\<lparr>ct_queue := c\<rparr>" by auto
    then have busy: "pub_state ?q \<noteq> PubIdle" by (auto simp: pub_step_def)
    note f = pub_step_rank [OF c(1)]
    have none: "ct_done s = None" using I(4) busy by (cases "ct_done s") (auto simp: test_flag_ok_def)
    have s': "s' = s\<lparr>ct_queue := c, ct_main := ct_main s\<rparr>" using c(2) by simp
    show ?thesis unfolding s'
      by (rule ctest_publisher_inv [OF inv cast_queue_step [OF Q, of "PubStep t"]])
        (use c(1) f none I(3) in \<open>auto simp: test_main_ok_def split: test_main.splits\<close>)
  next
    case TestStoreDone
    with step have p: "ct_main s = TestPublishing n" "pub_state ?q = PubIdle"
      "s' = s\<lparr>ct_done := Some (cur (pub_view ?q)), ct_main := TestJoining 1\<rparr>" by (auto split: if_splits)
    have "sees_all cap ?q (cur (pub_view ?q))" "view_within (bc_newest ?q) (cur (pub_view ?q))"
      using I(1,2) p(2) idle_pub_view by (auto simp: tview_within_def dest: bc_withinD(7))
    moreover have none: "ct_done s = None" using I(3) p(1) by (simp add: test_main_ok_def)
    moreover have "\<exists>r. subs ?q i = Some r \<and> tcons_ok cap ?q (ct_done s') k r" if "ct_cons s i = Some k" for i k
      using I(5) [OF that] none by (auto simp: tcons_ok_def)
    ultimately show ?thesis using p Q I(3) by (simp add: ctest_inv_def test_main_ok_def test_flag_ok_def)
  next
    case (TestRead i)
    with step obtain k c where k: "ct_cons s i = Some k" "in_try_read k"
      and c: "bc_step cap 1 ?q (SubCall i) = Some c" and s': "s' = s\<lparr>ct_queue := c\<rparr>"
      by (auto simp del: bc_step.simps split: option.splits if_splits)
    show ?thesis unfolding s' by (rule ctest_read_inv [OF inv c k])
  next
    case (TestReadStep i t)
    with step obtain k c r' where k: "ct_cons s i = Some k" and c: "bc_step cap 1 ?q (SubStep i t) = Some c"
      "subs c i = Some r'" and s': "s' = ctest_read i s c r'" by (auto split: option.splits)
    from I(5) [OF k] obtain r where r: "subs ?q i = Some r" by blast
    with c have st: "sub_step cap 1 t ?q r = Some r'" "c = ?q\<lparr>subs := (subs ?q)(i \<mapsto> r')\<rparr>"
      by (auto split: option.splits)
    show ?thesis unfolding s' by (rule ctest_read_step_inv [OF inv lim k r st])
  next
    case (TestLoadDone i b)
    with step ctest_load_inv [OF inv] show ?thesis by simp
  next
    case TestJoin
    with step join_next_inv [OF inv] show ?thesis by simp
  qed
qed

text \<open>The clones of an unused consumer are unused.\<close>

lemma test_clones_subs:
  "bc_run cap 1 (bc_new z) (map (SubClone 0) [1..<Suc m]) =
     Some ((bc_new z)\<lparr>subs := (\<lambda>i. if i \<le> m then subs (bc_new z) 0 else None)\<rparr>)"
proof (induction m)
  case 0
  show ?case by (auto simp: bc_new_def fun_eq_iff)
next
  case (Suc m)
  have run: "bc_run cap 1 c (es @ [e]) = (case bc_run cap 1 c es of None \<Rightarrow> None | Some c \<Rightarrow> bc_step cap 1 c e)" for c :: "'a bc" and es e
    by (induction es arbitrary: c) (auto split: option.splits)
  have es: "map (SubClone 0) [1..<Suc (Suc m)] = map (SubClone 0) [1..<Suc m] @ [SubClone 0 (Suc m) :: 'a bc_event]"
    by simp
  show ?case
    unfolding es run Suc.IH by (auto simp: bc_new_def sub_clone_def sub_pos_def bconsumer_clone_def fun_eq_iff)
qed

lemma ctest_new_inv:
  assumes "is_power_of_two cap" "test_clones cap m = Some c"
  shows "ctest_inv cap n (ctest_new m c)"
proof -
  let ?c = "(bc_new [0 :: u64])\<lparr>subs := (\<lambda>i. if i \<le> m then subs (bc_new [0 :: u64]) 0 else None)\<rparr>"
  have "bc_reach cap 1 [0] (bc_new [0 :: u64])" by (rule bc_init [OF assms(1)]) simp
  from bc_reach_run [OF this test_clones_subs] have reach: "bc_reach cap 1 [0] ?c" .
  from assms(2) have c: "c = ?c\<lparr>subs := (subs ?c)(0 := None)\<rparr>"
    unfolding test_clones_def test_clones_subs by simp
  have newest: "bc_newest c = bc_newest ?c" by (rule bc_newest_cong) (simp_all add: c)
  have "bc_inv cap 1 c" using bc_reach_inv [OF reach]
    by (auto simp: c bc_inv_def pub_inv_def sub_inv_def)
  moreover have "bc_within c" using bc_reach_within [OF reach] newest
    by (auto simp: c bc_within_def)
  ultimately show ?thesis
    by (auto simp: c ctest_inv_def cast_queue_ok_def ctest_new_def test_main_ok_def test_flag_ok_def bc_new_def
        tcons_new_def tcons_ok_def latest_of_def count_up_def)
qed

lemma ctest_reach_inv: "ctest_reach cap m n s \<Longrightarrow> n \<le> 2 ^ 63 \<Longrightarrow> ctest_inv cap n s"
proof (induction rule: ctest_reach.induct)
  case (ctest_next s e s')
  from ctest_step_inv [OF ctest_next.IH [OF ctest_next.prems] ctest_next.prems ctest_next.hyps(2)] show ?case .
qed (rule ctest_new_inv)

section \<open>Properties\<close>

lemma nothing_received_pos:
  "explained C P p rs \<Longrightarrow> p < length P \<Longrightarrow> received rs = [] \<Longrightarrow> p + advance rs < length P"
  by (induction C P p rs rule: explained.induct) auto

text \<open>A thread that has returned its count: all published values, or it ended on a lap.\<close>

lemma counted_outcome:
  assumes inv: "ctest_inv cap n s" and lim: "0 < n" "n \<le> 2 ^ 63"
    and k: "ct_cons s i = Some k" "t_phase k = Counted"
  obtains r where "subs (ct_queue s) i = Some r" "t_got k = length (received (b_results r))"
    "n \<le> unat cap \<Longrightarrow> t_got k = n" "t_got k = 0 \<Longrightarrow> \<exists>j. last (b_results r) = Lapped j"
proof -
  note I = ctest_invD [OF inv]
  from I(5) [OF k(1)] obtain r where r: "subs (ct_queue s) i = Some r" "tcons_ok cap (ct_queue s) (ct_done s) k r" by blast
  from r(2) k(2) have got: "t_got k = length (received (b_results r))" "b_start r = 0" "ct_done s \<noteq> None"
    and ends: "(\<exists>j. last (b_results r) = Lapped j) \<and> b_results r \<noteq> [] \<or> sub_pos r = length (published (ct_queue s))"
    by (auto simp: tcons_ok_def)
  from I(3) got(3) have len: "length (published (ct_queue s)) = n"
    by (auto simp: test_main_ok_def split: test_main.splits)
  with bc_inv_sub(1) [OF I(1) r(1)] lim got(2)
  have ex: "explained (unat cap) (published (ct_queue s)) 0 (b_results r)" by (auto elim: sub_invE)
  have full: "t_got k = n" if n: "n \<le> unat cap"
  proof -
    have "\<not> ((\<exists>j. last (b_results r) = Lapped j) \<and> b_results r \<noteq> [])"
    proof (intro notI, elim conjE exE)
      fix j assume "last (b_results r) = Lapped j" "b_results r \<noteq> []"
      then have "b_results r = butlast (b_results r) @ [Lapped j]" by (metis append_butlast_last_id)
      with ex have "explained (unat cap) (published (ct_queue s)) 0 (butlast (b_results r) @ [Lapped j])" by simp
      then show False using n len by (simp add: explained_append)
    qed
    with ends have pos: "sub_pos r = n" using len by blast
    have "length (published (ct_queue s)) \<le> 0 + unat cap" using n len by simp
    from explained_no_lap [OF ex this] pos got show ?thesis by (simp add: sub_pos_def advance_total)
  qed
  have "\<exists>j. last (b_results r) = Lapped j" if "t_got k = 0"
  proof -
    from that got(1) have "received (b_results r) = []" by simp
    from nothing_received_pos [OF ex _ this] lim len have "sub_pos r \<noteq> n" by (simp add: sub_pos_def got(2))
    with ends len show ?thesis by blast
  qed
  with r(1) got(1) full show thesis by (rule that)
qed

text \<open>A run of the test with one consumer, \<open>CAPACITY = 1\<close> and two values, in which it fails.\<close>

definition failing_test_events :: "test_event list" where
  "failing_test_events =
     [TestRead 1, TestReadStep 1 0] @
     TestPublish # map TestPubStep [0, 0, 0, 0, 0, 0] @ TestPublish # map TestPubStep [1, 0, 0, 0, 0, 0] @
     [TestStoreDone, TestLoadDone 1 True, TestRead 1, TestReadStep 1 2, TestReadStep 1 4, TestReadStep 1 2, TestJoin]"

definition failing_test :: "ctest option" where
  "failing_test = Option.bind (test_clones 1 1) (\<lambda>c. ctest_run 1 1 2 (ctest_new 1 c) failing_test_events)"

lemma failing_test_outcome: "map_option ct_main failing_test = Some TestFailed"
  by code_simp

text \<open>
  C36: The test \<open>concurrent_single_producer_multiple_consumers\<close>, with any number of consumers, in any
  interleaving and with any stale loads: no consumer thread panics; with at most \<open>CAPACITY\<close> values
  each one that returns has got all of them; and the main thread fails only when more than \<open>CAPACITY\<close>
  values were published and a consumer that got none was overtaken in its last call.
\<close>

theorem concurrent_test_fails_only_by_lap:
  assumes "ctest_reach cap nconsumers n s" "0 < n" "n \<le> 2 ^ 63"
  shows "(\<forall>i k. ct_cons s i = Some k \<longrightarrow>
      t_phase k \<noteq> Panicked \<and> (t_phase k = Counted \<and> n \<le> unat cap \<longrightarrow> t_got k = n)) \<and>
    (ct_main s = TestFailed \<longrightarrow>
      unat cap < n \<and>
      (\<exists>i k r j. ct_cons s i = Some k \<and> t_phase k = Counted \<and> t_got k = 0 \<and>
         subs (ct_queue s) i = Some r \<and> received (b_results r) = [] \<and> last (b_results r) = Lapped j))"
proof (intro conjI allI impI)
  have inv: "ctest_inv cap n s" by (rule ctest_reach_inv [OF assms(1,3)])
  note I = ctest_invD [OF inv]
  fix i k assume k: "ct_cons s i = Some k"
  from I(5) [OF this] show "t_phase k \<noteq> Panicked" by (auto simp: tcons_ok_def)
  assume "t_phase k = Counted \<and> n \<le> unat cap"
  then show "t_got k = n" using counted_outcome [OF inv assms(2,3) k] by metis
next
  have inv: "ctest_inv cap n s" by (rule ctest_reach_inv [OF assms(1,3)])
  assume "ct_main s = TestFailed"
  with ctest_invD(3) [OF inv] obtain i k where k: "ct_cons s i = Some k" "t_phase k = Counted" "t_got k = 0"
    by (auto simp: test_main_ok_def)
  from counted_outcome [OF inv assms(2,3) k(1,2)] obtain r where r: "subs (ct_queue s) i = Some r"
    "t_got k = length (received (b_results r))" "n \<le> unat cap \<Longrightarrow> t_got k = n"
    "t_got k = 0 \<Longrightarrow> \<exists>j. last (b_results r) = Lapped j" by metis
  show "unat cap < n" using r(3) k(3) assms(2) by fastforce
  show "\<exists>i k r j. ct_cons s i = Some k \<and> t_phase k = Counted \<and> t_got k = 0 \<and>
      subs (ct_queue s) i = Some r \<and> received (b_results r) = [] \<and> last (b_results r) = Lapped j"
    using k r by auto
qed

theorem concurrent_test_fails_only_by_lap_witness:
  "\<exists>s. ctest_reach 1 1 2 s \<and> ct_main s = TestFailed \<and> unat (1 :: usize) < 2 \<and>
     (\<forall>i k. ct_cons s i = Some k \<longrightarrow> t_phase k \<noteq> Panicked)"
proof -
  from failing_test_outcome obtain c s where c: "test_clones 1 1 = Some c"
    and s: "ctest_run 1 1 2 (ctest_new 1 c) failing_test_events = Some s" "ct_main s = TestFailed"
    by (auto simp: failing_test_def bind_eq_Some_conv)
  have "is_power_of_two 1" by code_simp
  from ctest_reach_run [OF ctest_init [OF this c] s(1)] have reach: "ctest_reach 1 1 2 s" .
  from concurrent_test_fails_only_by_lap [OF this] reach s(2) show ?thesis by auto
qed

section \<open>The hello example\<close>

text \<open>
  \<open>examples/spmc/hello.rs\<close>: the capacity and the values published. Each consumer thread collects as
  many as there are; within the capacity it collects exactly these, in any interleaving.
\<close>

definition hello_spmc :: "usize \<times> nat list" where
  "hello_spmc = (16, [0..<8])"

theorem hello_spmc_collects:
  assumes "bc_reach (fst hello_spmc) 1 [0] c" "prefix (published c) (map (\<lambda>v. [v]) (snd hello_spmc))"
    and "subs c i = Some r" "b_start r = 0"
    and "hello_collect 8 [] (map (map_read_result hd) (b_results r)) = Some vs"
  shows "vs = snd hello_spmc"
proof -
  have cap: "unat (fst hello_spmc) = 16" "snd hello_spmc = [0..<8]" by (simp_all add: hello_spmc_def)
  have len: "length (published c) \<le> 8" using prefix_length_le [OF assms(2)] by (simp add: cap)
  from bc_inv_sub(1) [OF bc_reach_inv [OF assms(1)] assms(3)] len
  have ex: "explained 16 (published c) 0 (b_results r)" by (auto simp: cap assms(4) elim: sub_invE)
  have "prefix (map hd (published c)) (map hd (map (\<lambda>v. [v]) (snd hello_spmc)))"
    by (rule map_mono_prefix [OF assms(2)])
  then have "prefix (map hd (published c)) [0..<8]" by (simp add: cap comp_def)
  moreover have "received (b_results r) = take (advance (b_results r)) (published c)"
    using explained_no_lap [OF ex] len by simp
  then have "prefix (map hd (received (b_results r))) (map hd (published c))"
    by (simp add: take_map [symmetric] take_is_prefix)
  ultimately have pre: "prefix (map hd (received (b_results r))) [0..<8]" by (rule prefix_order.trans [rotated])
  from hello_collect_received [OF assms(5)]
  have vs: "vs = take 8 (map hd (received (b_results r)))" "length vs = 8" unfolding received_map by auto
  have "prefix vs [0..<8]" unfolding vs(1) by (rule prefix_order.trans [OF take_is_prefix pre])
  then obtain zs where zs: "[0..<8] = vs @ zs" by (rule prefixE)
  from arg_cong [OF this, of length] vs(2) have "zs = []" by simp
  with zs show ?thesis by (simp add: cap)
qed

end
