(* ===== verification/Seqlock_Blocking.thy ===== *)
theory Seqlock_Blocking
  imports Seqlock_Progress
begin

text \<open>
  What a writer that stops inside \<open>write\<close> does to the readers: the loop of \<open>SeqLockInner::read\<close>
  (\<open>src/src/seqlock/lock.rs\<close>) goes on for as long as the sequence number it sees is odd.
\<close>

section \<open>A suspended writer\<close>

text \<open>The writer is between its first and its last store of the sequence number.\<close>

fun mid_write :: "'v wpc \<Rightarrow> bool" where
  "mid_write (WFence v s) = True"
| "mid_write (WData v s i) = True"
| "mid_write _ = False"

text \<open>The reader has seen the newest sequence number and has no copy in progress.\<close>

definition sees_write :: "'v sl \<Rightarrow> 'v reader \<Rightarrow> bool" where
  "sees_write c r \<longleftrightarrow> (r_pc r = RIdle \<or> r_pc r = RSeq1) \<and> cur (r_view r) Seq = length (seq_h c) - 1"

definition by_writer :: "'v sl_event \<Rightarrow> bool" where
  "by_writer e = (case e of WriteCall v \<Rightarrow> True | WriteStep ts \<Rightarrow> True | _ \<Rightarrow> False)"

lemma mid_write_odd:
  assumes "sl_inv n c" "mid_write (w_pc c)"
  shows "\<exists>k. length (seq_h c) = 2 * k \<and> 0 < k" "fst (seq_h c ! (length (seq_h c) - 1)) AND 1 = 1"
proof -
  from assms show k: "\<exists>k. length (seq_h c) = 2 * k \<and> 0 < k"
    by (cases "w_pc c") (auto simp: sl_inv_def intro!: exI [of _ "length (written c) - 1"])
  then obtain k where "length (seq_h c) = 2 * k" "0 < k" by blast
  then have "odd (length (seq_h c) - 1)" "length (seq_h c) - 1 < length (seq_h c)" by auto
  moreover from assms(1) this(2) have "fst (seq_h c ! (length (seq_h c) - 1)) = of_nat (length (seq_h c) - 1)"
    by (auto simp: sl_inv_def sl_hist_inv_def)
  ultimately show "fst (seq_h c ! (length (seq_h c) - 1)) AND 1 = 1"
    by (simp add: and_1_of_nat del: One_nat_def)
qed

lemma suspended_read_step:
  assumes "sl_inv n c" "sl_within c" "mid_write (w_pc c)" "sees_write c r" "sl_read_step n ts c r = Some r'"
  shows "r_pc r' = RSeq1 \<and> sees_write c r' \<and> r_got r' = r_got r"
proof -
  from assms(4,5) have "r_pc r = RSeq1" by (auto simp: sees_write_def sl_read_step_def)
  with assms(5) obtain s1 V where ld: "load_acquire Seq (seq_h c) ts (r_view r) = Some (s1, V)"
    and r': "r' = r\<lparr>r_pc := if s1 AND 1 = 1 then RSeq1 else RData s1 [], r_view := V\<rparr>"
    by (auto simp: sl_read_step_def split: option.splits)
  note l = load_acquire_Some [OF ld]
  have ts: "ts = length (seq_h c) - 1" using l(1,2) assms(4) by (simp add: sees_write_def)
  have "snd (seq_h c ! ts) Seq \<le> ts"
  proof -
    have "view_within (sl_newest c) (snd (seq_h c ! ts))"
      using sl_withinD(3) [OF assms(2)] nth_mem [OF l(1)] by (simp add: hist_within_def)
    then have "snd (seq_h c ! ts) Seq \<le> sl_newest c Seq" by (simp only: view_within_def)
    with ts show ?thesis by simp
  qed
  with l(3,5) ts mid_write_odd(2) [OF assms(1,3)] assms(4) r' show ?thesis
    by (auto simp: sees_write_def)
qed

lemma suspended_step:
  assumes "sl_reach n v0 c" "mid_write (w_pc c)" "readers c i = Some r" "sees_write c r"
    and "\<not> by_writer e" "sl_step n c e = Some c'"
  shows "mid_write (w_pc c') \<and> (\<exists>r'. readers c' i = Some r' \<and> sees_write c' r' \<and> r_got r' = r_got r)"
proof (cases e)
  case (ReadCall j)
  with assms(3,4,6) show ?thesis using assms(2)
    by (cases "j = i") (auto simp: sees_write_def split: option.splits if_splits)
next
  case (ReadStep j ts)
  with assms(6) obtain q q' where q: "readers c j = Some q" "sl_read_step n ts c q = Some q'"
    and c': "c' = c\<lparr>readers := (readers c)(j \<mapsto> q')\<rparr>" by (auto split: option.splits)
  show ?thesis
  proof (cases "j = i")
    case True
    with q assms(3) have "sl_read_step n ts c r = Some q'" by simp
    from suspended_read_step [OF sl_reach_inv [OF assms(1)] sl_reach_within [OF assms(1)] assms(2,4) this]
    have "sees_write c' q'" "r_got q' = r_got r" unfolding c' by (auto simp: sees_write_def)
    with True c' assms(2) show ?thesis by simp
  qed (use c' assms(2-4) in \<open>auto simp: sees_write_def\<close>)
next
  case (CloneReader j k)
  with assms(3,6) obtain q where "readers c k = None" "c' = c\<lparr>readers := (readers c)(k \<mapsto> q)\<rparr>"
    by (auto split: option.splits)
  with assms(2-4) show ?thesis by (cases "k = i") (auto simp: sees_write_def)
qed (use assms(5) in \<open>simp_all add: by_writer_def\<close>)

lemma suspended_run:
  assumes "sl_reach n v0 c" "mid_write (w_pc c)" "readers c i = Some r" "sees_write c r"
    and "\<forall>e\<in>set es. \<not> by_writer e" "sl_run n c es = Some c'"
  shows "mid_write (w_pc c') \<and> (\<exists>r'. readers c' i = Some r' \<and> sees_write c' r' \<and> r_got r' = r_got r)"
  using assms
proof (induction es arbitrary: c r)
  case Nil
  then show ?case by simp
next
  case (Cons e es)
  then obtain c1 where st: "sl_step n c e = Some c1" and run: "sl_run n c1 es = Some c'"
    by (auto split: option.splits)
  have "\<not> by_writer e" using Cons.prems(5) by simp
  from suspended_step [OF Cons.prems(1-4) this st] obtain r1 where
    "mid_write (w_pc c1)" "readers c1 i = Some r1" "sees_write c1 r1" "r_got r1 = r_got r" by blast
  with Cons.IH [OF sl_next [OF Cons.prems(1) st] _ _ _ _ run] Cons.prems(5) show ?case by simp
qed

section \<open>Properties\<close>

definition suspended_events :: "nat sl_event list" where
  "suspended_events = [WriteCall [1, 1], WriteStep 0, WriteStep 0, CloneReader 0 1, ReadCall 0, ReadStep 0 1]"

lemma suspended_demo:
  "map_option (\<lambda>c. (mid_write (w_pc c), length (seq_h c), map_option (\<lambda>r. (r_pc r, cur (r_view r) Seq, r_got r)) (readers c 0),
       map_option (\<lambda>c'. ()) (sl_run 2 c [ReadStep 0 1, ReadStep 0 1])))
     (sl_run 2 (sl_new 2 [0 :: nat, 0]) suspended_events) = Some (True, 2, Some (RSeq1, 1, []), Some ())"
  by code_simp

text \<open>
  C26: \<open>read\<close> is not lock-free: when the writer stops between its two stores of the sequence number, a
  reader that has seen the first one never returns from \<open>read\<close> again, whatever the readers do and
  however long, until the writer goes on. If all readers have seen it, no call in the program ends.
\<close>

theorem suspended_writer_blocks_readers:
  assumes "sl_reach n v0 c" "mid_write (w_pc c)" "readers c i = Some r" "sees_write c r"
    and "\<forall>e\<in>set es. \<not> by_writer e" "sl_run n c es = Some c'"
  shows "\<exists>r'. readers c' i = Some r' \<and> r_got r' = r_got r \<and>
    (\<forall>ts r''. sl_read_step n ts c' r' = Some r'' \<longrightarrow> r_pc r'' = RSeq1)"
proof -
  from suspended_run [OF assms] obtain r' where
    m: "mid_write (w_pc c')" and r': "readers c' i = Some r'" "sees_write c' r'" "r_got r' = r_got r" by blast
  have reach: "sl_reach n v0 c'" by (rule sl_reach_run [OF assms(1,6)])
  from suspended_read_step [OF sl_reach_inv [OF reach] sl_reach_within [OF reach] m r'(2)] r'
  show ?thesis by blast
qed

theorem suspended_writer_blocks_readers_witness:
  "\<exists>c r c' r'. sl_reach 2 [0, 0 :: nat] c \<and> readers c 0 = Some r \<and> r_pc r = RSeq1 \<and>
    sl_run 2 c [ReadStep 0 1, ReadStep 0 1] = Some c' \<and> readers c' 0 = Some r' \<and> r_got r' = r_got r"
proof -
  obtain c r c' where c: "sl_run 2 (sl_new 2 [0 :: nat, 0]) suspended_events = Some c" "mid_write (w_pc c)"
    "length (seq_h c) = 2" "readers c 0 = Some r" "r_pc r = RSeq1" "cur (r_view r) Seq = 1"
    and c': "sl_run 2 c [ReadStep 0 1, ReadStep 0 1] = Some c'"
    using suspended_demo by (auto simp del: sl_run.simps)
  have reach: "sl_reach 2 [0, 0] c" by (rule sl_reach_run [OF sl_init c(1)]) simp
  have sees: "sees_write c r" using c(3,5,6) by (simp add: sees_write_def)
  have "\<forall>e\<in>set [ReadStep 0 1, ReadStep 0 1]. \<not> by_writer e" by (simp add: by_writer_def)
  from suspended_writer_blocks_readers [OF reach c(2,4) sees this c'] reach c(4,5) c' show ?thesis by blast
qed

end
