(* ===== verification/Spsc_Synchronised.thy ===== *)
theory Spsc_Synchronised
  imports Spsc_Shutdown
begin

text \<open>
  The SPSC queue among other synchronisation. The two threads of \<open>Spsc_Concurrent\<close> may also
  synchronise through anything else (a flag, a barrier, a join, another queue): a release makes a
  thread's view available, an acquire joins an available view to that of the other thread. What a
  thread knows in this way, a call that it makes afterwards respects: \<open>pop\<close> does not miss an item
  whose \<open>push\<close> happened before it, and \<open>push\<close> is not refused for a slot whose \<open>pop\<close> happened before it.
\<close>

section \<open>The machine\<close>

text \<open>
  A release comes with the number of calls that its thread has completed: items sent by the
  producer, or taken by the consumer. \<open>c_knows\<close> and \<open>p_knows\<close> are the largest numbers acquired.
\<close>

record 'a spx =
  sx_queue :: "'a sp"
  p_released :: "(nat \<times> sp_loc view) list"
  c_released :: "(nat \<times> sp_loc view) list"
  c_knows :: nat
  p_knows :: nat

definition spx_new :: "usize \<Rightarrow> 'a spx" where
  "spx_new cap =
     \<lparr>sx_queue = sp_new (replicate (unat cap) None), p_released = [], c_released = [], c_knows = 0, p_knows = 0\<rparr>"

datatype 'a spx_event =
    SxQueue "'a sp_event"
  | ProducerRelease
  | ConsumerAcquire nat
  | ConsumerRelease
  | ProducerAcquire nat

definition p_acquire :: "sp_loc view \<Rightarrow> 'a sp \<Rightarrow> 'a sp" where
  "p_acquire w c = c\<lparr>p_view := (p_view c)\<lparr>cur := join (cur (p_view c)) w, acq := join (acq (p_view c)) w\<rparr>\<rparr>"

fun spx_step :: "usize \<Rightarrow> 'a spx \<Rightarrow> 'a spx_event \<Rightarrow> (fault + 'a spx) option" where
  "spx_step cap s (SxQueue e) =
     map_option (map_sum id (\<lambda>c. s\<lparr>sx_queue := c\<rparr>)) (sp_step cap (sx_queue s) e)"
| "spx_step cap s ProducerRelease =
     (let c = sx_queue s in
      if p_pc c = PIdle
      then Some (Inr (s\<lparr>p_released := p_released s @ [(length (sent c), cur (p_view c))]\<rparr>)) else None)"
| "spx_step cap s (ConsumerAcquire k) =
     (if c_pc (sx_queue s) = CIdle \<and> k < length (p_released s)
      then let (m, w) = p_released s ! k
        in Some (Inr (s\<lparr>sx_queue := acquire_view w (sx_queue s), c_knows := max m (c_knows s)\<rparr>)) else None)"
| "spx_step cap s ConsumerRelease =
     (let c = sx_queue s in
      if c_pc c = CIdle
      then Some (Inr (s\<lparr>c_released := c_released s @ [(length (got c), cur (c_view c))]\<rparr>)) else None)"
| "spx_step cap s (ProducerAcquire k) =
     (if p_pc (sx_queue s) = PIdle \<and> k < length (c_released s)
      then let (m, w) = c_released s ! k
        in Some (Inr (s\<lparr>sx_queue := p_acquire w (sx_queue s), p_knows := max m (p_knows s)\<rparr>)) else None)"

inductive spx_reach :: "usize \<Rightarrow> 'a spx \<Rightarrow> bool" for cap where
  spx_init: "is_power_of_two cap \<Longrightarrow> spx_reach cap (spx_new cap)"
| spx_next: "spx_reach cap s \<Longrightarrow> spx_step cap s e = Some (Inr s') \<Longrightarrow> spx_reach cap s'"

fun spx_run :: "usize \<Rightarrow> 'a spx \<Rightarrow> 'a spx_event list \<Rightarrow> (fault + 'a spx) option" where
  "spx_run cap s [] = Some (Inr s)"
| "spx_run cap s (e # es) =
     (case spx_step cap s e of
        Some (Inr s') \<Rightarrow> spx_run cap s' es
      | r \<Rightarrow> r)"

lemma spx_reach_run: "spx_reach cap s \<Longrightarrow> spx_run cap s es = Some (Inr s') \<Longrightarrow> spx_reach cap s'"
  by (induction es arbitrary: s) (auto split: option.splits sum.splits intro: spx_next)

section \<open>Views, own counters and what the other thread leaves alone\<close>

text \<open>The two counters a thread stores to are in its view as its own last stores.\<close>

definition own_head :: "'a sp \<Rightarrow> bool" where
  "own_head c \<longleftrightarrow> length (got c) \<le> cur (c_view c) Head"

definition own_sent :: "'a sp \<Rightarrow> bool" where
  "own_sent c \<longleftrightarrow> length (sent c) \<le> cur (p_view c) Tail"

lemma pop_step_sees_own:
  "sp_inv cap c \<Longrightarrow> own_head c \<Longrightarrow> pop_step cap t c = Some (Inr c') \<Longrightarrow> own_head c'"
  by (cases "c_pc c")
    (auto simp: pop_step_def Let_def own_head_def touch_def store_release_def dest!: sp_invD(3)
      intro: order_trans [OF _ load_acquire_grows] split: option.splits sum.splits if_splits)

lemma push_step_own_sent:
  "sp_inv cap c \<Longrightarrow> own_sent c \<Longrightarrow> push_step cap t c = Some (Inr c') \<Longrightarrow> own_sent c'"
  by (cases "p_pc c")
    (auto simp: push_step_def Let_def own_sent_def touch_def store_release_def dest!: sp_invD(2)
      intro: order_trans [OF _ load_acquire_grows] split: option.splits sum.splits if_splits)

lemma push_step_head: "push_step cap t c = Some (Inr c') \<Longrightarrow> cur (p_view c) Head \<le> cur (p_view c') Head"
  by (cases "p_pc c") (auto simp: push_step_def Let_def store_release_def touch_def load_acquire_grows
      split: option.splits sum.splits if_splits)

lemma sp_producer_view:
  assumes "sp_producer C T H nw p V pc" "\<And>l. cur V l \<le> cur W l"
  shows "sp_producer C T H nw p W pc"
  using assms(1)
proof (rule sp_producerE)
  fix ph assume p: "p_cached_tail p = of_nat T" "ph \<le> H" "p_cached_head p = of_nat ph" "ph \<le> cur V Head"
    "T \<le> ph + C" "\<And>j. j < C \<Longrightarrow> visits C j ph \<le> cur V (SlotR j)" "\<And>x. pc = PWrite x \<or> pc = PStore x \<Longrightarrow> T < ph + C"
    "\<And>j. j < C \<Longrightarrow> nw j \<le> cur V (SlotW j)" "\<And>j. j < C \<Longrightarrow> nw j = visits C j (T + length (in_flight pc))"
  then show ?thesis
    by (intro sp_producerI [where ph = ph]) (auto intro: order_trans [OF _ assms(2)])
qed

lemma p_acquire_inv:
  assumes "sp_inv cap c" "sp_within c" "view_within (sp_newest c) w"
  shows "sp_inv cap (p_acquire w c)" "sp_within (p_acquire w c)"
proof -
  note i = sp_invD [OF assms(1)]
  show "sp_inv cap (p_acquire w c)"
    by (rule sp_invI) (use i sp_producer_view [OF i(5)] in \<open>auto simp: p_acquire_def\<close>)
  show "sp_within (p_acquire w c)"
    by (rule sp_same_newest [OF assms(2)])
      (use assms(2,3) in \<open>auto simp: p_acquire_def sp_newest_def fun_eq_iff sp_within_def tview_within_def
        view_within_def split: sp_loc.split\<close>)
qed

section \<open>What a call sees\<close>

text \<open>A \<open>pop\<close> that finds nothing has taken everything its thread knows to have been sent.\<close>

lemma pop_nothing_known:
  assumes inv: "sp_inv cap c" and step: "pop_step cap t c = Some (Inr c')" and idle: "c_pc c' = CIdle"
    and none: "got c' = got c"
  shows "cur (c_view c) Tail \<le> length (got c)"
proof (cases "c_pc c")
  case CLoadTail
  note i = sp_invD [OF inv]
  let ?T = "length (sent c)" and ?H = "length (got c)"
  from step CLoadTail obtain v V where ld: "load_acquire Tail (tail_h c) t (c_view c) = Some (v, V)"
    and c': "c_pc c' = (if c_cached_head (c_local c) = v then CIdle else CRead)"
    by (auto simp: pop_step_def Let_def split: option.splits if_splits)
  note l = load_acquire_Some [OF ld]
  have t: "t \<le> ?T" using l(1) i(2) by simp
  have v: "v = of_nat t" using l(1,3) i(4) by (simp add: sp_hists_def)
  from i(6) obtain ct where H: "c_cached_head (c_local c) = of_nat ?H" "?H \<le> ct" "ct \<le> cur (c_view c) Tail"
    by (auto elim: sp_consumerE)
  have "?H \<le> t" using H(2,3) l(2) by simp
  moreover have "t \<le> ?H + unat cap" using t sp_inv_room [OF inv] by simp
  moreover have "c_cached_head (c_local c) = v" using c' idle by (simp split: if_splits)
  ultimately show ?thesis
    using consumer_empty_iff [OF i(1), of ?H t] H(1) v l(2) by simp
qed (use step idle none in \<open>auto simp: pop_step_def Let_def store_release_def split: sum.splits if_splits\<close>)

text \<open>A \<open>push\<close> that is refused found the queue full of items its thread does not know to be taken.\<close>

lemma push_refused_known:
  assumes inv: "sp_inv cap c" and step: "push_step cap t c = Some (Inr c')" and refused: "refused c' \<noteq> refused c"
  shows "cur (p_view c) Head + unat cap \<le> length (sent c)"
proof (cases "p_pc c")
  case (PLoadHead x)
  note i = sp_invD [OF inv]
  let ?T = "length (sent c)" and ?H = "length (got c)"
  from step PLoadHead refused obtain h V where ld: "load_acquire Head (head_h c) t (p_view c) = Some (h, V)"
    and full: "p_cached_tail (p_local c) - h = cap"
    by (auto simp: push_step_def Let_def split: option.splits if_splits)
  note l = load_acquire_Some [OF ld]
  from i(5) obtain ph where p: "p_cached_tail (p_local c) = of_nat ?T" "ph \<le> cur (p_view c) Head" "?T \<le> ph + unat cap"
    by (auto elim: sp_producerE)
  have t: "t \<le> ?H" using l(1) i(3) by simp
  have h: "h = of_nat t" using l(1,3) i(4) by (simp add: sp_hists_def)
  have "?T = t + unat cap"
    using producer_full_iff [OF i(1), of ?T t] p l(2) full h t i(7) by simp
  with l(2) show ?thesis by simp
qed (use step refused in \<open>auto simp: push_step_def Let_def store_release_def split: sum.splits if_splits\<close>)

section \<open>The invariant\<close>

definition released_ok :: "'a sp \<Rightarrow> sp_loc \<Rightarrow> (nat \<times> sp_loc view) list \<Rightarrow> bool" where
  "released_ok c l ws \<longleftrightarrow> (\<forall>(m, w) \<in> set ws. m \<le> w l \<and> view_within (sp_newest c) w)"

definition spx_inv :: "usize \<Rightarrow> 'a spx \<Rightarrow> bool" where
  "spx_inv cap s \<longleftrightarrow>
     (let c = sx_queue s in
       sp_inv cap c \<and> sp_within c \<and> own_head c \<and> own_sent c \<and>
       released_ok c Tail (p_released s) \<and> released_ok c Head (c_released s) \<and>
       c_knows s \<le> cur (c_view c) Tail \<and> p_knows s \<le> cur (p_view c) Head)"

lemma released_ok_mono:
  "released_ok c l ws \<Longrightarrow> (\<And>l. sp_newest c l \<le> sp_newest c' l) \<Longrightarrow> released_ok c' l ws"
  unfolding released_ok_def by (blast intro: within_mono(1))

lemma released_ok_nth:
  "released_ok c l ws \<Longrightarrow> k < length ws \<Longrightarrow> ws ! k = (m, w) \<Longrightarrow> m \<le> w l \<and> view_within (sp_newest c) w"
  unfolding released_ok_def by (fastforce dest: nth_mem)

lemma released_ok_snoc:
  "released_ok c l (ws @ [(m, w)]) \<longleftrightarrow> released_ok c l ws \<and> m \<le> w l \<and> view_within (sp_newest c) w"
  by (auto simp: released_ok_def)

lemma newest_acquire:
  "sp_newest (acquire_view w c) = sp_newest c" "sp_newest (p_acquire w c) = sp_newest c"
  by (simp_all add: fun_eq_iff sp_newest_def acquire_view_def p_acquire_def split: sp_loc.split)

lemma released_ok_cong: "sp_newest c' = sp_newest c \<Longrightarrow> released_ok c' l ws = released_ok c l ws"
  by (simp add: released_ok_def)

text \<open>A step of the queue keeps the parts of the invariant that are about the queue alone.\<close>

lemma spx_queue_step:
  assumes inv: "spx_inv cap s" and step: "sp_step cap (sx_queue s) e = Some r"
  shows "\<exists>c. r = Inr c \<and> spx_inv cap (s\<lparr>sx_queue := c\<rparr>)"
proof -
  let ?q = "sx_queue s"
  from inv have q: "sp_inv cap ?q" "sp_within ?q" "own_head ?q" "own_sent ?q"
    and rel: "released_ok ?q Tail (p_released s)" "released_ok ?q Head (c_released s)"
    and known: "c_knows s \<le> cur (c_view ?q) Tail" "p_knows s \<le> cur (p_view ?q) Head"
    by (simp_all add: spx_inv_def Let_def)
  from q(1) step obtain c where c: "r = Inr c" "sp_inv cap c" by (rule sp_step_inv)
  have "spx_inv cap (s\<lparr>sx_queue := c\<rparr>)"
  proof (cases e)
    case (PushCall x)
    with step c have pc: "p_pc ?q = PIdle" and c': "c = push_call cap ?q x" by (auto split: if_splits)
    from q c(2) rel known call_within(1) [OF q(2)] show ?thesis
      by (simp add: spx_inv_def c' released_ok_cong [OF newest_calls(1)])
        (simp add: own_head_def own_sent_def push_call_def)
  next
    case PopCall
    with step c have pc: "c_pc ?q = CIdle" and c': "c = pop_call ?q" by (auto split: if_splits)
    from q c(2) rel known call_within(2) [OF q(2)] show ?thesis
      by (simp add: spx_inv_def c' released_ok_cong [OF newest_calls(2)])
        (simp add: own_head_def own_sent_def pop_call_def)
  next
    case (PushStep t)
    with step c have st: "push_step cap t ?q = Some (Inr c)" by simp
    from push_step_frame [OF st] push_step_head [OF st] push_step_own_sent [OF q(1,4) st]
      push_step_within [OF q(2) st] rel [THEN released_ok_mono, OF push_step_newest [OF st]] c(2) q(3) known
    show ?thesis by (auto simp: spx_inv_def own_head_def)
  next
    case (PopStep t)
    with step c have st: "pop_step cap t ?q = Some (Inr c)" by simp
    from pop_step_frame [OF st] pop_step_sees_own [OF q(1,3) st]
      pop_step_within [OF q(2) st] rel [THEN released_ok_mono, OF pop_step_newest [OF st]] c(2) q(4) known
    show ?thesis by (auto simp: spx_inv_def own_sent_def)
  qed
  with c(1) show ?thesis by blast
qed

lemma spx_step_inv:
  assumes inv: "spx_inv cap s" and step: "spx_step cap s e = Some r"
  shows "\<exists>s'. r = Inr s' \<and> spx_inv cap s'"
proof -
  let ?q = "sx_queue s"
  from inv have q: "sp_inv cap ?q" "sp_within ?q" "own_head ?q" "own_sent ?q"
    and rel: "released_ok ?q Tail (p_released s)" "released_ok ?q Head (c_released s)"
    and known: "c_knows s \<le> cur (c_view ?q) Tail" "p_knows s \<le> cur (p_view ?q) Head"
    by (simp_all add: spx_inv_def Let_def)
  show ?thesis
  proof (cases e)
    case (SxQueue e')
    with step obtain r' where r': "sp_step cap ?q e' = Some r'" "r = map_sum id (\<lambda>c. s\<lparr>sx_queue := c\<rparr>) r'"
      by (auto simp del: sp_step.simps)
    from spx_queue_step [OF inv r'(1)] r'(2) show ?thesis by auto
  next
    case ProducerRelease
    with step inv q(2,4) show ?thesis
      by (auto simp: spx_inv_def Let_def released_ok_snoc own_sent_def sp_within_def tview_within_def split: if_splits)
  next
    case ConsumerRelease
    with step inv q(2,3) show ?thesis
      by (auto simp: spx_inv_def Let_def released_ok_snoc own_head_def sp_within_def tview_within_def split: if_splits)
  next
    case (ConsumerAcquire k)
    with step obtain m w where k: "k < length (p_released s)" "p_released s ! k = (m, w)"
      and r: "r = Inr (s\<lparr>sx_queue := acquire_view w ?q, c_knows := max m (c_knows s)\<rparr>)"
      by (auto split: if_splits prod.splits)
    from released_ok_nth [OF rel(1) k] acquire_view_inv [OF q(1,2)] q rel known show ?thesis
      by (auto simp: r spx_inv_def released_ok_cong [OF newest_acquire(1)])
        (auto simp: acquire_view_def own_head_def own_sent_def)
  next
    case (ProducerAcquire k)
    with step obtain m w where k: "k < length (c_released s)" "c_released s ! k = (m, w)"
      and r: "r = Inr (s\<lparr>sx_queue := p_acquire w ?q, p_knows := max m (p_knows s)\<rparr>)"
      by (auto split: if_splits prod.splits)
    from released_ok_nth [OF rel(2) k] p_acquire_inv [OF q(1,2)] q rel known show ?thesis
      by (auto simp: r spx_inv_def released_ok_cong [OF newest_acquire(2)])
        (auto simp: p_acquire_def own_head_def own_sent_def)
  qed
qed

lemma spx_new_inv: "is_power_of_two cap \<Longrightarrow> spx_inv cap (spx_new cap)"
proof -
  assume p: "is_power_of_two cap"
  from sp_new_inv [OF p] sp_reach_within [OF sp_init [OF p]] show ?thesis
    by (simp add: spx_inv_def spx_new_def released_ok_def own_head_def own_sent_def Let_def) (simp add: sp_new_def)
qed

lemma spx_reach_inv: "spx_reach cap s \<Longrightarrow> spx_inv cap s"
proof (induction rule: spx_reach.induct)
  case (spx_next s e s')
  from spx_step_inv [OF spx_next.IH spx_next.hyps(2)] show ?case by simp
qed (rule spx_new_inv)

section \<open>Properties\<close>

text \<open>
  C10: SPSC queue among other synchronisation of the two threads, of any kind and at any time between
  their calls, under weak memory: no step faults; a \<open>pop\<close> that returns nothing has had every item
  whose \<open>push\<close> happened before it; and a \<open>push\<close> is refused only when \<open>CAPACITY\<close> items have been sent
  on top of those whose \<open>pop\<close> happened before it.
\<close>

theorem spsc_sees_what_happened_before:
  assumes "spx_reach cap s"
  shows "spx_step cap s e \<noteq> Some (Inl f) \<and>
    (\<forall>t c'. pop_step cap t (sx_queue s) = Some (Inr c') \<and> c_pc c' = CIdle \<and> got c' = got (sx_queue s) \<longrightarrow>
       c_knows s \<le> length (got c')) \<and>
    (\<forall>t c'. push_step cap t (sx_queue s) = Some (Inr c') \<and> refused c' \<noteq> refused (sx_queue s) \<longrightarrow>
       p_knows s + unat cap \<le> length (sent c'))"
proof -
  have inv: "spx_inv cap s" by (rule spx_reach_inv [OF assms])
  then have q: "sp_inv cap (sx_queue s)" and known: "c_knows s \<le> cur (c_view (sx_queue s)) Tail"
      "p_knows s \<le> cur (p_view (sx_queue s)) Head"
    by (simp_all add: spx_inv_def Let_def)
  have "spx_step cap s e \<noteq> Some (Inl f)" using spx_step_inv [OF inv, of e "Inl f"] by blast
  moreover have "c_knows s \<le> length (got c')"
    if "pop_step cap t (sx_queue s) = Some (Inr c')" "c_pc c' = CIdle" "got c' = got (sx_queue s)" for t c'
    using pop_nothing_known [OF q that] known(1) that(3) by simp
  moreover have "p_knows s + unat cap \<le> length (sent c')"
    if "push_step cap t (sx_queue s) = Some (Inr c')" "refused c' \<noteq> refused (sx_queue s)" for t c'
  proof -
    from push_step_frame [OF that(1)] have "length (sent (sx_queue s)) \<le> length (sent c')" by auto
    with push_refused_known [OF q that] known(2) show ?thesis by linarith
  qed
  ultimately show ?thesis by blast
qed

text \<open>
  A run in which the consumer looks at an old \<open>tail\<close> and finds nothing, acquires what the producer
  released, and then cannot look at it again.
\<close>

definition synchronised_events :: "nat spx_event list" where
  "synchronised_events =
     map SxQueue [PushCall 7, PushStep 0, PushStep 0, PopCall, PopStep 0] @
     [ProducerRelease, ConsumerAcquire 0, SxQueue PopCall]"

lemma demo_synchronised:
  "map_option (map_sum id (\<lambda>s. (c_knows s, got (sx_queue s), c_pc (sx_queue s))))
     (spx_run 2 (spx_new 2) synchronised_events) = Some (Inr (1, [], CLoadTail))"
  by code_simp

lemma map_sum_eq_Inr: "map_sum f g z = Inr y \<Longrightarrow> (\<And>x. z = Inr x \<Longrightarrow> y = g x \<Longrightarrow> thesis) \<Longrightarrow> thesis"
  by (cases z) auto

theorem spsc_sees_what_happened_before_witness:
  "\<exists>s. spx_reach 2 s \<and> c_knows s = 1 \<and> got (sx_queue s) = ([] :: nat list) \<and> c_pc (sx_queue s) = CLoadTail \<and>
     \<not> (\<exists>t c'. pop_step 2 t (sx_queue s) = Some (Inr c') \<and> c_pc c' = CIdle \<and> got c' = [])"
proof -
  from demo_synchronised obtain s where s: "spx_run 2 (spx_new 2) synchronised_events = Some (Inr s)"
    "c_knows s = 1" "got (sx_queue s) = []" "c_pc (sx_queue s) = CLoadTail"
    by (cases "spx_run 2 (spx_new 2) synchronised_events") (auto elim: map_sum_eq_Inr)
  have "is_power_of_two 2" by code_simp
  from spx_reach_run [OF spx_init [OF this] s(1)] have reach: "spx_reach 2 s" .
  from spsc_sees_what_happened_before [OF this, of "SxQueue PopCall"] s reach show ?thesis by fastforce
qed

end
