(* ===== verification/Spmc_Synchronised.thy ===== *)
theory Spmc_Synchronised
  imports Spmc_Shutdown
begin

text \<open>
  The SPMC queue among other synchronisation: as \<open>Spsc_Synchronised\<close>, for the machine of
  \<open>Spmc_Concurrent\<close> with its producer and any number of consumers. A consumer does not find the
  queue empty before it has passed every value whose \<open>publish\<close> happened before its call.
\<close>

section \<open>The machine\<close>

text \<open>
  A release comes with how far the log is known to reach: everything published by the idle producer,
  or what a consumer has passed or learned itself. \<open>knows i\<close> is what consumer \<open>i\<close> has learned.
\<close>

record 'v bcx =
  bx_queue :: "'v bc"
  releases :: "(nat \<times> bc_loc view) list"
  knows :: "nat \<Rightarrow> nat"

definition bcx_new :: "'v list \<Rightarrow> 'v bcx" where
  "bcx_new zeroed = \<lparr>bx_queue = bc_new zeroed, releases = [], knows = (\<lambda>_. 0)\<rparr>"

datatype 'v bcx_event =
    BxQueue "'v bc_event"
  | PubRelease
  | PubAcquire nat
  | SubRelease nat
  | SubAcquire nat nat

definition pub_acquire :: "bc_loc view \<Rightarrow> 'v bc \<Rightarrow> 'v bc" where
  "pub_acquire w c = c\<lparr>pub_view := (pub_view c)\<lparr>cur := join (cur (pub_view c)) w, acq := join (acq (pub_view c)) w\<rparr>\<rparr>"

text \<open>A clone is handed to another thread with what the cloning thread knows.\<close>

fun clone_knows :: "'v bc_event \<Rightarrow> (nat \<Rightarrow> nat) \<Rightarrow> nat \<Rightarrow> nat" where
  "clone_knows (SubClone i j) k = k(j := k i)"
| "clone_knows _ k = k"

fun bcx_step :: "usize \<Rightarrow> nat \<Rightarrow> 'v bcx \<Rightarrow> 'v bcx_event \<Rightarrow> 'v bcx option" where
  "bcx_step cap n s (BxQueue e) =
     map_option (\<lambda>c. s\<lparr>bx_queue := c, knows := clone_knows e (knows s)\<rparr>) (bc_step cap n (bx_queue s) e)"
| "bcx_step cap n s PubRelease =
     (let c = bx_queue s in
      if pub_state c = PubIdle
      then Some (s\<lparr>releases := releases s @ [(length (published c), cur (pub_view c))]\<rparr>) else None)"
| "bcx_step cap n s (PubAcquire k) =
     (if pub_state (bx_queue s) = PubIdle \<and> k < length (releases s)
      then Some (s\<lparr>bx_queue := pub_acquire (snd (releases s ! k)) (bx_queue s)\<rparr>) else None)"
| "bcx_step cap n s (SubRelease i) =
     (case subs (bx_queue s) i of
        None \<Rightarrow> None
      | Some r \<Rightarrow>
          if b_pc r = SubIdle
          then Some (s\<lparr>releases := releases s @ [(max (knows s i) (sub_pos r), cur (b_view r))]\<rparr>) else None)"
| "bcx_step cap n s (SubAcquire i k) =
     (case subs (bx_queue s) i of
        None \<Rightarrow> None
      | Some r \<Rightarrow>
          if b_pc r = SubIdle \<and> k < length (releases s)
          then let (m, w) = releases s ! k; c = bx_queue s
            in Some (s\<lparr>bx_queue := c\<lparr>subs := (subs c)(i \<mapsto> sub_acquire w r)\<rparr>,
                       knows := (knows s)(i := max m (knows s i))\<rparr>)
          else None)"

inductive bcx_reach :: "usize \<Rightarrow> nat \<Rightarrow> 'v list \<Rightarrow> 'v bcx \<Rightarrow> bool" for cap n zeroed where
  bcx_init: "is_power_of_two cap \<Longrightarrow> length zeroed = n \<Longrightarrow> bcx_reach cap n zeroed (bcx_new zeroed)"
| bcx_next: "bcx_reach cap n zeroed s \<Longrightarrow> bcx_step cap n s e = Some s' \<Longrightarrow> bcx_reach cap n zeroed s'"

fun bcx_run :: "usize \<Rightarrow> nat \<Rightarrow> 'v bcx \<Rightarrow> 'v bcx_event list \<Rightarrow> 'v bcx option" where
  "bcx_run cap n s [] = Some s"
| "bcx_run cap n s (e # es) = (case bcx_step cap n s e of None \<Rightarrow> None | Some s' \<Rightarrow> bcx_run cap n s' es)"

lemma bcx_reach_run: "bcx_reach cap n z s \<Longrightarrow> bcx_run cap n s es = Some s' \<Longrightarrow> bcx_reach cap n z s'"
  by (induction es arbitrary: s) (auto split: option.splits intro: bcx_next)

section \<open>What a call sees\<close>

text \<open>A \<open>try_read\<close> that finds the queue empty has passed every value its thread knows of, and one that
  is overtaken moves to the newest of them or beyond.\<close>

lemma empty_known:
  assumes inv: "bc_inv cap n c" and lim: "length (published c) \<le> 2 ^ 63" and r: "subs c i = Some r"
    and step: "sub_step cap n t c r = Some r'" and res: "b_results r' = b_results r @ [Empty]"
  shows "cur (b_view r) WCur \<le> sub_pos r'"
proof (cases "b_pc r")
  case SubCursor
  note si = bc_inv_sub [OF inv r lim]
  from si(2) obtain w where hist: "bc_hist_inv (unat cap) n (wcur_h c) (sseq_h c) (sdata_h c) (published c)"
    by (auto simp: pub_inv_def dest: bc_pub_invD(2))
  note h = bc_hist_invD [OF hist]
  from step SubCursor res obtain x V where ld: "load_acquire WCur (wcur_h c) t (b_view r) = Some (x, V)"
    and x: "read_cursor (b_local r) = x"
    by (auto simp: sub_step_def Let_def split: option.splits if_splits)
  note l = load_acquire_Some [OF ld]
  from si(1) obtain v where rc: "read_cursor (b_local r) = of_nat (sub_pos r)" "sub_pos r \<le> v" "v \<le> cur (b_view r) WCur"
    by (auto elim: sub_invE)
  have "(of_nat (sub_pos r) :: usize) = of_nat t \<longleftrightarrow> sub_pos r = t"
    by (rule of_nat_eq_iff_near) (use rc l(1,2) h(12) lim in simp_all)
  with x rc(1) l(1-3) h(1) [of t] have "cur (b_view r) WCur \<le> sub_pos r" by simp
  moreover from sub_step_frame [OF step] have "b_start r' = b_start r" by blast
  ultimately show ?thesis using res by (simp add: sub_pos_def)
qed (use step res in \<open>auto simp: sub_step_def Let_def lapped_def split: option.splits if_splits\<close>)

lemma pub_acquire_inv:
  assumes "bc_inv cap n c" "bc_within c" "view_within (bc_newest c) w" "pub_state c = PubIdle"
  shows "bc_inv cap n (pub_acquire w c)" "bc_within (pub_acquire w c)"
proof -
  from assms(1) obtain k where p2: "is_power_of_two cap"
    and p: "bc_pub_inv (unat cap) n k (wcur_h c) (sseq_h c) (sdata_h c) (published c) (pub_view c) PubIdle"
    using assms(4) by (auto simp: bc_inv_def pub_inv_def)
  note d = bc_pub_invD [OF p]
  have le: "w l \<le> bc_newest c l" for l using assms(3) by (simp add: view_within_def)
  have "bc_pub_inv (unat cap) n k (wcur_h c) (sseq_h c) (sdata_h c) (published c) (pub_view (pub_acquire w c)) PubIdle"
    unfolding bc_pub_inv_def
  proof (intro conjI allI impI)
    show "cur (pub_view (pub_acquire w c)) WCur = k"
      using d(3,7) le [of WCur] by (simp add: pub_acquire_def)
    fix j assume j: "j < unat cap"
    show "Suc (cur (pub_view (pub_acquire w c)) (SSeq j)) = length (sseq_h c j)"
      using d(8) [OF j] le [of "SSeq j"] by (simp add: pub_acquire_def)
    fix a assume a: "a < n"
    show "Suc (cur (pub_view (pub_acquire w c)) (SData j a)) = length (sdata_h c j a)"
      using d(9) [OF j a] le [of "SData j a"] by (simp add: pub_acquire_def)
  qed (use d in simp_all)
  then have "pub_inv cap n (pub_acquire w c)" using p2 assms(4) by (auto simp: pub_inv_def pub_acquire_def)
  then show "bc_inv cap n (pub_acquire w c)"
    using assms(1) by (auto simp: bc_inv_def pub_acquire_def sub_inv_def)
  have "bc_newest (pub_acquire w c) = bc_newest c" by (rule bc_newest_cong) (simp_all add: pub_acquire_def)
  with assms(2,3) show "bc_within (pub_acquire w c)"
    by (auto simp: bc_within_def pub_acquire_def tview_within_def view_within_def)
qed

section \<open>The invariant\<close>

definition releases_ok :: "'v bc \<Rightarrow> (nat \<times> bc_loc view) list \<Rightarrow> bool" where
  "releases_ok c ws \<longleftrightarrow> (\<forall>(m, w) \<in> set ws. m \<le> w WCur \<and> view_within (bc_newest c) w)"

definition knows_ok :: "'v bc \<Rightarrow> (nat \<Rightarrow> nat) \<Rightarrow> bool" where
  "knows_ok c k \<longleftrightarrow> (\<forall>i r. subs c i = Some r \<longrightarrow> k i \<le> cur (b_view r) WCur)"

definition bcx_inv :: "usize \<Rightarrow> nat \<Rightarrow> 'v bcx \<Rightarrow> bool" where
  "bcx_inv cap n s \<longleftrightarrow>
     bc_inv cap n (bx_queue s) \<and> bc_within (bx_queue s) \<and>
     releases_ok (bx_queue s) (releases s) \<and> knows_ok (bx_queue s) (knows s)"

lemma releases_ok_mono: "releases_ok c ws \<Longrightarrow> (\<And>l. bc_newest c l \<le> bc_newest c' l) \<Longrightarrow> releases_ok c' ws"
  unfolding releases_ok_def by (blast intro: within_mono(1))

lemma releases_ok_cong: "bc_newest c' = bc_newest c \<Longrightarrow> releases_ok c' ws = releases_ok c ws"
  by (simp add: releases_ok_def)

lemma releases_ok_nth:
  "releases_ok c ws \<Longrightarrow> k < length ws \<Longrightarrow> ws ! k = (m, w) \<Longrightarrow> m \<le> w WCur \<and> view_within (bc_newest c) w"
  unfolding releases_ok_def by (fastforce dest: nth_mem)

lemma releases_ok_snoc:
  "releases_ok c (ws @ [(m, w)]) \<longleftrightarrow> releases_ok c ws \<and> m \<le> w WCur \<and> view_within (bc_newest c) w"
  by (auto simp: releases_ok_def)

lemma bc_step_knows: "bc_step cap n c e = Some c' \<Longrightarrow> knows_ok c k \<Longrightarrow> knows_ok c' (clone_knows e k)"
proof (cases e)
  case (SubStep i t)
  assume step: "bc_step cap n c e = Some c'" and k: "knows_ok c k"
  from step SubStep obtain r r' where r: "subs c i = Some r" "sub_step cap n t c r = Some r'"
    "c' = c\<lparr>subs := (subs c)(i \<mapsto> r')\<rparr>" by (auto split: option.splits)
  from sub_step_frame [OF r(2)] have "cur (b_view r) WCur \<le> cur (b_view r') WCur" by blast
  with k r SubStep show ?thesis by (fastforce simp: knows_ok_def)
qed (auto simp: knows_ok_def sub_call_def sub_clone_def pub_step_rank split: pub_pc.splits option.splits sub_pc.splits if_splits)

lemma bcx_step_inv:
  assumes inv: "bcx_inv cap n s" and lim: "length (published (bx_queue s)) \<le> 2 ^ 63"
    and step: "bcx_step cap n s e = Some s'"
  shows "bcx_inv cap n s'"
proof -
  let ?q = "bx_queue s"
  from inv have q: "bc_inv cap n ?q" "bc_within ?q" and rel: "releases_ok ?q (releases s)"
    and k: "knows_ok ?q (knows s)" by (simp_all add: bcx_inv_def)
  show ?thesis
  proof (cases e)
    case (BxQueue e')
    with step obtain c where c: "bc_step cap n ?q e' = Some c"
      "s' = s\<lparr>bx_queue := c, knows := clone_knows e' (knows s)\<rparr>" by (auto simp del: bc_step.simps)
    from bc_step_inv [OF q(1) c(1)] bc_step_within [OF q(2) c(1)] bc_step_knows [OF c(1) k]
      releases_ok_mono [OF rel bc_step_newest [OF q(1) c(1)]] show ?thesis by (simp add: c(2) bcx_inv_def)
  next
    case PubRelease
    with step have idle: "pub_state ?q = PubIdle"
      and s': "s' = s\<lparr>releases := releases s @ [(length (published ?q), cur (pub_view ?q))]\<rparr>"
      by (auto simp: Let_def split: if_splits)
    from q(1) idle obtain v where "bc_pub_inv (unat cap) n v (wcur_h ?q) (sseq_h ?q) (sdata_h ?q) (published ?q) (pub_view ?q) PubIdle"
      by (auto simp: bc_inv_def pub_inv_def)
    from bc_pub_invD(4,7) [OF this] have "length (published ?q) \<le> cur (pub_view ?q) WCur" by simp
    moreover have "view_within (bc_newest ?q) (cur (pub_view ?q))"
      using bc_withinD(7) [OF q(2)] by (simp add: tview_within_def)
    ultimately show ?thesis using q rel k by (simp add: s' bcx_inv_def releases_ok_snoc)
  next
    case (PubAcquire j)
    with step have idle: "pub_state ?q = PubIdle" "j < length (releases s)"
      and s': "s' = s\<lparr>bx_queue := pub_acquire (snd (releases s ! j)) ?q\<rparr>" by (auto split: if_splits)
    let ?w = "snd (releases s ! j)"
    have w: "view_within (bc_newest ?q) ?w"
      using releases_ok_nth [OF rel idle(2) prod.collapse [symmetric]] by blast
    have new: "bc_newest (pub_acquire ?w ?q) = bc_newest ?q" by (rule bc_newest_cong) (simp_all add: pub_acquire_def)
    have "knows_ok (pub_acquire ?w ?q) (knows s)" using k by (simp add: knows_ok_def pub_acquire_def)
    with pub_acquire_inv [OF q w idle(1)] rel show ?thesis
      by (simp add: s' bcx_inv_def releases_ok_cong [OF new])
  next
    case (SubRelease i)
    with step obtain r where r: "subs ?q i = Some r"
      and s': "s' = s\<lparr>releases := releases s @ [(max (knows s i) (sub_pos r), cur (b_view r))]\<rparr>"
      by (auto split: option.splits if_splits)
    from bc_inv_sub(1) [OF q(1) r lim] have "sub_pos r \<le> cur (b_view r) WCur" by (auto elim: sub_invE)
    moreover have "knows s i \<le> cur (b_view r) WCur" using k r by (simp add: knows_ok_def)
    moreover have "view_within (bc_newest ?q) (cur (b_view r))"
      using bc_withinD(8) [OF q(2) r] by (simp add: tview_within_def)
    ultimately show ?thesis using q rel k by (simp add: s' bcx_inv_def releases_ok_snoc)
  next
    case (SubAcquire i j)
    with step obtain r m w where r: "subs ?q i = Some r" "b_pc r = SubIdle" "j < length (releases s)"
        "releases s ! j = (m, w)"
      and s': "s' = s\<lparr>bx_queue := ?q\<lparr>subs := (subs ?q)(i \<mapsto> sub_acquire w r)\<rparr>, knows := (knows s)(i := max m (knows s i))\<rparr>"
      by (auto simp: Let_def split: option.splits if_splits prod.splits)
    note w = releases_ok_nth [OF rel r(3,4)]
    let ?c = "?q\<lparr>subs := (subs ?q)(i \<mapsto> sub_acquire w r)\<rparr>"
    have new: "bc_newest ?c = bc_newest ?q" by (rule bc_newest_cong) simp_all
    have "knows_ok ?c ((knows s)(i := max m (knows s i)))"
      using k r(1) w by (auto simp: knows_ok_def sub_acquire_def le_max_iff_disj)
    with bc_inv_acquire [OF q(1) r(1,2)] bc_within_acquire [OF q(2) r(1)] w rel show ?thesis
      by (simp add: s' bcx_inv_def releases_ok_cong [OF new])
  qed
qed

lemma bcx_step_published:
  "bcx_step cap n s e = Some s' \<Longrightarrow> length (published (bx_queue s)) \<le> length (published (bx_queue s'))"
proof (cases e)
  case (BxQueue e')
  then show "bcx_step cap n s e = Some s' \<Longrightarrow> ?thesis"
    by (cases e') (auto simp: pub_step_rank split: pub_pc.splits option.splits sub_pc.splits if_splits)
qed (auto simp: Let_def pub_acquire_def split: option.splits if_splits prod.splits)

lemma bcx_reach_inv: "bcx_reach cap n z s \<Longrightarrow> length (published (bx_queue s)) \<le> 2 ^ 63 \<Longrightarrow> bcx_inv cap n s"
proof (induction rule: bcx_reach.induct)
  case bcx_init
  from bc_reach_inv [OF bc_init [OF bcx_init.hyps]] bc_reach_within [OF bc_init [OF bcx_init.hyps]]
  show ?case by (simp add: bcx_inv_def bcx_new_def releases_ok_def knows_ok_def)
next
  case (bcx_next s e s')
  with bcx_step_published [OF bcx_next.hyps(2)] bcx_step_inv [OF _ _ bcx_next.hyps(2)] show ?case by linarith
qed

section \<open>Properties\<close>

text \<open>
  C22: SPMC queue among other synchronisation of its threads, of any kind and at any time between
  their calls, under weak memory: a \<open>try_read\<close> that returns \<open>Empty\<close> has passed every value
  whose \<open>publish\<close> happened before it, also when it has heard of it from another consumer, and
  what all results of a consumer are explained by is still the log.
\<close>

theorem spmc_sees_what_happened_before:
  assumes "bcx_reach cap n zeroed s" "length (published (bx_queue s)) \<le> 2 ^ 63" "subs (bx_queue s) i = Some r"
  shows "explained (unat cap) (published (bx_queue s)) (b_start r) (b_results r) \<and>
    (\<forall>t r'. sub_step cap n t (bx_queue s) r = Some r' \<and> b_results r' = b_results r @ [Empty] \<longrightarrow>
       knows s i \<le> sub_pos r')"
proof -
  have inv: "bcx_inv cap n s" by (rule bcx_reach_inv [OF assms(1,2)])
  then have q: "bc_inv cap n (bx_queue s)" and k: "knows s i \<le> cur (b_view r) WCur"
    using assms(3) by (simp_all add: bcx_inv_def knows_ok_def)
  from bc_inv_sub(1) [OF q assms(3,2)] have "explained (unat cap) (published (bx_queue s)) (b_start r) (b_results r)"
    by (rule sub_invE)
  with k empty_known [OF q assms(2,3)] show ?thesis by (blast intro: order_trans)
qed

text \<open>
  A run in which consumer \<open>0\<close> reads a value and releases, and consumer \<open>1\<close>, which has found nothing
  before, acquires that and has to look at the new cursor.
\<close>

definition told_events :: "nat bcx_event list" where
  "told_events =
     map BxQueue ([SubClone 0 1] @ publish_events 0 [7] @ [SubCall 1, SubStep 1 0, SubCall 0] @ map (SubStep 0) [1, 2, 1, 0, 2]) @
     [SubRelease 0, SubAcquire 1 0, BxQueue (SubCall 1)]"

lemma demo_told:
  "map_option (\<lambda>s. (knows s 1, published (bx_queue s), map_option (\<lambda>r. (b_pc r, b_results r)) (subs (bx_queue s) 1)))
     (bcx_run 1 1 (bcx_new [0]) told_events) = Some (1, [[7]], Some (SubCursor, [Empty]))"
  by code_simp

theorem spmc_sees_what_happened_before_witness:
  "\<exists>s r. bcx_reach 1 1 [0 :: nat] s \<and> subs (bx_queue s) 1 = Some r \<and> b_results r = [Empty] \<and> knows s 1 = 1 \<and>
     (\<forall>t r'. sub_step 1 1 t (bx_queue s) r = Some r' \<and> b_results r' = [Empty, Empty] \<longrightarrow> 1 \<le> sub_pos r')"
proof -
  from demo_told obtain s r where s: "bcx_run 1 1 (bcx_new [0]) told_events = Some s"
    and k: "knows s 1 = 1" "published (bx_queue s) = [[7]]" and r: "subs (bx_queue s) 1 = Some r" "b_results r = [Empty]"
    by auto
  have "is_power_of_two 1" by code_simp
  from bcx_reach_run [OF bcx_init [OF this] s] have reach: "bcx_reach 1 1 [0 :: nat] s" by simp
  have "length (published (bx_queue s)) \<le> 2 ^ 63" by (simp add: k)
  from spmc_sees_what_happened_before [OF reach this r(1)] reach r k show ?thesis by auto
qed

end
