(* ===== verification/Seqlock_Synchronised.thy ===== *)
theory Seqlock_Synchronised
  imports Seqlock_Progress
begin

text \<open>
  The seqlock among other synchronisation: as \<open>Spsc_Synchronised\<close>, for the machine of \<open>Seqlock\<close> with
  its writer and any number of readers. A read does not return a value older than one whose \<open>write\<close>
  ended before it began, nor older than what another reader had read before telling of it.
\<close>

section \<open>The machine\<close>

text \<open>
  A release comes with a number of writes that have ended: all of them for the idle writer, for a
  reader those whose end it has seen or learned of. \<open>r_knows i\<close> is what reader \<open>i\<close> has learned.
\<close>

record 'v slx =
  lx_lock :: "'v sl"
  lx_releases :: "(nat \<times> sl_loc view) list"
  r_knows :: "nat \<Rightarrow> nat"

definition slx_new :: "nat \<Rightarrow> 'v list \<Rightarrow> 'v slx" where
  "slx_new n v = \<lparr>lx_lock = sl_new n v, lx_releases = [], r_knows = (\<lambda>_. 0)\<rparr>"

datatype 'v slx_event =
    LxLock "'v sl_event"
  | WriterRelease
  | WriterAcquire nat
  | ReaderRelease nat
  | ReaderAcquire nat nat

definition w_acquire :: "sl_loc view \<Rightarrow> 'v sl \<Rightarrow> 'v sl" where
  "w_acquire w c = c\<lparr>w_view := (w_view c)\<lparr>cur := join (cur (w_view c)) w, acq := join (acq (w_view c)) w\<rparr>\<rparr>"

definition r_acquire :: "sl_loc view \<Rightarrow> 'v reader \<Rightarrow> 'v reader" where
  "r_acquire w r = r\<lparr>r_view := (r_view r)\<lparr>cur := join (cur (r_view r)) w, acq := join (acq (r_view r)) w\<rparr>\<rparr>"

fun reader_clone_knows :: "'v sl_event \<Rightarrow> (nat \<Rightarrow> nat) \<Rightarrow> nat \<Rightarrow> nat" where
  "reader_clone_knows (CloneReader i j) k = k(j := k i)"
| "reader_clone_knows _ k = k"

fun slx_step :: "nat \<Rightarrow> 'v slx \<Rightarrow> 'v slx_event \<Rightarrow> 'v slx option" where
  "slx_step n s (LxLock e) =
     map_option (\<lambda>c. s\<lparr>lx_lock := c, r_knows := reader_clone_knows e (r_knows s)\<rparr>) (sl_step n (lx_lock s) e)"
| "slx_step n s WriterRelease =
     (let c = lx_lock s in
      if w_pc c = WIdle
      then Some (s\<lparr>lx_releases := lx_releases s @ [(length (written c) - 1, cur (w_view c))]\<rparr>) else None)"
| "slx_step n s (WriterAcquire k) =
     (if w_pc (lx_lock s) = WIdle \<and> k < length (lx_releases s)
      then Some (s\<lparr>lx_lock := w_acquire (snd (lx_releases s ! k)) (lx_lock s)\<rparr>) else None)"
| "slx_step n s (ReaderRelease i) =
     (case readers (lx_lock s) i of
        None \<Rightarrow> None
      | Some r \<Rightarrow>
          if r_pc r = RIdle
          then Some (s\<lparr>lx_releases := lx_releases s @ [(max (r_knows s i) (cur (r_view r) Seq div 2), cur (r_view r))]\<rparr>)
          else None)"
| "slx_step n s (ReaderAcquire i k) =
     (case readers (lx_lock s) i of
        None \<Rightarrow> None
      | Some r \<Rightarrow>
          if r_pc r = RIdle \<and> k < length (lx_releases s)
          then let (m, w) = lx_releases s ! k; c = lx_lock s
            in Some (s\<lparr>lx_lock := c\<lparr>readers := (readers c)(i \<mapsto> r_acquire w r)\<rparr>,
                       r_knows := (r_knows s)(i := max m (r_knows s i))\<rparr>)
          else None)"

inductive slx_reach :: "nat \<Rightarrow> 'v list \<Rightarrow> 'v slx \<Rightarrow> bool" for n v0 where
  slx_init: "length v0 = n \<Longrightarrow> slx_reach n v0 (slx_new n v0)"
| slx_next: "slx_reach n v0 s \<Longrightarrow> slx_step n s e = Some s' \<Longrightarrow> slx_reach n v0 s'"

fun slx_run :: "nat \<Rightarrow> 'v slx \<Rightarrow> 'v slx_event list \<Rightarrow> 'v slx option" where
  "slx_run n s [] = Some s"
| "slx_run n s (e # es) = (case slx_step n s e of None \<Rightarrow> None | Some s' \<Rightarrow> slx_run n s' es)"

lemma slx_reach_run: "slx_reach n v s \<Longrightarrow> slx_run n s es = Some s' \<Longrightarrow> slx_reach n v s'"
  by (induction es arbitrary: s) (auto split: option.splits intro: slx_next)

section \<open>What a read sees\<close>

lemma read_end_known:
  assumes inv: "sl_inv n c" and lim: "length (written c) \<le> 2 ^ 63" and r: "readers c i = Some r"
    and step: "sl_read_step n t c r = Some r'" and idle: "r_pc r' = RIdle"
  obtains k where "k < length (written c)" "r_got r' = r_got r @ [written c ! k]"
    "cur (r_view r) Seq \<le> 2 * k" "2 * k \<le> cur (r_view r') Seq"
proof (cases "r_pc r")
  case (RSeq2 s1 buf)
  from inv r have hist: "sl_hist_inv n (seq_h c) (data_h c) (written c)"
    and ri: "sl_reader_inv n (seq_h c) (data_h c) (written c) r" by (auto simp: sl_inv_def)
  from step RSeq2 idle obtain V where ld: "load_relaxed Seq (seq_h c) t (r_view r) = Some (s1, V)"
    and r': "r' = r\<lparr>r_pc := RIdle, r_view := V, r_got := r_got r @ [buf]\<rparr>"
    by (auto simp: sl_read_step_def split: option.splits if_splits)
  note l = load_relaxed_Some [OF ld]
  from ri RSeq2 obtain t1 where t1: "s1 = of_nat t1" "even t1" "t1 < length (seq_h c)"
      "t1 \<le> cur (r_view r) Seq" "length buf = n" "sl_parts n (data_h c) t1 (cur (r_view r) Seq) buf"
    by (auto simp: sl_reader_inv_def)
  from t1(1) l(1,3) sl_hist_invD(1) [OF hist] have "(of_nat t1 :: u64) = of_nat t" by simp
  moreover have "t1 \<le> t" "t - t1 < 2 ^ 64"
    using t1(4) l(1,2) lim sl_hist_invD(7) [OF hist] by simp_all
  ultimately have t: "t = t1" using of_nat_eq_iff_near by blast
  with t1(2) obtain k where k: "t = 2 * k" by (auto elim: evenE)
  from sl_parts_agree [OF hist _ t1(5)] t1(3,6) l(2) k t
  have "k < length (written c)" "buf = written c ! k" by auto
  moreover have "cur V Seq = t" using l(4) by simp
  ultimately show thesis using that [of k] l(2) k r' by simp
qed (use step idle in \<open>auto simp: sl_read_step_def split: option.splits if_splits\<close>)

lemma sl_read_step_grows: "sl_read_step n t c r = Some r' \<Longrightarrow> cur (r_view r) Seq \<le> cur (r_view r') Seq"
  by (cases "r_pc r")
    (auto simp: sl_read_step_def load_acquire_grows load_relaxed_grows split: option.splits if_splits)

lemma sl_step_newest: "sl_step n c e = Some c' \<Longrightarrow> sl_newest c l \<le> sl_newest c' l"
proof (cases e)
  case (WriteStep t)
  assume "sl_step n c e = Some c'"
  with WriteStep show ?thesis
    by (cases "w_pc c"; cases l)
      (auto simp: sl_write_step_def Let_def store_relaxed_def store_release_def split: option.splits if_splits)
qed (cases l; auto split: option.splits if_splits)+

section \<open>The invariant\<close>

definition lx_releases_ok :: "'v sl \<Rightarrow> (nat \<times> sl_loc view) list \<Rightarrow> bool" where
  "lx_releases_ok c ws \<longleftrightarrow> (\<forall>(m, w) \<in> set ws. 2 * m \<le> w Seq \<and> view_within (sl_newest c) w)"

definition r_knows_ok :: "'v sl \<Rightarrow> (nat \<Rightarrow> nat) \<Rightarrow> bool" where
  "r_knows_ok c k \<longleftrightarrow> (\<forall>i r. readers c i = Some r \<longrightarrow> 2 * k i \<le> cur (r_view r) Seq)"

definition slx_inv :: "nat \<Rightarrow> 'v slx \<Rightarrow> bool" where
  "slx_inv n s \<longleftrightarrow>
     sl_inv n (lx_lock s) \<and> sl_within (lx_lock s) \<and>
     lx_releases_ok (lx_lock s) (lx_releases s) \<and> r_knows_ok (lx_lock s) (r_knows s)"

lemma lx_releases_ok_mono:
  "lx_releases_ok c ws \<Longrightarrow> (\<And>l. sl_newest c l \<le> sl_newest c' l) \<Longrightarrow> lx_releases_ok c' ws"
  unfolding lx_releases_ok_def by (blast intro: within_mono(1))

lemma lx_releases_ok_cong: "sl_newest c' = sl_newest c \<Longrightarrow> lx_releases_ok c' ws = lx_releases_ok c ws"
  by (simp add: lx_releases_ok_def)

lemma lx_releases_ok_nth:
  "lx_releases_ok c ws \<Longrightarrow> k < length ws \<Longrightarrow> ws ! k = (m, w) \<Longrightarrow> 2 * m \<le> w Seq \<and> view_within (sl_newest c) w"
  unfolding lx_releases_ok_def by (fastforce dest: nth_mem)

lemma lx_releases_ok_snoc:
  "lx_releases_ok c (ws @ [(m, w)]) \<longleftrightarrow> lx_releases_ok c ws \<and> 2 * m \<le> w Seq \<and> view_within (sl_newest c) w"
  by (auto simp: lx_releases_ok_def)

lemma sl_step_knows: "sl_step n c e = Some c' \<Longrightarrow> r_knows_ok c k \<Longrightarrow> r_knows_ok c' (reader_clone_knows e k)"
proof (cases e)
  case (ReadStep i t)
  assume step: "sl_step n c e = Some c'" and k: "r_knows_ok c k"
  from step ReadStep obtain r r' where r: "readers c i = Some r" "sl_read_step n t c r = Some r'"
    "c' = c\<lparr>readers := (readers c)(i \<mapsto> r')\<rparr>" by (auto split: option.splits)
  with k ReadStep sl_read_step_grows [OF r(2)] show ?thesis by (fastforce simp: r_knows_ok_def)
next
  case (WriteStep t)
  assume step: "sl_step n c e = Some c'" and k: "r_knows_ok c k"
  from step WriteStep have "readers c' = readers c"
    by (cases "w_pc c") (auto simp: sl_write_step_def Let_def split: option.splits if_splits prod.splits)
  with k WriteStep show ?thesis by (simp add: r_knows_ok_def)
qed (auto simp: r_knows_ok_def reader_new_def split: option.splits if_splits)

lemma w_acquire_inv:
  assumes inv: "sl_inv n c" and win: "sl_within c" and w: "view_within (sl_newest c) w" and idle: "w_pc c = WIdle"
  shows "sl_inv n (w_acquire w c)" "sl_within (w_acquire w c)"
proof -
  have le: "w l \<le> sl_newest c l" for l using w by (simp add: view_within_def)
  have "sl_writer_view n (length (seq_h c)) (\<lambda>a. length (data_h c a)) (w_view (w_acquire w c))"
    unfolding sl_writer_view_def
  proof (intro conjI allI impI)
    from inv have v: "Suc (cur (w_view c) Seq) = length (seq_h c)"
      "a < n \<Longrightarrow> Suc (cur (w_view c) (Data a)) = length (data_h c a)" for a
      by (simp_all add: sl_inv_def sl_writer_view_def)
    show "Suc (cur (w_view (w_acquire w c)) Seq) = length (seq_h c)"
      using v(1) le [of Seq] by (simp add: w_acquire_def)
    fix a assume "a < n"
    with v(2) le [of "Data a"] show "Suc (cur (w_view (w_acquire w c)) (Data a)) = length (data_h c a)"
      by (fastforce simp: w_acquire_def)
  qed
  then show "sl_inv n (w_acquire w c)" using inv idle by (auto simp: sl_inv_def w_acquire_def)
  have "sl_newest (w_acquire w c) = sl_newest c" by (rule sl_newest_cong) (simp_all add: w_acquire_def)
  with win w show "sl_within (w_acquire w c)"
    by (auto simp: sl_within_def w_acquire_def tview_within_def view_within_def)
qed

lemma r_acquire_inv:
  assumes inv: "sl_inv n c" and win: "sl_within c" and w: "view_within (sl_newest c) w"
    and r: "readers c i = Some r" "r_pc r = RIdle"
  shows "sl_inv n (c\<lparr>readers := (readers c)(i \<mapsto> r_acquire w r)\<rparr>)"
    "sl_within (c\<lparr>readers := (readers c)(i \<mapsto> r_acquire w r)\<rparr>)"
proof -
  let ?c = "c\<lparr>readers := (readers c)(i \<mapsto> r_acquire w r)\<rparr>"
  from inv r have "sl_reader_inv n (seq_h c) (data_h c) (written c) r" by (auto simp: sl_inv_def)
  with r(2) have "sl_reader_inv n (seq_h c) (data_h c) (written c) (r_acquire w r)"
    by (auto simp: sl_reader_inv_def r_acquire_def intro: good_reads_mono)
  with inv show "sl_inv n ?c" by (auto simp: sl_inv_def)
  have "sl_newest ?c = sl_newest c" by (rule sl_newest_cong) simp_all
  with win w sl_withinD(6) [OF win r(1)] show "sl_within ?c"
    by (auto simp: sl_within_def r_acquire_def tview_within_def view_within_def)
qed

lemma slx_step_inv:
  assumes inv: "slx_inv n s" and step: "slx_step n s e = Some s'"
  shows "slx_inv n s'"
proof -
  let ?q = "lx_lock s"
  from inv have q: "sl_inv n ?q" "sl_within ?q" and rel: "lx_releases_ok ?q (lx_releases s)"
    and k: "r_knows_ok ?q (r_knows s)" by (simp_all add: slx_inv_def)
  show ?thesis
  proof (cases e)
    case (LxLock e')
    with step obtain c where c: "sl_step n ?q e' = Some c"
      "s' = s\<lparr>lx_lock := c, r_knows := reader_clone_knows e' (r_knows s)\<rparr>" by (auto simp del: sl_step.simps)
    from sl_step_inv [OF q(1) c(1)] sl_step_within [OF q(2) c(1)] sl_step_knows [OF c(1) k]
      lx_releases_ok_mono [OF rel sl_step_newest [OF c(1)]] show ?thesis by (simp add: c(2) slx_inv_def)
  next
    case WriterRelease
    with step have idle: "w_pc ?q = WIdle"
      and s': "s' = s\<lparr>lx_releases := lx_releases s @ [(length (written ?q) - 1, cur (w_view ?q))]\<rparr>"
      by (auto simp: Let_def split: if_splits)
    from q(1) idle have "Suc (length (seq_h ?q)) = 2 * length (written ?q)" "Suc (cur (w_view ?q) Seq) = length (seq_h ?q)"
      by (auto simp: sl_inv_def sl_writer_view_def)
    then have "2 * (length (written ?q) - 1) \<le> cur (w_view ?q) Seq" by linarith
    moreover have "view_within (sl_newest ?q) (cur (w_view ?q))"
      using sl_withinD(5) [OF q(2)] by (simp add: tview_within_def)
    ultimately show ?thesis using q rel k by (simp add: s' slx_inv_def lx_releases_ok_snoc)
  next
    case (WriterAcquire j)
    with step have idle: "w_pc ?q = WIdle" "j < length (lx_releases s)"
      and s': "s' = s\<lparr>lx_lock := w_acquire (snd (lx_releases s ! j)) ?q\<rparr>" by (auto split: if_splits)
    let ?w = "snd (lx_releases s ! j)"
    have w: "view_within (sl_newest ?q) ?w"
      using lx_releases_ok_nth [OF rel idle(2) prod.collapse [symmetric]] by blast
    have new: "sl_newest (w_acquire ?w ?q) = sl_newest ?q" by (rule sl_newest_cong) (simp_all add: w_acquire_def)
    have "r_knows_ok (w_acquire ?w ?q) (r_knows s)" using k by (simp add: r_knows_ok_def w_acquire_def)
    with w_acquire_inv [OF q w idle(1)] rel show ?thesis by (simp add: s' slx_inv_def lx_releases_ok_cong [OF new])
  next
    case (ReaderRelease i)
    with step obtain r where r: "readers ?q i = Some r"
      and s': "s' = s\<lparr>lx_releases := lx_releases s @ [(max (r_knows s i) (cur (r_view r) Seq div 2), cur (r_view r))]\<rparr>"
      by (auto split: option.splits if_splits)
    have "2 * r_knows s i \<le> cur (r_view r) Seq" using k r by (simp add: r_knows_ok_def)
    then have "2 * max (r_knows s i) (cur (r_view r) Seq div 2) \<le> cur (r_view r) Seq" by linarith
    moreover have "view_within (sl_newest ?q) (cur (r_view r))"
      using sl_withinD(6) [OF q(2) r] by (simp add: tview_within_def)
    ultimately show ?thesis using q rel k by (simp add: s' slx_inv_def lx_releases_ok_snoc)
  next
    case (ReaderAcquire i j)
    with step obtain r m w where r: "readers ?q i = Some r" "r_pc r = RIdle" "j < length (lx_releases s)"
        "lx_releases s ! j = (m, w)"
      and s': "s' = s\<lparr>lx_lock := ?q\<lparr>readers := (readers ?q)(i \<mapsto> r_acquire w r)\<rparr>,
        r_knows := (r_knows s)(i := max m (r_knows s i))\<rparr>"
      by (auto simp: Let_def split: option.splits if_splits prod.splits)
    note w = lx_releases_ok_nth [OF rel r(3,4)]
    let ?c = "?q\<lparr>readers := (readers ?q)(i \<mapsto> r_acquire w r)\<rparr>"
    have new: "sl_newest ?c = sl_newest ?q" by (rule sl_newest_cong) simp_all
    have "r_knows_ok ?c ((r_knows s)(i := max m (r_knows s i)))"
      using k r(1) w by (auto simp: r_knows_ok_def r_acquire_def max_def split: if_splits intro: order_trans)
    with r_acquire_inv [OF q conjunct2 [OF w] r(1,2)] rel show ?thesis
      by (simp add: s' slx_inv_def lx_releases_ok_cong [OF new])
  qed
qed

lemma slx_reach_inv: "slx_reach n v s \<Longrightarrow> slx_inv n s"
proof (induction rule: slx_reach.induct)
  case slx_init
  from sl_new_inv [OF this] sl_reach_within [OF sl_init [OF this]] show ?case
    by (simp add: slx_inv_def slx_new_def lx_releases_ok_def r_knows_ok_def)
qed (rule slx_step_inv)

section \<open>Properties\<close>

text \<open>
  C25: Seqlock among other synchronisation of its threads, of any kind and at any time between their
  calls, under weak memory: every finished read returns a whole written value, none older than the
  last one whose \<open>write\<close> happened before it or than anything read before by a reader that told it,
  and counts as read in what it releases later.
\<close>

theorem seqlock_reads_no_older_than_known:
  assumes "slx_reach n v0 s" "length (written (lx_lock s)) \<le> 2 ^ 63" "readers (lx_lock s) i = Some r"
    and "sl_read_step n t (lx_lock s) r = Some r'" "r_pc r' = RIdle"
  shows "\<exists>k. r_knows s i \<le> k \<and> k < length (written (lx_lock s)) \<and> 2 * k \<le> cur (r_view r') Seq \<and>
    r_got r' = r_got r @ [written (lx_lock s) ! k]"
proof -
  have inv: "slx_inv n s" by (rule slx_reach_inv [OF assms(1)])
  then have q: "sl_inv n (lx_lock s)" and known: "2 * r_knows s i \<le> cur (r_view r) Seq"
    using assms(3) by (simp_all add: slx_inv_def r_knows_ok_def)
  obtain k where k: "k < length (written (lx_lock s))" "r_got r' = r_got r @ [written (lx_lock s) ! k]"
    "cur (r_view r) Seq \<le> 2 * k" "2 * k \<le> cur (r_view r') Seq" by (rule read_end_known [OF q assms(2-5)])
  from known k(3) have "r_knows s i \<le> k" by linarith
  with k show ?thesis by blast
qed

text \<open>
  A run with two readers of a value of one part: reader \<open>0\<close> reads the value written and tells reader
  \<open>1\<close>, which is about to end a read.
\<close>

definition told_read_events :: "nat slx_event list" where
  "told_read_events =
     map LxLock ([CloneReader 0 1, WriteCall [5]] @ map WriteStep [0, 0, 0, 0, 0] @ [ReadCall 0] @ map (ReadStep 0) [2, 1, 0, 2]) @
     [ReaderRelease 0, ReaderAcquire 1 0] @ map LxLock ([ReadCall 1] @ map (ReadStep 1) [2, 1, 0])"

lemma demo_told_read:
  "map_option (\<lambda>s. (written (lx_lock s), r_knows s 1,
       map_option (\<lambda>r. (r_got r, map_option (\<lambda>r. (r_pc r, r_got r)) (sl_read_step 1 2 (lx_lock s) r))) (readers (lx_lock s) 1)))
     (slx_run 1 (slx_new 1 [0]) told_read_events) = Some ([[0], [5]], 1, Some ([], Some (RIdle, [[5]])))"
  by code_simp

theorem seqlock_reads_no_older_than_known_witness:
  "\<exists>s r r'. slx_reach 1 [0 :: nat] s \<and> readers (lx_lock s) 1 = Some r \<and> sl_read_step 1 2 (lx_lock s) r = Some r' \<and>
     r_knows s 1 = 1 \<and> (\<exists>k. 1 \<le> k \<and> k < 2 \<and> r_got r' = [[[0], [5]] ! k])"
proof -
  from demo_told_read obtain s r r' where s: "slx_run 1 (slx_new 1 [0]) told_read_events = Some s"
    and w: "written (lx_lock s) = [[0], [5]]" "r_knows s 1 = 1" and r: "readers (lx_lock s) 1 = Some r" "r_got r = []"
    and r': "sl_read_step 1 2 (lx_lock s) r = Some r'" "r_pc r' = RIdle"
    by auto
  from slx_reach_run [OF slx_init s] have reach: "slx_reach 1 [0 :: nat] s" by simp
  have "length (written (lx_lock s)) \<le> 2 ^ 63" by (simp add: w)
  from seqlock_reads_no_older_than_known [OF reach this r(1) r'] reach w r r' show ?thesis by fastforce
qed

end
