(* ===== verification/Preflight.thy ===== *)
theory Preflight
  imports Text
begin

text \<open>
  The checks made before a benchmark, \<open>src/src/bench/preflight.rs\<close>, their composition in
  \<open>bench/harness/mod.rs\<close>, and the interrupt counters of \<open>bench/loc.rs\<close>. The file system is a
  parameter: \<open>fs path\<close> is what \<open>read_to_string\<close> returns for the path, \<open>None\<close> when it fails.
\<close>

section \<open>The report\<close>

record preflight_report =
  warnings :: "string list"
  failures :: "string list"

definition report_new :: preflight_report where
  "report_new = \<lparr>warnings = [], failures = []\<rparr>"

definition warn :: "string \<Rightarrow> preflight_report \<Rightarrow> preflight_report" where
  "warn msg r = r\<lparr>warnings := warnings r @ [msg]\<rparr>"

definition fail :: "string \<Rightarrow> preflight_report \<Rightarrow> preflight_report" where
  "fail msg r = r\<lparr>failures := failures r @ [msg]\<rparr>"

text \<open>\<open>finish\<close>: the lines written to standard error, and whether it panics.\<close>

definition finish :: "preflight_report \<Rightarrow> string list \<times> bool" where
  "finish r =
     (let out = map (\<lambda>w. ''WARNING: '' @ w) (warnings r)
      in if failures r \<noteq> [] then (out @ map (\<lambda>f. ''FAILURE: '' @ f) (failures r), True) else (out, False))"

section \<open>Reading system files\<close>

type_synonym file_system = "string \<Rightarrow> string option"

definition read_trim :: "file_system \<Rightarrow> string \<Rightarrow> string option" where
  "read_trim fs path = map_option trim (fs path)"

definition parse_part :: "string \<Rightarrow> nat list" where
  "parse_part part =
     (case split_once (CHR ''-'') part of
        Some (a, b) \<Rightarrow>
          (case (parse_unsigned a, parse_unsigned b) of
             (Some a, Some b) \<Rightarrow> [a..<Suc b]
           | _ \<Rightarrow> [])
      | None \<Rightarrow> (case parse_unsigned part of Some n \<Rightarrow> [n] | None \<Rightarrow> []))"

definition parse_cpu_list :: "string \<Rightarrow> nat list" where
  "parse_cpu_list s = concat (map parse_part (filter (\<lambda>p. p \<noteq> []) (split_at (CHR '','') s)))"

definition read_cpu_list :: "file_system \<Rightarrow> string \<Rightarrow> nat list" where
  "read_cpu_list fs path = (case read_trim fs path of None \<Rightarrow> [] | Some s \<Rightarrow> parse_cpu_list s)"

definition cpu_path :: "nat \<Rightarrow> string \<Rightarrow> string" where
  "cpu_path c rest = ''/sys/devices/system/cpu/cpu'' @ show_nat c @ rest"

definition siblings_of :: "file_system \<Rightarrow> nat \<Rightarrow> nat list" where
  "siblings_of fs c = filter (\<lambda>s. s \<noteq> c) (read_cpu_list fs (cpu_path c ''/topology/thread_siblings_list''))"

section \<open>The checks\<close>

definition release_build :: "bool \<Rightarrow> preflight_report \<Rightarrow> preflight_report" where
  "release_build debug_assertions r =
     (if debug_assertions then fail ''debug build, build with `--release` instead'' r else r)"

definition cores_online :: "file_system \<Rightarrow> nat list \<Rightarrow> preflight_report \<Rightarrow> preflight_report" where
  "cores_online fs cores r =
     (let online = read_cpu_list fs ''/sys/devices/system/cpu/online''
      in fold (\<lambda>c r. if c \<in> set online then r else fail (''core '' @ show_nat c @ '' is offline'') r) cores r)"

fun show_list_rest :: "nat list \<Rightarrow> string" where
  "show_list_rest [] = '']''"
| "show_list_rest (n # ns) = '', '' @ show_nat n @ show_list_rest ns"

definition show_nat_list :: "nat list \<Rightarrow> string" where
  "show_nat_list ns = (case ns of [] \<Rightarrow> ''[]'' | n # ns \<Rightarrow> ''['' @ show_nat n @ show_list_rest ns)"

definition cores_isolated :: "file_system \<Rightarrow> nat list \<Rightarrow> preflight_report \<Rightarrow> preflight_report" where
  "cores_isolated fs cores r =
     (let isolated = read_cpu_list fs ''/sys/devices/system/cpu/isolated''
      in fold (\<lambda>c r. if c \<in> set isolated then r
           else warn (''core '' @ show_nat c @ '' not in isolcpus (got '' @ show_nat_list isolated @ '')'') r) cores r)"

definition cores_nohz_full :: "file_system \<Rightarrow> nat list \<Rightarrow> preflight_report \<Rightarrow> preflight_report" where
  "cores_nohz_full fs cores r =
     (let nohz = read_cpu_list fs ''/sys/devices/system/cpu/nohz_full''
      in fold (\<lambda>c r. if c \<in> set nohz then r
           else warn (''core '' @ show_nat c @ '' not in nohz_full'') r) cores r)"

definition cores_performance_governor ::
  "file_system \<Rightarrow> nat list \<Rightarrow> preflight_report \<Rightarrow> preflight_report" where
  "cores_performance_governor fs cores r =
     fold (\<lambda>c r.
       (case read_trim fs (cpu_path c ''/cpufreq/scaling_governor'') of
          Some g \<Rightarrow>
            if g = ''performance'' then r
            else warn (''core '' @ show_nat c @ '' governor = '' @ g @ '', want performance'') r
        | None \<Rightarrow> warn (''core '' @ show_nat c @ '' governor unreadable'') r)) cores r"

definition turbo_disabled :: "file_system \<Rightarrow> preflight_report \<Rightarrow> preflight_report" where
  "turbo_disabled fs r =
     (case read_trim fs ''/sys/devices/system/cpu/intel_pstate/no_turbo'' of
        Some s \<Rightarrow> if s = ''1'' then r else warn (''intel_pstate/no_turbo = '' @ s @ '', want 1'') r
      | None \<Rightarrow>
          (case read_trim fs ''/sys/devices/system/cpu/cpufreq/boost'' of
             Some s \<Rightarrow> if s = ''0'' then r else warn (''cpufreq/boost = '' @ s @ '', want 0'') r
           | None \<Rightarrow> warn ''turbo state unreadable (neither Intel pstate nor AMD boost)'' r))"

text \<open>The pairs \<open>(cores[i], cores[j])\<close> with \<open>i < j\<close>, in the order of the two loops.\<close>

fun pairs_of :: "nat list \<Rightarrow> (nat \<times> nat) list" where
  "pairs_of [] = []"
| "pairs_of (a # rest) = map (\<lambda>b. (a, b)) rest @ pairs_of rest"

definition cores_distinct_physical ::
  "file_system \<Rightarrow> nat list \<Rightarrow> preflight_report \<Rightarrow> preflight_report" where
  "cores_distinct_physical fs cores r =
     fold (\<lambda>(a, b) r.
       let id_a = read_trim fs (cpu_path a ''/topology/core_id'');
           id_b = read_trim fs (cpu_path b ''/topology/core_id'')
       in if id_a \<noteq> None \<and> id_a = id_b
          then fail (''cores '' @ show_nat a @ '' and '' @ show_nat b @
            '' are SMT siblings of physical core '' @ (case id_a of None \<Rightarrow> [] | Some s \<Rightarrow> s)) r
          else r) (pairs_of cores) r"

definition cores_smt_siblings_quiet ::
  "file_system \<Rightarrow> nat list \<Rightarrow> preflight_report \<Rightarrow> preflight_report" where
  "cores_smt_siblings_quiet fs cores r =
     (let isolated = read_cpu_list fs ''/sys/devices/system/cpu/isolated''
      in fold (\<lambda>c r. fold (\<lambda>sib r.
           let sib_online = (read_trim fs (cpu_path sib ''/online'') \<noteq> Some ''0'');
               sib_isolated = (sib \<in> set isolated)
           in if sib_online \<and> \<not> sib_isolated
              then warn (''SMT sibling of '' @ show_nat c @ '' is cpu '' @ show_nat sib @
                '', online and not isolated will steal execution units'') r
              else r) (siblings_of fs c) r) cores r)"

definition cores_share_l3 :: "file_system \<Rightarrow> nat list \<Rightarrow> preflight_report \<Rightarrow> preflight_report" where
  "cores_share_l3 fs cores r =
     (let l3 = (\<lambda>c. read_trim fs (cpu_path c ''/cache/index3/shared_cpu_list''))
      in fold (\<lambda>(a, b) r.
           (case (l3 a, l3 b) of
              (Some la, Some lb) \<Rightarrow>
                if la \<noteq> lb
                then warn (''cores '' @ show_nat a @ '' and '' @ show_nat b @ '' don't share L3 ('' @ la @
                  '' vs '' @ lb @ '')'') r
                else r
            | _ \<Rightarrow> r)) (pairs_of cores) r)"

fun find_map :: "('a \<Rightarrow> 'b option) \<Rightarrow> 'a list \<Rightarrow> 'b option" where
  "find_map f [] = None"
| "find_map f (x # xs) = (case f x of None \<Rightarrow> find_map f xs | Some y \<Rightarrow> Some y)"

definition hugepages_free :: "string \<Rightarrow> nat option" where
  "hugepages_free meminfo =
     (case find_map (strip_prefix ''HugePages_Free:'') (lines_of meminfo) of
        None \<Rightarrow> None
      | Some s \<Rightarrow> (case split_whitespace s of [] \<Rightarrow> None | w # ws \<Rightarrow> parse_unsigned w))"

definition hugepages_at_least :: "file_system \<Rightarrow> nat \<Rightarrow> preflight_report \<Rightarrow> preflight_report" where
  "hugepages_at_least fs minimum r =
     (case fs ''/proc/meminfo'' of
        None \<Rightarrow> warn ''/proc/meminfo unreadable, cannot verify hugepage availability'' r
      | Some meminfo \<Rightarrow>
          (case hugepages_free meminfo of
             Some n \<Rightarrow>
               if minimum \<le> n then r
               else fail (''need >= '' @ show_nat minimum @ '' free 2MiB hugepages, have '' @ show_nat n @
                 '' (try `just enable-hugepages`)'') r
           | None \<Rightarrow> warn ''could not parse HugePages_Free from /proc/meminfo'' r))"

definition tsc_invariant_and_nonstop :: "file_system \<Rightarrow> preflight_report \<Rightarrow> preflight_report" where
  "tsc_invariant_and_nonstop fs r =
     (case fs ''/proc/cpuinfo'' of
        None \<Rightarrow> warn ''/proc/cpuinfo unreadable, cannot verify TSC quality'' r
      | Some cpuinfo \<Rightarrow>
          fold (\<lambda>flag r.
            if contains_text flag cpuinfo then r
            else fail (''CPU missing `'' @ flag @ ''`; TSC unsuitable'') r)
            [''constant_tsc'', ''nonstop_tsc''] r)"

text \<open>\<open>TwoCoreCtx::preflight\<close>: the checks a two-core benchmark runs, in order.\<close>

definition two_core_report :: "file_system \<Rightarrow> bool \<Rightarrow> nat list \<Rightarrow> preflight_report" where
  "two_core_report fs debug_assertions used_cores =
     (let r = release_build debug_assertions report_new;
          r = cores_online fs used_cores r;
          r = cores_isolated fs used_cores r;
          r = cores_nohz_full fs used_cores r;
          r = cores_performance_governor fs used_cores r;
          r = turbo_disabled fs r;
          r = cores_distinct_physical fs used_cores r;
          r = cores_smt_siblings_quiet fs used_cores r;
          r = cores_share_l3 fs used_cores r
      in tsc_invariant_and_nonstop fs r)"

text \<open>
  \<open>discover_and_preflight\<close>: the first two of the core ids the system lists, or a panic
  (\<open>None\<close>): fewer than two cores, a failed check or a failed \<open>mlockall\<close>.
\<close>

record two_core_ctx =
  producer_core :: nat
  consumer_core :: nat
  ctx_tsc_hz :: u64

definition used_cpu_ids :: "two_core_ctx \<Rightarrow> nat list" where
  "used_cpu_ids ctx = [producer_core ctx, consumer_core ctx]"

definition discover_and_preflight ::
  "file_system \<Rightarrow> bool \<Rightarrow> nat list option \<Rightarrow> int \<Rightarrow> u64 \<Rightarrow> two_core_ctx option" where
  "discover_and_preflight fs debug_assertions core_ids mlockall_rc tsc_hz =
     (case core_ids of
        Some (a # b # _) \<Rightarrow>
          if snd (finish (two_core_report fs debug_assertions [a, b])) then None
          else if mlockall_rc \<noteq> 0 then None
          else Some \<lparr>producer_core = a, consumer_core = b, ctx_tsc_hz = tsc_hz\<rparr>
      | _ \<Rightarrow> None)"

section \<open>Interrupt counters\<close>

text \<open>\<open>loc::read\<close>. The columns of the header are positional and list only the CPUs online.\<close>

definition loc_columns :: "string \<Rightarrow> nat list" where
  "loc_columns header =
     List.map_filter (\<lambda>tok. case strip_prefix ''CPU'' tok of None \<Rightarrow> None | Some n \<Rightarrow> parse_unsigned n)
       (split_whitespace header)"

fun trim_start_matches :: "nat \<Rightarrow> string \<Rightarrow> string \<Rightarrow> string" where
  "trim_start_matches 0 pat s = s"
| "trim_start_matches (Suc k) pat s =
     (case strip_prefix pat s of None \<Rightarrow> s | Some t \<Rightarrow> trim_start_matches k pat t)"

definition loc_counts :: "string \<Rightarrow> nat list" where
  "loc_counts l =
     List.map_filter parse_unsigned
       (split_whitespace (trim_start_matches (length l) ''LOC:'' (trim_start l)))"

definition position :: "('a \<Rightarrow> bool) \<Rightarrow> 'a list \<Rightarrow> nat option" where
  "position p xs = (let k = length (takeWhile (\<lambda>x. \<not> p x) xs) in if k < length xs then Some k else None)"

definition loc_read :: "file_system \<Rightarrow> nat list \<Rightarrow> nat option list" where
  "loc_read fs cpus =
     (case fs ''/proc/interrupts'' of
        None \<Rightarrow> replicate (length cpus) None
      | Some contents \<Rightarrow>
          (case lines_of contents of
             [] \<Rightarrow> replicate (length cpus) None
           | header # rest \<Rightarrow>
               (case find (\<lambda>l. prefix ''LOC:'' (trim_start l)) rest of
                  None \<Rightarrow> replicate (length cpus) None
                | Some l \<Rightarrow>
                    (let columns = loc_columns header; counts = loc_counts l
                     in map (\<lambda>cpu. case position (\<lambda>c. c = cpu) columns of
                          None \<Rightarrow> None
                        | Some col \<Rightarrow> if col < length counts then Some (counts ! col) else None) cpus))))"

section \<open>CPU lists\<close>

text \<open>The form in which the kernel writes a list of ranges.\<close>

definition range_text :: "nat \<times> nat \<Rightarrow> string" where
  "range_text ab = (case ab of (a, b) \<Rightarrow> if a = b then show_nat a else show_nat a @ CHR ''-'' # show_nat b)"

fun cpu_list_text :: "(nat \<times> nat) list \<Rightarrow> string" where
  "cpu_list_text [] = []"
| "cpu_list_text [r] = range_text r"
| "cpu_list_text (r # rs) = range_text r @ CHR '','' # cpu_list_text rs"

lemma range_text_props:
  "range_text r \<noteq> []" "CHR '','' \<notin> set (range_text r)" "\<forall>x\<in>set (range_text r). \<not> is_space x"
proof -
  obtain a b where r: "r = (a, b)" by (cases r)
  have "\<not> is_space (CHR ''-'')" "CHR ''-'' \<noteq> CHR '',''" by (simp_all add: is_space_def)
  with plain_show_nat [of a] plain_show_nat [of b] show_nat_free(2)
  show "range_text r \<noteq> []" "CHR '','' \<notin> set (range_text r)" "\<forall>x\<in>set (range_text r). \<not> is_space x"
    by (auto simp: range_text_def r plain_def)
qed

lemma parse_part_range:
  assumes "a < 2 ^ 64" "b < 2 ^ 64"
  shows "parse_part (range_text (a, b)) = [a..<Suc b]"
proof (cases "a = b")
  case True
  with assms show ?thesis
    by (simp add: parse_part_def range_text_def split_once_miss show_nat_free parse_show)
next
  case False
  with assms show ?thesis
    by (simp add: parse_part_def range_text_def split_once_hit show_nat_free parse_show)
qed

lemma split_cpu_list:
  "rs \<noteq> [] \<Longrightarrow> split_at (CHR '','') (cpu_list_text rs) = map range_text rs"
  by (induction rs rule: cpu_list_text.induct)
    (simp_all add: split_at_single split_at_append range_text_props)

lemma cpu_list_text_spaces: "\<forall>x\<in>set (cpu_list_text rs). \<not> is_space x"
proof (induction rs rule: cpu_list_text.induct)
  case (3 r r' rs)
  then show ?case using range_text_props(3) [of r] by (auto simp: is_space_def)
qed (simp_all add: range_text_props)

lemma parse_cpu_list_text:
  assumes "\<forall>(a, b)\<in>set rs. a < 2 ^ 64 \<and> b < 2 ^ 64"
  shows "parse_cpu_list (cpu_list_text rs) = concat (map (\<lambda>(a, b). [a..<Suc b]) rs)"
proof (cases "rs = []")
  case True
  then show ?thesis by (simp add: parse_cpu_list_def)
next
  case False
  have "filter (\<lambda>p. p \<noteq> []) (map range_text rs) = map range_text rs"
    by (simp add: filter_True range_text_props)
  moreover have "map parse_part (map range_text rs) = map (\<lambda>(a, b). [a..<Suc b]) rs"
    unfolding map_map using assms by (intro map_cong) (auto simp: parse_part_range simp del: upt_Suc)
  ultimately show ?thesis using split_cpu_list [OF False] by (simp only: parse_cpu_list_def)
qed

lemma trim_line:
  assumes "\<forall>x\<in>set s. \<not> is_space x"
  shows "trim (s @ [CHR 0x0A]) = s"
proof -
  have nl: "is_space (CHR 0x0A)" by (simp add: is_space_def)
  have idem: "dropWhile is_space w = w" if "\<forall>x\<in>set w. \<not> is_space x" for w
    using that by (cases w) simp_all
  show ?thesis
  proof (cases s)
    case Nil
    with nl show ?thesis by (simp add: trim_def trim_start_def)
  next
    case (Cons c cs)
    with assms have "trim_start (s @ [CHR 0x0A]) = s @ [CHR 0x0A]" by (simp add: trim_start_def)
    moreover have "trim_start (rev (s @ [CHR 0x0A])) = rev s"
      using nl idem [of "rev s"] assms by (simp add: trim_start_def)
    ultimately show ?thesis by (simp add: trim_def)
  qed
qed

section \<open>What the checks leave alone\<close>

lemma fold_keeps: "(\<And>x r. f (g x r) = f r) \<Longrightarrow> f (fold g xs r) = f r"
  by (induction xs arbitrary: r) simp_all

lemma warn_failures [simp]: "failures (warn m r) = failures r"
  by (simp add: warn_def)

lemma fail_failures [simp]: "failures (fail m r) = failures r @ [m]"
  by (simp add: fail_def)

lemma warning_checks [simp]:
  "failures (cores_isolated fs cores r) = failures r"
  "failures (cores_nohz_full fs cores r) = failures r"
  "failures (cores_performance_governor fs cores r) = failures r"
  "failures (turbo_disabled fs r) = failures r"
  "failures (cores_smt_siblings_quiet fs cores r) = failures r"
  "failures (cores_share_l3 fs cores r) = failures r"
  unfolding cores_isolated_def cores_nohz_full_def cores_performance_governor_def turbo_disabled_def
    cores_smt_siblings_quiet_def cores_share_l3_def Let_def
  by (auto intro!: fold_keeps [of failures] split: option.splits)

lemma cores_online_failures:
  "failures (cores_online fs cores r) = [] \<longleftrightarrow>
     failures r = [] \<and> set cores \<subseteq> set (read_cpu_list fs ''/sys/devices/system/cpu/online'')"
  unfolding cores_online_def Let_def by (induction cores arbitrary: r) auto

definition same_core :: "file_system \<Rightarrow> nat \<Rightarrow> nat \<Rightarrow> bool" where
  "same_core fs a b \<longleftrightarrow>
     (\<exists>s. read_trim fs (cpu_path a ''/topology/core_id'') = Some s \<and>
       read_trim fs (cpu_path b ''/topology/core_id'') = Some s)"

lemma cores_distinct_physical_failures:
  "failures (cores_distinct_physical fs [a, b] r) = [] \<longleftrightarrow> failures r = [] \<and> \<not> same_core fs a b"
  by (cases "read_trim fs (cpu_path b ''/topology/core_id'')")
    (auto simp: cores_distinct_physical_def Let_def same_core_def)

lemma tsc_failures:
  "failures (tsc_invariant_and_nonstop fs r) = [] \<longleftrightarrow>
     failures r = [] \<and> (\<forall>s. fs ''/proc/cpuinfo'' = Some s \<longrightarrow>
       contains_text ''constant_tsc'' s \<and> contains_text ''nonstop_tsc'' s)"
  by (auto simp: tsc_invariant_and_nonstop_def split: option.splits)

lemma two_core_failures:
  "failures (two_core_report fs debug [a, b]) = [] \<longleftrightarrow>
     \<not> debug \<and> {a, b} \<subseteq> set (read_cpu_list fs ''/sys/devices/system/cpu/online'') \<and> \<not> same_core fs a b \<and>
     (\<forall>s. fs ''/proc/cpuinfo'' = Some s \<longrightarrow> contains_text ''constant_tsc'' s \<and> contains_text ''nonstop_tsc'' s)"
  by (auto simp: two_core_report_def Let_def tsc_failures cores_distinct_physical_failures
      cores_online_failures release_build_def report_new_def)

section \<open>The table of interrupts\<close>

lemma lines_of_line:
  assumes "CHR 0x0A \<notin> set l" "CHR 0x0D \<notin> set l"
  shows "lines_of (l @ CHR 0x0A # s) = l # lines_of s"
proof -
  have "strip_cr l = l" using assms(2) last_in_set by (fastforce simp: strip_cr_def)
  then show ?thesis using assms(1) by (simp add: lines_of_def split_at_append Let_def)
qed

fun text_of_lines :: "string list \<Rightarrow> string" where
  "text_of_lines [] = []"
| "text_of_lines (l # ls) = l @ CHR 0x0A # text_of_lines ls"

definition clean :: "string \<Rightarrow> bool" where
  "clean l \<longleftrightarrow> CHR 0x0A \<notin> set l \<and> CHR 0x0D \<notin> set l"

lemma lines_of_text: "\<forall>l\<in>set ls. clean l \<Longrightarrow> lines_of (text_of_lines ls) = ls"
proof (induction ls)
  case Nil
  show ?case by (simp add: lines_of_def)
next
  case (Cons l ls)
  then show ?case by (simp add: clean_def lines_of_line)
qed

lemma plain_clean: "plain w \<Longrightarrow> clean w"
  by (auto simp: plain_def clean_def is_space_def)

lemma unwords_clean: "\<forall>w\<in>set ws. plain w \<Longrightarrow> clean (unwords ws)"
proof (induction ws)
  case (Cons w ws)
  then have "clean w" "clean (unwords ws)" by (auto intro: plain_clean)
  then show ?case by (simp add: clean_def)
qed (simp add: clean_def)

text \<open>The header has a word per CPU; the line of the local timer has a number per column.\<close>

definition cpu_word :: "nat \<Rightarrow> string" where
  "cpu_word c = ''CPU'' @ show_nat c"

lemma plain_cpu_word: "plain (cpu_word c)"
  using plain_show_nat [of c] by (auto simp: plain_def cpu_word_def is_space_def)

lemma loc_columns_header:
  assumes "split_whitespace header = map cpu_word cs" "\<forall>c\<in>set cs. c < 2 ^ 64"
  shows "loc_columns header = cs"
proof -
  have "List.map_filter (\<lambda>tok. case strip_prefix ''CPU'' tok of None \<Rightarrow> None | Some n \<Rightarrow> parse_unsigned n)
    (map cpu_word cs) = cs" using assms(2)
  proof (induction cs)
    case (Cons c cs)
    have "strip_prefix ''CPU'' (cpu_word c) = Some (show_nat c)" by (simp only: cpu_word_def strip_prefix_append)
    with Cons show ?case by (simp add: map_filter_simps parse_show)
  qed (simp add: map_filter_simps)
  with assms(1) show ?thesis by (simp add: loc_columns_def)
qed

lemma trim_start_matches_once:
  assumes "strip_prefix pat body = None"
  shows "trim_start_matches (Suc k) pat (pat @ body) = body"
  using assms by (cases k) simp_all

lemma parsed_numbers:
  assumes "\<forall>n\<in>set ns. n < 2 ^ 64" "\<forall>w\<in>set labels. parse_unsigned w = None"
  shows "List.map_filter parse_unsigned (map show_nat ns @ labels) = ns"
proof -
  have "List.map_filter parse_unsigned labels = []" using assms(2)
    by (induction labels) (simp_all add: map_filter_simps)
  then show ?thesis using assms(1) by (induction ns) (simp_all add: map_filter_simps parse_show)
qed

lemma loc_counts_line:
  assumes "trim_start l = ''LOC:'' @ body" "strip_prefix ''LOC:'' body = None"
    "split_whitespace body = map show_nat ns @ labels"
    "\<forall>n\<in>set ns. n < 2 ^ 64" "\<forall>w\<in>set labels. parse_unsigned w = None"
  shows "loc_counts l = ns"
proof -
  have "l \<noteq> []" using assms(1) by (auto simp: trim_start_def)
  then obtain k where k: "length l = Suc k" by (cases l) auto
  have "trim_start_matches (length l) ''LOC:'' (trim_start l) = body"
    unfolding k assms(1) by (rule trim_start_matches_once [OF assms(2)])
  then show ?thesis by (simp only: loc_counts_def assms(3) parsed_numbers [OF assms(4,5)])
qed

lemma position_map_of:
  assumes "length ns = length cs"
  shows "(case position (\<lambda>c. c = x) cs of None \<Rightarrow> None
    | Some k \<Rightarrow> if k < length ns then Some (ns ! k) else None) = map_of (zip cs ns) x"
  using assms [symmetric] by (induction cs ns rule: list_induct2) (auto simp: position_def Let_def)

lemma find_skips: "\<forall>x\<in>set xs. \<not> P x \<Longrightarrow> P y \<Longrightarrow> find P (xs @ y # ys) = Some y"
  by (induction xs) simp_all

section \<open>Properties\<close>

text \<open>C38: A list of cpus in the form the kernel writes it, ranges and single ids separated by commas with a
  newline at the end, is read back as the ids it stands for, in order, when they fit \<open>usize\<close>.
\<close>

theorem cpu_list_roundtrip:
  assumes "\<forall>(a, b)\<in>set rs. a < 2 ^ 64 \<and> b < 2 ^ 64"
    and "fs path = Some (cpu_list_text rs @ [CHR 0x0A])"
  shows "read_cpu_list fs path = concat (map (\<lambda>(a, b). [a..<Suc b]) rs)"
  by (simp only: read_cpu_list_def read_trim_def assms(2) option.map option.case
      trim_line [OF cpu_list_text_spaces] parse_cpu_list_text [OF assms(1)])

theorem cpu_list_roundtrip_witness:
  "read_cpu_list (\<lambda>path. Some (''2-3,5,7-9'' @ [CHR 0x0A])) ''/sys/devices/system/cpu/isolated'' = [2, 3, 5, 7, 8, 9]"
proof -
  let ?rs = "[(2, 3), (5, 5), (7, 9)] :: (nat \<times> nat) list"
  have t: "cpu_list_text ?rs @ [CHR 0x0A] = (''2-3,5,7-9'' @ [CHR 0x0A])"
    by code_simp
  show ?thesis
    using cpu_list_roundtrip [of ?rs "\<lambda>path. Some (''2-3,5,7-9'' @ [CHR 0x0A])" "''/sys/devices/system/cpu/isolated''"]
    unfolding t by (simp add: upt_rec)
qed

text \<open>C39: What decides that a two-core benchmark may run, on the first two core ids: a release build, both cores
  online, different \<open>core_id\<close> files, both flags in \<open>/proc/cpuinfo\<close> if that file can be read, and a
  successful \<open>mlockall\<close>. In every other case the preparation panics; everything else it checks only warns.
\<close>

theorem two_core_decides:
  "discover_and_preflight fs debug (Some (a # b # rest)) mlockall_rc hz =
     (if \<not> debug \<and> {a, b} \<subseteq> set (read_cpu_list fs ''/sys/devices/system/cpu/online'') \<and> \<not> same_core fs a b \<and>
       (case fs ''/proc/cpuinfo'' of None \<Rightarrow> True
        | Some s \<Rightarrow> contains_text ''constant_tsc'' s \<and> contains_text ''nonstop_tsc'' s) \<and>
       mlockall_rc = 0
      then Some \<lparr>producer_core = a, consumer_core = b, ctx_tsc_hz = hz\<rparr> else None)"
proof -
  have "snd (finish r) \<longleftrightarrow> failures r \<noteq> []" for r by (simp add: finish_def Let_def)
  then show ?thesis using two_core_failures [of fs debug a b]
    by (auto simp: discover_and_preflight_def split: option.splits)
qed

text \<open>C40: The interrupt counters are looked up by the id of the cpu and not by position: for a table whose header
  names the cpus \<open>cs\<close> and whose \<open>LOC:\<close> line has the numbers \<open>ns\<close>, in any layout with blanks, a cpu gets
  the number in its column and a cpu without a column gets \<open>None\<close>.
\<close>

theorem loc_read_table:
  assumes table: "fs ''/proc/interrupts'' = Some (text_of_lines (header # others @ l # further))"
    and clean: "\<forall>x\<in>set (header # others @ l # further). clean x"
    and header: "split_whitespace header = map cpu_word cs" "\<forall>c\<in>set cs. c < 2 ^ 64"
    and others: "\<forall>x\<in>set others. \<not> prefix ''LOC:'' (trim_start x)"
    and line: "trim_start l = ''LOC:'' @ body" "strip_prefix ''LOC:'' body = None"
      "split_whitespace body = map show_nat ns @ labels"
      "\<forall>n\<in>set ns. n < 2 ^ 64" "\<forall>w\<in>set labels. parse_unsigned w = None"
    and width: "length ns = length cs"
  shows "loc_read fs cpus = map (map_of (zip cs ns)) cpus"
proof -
  have "prefix ''LOC:'' (trim_start l)" by (simp only: line(1) prefix_def) blast
  then have f: "find (\<lambda>l. prefix ''LOC:'' (trim_start l)) (others @ l # further) = Some l"
    by (rule find_skips [OF others])
  show ?thesis
    unfolding loc_read_def table option.case lines_of_text [OF clean] list.case f Let_def
      loc_columns_header [OF header] loc_counts_line [OF line] position_map_of [OF width] ..
qed

theorem loc_read_table_witness:
  "loc_read (\<lambda>path. Some (text_of_lines
     [''           CPU0       CPU2'', ''  0:         44          0   IO-APIC   timer'',
      ''LOC:       1234         56   Local timer interrupts'', ''ERR:          0'']))
     [2, 1, 0] = [Some 56, None, Some 1234]"
proof -
  let ?h = "''           CPU0       CPU2''" and ?l = "''LOC:       1234         56   Local timer interrupts''"
  let ?others = "[''  0:         44          0   IO-APIC   timer'']" and ?further = "[''ERR:          0'']"
  let ?body = "''       1234         56   Local timer interrupts''"
  let ?fs = "\<lambda>path :: string. Some (text_of_lines (?h # ?others @ ?l # ?further))"
  have 1: "\<forall>x\<in>set (?h # ?others @ ?l # ?further). clean x" by (simp add: clean_def)
  have 2: "split_whitespace ?h = map cpu_word [0, 2]" by code_simp
  have 3: "\<forall>x\<in>set ?others. \<not> prefix ''LOC:'' (trim_start x)" by code_simp
  have 4: "trim_start ?l = ''LOC:'' @ ?body" by code_simp
  have 5: "strip_prefix ''LOC:'' ?body = None" by code_simp
  have 6: "split_whitespace ?body = map show_nat [1234, 56] @ [''Local'', ''timer'', ''interrupts'']"
    by (simp add: split_whitespace_def is_space_def show_nat.simps digit_char_def) code_simp
  have 7: "\<forall>w\<in>set [''Local'', ''timer'', ''interrupts'']. parse_unsigned w = None"
    by (simp add: parse_unsigned_def is_digit_def)
  have "loc_read ?fs [2, 1, 0] = map (map_of (zip [0 :: nat, 2] [1234, 56])) [2, 1, 0]"
    by (rule loc_read_table [where fs = ?fs, OF refl 1 2 _ 3 4 5 6 _ 7]) simp_all
  then show ?thesis by simp
qed

end
