(* ===== verification/Sweeps.thy ===== *)
theory Sweeps
  imports Bench_Spsc Bench_Spmc Preflight
begin

text \<open>
  The sweeps of the benchmark harness: \<open>run_spsc_throttled\<close> measures one rate after the other
  (\<open>bench/harness/spsc/throttled.rs\<close>), \<open>run_spmc_lapped\<close> one consumer delay after the other
  (\<open>bench/harness/spmc/lapped.rs\<close>). A measurement runs the two threads on a new queue until both have
  ended; the interleaving and the clock are free, so a measurement is a relation between its
  parameters and the row it adds to the report. A panic adds no row.
\<close>

section \<open>The interrupt counters of a run\<close>

text \<open>The counters come as files before and after the run.\<close>

definition loc_deltas_of :: "two_core_ctx \<Rightarrow> file_system \<Rightarrow> file_system \<Rightarrow> (nat \<times> u64 option) list" where
  "loc_deltas_of ctx before after =
     (let cores = used_cpu_ids ctx; counters = (\<lambda>fs. map (map_option of_nat) (loc_read fs cores))
      in loc_delta cores (counters before) (counters after))"

section \<open>The throttled sweep\<close>

inductive measure_at_rate ::
  "fault + 's \<Rightarrow> ('s \<Rightarrow> stamped \<Rightarrow> fault + ((stamped + unit) \<times> 's)) \<Rightarrow> ('s \<Rightarrow> fault + (stamped option \<times> 's)) \<Rightarrow>
     two_core_ctx \<Rightarrow> u64 \<Rightarrow> u64 \<Rightarrow> (u64 \<Rightarrow> bool) \<Rightarrow> u64 \<Rightarrow> bool \<Rightarrow> u64 list throttled_result \<Rightarrow> bool"
  for made try_push try_pop ctx rate n accepts warmup capture_sys where
  measured_rate: "made = Inr s \<Longrightarrow> dt_q32 (ctx_tsc_hz ctx) rate = Some dt \<Longrightarrow>
    throttled_reach try_push try_pop dt (unat n) accepts (unat warmup) capture_sys start s (b, p) \<Longrightarrow>
    phase_of b = Finished \<Longrightarrow> outcome p = Some res \<Longrightarrow>
    throttled_result_of (ctx_tsc_hz ctx) rate n res (hist_of b) (loc_deltas_of ctx before after) = Some r \<Longrightarrow>
    measure_at_rate made try_push try_pop ctx rate n accepts warmup capture_sys r"

inductive throttled_sweep ::
  "fault + 's \<Rightarrow> ('s \<Rightarrow> stamped \<Rightarrow> fault + ((stamped + unit) \<times> 's)) \<Rightarrow> ('s \<Rightarrow> fault + (stamped option \<times> 's)) \<Rightarrow>
     two_core_ctx \<Rightarrow> (u64 \<Rightarrow> bool) \<Rightarrow> throttled_cfg \<Rightarrow> u64 list \<Rightarrow> u64 list throttled_result list \<Rightarrow> bool"
  for made try_push try_pop ctx accepts cfg where
  throttled_sweep_end: "throttled_sweep made try_push try_pop ctx accepts cfg [] []"
| throttled_sweep_rate: "items_and_warmup cfg rate = Some (n, warmup) \<Longrightarrow>
    measure_at_rate made try_push try_pop ctx rate n accepts warmup (capture_sys_latency cfg) r \<Longrightarrow>
    throttled_sweep made try_push try_pop ctx accepts cfg rates rs \<Longrightarrow>
    throttled_sweep made try_push try_pop ctx accepts cfg (rate # rates) (r # rs)"

inductive_cases measure_at_rateE: "measure_at_rate made try_push try_pop ctx rate n accepts warmup capture_sys r"

inductive_simps throttled_sweep_simps:
  "throttled_sweep made try_push try_pop ctx accepts cfg [] rs"
  "throttled_sweep made try_push try_pop ctx accepts cfg (rate # rates) rs"

definition run_spsc_throttled ::
  "fault + 's \<Rightarrow> ('s \<Rightarrow> stamped \<Rightarrow> fault + ((stamped + unit) \<times> 's)) \<Rightarrow> ('s \<Rightarrow> fault + (stamped option \<times> 's)) \<Rightarrow>
     two_core_ctx \<Rightarrow> (u64 \<Rightarrow> bool) \<Rightarrow> throttled_cfg \<Rightarrow> u64 list throttled_result list \<Rightarrow> bool" where
  "run_spsc_throttled made try_push try_pop ctx accepts cfg rs \<longleftrightarrow>
     throttled_sweep made try_push try_pop ctx accepts cfg (rates_hz cfg) rs"

lemma samples_ages:
  "samples (ages accepts) xs (u, s) =
     (u @ filter accepts (map (\<lambda>(it, now). now - schedule_tsc it) xs),
      map_option (\<lambda>h. h @ filter accepts (map (\<lambda>(it, now). now - push_tsc it) xs)) s)"
proof (induction xs arbitrary: u s)
  case (Cons x xs)
  then show ?case by (cases x; cases s) (simp_all add: samples_def ages_def)
qed (simp add: samples_def option.map_ident)

text \<open>What one row says of a run over the crate's queue.\<close>

definition throttled_row :: "(u64 \<Rightarrow> bool) \<Rightarrow> throttled_cfg \<Rightarrow> u64 list throttled_result \<Rightarrow> bool" where
  "throttled_row accepts cfg r \<longleftrightarrow>
     rate_hz r \<noteq> 0 \<and> min_n cfg \<le> n_of r \<and> n_of r \<le> max_n cfg \<and> full_of r \<le> n_of r \<and>
     (\<exists>xs. length xs = unat (n_of r) - unat (n_of r) div unat (warmup_divisor cfg) \<and> user_hist r = filter accepts xs) \<and>
     (sys_hist r \<noteq> None \<longleftrightarrow> capture_sys_latency cfg \<and> \<not> saturated r) \<and>
     (\<forall>h\<in>set_option (sys_hist r). \<exists>xs.
       length xs = unat (n_of r) - unat (n_of r) div unat (warmup_divisor cfg) \<and> h = filter accepts xs)"

lemma throttled_result_fields:
  assumes "throttled_result_of hz rate n (elapsed, full, lag) hists deltas = Some r"
  shows "rate_hz r = rate" "rate \<noteq> 0" "n_of r = n" "full_of r = full" "user_hist r = fst hists"
    "sys_hist r = (if saturated r then None else snd hists)"
  using assms by (auto simp: throttled_result_of_def to_ns_def Let_def split: if_splits)

lemma items_and_warmup_bounds:
  assumes "items_and_warmup cfg rate = Some (n, warmup)"
  shows "min_n cfg \<le> n" "n \<le> max_n cfg" "unat warmup = unat n div unat (warmup_divisor cfg)"
  using assms by (auto simp: items_and_warmup_def Let_def unat_div max_def min_def split: if_splits)

lemma measured_row:
  assumes "slot_allocator allocate"
    and "measure_at_rate (ours_new allocate cap) (ours_try_push cap) (ours_try_pop cap) ctx rate n accepts warmup
      (capture_sys_latency cfg) r"
    and "items_and_warmup cfg rate = Some (n, warmup)"
  shows "rate_hz r = rate \<and> throttled_row accepts cfg r"
proof -
  from assms(2) obtain s dt start b p res before after where 1: "ours_new allocate cap = Inr s"
    "dt_q32 (ctx_tsc_hz ctx) rate = Some dt"
    "throttled_reach (ours_try_push cap) (ours_try_pop cap) dt (unat n) accepts (unat warmup) (capture_sys_latency cfg)
      start s (b, p)"
    "phase_of b = Finished" "outcome p = Some res"
    "throttled_result_of (ctx_tsc_hz ctx) rate n res (hist_of b) (loc_deltas_of ctx before after) = Some r"
    by (rule measure_at_rateE)
  obtain elapsed full lag where res: "res = (elapsed, full, lag)" by (cases res)
  note reached = throttled_reached [OF assms(1) 1(1,3)]
  from ours.bench_invD(2) [OF reached(1)] 1(4) have d: "done_flag b" by blast
  from reached(3) [OF d] have pe: "pc_of p = ProducerEnd" "items_left p = 0" by (simp_all add: producer_end_def)
  with reached(2) have len: "length (sent b) = unat n" "full_pushes p = of_nat (full_first p)" "full_first p \<le> unat n"
    by (auto simp: producer_inv_def)
  have full: "full = full_pushes p" using reached(4) 1(5) res by simp
  have "unat full \<le> unat n"
    using len(2,3) full by (simp add: unat_of_nat_usize order_trans [OF mod_less_eq_dividend])
  moreover have "length (got b) = unat n"
    using ours.bench_invD(3) [OF reached(1)] 1(4) len(1) by (metis length_map)
  moreover note items_and_warmup_bounds [OF assms(3)]
  moreover note fields = throttled_result_fields [OF 1(6) [unfolded res]]
  moreover have "hist_of b = samples (ages accepts) (drop (unat warmup) (got b)) (throttled_hist (capture_sys_latency cfg))"
    by (rule ours.bench_invD(4) [OF reached(1)])
  then have h: "hist_of b =
      (filter accepts (map (\<lambda>(it, now). now - schedule_tsc it) (drop (unat warmup) (got b))),
       if capture_sys_latency cfg
       then Some (filter accepts (map (\<lambda>(it, now). now - push_tsc it) (drop (unat warmup) (got b)))) else None)"
    by (simp add: throttled_hist_def samples_ages)
  ultimately have r: "rate_hz r = rate" "rate \<noteq> 0" "min_n cfg \<le> n_of r" "n_of r \<le> max_n cfg" "full_of r \<le> n_of r"
    and n: "length (drop (unat warmup) (got b)) = unat (n_of r) - unat (n_of r) div unat (warmup_divisor cfg)"
    and hists: "user_hist r = fst (hist_of b)" "sys_hist r = (if saturated r then None else snd (hist_of b))"
    by (simp_all add: word_le_nat_alt)
  have "\<exists>xs. length xs = unat (n_of r) - unat (n_of r) div unat (warmup_divisor cfg) \<and> user_hist r = filter accepts xs"
    unfolding hists h fst_conv by (rule exI, rule conjI [OF _ refl]) (simp only: length_map n)
  moreover have "\<exists>xs. length xs = unat (n_of r) - unat (n_of r) div unat (warmup_divisor cfg) \<and> hs = filter accepts xs"
    if "sys_hist r = Some hs" for hs
  proof -
    from that have "hs = filter accepts (map (\<lambda>(it, now). now - push_tsc it) (drop (unat warmup) (got b)))"
      unfolding hists h by (simp split: if_splits)
    moreover have "length (map (\<lambda>(it, now). now - push_tsc it) (drop (unat warmup) (got b))) =
        unat (n_of r) - unat (n_of r) div unat (warmup_divisor cfg)" by (simp only: length_map n)
    ultimately show ?thesis by blast
  qed
  moreover have "sys_hist r \<noteq> None \<longleftrightarrow> capture_sys_latency cfg \<and> \<not> saturated r"
    unfolding hists h by simp
  ultimately show ?thesis using r by (simp add: throttled_row_def)
qed

section \<open>The lapped sweep\<close>

text \<open>
  A measurement takes the last consumer \<open>Q::new(1)\<close> returns. The ghost number is how many values were
  published, which the counter of the report holds modulo \<open>2 ^ 64\<close>.
\<close>

inductive lapped_measure ::
  "fault + ('q \<times> 'c list) \<Rightarrow> ('q \<Rightarrow> u64 \<Rightarrow> fault + ((u64 + unit) \<times> 'q)) \<Rightarrow>
     ('q \<Rightarrow> 'c \<Rightarrow> (fault + (u64 spmc_read_result \<times> 'c)) option) \<Rightarrow>
     two_core_ctx \<Rightarrow> u64 \<Rightarrow> u64 \<Rightarrow> lapped_rate_result \<Rightarrow> nat \<Rightarrow> bool"
  for made try_publish rd ctx delay run_ticks where
  measured_delay: "made = Inr (q, cs) \<Longrightarrow> cs \<noteq> [] \<Longrightarrow>
    threads_reach (window_producer_step try_publish (window_end start run_ticks)) (lapped_consumer_step rd)
      (lcons_run q (last cs)) (st, p, l) \<Longrightarrow>
    wp_pc p = Ended \<Longrightarrow> l_phase l = Returned \<Longrightarrow>
    r = lapped_rate_result_of delay p l (loc_deltas_of ctx before after) \<Longrightarrow>
    lapped_measure made try_publish rd ctx delay run_ticks r (length (r_log st))"

inductive lapped_sweep ::
  "fault + ('q \<times> 'c list) \<Rightarrow> ('q \<Rightarrow> u64 \<Rightarrow> fault + ((u64 + unit) \<times> 'q)) \<Rightarrow>
     ('q \<Rightarrow> 'c \<Rightarrow> (fault + (u64 spmc_read_result \<times> 'c)) option) \<Rightarrow>
     two_core_ctx \<Rightarrow> u64 \<Rightarrow> u64 list \<Rightarrow> lapped_rate_result list \<Rightarrow> nat list \<Rightarrow> bool"
  for made try_publish rd ctx run_ticks where
  lapped_sweep_end: "lapped_sweep made try_publish rd ctx run_ticks [] [] []"
| lapped_sweep_delay: "lapped_measure made try_publish rd ctx delay run_ticks r k \<Longrightarrow>
    lapped_sweep made try_publish rd ctx run_ticks delays rs ks \<Longrightarrow>
    lapped_sweep made try_publish rd ctx run_ticks (delay # delays) (r # rs) (k # ks)"

inductive_cases lapped_measureE: "lapped_measure made try_publish rd ctx delay run_ticks r k"

inductive_simps lapped_sweep_simps:
  "lapped_sweep made try_publish rd ctx run_ticks [] rs ks"
  "lapped_sweep made try_publish rd ctx run_ticks (delay # delays) rs ks"

definition run_spmc_lapped ::
  "spmc_semantics \<Rightarrow> fault + ('q \<times> 'c list) \<Rightarrow> ('q \<Rightarrow> u64 \<Rightarrow> fault + ((u64 + unit) \<times> 'q)) \<Rightarrow>
     ('q \<Rightarrow> 'c \<Rightarrow> (fault + (u64 spmc_read_result \<times> 'c)) option) \<Rightarrow>
     two_core_ctx \<Rightarrow> lapped_cfg \<Rightarrow> lapped_rate_result list \<Rightarrow> nat list \<Rightarrow> bool" where
  "run_spmc_lapped semantics made try_publish rd ctx cfg rs ks \<longleftrightarrow>
     (case lapped_window semantics (ctx_tsc_hz ctx) cfg of
        None \<Rightarrow> False
      | Some run_ticks \<Rightarrow> lapped_sweep made try_publish rd ctx run_ticks (delays_cycles cfg) rs ks)"

lemma nonempty_results [simp]:
  "s_received (nonempty rs) = s_received rs" "s_skips (nonempty rs) = s_skips rs"
  by (induction rs rule: s_received.induct) (simp_all add: nonempty_def)

text \<open>The counted results received and skipped no more than all of them.\<close>

lemma counted_le:
  "length (s_received (drop k (nonempty rs))) + sum_list (map unat (s_skips (drop k (nonempty rs)))) \<le>
     length (s_received rs) + s_skipped rs"
proof -
  let ?ne = "nonempty rs"
  have "s_received rs = s_received (take k ?ne) @ s_received (drop k ?ne)"
    "s_skips rs = s_skips (take k ?ne) @ s_skips (drop k ?ne)"
    using s_received_append [of "take k ?ne" "drop k ?ne"] s_skips_append [of "take k ?ne" "drop k ?ne"] by simp_all
  then show ?thesis by (simp add: s_skipped_def)
qed

definition lapped_row :: "lapped_rate_result \<Rightarrow> nat \<Rightarrow> bool" where
  "lapped_row r k \<longleftrightarrow>
     unat (lr_published r) = k \<and> length (lr_value_hist r) = lr_values r \<and>
     length (lr_lapped_hist r) = lr_lapped r \<and> length (lr_skipped_hist r) = lr_lapped r \<and>
     lr_values r + sum_list (map unat (lr_skipped_hist r)) \<le> k"

lemma measured_delay_row:
  assumes "slot_allocator allocate"
    and "lapped_measure (ours_spmc_new allocate z cap 1) (ours_try_publish cap) (ours_try_read cap) ctx delay run_ticks r k"
    and "k \<le> 2 ^ 63"
  shows "lr_delay_cycles r = delay \<and> lapped_row r k"
proof -
  from assms(2) obtain q cs start st p l before after where 1: "k = length (r_log st)"
    "ours_spmc_new allocate z cap 1 = Inr (q, cs)" "cs \<noteq> []"
    "threads_reach (window_producer_step (ours_try_publish cap) (window_end start run_ticks))
      (lapped_consumer_step (ours_try_read cap)) (lcons_run q (last cs)) (st, p, l)"
    "wp_pc p = Ended" "l_phase l = Returned"
    "r = lapped_rate_result_of delay p l (loc_deltas_of ctx before after)"
    by (rule lapped_measureE)
  have "length cs = 1" by (rule ours_spmc_new_rep(2) [OF assms(1) 1(2)])
  then obtain c where cs: "cs = [c]" by (auto simp: length_Suc_conv)
  from lapped_reached [OF assms(1) 1(2) [unfolded cs]] 1(4) cs
  have "ours_overwriting.lapped_inv cap z (st, p, l)" by simp
  then obtain r' where inv: "ours_spmc.run_inv cap z st r'" "lcons_inv (r_results st) l"
    "wp_i p = of_nat (length (r_log st))"
    using assms(3) 1(1) unfolding ours_overwriting.lapped_inv_def prod.case by blast
  have "length (r_log st) < 2 ^ 64" using assms(3) 1(1) by simp
  then have "unat (wp_i p) = k" unfolding inv(3) 1(1) by (simp only: unat_of_nat_usize mod_less)
  moreover have "length (s_received (r_results st)) + s_skipped (r_results st) \<le> k"
    using inv(1) 1(1) by (simp add: ours_spmc.run_inv_def)
  ultimately show ?thesis
    using counted_le [of WARMUP "r_results st"] inv(2)
    by (simp add: 1(7) lapped_row_def lapped_rate_result_of_def lcons_inv_def)
qed

lemma throttled_sweep_rows:
  assumes "slot_allocator allocate"
    and "throttled_sweep (ours_new allocate cap) (ours_try_push cap) (ours_try_pop cap) ctx accepts cfg rates rs"
  shows "map rate_hz rs = rates \<and> list_all (throttled_row accepts cfg) rs"
  using assms(2) by (induction rule: throttled_sweep.induct) (use measured_row [OF assms(1)] in simp_all)

lemma lapped_sweep_rows:
  assumes "slot_allocator allocate"
    and "lapped_sweep (ours_spmc_new allocate z cap 1) (ours_try_publish cap) (ours_try_read cap) ctx run_ticks delays rs ks"
    and "list_all (\<lambda>k. k \<le> 2 ^ 63) ks"
  shows "map lr_delay_cycles rs = delays \<and> list_all2 lapped_row rs ks"
  using assms(2,3) by (induction rule: lapped_sweep.induct) (use measured_delay_row [OF assms(1)] in simp_all)

section \<open>Properties\<close>

text \<open>The report of a throttled sweep over the crate's queue has one row per configured rate, in order. Every
  row is of a rate above zero, its number of items is within the configured bounds, at most all of them met
  a full queue, the user histogram has a sample for each item after the warmup that \<open>record\<close> takes, and the
  system histogram is there exactly when it was asked for and the rate is not flagged, with samples likewise.
\<close>

theorem throttled_sweep_report:
  assumes "slot_allocator allocate"
    and "run_spsc_throttled (ours_new allocate cap) (ours_try_push cap) (ours_try_pop cap) ctx accepts cfg rs"
  shows "map rate_hz rs = rates_hz cfg \<and>
    (\<forall>r\<in>set rs. rate_hz r \<noteq> 0 \<and> min_n cfg \<le> n_of r \<and> n_of r \<le> max_n cfg \<and> full_of r \<le> n_of r \<and>
       (\<exists>xs. length xs = unat (n_of r) - unat (n_of r) div unat (warmup_divisor cfg) \<and> user_hist r = filter accepts xs) \<and>
       (sys_hist r \<noteq> None \<longleftrightarrow> capture_sys_latency cfg \<and> \<not> saturated r) \<and>
       (\<forall>h\<in>set_option (sys_hist r). \<exists>xs.
       length xs = unat (n_of r) - unat (n_of r) div unat (warmup_divisor cfg) \<and> h = filter accepts xs))"
  using throttled_sweep_rows [OF assms(1) assms(2) [unfolded run_spsc_throttled_def]]
  by (simp add: throttled_row_def list_all_iff)

definition demo_ctx :: two_core_ctx where
  "demo_ctx = \<lparr>producer_core = 2, consumer_core = 3, ctx_tsc_hz = 10\<rparr>"

definition demo_sweep_cfg :: throttled_cfg where
  "demo_sweep_cfg = \<lparr>rates_hz = [3], target_secs = 1, warmup_divisor = 3, capture_sys_latency = True, min_n = 2, max_n = 5\<rparr>"

lemma demo_measured: "\<exists>r. measure_at_rate (ours_new demo_item_alloc 2) (ours_try_push 2) (ours_try_pop 2) demo_ctx 3 3 (\<lambda>_. True) 1 True r"
proof -
  obtain s b p where d: "ours_new demo_item_alloc 2 = Inr s"
    "throttled_reach (ours_try_push 2) (ours_try_pop 2) 14316557653 3 (\<lambda>_. True) 1 True 100 s (b, p)"
    "phase_of b = Finished" "map_option (fst \<circ> snd) (outcome p) = Some 1"
    by (rule demo_throttled)
  from d(4) obtain res where res: "outcome p = Some res" by (cases "outcome p") simp_all
  have "\<exists>r. throttled_result_of (ctx_tsc_hz demo_ctx) 3 3 res (hist_of b)
      (loc_deltas_of demo_ctx (\<lambda>_. None) (\<lambda>_. None)) = Some r"
    by (cases res) (simp add: throttled_result_of_def to_ns_def demo_ctx_def Let_def)
  then obtain r where r: "throttled_result_of (ctx_tsc_hz demo_ctx) 3 3 res (hist_of b)
      (loc_deltas_of demo_ctx (\<lambda>_. None) (\<lambda>_. None)) = Some r" ..
  have "dt_q32 (ctx_tsc_hz demo_ctx) 3 = Some 14316557653" using demo_dt by (simp add: demo_ctx_def)
  moreover have "throttled_reach (ours_try_push 2) (ours_try_pop 2) 14316557653 (unat (3 :: u64)) (\<lambda>_. True) (unat (1 :: u64)) True 100 s (b, p)"
    using d(2) by simp
  ultimately show ?thesis using measured_rate [OF d(1) _ _ d(3) res r] by blast
qed

theorem throttled_sweep_report_witness:
  "\<exists>rs. run_spsc_throttled (ours_new demo_item_alloc 2) (ours_try_push 2) (ours_try_pop 2) demo_ctx (\<lambda>_. True) demo_sweep_cfg rs \<and>
     map rate_hz rs = [3] \<and> length (user_hist (hd rs)) = unat (n_of (hd rs)) - unat (n_of (hd rs)) div 3"
proof -
  from demo_measured obtain r where
    r: "measure_at_rate (ours_new demo_item_alloc 2) (ours_try_push 2) (ours_try_pop 2) demo_ctx 3 3 (\<lambda>_. True) 1
      (capture_sys_latency demo_sweep_cfg) r" by (auto simp: demo_sweep_cfg_def)
  have "items_and_warmup demo_sweep_cfg 3 = Some (3, 1)"
    by (simp add: items_and_warmup_def demo_sweep_cfg_def saturating_mul_def Let_def)
  from throttled_sweep_rate [OF this r throttled_sweep_end]
  have run: "run_spsc_throttled (ours_new demo_item_alloc 2) (ours_try_push 2) (ours_try_pop 2) demo_ctx (\<lambda>_. True) demo_sweep_cfg [r]"
    by (simp add: run_spsc_throttled_def demo_sweep_cfg_def)
  from throttled_sweep_report [OF demo_item_allocator run] run show ?thesis
    by (intro exI [of _ "[r]"]) (simp add: demo_sweep_cfg_def)
qed

text \<open>The report of a lapped sweep over the crate's queue has one row per configured delay, in order, and every
  row adds up: one sample per counted value and per counted lap, and the values counted and the
  values skipped in counted laps are together no more than the values published, which the producer's
  counter gives exactly (below \<open>2 ^ 63\<close>). The sweep refuses an implementation with backpressure.
\<close>

theorem lapped_sweep_report:
  assumes "slot_allocator allocate"
    and "run_spmc_lapped semantics (ours_spmc_new allocate z cap 1) (ours_try_publish cap) (ours_try_read cap) ctx cfg rs ks"
    and "list_all (\<lambda>k. k \<le> 2 ^ 63) ks"
  shows "semantics = OverwritingLapNotified \<and> map lr_delay_cycles rs = delays_cycles cfg \<and>
    map (unat \<circ> lr_published) rs = ks \<and>
    (\<forall>r\<in>set rs. length (lr_value_hist r) = lr_values r \<and> length (lr_lapped_hist r) = lr_lapped r \<and>
       length (lr_skipped_hist r) = lr_lapped r \<and>
       lr_values r + sum_list (map unat (lr_skipped_hist r)) \<le> unat (lr_published r))"
proof -
  from assms(2) obtain w where w: "lapped_window semantics (ctx_tsc_hz ctx) cfg = Some w"
    "lapped_sweep (ours_spmc_new allocate z cap 1) (ours_try_publish cap) (ours_try_read cap) ctx w (delays_cycles cfg) rs ks"
    by (auto simp: run_spmc_lapped_def split: option.splits)
  from lapped_sweep_rows [OF assms(1) w(2) assms(3)]
  have "map lr_delay_cycles rs = delays_cycles cfg" and rows: "list_all2 lapped_row rs ks" by simp_all
  moreover from rows have "map (unat \<circ> lr_published) rs = ks" "list_all (\<lambda>r. lapped_row r (unat (lr_published r))) rs"
    by (induction rule: list_all2_induct) (simp_all add: lapped_row_def)
  ultimately show ?thesis using w(1)
    by (simp add: lapped_row_def list_all_iff lapped_window_def split: if_splits)
qed

lemma demo_sweep_run:
  "map_option (map_sum id (\<lambda>(st, p, l). (wp_pc p, l_phase l, r_log st)))
     (case ours_spmc_new demo_stamps_alloc 0 1 1 of
        Inr (q, [c]) \<Rightarrow> threads_run (window_producer_step (ours_try_publish 1) 15)
          (lapped_consumer_step (ours_try_read 1)) (lcons_run q c) lapped_events
      | _ \<Rightarrow> None) =
   Some (Inr (Ended, Returned, [0, 1, 2]))"
  by code_simp

definition demo_lapped_cfg :: lapped_cfg where
  "demo_lapped_cfg = \<lparr>delays_cycles = [7], run_secs = 1\<rparr>"

lemma demo_lapped_measure:
  "\<exists>r. lapped_measure (ours_spmc_new demo_stamps_alloc 0 1 1) (ours_try_publish 1) (ours_try_read 1) demo_ctx 7 10 r 3"
proof -
  obtain q c st' p' h' where new: "ours_spmc_new demo_stamps_alloc 0 1 1 = Inr (q, [c])"
    "threads_reach (handoff_producer_step (ours_try_publish 1) 5) (spmc_consumer_step (ours_try_read 1) (\<lambda>_. True) 1)
      (run_new q c, hprod_new 3, hcons_new) (st', p', h')"
    by (rule demo_spmc_handoff)
  from demo_sweep_run obtain x where
    x: "threads_run (window_producer_step (ours_try_publish 1) 15)
        (lapped_consumer_step (ours_try_read 1)) (lcons_run q c) lapped_events = Some (Inr x)"
      "(case x of (st, p, l) \<Rightarrow> (wp_pc p, l_phase l, r_log st)) = (Ended, Returned, [0, 1, 2])"
    unfolding new(1) sum.case prod.case list.case map_run_iff by blast
  obtain st p l where xx: "x = (st, p, l)" by (cases x)
  from x(2) have l: "wp_pc p = Ended" "l_phase l = Returned" "length (r_log st) = 3" by (simp_all add: xx)
  have "threads_reach (window_producer_step (ours_try_publish 1) (window_end 5 10))
      (lapped_consumer_step (ours_try_read 1)) (lcons_run q (last [c])) (st, p, l)"
    using threads_reach_run [OF threads_init x(1)] unfolding xx by (simp add: window_end_def)
  from measured_delay [OF new(1) _ this l(1,2) refl] show ?thesis unfolding l(3) by blast
qed

theorem lapped_sweep_report_witness:
  "\<exists>rs. run_spmc_lapped ours_semantics (ours_spmc_new demo_stamps_alloc 0 1 1) (ours_try_publish 1) (ours_try_read 1)
       demo_ctx demo_lapped_cfg rs [3] \<and>
     map lr_delay_cycles rs = [7] \<and> map (unat \<circ> lr_published) rs = [3]"
proof -
  from demo_lapped_measure obtain r where
    r: "lapped_measure (ours_spmc_new demo_stamps_alloc 0 1 1) (ours_try_publish 1) (ours_try_read 1) demo_ctx 7 10 r 3" ..
  have run: "run_spmc_lapped ours_semantics (ours_spmc_new demo_stamps_alloc 0 1 1) (ours_try_publish 1) (ours_try_read 1)
      demo_ctx demo_lapped_cfg [r] [3]"
    using lapped_sweep_delay [OF r lapped_sweep_end]
    by (simp add: run_spmc_lapped_def lapped_window_def ours_semantics_def demo_ctx_def demo_lapped_cfg_def)
  have "list_all (\<lambda>k. k \<le> 2 ^ 63) [3 :: nat]" by simp
  from lapped_sweep_report [OF demo_stamps_allocator run this] run show ?thesis
    by (intro exI [of _ "[r]"]) (simp add: demo_lapped_cfg_def)
qed

end
