(* ===== verification/Capacity_Sweep.thy ===== *)
theory Capacity_Sweep
  imports Sweeps
begin

text \<open>
  The capacity sweep, \<open>run_spmc_capacity_sweep_one\<close> of \<open>bench/harness/spmc/capacity_sweep.rs\<close> for each
  capacity of \<open>examples/spmc/bench_capacity_sweep.rs\<close>, as a relation between a configuration and its
  rows, since the interleavings and the clock are free.
\<close>

section \<open>The sweep\<close>

text \<open>
  One capacity: the window in ticks, the queue made on the thread with the large stack, its last
  consumer, the two threads to their end. The ghost number is how many values were published.
\<close>

definition capacity_window :: "u64 \<Rightarrow> u64 \<Rightarrow> u64" where
  "capacity_window tsc_hz secs = tsc_hz * secs"

inductive capacity_measure ::
  "fault + ('q \<times> 'c list) \<Rightarrow> ('q \<Rightarrow> u64 \<Rightarrow> fault + ((u64 + unit) \<times> 'q)) \<Rightarrow>
     ('q \<Rightarrow> 'c \<Rightarrow> (fault + (u64 spmc_read_result \<times> 'c)) option) \<Rightarrow>
     two_core_ctx \<Rightarrow> u64 \<Rightarrow> usize \<Rightarrow> capacity_result \<Rightarrow> nat \<Rightarrow> bool"
  for made try_publish rd ctx secs cap where
  measured_capacity: "made = Inr (q, cs) \<Longrightarrow> cs \<noteq> [] \<Longrightarrow>
    threads_reach (retry_producer_step try_publish (window_end start (capacity_window (ctx_tsc_hz ctx) secs)))
      (capacity_consumer_step rd) (ccons_run q (last cs)) (st, p, l) \<Longrightarrow>
    wp_pc p = Ended \<Longrightarrow> c_phase l = Returned \<Longrightarrow> r = capacity_result_of cap p l \<Longrightarrow>
    capacity_measure made try_publish rd ctx secs cap r (length (r_log st))"

inductive capacity_sweep ::
  "(usize \<Rightarrow> fault + ('q \<times> 'c list)) \<Rightarrow> (usize \<Rightarrow> 'q \<Rightarrow> u64 \<Rightarrow> fault + ((u64 + unit) \<times> 'q)) \<Rightarrow>
     (usize \<Rightarrow> 'q \<Rightarrow> 'c \<Rightarrow> (fault + (u64 spmc_read_result \<times> 'c)) option) \<Rightarrow>
     two_core_ctx \<Rightarrow> u64 \<Rightarrow> usize list \<Rightarrow> capacity_result list \<Rightarrow> nat list \<Rightarrow> bool"
  for made try_publish rd ctx secs where
  capacity_sweep_end: "capacity_sweep made try_publish rd ctx secs [] [] []"
| capacity_sweep_cap: "capacity_measure (made cap) (try_publish cap) (rd cap) ctx secs cap r k \<Longrightarrow>
    capacity_sweep made try_publish rd ctx secs caps rs ks \<Longrightarrow>
    capacity_sweep made try_publish rd ctx secs (cap # caps) (r # rs) (k # ks)"

inductive_cases capacity_measureE: "capacity_measure made try_publish rd ctx secs cap r k"

section \<open>What the rows add up to\<close>

definition capacity_row :: "capacity_result \<Rightarrow> nat \<Rightarrow> bool" where
  "capacity_row r k \<longleftrightarrow> unat (cr_published r) = k \<and> length (cr_value_hist r) = cr_values r \<and> cr_values r \<le> k"

lemma capacity_reached:
  assumes "slot_allocator allocate" "ours_spmc_new allocate z cap 1 = Inr (q, [c])"
    and "threads_reach (retry_producer_step (ours_try_publish cap) stop_at)
      (capacity_consumer_step (ours_try_read cap)) (ccons_run q c) s"
  shows "ours_overwriting.sweep_inv cap z s"
  using assms(3)
proof (rule threads_reach_invariant)
  note new = ours_spmc_new_rep [OF assms(1,2)]
  have "ours_spmc.run_inv cap z (run_new q c) 0" using run_inv_new new by simp
  then show "ours_overwriting.sweep_inv cap z (ccons_run q c)"
    unfolding ours_overwriting.sweep_inv_def ccons_run_def prod.case
    by (auto simp: ccons_new_def ccons_inv_def nonempty_def wprod_new_def run_new_def)
qed (rule ours_overwriting.retry_producer_inv ours_overwriting.capacity_consumer_inv; assumption)+

lemma measured_capacity_row:
  assumes "slot_allocator allocate"
    and "capacity_measure (ours_spmc_new allocate z cap 1) (ours_try_publish cap) (ours_try_read cap) ctx secs cap' r k"
    and "k \<le> 2 ^ 63"
  shows "cr_capacity r = cap' \<and> capacity_row r k"
proof -
  from assms(2) obtain q cs start st p l where 1: "k = length (r_log st)"
    "ours_spmc_new allocate z cap 1 = Inr (q, cs)" "cs \<noteq> []"
    "threads_reach (retry_producer_step (ours_try_publish cap) (window_end start (capacity_window (ctx_tsc_hz ctx) secs)))
      (capacity_consumer_step (ours_try_read cap)) (ccons_run q (last cs)) (st, p, l)"
    "r = capacity_result_of cap' p l"
    by (rule capacity_measureE)
  have "length cs = 1" by (rule ours_spmc_new_rep(2) [OF assms(1) 1(2)])
  then obtain c where cs: "cs = [c]" by (auto simp: length_Suc_conv)
  from capacity_reached [OF assms(1) 1(2) [unfolded cs]] 1(4) cs
  have "ours_overwriting.sweep_inv cap z (st, p, l)" by simp
  then obtain r' where inv: "ours_spmc.run_inv cap z st r'" "ccons_inv (r_results st) l"
    "wp_i p = of_nat (length (r_log st))"
    using assms(3) 1(1) unfolding ours_overwriting.sweep_inv_def prod.case by blast
  have "length (r_log st) < 2 ^ 64" using assms(3) 1(1) by simp
  then have "unat (wp_i p) = k" unfolding inv(3) 1(1) by (simp only: unat_of_nat_usize mod_less)
  moreover have "length (s_received (r_results st)) + s_skipped (r_results st) \<le> k"
    using inv(1) 1(1) by (simp add: ours_spmc.run_inv_def)
  ultimately show ?thesis
    using counted_le [of WARMUP "r_results st"] inv(2)
    by (simp add: 1(5) capacity_row_def capacity_result_of_def ccons_inv_def)
qed

lemma capacity_sweep_rows:
  assumes "slot_allocator allocate"
    and "capacity_sweep (\<lambda>cap. ours_spmc_new allocate z cap 1) ours_try_publish ours_try_read ctx secs caps rs ks"
    and "list_all (\<lambda>k. k \<le> 2 ^ 63) ks"
  shows "map cr_capacity rs = caps \<and> list_all2 capacity_row rs ks"
  using assms(2,3) by (induction rule: capacity_sweep.induct) (use measured_capacity_row [OF assms(1)] in simp_all)

text \<open>
  The rows of a capacity sweep over the crate's queue: one per capacity, in order; the producer's
  counter is the number of values published (below \<open>2 ^ 63\<close>), every counted value has its sample,
  and no more values are counted than were published.
\<close>

theorem capacity_sweep_report:
  assumes "slot_allocator allocate"
    and "capacity_sweep (\<lambda>cap. ours_spmc_new allocate z cap 1) ours_try_publish ours_try_read ctx secs caps rs ks"
    and "list_all (\<lambda>k. k \<le> 2 ^ 63) ks"
  shows "map cr_capacity rs = caps \<and> map (unat \<circ> cr_published) rs = ks \<and>
    (\<forall>r\<in>set rs. length (cr_value_hist r) = cr_values r \<and> cr_values r \<le> unat (cr_published r))"
proof -
  from capacity_sweep_rows [OF assms] have "map cr_capacity rs = caps" and rows: "list_all2 capacity_row rs ks"
    by simp_all
  moreover from rows have "map (unat \<circ> cr_published) rs = ks" "list_all (\<lambda>r. capacity_row r (unat (cr_published r))) rs"
    by (induction rule: list_all2_induct) (simp_all add: capacity_row_def)
  ultimately show ?thesis by (simp add: capacity_row_def list_all_iff)
qed

text \<open>A run of one capacity, with a clock of ten ticks a second: two values, of which the first is overtaken.\<close>

definition capacity_events :: "thread_event list" where
  "capacity_events = [Prod 10, Prod 0, Prod 11, Prod 0, Prod 15, Prod 0, Cons 8, Cons 7, Cons 6, Cons 0]"

lemma demo_capacity_run:
  "map_option (map_sum id (\<lambda>(st, p, l). (wp_pc p, c_phase l, r_log st, r_results st)))
     (case ours_spmc_new demo_stamps_alloc 0 1 1 of
        Inr (q, [c]) \<Rightarrow> threads_run (retry_producer_step (ours_try_publish 1) 15)
          (capacity_consumer_step (ours_try_read 1)) (ccons_run q c) capacity_events
      | _ \<Rightarrow> None) =
   Some (Inr (Ended, Returned, [0, 1], [SLapped 1, SValue 1, SEmpty]))"
  by code_simp

theorem capacity_sweep_report_witness:
  "\<exists>rs. capacity_sweep (\<lambda>cap. ours_spmc_new demo_stamps_alloc 0 cap 1) ours_try_publish ours_try_read demo_ctx 1 [1] rs [2] \<and>
     map cr_capacity rs = [1] \<and> map (unat \<circ> cr_published) rs = [2]"
proof -
  obtain q c st' p' h' where new: "ours_spmc_new demo_stamps_alloc 0 1 1 = Inr (q, [c])"
    "threads_reach (handoff_producer_step (ours_try_publish 1) 5) (spmc_consumer_step (ours_try_read 1) (\<lambda>_. True) 1)
      (run_new q c, hprod_new 3, hcons_new) (st', p', h')"
    by (rule demo_spmc_handoff)
  from demo_capacity_run obtain x where
    x: "threads_run (retry_producer_step (ours_try_publish 1) 15)
        (capacity_consumer_step (ours_try_read 1)) (ccons_run q c) capacity_events = Some (Inr x)"
      "(case x of (st, p, l) \<Rightarrow> (wp_pc p, c_phase l, r_log st, r_results st)) =
        (Ended, Returned, [0, 1], [SLapped 1, SValue 1, SEmpty])"
    unfolding new(1) sum.case prod.case list.case map_run_iff by blast
  obtain st p l where xx: "x = (st, p, l)" by (cases x)
  from x(2) have l: "wp_pc p = Ended" "c_phase l = Returned" "length (r_log st) = 2" by (simp_all add: xx)
  have "threads_reach (retry_producer_step (ours_try_publish 1) (window_end 5 (capacity_window (ctx_tsc_hz demo_ctx) 1)))
      (capacity_consumer_step (ours_try_read 1)) (ccons_run q (last [c])) (st, p, l)"
    using threads_reach_run [OF threads_init x(1)] unfolding xx
    by (simp add: window_end_def capacity_window_def demo_ctx_def)
  from measured_capacity [OF new(1) _ this l(1,2) refl] have
    "capacity_measure (ours_spmc_new demo_stamps_alloc 0 1 1) (ours_try_publish 1) (ours_try_read 1) demo_ctx 1 1
       (capacity_result_of 1 p l) 2" unfolding l(3) by simp
  then have sweep: "capacity_sweep (\<lambda>cap. ours_spmc_new demo_stamps_alloc 0 cap 1) ours_try_publish ours_try_read demo_ctx 1
      [1] [capacity_result_of 1 p l] [2]" by (intro capacity_sweep_cap capacity_sweep_end)
  have "slot_allocator demo_stamps_alloc" unfolding demo_stamps_alloc_def by (rule galloc.slot_allocator_axioms)
  from capacity_sweep_report [OF this sweep] sweep show ?thesis by auto
qed

end
