(* ===== verification/Debug_Text.thy ===== *)
theory Debug_Text
  imports Text Spsc_Queue Spmc_Queue
begin

text \<open>
  The \<open>Debug\<close> implementations of the handles. They use \<open>debug_struct\<close> of the standard library and end
  with \<open>finish_non_exhaustive\<close>, so a text has the fields named and \<open>..\<close> for the others. No text reads
  the shared memory of a queue: each is a function of the handle's own fields and constants.
\<close>

definition debug_struct :: "string \<Rightarrow> (string \<times> string) list \<Rightarrow> string" where
  "debug_struct name shown =
     name @ '' { '' @ concat (map (\<lambda>(f, v). f @ '': '' @ v @ '', '') shown) @ ''.. }''"

definition spsc_producer_debug :: "usize \<Rightarrow> string" where
  "spsc_producer_debug cap = debug_struct ''Producer'' [(''capacity'', show_nat (unat cap))]"

definition spsc_consumer_debug :: "usize \<Rightarrow> string" where
  "spsc_consumer_debug cap = debug_struct ''Consumer'' [(''capacity'', show_nat (unat cap))]"

definition spmc_producer_debug :: "usize \<Rightarrow> string" where
  "spmc_producer_debug cap = debug_struct ''Producer'' [(''capacity'', show_nat (unat cap))]"

definition spmc_consumer_debug :: "bconsumer \<Rightarrow> string" where
  "spmc_consumer_debug c =
     debug_struct ''Consumer''
       [(''read_cursor'', show_nat (unat (read_cursor c))),
        (''cached_write_cursor'', show_nat (unat (cached_write_cursor c)))]"

definition seqlock_writer_debug :: string where
  "seqlock_writer_debug = debug_struct ''Writer'' []"

definition seqlock_reader_debug :: string where
  "seqlock_reader_debug = debug_struct ''Reader'' []"

lemma debug_examples:
  "spsc_producer_debug 1024 = ''Producer { capacity: 1024, .. }''"
  "spmc_consumer_debug \<lparr>read_cursor = 7, cached_write_cursor = 12\<rparr> =
     ''Consumer { read_cursor: 7, cached_write_cursor: 12, .. }''"
  "seqlock_writer_debug = ''Writer { .. }''"
  by code_simp+

lemma show_nat_eq_iff: "show_nat a = show_nat b \<longleftrightarrow> a = b"
  using show_nat_inject by blast

lemma digits_then_comma: "show_nat a @ CHR '','' # xs = show_nat b @ CHR '','' # ys \<longleftrightarrow> a = b \<and> xs = ys"
proof -
  have digits: "list_all (\<lambda>c. c \<noteq> CHR '','') (show_nat n)" for n
    using show_nat_chars [of _ n] digit_char_props(6) by (fastforce simp: list_all_iff)
  have "takeWhile (\<lambda>c. c \<noteq> CHR '','') (show_nat n @ CHR '','' # zs) = show_nat n" for n zs
    using digits [of n] by (simp add: list_all_iff)
  then have "show_nat a @ CHR '','' # xs = show_nat b @ CHR '','' # ys \<Longrightarrow> show_nat a = show_nat b" by metis
  then show ?thesis by (auto simp: show_nat_eq_iff)
qed

text \<open>The text of a consumer of the SPMC queue shows its cursors: it tells any two positions apart.\<close>

theorem spmc_consumer_debug_shows_cursors:
  "spmc_consumer_debug c = spmc_consumer_debug d \<longleftrightarrow>
     read_cursor c = read_cursor d \<and> cached_write_cursor c = cached_write_cursor d"
  by (auto simp: spmc_consumer_debug_def debug_struct_def digits_then_comma show_nat_eq_iff word_unat_eq_iff)

end
