(* ===== verification/Spsc_Drop.thy ===== *)
theory Spsc_Drop
  imports Spsc_Shutdown
begin

text \<open>
  The end of an SPSC queue, on the weak-memory machine. Producer and consumer share the queue through an
  \<open>Arc\<close>; whichever of them is dropped last runs \<open>Queue::drop\<close> of \<open>src/src/spsc/queue.rs\<close> in its own
  thread and then frees the slots. \<open>Queue::drop\<close> loads both counters \<open>Relaxed\<close> and reads the slots
  without synchronisation of its own: that it sees the last stores of the other thread rests on the
  release of each decrement of the count and the acquire of the last one.
\<close>

section \<open>The reference count\<close>

text \<open>
  \<open>std::sync::Arc\<close>: \<open>clone\<close> adds one with a relaxed read-modify-write; \<open>drop\<close> subtracts one with \<open>Release\<close>
  and, if it was the last, fences with \<open>Acquire\<close>. A read-modify-write reads the newest value and keeps
  the release sequence of the earlier ones, so \<open>released\<close> collects the views of all drops.
\<close>

record 'l arc =
  strong :: nat
  released :: "'l view"

definition arc_new :: "'l arc" where
  "arc_new = \<lparr>strong = 1, released = (\<lambda>_. 0)\<rparr>"

definition arc_clone :: "'l arc \<Rightarrow> 'l arc" where
  "arc_clone a = a\<lparr>strong := strong a + 1\<rparr>"

definition arc_drop :: "'l tview \<Rightarrow> 'l arc \<Rightarrow> 'l arc \<times> 'l tview option" where
  "arc_drop V a =
     (\<lparr>strong = strong a - 1, released = join (released a) (cur V)\<rparr>,
      if strong a = 1
      then Some (V\<lparr>cur := join (cur V) (released a), acq := join (acq V) (released a)\<rparr>)
      else None)"

section \<open>The machine\<close>

text \<open>
  \<open>Queue::drop\<close>: before line 87 (load of \<open>head\<close>), 88 (load of \<open>tail\<close>), in the loop with \<open>k\<close> of \<open>count\<close> items
  dropped, before the drop of the field \<open>slots_allocation\<close>, done.
\<close>

datatype drop_pc =
    NotDropping
  | DropHead
  | DropTail usize
  | DropItems usize nat nat
  | DropSlots
  | Dropped

record 'a life =
  lf_queue :: "'a sp"
  lf_producer :: bool           \<comment> \<open>the \<open>Producer\<close> is alive\<close>
  lf_consumer :: bool
  lf_arc :: "sp_loc arc"
  lf_pc :: drop_pc
  lf_view :: "sp_loc tview"     \<comment> \<open>of the thread that runs \<open>Queue::drop\<close>\<close>
  lf_dropped :: "'a list"
  lf_freed :: nat               \<comment> \<open>how often the slots have been freed\<close>

definition life_new :: "'a option list \<Rightarrow> 'a life" where
  "life_new cs =
     \<lparr>lf_queue = sp_new cs, lf_producer = True, lf_consumer = True,
      lf_arc = arc_clone arc_new, lf_pc = NotDropping, lf_view = view0, lf_dropped = [], lf_freed = 0\<rparr>"

text \<open>\<open>spsc::new\<close>: the slots come from the allocator, the count from \<open>Arc::new\<close> and one \<open>clone\<close>.\<close>

definition life_start ::
  "(usize \<Rightarrow> 'o \<Rightarrow> fault + ('a, 'z) region_scheme) \<Rightarrow> usize \<Rightarrow> 'o \<Rightarrow> fault + 'a life" where
  "life_start allocate cap options =
     (if \<not> is_power_of_two cap then Inl CapacityNotPowerOfTwo
      else case allocate cap options of
        Inl e \<Rightarrow> Inl e
      | Inr slots_allocation \<Rightarrow> Inr (life_new (cells slots_allocation)))"

text \<open>A handle is dropped: the last one goes on to \<open>Queue::drop\<close>.\<close>

definition handle_drop :: "sp_loc tview \<Rightarrow> 'a life \<Rightarrow> 'a life" where
  "handle_drop V s =
     (case arc_drop V (lf_arc s) of
        (a, None) \<Rightarrow> s\<lparr>lf_arc := a\<rparr>
      | (a, Some W) \<Rightarrow> s\<lparr>lf_arc := a, lf_view := W, lf_pc := DropHead\<rparr>)"

text \<open>Step \<open>k\<close> of the loop drops the item of one slot in place: an access that must not race.\<close>

definition drop_item :: "usize \<Rightarrow> usize \<Rightarrow> 'a life \<Rightarrow> fault + 'a life" where
  "drop_item cap i s =
     (let c = lf_queue s; j = slot_index cap i in
      if \<not> exclusive (lf_view s) (nwrites c) (nreads c) j then Inl DataRace
      else (case slot_read cap i (cslots c) of
              Inl e \<Rightarrow> Inl e
            | Inr (x, ss) \<Rightarrow>
                Inr (s\<lparr>lf_queue := c\<lparr>cslots := ss, nreads := (nreads c)(j := Suc (nreads c j))\<rparr>,
                       lf_view := touch (SlotR j) (Suc (nreads c j)) (lf_view s),
                       lf_dropped := lf_dropped s @ [x]\<rparr>)))"

definition drop_step :: "usize \<Rightarrow> nat \<Rightarrow> 'a life \<Rightarrow> (fault + 'a life) option" where
  "drop_step cap ts s =
     (case lf_pc s of
        NotDropping \<Rightarrow> None
      | DropHead \<Rightarrow>
          map_option (\<lambda>(h, V). Inr (s\<lparr>lf_view := V, lf_pc := DropTail h\<rparr>))
            (load_relaxed Head (head_h (lf_queue s)) ts (lf_view s))
      | DropTail h \<Rightarrow>
          map_option (\<lambda>(t, V). Inr (s\<lparr>lf_view := V, lf_pc := DropItems h 0 (unat (t - h))\<rparr>))
            (load_relaxed Tail (tail_h (lf_queue s)) ts (lf_view s))
      | DropItems h k n \<Rightarrow>
          Some (if k < n
                then map_sum id (\<lambda>s. s\<lparr>lf_pc := DropItems h (Suc k) n\<rparr>) (drop_item cap (h + of_nat k) s)
                else Inr (s\<lparr>lf_pc := DropSlots\<rparr>))
      | DropSlots \<Rightarrow> Some (Inr (s\<lparr>lf_freed := lf_freed s + 1, lf_pc := Dropped\<rparr>))
      | Dropped \<Rightarrow> None)"

text \<open>
  Calls and drops of a handle need the handle: \<open>drop\<close> takes it by value, so no call is in progress.
\<close>

datatype 'a life_event = Call "'a sp_event" | DropProducer | DropConsumer | DropStep nat

fun of_producer :: "'a sp_event \<Rightarrow> bool" where
  "of_producer (PushCall x) = True"
| "of_producer (PushStep t) = True"
| "of_producer PopCall = False"
| "of_producer (PopStep t) = False"

fun life_step :: "usize \<Rightarrow> 'a life \<Rightarrow> 'a life_event \<Rightarrow> (fault + 'a life) option" where
  "life_step cap s (Call e) =
     (if (if of_producer e then lf_producer s else lf_consumer s)
      then map_option (map_sum id (\<lambda>c. s\<lparr>lf_queue := c\<rparr>)) (sp_step cap (lf_queue s) e) else None)"
| "life_step cap s DropProducer =
     (if lf_producer s \<and> p_pc (lf_queue s) = PIdle
      then Some (Inr (handle_drop (p_view (lf_queue s)) (s\<lparr>lf_producer := False\<rparr>))) else None)"
| "life_step cap s DropConsumer =
     (if lf_consumer s \<and> c_pc (lf_queue s) = CIdle
      then Some (Inr (handle_drop (c_view (lf_queue s)) (s\<lparr>lf_consumer := False\<rparr>))) else None)"
| "life_step cap s (DropStep ts) = drop_step cap ts s"

inductive life_reach :: "usize \<Rightarrow> 'a life \<Rightarrow> bool" for cap where
  life_init: "is_power_of_two cap \<Longrightarrow> life_reach cap (life_new (replicate (unat cap) None))"
| life_next: "life_reach cap s \<Longrightarrow> life_step cap s e = Some (Inr s') \<Longrightarrow> life_reach cap s'"

fun life_run :: "usize \<Rightarrow> 'a life \<Rightarrow> 'a life_event list \<Rightarrow> (fault + 'a life) option" where
  "life_run cap s [] = Some (Inr s)"
| "life_run cap s (e # es) =
     (case life_step cap s e of
        Some (Inr s') \<Rightarrow> life_run cap s' es
      | r \<Rightarrow> r)"

lemma life_reach_run:
  "life_reach cap s \<Longrightarrow> life_run cap s es = Some (Inr s') \<Longrightarrow> life_reach cap s'"
  by (induction es arbitrary: s) (auto split: option.splits sum.splits intro: life_next)

section \<open>What each side has seen\<close>

text \<open>
  A view that covers the producer's accesses (its last store of \<open>tail\<close>, its slot writes), and one that
  covers the consumer's.
\<close>

definition covers_producer :: "nat \<Rightarrow> 'a sp \<Rightarrow> sp_loc view \<Rightarrow> bool" where
  "covers_producer C c v \<longleftrightarrow> length (sent c) \<le> v Tail \<and> (\<forall>j<C. nwrites c j \<le> v (SlotW j))"

definition covers_consumer :: "nat \<Rightarrow> 'a sp \<Rightarrow> sp_loc view \<Rightarrow> bool" where
  "covers_consumer C c v \<longleftrightarrow> length (got c) \<le> v Head \<and> (\<forall>j<C. nreads c j \<le> v (SlotR j))"

lemma covers_mono:
  assumes "\<And>l. v l \<le> w l"
  shows "covers_producer C c v \<Longrightarrow> covers_producer C c w" "covers_consumer C c v \<Longrightarrow> covers_consumer C c w"
  using order_trans [OF _ assms] unfolding covers_producer_def covers_consumer_def by blast+

lemma covers_join:
  "covers_producer C c v \<or> covers_producer C c w \<Longrightarrow> covers_producer C c (join v w)"
  "covers_consumer C c v \<or> covers_consumer C c w \<Longrightarrow> covers_consumer C c (join v w)"
  by (auto intro: covers_mono [rotated])

definition own_counters :: "usize \<Rightarrow> 'a sp \<Rightarrow> bool" where
  "own_counters cap c \<longleftrightarrow> own_tail c \<and> length (got c) \<le> cur (c_view c) Head"

lemma push_step_touches:
  "push_step cap t c = Some (Inr c') \<Longrightarrow> nreads c' = nreads c \<and> head_h c' = head_h c"
  by (cases "p_pc c") (auto simp: push_step_def Let_def store_release_def split: option.splits sum.splits if_splits)

lemma pop_step_touches:
  "pop_step cap t c = Some (Inr c') \<Longrightarrow> nwrites c' = nwrites c \<and> tail_h c' = tail_h c"
  by (cases "c_pc c") (auto simp: pop_step_def Let_def store_release_def split: option.splits sum.splits if_splits)

lemma pop_step_own_head:
  assumes "length (got c) \<le> cur (c_view c) Head" "length (head_h c) = Suc (length (got c))"
    "pop_step cap t c = Some (Inr c')"
  shows "length (got c') \<le> cur (c_view c') Head"
  using assms
  by (cases "c_pc c") (auto simp: pop_step_def Let_def store_release_def touch_def
      split: option.splits sum.splits if_splits dest: load_acquire_grows [of _ _ _ _ _ _ Head])

section \<open>The invariant\<close>

text \<open>While a handle is left: the count, and what the dropped handle has released.\<close>

definition handles_ok :: "usize \<Rightarrow> 'a life \<Rightarrow> bool" where
  "handles_ok cap s \<longleftrightarrow>
     (let c = lf_queue s; a = lf_arc s in
       (lf_producer s \<or> lf_consumer s) \<and> strong a = of_bool (lf_producer s) + of_bool (lf_consumer s) \<and>
       view_within (sp_newest c) (released a) \<and>
       (\<not> lf_producer s \<longrightarrow> p_pc c = PIdle \<and> covers_producer (unat cap) c (released a)) \<and>
       (\<not> lf_consumer s \<longrightarrow> c_pc c = CIdle \<and> covers_consumer (unat cap) c (released a)))"

definition queue_ok :: "usize \<Rightarrow> 'a sp \<Rightarrow> bool" where
  "queue_ok cap c \<longleftrightarrow> sp_inv cap c \<and> sp_within c \<and> own_counters cap c"

text \<open>The thread in \<open>Queue::drop\<close> has both sides' accesses in its view.\<close>

definition dropper_ok :: "usize \<Rightarrow> 'a sp \<Rightarrow> sp_loc tview \<Rightarrow> bool" where
  "dropper_ok cap c V \<longleftrightarrow>
     p_pc c = PIdle \<and> c_pc c = CIdle \<and> queue_ok cap c \<and> tview_within (sp_newest c) V \<and>
     covers_producer (unat cap) c (cur V) \<and> covers_consumer (unat cap) c (cur V)"

definition items_ok :: "usize \<Rightarrow> 'a life \<Rightarrow> usize \<Rightarrow> nat \<Rightarrow> nat \<Rightarrow> bool" where
  "items_ok cap s h k n \<longleftrightarrow>
     (let c = lf_queue s; H = length (got c) in
       is_power_of_two cap \<and> prefix (got c) (sent c) \<and>
       h = of_nat H \<and> H + n = length (sent c) \<and> k \<le> n \<and> lf_dropped s = take k (drop H (sent c)) \<and>
       ring_window (unat cap) (H + k) (drop (H + k) (sent c)) (cslots c) \<and>
       (\<forall>j<unat cap. exclusive (lf_view s) (nwrites c) (nreads c) j))"

definition life_inv :: "usize \<Rightarrow> 'a life \<Rightarrow> bool" where
  "life_inv cap s \<longleftrightarrow>
     lf_freed s = (if lf_pc s = Dropped then 1 else 0) \<and>
     (case lf_pc s of
        NotDropping \<Rightarrow> handles_ok cap s \<and> queue_ok cap (lf_queue s) \<and> lf_dropped s = []
      | pc \<Rightarrow>
          \<not> lf_producer s \<and> \<not> lf_consumer s \<and>
          (case pc of
             DropHead \<Rightarrow> dropper_ok cap (lf_queue s) (lf_view s) \<and> lf_dropped s = []
           | DropTail h \<Rightarrow> dropper_ok cap (lf_queue s) (lf_view s) \<and> lf_dropped s = [] \<and> h = of_nat (length (got (lf_queue s)))
           | DropItems h k n \<Rightarrow> items_ok cap s h k n
           | _ \<Rightarrow> got (lf_queue s) @ lf_dropped s = sent (lf_queue s) \<and>
                  cslots (lf_queue s) = replicate (unat cap) None))"

lemma queue_ok_step:
  assumes "queue_ok cap c" "sp_step cap c e = Some r"
  shows "\<exists>c'. r = Inr c' \<and> queue_ok cap c'"
proof -
  from assms have ok: "sp_inv cap c" "sp_within c" "own_tail c" "length (got c) \<le> cur (c_view c) Head"
    by (simp_all add: queue_ok_def own_counters_def)
  note i = sp_invD [OF ok(1)]
  from sp_step_inv [OF ok(1) assms(2)] obtain c' where c': "r = Inr c'" "sp_inv cap c'" by blast
  have "sp_within c' \<and> own_tail c' \<and> length (got c') \<le> cur (c_view c') Head"
  proof (cases e)
    case (PushStep t)
    with assms(2) c'(1) have st: "push_step cap t c = Some (Inr c')" by simp
    show ?thesis
      using push_step_within [OF ok(2) st] push_step_own_tail [OF ok(3,1) c'(2) _ st] push_step_frame [OF st] ok(4)
      by auto
  next
    case (PopStep t)
    with assms(2) c'(1) have st: "pop_step cap t c = Some (Inr c')" by simp
    show ?thesis
      using pop_step_within [OF ok(2) st] pop_step_frame [OF st] pop_step_own_head [OF ok(4) i(3) st] ok(3)
      by (auto simp: own_tail_def)
  next
    case (PushCall x)
    with assms(2) c'(1) have "c' = push_call cap c x" by (auto split: if_splits)
    with ok call_within(1) [OF ok(2)] show ?thesis by (simp add: own_tail_calls) (simp add: push_call_def)
  next
    case PopCall
    with assms(2) c'(1) have "c' = pop_call c" by (auto split: if_splits)
    with ok call_within(2) [OF ok(2)] show ?thesis by (simp add: own_tail_calls) (simp add: pop_call_def)
  qed
  with c' show ?thesis by (auto simp: queue_ok_def own_counters_def)
qed

lemma idle_covers:
  assumes "queue_ok cap c"
  shows "p_pc c = PIdle \<Longrightarrow> covers_producer (unat cap) c (cur (p_view c))"
    "c_pc c = CIdle \<Longrightarrow> covers_consumer (unat cap) c (cur (c_view c))"
proof -
  from assms have "sp_inv cap c" and own: "own_tail c" "length (got c) \<le> cur (c_view c) Head"
    by (simp_all add: queue_ok_def own_counters_def)
  note i = sp_invD [OF this(1)]
  show "covers_producer (unat cap) c (cur (p_view c))"
    using own(1) i(5) by (auto simp: covers_producer_def own_tail_def sp_producer_def)
  show "covers_consumer (unat cap) c (cur (c_view c))"
    using own(2) i(6) by (auto simp: covers_consumer_def sp_consumer_def)
qed

lemma handle_view_within:
  "queue_ok cap c \<Longrightarrow> tview_within (sp_newest c) (p_view c)"
  "queue_ok cap c \<Longrightarrow> tview_within (sp_newest c) (c_view c)"
  by (simp_all add: queue_ok_def sp_within_def)

lemma view_within_join: "view_within b v \<Longrightarrow> view_within b w \<Longrightarrow> view_within b (join v w)"
  by (auto simp: view_within_def)

lemma call_keeps_other:
  assumes "sp_step cap c e = Some (Inr c')"
  shows "of_producer e \<Longrightarrow> c_pc c' = c_pc c \<and> got c' = got c \<and> nreads c' = nreads c"
    "\<not> of_producer e \<Longrightarrow> p_pc c' = p_pc c \<and> sent c' = sent c \<and> nwrites c' = nwrites c"
  using assms
  by (cases e; auto simp: push_call_def pop_call_def split: if_splits
      dest: push_step_frame push_step_touches pop_step_frame pop_step_touches)+

lemma life_call_inv:
  assumes "life_inv cap s" "life_step cap s (Call e) = Some r"
  shows "\<exists>s'. r = Inr s' \<and> life_inv cap s'"
proof -
  let ?c = "lf_queue s"
  from assms(2) obtain rc where alive: "if of_producer e then lf_producer s else lf_consumer s"
    and st: "sp_step cap ?c e = Some rc" and r: "r = map_sum id (\<lambda>c. s\<lparr>lf_queue := c\<rparr>) rc"
    by (auto split: if_splits)
  have pc: "lf_pc s = NotDropping"
    using assms(1) alive by (auto simp: life_inv_def split: drop_pc.splits if_splits)
  with assms(1) have h: "handles_ok cap s" "queue_ok cap ?c" "lf_dropped s = []" "lf_freed s = 0"
    by (simp_all add: life_inv_def)
  from queue_ok_step [OF h(2) st] obtain c' where c': "rc = Inr c'" "queue_ok cap c'" by blast
  note st' = st [unfolded c'(1)]
  have mono: "view_within (sp_newest ?c) v \<Longrightarrow> view_within (sp_newest c') v" for v
    by (rule within_mono(1) [OF sp_step_newest [OF st']])
  have "handles_ok cap (s\<lparr>lf_queue := c'\<rparr>)"
    using h(1) alive mono call_keeps_other [OF st']
    by (cases "of_producer e") (auto simp: handles_ok_def Let_def covers_producer_def covers_consumer_def)
  with r c' pc h show ?thesis by (simp add: life_inv_def)
qed

text \<open>The last drop joins what the other handle released to its own view.\<close>

lemma handle_drop_inv:
  assumes "queue_ok cap c" "view_within (sp_newest c) (released a)" "tview_within (sp_newest c) V"
    and "strong a = Suc (of_bool other)" "lf_arc s = a" "lf_queue s = c" "lf_pc s = NotDropping"
    and "lf_dropped s = []" "lf_freed s = 0"
    and "lf_producer s \<or> lf_consumer s \<longleftrightarrow> other" "\<not> (lf_producer s \<and> lf_consumer s)"
    and "\<not> lf_producer s \<Longrightarrow> p_pc c = PIdle \<and> covers_producer (unat cap) c (join (released a) (cur V))"
    and "\<not> lf_consumer s \<Longrightarrow> c_pc c = CIdle \<and> covers_consumer (unat cap) c (join (released a) (cur V))"
  shows "life_inv cap (handle_drop V s)"
proof (cases other)
  case True
  with assms(4) have "strong a = 2" by simp
  then have s': "handle_drop V s = s\<lparr>lf_arc := \<lparr>strong = 1, released = join (released a) (cur V)\<rparr>\<rparr>"
    using assms(5) by (simp add: handle_drop_def arc_drop_def)
  have "view_within (sp_newest c) (join (released a) (cur V))"
    using assms(2,3) by (auto simp: tview_within_def intro: view_within_join)
  with True assms show ?thesis
    unfolding s' by (auto simp: life_inv_def handles_ok_def Let_def)
next
  case False
  let ?W = "V\<lparr>cur := join (cur V) (released a), acq := join (acq V) (released a)\<rparr>"
  from False assms(4) have s': "handle_drop V s =
      s\<lparr>lf_arc := \<lparr>strong = 0, released = join (released a) (cur V)\<rparr>, lf_view := ?W, lf_pc := DropHead\<rparr>"
    using assms(5) by (simp add: handle_drop_def arc_drop_def)
  have "tview_within (sp_newest c) ?W"
    using assms(2,3) by (auto simp: tview_within_def intro: view_within_join)
  moreover have "covers_producer (unat cap) c (cur ?W)" "covers_consumer (unat cap) c (cur ?W)"
    using False assms(10,12,13) covers_mono [of "join (released a) (cur V)" "cur ?W"] by auto
  ultimately show ?thesis
    using False assms unfolding s' by (auto simp: life_inv_def dropper_ok_def)
qed

lemma life_drop_handle_inv:
  assumes "life_inv cap s" "life_step cap s e = Some r" "e = DropProducer \<or> e = DropConsumer"
  shows "\<exists>s'. r = Inr s' \<and> life_inv cap s'"
proof -
  let ?c = "lf_queue s" and ?a = "lf_arc s"
  have pc: "lf_pc s = NotDropping"
    using assms by (auto simp: life_inv_def split: drop_pc.splits if_splits)
  with assms(1) have h: "handles_ok cap s" and q: "queue_ok cap ?c" and z: "lf_dropped s = []" "lf_freed s = 0"
    by (simp_all add: life_inv_def)
  from h have arc: "view_within (sp_newest ?c) (released ?a)"
      "strong ?a = of_bool (lf_producer s) + of_bool (lf_consumer s)"
    and rel: "\<not> lf_producer s \<Longrightarrow> p_pc ?c = PIdle \<and> covers_producer (unat cap) ?c (released ?a)"
      "\<not> lf_consumer s \<Longrightarrow> c_pc ?c = CIdle \<and> covers_consumer (unat cap) ?c (released ?a)"
    by (simp_all add: handles_ok_def Let_def)
  show ?thesis
  proof (cases "e = DropProducer")
    case True
    with assms(2) have live: "lf_producer s" "p_pc ?c = PIdle"
      and r: "r = Inr (handle_drop (p_view ?c) (s\<lparr>lf_producer := False\<rparr>))"
      by (auto split: if_splits)
    have "life_inv cap (handle_drop (p_view ?c) (s\<lparr>lf_producer := False\<rparr>))"
      by (rule handle_drop_inv [OF q arc(1) handle_view_within(1) [OF q], where other = "lf_consumer s"])
        (use live pc z arc(2) rel idle_covers(1) [OF q live(2)] in \<open>auto intro!: covers_join\<close>)
    with r show ?thesis by blast
  next
    case False
    with assms(2,3) have live: "lf_consumer s" "c_pc ?c = CIdle"
      and r: "r = Inr (handle_drop (c_view ?c) (s\<lparr>lf_consumer := False\<rparr>))"
      by (auto split: if_splits)
    have "life_inv cap (handle_drop (c_view ?c) (s\<lparr>lf_consumer := False\<rparr>))"
      by (rule handle_drop_inv [OF q arc(1) handle_view_within(2) [OF q], where other = "lf_producer s"])
        (use live pc z arc(2) rel idle_covers(2) [OF q live(2)] in \<open>auto intro!: covers_join\<close>)
    with r show ?thesis by blast
  qed
qed

text \<open>Both relaxed loads find the last stores, since these are in the view.\<close>

lemma load_last:
  assumes "load_relaxed l h ts V = Some (v, W)" "length h = Suc n" "n \<le> cur V l"
  shows "v = fst (last h)" "cur W = (cur V)(l := n)" "ts = n"
proof -
  note ld = load_relaxed_Some [OF assms(1)]
  show ts: "ts = n" using ld(1,2) assms(2,3) by simp
  have "last h = h ! n" using assms(2) by (cases h rule: rev_cases) auto
  with ld(3,4) ts show "v = fst (last h)" "cur W = (cur V)(l := n)" by simp_all
qed

lemma queue_counters:
  assumes "queue_ok cap c"
  shows "fst (last (head_h c)) = of_nat (length (got c))" "length (head_h c) = Suc (length (got c))"
    "fst (last (tail_h c)) = of_nat (length (sent c))" "length (tail_h c) = Suc (length (sent c))"
proof -
  from assms have "sp_inv cap c" by (simp add: queue_ok_def)
  note i = sp_invD [OF this]
  show "length (head_h c) = Suc (length (got c))" "length (tail_h c) = Suc (length (sent c))"
    using i(2,3) by simp_all
  then have "last (head_h c) = head_h c ! length (got c)" "last (tail_h c) = tail_h c ! length (sent c)"
    by (cases "head_h c" rule: rev_cases; cases "tail_h c" rule: rev_cases; simp)+
  then show "fst (last (head_h c)) = of_nat (length (got c))" "fst (last (tail_h c)) = of_nat (length (sent c))"
    using i(2,3,4) by (simp_all add: sp_hists_def)
qed

lemma dropper_load:
  assumes "dropper_ok cap c V" "load_relaxed l h ts V = Some (v, W)"
    and "l = Head \<and> h = head_h c \<or> l = Tail \<and> h = tail_h c"
  shows "dropper_ok cap c W" "l = Head \<Longrightarrow> v = of_nat (length (got c))" "l = Tail \<Longrightarrow> v = of_nat (length (sent c))"
proof -
  from assms(1) have q: "queue_ok cap c" and V: "tview_within (sp_newest c) V"
    and cov: "covers_producer (unat cap) c (cur V)" "covers_consumer (unat cap) c (cur V)"
    by (simp_all add: dropper_ok_def)
  note n = queue_counters [OF q]
  have "sp_within c" using q by (simp add: queue_ok_def)
  then have W: "tview_within (sp_newest c) W"
    by (rule_tac within_load_relaxed [OF assms(2) V]) (use assms(3) in \<open>auto simp: sp_within_def\<close>)
  have "cur V x \<le> cur W x" for x by (rule load_relaxed_grows [OF assms(2)])
  with covers_mono [of "cur V" "cur W"] cov
  have "covers_producer (unat cap) c (cur W)" "covers_consumer (unat cap) c (cur W)" by blast+
  with W assms(1) show "dropper_ok cap c W" by (simp add: dropper_ok_def)
  show "l = Head \<Longrightarrow> v = of_nat (length (got c))"
    using load_last(1) [OF assms(2), of "length (got c)"] assms(3) n cov by (auto simp: covers_consumer_def)
  show "l = Tail \<Longrightarrow> v = of_nat (length (sent c))"
    using load_last(1) [OF assms(2), of "length (sent c)"] assms(3) n cov by (auto simp: covers_producer_def)
qed

lemma dropper_items:
  assumes "dropper_ok cap (lf_queue s) (lf_view s)" "lf_dropped s = []"
    and "h = of_nat (length (got (lf_queue s)))" "t = of_nat (length (sent (lf_queue s)))"
  shows "items_ok cap s h 0 (unat (t - h))"
proof -
  let ?c = "lf_queue s"
  let ?H = "length (got ?c)" and ?T = "length (sent ?c)"
  from assms(1) have inv: "sp_inv cap ?c" and idle: "p_pc ?c = PIdle" "c_pc ?c = CIdle"
    and cov: "covers_producer (unat cap) ?c (cur (lf_view s))" "covers_consumer (unat cap) ?c (cur (lf_view s))"
    by (simp_all add: dropper_ok_def queue_ok_def)
  note i = sp_invD [OF inv]
  have HT: "?H \<le> ?T" using i(7) by simp
  have "t - h = of_nat (?T - ?H)" using HT assms(3,4) by (simp add: of_nat_diff)
  moreover have "unat cap < 2 ^ 64" using unsigned_less [of cap] by simp
  then have "?T - ?H < 2 ^ 64" using sp_inv_room [OF inv] by simp
  ultimately have "unat (t - h) = ?T - ?H" by (simp add: unat_of_nat_usize)
  moreover from i(9) idle(2) have "take ?H (sent ?c) = got ?c" by simp
  then have "prefix (got ?c) (sent ?c)" using take_is_prefix [of ?H "sent ?c"] by simp
  ultimately show ?thesis
    using i(1,8) idle HT assms(2,3) cov
    by (auto simp: items_ok_def Let_def exclusive_def covers_producer_def covers_consumer_def)
qed

lemma drop_item_inv:
  assumes "items_ok cap s h k n" "k < n"
  shows "\<exists>s'. drop_item cap (h + of_nat k) s = Inr s' \<and> items_ok cap (s'\<lparr>lf_pc := pc\<rparr>) h (Suc k) n \<and>
    lf_producer s' = lf_producer s \<and> lf_consumer s' = lf_consumer s \<and> lf_freed s' = lf_freed s"
proof -
  let ?c = "lf_queue s" and ?C = "unat cap"
  let ?H = "length (got ?c)" and ?xs = "sent ?c"
  let ?j = "(?H + k) mod ?C"
  from assms(1) have pow: "is_power_of_two cap" and pre: "prefix (got ?c) (sent ?c)"
    and h: "h = of_nat ?H" and n: "?H + n = length ?xs" "k \<le> n" and dr: "lf_dropped s = take k (drop ?H ?xs)"
    and win: "ring_window ?C (?H + k) (drop (?H + k) ?xs) (cslots ?c)"
    and ex: "\<And>j. j < ?C \<Longrightarrow> exclusive (lf_view s) (nwrites ?c) (nreads ?c) j"
    by (simp_all add: items_ok_def Let_def)
  let ?x = "?xs ! (?H + k)"
  have split: "drop (?H + k) ?xs = ?x # drop (Suc (?H + k)) ?xs"
    using n(1) assms(2) by (simp add: Cons_nth_drop_Suc)
  have jC: "?j < ?C" by (simp add: power_of_two_pos [OF pow])
  have pos: "h + of_nat k = of_nat (?H + k)" using h by simp
  have idx: "slot_index cap (h + of_nat k) = ?j" unfolding pos by (simp only: slot_index_of_nat [OF pow])
  have rd: "slot_read cap (h + of_nat k) (cslots ?c) = Inr (?x, (cslots ?c)[?j := None])"
    unfolding pos by (rule slot_read_window [OF pow win [unfolded split]])
  let ?s = "s\<lparr>lf_queue := ?c\<lparr>cslots := (cslots ?c)[?j := None], nreads := (nreads ?c)(?j := Suc (nreads ?c ?j))\<rparr>,
     lf_view := touch (SlotR ?j) (Suc (nreads ?c ?j)) (lf_view s), lf_dropped := lf_dropped s @ [?x]\<rparr>"
  have "drop_item cap (h + of_nat k) s = Inr ?s"
    using ex [OF jC] rd by (simp add: drop_item_def Let_def idx)
  moreover have "items_ok cap (?s\<lparr>lf_pc := pc\<rparr>) h (Suc k) n"
    using pow pre h n(1) assms(2) dr ex ring_window_read(3) [OF win [unfolded split]]
    by (auto simp: items_ok_def Let_def exclusive_def touch_def take_Suc_conv_app_nth)
  ultimately show ?thesis by auto
qed

lemma life_drop_step_inv:
  assumes "life_inv cap s" "drop_step cap ts s = Some r"
  shows "\<exists>s'. r = Inr s' \<and> life_inv cap s'"
proof (cases "lf_pc s")
  case DropHead
  with assms(1) have d: "dropper_ok cap (lf_queue s) (lf_view s)" "lf_dropped s = []" "lf_freed s = 0"
    and gone: "\<not> lf_producer s" "\<not> lf_consumer s" by (simp_all add: life_inv_def)
  from assms(2) DropHead obtain v V where ld: "load_relaxed Head (head_h (lf_queue s)) ts (lf_view s) = Some (v, V)"
    and r: "r = Inr (s\<lparr>lf_view := V, lf_pc := DropTail v\<rparr>)" by (auto simp: drop_step_def)
  from dropper_load [OF d(1) ld] d gone r show ?thesis by (simp add: life_inv_def)
next
  case (DropTail h)
  with assms(1) have d: "dropper_ok cap (lf_queue s) (lf_view s)" "lf_dropped s = []" "lf_freed s = 0"
    "h = of_nat (length (got (lf_queue s)))"
    and gone: "\<not> lf_producer s" "\<not> lf_consumer s" by (simp_all add: life_inv_def)
  from assms(2) DropTail obtain t V where ld: "load_relaxed Tail (tail_h (lf_queue s)) ts (lf_view s) = Some (t, V)"
    and r: "r = Inr (s\<lparr>lf_view := V, lf_pc := DropItems h 0 (unat (t - h))\<rparr>)" by (auto simp: drop_step_def)
  from dropper_load [OF d(1) ld] have "dropper_ok cap (lf_queue s) V" "t = of_nat (length (sent (lf_queue s)))" by auto
  with dropper_items [of cap "s\<lparr>lf_view := V, lf_pc := DropItems h 0 (unat (t - h))\<rparr>" h t] d gone r
  show ?thesis by (simp add: life_inv_def)
next
  case (DropItems h k n)
  with assms(1) have it: "items_ok cap s h k n" and gone: "\<not> lf_producer s" "\<not> lf_consumer s" "lf_freed s = 0"
    by (simp_all add: life_inv_def)
  show ?thesis
  proof (cases "k < n")
    case True
    from drop_item_inv [OF it True, of "DropItems h (Suc k) n"] obtain s' where
      "drop_item cap (h + of_nat k) s = Inr s'" "items_ok cap (s'\<lparr>lf_pc := DropItems h (Suc k) n\<rparr>) h (Suc k) n"
      "\<not> lf_producer s'" "\<not> lf_consumer s'" "lf_freed s' = 0" using gone by auto
    with True DropItems assms(2) show ?thesis by (auto simp: drop_step_def life_inv_def)
  next
    case False
    from it have "prefix (got (lf_queue s)) (sent (lf_queue s))" "k \<le> n"
      "length (got (lf_queue s)) + n = length (sent (lf_queue s))"
      "lf_dropped s = take k (drop (length (got (lf_queue s))) (sent (lf_queue s)))"
      and win: "ring_window (unat cap) (length (got (lf_queue s)) + k)
        (drop (length (got (lf_queue s)) + k) (sent (lf_queue s))) (cslots (lf_queue s))"
      by (simp_all add: items_ok_def Let_def)
    with False have "got (lf_queue s) @ lf_dropped s = sent (lf_queue s)"
      and "drop (length (got (lf_queue s)) + k) (sent (lf_queue s)) = []"
      by (auto elim!: prefixE)
    with win ring_window_empty have "cslots (lf_queue s) = replicate (unat cap) None" by metis
    with False DropItems assms(2) gone \<open>got (lf_queue s) @ lf_dropped s = sent (lf_queue s)\<close>
    show ?thesis by (auto simp: drop_step_def life_inv_def)
  qed
qed (use assms in \<open>auto simp: drop_step_def life_inv_def\<close>)

lemma life_step_inv:
  assumes "life_inv cap s" "life_step cap s e = Some r"
  shows "\<exists>s'. r = Inr s' \<and> life_inv cap s'"
proof (cases e)
  case (Call x)
  with assms life_call_inv show ?thesis by blast
next
  case (DropStep ts)
  with assms life_drop_step_inv show ?thesis by auto
qed (use assms life_drop_handle_inv in blast)+

lemma life_new_inv:
  assumes "is_power_of_two cap"
  shows "life_inv cap (life_new (replicate (unat cap) None))"
proof -
  have "sp_reach cap (sp_new (replicate (unat cap) None))" by (rule sp_init [OF assms])
  then have "sp_inv cap (sp_new (replicate (unat cap) None))" "sp_within (sp_new (replicate (unat cap) None))"
    by (rule sp_reach_inv, rule sp_reach_within)
  then show ?thesis
    by (simp add: life_inv_def life_new_def handles_ok_def queue_ok_def own_counters_def own_tail_def
        arc_clone_def arc_new_def view_within_def sp_new_def)
qed

lemma life_reach_inv: "life_reach cap s \<Longrightarrow> life_inv cap s"
proof (induction rule: life_reach.induct)
  case (life_next s e s')
  from life_step_inv [OF life_next.IH life_next.hyps(2)] show ?case by auto
qed (rule life_new_inv)

section \<open>The end is reached\<close>

fun drop_rank :: "nat \<Rightarrow> drop_pc \<Rightarrow> nat" where
  "drop_rank m NotDropping = 0"
| "drop_rank m DropHead = m + 4"
| "drop_rank m (DropTail h) = m + 3"
| "drop_rank m (DropItems h k n) = n - k + 2"
| "drop_rank m DropSlots = 1"
| "drop_rank m Dropped = 0"

lemma drop_step_rank:
  assumes "life_inv cap s" "drop_step cap ts s = Some (Inr s')"
  shows "drop_rank (length (sent (lf_queue s')) - length (got (lf_queue s'))) (lf_pc s') <
    drop_rank (length (sent (lf_queue s)) - length (got (lf_queue s))) (lf_pc s)"
proof (cases "lf_pc s")
  case (DropTail h)
  with assms obtain t V where ld: "load_relaxed Tail (tail_h (lf_queue s)) ts (lf_view s) = Some (t, V)"
    and s': "s' = s\<lparr>lf_view := V, lf_pc := DropItems h 0 (unat (t - h))\<rparr>" by (auto simp: drop_step_def)
  from life_drop_step_inv [OF assms(1,2)] have "life_inv cap s'" by simp
  then have "length (got (lf_queue s)) + unat (t - h) = length (sent (lf_queue s))"
    by (auto simp: s' life_inv_def items_ok_def Let_def)
  with DropTail s' show ?thesis by simp
next
  case (DropItems h k n)
  with assms(2) show ?thesis
    by (auto simp: drop_step_def drop_item_def Let_def split: if_splits sum.splits)
qed (use assms(2) in \<open>auto simp: drop_step_def\<close>)

lemma drop_step_enabled:
  assumes "life_inv cap s" "lf_pc s \<noteq> NotDropping" "lf_pc s \<noteq> Dropped"
  shows "\<exists>ts r. drop_step cap ts s = Some r"
proof -
  have "\<exists>ts v W. load_relaxed l h ts (lf_view s) = Some (v, W)"
    if "dropper_ok cap (lf_queue s) (lf_view s)"
      "l = Head \<and> h = head_h (lf_queue s) \<or> l = Tail \<and> h = tail_h (lf_queue s)" for l h
  proof -
    from that have q: "queue_ok cap (lf_queue s)" and w: "tview_within (sp_newest (lf_queue s)) (lf_view s)"
      by (simp_all add: dropper_ok_def)
    have "length h = Suc (sp_newest (lf_queue s) l)" using that(2) queue_counters [OF q] by auto
    from load_newest(2) [OF w this] show ?thesis by blast
  qed
  note load = this
  show ?thesis
  proof (cases "lf_pc s")
    case DropHead
    with assms(1) load [of Head "head_h (lf_queue s)"] obtain ts v W
      where "load_relaxed Head (head_h (lf_queue s)) ts (lf_view s) = Some (v, W)"
      by (auto simp: life_inv_def)
    with DropHead show ?thesis by (auto simp: drop_step_def)
  next
    case (DropTail h)
    with assms(1) load [of Tail "tail_h (lf_queue s)"] obtain ts v W
      where "load_relaxed Tail (tail_h (lf_queue s)) ts (lf_view s) = Some (v, W)"
      by (auto simp: life_inv_def)
    with DropTail show ?thesis by (auto simp: drop_step_def)
  qed (use assms(2,3) in \<open>auto simp: drop_step_def\<close>)
qed

section \<open>Properties\<close>

text \<open>The consumer is dropped while two of three items are queued, and the producer after one more push.\<close>

definition demo_life :: "nat life_event list" where
  "demo_life =
     map Call (demo_events) @ [DropConsumer, DropProducer, DropStep 1, DropStep 3, DropStep 0, DropStep 0, DropStep 0, DropStep 0]"

lemma demo_life_run:
  "map_option (map_sum id (\<lambda>s. (lf_pc s, sent (lf_queue s), got (lf_queue s), lf_dropped s, lf_freed s)))
     (life_run 2 (life_new [None, None]) demo_life) =
   Some (Inr (Dropped, [1, 2, 3], [1], [2, 3], 1))"
  by code_simp

lemma demo_dropping_run:
  "map_option (map_sum id (\<lambda>s. (lf_pc s, sent (lf_queue s), got (lf_queue s))))
     (life_run 2 (life_new [None, None]) (take 16 demo_life)) = Some (Inr (DropHead, [1, 2, 3], [1]))"
  by code_simp

lemma life_start_reach:
  assumes "slot_allocator allocate" "life_start allocate cap opts = Inr s0" "life_run cap s0 es = Some (Inr s)"
  shows "life_reach cap s"
proof -
  from assms(2) obtain a where pow: "is_power_of_two cap" and a: "allocate cap opts = Inr a"
    and s0: "s0 = life_new (cells a)" by (auto simp: life_start_def split: if_splits sum.splits)
  from slot_allocator.allocate_cells [OF assms(1) a] have "cells a = replicate (unat cap) None" .
  with life_reach_run [OF life_init [OF pow]] assms(3) s0 show ?thesis by simp
qed

lemma life_run_fault:
  "life_run cap s es = Some (Inl f) \<Longrightarrow> \<exists>es' s' e. life_run cap s es' = Some (Inr s') \<and> life_step cap s' e = Some (Inl f)"
proof (induction es arbitrary: s)
  case (Cons e es)
  show ?case
  proof (cases "\<exists>s1. life_step cap s e = Some (Inr s1)")
    case True
    then obtain s1 where s1: "life_step cap s e = Some (Inr s1)" by blast
    with Cons.prems Cons.IH [of s1] obtain es' s' e' where
      "life_run cap s1 es' = Some (Inr s')" "life_step cap s' e' = Some (Inl f)" by auto
    with s1 have "life_run cap s (e # es') = Some (Inr s')" by simp
    with \<open>life_step cap s' e' = Some (Inl f)\<close> show ?thesis by blast
  next
    case False
    with Cons.prems have "life_step cap s e = Some (Inl f)" by (auto split: option.splits sum.splits)
    moreover have "life_run cap s [] = Some (Inr s)" by simp
    ultimately show ?thesis by blast
  qed
qed simp

text \<open>
  C11: An SPSC queue from \<open>new\<close> to its end, under weak memory, with any allocator that hands out
  uninitialised cells, the handles dropped in either order and from either thread: no run of calls and
  drops races, leaves the buffer or drops an empty slot; \<open>Queue::drop\<close> runs exactly when both handles are
  gone; and once it is done every accepted item has been either returned by \<open>pop\<close> or dropped, once and
  in order, no slot holds a value, and the slots have been freed once.
\<close>

theorem spsc_drop_weak_exact:
  assumes "slot_allocator allocate" "life_start allocate cap opts = Inr s0" "life_run cap s0 es = Some r"
  shows "\<exists>s. r = Inr s \<and>
    (lf_pc s = NotDropping \<longleftrightarrow> lf_producer s \<or> lf_consumer s) \<and>
    lf_freed s = (if lf_pc s = Dropped then 1 else 0) \<and>
    (lf_pc s = Dropped \<longrightarrow>
       got (lf_queue s) @ lf_dropped s = sent (lf_queue s) \<and> cslots (lf_queue s) = replicate (unat cap) None)"
proof (cases r)
  case (Inl f)
  with assms(3) life_run_fault obtain es' s' e where
    "life_run cap s0 es' = Some (Inr s')" "life_step cap s' e = Some (Inl f)" by blast
  with life_step_inv [OF life_reach_inv [OF life_start_reach [OF assms(1,2)]]] show ?thesis by blast
next
  case (Inr s)
  have "life_inv cap s" by (rule life_reach_inv [OF life_start_reach [OF assms(1,2) assms(3) [unfolded Inr]]])
  with Inr show ?thesis by (cases "lf_pc s") (auto simp: life_inv_def handles_ok_def Let_def)
qed

lemma demo_life_start: "life_start demo_alloc 2 \<lparr>g_mlock = True\<rparr> = Inr (life_new [None, None])"
  using demo_spsc_new by (auto simp: life_start_def spsc_new_def split: if_splits sum.splits)

theorem spsc_drop_weak_exact_witness:
  "\<exists>s. life_run 2 (life_new [None, None]) demo_life = Some (Inr s) \<and> got (lf_queue s) @ lf_dropped s = [1, 2, 3] \<and>
    lf_freed s = 1 \<and> cslots (lf_queue s) = replicate (unat (2 :: usize)) None"
proof -
  from demo_life_run [unfolded map_run_iff] obtain s where
    s: "life_run 2 (life_new [None, None]) demo_life = Some (Inr s)" "lf_pc s = Dropped" "sent (lf_queue s) = [1, 2, 3]"
    by auto
  with spsc_drop_weak_exact [OF demo_slot_allocator demo_life_start s(1)] show ?thesis by auto
qed

text \<open>
  The drop ends: once both handles are gone some step of \<open>Queue::drop\<close> is enabled until it is done,
  and every step brings it closer, with at most four steps more than items are left in the queue.
\<close>

theorem spsc_drop_weak_ends:
  assumes "life_reach cap s" "\<not> lf_producer s" "\<not> lf_consumer s"
  shows "(lf_pc s \<noteq> Dropped \<longrightarrow> (\<exists>ts s'. drop_step cap ts s = Some (Inr s'))) \<and>
    (\<forall>ts s'. drop_step cap ts s = Some (Inr s') \<longrightarrow>
       drop_rank (length (sent (lf_queue s')) - length (got (lf_queue s'))) (lf_pc s') <
       drop_rank (length (sent (lf_queue s)) - length (got (lf_queue s))) (lf_pc s)) \<and>
    drop_rank (length (sent (lf_queue s)) - length (got (lf_queue s))) (lf_pc s) \<le>
      length (sent (lf_queue s)) - length (got (lf_queue s)) + 4"
proof -
  have inv: "life_inv cap s" by (rule life_reach_inv [OF assms(1)])
  then have "lf_pc s \<noteq> NotDropping" using assms(2,3) by (auto simp: life_inv_def handles_ok_def Let_def)
  with drop_step_enabled [OF inv] life_drop_step_inv [OF inv]
  have "lf_pc s \<noteq> Dropped \<longrightarrow> (\<exists>ts s'. drop_step cap ts s = Some (Inr s'))" by metis
  moreover have "drop_rank (length (sent (lf_queue s)) - length (got (lf_queue s))) (lf_pc s) \<le>
      length (sent (lf_queue s)) - length (got (lf_queue s)) + 4"
    using inv by (cases "lf_pc s") (auto simp: life_inv_def items_ok_def Let_def)
  ultimately show ?thesis using drop_step_rank [OF inv] by blast
qed

theorem spsc_drop_weak_ends_witness:
  "\<exists>s. life_reach 2 s \<and> lf_pc s = DropHead \<and> sent (lf_queue s) = [1, 2, 3 :: nat] \<and>
    (\<exists>ts s'. drop_step 2 ts s = Some (Inr s'))"
proof -
  from demo_dropping_run [unfolded map_run_iff] obtain s where
    s: "life_run 2 (life_new [None, None]) (take 16 demo_life) = Some (Inr s)" "lf_pc s = DropHead" "sent (lf_queue s) = [1, 2, 3]"
    by auto
  have r: "life_reach 2 s" by (rule life_start_reach [OF demo_slot_allocator demo_life_start s(1)])
  with s(2) have "\<not> lf_producer s" "\<not> lf_consumer s"
    using life_reach_inv [OF r] by (auto simp: life_inv_def)
  with spsc_drop_weak_ends [OF r] r s(2,3) show ?thesis by auto
qed

end
