(* ===== verification/Thread_Safety.thy ===== *)
theory Thread_Safety
  imports Prelude
begin

text \<open>
  Which types of the crate may move to another thread (\<open>Send\<close>), be shared by reference (\<open>Sync\<close>), be
  cloned or copied. The models of the structures let one thread at a time push, pop, publish or write;
  in the source this is what the types enforce, by \<open>&mut self\<close>, by \<open>PhantomData<*const ()>\<close> fields and
  by the \<open>unsafe impl\<close>s of \<open>src/src\<close>. The rules of the language for auto traits are written out, and
  the structs are given by their fields.
\<close>

section \<open>Types and their fields\<close>

datatype marker = Send | Sync | Clone | Copy

text \<open>
  The type parameter \<open>T\<close> is any type of the user, given by its markers. The bound \<open>T: AnyBitPattern\<close>
  that the types of \<open>spmc\<close> and \<open>seqlock\<close> put on it says nothing of \<open>Send\<close> and \<open>Sync\<close>.
\<close>

type_synonym markers = "marker \<Rightarrow> bool"

text \<open>
  The type parameter \<open>A\<close>: an allocator of the crate, or any other implementor of the public trait
  \<open>Allocator\<close>, given by the markers that its \<open>Allocation<T>\<close> has for the \<open>T\<close> in question (a user
  writes that type, so it may have any).
\<close>

datatype allocator =
    NeverAllocator
  | HugepageAllocator
  | GlobalAllocator
  | LoomVecAllocator
  | UserAllocator markers

text \<open>The types of the language and the standard library that the crate uses, \<open>CachePadded\<close>, and its own.\<close>

datatype ty =
    Value markers
  | Usize
  | AtomicInt
  | Layout
  | RawPtr ty
  | PhantomData ty
  | MaybeUninit ty
  | StdUnsafeCell ty
  | ArcOf ty
  | CachePadded ty
  | ShimUnsafeCell ty
  | Allocation allocator ty
  | SpscQueue ty allocator
  | SpscProducer ty allocator
  | SpscConsumer ty allocator
  | SpmcSlot ty
  | ProducerStateInner
  | ConsumerStateInner
  | SpmcQueue ty allocator
  | SpmcProducer ty allocator
  | SpmcConsumer ty allocator
  | SeqLockInner ty
  | Writer ty
  | Reader ty

text \<open>\<open>PhantomData<*const ()>\<close>; the fields of the structs in their order.\<close>

definition not_sync :: ty where
  "not_sync = PhantomData (RawPtr Usize)"

definition never_allocation_fields :: "ty \<Rightarrow> ty list" where
  "never_allocation_fields t = [PhantomData t]"

definition hugepage_allocation_fields :: "ty \<Rightarrow> ty list" where
  "hugepage_allocation_fields t = [RawPtr (ShimUnsafeCell (MaybeUninit t)), Usize]"

definition global_allocation_fields :: "ty \<Rightarrow> ty list" where
  "global_allocation_fields t = [RawPtr (ShimUnsafeCell (MaybeUninit t)), Layout]"

definition loom_allocation_fields :: "ty \<Rightarrow> ty list" where
  "loom_allocation_fields t = [RawPtr (ShimUnsafeCell (MaybeUninit t)), Usize]"

definition spsc_queue_fields :: "ty \<Rightarrow> allocator \<Rightarrow> ty list" where
  "spsc_queue_fields t a = [Allocation a t, CachePadded AtomicInt, CachePadded AtomicInt]"

definition spsc_handle_fields :: "ty \<Rightarrow> allocator \<Rightarrow> ty list" where
  "spsc_handle_fields t a =
     [ArcOf (SpscQueue t a), RawPtr (ShimUnsafeCell (MaybeUninit t)), Usize, Usize, not_sync]"

definition spmc_slot_fields :: "ty \<Rightarrow> ty list" where
  "spmc_slot_fields t = [AtomicInt, ShimUnsafeCell t]"

definition spmc_queue_fields :: "ty \<Rightarrow> allocator \<Rightarrow> ty list" where
  "spmc_queue_fields t a = [CachePadded ProducerStateInner, Allocation a (SpmcSlot t)]"

definition spmc_producer_fields :: "ty \<Rightarrow> allocator \<Rightarrow> ty list" where
  "spmc_producer_fields t a = [ArcOf (SpmcQueue t a), not_sync]"

definition spmc_consumer_fields :: "ty \<Rightarrow> allocator \<Rightarrow> ty list" where
  "spmc_consumer_fields t a = [CachePadded ConsumerStateInner, ArcOf (SpmcQueue t a), not_sync]"

definition seqlock_fields :: "ty \<Rightarrow> ty list" where
  "seqlock_fields t = [StdUnsafeCell t, AtomicInt]"

definition writer_fields :: "ty \<Rightarrow> ty list" where
  "writer_fields t = [ArcOf (CachePadded (SeqLockInner t)), not_sync]"

definition reader_fields :: "ty \<Rightarrow> ty list" where
  "reader_fields t = [ArcOf (CachePadded (SeqLockInner t))]"

section \<open>Implementations\<close>

text \<open>
  When a type has a marker: if others have theirs (the \<open>where\<close> clause of an \<open>impl\<close>, or the fields of an
  auto trait), never, or as \<open>CachePadded\<close> says. Bounds such as \<open>T: AnyBitPattern\<close> that the struct has
  already are left out.
\<close>

datatype rule = Needs "(marker \<times> ty) list" | Refused | Padded ty

text \<open>\<open>Send\<close> and \<open>Sync\<close> are automatic; \<open>Clone\<close> and \<open>Copy\<close> need an \<open>impl\<close>.\<close>

fun auto_rule :: "marker \<Rightarrow> ty list \<Rightarrow> rule" where
  "auto_rule Send fs = Needs (map (Pair Send) fs)"
| "auto_rule Sync fs = Needs (map (Pair Sync) fs)"
| "auto_rule Clone fs = Refused"
| "auto_rule Copy fs = Refused"

text \<open>The \<open>unsafe impl\<close>s and \<open>impl Clone\<close>s of the source; otherwise the fields decide.\<close>

definition never_allocation_rule :: "ty \<Rightarrow> marker \<Rightarrow> rule" where
  "never_allocation_rule t m = auto_rule m (never_allocation_fields t)"

definition hugepage_allocation_rule :: "ty \<Rightarrow> marker \<Rightarrow> rule" where
  "hugepage_allocation_rule t m =
     (if m = Send then Needs [(Send, t)] else auto_rule m (hugepage_allocation_fields t))"

definition global_allocation_rule :: "ty \<Rightarrow> marker \<Rightarrow> rule" where
  "global_allocation_rule t m =
     (if m = Send then Needs [(Send, t)] else auto_rule m (global_allocation_fields t))"

definition loom_allocation_rule :: "ty \<Rightarrow> marker \<Rightarrow> rule" where
  "loom_allocation_rule t m =
     (if m = Send then Needs [(Send, t)] else auto_rule m (loom_allocation_fields t))"

text \<open>The associated type \<open>Allocation<T>\<close> of each allocator.\<close>

fun allocation_rule :: "allocator \<Rightarrow> ty \<Rightarrow> marker \<Rightarrow> rule" where
  "allocation_rule NeverAllocator t m = never_allocation_rule t m"
| "allocation_rule HugepageAllocator t m = hugepage_allocation_rule t m"
| "allocation_rule GlobalAllocator t m = global_allocation_rule t m"
| "allocation_rule LoomVecAllocator t m = loom_allocation_rule t m"
| "allocation_rule (UserAllocator has) t m = (if has m then Needs [] else Refused)"

definition spsc_producer_rule :: "ty \<Rightarrow> allocator \<Rightarrow> marker \<Rightarrow> rule" where
  "spsc_producer_rule t a m =
     (if m = Send then Needs [(Send, t), (Send, Allocation a t)] else auto_rule m (spsc_handle_fields t a))"

definition spsc_consumer_rule :: "ty \<Rightarrow> allocator \<Rightarrow> marker \<Rightarrow> rule" where
  "spsc_consumer_rule t a m =
     (if m = Send then Needs [(Send, t), (Send, Allocation a t)] else auto_rule m (spsc_handle_fields t a))"

definition spmc_queue_rule :: "ty \<Rightarrow> allocator \<Rightarrow> marker \<Rightarrow> rule" where
  "spmc_queue_rule t a m = (if m = Sync then Needs [] else auto_rule m (spmc_queue_fields t a))"

definition spmc_producer_rule :: "ty \<Rightarrow> allocator \<Rightarrow> marker \<Rightarrow> rule" where
  "spmc_producer_rule t a m =
     (if m = Send then Needs [(Send, t), (Send, Allocation a (SpmcSlot t))]
      else auto_rule m (spmc_producer_fields t a))"

definition spmc_consumer_rule :: "ty \<Rightarrow> allocator \<Rightarrow> marker \<Rightarrow> rule" where
  "spmc_consumer_rule t a m =
     (case m of
        Send \<Rightarrow> Needs [(Send, t), (Send, Allocation a (SpmcSlot t))]
      | Clone \<Rightarrow> Needs []
      | _ \<Rightarrow> auto_rule m (spmc_consumer_fields t a))"

definition seqlock_rule :: "ty \<Rightarrow> marker \<Rightarrow> rule" where
  "seqlock_rule t m = (if m = Sync then Needs [] else auto_rule m (seqlock_fields t))"

definition writer_rule :: "ty \<Rightarrow> marker \<Rightarrow> rule" where
  "writer_rule t m = (if m = Send then Needs [] else auto_rule m (writer_fields t))"

definition reader_rule :: "ty \<Rightarrow> marker \<Rightarrow> rule" where
  "reader_rule t m = (if m = Clone then Needs [] else auto_rule m (reader_fields t))"

fun rule_of :: "ty \<Rightarrow> marker \<Rightarrow> rule" where
  "rule_of (Value v) m = (if v m then Needs [] else Refused)"
| "rule_of Usize m = Needs []"
| "rule_of AtomicInt m = (if m = Send \<or> m = Sync then Needs [] else Refused)"
| "rule_of Layout m = Needs []"
| "rule_of (RawPtr t) m = (if m = Clone \<or> m = Copy then Needs [] else Refused)"
| "rule_of (PhantomData t) m = (if m = Clone \<or> m = Copy then Needs [] else Needs [(m, t)])"
| "rule_of (MaybeUninit t) m = Needs [(if m = Clone then Copy else m, t)]"
| "rule_of (StdUnsafeCell t) m = (if m = Send then Needs [(Send, t)] else Refused)"
| "rule_of (ArcOf t) m =
     (case m of Clone \<Rightarrow> Needs [] | Copy \<Rightarrow> Refused | _ \<Rightarrow> Needs [(Send, t), (Sync, t)])"
| "rule_of (CachePadded t) m = Padded t"
| "rule_of (ShimUnsafeCell t) m = auto_rule m [StdUnsafeCell t]"
| "rule_of (Allocation a t) m = allocation_rule a t m"
| "rule_of (SpscQueue t a) m = auto_rule m (spsc_queue_fields t a)"
| "rule_of (SpscProducer t a) m = spsc_producer_rule t a m"
| "rule_of (SpscConsumer t a) m = spsc_consumer_rule t a m"
| "rule_of (SpmcSlot t) m = auto_rule m (spmc_slot_fields t)"
| "rule_of ProducerStateInner m = auto_rule m [AtomicInt]"
| "rule_of ConsumerStateInner m = (if m = Clone then Needs [(Clone, Usize), (Clone, Usize)] else auto_rule m [Usize, Usize])"
| "rule_of (SpmcQueue t a) m = spmc_queue_rule t a m"
| "rule_of (SpmcProducer t a) m = spmc_producer_rule t a m"
| "rule_of (SpmcConsumer t a) m = spmc_consumer_rule t a m"
| "rule_of (SeqLockInner t) m = seqlock_rule t m"
| "rule_of (Writer t) m = writer_rule t m"
| "rule_of (Reader t) m = reader_rule t m"

text \<open>How far a type is from the types of its fields.\<close>

fun depth :: "ty \<Rightarrow> nat" where
  "depth (Value v) = 0"
| "depth Usize = 0"
| "depth AtomicInt = 0"
| "depth Layout = 0"
| "depth (RawPtr t) = 0"
| "depth (PhantomData t) = depth t + 1"
| "depth (MaybeUninit t) = depth t + 1"
| "depth (StdUnsafeCell t) = depth t + 1"
| "depth (ArcOf t) = depth t + 1"
| "depth (CachePadded t) = depth t + 1"
| "depth (ShimUnsafeCell t) = depth t + 2"
| "depth (Allocation a t) = depth t + 2"
| "depth (SpscQueue t a) = depth t + 3"
| "depth (SpscProducer t a) = depth t + 5"
| "depth (SpscConsumer t a) = depth t + 5"
| "depth (SpmcSlot t) = depth t + 3"
| "depth ProducerStateInner = 1"
| "depth ConsumerStateInner = 1"
| "depth (SpmcQueue t a) = depth t + 6"
| "depth (SpmcProducer t a) = depth t + 8"
| "depth (SpmcConsumer t a) = depth t + 8"
| "depth (SeqLockInner t) = depth t + 2"
| "depth (Writer t) = depth t + 5"
| "depth (Reader t) = depth t + 5"

lemmas allocation_defs =
  never_allocation_rule_def hugepage_allocation_rule_def global_allocation_rule_def loom_allocation_rule_def
  never_allocation_fields_def hugepage_allocation_fields_def global_allocation_fields_def
  loom_allocation_fields_def

lemmas field_defs =
  not_sync_def spsc_queue_fields_def spsc_handle_fields_def spmc_slot_fields_def spmc_queue_fields_def
  spmc_producer_fields_def spmc_consumer_fields_def seqlock_fields_def writer_fields_def reader_fields_def

lemmas rule_defs =
  spsc_producer_rule_def spsc_consumer_rule_def spmc_queue_rule_def spmc_producer_rule_def
  spmc_consumer_rule_def seqlock_rule_def writer_rule_def reader_rule_def

lemma depth_pad: "rule_of t m = Padded u \<Longrightarrow> depth u < depth t"
  by (cases t; cases m) (auto simp: rule_defs allocation_defs split: if_splits elim!: allocation_rule.elims)

lemma depth_allocation:
  "allocation_rule a t m = Needs rs \<Longrightarrow> (m', u) \<in> set rs \<Longrightarrow> depth u < Suc (Suc (depth t))"
  by (cases a; cases m) (auto simp: allocation_defs split: if_splits)

lemma depth_needs: "rule_of t m = Needs rs \<Longrightarrow> (m', u) \<in> set rs \<Longrightarrow> depth u < depth t"
  by (cases t; cases m) (auto simp: rule_defs field_defs split: if_splits dest: depth_allocation)

text \<open>
  \<open>CachePadded\<close> is a struct of the package \<open>crossbeam-utils\<close>: \<open>pad m has\<close> says whether it has the marker
  \<open>m\<close> when the type inside has the markers \<open>has\<close>.
\<close>

function implements :: "(marker \<Rightarrow> (marker \<Rightarrow> bool) \<Rightarrow> bool) \<Rightarrow> marker \<Rightarrow> ty \<Rightarrow> bool" where
  "implements pad m t =
     (case rule_of t m of
        Refused \<Rightarrow> False
      | Padded u \<Rightarrow> pad m (\<lambda>m'. implements pad m' u)
      | Needs rs \<Rightarrow> list_all (\<lambda>(m', u). implements pad m' u) rs)"
  by pat_completeness auto
termination
  by (relation "measure (\<lambda>(pad, m, t). depth t)") (auto dest: depth_pad depth_needs)

text \<open>The documented behaviour: \<open>CachePadded\<close> has a marker iff the type inside has it.\<close>

definition pad_transparent :: "(marker \<Rightarrow> (marker \<Rightarrow> bool) \<Rightarrow> bool) \<Rightarrow> bool" where
  "pad_transparent pad \<longleftrightarrow> (\<forall>m has. pad m has = has m)"

section \<open>The assertions of the source\<close>

text \<open>\<open>u32\<close>, and the \<open>static_assertions\<close> of \<open>spsc\<close>, \<open>spmc\<close> and \<open>seqlock\<close>.\<close>

definition u32_type :: ty where
  "u32_type = Value (\<lambda>_. True)"

definition assert_impl_all :: "(marker \<Rightarrow> (marker \<Rightarrow> bool) \<Rightarrow> bool) \<Rightarrow> ty \<Rightarrow> marker list \<Rightarrow> bool" where
  "assert_impl_all pad t ms \<longleftrightarrow> list_all (\<lambda>m. implements pad m t) ms"

definition assert_not_impl_any :: "(marker \<Rightarrow> (marker \<Rightarrow> bool) \<Rightarrow> bool) \<Rightarrow> ty \<Rightarrow> marker list \<Rightarrow> bool" where
  "assert_not_impl_any pad t ms \<longleftrightarrow> list_all (\<lambda>m. \<not> implements pad m t) ms"

definition spsc_producer_assertions :: "(marker \<Rightarrow> (marker \<Rightarrow> bool) \<Rightarrow> bool) \<Rightarrow> bool" where
  "spsc_producer_assertions pad \<longleftrightarrow>
     assert_not_impl_any pad (SpscProducer u32_type NeverAllocator) [Sync]"

definition spsc_consumer_assertions :: "(marker \<Rightarrow> (marker \<Rightarrow> bool) \<Rightarrow> bool) \<Rightarrow> bool" where
  "spsc_consumer_assertions pad \<longleftrightarrow>
     assert_not_impl_any pad (SpscConsumer u32_type NeverAllocator) [Sync]"

definition spmc_producer_assertions :: "(marker \<Rightarrow> (marker \<Rightarrow> bool) \<Rightarrow> bool) \<Rightarrow> bool" where
  "spmc_producer_assertions pad \<longleftrightarrow>
     assert_impl_all pad (SpmcProducer u32_type NeverAllocator) [Send] \<and>
     assert_not_impl_any pad (SpmcProducer u32_type NeverAllocator) [Sync, Clone, Copy]"

definition spmc_consumer_assertions :: "(marker \<Rightarrow> (marker \<Rightarrow> bool) \<Rightarrow> bool) \<Rightarrow> bool" where
  "spmc_consumer_assertions pad \<longleftrightarrow>
     assert_impl_all pad (SpmcConsumer u32_type NeverAllocator) [Send, Clone] \<and>
     assert_not_impl_any pad (SpmcConsumer u32_type NeverAllocator) [Sync, Copy]"

definition spmc_queue_assertions :: "(marker \<Rightarrow> (marker \<Rightarrow> bool) \<Rightarrow> bool) \<Rightarrow> bool" where
  "spmc_queue_assertions pad \<longleftrightarrow>
     assert_impl_all pad (SpmcQueue u32_type NeverAllocator) [Sync, Send]"

definition reader_assertions :: "(marker \<Rightarrow> (marker \<Rightarrow> bool) \<Rightarrow> bool) \<Rightarrow> bool" where
  "reader_assertions pad \<longleftrightarrow>
     assert_impl_all pad (Reader u32_type) [Send, Sync] \<and>
     assert_impl_all pad (ArcOf (Reader u32_type)) [Send, Clone]"

definition writer_assertions :: "(marker \<Rightarrow> (marker \<Rightarrow> bool) \<Rightarrow> bool) \<Rightarrow> bool" where
  "writer_assertions pad \<longleftrightarrow>
     assert_impl_all pad (Writer u32_type) [Send] \<and>
     assert_not_impl_any pad (Writer u32_type) [Sync, Clone, Copy] \<and>
     assert_not_impl_any pad (ArcOf (Writer u32_type)) [Send, Sync, Copy]"

lemmas assertion_defs =
  spsc_producer_assertions_def spsc_consumer_assertions_def spmc_producer_assertions_def
  spmc_consumer_assertions_def spmc_queue_assertions_def reader_assertions_def writer_assertions_def
  assert_impl_all_def assert_not_impl_any_def

section \<open>The markers of the crate's types\<close>

declare implements.simps [simp del]

lemma pad_transparentD: "pad_transparent pad \<Longrightarrow> pad m has = has m"
  by (simp add: pad_transparent_def)

lemma value_marks [simp]: "implements pad m (Value v) = v m"
  by (simp add: implements.simps)

lemma u32_marks [simp]: "implements pad m u32_type"
  by (simp add: u32_type_def)

lemma plain_marks [simp]:
  "implements pad m Usize" "implements pad m Layout"
  "implements pad m AtomicInt \<longleftrightarrow> m = Send \<or> m = Sync"
  "implements pad m (RawPtr t) \<longleftrightarrow> m = Clone \<or> m = Copy"
  "implements pad m (PhantomData t) \<longleftrightarrow> m = Clone \<or> m = Copy \<or> implements pad m t"
  "implements pad m (MaybeUninit t) \<longleftrightarrow> implements pad (if m = Clone then Copy else m) t"
  "implements pad m (StdUnsafeCell t) \<longleftrightarrow> m = Send \<and> implements pad Send t"
  by (simp_all add: implements.simps)

lemma arc_marks [simp]:
  "implements pad m (ArcOf t) \<longleftrightarrow> m = Clone \<or> m \<noteq> Copy \<and> implements pad Send t \<and> implements pad Sync t"
  by (cases m) (simp_all add: implements.simps)

lemma padded_marks [simp]:
  "pad_transparent pad \<Longrightarrow> implements pad m (CachePadded t) = implements pad m t"
  by (simp add: implements.simps [of _ _ "CachePadded t"] pad_transparentD)

lemma shim_cell_marks [simp]: "implements pad m (ShimUnsafeCell t) \<longleftrightarrow> m = Send \<and> implements pad Send t"
  by (cases m) (simp_all add: implements.simps)

lemma not_sync_marks [simp]: "implements pad m not_sync \<longleftrightarrow> m = Clone \<or> m = Copy"
  by (auto simp: not_sync_def)

text \<open>May the \<open>Allocation<T>\<close> of an allocator be sent, when the markers of \<open>T\<close> are known?\<close>

fun allocation_sent :: "allocator \<Rightarrow> bool \<Rightarrow> bool" where
  "allocation_sent (UserAllocator has) t_sent = has Send"
| "allocation_sent _ t_sent = t_sent"

lemma allocation_marks [simp]:
  "implements pad Send (Allocation a t) = allocation_sent a (implements pad Send t)"
  by (cases a; simp add: implements.simps [of _ _ "Allocation _ _"] allocation_defs)

lemma spsc_marks:
  "implements pad Send (SpscProducer t a) \<longleftrightarrow> implements pad Send t \<and> implements pad Send (Allocation a t)"
  "implements pad Send (SpscConsumer t a) \<longleftrightarrow> implements pad Send t \<and> implements pad Send (Allocation a t)"
  "m \<noteq> Send \<Longrightarrow> \<not> implements pad m (SpscProducer t a)"
  "m \<noteq> Send \<Longrightarrow> \<not> implements pad m (SpscConsumer t a)"
  by (cases m; simp add: implements.simps [of _ _ "SpscProducer _ _"] implements.simps [of _ _ "SpscConsumer _ _"]
      spsc_producer_rule_def spsc_consumer_rule_def spsc_handle_fields_def)+

lemma spmc_slot_marks [simp]: "implements pad m (SpmcSlot t) \<longleftrightarrow> m = Send \<and> implements pad Send t"
  by (cases m) (simp_all add: implements.simps [of _ _ "SpmcSlot _"] spmc_slot_fields_def)

lemma spmc_queue_marks [simp]:
  "implements pad Sync (SpmcQueue t a)"
  "pad_transparent pad \<Longrightarrow> implements pad Send (SpmcQueue t a) = implements pad Send (Allocation a (SpmcSlot t))"
  by (simp_all add: implements.simps [of _ _ "SpmcQueue _ _"] implements.simps [of _ _ ProducerStateInner]
      spmc_queue_rule_def spmc_queue_fields_def)

lemma spmc_marks:
  "implements pad Send (SpmcProducer t a) \<longleftrightarrow> implements pad Send t \<and> implements pad Send (Allocation a (SpmcSlot t))"
  "implements pad Send (SpmcConsumer t a) \<longleftrightarrow> implements pad Send t \<and> implements pad Send (Allocation a (SpmcSlot t))"
  "m \<noteq> Send \<Longrightarrow> \<not> implements pad m (SpmcProducer t a)"
  "m \<noteq> Send \<Longrightarrow> implements pad m (SpmcConsumer t a) \<longleftrightarrow> m = Clone"
  by (cases m; simp add: implements.simps [of _ _ "SpmcProducer _ _"] implements.simps [of _ _ "SpmcConsumer _ _"]
      spmc_producer_rule_def spmc_consumer_rule_def spmc_producer_fields_def spmc_consumer_fields_def)+

lemma seqlock_marks:
  "implements pad Send (SeqLockInner t) = implements pad Send t"
  "implements pad Sync (SeqLockInner t)"
  "implements pad Send (Writer t)"
  "m \<noteq> Send \<Longrightarrow> \<not> implements pad m (Writer t)"
  "implements pad Clone (Reader t)" "\<not> implements pad Copy (Reader t)"
  by (cases m; simp add: implements.simps [of _ _ "SeqLockInner _"] implements.simps [of _ _ "Writer _"]
      implements.simps [of _ _ "Reader _"] seqlock_rule_def seqlock_fields_def writer_rule_def writer_fields_def
      reader_rule_def reader_fields_def)+

lemma reader_marks:
  assumes "pad_transparent pad" "m = Send \<or> m = Sync"
  shows "implements pad m (Reader t) = implements pad Send t"
  using assms
  by (auto simp: implements.simps [of _ _ "Reader _"] reader_rule_def reader_fields_def seqlock_marks)

section \<open>Properties\<close>

text \<open>
  C29: Who may use a queue or a lock from where, for every item type and every allocator, also one of
  the user's. The handles of both queues move to another thread exactly when the items may and the
  allocation of the slots may, so a handle on memory that must stay on its thread stays there too; with
  an allocator of the crate that is exactly when the items may. The seqlock's reader is sent and shared
  exactly when the values may be sent. No producer, consumer or writer is \<open>Sync\<close> or \<open>Copy\<close>, and only
  consumers of the broadcast queue and readers are \<open>Clone\<close>: so at most one thread at a time pushes, pops,
  publishes or writes.
\<close>

theorem handles_single_threaded:
  assumes "pad_transparent pad"
  shows "(\<forall>h\<in>{SpscProducer (Value v) a, SpscConsumer (Value v) a}.
       implements pad Send h \<longleftrightarrow> v Send \<and> implements pad Send (Allocation a (Value v))) \<and>
    (\<forall>h\<in>{SpmcProducer (Value v) a, SpmcConsumer (Value v) a}.
       implements pad Send h \<longleftrightarrow> v Send \<and> implements pad Send (Allocation a (SpmcSlot (Value v)))) \<and>
    (\<forall>t\<in>{Value v, SpmcSlot (Value v)}. implements pad Send (Allocation a t) \<longleftrightarrow>
       (case a of UserAllocator has \<Rightarrow> has Send | _ \<Rightarrow> v Send)) \<and>
    (\<forall>h\<in>{SpscProducer (Value v) a, SpscConsumer (Value v) a, SpmcProducer (Value v) a, SpmcConsumer (Value v) a,
          Writer (Value v)}.
       \<not> implements pad Sync h \<and> \<not> implements pad Copy h \<and> (implements pad Clone h \<longleftrightarrow> h = SpmcConsumer (Value v) a)) \<and>
    implements pad Send (Reader (Value v)) = v Send \<and> implements pad Sync (Reader (Value v)) = v Send \<and>
    implements pad Clone (Reader (Value v))"
  using spsc_marks spmc_marks seqlock_marks reader_marks [OF assms] by (simp split: allocator.split)

lemma id_transparent: "pad_transparent (\<lambda>m has. has m)"
  by (simp add: pad_transparent_def)

text \<open>The witness: items that may be sent, in memory of a user's allocator that may not.\<close>

theorem handles_single_threaded_witness:
  "\<not> implements (\<lambda>m has. has m) Send (SpscProducer u32_type (UserAllocator (\<lambda>_. False))) \<and>
    implements (\<lambda>m has. has m) Send (SpscProducer u32_type HugepageAllocator) \<and>
    \<not> implements (\<lambda>m has. has m) Sync (Writer u32_type) \<and>
    implements (\<lambda>m has. has m) Sync (Reader u32_type)"
  using handles_single_threaded [OF id_transparent, where v = "\<lambda>_. True" and a = "UserAllocator (\<lambda>_. False)"]
    handles_single_threaded [OF id_transparent, where v = "\<lambda>_. True" and a = HugepageAllocator]
  by (simp add: u32_type_def)

text \<open>The static assertions of the source hold.\<close>

theorem static_assertions_hold:
  assumes "pad_transparent pad"
  shows "spsc_producer_assertions pad \<and> spsc_consumer_assertions pad \<and>
    spmc_producer_assertions pad \<and> spmc_consumer_assertions pad \<and> spmc_queue_assertions pad \<and>
    reader_assertions pad \<and> writer_assertions pad"
  using assms spsc_marks spmc_marks seqlock_marks reader_marks [OF assms] by (simp add: assertion_defs)

theorem static_assertions_hold_witness:
  "spmc_queue_assertions (\<lambda>m has. has m) \<and> writer_assertions (\<lambda>m has. has m)"
  using static_assertions_hold [OF id_transparent] by blast

text \<open>
  The comment on \<open>unsafe impl Send for Writer\<close> justifies it by \<open>SeqLock<T>\<close> being \<open>Send\<close>. It is not when the
  values are not \<open>Send\<close>, and the \<open>impl\<close> does not ask for that: the writer moves to another thread all the
  same, and the values it writes there reach the readers.
\<close>

theorem writer_sent_without_values:
  assumes "pad_transparent pad" "\<not> v Send"
  shows "implements pad Send (Writer (Value v)) \<and> \<not> implements pad Send (CachePadded (SeqLockInner (Value v)))"
  using assms seqlock_marks by simp

theorem writer_sent_without_values_witness:
  "implements (\<lambda>m has. has m) Send (Writer (Value (\<lambda>m. m \<noteq> Send)))"
  using writer_sent_without_values [OF id_transparent, of "\<lambda>m. m \<noteq> Send"]
  by simp

end
