(* ===== verification/Adapters.thy ===== *)
theory Adapters
  imports Bench_Spsc Bench_Spmc
begin

text \<open>
  The adapters that give other queues the traits of the benchmark harness,
  \<open>src/src/bench/harness/adapters\<close>. The queues themselves are packages outside the repository: their
  operations are parameters of the adapters, and what their documentation promises is the interface
  \<open>foreign_queue\<close>. \<open>sync_channel\<close> of the standard library is modelled and keeps it.
\<close>

section \<open>What the packages promise\<close>

text \<open>
  A bounded queue of another package: \<open>send\<close> accepts the item or fails with an error from which
  \<open>unwrap\<close> gets it back; \<open>recv\<close> returns the oldest item, or nothing when there is none.
\<close>

locale foreign_queue =
  fixes send :: "'s \<Rightarrow> 'a \<Rightarrow> ('e + unit) \<times> 's"
    and recv :: "'s \<Rightarrow> 'a option \<times> 's"
    and unwrap :: "'e \<Rightarrow> 'a"
    and contents :: "'s \<Rightarrow> 'a list"
    and invar :: "'s \<Rightarrow> bool"
  assumes send_law: "invar s \<Longrightarrow>
      (\<exists>s'. send s x = (Inr (), s') \<and> invar s' \<and> contents s' = contents s @ [x]) \<or>
      (\<exists>e s'. send s x = (Inl e, s') \<and> unwrap e = x \<and> invar s' \<and> contents s' = contents s)"
    and send_first: "invar s \<Longrightarrow> contents s = [] \<Longrightarrow>
      \<exists>s'. send s x = (Inr (), s') \<and> invar s' \<and> contents s' = [x]"
    and recv_item: "invar s \<Longrightarrow> contents s = x # xs \<Longrightarrow>
      \<exists>s'. recv s = (Some x, s') \<and> invar s' \<and> contents s' = xs"
    and recv_none: "invar s \<Longrightarrow> contents s = [] \<Longrightarrow>
      \<exists>s'. recv s = (None, s') \<and> invar s' \<and> contents s' = []"

text \<open>The common form of the adapters.\<close>

definition forward_push ::
  "('e \<Rightarrow> 'a) \<Rightarrow> ('s \<Rightarrow> 'a \<Rightarrow> ('e + unit) \<times> 's) \<Rightarrow> 's \<Rightarrow> 'a \<Rightarrow> fault + (('a + unit) \<times> 's)" where
  "forward_push unwrap send s v = (case send s v of (r, s) \<Rightarrow> Inr (map_sum unwrap id r, s))"

definition forward_pop :: "('s \<Rightarrow> 'a option \<times> 's) \<Rightarrow> 's \<Rightarrow> fault + ('a option \<times> 's)" where
  "forward_pop recv s = Inr (recv s)"

sublocale foreign_queue \<subseteq> adapted: spsc_bench "forward_push unwrap send" "forward_pop recv" contents invar
proof unfold_locales
  fix s x
  assume inv: "invar s"
  from send_law [OF inv, of x] show
    "(\<exists>s'. forward_push unwrap send s x = Inr (Inr (), s') \<and> invar s' \<and> contents s' = contents s @ [x]) \<or>
     (\<exists>s'. forward_push unwrap send s x = Inr (Inl x, s') \<and> invar s' \<and> contents s' = contents s)"
    by (auto simp: forward_push_def)
  show "\<exists>s'. forward_push unwrap send s x = Inr (Inr (), s') \<and> invar s' \<and> contents s' = [x]" if "contents s = []"
    using send_first [OF inv that, of x] by (auto simp: forward_push_def)
  show "\<exists>s'. forward_pop recv s = Inr (Some x, s') \<and> invar s' \<and> contents s' = xs" if "contents s = x # xs" for xs
    using recv_item [OF inv that] by (auto simp: forward_pop_def)
  show "\<exists>s'. forward_pop recv s = Inr (None, s') \<and> invar s' \<and> contents s' = []" if "contents s = []"
    using recv_none [OF inv that] by (auto simp: forward_pop_def)
qed

context foreign_queue
begin

lemmas adapted_bench = adapted.spsc_bench_axioms

end

section \<open>Channels\<close>

text \<open>\<open>TrySendError\<close> and \<open>TryRecvError\<close>, alike in \<open>std::sync::mpsc\<close>, \<open>crossbeam_channel\<close> and \<open>flume\<close>.\<close>

datatype 'a try_send_error = SendFull 'a | SendDisconnected 'a

datatype try_recv_error = RecvEmpty | RecvDisconnected

text \<open>\<open>Result::ok\<close>.\<close>

fun ok :: "'e + 'a \<Rightarrow> 'a option" where
  "ok (Inr x) = Some x"
| "ok (Inl e) = None"

definition cbchan_try_push ::
  "('s \<Rightarrow> 'a \<Rightarrow> ('a try_send_error + unit) \<times> 's) \<Rightarrow> 's \<Rightarrow> 'a \<Rightarrow> fault + (('a + unit) \<times> 's)" where
  "cbchan_try_push try_send s v =
     (case try_send s v of
        (Inr _, s) \<Rightarrow> Inr (Inr (), s)
      | (Inl (SendFull v), s) \<Rightarrow> Inr (Inl v, s)
      | (Inl (SendDisconnected v), s) \<Rightarrow> Inr (Inl v, s))"

definition cbchan_try_pop ::
  "('s \<Rightarrow> (try_recv_error + 'a) \<times> 's) \<Rightarrow> 's \<Rightarrow> fault + ('a option \<times> 's)" where
  "cbchan_try_pop try_recv s = (case try_recv s of (r, s) \<Rightarrow> Inr (ok r, s))"

definition flume_try_push ::
  "('s \<Rightarrow> 'a \<Rightarrow> ('a try_send_error + unit) \<times> 's) \<Rightarrow> 's \<Rightarrow> 'a \<Rightarrow> fault + (('a + unit) \<times> 's)" where
  "flume_try_push try_send s v =
     (case try_send s v of
        (Inr _, s) \<Rightarrow> Inr (Inr (), s)
      | (Inl (SendFull v), s) \<Rightarrow> Inr (Inl v, s)
      | (Inl (SendDisconnected v), s) \<Rightarrow> Inr (Inl v, s))"

definition flume_try_pop ::
  "('s \<Rightarrow> (try_recv_error + 'a) \<times> 's) \<Rightarrow> 's \<Rightarrow> fault + ('a option \<times> 's)" where
  "flume_try_pop try_recv s = (case try_recv s of (r, s) \<Rightarrow> Inr (ok r, s))"

text \<open>The standard library's \<open>sync_channel(bound)\<close>, with the two ends that may be gone.\<close>

record 'a sync_channel =
  buffer :: "'a list"
  bound :: nat
  sender_alive :: bool
  receiver_alive :: bool

definition sync_channel_new :: "nat \<Rightarrow> 'a sync_channel" where
  "sync_channel_new c = \<lparr>buffer = [], bound = c, sender_alive = True, receiver_alive = True\<rparr>"

definition sync_try_send :: "'a sync_channel \<Rightarrow> 'a \<Rightarrow> ('a try_send_error + unit) \<times> 'a sync_channel" where
  "sync_try_send ch v =
     (if \<not> receiver_alive ch then (Inl (SendDisconnected v), ch)
      else if length (buffer ch) < bound ch then (Inr (), ch\<lparr>buffer := buffer ch @ [v]\<rparr>)
      else (Inl (SendFull v), ch))"

definition sync_try_recv :: "'a sync_channel \<Rightarrow> (try_recv_error + 'a) \<times> 'a sync_channel" where
  "sync_try_recv ch =
     (case buffer ch of
        v # vs \<Rightarrow> (Inr v, ch\<lparr>buffer := vs\<rparr>)
      | [] \<Rightarrow> (Inl (if sender_alive ch then RecvEmpty else RecvDisconnected), ch))"

definition stdmpsc_new :: "nat \<Rightarrow> 'a sync_channel" where
  "stdmpsc_new c = sync_channel_new c"

definition stdmpsc_try_push :: "'a sync_channel \<Rightarrow> 'a \<Rightarrow> fault + (('a + unit) \<times> 'a sync_channel)" where
  "stdmpsc_try_push s v =
     (case sync_try_send s v of
        (Inr _, s) \<Rightarrow> Inr (Inr (), s)
      | (Inl (SendFull v), s) \<Rightarrow> Inr (Inl v, s)
      | (Inl (SendDisconnected v), s) \<Rightarrow> Inr (Inl v, s))"

definition stdmpsc_try_pop :: "'a sync_channel \<Rightarrow> fault + ('a option \<times> 'a sync_channel)" where
  "stdmpsc_try_pop s = (case sync_try_recv s of (r, s) \<Rightarrow> Inr (ok r, s))"

section \<open>Rings\<close>

text \<open>The errors of \<open>rtrb\<close> and \<open>nexus_queue\<close>; \<open>ringbuf\<close> and \<open>heapless\<close> return the item itself.\<close>

datatype 'a push_error = PushErrorFull 'a

datatype 'a nexus_full = NexusFull 'a

definition rtrb_try_push ::
  "('s \<Rightarrow> 'a \<Rightarrow> ('a push_error + unit) \<times> 's) \<Rightarrow> 's \<Rightarrow> 'a \<Rightarrow> fault + (('a + unit) \<times> 's)" where
  "rtrb_try_push rpush s v = (case rpush s v of (r, s) \<Rightarrow> Inr (map_sum (\<lambda>e. case e of PushErrorFull v \<Rightarrow> v) id r, s))"

definition rtrb_try_pop :: "('s \<Rightarrow> ('e + 'a) \<times> 's) \<Rightarrow> 's \<Rightarrow> fault + ('a option \<times> 's)" where
  "rtrb_try_pop rpop s = (case rpop s of (r, s) \<Rightarrow> Inr (ok r, s))"

definition nexus_try_push ::
  "('s \<Rightarrow> 'a \<Rightarrow> ('a nexus_full + unit) \<times> 's) \<Rightarrow> 's \<Rightarrow> 'a \<Rightarrow> fault + (('a + unit) \<times> 's)" where
  "nexus_try_push rpush s v = (case rpush s v of (r, s) \<Rightarrow> Inr (map_sum (\<lambda>e. case e of NexusFull v \<Rightarrow> v) id r, s))"

definition nexus_try_pop :: "('s \<Rightarrow> 'a option \<times> 's) \<Rightarrow> 's \<Rightarrow> fault + ('a option \<times> 's)" where
  "nexus_try_pop rpop s = Inr (rpop s)"

definition ringbuf_try_push :: "('s \<Rightarrow> 'a \<Rightarrow> ('a + unit) \<times> 's) \<Rightarrow> 's \<Rightarrow> 'a \<Rightarrow> fault + (('a + unit) \<times> 's)" where
  "ringbuf_try_push rpush s v = Inr (rpush s v)"

definition ringbuf_try_pop :: "('s \<Rightarrow> 'a option \<times> 's) \<Rightarrow> 's \<Rightarrow> fault + ('a option \<times> 's)" where
  "ringbuf_try_pop rpop s = Inr (rpop s)"

text \<open>\<open>HeaplessSpsc::new\<close> does not compile (\<open>None\<close>) unless the raw slot count is \<open>C + 1\<close>.\<close>

definition heapless_new :: "(nat \<Rightarrow> 's) \<Rightarrow> nat \<Rightarrow> nat \<Rightarrow> 's option" where
  "heapless_new queue_new c n = (if n = c + 1 then Some (queue_new n) else None)"

definition heapless_try_push :: "('s \<Rightarrow> 'a \<Rightarrow> ('a + unit) \<times> 's) \<Rightarrow> 's \<Rightarrow> 'a \<Rightarrow> fault + (('a + unit) \<times> 's)" where
  "heapless_try_push enqueue s v = Inr (enqueue s v)"

definition heapless_try_pop :: "('s \<Rightarrow> 'a option \<times> 's) \<Rightarrow> 's \<Rightarrow> fault + ('a option \<times> 's)" where
  "heapless_try_pop dequeue s = Inr (dequeue s)"

section \<open>The broadcast bus\<close>

text \<open>\<open>BusSpmc\<close>: receivers are added at the publisher; a lost publisher reads as \<open>Empty\<close>.\<close>

definition bus_semantics :: spmc_semantics where
  "bus_semantics = Backpressure"

fun add_receivers :: "('q \<Rightarrow> 'c \<times> 'q) \<Rightarrow> nat \<Rightarrow> 'q \<Rightarrow> 'c list \<times> 'q" where
  "add_receivers add_rx 0 q = ([], q)"
| "add_receivers add_rx (Suc n) q =
     (case add_rx q of (c, q) \<Rightarrow> (case add_receivers add_rx n q of (cs, q) \<Rightarrow> (c # cs, q)))"

definition bus_new :: "(nat \<Rightarrow> 'q) \<Rightarrow> ('q \<Rightarrow> 'c \<times> 'q) \<Rightarrow> nat \<Rightarrow> nat \<Rightarrow> 'q \<times> 'c list" where
  "bus_new make_bus add_rx c n_consumers =
     (case add_receivers add_rx n_consumers (make_bus c) of (consumers, bus) \<Rightarrow> (bus, consumers))"

definition bus_try_publish :: "('q \<Rightarrow> 'a \<Rightarrow> ('a + unit) \<times> 'q) \<Rightarrow> 'q \<Rightarrow> 'a \<Rightarrow> fault + (('a + unit) \<times> 'q)" where
  "bus_try_publish try_broadcast q v = Inr (try_broadcast q v)"

definition bus_try_read ::
  "('q \<Rightarrow> 'c \<Rightarrow> (try_recv_error + 'a) \<times> 'q \<times> 'c) \<Rightarrow> 'q \<Rightarrow> 'c \<Rightarrow> fault + ('a spmc_read_result \<times> 'q \<times> 'c)" where
  "bus_try_read try_recv q c =
     (case try_recv q c of
        (Inr v, st) \<Rightarrow> Inr (SValue v, st)
      | (Inl RecvEmpty, st) \<Rightarrow> Inr (SEmpty, st)
      | (Inl RecvDisconnected, st) \<Rightarrow> Inr (SEmpty, st))"

section \<open>Every adapter has the common form\<close>

definition channel_item :: "'a try_send_error \<Rightarrow> 'a" where
  "channel_item e = (case e of SendFull v \<Rightarrow> v | SendDisconnected v \<Rightarrow> v)"

definition recv_ok :: "('s \<Rightarrow> ('e + 'a) \<times> 's) \<Rightarrow> 's \<Rightarrow> 'a option \<times> 's" where
  "recv_ok recv s = (case recv s of (r, s) \<Rightarrow> (ok r, s))"

lemma channel_push_form:
  "(case try_send s v of
      (Inr _, s) \<Rightarrow> Inr (Inr (), s)
    | (Inl (SendFull v), s) \<Rightarrow> Inr (Inl v, s)
    | (Inl (SendDisconnected v), s) \<Rightarrow> Inr (Inl v, s)) = forward_push channel_item try_send s v"
proof (cases "try_send s v")
  case (Pair r s')
  then show ?thesis
    by (cases r) (simp_all add: forward_push_def channel_item_def split: try_send_error.split)
qed

lemma channel_forms:
  "cbchan_try_push try_send = forward_push channel_item try_send"
  "flume_try_push try_send = forward_push channel_item try_send"
  "stdmpsc_try_push = forward_push channel_item sync_try_send"
  "cbchan_try_pop try_recv = forward_pop (recv_ok try_recv)"
  "flume_try_pop try_recv = forward_pop (recv_ok try_recv)"
  "stdmpsc_try_pop = forward_pop (recv_ok sync_try_recv)"
  by ((rule ext)+, simp only: cbchan_try_push_def flume_try_push_def stdmpsc_try_push_def channel_push_form
      cbchan_try_pop_def flume_try_pop_def stdmpsc_try_pop_def forward_pop_def recv_ok_def prod.case_distrib [of Inr])+

lemma ring_forms:
  "rtrb_try_push rpush = forward_push (\<lambda>e. case e of PushErrorFull v \<Rightarrow> v) rpush"
  "nexus_try_push rpush' = forward_push (\<lambda>e. case e of NexusFull v \<Rightarrow> v) rpush'"
  "ringbuf_try_push rpush'' = forward_push id rpush''"
  "heapless_try_push rpush'' = forward_push id rpush''"
  "rtrb_try_pop rpop = forward_pop (recv_ok rpop)"
  "nexus_try_pop rpop' = forward_pop rpop'"
  "ringbuf_try_pop rpop' = forward_pop rpop'"
  "heapless_try_pop rpop' = forward_pop rpop'"
  by (auto simp: fun_eq_iff rtrb_try_push_def nexus_try_push_def ringbuf_try_push_def heapless_try_push_def
      rtrb_try_pop_def nexus_try_pop_def ringbuf_try_pop_def heapless_try_pop_def forward_push_def forward_pop_def
      recv_ok_def sum.map_id split: prod.splits)

lemmas adapter_forms = channel_forms ring_forms

interpretation sync: foreign_queue sync_try_send "recv_ok sync_try_recv" channel_item buffer
    "\<lambda>ch. 0 < bound ch \<and> receiver_alive ch"
  by unfold_locales
    (auto simp: sync_try_send_def recv_ok_def sync_try_recv_def channel_item_def)

lemma bus_never_laps:
  "bus_try_read try_recv q c = Inr (r, st) \<Longrightarrow> r \<noteq> SLapped k"
  by (auto simp: bus_try_read_def split: prod.splits sum.splits try_recv_error.splits)

lemma length_add_receivers: "length (fst (add_receivers add_rx n q)) = n"
  by (induction n arbitrary: q) (auto split: prod.splits simp: prod_eq_iff)

lemma bus_new_consumers: "length (snd (bus_new make_bus add_rx c n)) = n"
  using length_add_receivers [of add_rx n "make_bus c"] by (simp add: bus_new_def case_prod_unfold)

section \<open>The handoff benchmark over an adapter\<close>

lemma adapted_handoff:
  assumes "foreign_queue send recv unwrap contents invar" "invar s" "contents s = []"
    and "handoff_reach (forward_push unwrap send) (forward_pop recv) accepts cfg s (b, left)"
  shows "handoff_step (forward_push unwrap send) (forward_pop recv) accepts (cfg_warmup cfg) (b, left) e \<noteq> Some (Inl f) \<and>
    (phase_of b = Finished \<longrightarrow> length (sent b) = cfg_n cfg \<and> map fst (got b) = sent b \<and>
       hist_of b = filter accepts (map (\<lambda>(ts, now). now - ts) (drop (cfg_warmup cfg) (got b))))"
proof -
  let ?push = "forward_push unwrap send" and ?pop = "forward_pop recv :: 'a \<Rightarrow> fault + (u64 option \<times> 'a)"
  note bench = foreign_queue.adapted_bench [OF assms(1)]
  note stamps = stamp_bench.intro [OF bench]
  from stamp_bench.handoff_reach_inv [OF stamps assms(4,2,3)]
  have inv: "stamp_bench.handoff_inv contents invar accepts cfg b left" by simp
  then have b: "spsc_bench.bench_inv contents invar (age accepts) (cfg_warmup cfg) [] b"
    by (simp add: stamp_bench.handoff_inv_def [OF stamps])
  from inv have "phase_of b = Finished \<Longrightarrow> length (sent b) = cfg_n cfg"
    using spsc_bench.bench_invD(2) [OF bench b] by (auto simp: stamp_bench.handoff_inv_def [OF stamps])
  with spsc_bench.bench_invD(3,4) [OF bench b] stamp_bench.handoff_step_inv [OF stamps inv, of e "Inl f"]
  show ?thesis by (auto simp: samples_age)
qed

section \<open>Properties\<close>

text \<open>C31: The handoff benchmark is right over an adapted channel: over \<open>crossbeam_channel\<close> or \<open>flume\<close>, if the
  package keeps its documented contract, no step panics, and when the consumer thread ends it has popped
  all \<open>n\<close> stamps in order, and its histogram holds, of the ages of all but the first \<open>warmup\<close>, those that
  \<open>record\<close> takes, in order; and so it is over the standard library's \<open>sync_channel\<close>, whatever its bound
  above zero, with nothing assumed.
\<close>

theorem channel_handoff_exact:
  assumes "foreign_queue try_send (recv_ok try_recv) channel_item contents invar" "invar s" "contents s = []"
    and "(try_push, try_pop) \<in>
      {(cbchan_try_push try_send, cbchan_try_pop try_recv), (flume_try_push try_send, flume_try_pop try_recv)}"
    and "handoff_reach try_push try_pop accepts cfg s (b, left)"
    and "handoff_reach stdmpsc_try_push stdmpsc_try_pop accepts cfg' (stdmpsc_new c) (b', left')" "0 < c"
  shows "handoff_step try_push try_pop accepts (cfg_warmup cfg) (b, left) e \<noteq> Some (Inl f) \<and>
    handoff_step stdmpsc_try_push stdmpsc_try_pop accepts (cfg_warmup cfg') (b', left') e \<noteq> Some (Inl f) \<and>
    (phase_of b = Finished \<longrightarrow> length (sent b) = cfg_n cfg \<and> map fst (got b) = sent b \<and>
       hist_of b = filter accepts (map (\<lambda>(ts, now). now - ts) (drop (cfg_warmup cfg) (got b)))) \<and>
    (phase_of b' = Finished \<longrightarrow> length (sent b') = cfg_n cfg' \<and> map fst (got b') = sent b' \<and>
       hist_of b' = filter accepts (map (\<lambda>(ts, now). now - ts) (drop (cfg_warmup cfg') (got b'))))"
proof -
  have forms: "try_push = forward_push channel_item try_send" "try_pop = forward_pop (recv_ok try_recv)"
    using assms(4) by (auto simp: channel_forms)
  note ours = adapted_handoff [OF assms(1-3) assms(5) [unfolded forms]]
  have "0 < bound (stdmpsc_new c) \<and> receiver_alive (stdmpsc_new c)" "buffer (stdmpsc_new c) = []"
    using assms(7) by (simp_all add: stdmpsc_new_def sync_channel_new_def)
  note std = adapted_handoff [OF sync.foreign_queue_axioms this assms(6) [unfolded channel_forms]]
  show ?thesis unfolding forms channel_forms using ours std by blast
qed

lemma demo_channel_run:
  "map_option (map_sum id (\<lambda>(b, left). (phase_of b, hist_of b)))
     (handoff_run stdmpsc_try_push stdmpsc_try_pop (\<lambda>_. True) 1 (bench_new (stdmpsc_new 2) [], 3) handoff_events) =
   Some (Inr (Finished, [30, 20]))"
  by code_simp

theorem channel_handoff_exact_witness:
  "\<exists>b left. handoff_reach (cbchan_try_push sync_try_send) (cbchan_try_pop sync_try_recv) (\<lambda>_. True)
       \<lparr>cfg_n = 3, cfg_warmup = 1\<rparr> (stdmpsc_new 2) (b, left) \<and>
     phase_of b = Finished \<and> length (sent b) = 3 \<and> map fst (got b) = sent b \<and>
     map (\<lambda>(ts, now). now - ts) (drop 1 (got b)) = [30, 20]"
proof -
  let ?cfg = "\<lparr>cfg_n = 3, cfg_warmup = 1\<rparr>"
  from demo_channel_run obtain z where
    z: "handoff_run stdmpsc_try_push stdmpsc_try_pop (\<lambda>_. True) 1 (bench_new (stdmpsc_new 2) [], 3) handoff_events = Some (Inr z)"
      "(case z of (b, left) \<Rightarrow> (phase_of b, hist_of b)) = (Finished, [30, 20])"
    unfolding map_run_iff by blast
  obtain b left where "z = (b, left)" by (cases z)
  with z have run: "handoff_run stdmpsc_try_push stdmpsc_try_pop (\<lambda>_. True) 1 (bench_new (stdmpsc_new 2) [], 3) handoff_events =
      Some (Inr (b, left))" and b: "phase_of b = Finished" "hist_of b = [30, 20]" by simp_all
  have "handoff_reach stdmpsc_try_push stdmpsc_try_pop (\<lambda>_. True) ?cfg (stdmpsc_new 2) (bench_new (stdmpsc_new 2) [], 3)"
    using handoff_init [of stdmpsc_try_push stdmpsc_try_pop "\<lambda>_. True" ?cfg "stdmpsc_new 2"] by simp
  from handoff_reach_run [OF this, of handoff_events "(b, left)"] run
  have reach: "handoff_reach stdmpsc_try_push stdmpsc_try_pop (\<lambda>_. True) ?cfg (stdmpsc_new 2) (b, left)" by simp
  have same: "cbchan_try_push sync_try_send = stdmpsc_try_push" "cbchan_try_pop sync_try_recv = stdmpsc_try_pop"
    by (simp_all add: channel_forms)
  have "0 < bound (stdmpsc_new 2) \<and> receiver_alive (stdmpsc_new 2)" "buffer (stdmpsc_new 2) = []"
    by (simp_all add: stdmpsc_new_def sync_channel_new_def)
  from channel_handoff_exact [OF sync.foreign_queue_axioms this _ _ reach, of "cbchan_try_push sync_try_send"
      "cbchan_try_pop sync_try_recv" ?cfg b left] reach b
  show ?thesis by (auto simp: same)
qed

end
