(* ===== verification/Drivers.thy ===== *)
theory Drivers
  imports Bench_Spsc Bench_Spmc Adapters Preflight
begin

text \<open>
  The mains of the benchmarks, \<open>src/examples/spsc\<close> and \<open>src/examples/spmc\<close>: what the environment
  variables select, and when a main panics instead of measuring. The environment is a parameter,
  \<open>env name\<close> is what \<open>std::env::var\<close> finds, and so are the cargo features of the build. Also the
  calibration of the clock, \<open>bench/tsc.rs\<close>.
\<close>

section \<open>The clock\<close>

text \<open>
  \<open>calibrate_hz\<close> of the two readings of the counter and the nanoseconds that passed: the product is in 128
  bits, the quotient is cut to 64. \<open>None\<close> is the panic of a division by zero; the subtraction wraps in a
  release build, the only one the benchmarks run in.
\<close>

definition calibrate_hz :: "u64 \<Rightarrow> u64 \<Rightarrow> u128 \<Rightarrow> u64 option" where
  "calibrate_hz t0 t1 elapsed_ns =
     (if elapsed_ns = 0 then None else Some (ucast ((ucast (t1 - t0) * 1000000000 :: u128) div elapsed_ns)))"

section \<open>Variables of the environment\<close>

type_synonym environment = "string \<Rightarrow> string option"

text \<open>\<open>parse_rates\<close> and \<open>parse_delays\<close>; \<open>None\<close> is the panic on a part that is no number.\<close>

definition parse_u64 :: "string \<Rightarrow> u64 option" where
  "parse_u64 t = map_option of_nat (parse_unsigned t)"

definition parse_rates :: "string \<Rightarrow> u64 list option" where
  "parse_rates s = those (map parse_u64 (filter (\<lambda>t. t \<noteq> []) (map trim (split_at (CHR '','') s))))"

definition parse_delays :: "string \<Rightarrow> u64 list option" where
  "parse_delays s = those (map parse_u64 (filter (\<lambda>t. t \<noteq> []) (map trim (split_at (CHR '','') s))))"

definition throttled_cfg_of :: "environment \<Rightarrow> throttled_cfg option" where
  "throttled_cfg_of env =
     (case (case env ''BENCH_RATES'' of
              Some s \<Rightarrow> map_option (\<lambda>rates. default_throttled_cfg\<lparr>rates_hz := rates\<rparr>) (parse_rates s)
            | None \<Rightarrow> Some default_throttled_cfg) of
        Some cfg \<Rightarrow> Some (cfg\<lparr>capture_sys_latency :=
            (case env ''BENCH_DEBUG'' of Some v \<Rightarrow> v = ''1'' | None \<Rightarrow> False)\<rparr>)
      | None \<Rightarrow> None)"

text \<open>A run length that is no number is ignored.\<close>

definition run_secs_of :: "environment \<Rightarrow> u64 \<Rightarrow> u64" where
  "run_secs_of env secs =
     (case env ''BENCH_RUN_SECS'' of
        Some s \<Rightarrow> (case parse_u64 s of Some n \<Rightarrow> n | None \<Rightarrow> secs)
      | None \<Rightarrow> secs)"

definition lapped_cfg_of :: "environment \<Rightarrow> lapped_cfg option" where
  "lapped_cfg_of env =
     (case (case env ''BENCH_DELAYS'' of
              Some s \<Rightarrow> map_option (\<lambda>delays. default_lapped_cfg\<lparr>delays_cycles := delays\<rparr>) (parse_delays s)
            | None \<Rightarrow> Some default_lapped_cfg) of
        Some cfg \<Rightarrow> Some (cfg\<lparr>run_secs := run_secs_of env (run_secs cfg)\<rparr>)
      | None \<Rightarrow> None)"

section \<open>The implementation under test\<close>

datatype spsc_impl = Ours | Rtrb | Ringbuf | Heapless | Nexus | CrossbeamChannel | Flume | StdMpsc

text \<open>The \<open>NAME\<close> constants of the adapters.\<close>

definition ours_NAME :: string where "ours_NAME = ''ours''"

definition rtrb_NAME :: string where "rtrb_NAME = ''rtrb''"

definition ringbuf_NAME :: string where "ringbuf_NAME = ''ringbuf''"

definition heapless_NAME :: string where "heapless_NAME = ''heapless''"

definition nexus_NAME :: string where "nexus_NAME = ''nexus''"

definition cbchan_NAME :: string where "cbchan_NAME = ''crossbeam-channel''"

definition flume_NAME :: string where "flume_NAME = ''flume''"

definition stdmpsc_NAME :: string where "stdmpsc_NAME = ''std-mpsc''"

definition bus_NAME :: string where "bus_NAME = ''bus''"

fun spsc_name :: "spsc_impl \<Rightarrow> string" where
  "spsc_name Ours = ours_NAME"
| "spsc_name Rtrb = rtrb_NAME"
| "spsc_name Ringbuf = ringbuf_NAME"
| "spsc_name Heapless = heapless_NAME"
| "spsc_name Nexus = nexus_NAME"
| "spsc_name CrossbeamChannel = cbchan_NAME"
| "spsc_name Flume = flume_NAME"
| "spsc_name StdMpsc = stdmpsc_NAME"

text \<open>The adapters a build contains (\<open>adapters/mod.rs\<close>).\<close>

fun compiled :: "(string \<Rightarrow> bool) \<Rightarrow> spsc_impl \<Rightarrow> bool" where
  "compiled feature Ours = True"
| "compiled feature Rtrb = feature ''_bench_rtrb''"
| "compiled feature Ringbuf = feature ''_bench_ringbuf''"
| "compiled feature Heapless = feature ''_bench_heapless''"
| "compiled feature Nexus = feature ''_bench_nexus''"
| "compiled feature CrossbeamChannel = feature ''_bench_cbchan''"
| "compiled feature Flume = feature ''_bench_flume''"
| "compiled feature StdMpsc = feature ''_bench_stdmpsc''"

definition impl_variable :: "environment \<Rightarrow> string" where
  "impl_variable env = (case env ''BENCH_IMPL'' of Some s \<Rightarrow> s | None \<Rightarrow> ''ours'')"

text \<open>The \<open>match\<close> of the SPSC mains, its arms in order, the gated ones only with their feature.\<close>

definition select_spsc :: "(string \<Rightarrow> bool) \<Rightarrow> string \<Rightarrow> spsc_impl option" where
  "select_spsc feature name =
     (if name = ''ours'' then Some Ours
      else if feature ''_bench_rtrb'' \<and> name = ''rtrb'' then Some Rtrb
      else if feature ''_bench_ringbuf'' \<and> name = ''ringbuf'' then Some Ringbuf
      else if feature ''_bench_heapless'' \<and> name = ''heapless'' then Some Heapless
      else if feature ''_bench_nexus'' \<and> name = ''nexus'' then Some Nexus
      else if feature ''_bench_cbchan'' \<and> name = ''crossbeam-channel'' then Some CrossbeamChannel
      else if feature ''_bench_flume'' \<and> name = ''flume'' then Some Flume
      else if feature ''_bench_stdmpsc'' \<and> name = ''std-mpsc'' then Some StdMpsc
      else None)"

datatype spmc_impl = OursSpmc | BusSpmc

definition select_spmc :: "(string \<Rightarrow> bool) \<Rightarrow> string \<Rightarrow> spmc_impl option" where
  "select_spmc feature name =
     (if name = ''ours'' then Some OursSpmc
      else if feature ''_bench_bus'' \<and> name = ''bus'' then Some BusSpmc
      else None)"

section \<open>The mains\<close>

text \<open>
  What a main hands to the benchmark core, or why it panics. \<open>ctx\<close> is what \<open>discover_and_preflight\<close> returns.
\<close>

datatype main_panic = NotPrepared | InvalidNumber | UnknownImpl string

definition throttled_capacity :: nat where
  "throttled_capacity = 4096"

definition throttled_main ::
  "two_core_ctx option \<Rightarrow> (string \<Rightarrow> bool) \<Rightarrow> environment \<Rightarrow>
     main_panic + (spsc_impl \<times> nat \<times> two_core_ctx \<times> throttled_cfg)" where
  "throttled_main prepared feature env =
     (case prepared of
        None \<Rightarrow> Inl NotPrepared
      | Some ctx \<Rightarrow>
          (case throttled_cfg_of env of
             None \<Rightarrow> Inl InvalidNumber
           | Some cfg \<Rightarrow>
               (case select_spsc feature (impl_variable env) of
                  None \<Rightarrow> Inl (UnknownImpl (impl_variable env))
                | Some i \<Rightarrow> Inr (i, throttled_capacity, ctx, cfg))))"

definition spsc_handoff_main ::
  "two_core_ctx option \<Rightarrow> (string \<Rightarrow> bool) \<Rightarrow> environment \<Rightarrow>
     main_panic + (spsc_impl \<times> nat \<times> two_core_ctx \<times> handoff_cfg)" where
  "spsc_handoff_main prepared feature env =
     (case prepared of
        None \<Rightarrow> Inl NotPrepared
      | Some ctx \<Rightarrow>
          (case select_spsc feature (impl_variable env) of
             None \<Rightarrow> Inl (UnknownImpl (impl_variable env))
           | Some i \<Rightarrow> Inr (i, 1, ctx, default_handoff_cfg)))"

definition spmc_handoff_main ::
  "two_core_ctx option \<Rightarrow> (string \<Rightarrow> bool) \<Rightarrow> environment \<Rightarrow>
     main_panic + (spmc_impl \<times> nat \<times> two_core_ctx \<times> spmc_handoff_cfg)" where
  "spmc_handoff_main prepared feature env =
     (case prepared of
        None \<Rightarrow> Inl NotPrepared
      | Some ctx \<Rightarrow>
          (case select_spmc feature (impl_variable env) of
             None \<Rightarrow> Inl (UnknownImpl (impl_variable env))
           | Some i \<Rightarrow> Inr (i, 1, ctx, default_spmc_handoff_cfg)))"

definition lapped_capacity :: nat where
  "lapped_capacity = 128"

definition lapped_main ::
  "two_core_ctx option \<Rightarrow> environment \<Rightarrow> main_panic + (spmc_impl \<times> nat \<times> two_core_ctx \<times> lapped_cfg)" where
  "lapped_main prepared env =
     (case prepared of
        None \<Rightarrow> Inl NotPrepared
      | Some ctx \<Rightarrow>
          (case lapped_cfg_of env of
             None \<Rightarrow> Inl InvalidNumber
           | Some cfg \<Rightarrow>
               if impl_variable env = ''ours'' then Inr (OursSpmc, lapped_capacity, ctx, cfg)
               else Inl (UnknownImpl (impl_variable env))))"

definition default_capacity_run_secs :: u64 where
  "default_capacity_run_secs = 2"

definition sweep_capacities :: "nat list" where
  "sweep_capacities = [16, 256, 4096, 65536, 1048576]"

text \<open>The runs of the capacity sweep: implementation, capacity and run length of each.\<close>

definition capacity_main ::
  "two_core_ctx option \<Rightarrow> (string \<Rightarrow> bool) \<Rightarrow> environment \<Rightarrow> main_panic + (spmc_impl \<times> nat \<times> u64) list" where
  "capacity_main prepared feature env =
     (case prepared of
        None \<Rightarrow> Inl NotPrepared
      | Some ctx \<Rightarrow>
          let secs = run_secs_of env default_capacity_run_secs
          in (case select_spmc feature (impl_variable env) of
                None \<Rightarrow> Inl (UnknownImpl (impl_variable env))
              | Some i \<Rightarrow> Inr (map (\<lambda>cap. (i, cap, secs)) sweep_capacities)))"

section \<open>Reading lists of numbers\<close>

text \<open>
  A list of numbers as a user may write it: parts between commas, each blank (\<open>None\<close>) or a decimal number,
  with any blanks around it.
\<close>

type_synonym spaced = "string \<times> nat option \<times> string"

fun part_text :: "spaced \<Rightarrow> string" where
  "part_text (l, n, r) = l @ (case n of None \<Rightarrow> [] | Some n \<Rightarrow> show_nat n) @ r"

fun parts_text :: "spaced list \<Rightarrow> string" where
  "parts_text [] = []"
| "parts_text [p] = part_text p"
| "parts_text (p # ps) = part_text p @ CHR '','' # parts_text ps"

definition well_spaced :: "spaced \<Rightarrow> bool" where
  "well_spaced p \<longleftrightarrow>
     (case p of (l, n, r) \<Rightarrow> list_all is_space l \<and> list_all is_space r \<and> (case n of None \<Rightarrow> True | Some n \<Rightarrow> n < 2 ^ 64))"

definition numbers_of :: "spaced list \<Rightarrow> u64 list" where
  "numbers_of ps = map of_nat (List.map_filter (\<lambda>(l, n, r). n) ps)"

lemma trim_spaces:
  assumes "list_all is_space l" "list_all is_space r"
  shows "trim (l @ r) = []" "plain w \<Longrightarrow> trim (l @ w @ r) = w"
proof -
  have drop: "dropWhile is_space (xs @ ys) = dropWhile is_space ys" if "list_all is_space xs" for xs ys
    using that by (induction xs) simp_all
  have all: "dropWhile is_space xs = []" if "list_all is_space xs" for xs
    using drop [OF that, of "[]"] by simp
  from assms show "trim (l @ r) = []" by (simp add: trim_def trim_start_def drop all)
  assume w: "plain w"
  then have "dropWhile is_space (w @ r) = w @ r" by (cases w) (auto simp: plain_def)
  moreover from w have "dropWhile is_space (rev w) = rev w" by (cases w rule: rev_cases) (auto simp: plain_def)
  moreover have "list_all is_space (rev r)" using assms(2) by (simp add: list_all_iff)
  ultimately show "trim (l @ w @ r) = w"
    using assms(1) by (simp add: trim_def trim_start_def drop)
qed

lemma trim_part:
  assumes "well_spaced (l, n, r)"
  shows "trim (part_text (l, n, r)) = (case n of None \<Rightarrow> [] | Some n \<Rightarrow> show_nat n)"
  using assms trim_spaces [of l r] plain_show_nat
  by (cases n) (auto simp: well_spaced_def)

lemma comma_not_in_part: "well_spaced p \<Longrightarrow> CHR '','' \<notin> set (part_text p)"
  using show_nat_free(2)
  by (cases p) (auto simp: well_spaced_def list_all_iff is_space_def split: option.splits)

lemma split_parts: "ps \<noteq> [] \<Longrightarrow> list_all well_spaced ps \<Longrightarrow> split_at (CHR '','') (parts_text ps) = map part_text ps"
  by (induction ps rule: parts_text.induct)
    (simp_all add: split_at_single split_at_append comma_not_in_part)

lemma parse_parts:
  assumes "list_all well_spaced ps"
  shows "those (map parse_u64 (filter (\<lambda>t. t \<noteq> []) (map trim (map part_text ps)))) = Some (numbers_of ps)"
  using assms
proof (induction ps)
  case (Cons p ps)
  obtain l n r where p: "p = (l, n, r)" by (cases p)
  with Cons trim_part [of l n r] show ?case
    by (cases n) (auto simp: numbers_of_def map_filter_simps parse_u64_def parse_show well_spaced_def
        simp del: part_text.simps)
qed (simp add: numbers_of_def map_filter_simps)

lemma parse_rates_parts: "list_all well_spaced ps \<Longrightarrow> parse_rates (parts_text ps) = Some (numbers_of ps)"
  using parse_parts [of ps] split_parts [of ps]
  by (cases "ps = []") (simp_all add: parse_rates_def numbers_of_def map_filter_simps trim_def trim_start_def)

lemma those_None: "those xs = None \<longleftrightarrow> None \<in> set xs"
  by (induction xs) (auto split: option.splits)

lemma select_by_name: "select_spsc feature (spsc_name i) = (if compiled feature i then Some i else None)"
  by (cases i) (simp_all add: select_spsc_def ours_NAME_def rtrb_NAME_def ringbuf_NAME_def heapless_NAME_def
      nexus_NAME_def cbchan_NAME_def flume_NAME_def stdmpsc_NAME_def)

lemma calibrate_value:
  assumes "calibrate_hz t0 t1 elapsed_ns = Some hz" "t0 \<le> t1"
  shows "0 < unat elapsed_ns"
    "unat hz = (unat t1 - unat t0) * 1000000000 div unat elapsed_ns mod 2 ^ 64"
proof -
  from assms(1) have pos: "elapsed_ns \<noteq> 0" and
    hz: "hz = ucast ((ucast (t1 - t0) * 1000000000 :: u128) div elapsed_ns)"
    by (auto simp: calibrate_hz_def split: if_splits)
  from pos show "0 < unat elapsed_ns" by (simp add: unat_gt_0)
  have d: "unat (t1 - t0) = unat t1 - unat t0" using assms(2) by (rule unat_sub)
  have "unat (t1 - t0) < 2 ^ 64" using unsigned_less [of "t1 - t0"] by simp
  then have "unat (ucast (t1 - t0) * 1000000000 :: u128) = unat (t1 - t0) * 1000000000"
    by (simp add: unat_word_ariths unat_ucast_64_128)
  then show "unat hz = (unat t1 - unat t0) * 1000000000 div unat elapsed_ns mod 2 ^ 64"
    unfolding hz by (simp add: unsigned_ucast_eq take_bit_eq_mod unat_div d)
qed

section \<open>Properties\<close>

text \<open>The throttled benchmark runs what the environment asks for: with \<open>BENCH_RATES\<close> a list of numbers
  between commas, blank parts and blanks around the numbers allowed, and \<open>BENCH_IMPL\<close> the name an
  adapter gives itself, it measures that adapter at those rates in that order, or panics if the build
  lacks the adapter. It captures the system latency exactly if \<open>BENCH_DEBUG\<close> is \<open>1\<close>. With a part that
  is neither blank nor a number it panics.
\<close>

theorem throttled_main_runs:
  assumes "env ''BENCH_IMPL'' = Some (spsc_name i)" "env ''BENCH_RATES'' = Some rates"
  shows "(list_all well_spaced ps \<and> rates = parts_text ps \<longrightarrow>
      throttled_main (Some ctx) feature env =
        (if compiled feature i
         then Inr (i, 4096, ctx, default_throttled_cfg
           \<lparr>rates_hz := numbers_of ps, capture_sys_latency := (env ''BENCH_DEBUG'' = Some ''1'')\<rparr>)
         else Inl (UnknownImpl (spsc_name i)))) \<and>
    ((\<exists>t\<in>set (split_at (CHR '','') rates). trim t \<noteq> [] \<and> parse_unsigned (trim t) = None) \<longrightarrow>
      throttled_main (Some ctx) feature env = Inl InvalidNumber)"
proof (intro conjI impI)
  have name: "impl_variable env = spsc_name i" using assms(1) by (simp add: impl_variable_def)
  have debug: "(case env ''BENCH_DEBUG'' of Some v \<Rightarrow> v = ''1'' | None \<Rightarrow> False) \<longleftrightarrow> env ''BENCH_DEBUG'' = Some ''1''"
    by (auto split: option.split)
  assume "list_all well_spaced ps \<and> rates = parts_text ps"
  then have "parse_rates rates = Some (numbers_of ps)" by (simp add: parse_rates_parts)
  then have "throttled_cfg_of env = Some (default_throttled_cfg
      \<lparr>rates_hz := numbers_of ps, capture_sys_latency := (env ''BENCH_DEBUG'' = Some ''1'')\<rparr>)"
    by (simp add: throttled_cfg_of_def assms(2) debug)
  then show "throttled_main (Some ctx) feature env =
      (if compiled feature i
       then Inr (i, 4096, ctx, default_throttled_cfg
         \<lparr>rates_hz := numbers_of ps, capture_sys_latency := (env ''BENCH_DEBUG'' = Some ''1'')\<rparr>)
       else Inl (UnknownImpl (spsc_name i)))"
    by (simp add: throttled_main_def throttled_capacity_def name select_by_name)
next
  assume "\<exists>t\<in>set (split_at (CHR '','') rates). trim t \<noteq> [] \<and> parse_unsigned (trim t) = None"
  then have "parse_rates rates = None"
    unfolding parse_rates_def those_None by (force simp: parse_u64_def)
  then show "throttled_main (Some ctx) feature env = Inl InvalidNumber"
    by (simp add: throttled_main_def throttled_cfg_of_def assms(2))
qed

definition demo_env :: environment where
  "demo_env = [''BENCH_IMPL'' \<mapsto> ''flume'', ''BENCH_RATES'' \<mapsto> ''1000, ,25'', ''BENCH_DEBUG'' \<mapsto> ''1'']"

theorem throttled_main_runs_witness:
  "\<exists>cfg. throttled_main (Some \<lparr>producer_core = 2, consumer_core = 3, ctx_tsc_hz = 1000\<rparr>)
      (\<lambda>f. f = ''_bench_flume'') demo_env =
    Inr (Flume, 4096, \<lparr>producer_core = 2, consumer_core = 3, ctx_tsc_hz = 1000\<rparr>, cfg) \<and>
    rates_hz cfg = [1000, 25] \<and> capture_sys_latency cfg"
proof -
  let ?ps = "[([], Some 1000, []), ('' '', None, []), ([], Some 25, [])] :: spaced list"
  have written: "parts_text ?ps = ''1000, ,25''"
    by code_simp
  have env: "demo_env ''BENCH_IMPL'' = Some (spsc_name Flume)" "demo_env ''BENCH_RATES'' = Some (parts_text ?ps)"
    "demo_env ''BENCH_DEBUG'' = Some ''1''"
    unfolding written by (simp_all add: demo_env_def flume_NAME_def)
  have "list_all well_spaced ?ps" by (simp add: well_spaced_def)
  moreover have "numbers_of ?ps = [1000, 25]" by (simp add: numbers_of_def map_filter_simps)
  ultimately show ?thesis
    using throttled_main_runs [OF env(1,2), of ?ps _ "\<lambda>f. f = ''_bench_flume''"] env(3) by simp
qed

text \<open>
  The frequency the calibration reports is right to one Hertz: over the time that passed, the counter
  moved at least at that frequency and at less than one Hertz more, when the frequency fits 64 bits.
\<close>

theorem calibrate_hz_bounds:
  assumes "calibrate_hz t0 t1 elapsed_ns = Some hz" "t0 \<le> t1"
    and "(unat t1 - unat t0) * 1000000000 div unat elapsed_ns < 2 ^ 64"
  shows "unat hz * unat elapsed_ns \<le> (unat t1 - unat t0) * 1000000000 \<and>
    (unat t1 - unat t0) * 1000000000 < (unat hz + 1) * unat elapsed_ns"
proof -
  note v = calibrate_value [OF assms(1,2)]
  from v(2) assms(3) have "unat hz = (unat t1 - unat t0) * 1000000000 div unat elapsed_ns" by simp
  with v(1) show ?thesis by (simp add: dividend_less_div_times)
qed

theorem calibrate_hz_bounds_witness:
  "\<exists>hz. calibrate_hz 1000 600001000 200000000 = Some hz \<and> unat hz * 200000000 \<le> 600000000 * 1000000000"
proof -
  have c: "calibrate_hz 1000 600001000 200000000 = Some 3000000000" by (simp add: calibrate_hz_def)
  have "(1000 :: u64) \<le> 600001000"
    "(unat (600001000 :: u64) - unat (1000 :: u64)) * 1000000000 div unat (200000000 :: u128) < 2 ^ 64" by simp_all
  from calibrate_hz_bounds [OF c this] c show ?thesis by simp
qed

section \<open>The main of the seqlock benchmark\<close>

text \<open>
  \<open>examples/seqlock/bench_handoff.rs\<close> does not use the harness: it repeats the checks and the preparation,
  and takes the first core for the writer and the second for the reader. \<open>None\<close> is a panic.
\<close>

definition seqlock_preflight :: "file_system \<Rightarrow> bool \<Rightarrow> nat list \<Rightarrow> preflight_report" where
  "seqlock_preflight fs debug_assertions used_cores =
     (let r = release_build debug_assertions report_new;
          r = cores_online fs used_cores r;
          r = cores_isolated fs used_cores r;
          r = cores_nohz_full fs used_cores r;
          r = cores_performance_governor fs used_cores r;
          r = turbo_disabled fs r;
          r = cores_distinct_physical fs used_cores r;
          r = cores_smt_siblings_quiet fs used_cores r;
          r = cores_share_l3 fs used_cores r
      in tsc_invariant_and_nonstop fs r)"

definition seqlock_main :: "file_system \<Rightarrow> bool \<Rightarrow> nat list option \<Rightarrow> int \<Rightarrow> (nat \<times> nat) option" where
  "seqlock_main fs debug_assertions core_ids mlockall_rc =
     (case core_ids of
        Some (writer_core # reader_core # _) \<Rightarrow>
          if snd (finish (seqlock_preflight fs debug_assertions [writer_core, reader_core])) then None
          else if mlockall_rc \<noteq> 0 then None
          else Some (writer_core, reader_core)
      | _ \<Rightarrow> None)"

text \<open>It goes on exactly when the harness would, on the same cores in the same roles.\<close>

theorem seqlock_main_decides:
  "seqlock_main fs debug core_ids mlockall_rc =
     map_option (\<lambda>ctx. (producer_core ctx, consumer_core ctx)) (discover_and_preflight fs debug core_ids mlockall_rc hz)"
  by (simp add: seqlock_main_def discover_and_preflight_def seqlock_preflight_def two_core_report_def
      split: option.split list.split)

end
