(* ===== verification/Floats.thy ===== *)
theory Floats
  imports Prelude Complex_Main
begin

text \<open>
  The \<open>f64\<close> arithmetic of the printed figures. A finite non-negative \<open>f64\<close> is a multiple of
  \<open>2\<^sup>-\<^sup>1\<^sup>0\<^sup>7\<^sup>4\<close>, and is kept as that multiple. \<open>as f64\<close>, \<open>/\<close> and \<open>*\<close> round the exact
  result to 53 bits, ties to even, and so does \<open>{:.2}\<close> to two decimals. Overflow to infinity does not
  occur for the quotients of 64-bit integers that the crate prints.
\<close>

section \<open>Rounding\<close>

fun ilog2 :: "nat \<Rightarrow> nat" where
  "ilog2 n = (if n < 2 then 0 else Suc (ilog2 (n div 2)))"

declare ilog2.simps [simp del]

text \<open>\<open>n / d\<close> to the nearest integer, a tie to the even one.\<close>

definition round_half_even :: "nat \<Rightarrow> nat \<Rightarrow> nat" where
  "round_half_even n d =
     (let q = n div d; r = n mod d
      in if 2 * r < d \<or> 2 * r = d \<and> even q then q else Suc q)"

type_synonym f64 = nat

definition f64_one :: f64 where
  "f64_one = 2 ^ 1074"

text \<open>The \<open>f64\<close> nearest to \<open>n / d\<close>: 53 bits from the leading one on, no finer than \<open>2\<^sup>-\<^sup>1\<^sup>0\<^sup>7\<^sup>4\<close>.\<close>

definition f64_of_ratio :: "nat \<Rightarrow> nat \<Rightarrow> f64" where
  "f64_of_ratio n d =
     (let q = n * f64_one; u = 2 ^ (ilog2 (q div d) - 52) in round_half_even q (d * u) * u)"

definition f64_of_nat :: "nat \<Rightarrow> f64" where
  "f64_of_nat n = f64_of_ratio n 1"

definition f64_div :: "f64 \<Rightarrow> f64 \<Rightarrow> f64" where
  "f64_div a b = f64_of_ratio a b"

definition f64_mul :: "f64 \<Rightarrow> f64 \<Rightarrow> f64" where
  "f64_mul a b = f64_of_ratio (a * b) (f64_one * f64_one)"

text \<open>\<open>{:.p}\<close>: the number of units of \<open>10\<^sup>-\<^sup>p\<close> that are printed.\<close>

definition f64_fixed :: "nat \<Rightarrow> f64 \<Rightarrow> nat" where
  "f64_fixed p a = round_half_even (10 ^ p * a) f64_one"

section \<open>Errors\<close>

lemma ilog2_bounds: "0 < n \<Longrightarrow> 2 ^ ilog2 n \<le> n \<and> n < 2 ^ Suc (ilog2 n)"
proof (induction n rule: ilog2.induct)
  case (1 n)
  show ?case
  proof (cases "n < 2")
    case True
    with "1.prems" show ?thesis by (simp add: ilog2.simps)
  next
    case False
    have "0 < n div 2" using False by simp
    from "1.IH" [OF False this] have ih: "2 ^ ilog2 (n div 2) \<le> n div 2" "n div 2 < 2 ^ Suc (ilog2 (n div 2))" by simp_all
    have e: "ilog2 n = Suc (ilog2 (n div 2))" using False by (simp add: ilog2.simps [of n])
    have "2 * 2 ^ ilog2 (n div 2) \<le> n" using ih(1) by linarith
    moreover have "n < 2 * 2 ^ Suc (ilog2 (n div 2))" using ih(2) by linarith
    ultimately show ?thesis unfolding e by simp
  qed
qed

lemma round_half_even_error:
  assumes "0 < d"
  shows "\<bar>real (round_half_even n d) - real n / real d\<bar> \<le> 1 / 2"
proof -
  let ?q = "n div d" and ?r = "n mod d"
  have n: "real n = real ?q * real d + real ?r"
    by (metis div_mult_mod_eq of_nat_add of_nat_mult)
  have r: "real ?r < real d" using assms by simp
  have "real n / real d = real ?q + real ?r / real d" using assms by (simp add: n add_divide_distrib)
  moreover have "2 * ?r \<le> d \<Longrightarrow> real ?r / real d \<le> 1 / 2" using assms by (simp add: divide_le_eq)
  moreover have "d \<le> 2 * ?r \<Longrightarrow> 1 / 2 \<le> real ?r / real d" using assms by (simp add: le_divide_eq)
  moreover have "0 \<le> real ?r / real d" "real ?r / real d < 1" using r assms by simp_all
  ultimately show ?thesis
    by (auto simp: round_half_even_def Let_def abs_le_iff not_less)
qed

lemma round_half_even_exact: "0 < d \<Longrightarrow> round_half_even (k * d) d = k"
  by (simp add: round_half_even_def)

lemma f64_one_pos [simp]: "0 < f64_one"
  by (simp add: f64_one_def)

text \<open>A result that is not subnormal is off by at most one part in \<open>2\<^sup>5\<^sup>3\<close>.\<close>

lemma f64_of_ratio_error:
  assumes "0 < d" "d \<le> n * 2 ^ 1022"
  shows "\<bar>real (f64_of_ratio n d) - real n * real f64_one / real d\<bar> \<le> real n * real f64_one / real d / 2 ^ 53"
proof -
  define q where "q = n * f64_one"
  define E where "E = ilog2 (q div d)"
  define u :: nat where "u = 2 ^ (E - 52)"
  have up: "0 < u" by (simp add: u_def)
  have "d * 2 ^ 52 \<le> n * 2 ^ 1022 * 2 ^ 52" using assms(2) by simp
  also have "\<dots> = q" by (simp add: q_def f64_one_def power_add [symmetric] mult.assoc)
  finally have dq: "d * 2 ^ 52 \<le> q" .
  then have "2 ^ 52 \<le> q div d" using assms(1) by (simp add: less_eq_div_iff_mult_less_eq mult.commute)
  then have b: "2 ^ E \<le> q div d" "2 ^ 52 \<le> q div d" "q div d < 2 ^ Suc E"
    using ilog2_bounds [of "q div d"] by (simp_all add: E_def)
  then have "(2::nat) ^ 52 < 2 ^ Suc E" by linarith
  then have "52 < Suc E" by (rule power_less_imp_less_exp [rotated]) simp
  then have "E = (E - 52) + 52" by simp
  then have E52: "2 ^ E = u * 2 ^ 52" unfolding u_def by (metis power_add)
  have "u * 2 ^ 52 * d \<le> q" using b(1) assms(1) unfolding E52 by (simp add: less_eq_div_iff_mult_less_eq)
  then have "real (u * 2 ^ 52 * d) \<le> real q" by (simp only: of_nat_le_iff)
  then have "real u * 2 ^ 52 * real d \<le> real q" by simp
  then have ub: "real u / 2 \<le> real q / real d / 2 ^ 53" using assms(1) by (simp add: field_simps)
  have "\<bar>real (round_half_even q (d * u)) - real q / real (d * u)\<bar> \<le> 1 / 2"
    by (rule round_half_even_error) (simp add: assms(1) up)
  then have "\<bar>real (round_half_even q (d * u)) - real q / real (d * u)\<bar> * real u \<le> 1 / 2 * real u"
    by (intro mult_right_mono) simp_all
  moreover have "\<bar>real (round_half_even q (d * u)) - real q / real (d * u)\<bar> * real u =
      \<bar>real (round_half_even q (d * u)) * real u - real q / real d\<bar>"
    using up assms(1) by (simp add: abs_mult_pos' algebra_simps flip: abs_mult_pos)
  ultimately have "\<bar>real (round_half_even q (d * u) * u) - real q / real d\<bar> \<le> real q / real d / 2 ^ 53"
    using ub by simp
  then show ?thesis by (simp add: f64_of_ratio_def Let_def q_def E_def u_def)
qed

text \<open>Integers below \<open>2\<^sup>5\<^sup>3\<close> are exact.\<close>

lemma f64_of_nat_exact:
  assumes "n < 2 ^ 53"
  shows "f64_of_nat n = n * f64_one"
proof (cases "n = 0")
  case True
  then show ?thesis by (simp add: f64_of_nat_def f64_of_ratio_def round_half_even_def Let_def)
next
  case False
  define E where "E = ilog2 (n * f64_one)"
  have "2 ^ E \<le> n * f64_one" using ilog2_bounds [of "n * f64_one"] False by (simp add: E_def)
  also have "\<dots> < 2 ^ 53 * 2 ^ 1074" using assms by (simp add: f64_one_def)
  finally have "(2::nat) ^ E < 2 ^ 1127" by (simp add: power_add [symmetric])
  then have "E < 1127" by (rule power_less_imp_less_exp [rotated]) simp
  then have "(2::nat) ^ 1074 = 2 ^ (1074 - (E - 52)) * 2 ^ (E - 52)" by (simp add: power_add [symmetric])
  then have k: "n * f64_one = n * 2 ^ (1074 - (E - 52)) * 2 ^ (E - 52)"
    unfolding f64_one_def by (simp only: mult.assoc)
  have "0 < (2::nat) ^ (E - 52)" by simp
  note round_half_even_exact [OF this, of "n * 2 ^ (1074 - (E - 52))"]
  then have "round_half_even (n * f64_one) (2 ^ (E - 52)) * 2 ^ (E - 52) = n * f64_one"
    by (simp only: k)
  then show ?thesis by (simp add: f64_of_nat_def f64_of_ratio_def Let_def E_def)
qed

lemma f64_fixed_error: "\<bar>real (f64_fixed p a) / 10 ^ p - real a / real f64_one\<bar> \<le> 1 / 2 / 10 ^ p"
proof -
  have "\<bar>real (f64_fixed p a) - real (10 ^ p * a) / real f64_one\<bar> \<le> 1 / 2"
    unfolding f64_fixed_def by (rule round_half_even_error) simp
  then have "\<bar>real (f64_fixed p a) - real (10 ^ p * a) / real f64_one\<bar> / 10 ^ p \<le> 1 / 2 / 10 ^ p"
    by (rule divide_right_mono) simp
  moreover have "real (f64_fixed p a) / 10 ^ p - real a / real f64_one =
      (real (f64_fixed p a) - real (10 ^ p * a) / real f64_one) / 10 ^ p"
    by (simp add: diff_divide_distrib)
  then have "\<bar>real (f64_fixed p a) / 10 ^ p - real a / real f64_one\<bar> =
      \<bar>real (f64_fixed p a) - real (10 ^ p * a) / real f64_one\<bar> / 10 ^ p"
    by (simp only: abs_divide) simp
  ultimately show ?thesis by simp
qed

text \<open>The quotient of two integers, each converted first: three roundings.\<close>

lemma f64_quotient_error:
  assumes "0 < d" "d < 2 ^ 53" "0 < n"
  shows "\<bar>real (f64_div (f64_of_nat n) (f64_of_nat d)) / real f64_one - real n / real d\<bar> \<le> 3 * (real n / real d) / 2 ^ 53"
proof -
  let ?U = "real f64_one" and ?x = "f64_of_nat n"
  let ?y = "f64_div ?x (f64_of_nat d)"
  have U: "0 < ?U" by simp
  note n = assms(3)
  have d: "f64_of_nat d = d * f64_one" by (rule f64_of_nat_exact [OF assms(2)])
  have "(1::nat) \<le> n * 2 ^ 1022" using n by simp
  from f64_of_ratio_error [OF _ this] have x: "\<bar>real ?x - real n * ?U\<bar> \<le> real n * ?U / 2 ^ 53"
    by (simp add: f64_of_nat_def)
  have "real n * ?U / 2 ^ 53 \<le> real n * ?U / 2" using n by (simp add: divide_left_mono)
  with x have half: "real n * ?U / 2 \<le> real ?x" by linarith
  have "?U / 2 \<le> real n * ?U / 2" using n by simp
  with half have "?U \<le> 2 * real ?x" by linarith
  then have "real f64_one \<le> real (2 * ?x)" by simp
  then have "f64_one \<le> 2 * ?x" by (simp only: of_nat_le_iff)
  then have "d * f64_one \<le> 2 ^ 53 * (2 * ?x)" using assms(2) by (intro mult_le_mono) simp_all
  also have "\<dots> = ?x * 2 ^ 54" by simp
  also have "\<dots> \<le> ?x * 2 ^ 1022" by (intro mult_le_mono power_increasing) simp_all
  finally have "d * f64_one \<le> ?x * 2 ^ 1022" .
  from f64_of_ratio_error [OF _ this] assms(1)
  have y: "\<bar>real ?y - real ?x / real d\<bar> \<le> real ?x / real d / 2 ^ 53"
    by (simp add: f64_div_def d)
  have e: "real ?x \<le> 2 * (real n * ?U)"
  proof -
    have "real n * ?U / 2 ^ 53 \<le> real n * ?U" using n by (simp add: field_simps)
    with x show ?thesis by linarith
  qed
  have "real ?x / real d / 2 ^ 53 \<le> 2 * (real n * ?U) / real d / 2 ^ 53"
    by (intro divide_right_mono e) simp_all
  moreover have "\<bar>real ?x / real d - real n * ?U / real d\<bar> \<le> real n * ?U / 2 ^ 53 / real d"
    using divide_right_mono [OF x, of "real d"] by (simp add: abs_divide diff_divide_distrib [symmetric])
  ultimately have "\<bar>real ?y - real n * ?U / real d\<bar> \<le> 3 * (real n * ?U / real d / 2 ^ 53)"
    using y by (simp add: field_simps)
  then have "\<bar>real ?y - real n * ?U / real d\<bar> / ?U \<le> 3 * (real n * ?U / real d / 2 ^ 53) / ?U"
    by (intro divide_right_mono) simp_all
  moreover have "real ?y / ?U - real n / real d = (real ?y - real n * ?U / real d) / ?U"
    using U by (simp add: diff_divide_distrib)
  then have "\<bar>real ?y / ?U - real n / real d\<bar> = \<bar>real ?y - real n * ?U / real d\<bar> / ?U"
    by (simp only: abs_divide)
  ultimately show ?thesis using U by simp
qed

text \<open>Rounding a ratio does not depend on how the ratio is written.\<close>

lemma round_half_even_scale: "0 < c \<Longrightarrow> round_half_even (n * c) (d * c) = round_half_even n d"
  by (simp add: round_half_even_def Let_def mult_mod_left mult.assoc [symmetric])

lemma f64_of_ratio_scale:
  assumes "0 < c"
  shows "f64_of_ratio (n * c) (d * c) = f64_of_ratio n d"
proof -
  have "n * c * f64_one div (d * c) = n * f64_one div d"
    using assms by (simp add: mult.assoc [symmetric] mult.commute [of _ f64_one] mult.left_commute)
  moreover have "round_half_even (n * c * f64_one) (d * c * u) = round_half_even (n * f64_one) (d * u)" for u
    using round_half_even_scale [OF assms, of "n * f64_one" "d * u"] by (simp add: ac_simps)
  ultimately show ?thesis by (simp add: f64_of_ratio_def Let_def)
qed

lemma f64_mul_of_nat:
  assumes "m < 2 ^ 53" "n < 2 ^ 53"
  shows "f64_mul (f64_of_nat m) (f64_of_nat n) = f64_of_nat (m * n)"
proof -
  have "f64_mul (f64_of_nat m) (f64_of_nat n) = f64_of_ratio (m * n * (f64_one * f64_one)) (1 * (f64_one * f64_one))"
    unfolding f64_mul_def f64_of_nat_exact [OF assms(1)] f64_of_nat_exact [OF assms(2)] by (simp add: ac_simps)
  also have "\<dots> = f64_of_nat (m * n)"
    unfolding f64_of_nat_def by (rule f64_of_ratio_scale) simp
  finally show ?thesis .
qed

end
