(* ===== verification/Bench_Drain.thy ===== *)
theory Bench_Drain
  imports Spsc_Queue Bench_Support Preflight "HOL-Library.Multiset"
begin

text \<open>
  The drain benchmark, \<open>examples/spsc/bench_drain.rs\<close>: on one thread, a new SPSC queue is filled to
  its capacity, the caches are flushed, and the time to pop every item is taken. A cell of its
  table is the median of seven such trials. What the clock shows around the drain is input.
\<close>

section \<open>Constants\<close>

text \<open>\<open>Item\<close> is one cache line: eight copies of a number.\<close>

type_synonym item = "u64 list"

definition item :: "nat \<Rightarrow> item" where
  "item i = replicate 8 (of_nat i)"

definition MAX_CAP_ITEMS :: nat where
  "MAX_CAP_ITEMS = push_bit 20 1"

definition div_ceil :: "nat \<Rightarrow> nat \<Rightarrow> nat" where
  "div_ceil a b = (if a mod b > 0 then a div b + 1 else a div b)"

definition HUGEPAGES_NEEDED :: nat where
  "HUGEPAGES_NEEDED = div_ceil (MAX_CAP_ITEMS * (8 * 8)) (2 * 1024 * 1024)"

definition CACHE_LINE :: nat where
  "CACHE_LINE = 64"

definition TRIALS :: nat where
  "TRIALS = 7"

section \<open>One trial\<close>

text \<open>\<open>flush_caches\<close> writes the low byte of its position to the first byte of every line.\<close>

function flush_loop :: "nat \<Rightarrow> 8 word list \<Rightarrow> 8 word list" where
  "flush_loop i buf = (if i < length buf then flush_loop (i + CACHE_LINE) (buf[i := of_nat i]) else buf)"
  by pat_completeness auto

termination
  by (relation "measure (\<lambda>(i, buf). length buf - i)") (auto simp: CACHE_LINE_def)

declare flush_loop.simps [simp del]

definition flush_caches :: "8 word list \<Rightarrow> 8 word list" where
  "flush_caches buf = flush_loop 0 buf"

text \<open>
  The two loops over the queue, and their panics: a push that is refused (\<open>assert!\<close>) and an empty
  pop (\<open>expect\<close>).
\<close>

datatype ('f, 'a) drain_panic =
  QueueFault 'f | UnexpectedFull 'a | EmptyMidDrain | DivisionByZero | NoTrials

fun fill :: "('s \<Rightarrow> 'a \<Rightarrow> 'f + ('a option \<times> 's)) \<Rightarrow> 's \<Rightarrow> 'a list \<Rightarrow> ('f, 'a) drain_panic + 's" where
  "fill enq s [] = Inr s"
| "fill enq s (x # xs) =
     (case enq s x of
        Inl f \<Rightarrow> Inl (QueueFault f)
      | Inr (Some _, _) \<Rightarrow> Inl (UnexpectedFull x)
      | Inr (None, s') \<Rightarrow> fill enq s' xs)"

fun drain :: "('s \<Rightarrow> 'f + ('a option \<times> 's)) \<Rightarrow> nat \<Rightarrow> 's \<Rightarrow> ('f, 'a) drain_panic + ('a list \<times> 's)" where
  "drain deq 0 s = Inr ([], s)"
| "drain deq (Suc n) s =
     (case deq s of
        Inl f \<Rightarrow> Inl (QueueFault f)
      | Inr (None, _) \<Rightarrow> Inl EmptyMidDrain
      | Inr (Some v, s') \<Rightarrow> map_sum id (\<lambda>(vs, s). (v # vs, s)) (drain deq n s'))"

text \<open>
  The time per item: \<open>(t1 - t0) * 10 ^ 9 / tsc_hz / cap\<close> in 128 bits, cut to 64; \<open>None\<close> is the
  panic of a division by zero. The queue is given as made by \<open>spsc::new\<close>. The result is the time,
  the popped items, the queue at the end and the flush buffer.
\<close>

definition per_item_ns :: "u64 \<Rightarrow> nat \<Rightarrow> u64 \<times> u64 \<Rightarrow> u64 option" where
  "per_item_ns tsc_hz cap clock =
     (case clock of (t0, t1) \<Rightarrow>
        if tsc_hz = 0 \<or> cap = 0 then None
        else Some (of_nat (unat (t1 - t0) * 1000000000 div unat tsc_hz div cap)))"

definition drain_trial ::
  "usize \<Rightarrow> 8 word list \<Rightarrow> u64 \<Rightarrow> fault + item spsc \<Rightarrow> u64 \<times> u64 \<Rightarrow>
     (fault, item) drain_panic + (u64 \<times> item list \<times> item spsc \<times> 8 word list)" where
  "drain_trial cap flush tsc_hz made clock =
     (case made of
        Inl f \<Rightarrow> Inl (QueueFault f)
      | Inr s \<Rightarrow>
          (case fill (spsc_enq cap) s (map item [0..<unat cap]) of
             Inl e \<Rightarrow> Inl e
           | Inr s \<Rightarrow>
               let flush = flush_caches flush
               in (case drain (spsc_deq cap) (unat cap) s of
                     Inl e \<Rightarrow> Inl e
                   | Inr (vs, s) \<Rightarrow>
                       (case per_item_ns tsc_hz (unat cap) clock of
                          None \<Rightarrow> Inl DivisionByZero
                        | Some ns \<Rightarrow> Inr (ns, vs, s, flush)))))"

section \<open>A cell of the table\<close>

definition median :: "u64 list \<Rightarrow> u64 option" where
  "median xs = (let xs = sort xs; k = length xs div 2 in if k < length xs then Some (xs ! k) else None)"

fun drain_trials ::
  "usize \<Rightarrow> u64 \<Rightarrow> fault + item spsc \<Rightarrow> (u64 \<times> u64) list \<Rightarrow> 8 word list \<Rightarrow>
     (fault, item) drain_panic + (u64 list \<times> 8 word list)" where
  "drain_trials cap tsc_hz made [] flush = Inr ([], flush)"
| "drain_trials cap tsc_hz made (clock # clocks) flush =
     (case drain_trial cap flush tsc_hz made clock of
        Inl e \<Rightarrow> Inl e
      | Inr (ns, _, _, flush) \<Rightarrow>
          map_sum id (\<lambda>(rest, flush). (ns # rest, flush)) (drain_trials cap tsc_hz made clocks flush))"

text \<open>The regular queue and the one on hugepages, and their medians.\<close>

definition drain_cell ::
  "usize \<Rightarrow> u64 \<Rightarrow> fault + item spsc \<Rightarrow> fault + item spsc \<Rightarrow> (u64 \<times> u64) list \<Rightarrow> (u64 \<times> u64) list \<Rightarrow>
     8 word list \<Rightarrow> (fault, item) drain_panic + (u64 \<times> u64 \<times> 8 word list)" where
  "drain_cell cap tsc_hz regular hugepage reg_clocks huge_clocks flush =
     (case drain_trials cap tsc_hz regular reg_clocks flush of
        Inl e \<Rightarrow> Inl e
      | Inr (reg_ns, flush) \<Rightarrow>
          (case drain_trials cap tsc_hz hugepage huge_clocks flush of
             Inl e \<Rightarrow> Inl e
           | Inr (huge_ns, flush) \<Rightarrow>
               (case (median reg_ns, median huge_ns) of
                  (Some reg, Some huge) \<Rightarrow> Inr (reg, huge, flush)
                | _ \<Rightarrow> Inl NoTrials)))"

definition drain_capacities :: "nat list" where
  "drain_capacities = [512, 8192, 131072, 1048576]"

definition bytes_label :: "nat \<Rightarrow> string" where
  "bytes_label bytes =
     (if 1024 * 1024 \<le> bytes then show_nat (bytes div 1024 div 1024) @ ''MiB''
      else if 1024 \<le> bytes then show_nat (bytes div 1024) @ ''KiB''
      else show_nat bytes @ ''B'')"

section \<open>Preparation\<close>

definition drain_report :: "file_system \<Rightarrow> bool \<Rightarrow> nat list \<Rightarrow> preflight_report" where
  "drain_report fs debug_assertions used_cores =
     (let r = release_build debug_assertions report_new;
          r = cores_online fs used_cores r;
          r = cores_isolated fs used_cores r;
          r = cores_nohz_full fs used_cores r;
          r = cores_performance_governor fs used_cores r;
          r = turbo_disabled fs r;
          r = cores_smt_siblings_quiet fs used_cores r;
          r = tsc_invariant_and_nonstop fs r
      in hugepages_at_least fs HUGEPAGES_NEEDED r)"

text \<open>
  The start of \<open>main\<close>: the core the benchmark runs on, or a panic (\<open>None\<close>): no core, a failed
  check, not pinned where requested, or a failed \<open>mlockall\<close>.
\<close>

definition drain_start ::
  "file_system \<Rightarrow> bool \<Rightarrow> nat list option \<Rightarrow> (nat \<Rightarrow> bool) \<Rightarrow> nat \<Rightarrow> int \<Rightarrow> nat option" where
  "drain_start fs debug_assertions core_ids set_for_current getcpu mlockall_rc =
     (case core_ids of
        Some (core # _) \<Rightarrow>
          if snd (finish (drain_report fs debug_assertions [core])) then None
          else if \<not> set_for_current core then None
          else if getcpu \<noteq> core then None
          else if mlockall_rc \<noteq> 0 then None
          else Some core
      | _ \<Rightarrow> None)"

section \<open>Filling and draining a bounded queue\<close>

context bounded_fifo
begin

lemma fill_contents:
  "invar s \<Longrightarrow> length (contents s) + length xs \<le> capacity \<Longrightarrow>
     \<exists>s'. fill enq s xs = Inr s' \<and> invar s' \<and> contents s' = contents s @ xs"
proof (induction xs arbitrary: s)
  case (Cons x xs)
  from enq_space [OF Cons.prems(1), of x] Cons.prems(2) obtain s' where
    s': "enq s x = Inr (None, s')" "invar s'" "contents s' = contents s @ [x]" by auto
  with Cons.IH [of s'] Cons.prems(2) show ?case by auto
qed simp

lemma drain_contents:
  "invar s \<Longrightarrow> n \<le> length (contents s) \<Longrightarrow>
     \<exists>s'. drain deq n s = Inr (take n (contents s), s') \<and> invar s' \<and> contents s' = drop n (contents s)"
proof (induction n arbitrary: s)
  case (Suc n)
  from Suc.prems(2) obtain x xs where c: "contents s = x # xs" by (cases "contents s") auto
  from deq_item [OF Suc.prems(1) c] obtain s' where
    "deq s = Inr (Some x, s')" "invar s'" "contents s' = xs" by blast
  with Suc.IH [of s'] Suc.prems(2) c show ?case by fastforce
qed auto

end

section \<open>The flush touches every line\<close>

lemma length_flush_loop: "length (flush_loop i buf) = length buf"
proof (induction i buf rule: flush_loop.induct)
  case (1 i buf)
  then show ?case by (subst flush_loop.simps) simp
qed

lemma flush_loop_nth:
  "j < length buf \<Longrightarrow>
     flush_loop i buf ! j = (if i \<le> j \<and> CACHE_LINE dvd j - i then of_nat j else buf ! j)"
proof (induction i buf rule: flush_loop.induct)
  case (1 i buf)
  show ?case
  proof (cases "i < length buf")
    case True
    have step: "i \<le> j \<and> CACHE_LINE dvd j - i \<longleftrightarrow>
      j = i \<or> (i + CACHE_LINE \<le> j \<and> CACHE_LINE dvd j - (i + CACHE_LINE))"
    proof (cases "i + CACHE_LINE \<le> j")
      case True
      then obtain d where "j = i + CACHE_LINE + d" using le_Suc_ex by blast
      then show ?thesis by (auto simp: CACHE_LINE_def)
    next
      case False
      then show ?thesis by (auto dest: dvd_imp_le simp: CACHE_LINE_def)
    qed
    have eq: "flush_loop i buf = flush_loop (i + CACHE_LINE) (buf[i := of_nat i])"
      using True flush_loop.simps [of i buf] by simp
    have "flush_loop i buf ! j =
        (if i + CACHE_LINE \<le> j \<and> CACHE_LINE dvd j - (i + CACHE_LINE) then of_nat j else buf[i := of_nat i] ! j)"
      unfolding eq using "1.IH" [OF True] "1.prems" by simp
    also have "\<dots> = (if i \<le> j \<and> CACHE_LINE dvd j - i then of_nat j else buf ! j)"
      unfolding step using True by (auto simp: nth_list_update)
    finally show ?thesis .
  next
    case False
    with "1.prems" show ?thesis by (subst flush_loop.simps) simp
  qed
qed

lemma flush_caches_writes:
  "flush_caches buf = map (\<lambda>j. if CACHE_LINE dvd j then of_nat j else buf ! j) [0..<length buf]"
  by (rule nth_equalityI) (simp_all add: flush_caches_def length_flush_loop flush_loop_nth)

section \<open>The median\<close>

text \<open>At most half of the values are smaller, at most half are greater.\<close>

definition is_median :: "u64 list \<Rightarrow> u64 \<Rightarrow> bool" where
  "is_median xs m \<longleftrightarrow>
     m \<in> set xs \<and> 2 * length (filter (\<lambda>x. x < m) xs) \<le> length xs \<and> 2 * length (filter (\<lambda>x. m < x) xs) \<le> length xs"

lemma length_filter_sort: "length (filter P (sort xs)) = length (filter P xs)"
proof -
  have "mset (filter P (sort xs)) = mset (filter P xs)" by simp
  then show ?thesis by (metis size_mset)
qed

lemma sorted_below_nth:
  fixes ys :: "'a :: linorder list"
  assumes "sorted ys" "k < length ys"
  shows "length (filter (\<lambda>x. x < ys ! k) ys) \<le> k" "length (filter (\<lambda>x. ys ! k < x) ys) \<le> length ys - Suc k"
proof -
  let ?m = "ys ! k"
  have "filter (\<lambda>x. x < ?m) (drop k ys) = []"
    using assms by (auto simp: filter_empty_conv in_set_conv_nth not_less intro!: sorted_nth_mono)
  then have "filter (\<lambda>x. x < ?m) ys = filter (\<lambda>x. x < ?m) (take k ys)"
    by (metis append_Nil2 append_take_drop_id filter_append)
  then show "length (filter (\<lambda>x. x < ?m) ys) \<le> k"
    by (metis length_filter_le length_take min.bounded_iff order_trans nle_le)
  have "filter (\<lambda>x. ?m < x) (take (Suc k) ys) = []"
    using assms by (auto simp: filter_empty_conv in_set_conv_nth not_less intro!: sorted_nth_mono)
  then have "filter (\<lambda>x. ?m < x) ys = filter (\<lambda>x. ?m < x) (drop (Suc k) ys)"
    by (metis append_Nil append_take_drop_id filter_append)
  then show "length (filter (\<lambda>x. ?m < x) ys) \<le> length ys - Suc k"
    by (metis length_drop length_filter_le)
qed

lemma median_is_median:
  assumes "xs \<noteq> []"
  shows "\<exists>m. median xs = Some m \<and> is_median xs m"
proof -
  let ?k = "length xs div 2" and ?ys = "sort xs"
  have k: "?k < length ?ys" using assms by simp
  from sorted_below_nth [OF sorted_sort k] have
    "length (filter (\<lambda>x. x < ?ys ! ?k) xs) \<le> ?k" "length (filter (\<lambda>x. ?ys ! ?k < x) xs) \<le> length xs - Suc ?k"
    by (simp_all add: length_filter_sort)
  moreover have "?ys ! ?k \<in> set xs" using nth_mem [OF k] by simp
  ultimately show ?thesis using k by (auto simp: median_def is_median_def Let_def)
qed

section \<open>Trials on a new queue\<close>

lemma unat_power_of_two_pos: "is_power_of_two cap \<Longrightarrow> 0 < unat cap"
  by (auto simp: is_power_of_two_iff)

lemma spsc_new_power: "spsc_new allocate cap opts = Inr s \<Longrightarrow> is_power_of_two cap"
  by (auto simp: spsc_new_def split: if_splits)

lemma drain_trial_new:
  assumes "slot_allocator allocate" "spsc_new allocate cap opts = Inr s" "tsc_hz \<noteq> 0"
  shows "\<exists>s'. drain_trial cap flush tsc_hz (Inr s) clock =
      Inr (the (per_item_ns tsc_hz (unat cap) clock), map item [0..<unat cap], s', flush_caches flush) \<and>
    spsc_inv cap s' \<and> spsc_contents cap s' = []"
proof -
  have rep: "spsc_rep cap 0 [] s" by (rule slot_allocator.spsc_new_rep [OF assms(1,2)])
  note inv = spsc_rep_inv [OF rep] and nil = spsc_rep_contents [OF rep]
  from spsc.fill_contents [OF inv, of "map item [0..<unat cap]"] nil obtain s1 where
    s1: "fill (spsc_enq cap) s (map item [0..<unat cap]) = Inr s1" "spsc_inv cap s1"
      "spsc_contents cap s1 = map item [0..<unat cap]" by auto
  from spsc.drain_contents [OF s1(2), of "unat cap"] s1(3) obtain s2 where
    s2: "drain (spsc_deq cap) (unat cap) s1 = Inr (map item [0..<unat cap], s2)" "spsc_inv cap s2"
      "spsc_contents cap s2 = []" by auto
  obtain ns where "per_item_ns tsc_hz (unat cap) clock = Some ns"
    using assms(3) unat_power_of_two_pos [OF spsc_new_power [OF assms(2)]]
    by (cases clock) (auto simp: per_item_ns_def)
  with s1(1) s2 show ?thesis by (simp add: drain_trial_def Let_def)
qed

lemma drain_trials_new:
  assumes "slot_allocator allocate" "spsc_new allocate cap opts = Inr s" "tsc_hz \<noteq> 0"
  shows "\<exists>flush'. drain_trials cap tsc_hz (Inr s) clocks flush =
    Inr (map (\<lambda>clock. the (per_item_ns tsc_hz (unat cap) clock)) clocks, flush')"
proof (induction clocks arbitrary: flush)
  case (Cons clock clocks)
  from drain_trial_new [OF assms, of flush clock] Cons.IH [of "flush_caches flush"] show ?case by auto
qed simp

lemma hugepages_needed: "HUGEPAGES_NEEDED = 32"
  by (simp add: HUGEPAGES_NEEDED_def div_ceil_def MAX_CAP_ITEMS_def push_bit_eq_mult)

lemma hugepages_at_least_failures:
  "failures (hugepages_at_least fs m r) = [] \<longleftrightarrow>
     failures r = [] \<and> (case fs ''/proc/meminfo'' of None \<Rightarrow> True
       | Some s \<Rightarrow> (case hugepages_free s of None \<Rightarrow> True | Some n \<Rightarrow> m \<le> n))"
  by (auto simp: hugepages_at_least_def split: option.splits)

lemma drain_failures:
  "failures (drain_report fs debug [core]) = [] \<longleftrightarrow>
     \<not> debug \<and> core \<in> set (read_cpu_list fs ''/sys/devices/system/cpu/online'') \<and>
     (case fs ''/proc/cpuinfo'' of None \<Rightarrow> True
      | Some s \<Rightarrow> contains_text ''constant_tsc'' s \<and> contains_text ''nonstop_tsc'' s) \<and>
     (case fs ''/proc/meminfo'' of None \<Rightarrow> True
      | Some s \<Rightarrow> (case hugepages_free s of None \<Rightarrow> True | Some n \<Rightarrow> 32 \<le> n))"
  unfolding drain_report_def Let_def hugepages_at_least_failures hugepages_needed tsc_failures
  by (auto simp: cores_online_failures release_build_def report_new_def split: option.splits)

lemma hugepages_free_line:
  assumes "\<forall>x\<in>set (before @ (''HugePages_Free:'' @ body) # after). clean x"
    and "\<forall>x\<in>set before. strip_prefix ''HugePages_Free:'' x = None"
    and "split_whitespace body = show_nat n # units" "n < 2 ^ 64"
  shows "hugepages_free (text_of_lines (before @ (''HugePages_Free:'' @ body) # after)) = Some n"
proof -
  have "find_map (strip_prefix ''HugePages_Free:'') (before @ (''HugePages_Free:'' @ body) # after) = Some body"
    using assms(2) strip_prefix_append [of "''HugePages_Free:''" body] by (induction before) simp_all
  then show ?thesis
    unfolding hugepages_free_def lines_of_text [OF assms(1)] by (simp add: assms(3) parse_show [OF assms(4)])
qed

section \<open>Properties\<close>

text \<open>C34: A trial of the drain benchmark never panics: on a new queue of any capacity no push is refused and no
  pop comes back empty, the items are popped in the order they were pushed, the queue is empty at the end
  and its destructor drops nothing, and the result is the nanoseconds per item.
\<close>

theorem drain_trial_exact:
  assumes "slot_allocator allocate" "spsc_new allocate cap opts = Inr s" "tsc_hz \<noteq> 0"
  shows "\<exists>q p c. drain_trial cap flush tsc_hz (Inr s) (t0, t1) =
      Inr (of_nat (unat (t1 - t0) * 1000000000 div unat tsc_hz div unat cap),
        map item [0..<unat cap], (q, p, c), flush_caches flush) \<and>
    queue_drop cap q = Inr ([], replicate (unat cap) None)"
proof -
  from drain_trial_new [OF assms, of flush "(t0, t1)"] obtain q p c where
    d: "drain_trial cap flush tsc_hz (Inr s) (t0, t1) = Inr (the (per_item_ns tsc_hz (unat cap) (t0, t1)),
      map item [0..<unat cap], (q, p, c), flush_caches flush)"
      "spsc_inv cap (q, p, c)" "spsc_contents cap (q, p, c) = []" by auto
  have "per_item_ns tsc_hz (unat cap) (t0, t1) =
      Some (of_nat (unat (t1 - t0) * 1000000000 div unat tsc_hz div unat cap))"
    using assms(3) unat_power_of_two_pos [OF spsc_new_power [OF assms(2)]] by (simp add: per_item_ns_def)
  moreover from d(2,3) have "queue_drop cap q = Inr ([], replicate (unat cap) None)"
    by (auto simp: spsc_inv_rep dest: queue_drop_rep)
  ultimately show ?thesis using d(1) by simp
qed

definition demo_line_alloc :: "usize \<Rightarrow> global_options \<Rightarrow> fault + item global_allocation" where
  "demo_line_alloc = global_allocate demo_os 64 8"

lemma demo_line_allocator: "slot_allocator demo_line_alloc"
  unfolding demo_line_alloc_def by (rule galloc.slot_allocator_axioms)

lemma demo_line_new:
  "spsc_new demo_line_alloc 2 \<lparr>g_mlock = True\<rparr> =
     Inr (\<lparr>slots = [None, None], head = 0, tail = 0\<rparr>, producer_new, consumer_new)"
  by code_simp

lemma two_item_cells: "replicate (unat (2 :: usize)) (None :: item option) = [None, None]"
  by code_simp

theorem drain_trial_exact_witness:
  "\<exists>s q p c. spsc_new demo_line_alloc 2 \<lparr>g_mlock = True\<rparr> = Inr s \<and>
     drain_trial 2 [7, 7] 1000000000 (Inr s) (100, 112) = Inr (6, [item 0, item 1], (q, p, c), [0, 7]) \<and>
     queue_drop 2 q = Inr ([], [None, None])"
proof -
  have "(1000000000 :: u64) \<noteq> 0" by simp
  from drain_trial_exact [OF demo_line_allocator demo_line_new this, of "[7, 7]" 100 112]
  obtain q p c where d: "drain_trial 2 [7, 7] 1000000000
      (Inr (\<lparr>slots = [None, None], head = 0, tail = 0\<rparr>, producer_new, consumer_new)) (100, 112) =
      Inr (of_nat (unat ((112 :: u64) - 100) * 1000000000 div unat (1000000000 :: u64) div unat (2 :: usize)),
        map item [0..<unat (2 :: usize)], (q, p, c), flush_caches [7, 7])"
    "queue_drop 2 q = Inr ([], replicate (unat (2 :: usize)) None)" by blast
  have "flush_caches [7, 7] = [0, 7]" by code_simp
  moreover have "map item [0..<unat (2 :: usize)] = [item 0, item 1]" by (simp add: upt_rec)
  ultimately show ?thesis using d demo_line_new unfolding two_item_cells by simp
qed

text \<open>A cell of the table never panics and shows the median of the seven regular trials and of the seven
  hugepage trials: an observed value with at most half of the others below it and at most half above.
\<close>

theorem drain_cell_medians:
  assumes "slot_allocator allocate" "spsc_new allocate cap opts = Inr s"
    and "slot_allocator allocate'" "spsc_new allocate' cap opts' = Inr s'"
    and "tsc_hz \<noteq> 0" "length reg_clocks = TRIALS" "length huge_clocks = TRIALS"
  shows "\<exists>reg huge flush'. drain_cell cap tsc_hz (Inr s) (Inr s') reg_clocks huge_clocks flush = Inr (reg, huge, flush') \<and>
    is_median (map (\<lambda>clock. the (per_item_ns tsc_hz (unat cap) clock)) reg_clocks) reg \<and>
    is_median (map (\<lambda>clock. the (per_item_ns tsc_hz (unat cap) clock)) huge_clocks) huge"
proof -
  let ?ns = "\<lambda>clock. the (per_item_ns tsc_hz (unat cap) clock)"
  have "map ?ns reg_clocks \<noteq> []" "map ?ns huge_clocks \<noteq> []" using assms(6,7) by (auto simp: TRIALS_def)
  then obtain reg huge where m: "median (map ?ns reg_clocks) = Some reg" "is_median (map ?ns reg_clocks) reg"
    "median (map ?ns huge_clocks) = Some huge" "is_median (map ?ns huge_clocks) huge"
    using median_is_median by blast
  obtain f1 where 1: "drain_trials cap tsc_hz (Inr s) reg_clocks flush = Inr (map ?ns reg_clocks, f1)"
    using drain_trials_new [OF assms(1,2,5)] by blast
  obtain f2 where 2: "drain_trials cap tsc_hz (Inr s') huge_clocks f1 = Inr (map ?ns huge_clocks, f2)"
    using drain_trials_new [OF assms(3,4,5)] by blast
  show ?thesis using m by (simp add: drain_cell_def 1 2)
qed

text \<open>The drain benchmark needs 32 free hugepages: when \<open>/proc/meminfo\<close> has a \<open>HugePages_Free\<close> line with \<open>n\<close>,
  the checks let it run exactly for a release build on a core that is online, with the flags of the clock
  present and at least 32 pages. Its own documentation prepares only 16.
\<close>

theorem drain_needs_hugepages:
  assumes "fs ''/proc/meminfo'' = Some (text_of_lines (before @ (''HugePages_Free:'' @ body) # after))"
    and "\<forall>x\<in>set (before @ (''HugePages_Free:'' @ body) # after). clean x"
    and "\<forall>x\<in>set before. strip_prefix ''HugePages_Free:'' x = None"
    and "split_whitespace body = show_nat n # units" "n < 2 ^ 64"
  shows "\<not> snd (finish (drain_report fs debug [core])) \<longleftrightarrow>
    \<not> debug \<and> core \<in> set (read_cpu_list fs ''/sys/devices/system/cpu/online'') \<and>
    (case fs ''/proc/cpuinfo'' of None \<Rightarrow> True
     | Some s \<Rightarrow> contains_text ''constant_tsc'' s \<and> contains_text ''nonstop_tsc'' s) \<and> 32 \<le> n"
proof -
  have "snd (finish r) \<longleftrightarrow> failures r \<noteq> []" for r by (simp add: finish_def Let_def)
  then show ?thesis
    using drain_failures [of fs debug core]
    unfolding assms(1) option.case hugepages_free_line [OF assms(2-5)] by blast
qed

definition demo_files :: "string \<Rightarrow> file_system" where
  "demo_files pages = (\<lambda>path.
     if path = ''/proc/meminfo''
     then Some (text_of_lines ([''MemTotal:       32614924 kB''] @ (''HugePages_Free:'' @ pages) # []))
     else if path = ''/sys/devices/system/cpu/online'' then Some (cpu_list_text [(0, 3)] @ [CHR 0x0A])
     else None)"

theorem drain_needs_hugepages_witness:
  "snd (finish (drain_report (demo_files ''       16'') False [0])) \<and>
   \<not> snd (finish (drain_report (demo_files ''       64'') False [0]))"
proof -
  have files: "demo_files pages ''/proc/meminfo'' =
      Some (text_of_lines ([''MemTotal:       32614924 kB''] @ (''HugePages_Free:'' @ pages) # []))"
    "demo_files pages ''/sys/devices/system/cpu/online'' = Some (cpu_list_text [(0, 3)] @ [CHR 0x0A])"
    "demo_files pages ''/proc/cpuinfo'' = None" for pages
    by (simp_all add: demo_files_def)
  have online: "read_cpu_list (demo_files pages) ''/sys/devices/system/cpu/online'' = [0, 1, 2, 3]" for pages
  proof -
    have "\<forall>(a, b)\<in>set [(0 :: nat, 3 :: nat)]. a < 2 ^ 64 \<and> b < 2 ^ 64" by simp
    note parsed = parse_cpu_list_text [OF this]
    show ?thesis
      unfolding read_cpu_list_def read_trim_def files option.map option.case
        trim_line [OF cpu_list_text_spaces] parsed by (simp add: upt_rec)
  qed
  have clean: "\<forall>x\<in>set ([''MemTotal:       32614924 kB''] @ (''HugePages_Free:'' @ pages) # []). clean x"
    if "clean pages" for pages
    using that by (simp add: clean_def)
  have first: "\<forall>x\<in>set [''MemTotal:       32614924 kB'']. strip_prefix ''HugePages_Free:'' x = None" by simp
  have 16: "clean ''       16''" "split_whitespace ''       16'' = show_nat 16 # []"
    and 64: "clean ''       64''" "split_whitespace ''       64'' = show_nat 64 # []"
    by (simp_all add: clean_def) code_simp+
  have "(16 :: nat) < 2 ^ 64" "(64 :: nat) < 2 ^ 64" by simp_all
  from drain_needs_hugepages [where fs = "demo_files ''       16''" and body = "''       16''" and
        before = "[''MemTotal:       32614924 kB'']" and after = "[]", OF files(1) clean [OF 16(1)] first 16(2) this(1), of False 0]
    drain_needs_hugepages [where fs = "demo_files ''       64''" and body = "''       64''" and
        before = "[''MemTotal:       32614924 kB'']" and after = "[]", OF files(1) clean [OF 64(1)] first 64(2) this(2), of False 0]
  show ?thesis unfolding online files(3) by simp
qed

end
