(* ===== verification/Reports.thy ===== *)
theory Reports
  imports Floats Bench_Spsc Bench_Spmc Bench_Drain
begin

text \<open>
  What the benchmarks print: \<open>fmt::ns\<close> of \<open>src/src/bench/fmt.rs\<close>, the reports of \<open>report.rs\<close>,
  \<open>throttled.rs\<close>, \<open>lapped.rs\<close> and \<open>capacity_sweep.rs\<close> under \<open>src/src/bench/harness\<close>, the rows of the
  drain benchmark and the report of \<open>examples/seqlock/bench_handoff.rs\<close>, as strings. The quantiles, the
  maximum and the length of a histogram are parameters (the \<open>hdrhistogram\<close> package), quantiles in
  ten-thousandths. A print that panics half-way is \<open>None\<close>.
\<close>

section \<open>Formatting\<close>

text \<open>\<open>{:>w}\<close>, \<open>{:<w}\<close>, \<open>println!\<close>, \<open>{}\<close> of a \<open>u64\<close> and \<open>{:.p}\<close> of an \<open>f64\<close>.\<close>

definition pad_left :: "nat \<Rightarrow> string \<Rightarrow> string" where
  "pad_left w s = replicate (w - length s) (CHR '' '') @ s"

definition pad_right :: "nat \<Rightarrow> string \<Rightarrow> string" where
  "pad_right w s = s @ replicate (w - length s) (CHR '' '')"

definition println :: "string \<Rightarrow> string" where
  "println s = s @ [CHR 0x0A]"

definition show_u64 :: "u64 \<Rightarrow> string" where
  "show_u64 n = show_nat (unat n)"

fun last_digits :: "nat \<Rightarrow> nat \<Rightarrow> string" where
  "last_digits 0 n = []"
| "last_digits (Suc p) n = last_digits p (n div 10) @ [digit_char (n mod 10)]"

definition decimal_text :: "nat \<Rightarrow> nat \<Rightarrow> string" where
  "decimal_text p h = show_nat (h div 10 ^ p) @ ''.'' @ last_digits p h"

definition show_f64 :: "nat \<Rightarrow> f64 \<Rightarrow> string" where
  "show_f64 p a = decimal_text p (f64_fixed p a)"

text \<open>\<open>fmt::ns\<close>.\<close>

definition ns_text :: "u64 \<Rightarrow> string" where
  "ns_text ns =
     (case ns_unit ns of
        (d, unit) \<Rightarrow>
          if d = 1 then show_u64 ns @ unit
          else show_f64 2 (f64_div (f64_of_nat (unat ns)) (f64_of_nat d)) @ unit)"

text \<open>The deltas of the interrupt counters, on one line and one per line.\<close>

fun loc_item :: "nat \<times> u64 option \<Rightarrow> string" where
  "loc_item (cpu, Some d) = '' cpu'' @ show_nat cpu @ ''=+'' @ show_u64 d"
| "loc_item (cpu, None) = '' cpu'' @ show_nat cpu @ ''=?''"

definition loc_line :: "(nat \<times> u64 option) list \<Rightarrow> string" where
  "loc_line deltas = println (''  LOC delta:'' @ concat (map loc_item deltas))"

fun loc_row :: "nat \<times> u64 option \<Rightarrow> string" where
  "loc_row (cpu, Some d) = println (''    cpu'' @ pad_left 2 (show_nat cpu) @ '': +'' @ show_u64 d)"
| "loc_row (cpu, None) = println (''    cpu'' @ pad_left 2 (show_nat cpu) @ '': unreadable'')"

definition banner :: "string \<Rightarrow> string list \<Rightarrow> string" where
  "banner name warns = println (''== '' @ name @ '' =='') @ concat (map (\<lambda>w. println (''  WARN: '' @ w)) warns)"

section \<open>The reports\<close>

text \<open>\<open>LatencyReport::print\<close>, with \<open>clock.delta_as_nanos(0, _)\<close> as a parameter.\<close>

fun report_row :: "string \<times> u64 \<times> u64 \<Rightarrow> string" where
  "report_row (label, raw, ns) =
     println (''  '' @ pad_right 6 label @ '' '' @ pad_left 7 (show_u64 raw) @ '' cycles ('' @ pad_left 5 (show_u64 ns) @ '' ns)'')"

definition loc_heading :: string where
  "loc_heading = println ''  Local timer interrupts during run (per cpu, nohz_full should keep these near 0):''"

definition report_print :: "(u64 \<Rightarrow> u64) \<Rightarrow> latency_report \<Rightarrow> string" where
  "report_print delta_as_nanos r =
     banner (impl_name r) (warnings_of r) @
     concat (map report_row (report_rows delta_as_nanos r)) @
     println [] @ loc_heading @ concat (map loc_row (loc_deltas r))"

text \<open>The report of the seqlock benchmark: a remark when the maximum is far off.\<close>

definition seqlock_report_print :: "(u64 \<Rightarrow> u64) \<Rightarrow> ('h \<Rightarrow> nat \<Rightarrow> u64) \<Rightarrow> ('h \<Rightarrow> u64) \<Rightarrow> 'h \<Rightarrow> (nat \<times> u64 option) list \<Rightarrow> string" where
  "seqlock_report_print delta_as_nanos quantile hmax hist deltas =
     concat (map (\<lambda>(label, raw). report_row (label, raw, delta_as_nanos raw))
       [(''p50'', quantile hist 5000), (''p90'', quantile hist 9000), (''p99'', quantile hist 9900),
        (''p99.9'', quantile hist 9990), (''max'', hmax hist)]) @
     (if 10 * quantile hist 9990 < hmax hist
      then println ''  (max likely contaminated by a LOC tick; see LOC delta below)'' else []) @
     println [] @ loc_heading @ concat (map loc_row deltas)"

text \<open>A row of quantiles: each with its label, padded to nine columns.\<close>

definition columns :: "(string \<times> string) list \<Rightarrow> string" where
  "columns cs = concat (map (\<lambda>(label, s). '' '' @ label @ ''='' @ pad_left 9 s) cs)"

text \<open>\<open>print_rate\<close> of the throttled benchmark; \<open>to_ns\<close> divides by \<open>tsc_hz\<close>.\<close>

definition ticks_text :: "u64 \<Rightarrow> u64 \<Rightarrow> string" where
  "ticks_text tsc_hz t = (case to_ns tsc_hz t of None \<Rightarrow> [] | Some ns \<Rightarrow> ns_text ns)"

definition user_columns :: "u64 \<Rightarrow> ('h \<Rightarrow> nat \<Rightarrow> u64) \<Rightarrow> ('h \<Rightarrow> u64) \<Rightarrow> 'h \<Rightarrow> string" where
  "user_columns tsc_hz quantile hmax h =
     columns [(''p50'', ticks_text tsc_hz (quantile h 5000)), (''p99'', ticks_text tsc_hz (quantile h 9900)),
       (''p99.9'', ticks_text tsc_hz (quantile h 9990)), (''p99.99'', ticks_text tsc_hz (quantile h 9999)),
       (''max'', ticks_text tsc_hz (hmax h))]"

definition throttled_print_rate ::
  "u64 \<Rightarrow> ('h \<Rightarrow> nat \<Rightarrow> u64) \<Rightarrow> ('h \<Rightarrow> u64) \<Rightarrow> 'h throttled_result \<Rightarrow> string option" where
  "throttled_print_rate tsc_hz quantile hmax r =
     (if tsc_hz = 0 then None
      else Some
        (println (''offered='' @ pad_left 12 (show_u64 (rate_hz r)) @ '' eff='' @ pad_left 12 (show_u64 (effective_hz r)) @
           '' N='' @ pad_left 9 (show_u64 (n_of r)) @ '' full_pushes='' @ pad_left 9 (show_u64 (full_of r)) @
           '' final_lag='' @ pad_left 9 (ns_text (final_lag_ns r)) @ (if saturated r then '' (SATURATED)'' else [])) @
         println (''  user-perceived:'' @ user_columns tsc_hz quantile hmax (user_hist r)) @
         (case print_sys r of
            NoLine \<Rightarrow> []
          | Suppressed \<Rightarrow> println ''  system latency suppressed: saturated -> CO-vulnerable''
          | Figures \<Rightarrow> println (''  system [DEBUG]:'' @ user_columns tsc_hz quantile hmax (the (sys_hist r)))) @
         loc_line (t_loc_delta r) @ println []))"

definition throttled_report_print ::
  "u64 \<Rightarrow> ('h \<Rightarrow> nat \<Rightarrow> u64) \<Rightarrow> ('h \<Rightarrow> u64) \<Rightarrow> string \<Rightarrow> string list \<Rightarrow> 'h throttled_result list \<Rightarrow> string option" where
  "throttled_report_print tsc_hz quantile hmax name warns rates =
     map_option (\<lambda>rows. banner name warns @ concat rows) (those (map (throttled_print_rate tsc_hz quantile hmax) rates))"

text \<open>\<open>print_rate\<close> of the lapped benchmark: the share of laps in \<open>f64\<close>.\<close>

definition lapped_pct :: "nat \<Rightarrow> nat \<Rightarrow> f64" where
  "lapped_pct values laps =
     (if 0 < values + laps
      then f64_div (f64_mul (f64_of_nat laps) (f64_of_nat 100)) (f64_of_nat (values + laps)) else 0)"

definition lapped_columns :: "(nat \<Rightarrow> string) \<Rightarrow> string \<Rightarrow> string" where
  "lapped_columns q mx = columns [(''p50'', q 5000), (''p99'', q 9900), (''p99.9'', q 9990), (''max'', mx)]"

definition lapped_print_rate ::
  "u64 \<Rightarrow> (u64 list \<Rightarrow> nat \<Rightarrow> u64) \<Rightarrow> (u64 list \<Rightarrow> u64) \<Rightarrow> lapped_rate_result \<Rightarrow> string option" where
  "lapped_print_rate tsc_hz quantile hmax r =
     (if tsc_hz = 0 then None
      else let ticks = ticks_text tsc_hz; vh = lr_value_hist r; lh = lr_lapped_hist r; sh = lr_skipped_hist r
        in Some
          (println [] @
           println (''delay='' @ pad_left 7 (show_u64 (lr_delay_cycles r)) @ '' cyc (~'' @ pad_left 8 (ticks (lr_delay_cycles r)) @
             '') published='' @ pad_left 10 (show_u64 (lr_published r)) @ '' values='' @ pad_left 9 (show_nat (lr_values r)) @
             '' lapped='' @ pad_left 9 (show_nat (lr_lapped r)) @ '' ('' @
             pad_left 5 (show_f64 2 (lapped_pct (lr_values r) (lr_lapped r))) @ ''% lapped)'') @
           (if vh \<noteq> [] then println (''  try_read=Value: '' @ lapped_columns (\<lambda>p. ticks (quantile vh p)) (ticks (hmax vh))) else []) @
           (if lh \<noteq> []
            then println (''  try_read=Lapped:'' @ lapped_columns (\<lambda>p. ticks (quantile lh p)) (ticks (hmax lh))) @
              println (''  skipped:        '' @ lapped_columns (\<lambda>p. show_u64 (quantile sh p)) (show_u64 (hmax sh)))
            else []) @
           loc_line (lr_loc_delta r)))"

text \<open>\<open>print_capacity_row\<close>, and the row of the drain benchmark with its ratio.\<close>

definition row :: "(nat \<times> string) list \<Rightarrow> string" where
  "row cs = concat (map (\<lambda>(i, w, s). (if i = 0 then [] else '' '') @ pad_left w s) (enumerate 0 cs))"

definition print_capacity_row ::
  "u64 \<Rightarrow> (u64 list \<Rightarrow> nat \<Rightarrow> u64) \<Rightarrow> (u64 list \<Rightarrow> u64) \<Rightarrow> capacity_result \<Rightarrow> string option" where
  "print_capacity_row tsc_hz quantile hmax r =
     (if tsc_hz = 0 then None
      else let ticks = ticks_text tsc_hz; h = cr_value_hist r
        in Some (println (row
          [(10, show_u64 (cr_capacity r)), (12, show_u64 (cr_published r)), (11, show_nat (cr_values r)),
           (11, show_nat (cr_lapped r)), (9, ticks (quantile h 5000)), (10, ticks (quantile h 9900)),
           (10, ticks (quantile h 9990)), (10, ticks (hmax h))])))"

definition drain_row :: "nat \<Rightarrow> nat \<Rightarrow> u64 \<Rightarrow> u64 \<Rightarrow> string" where
  "drain_row capacity bytes reg huge =
     println (row
       [(10, show_nat capacity), (10, bytes_label bytes), (14, ns_text reg @ ''/it''), (14, ns_text huge @ ''/it''),
        (7, show_f64 2 (f64_div (f64_of_nat (unat reg)) (f64_of_nat (unat (max huge 1)))))] @ ''x'')"

text \<open>The line every main starts with.\<close>

definition tsc_line :: "u64 \<Rightarrow> string" where
  "tsc_line tsc_hz =
     ''TSC freq: '' @ show_u64 tsc_hz @ '' Hz ('' @ show_f64 3 (f64_div (f64_of_nat (unat tsc_hz)) (f64_of_nat 1000000000)) @ '' GHz)''"

section \<open>What the figures say\<close>

lemma ns_unit_cases:
  assumes "ns_unit ns = (d, u)" "d \<noteq> 1"
  shows "0 < d" "d < 2 ^ 53" "10 * d \<le> unat ns" "real (unat ns) / real d \<le> 2 ^ 64 / 10 ^ 9"
proof -
  obtain n where n: "unat ns = n" by simp
  have "unat ns < 2 ^ 64" using unsigned_less [of ns] by simp
  then have n64: "n < 2 ^ 64" unfolding n .
  from assms n consider "d = 1000" "10000 \<le> n" "n < 10000000"
    | "d = 1000000" "10000000 \<le> n" "n < 10000000000"
    | "d = 1000000000" "10000000000 \<le> n"
    by (auto simp: ns_unit_def word_less_nat_alt split: if_splits)
  then have "0 < d \<and> d < 2 ^ 53 \<and> 10 * d \<le> n \<and> real n / real d \<le> 2 ^ 64 / 10 ^ 9"
  proof cases
    case 3
    from n64 have "real n < real ((2::nat) ^ 64)" by (simp only: of_nat_less_iff)
    then have "real n / 10 ^ 9 \<le> 2 ^ 64 / 10 ^ 9" by (intro divide_right_mono) simp_all
    with 3 show ?thesis by simp
  qed simp_all
  then show "0 < d" "d < 2 ^ 53" "10 * d \<le> unat ns" "real (unat ns) / real d \<le> 2 ^ 64 / 10 ^ 9"
    unfolding n by blast+
qed

lemma ns_text_exact: "ns < 10000 \<Longrightarrow> ns_text ns = show_u64 ns @ ''ns''"
  by (simp add: ns_text_def ns_unit_def)

lemma ns_text_in_unit:
  assumes "ns_unit ns = (d, unit)"
  shows "if ns < 10000 then ns_text ns = show_nat (unat ns) @ ''ns''
    else \<exists>h. ns_text ns = decimal_text 2 h @ unit \<and>
      \<bar>real h / 100 - real (unat ns) / real d\<bar> \<le> 501 / 100000"
proof (cases "ns < 10000")
  case True
  then show ?thesis by (simp add: ns_text_exact show_u64_def)
next
  case False
  with assms have d: "d \<noteq> 1" by (auto simp: ns_unit_def split: if_splits)
  obtain n where n: "unat ns = n" by simp
  note u = ns_unit_cases [OF assms d, unfolded n]
  let ?y = "f64_div (f64_of_nat n) (f64_of_nat d)"
  have "0 < n" using u(1,3) by simp
  from f64_quotient_error [OF u(1,2) this]
  have "\<bar>real ?y / real f64_one - real n / real d\<bar> \<le> 3 * (real n / real d) / 2 ^ 53" .
  also have "\<dots> \<le> 3 * (2 ^ 64 / 10 ^ 9) / 2 ^ 53"
    by (intro divide_right_mono mult_left_mono u(4)) simp_all
  also have "\<dots> \<le> 1 / 100000" by simp
  finally have y: "\<bar>real ?y / real f64_one - real n / real d\<bar> \<le> 1 / 100000" .
  have h: "\<bar>real (f64_fixed 2 ?y) / 100 - real ?y / real f64_one\<bar> \<le> 1 / 200"
    using f64_fixed_error [of 2 ?y] by simp
  from y h have err: "\<bar>real (f64_fixed 2 ?y) / 100 - real n / real d\<bar> \<le> 501 / 100000" by linarith
  have "ns_text ns = decimal_text 2 (f64_fixed 2 ?y) @ unit"
    using assms d n by (simp add: ns_text_def show_f64_def)
  with False err show ?thesis unfolding n by auto
qed

text \<open>
  C35: What \<open>fmt::ns\<close> prints is right. Below ten microseconds it is the exact number of nanoseconds; below
  ten milliseconds a decimal of microseconds, below ten seconds one of milliseconds and above one of
  seconds, each with two digits and within 0.00501 of the exact quotient by \<open>10 ^ 3\<close>, \<open>10 ^ 6\<close> or \<open>10 ^ 9\<close>,
  although the conversion, the division and the printing of the \<open>f64\<close> each round.
\<close>

theorem ns_text_accurate:
  "(unat ns < 10 ^ 4 \<longrightarrow> ns_text ns = show_nat (unat ns) @ ''ns'') \<and>
   (10 ^ 4 \<le> unat ns \<and> unat ns < 10 ^ 7 \<longrightarrow>
      (\<exists>h. ns_text ns = decimal_text 2 h @ ''us'' \<and> \<bar>real h / 100 - real (unat ns) / 10 ^ 3\<bar> \<le> 501 / 100000)) \<and>
   (10 ^ 7 \<le> unat ns \<and> unat ns < 10 ^ 10 \<longrightarrow>
      (\<exists>h. ns_text ns = decimal_text 2 h @ ''ms'' \<and> \<bar>real h / 100 - real (unat ns) / 10 ^ 6\<bar> \<le> 501 / 100000)) \<and>
   (10 ^ 10 \<le> unat ns \<longrightarrow>
      (\<exists>h. ns_text ns = decimal_text 2 h @ ''s'' \<and> \<bar>real h / 100 - real (unat ns) / 10 ^ 9\<bar> \<le> 501 / 100000))"
proof (intro conjI impI)
  assume "unat ns < 10 ^ 4"
  then show "ns_text ns = show_nat (unat ns) @ ''ns''"
    by (simp add: ns_text_exact show_u64_def word_less_nat_alt)
next
  assume "10 ^ 4 \<le> unat ns \<and> unat ns < 10 ^ 7"
  then show "\<exists>h. ns_text ns = decimal_text 2 h @ ''us'' \<and> \<bar>real h / 100 - real (unat ns) / 10 ^ 3\<bar> \<le> 501 / 100000"
    using ns_text_in_unit [of ns 1000 "''us''"] by (simp add: ns_unit_def word_less_nat_alt)
next
  assume "10 ^ 7 \<le> unat ns \<and> unat ns < 10 ^ 10"
  then show "\<exists>h. ns_text ns = decimal_text 2 h @ ''ms'' \<and> \<bar>real h / 100 - real (unat ns) / 10 ^ 6\<bar> \<le> 501 / 100000"
    using ns_text_in_unit [of ns 1000000 "''ms''"] by (simp add: ns_unit_def word_less_nat_alt)
next
  assume "10 ^ 10 \<le> unat ns"
  then show "\<exists>h. ns_text ns = decimal_text 2 h @ ''s'' \<and> \<bar>real h / 100 - real (unat ns) / 10 ^ 9\<bar> \<le> 501 / 100000"
    using ns_text_in_unit [of ns 1000000000 "''s''"] by (simp add: ns_unit_def word_less_nat_alt)
qed

theorem ns_text_accurate_witness:
  "(\<exists>h. ns_text 12345 = decimal_text 2 h @ ''us'' \<and> \<bar>real h / 100 - 12345 / 10 ^ 3\<bar> \<le> 501 / 100000) \<and>
   (\<exists>h. ns_text 12345678901 = decimal_text 2 h @ ''s'' \<and> \<bar>real h / 100 - 12345678901 / 10 ^ 9\<bar> \<le> 501 / 100000)"
  using ns_text_accurate [of 12345] ns_text_accurate [of 12345678901] by simp

text \<open>The figures can be read back: the text of a decimal determines its hundredths.\<close>

lemma length_last_digits [simp]: "length (last_digits p n) = p"
  by (induction p arbitrary: n) simp_all

lemma last_digits_inject: "last_digits p m = last_digits p n \<Longrightarrow> m mod 10 ^ p = n mod 10 ^ p"
proof (induction p arbitrary: m n)
  case (Suc p)
  then have d: "last_digits p (m div 10) = last_digits p (n div 10)" "digit_char (m mod 10) = digit_char (n mod 10)"
    by (simp_all only: last_digits.simps append1_eq_conv)
  note ih = Suc.IH [OF d(1)]
  note d(2)
  then have "digit_value (digit_char (m mod 10)) = digit_value (digit_char (n mod 10))" by (simp only:)
  moreover have "digit_value (digit_char (k mod 10)) = k mod 10" for k by (rule digit_char_props(2)) simp
  ultimately have "m mod 10 = n mod 10" by (simp only:)
  with ih show ?case by (simp add: mod_mult2_eq)
qed simp

lemma decimal_text_inject: "decimal_text p h = decimal_text p k \<Longrightarrow> h = k"
proof -
  assume "decimal_text p h = decimal_text p k"
  then have t: "show_nat (h div 10 ^ p) = show_nat (k div 10 ^ p)" "last_digits p h = last_digits p k"
    by (simp_all add: decimal_text_def)
  have "h div 10 ^ p = k div 10 ^ p" "h mod 10 ^ p = k mod 10 ^ p"
    by (rule show_nat_inject [OF t(1)], rule last_digits_inject [OF t(2)])
  then show ?thesis by (metis div_mult_mod_eq)
qed

text \<open>A result of \<open>measure_at_rate\<close> never prints the line about a suppressed histogram.\<close>

lemma throttled_never_suppressed:
  assumes "throttled_result_of tsc_hz rate n producer hists deltas = Some r"
  shows "print_sys r = (if saturated r then NoLine else case snd hists of None \<Rightarrow> NoLine | Some h \<Rightarrow> Figures)"
  using assms
  by (auto simp: throttled_result_of_def print_sys_def Let_def split: prod.splits option.splits if_splits)

lemma f64_of_ratio_0: "f64_of_ratio 0 d = 0"
  by (auto simp: f64_of_ratio_def round_half_even_def Let_def)

lemma f64_zero: "f64_of_nat 0 = 0" "f64_mul 0 b = 0" "f64_div 0 b = 0" "f64_fixed p 0 = 0"
  by (simp_all add: f64_of_nat_def f64_mul_def f64_div_def f64_of_ratio_0)
    (simp add: f64_fixed_def round_half_even_def f64_one_def)

text \<open>
  The share of laps printed by the lapped benchmark is within 0.00501 of the exact percentage, for counts below \<open>2 ^ 53\<close>.
\<close>

theorem lapped_pct_accurate:
  assumes "0 < values + laps" "values + laps < 2 ^ 53"
  shows "\<bar>real (f64_fixed 2 (lapped_pct values laps)) / 100 - 100 * real laps / real (values + laps)\<bar> \<le> 501 / 100000"
proof (cases "laps = 0")
  case True
  then show ?thesis
    by (simp add: lapped_pct_def f64_zero)
next
  case False
  let ?t = "values + laps"
  let ?y = "f64_div (f64_of_nat (laps * 100)) (f64_of_nat ?t)"
  have y: "lapped_pct values laps = ?y"
    using assms by (simp add: lapped_pct_def f64_mul_of_nat)
  have "real laps \<le> real ?t" by simp
  then have le: "real (laps * 100) / real ?t \<le> 100" using assms(1) by (simp add: divide_le_eq)
  have "0 < laps * 100" using False by simp
  from f64_quotient_error [OF assms this]
  have "\<bar>real ?y / real f64_one - real (laps * 100) / real ?t\<bar> \<le> 3 * (real (laps * 100) / real ?t) / 2 ^ 53" .
  also have "\<dots> \<le> 3 * 100 / 2 ^ 53"
    by (intro divide_right_mono mult_left_mono le) simp_all
  also have "\<dots> \<le> 1 / 100000" by simp
  finally have e: "\<bar>real ?y / real f64_one - real (laps * 100) / real ?t\<bar> \<le> 1 / 100000" .
  have h: "\<bar>real (f64_fixed 2 ?y) / 100 - real ?y / real f64_one\<bar> \<le> 1 / 200"
    using f64_fixed_error [of 2 ?y] by simp
  have c: "100 * real laps = real (laps * 100)" by simp
  from e h show ?thesis unfolding y c by linarith
qed

theorem lapped_pct_accurate_witness:
  "\<bar>real (f64_fixed 2 (lapped_pct 2 1)) / 100 - 100 / 3\<bar> \<le> 501 / 100000"
  using lapped_pct_accurate [of 2 1] by simp

end
