(* ===== verification/Shared_Lifetime.thy ===== *)
theory Shared_Lifetime
  imports Spsc_Drop Spmc_Progress Seqlock_Progress
begin

text \<open>
  The life of the two structures whose handles can be cloned: the SPMC queue (\<open>src/src/spmc\<close>: a \<open>Producer\<close> and
  any number of \<open>Consumer\<close>s) and the seqlock (\<open>src/src/seqlock\<close>: a \<open>Writer\<close> and any number of
  \<open>Reader\<close>s). Each handle owns a clone of one \<open>Arc\<close>; neither structure has a \<open>Drop\<close> of its own, so the
  last handle that goes frees the memory. That no access can come after the free, or race with it, rests on
  the count and on the orderings of \<open>Arc\<close> alone: the accesses of the structures themselves are atomic
  or volatile and order nothing against a free. A \<open>Reader\<close> may also be lent to several threads (it is \<open>Sync\<close>); the
  language ends such borrows before the drop, and here a handle is used by one thread.
\<close>

section \<open>Handles\<close>

text \<open>
  What a structure offers to its handles: its steps, the handle that makes a step, the handle that a step
  creates (\<open>clone\<close>), and whether a handle is outside every call, so that it can be dropped.
\<close>

record ('s, 'e, 'h) handle_api =
  api_step :: "'s \<Rightarrow> 'e \<Rightarrow> 's option"
  api_user :: "'e \<Rightarrow> 'h"
  api_made :: "'e \<Rightarrow> 'h option"
  api_idle :: "'s \<Rightarrow> 'h \<Rightarrow> bool"

text \<open>
  \<open>sh_uses h\<close> counts the accesses that handle \<open>h\<close> has made to the shared memory; the view of a handle says
  how many accesses of each handle happened before what its thread does next. What the threads learn
  through the structure itself is left out, so fewer accesses are ordered here than in the program.
\<close>

record ('s, 'h) shared =
  sh_object :: 's
  sh_views :: "'h \<Rightarrow> 'h tview option"
  sh_made :: "'h list"
  sh_uses :: "'h view"
  sh_arc :: "'h arc"
  sh_freed :: nat

text \<open>The two handles that \<open>new\<close> returns: \<open>Arc::new\<close> and one clone.\<close>

definition shared_new :: "'s \<Rightarrow> 'h \<Rightarrow> 'h \<Rightarrow> ('s, 'h) shared" where
  "shared_new x a b =
     \<lparr>sh_object = x, sh_views = [a \<mapsto> view0, b \<mapsto> view0], sh_made = [a, b], sh_uses = (\<lambda>_. 0),
      sh_arc = arc_clone arc_new, sh_freed = 0\<rparr>"

definition used :: "'h \<Rightarrow> nat \<Rightarrow> 'h tview \<Rightarrow> 'h tview" where
  "used h k V = V\<lparr>cur := (cur V)(h := k), acq := (acq V)(h := k)\<rparr>"

text \<open>A step of the structure by a live handle: an access to the shared memory, which must not be freed.\<close>

definition use_handle :: "('s, 'e, 'h) handle_api \<Rightarrow> 'e \<Rightarrow> ('s, 'h) shared \<Rightarrow> (fault + ('s, 'h) shared) option" where
  "use_handle api e s =
     (let h = api_user api e; k = Suc (sh_uses s h) in
      case (sh_views s h, api_step api (sh_object s) e) of
        (Some V, Some x) \<Rightarrow>
          let s' = s\<lparr>sh_object := x, sh_uses := (sh_uses s)(h := k), sh_views := (sh_views s)(h \<mapsto> used h k V)\<rparr> in
          if sh_freed s \<noteq> 0 then Some (Inl OutOfBounds)
          else (case api_made api e of
                  None \<Rightarrow> Some (Inr s')
                | Some h' \<Rightarrow>
                    if h' \<in> set (sh_made s) then None
                    else Some (Inr (s'\<lparr>sh_views := (sh_views s')(h' \<mapsto> used h k V), sh_made := sh_made s @ [h'],
                                      sh_arc := arc_clone (sh_arc s)\<rparr>)))
      | _ \<Rightarrow> None)"

text \<open>
  A handle is dropped. The last one frees the memory: a data race unless every access of every handle
  there has been happened before.
\<close>

definition drop_handle :: "('s, 'e, 'h) handle_api \<Rightarrow> 'h \<Rightarrow> ('s, 'h) shared \<Rightarrow> (fault + ('s, 'h) shared) option" where
  "drop_handle api h s =
     (case sh_views s h of
        None \<Rightarrow> None
      | Some V \<Rightarrow>
          if \<not> api_idle api (sh_object s) h then None
          else if sh_freed s \<noteq> 0 then Some (Inl OutOfBounds)
          else let s' = s\<lparr>sh_views := (sh_views s)(h := None), sh_arc := fst (arc_drop V (sh_arc s))\<rparr> in
            (case snd (arc_drop V (sh_arc s)) of
               None \<Rightarrow> Some (Inr s')
             | Some W \<Rightarrow>
                 if list_all (\<lambda>i. sh_uses s i \<le> cur W i) (sh_made s)
                 then Some (Inr (s'\<lparr>sh_freed := sh_freed s + 1\<rparr>)) else Some (Inl DataRace)))"

text \<open>Any other synchronisation of the threads: what \<open>h\<close> has done is made known to \<open>h'\<close>.\<close>

definition tell_handle :: "'h \<Rightarrow> 'h \<Rightarrow> ('s, 'h) shared \<Rightarrow> ('s, 'h) shared option" where
  "tell_handle h h' s =
     (case (sh_views s h, sh_views s h') of
        (Some V, Some W) \<Rightarrow>
          Some (s\<lparr>sh_views := (sh_views s)(h' \<mapsto> W\<lparr>cur := join (cur W) (cur V), acq := join (acq W) (cur V)\<rparr>)\<rparr>)
      | _ \<Rightarrow> None)"

datatype ('e, 'h) shared_event = UseHandle 'e | DropHandle 'h | TellHandle 'h 'h

fun shared_step ::
  "('s, 'e, 'h) handle_api \<Rightarrow> ('s, 'h) shared \<Rightarrow> ('e, 'h) shared_event \<Rightarrow> (fault + ('s, 'h) shared) option" where
  "shared_step api s (UseHandle e) = use_handle api e s"
| "shared_step api s (DropHandle h) = drop_handle api h s"
| "shared_step api s (TellHandle h h') = map_option Inr (tell_handle h h' s)"

fun shared_run ::
  "('s, 'e, 'h) handle_api \<Rightarrow> ('s, 'h) shared \<Rightarrow> ('e, 'h) shared_event list \<Rightarrow> (fault + ('s, 'h) shared) option" where
  "shared_run api s [] = Some (Inr s)"
| "shared_run api s (e # es) =
     (case shared_step api s e of
        Some (Inr s') \<Rightarrow> shared_run api s' es
      | r \<Rightarrow> r)"

section \<open>The invariant\<close>

definition alive :: "('s, 'h) shared \<Rightarrow> 'h \<Rightarrow> bool" where
  "alive s h \<longleftrightarrow> sh_views s h \<noteq> None"

definition live_handles :: "('s, 'h) shared \<Rightarrow> 'h list" where
  "live_handles s = filter (alive s) (sh_made s)"

definition shared_inv :: "('s, 'h) shared \<Rightarrow> bool" where
  "shared_inv s \<longleftrightarrow>
     distinct (sh_made s) \<and> (\<forall>h. alive s h \<longrightarrow> h \<in> set (sh_made s)) \<and>
     strong (sh_arc s) = length (live_handles s) \<and> sh_freed s = (if live_handles s = [] then 1 else 0) \<and>
     (\<forall>h V. sh_views s h = Some V \<longrightarrow> sh_uses s h \<le> cur V h) \<and>
     (\<forall>h. h \<notin> set (sh_made s) \<longrightarrow> sh_uses s h = 0) \<and>
     (\<forall>h\<in>set (sh_made s). \<not> alive s h \<longrightarrow> sh_uses s h \<le> released (sh_arc s) h)"

lemma shared_new_inv: "a \<noteq> b \<Longrightarrow> shared_inv (shared_new x a b)"
  by (simp add: shared_inv_def shared_new_def live_handles_def alive_def arc_clone_def arc_new_def)

lemma alive_not_freed: "shared_inv s \<Longrightarrow> alive s h \<Longrightarrow> sh_freed s = 0"
  by (auto simp: shared_inv_def live_handles_def filter_empty_conv)

lemma live_same: "(\<And>h. alive t h = alive s h) \<Longrightarrow> sh_made t = sh_made s \<Longrightarrow> live_handles t = live_handles s"
  by (simp add: live_handles_def cong: filter_cong)

text \<open>A view that grows at its own handle, with a use counted.\<close>

lemma use_keeps:
  assumes "shared_inv s" "sh_views s h = Some V" "sh_uses s h \<le> k"
  shows "shared_inv (s\<lparr>sh_object := x, sh_uses := (sh_uses s)(h := k), sh_views := (sh_views s)(h \<mapsto> used h k V)\<rparr>)"
    (is "shared_inv ?t")
proof -
  have alive: "alive ?t i = alive s i" for i using assms(2) by (simp add: alive_def)
  have "live_handles ?t = live_handles s" by (rule live_same [OF alive]) simp
  with assms alive show ?thesis by (auto simp: shared_inv_def used_def alive_def)
qed

lemma clone_keeps:
  assumes "shared_inv s" "h' \<notin> set (sh_made s)" "sh_freed s = 0"
  shows "shared_inv (s\<lparr>sh_views := (sh_views s)(h' \<mapsto> V), sh_made := sh_made s @ [h'], sh_arc := arc_clone (sh_arc s)\<rparr>)"
    (is "shared_inv ?t")
proof -
  have alive: "alive ?t i \<longleftrightarrow> i = h' \<or> alive s i" for i by (simp add: alive_def)
  have "filter (alive ?t) (sh_made s) = filter (alive s) (sh_made s)"
    by (rule filter_cong) (use assms(2) alive in auto)
  then have live: "live_handles ?t = live_handles s @ [h']" by (simp add: live_handles_def) (simp add: alive_def)
  have "sh_uses s h' = 0" using assms(1,2) by (simp add: shared_inv_def)
  with assms alive live show ?thesis by (auto simp: shared_inv_def arc_clone_def alive_def)
qed

lemma use_handle_inv:
  assumes inv: "shared_inv s" and step: "use_handle api e s = Some r"
  shows "\<exists>s'. r = Inr s' \<and> shared_inv s' \<and> api_step api (sh_object s) e = Some (sh_object s')"
proof -
  let ?h = "api_user api e" and ?k = "Suc (sh_uses s (api_user api e))"
  from step obtain V x where V: "sh_views s ?h = Some V" and x: "api_step api (sh_object s) e = Some x"
    by (auto simp: use_handle_def Let_def split: option.splits)
  let ?t = "s\<lparr>sh_object := x, sh_uses := (sh_uses s)(?h := ?k), sh_views := (sh_views s)(?h \<mapsto> used ?h ?k V)\<rparr>"
  have free: "sh_freed s = 0" by (rule alive_not_freed [OF inv, of ?h]) (simp add: alive_def V)
  have t: "shared_inv ?t" by (rule use_keeps [OF inv V]) simp
  show ?thesis
  proof (cases "api_made api e")
    case None
    with step V x free have "r = Inr ?t" by (simp add: use_handle_def Let_def)
    with x t show ?thesis by simp
  next
    case (Some h')
    with step V x free have "h' \<notin> set (sh_made s)"
      and "r = Inr (?t\<lparr>sh_views := (sh_views ?t)(h' \<mapsto> used ?h ?k V), sh_made := sh_made ?t @ [h'], sh_arc := arc_clone (sh_arc ?t)\<rparr>)"
      by (auto simp: use_handle_def Let_def split: if_splits)
    with clone_keeps [OF t, of h' "used ?h ?k V"] free x show ?thesis by simp
  qed
qed

lemma drop_handle_inv:
  assumes inv: "shared_inv s" and step: "drop_handle api h s = Some r"
  shows "\<exists>s'. r = Inr s' \<and> shared_inv s' \<and> sh_object s' = sh_object s \<and>
    (\<forall>i. alive s' i \<longleftrightarrow> i \<noteq> h \<and> alive s i) \<and> sh_made s' = sh_made s"
proof -
  from step obtain V where V: "sh_views s h = Some V" by (auto simp: drop_handle_def split: option.splits)
  let ?t = "s\<lparr>sh_views := (sh_views s)(h := None), sh_arc := fst (arc_drop V (sh_arc s))\<rparr>"
  note i = inv [unfolded shared_inv_def]
  have free: "sh_freed s = 0" by (rule alive_not_freed [OF inv, of h]) (simp add: alive_def V)
  have alive: "alive ?t i \<longleftrightarrow> i \<noteq> h \<and> alive s i" for i by (simp add: alive_def)
  have "h \<in> set (live_handles s)" using V i by (simp add: live_handles_def alive_def)
  moreover have "live_handles ?t = remove1 h (live_handles s)"
    using i by (simp add: live_handles_def distinct_remove1_removeAll removeAll_filter_not_eq)
      (auto simp: alive_def intro!: filter_cong split: if_splits)
  ultimately have n: "length (live_handles ?t) = strong (sh_arc s) - 1" "0 < strong (sh_arc s)"
    using i by (auto simp: length_remove1 intro: length_pos_if_in_set)
  have own: "sh_uses s h \<le> cur V h" using i V by blast
  have gone: "sh_uses s i \<le> join (released (sh_arc s)) (cur V) i" if "i \<in> set (sh_made s)" "\<not> alive ?t i" for i
    using that own i alive by (auto simp: le_max_iff_disj)
  have keeps: "shared_inv u \<and> sh_object u = sh_object s \<and> (\<forall>i. alive u i \<longleftrightarrow> i \<noteq> h \<and> alive s i) \<and> sh_made u = sh_made s"
    if "u = ?t\<lparr>sh_freed := (if live_handles ?t = [] then 1 else 0)\<rparr>" for u
  proof -
    have "live_handles u = live_handles ?t" by (rule live_same) (simp_all add: that alive_def)
    moreover have "strong (fst (arc_drop V (sh_arc s))) = strong (sh_arc s) - 1"
      "released (fst (arc_drop V (sh_arc s))) = join (released (sh_arc s)) (cur V)" by (simp_all add: arc_drop_def)
    ultimately show ?thesis using i n alive gone by (auto simp: shared_inv_def that alive_def)
  qed
  show ?thesis
  proof (cases "strong (sh_arc s) = 1")
    case True
    then have none: "live_handles ?t = []" using n(1) by simp
    let ?W = "V\<lparr>cur := join (cur V) (released (sh_arc s)), acq := join (acq V) (released (sh_arc s))\<rparr>"
    have "sh_uses s i \<le> cur ?W i" if "i \<in> set (sh_made s)" for i
      using gone [OF that] none that by (auto simp: live_handles_def filter_empty_conv max.commute)
    with True V free step have "r = Inr (?t\<lparr>sh_freed := 1\<rparr>)"
      by (auto simp: drop_handle_def Let_def arc_drop_def list_all_iff split: if_splits)
    with keeps none show ?thesis by simp
  next
    case False
    with n have "live_handles ?t \<noteq> []" by auto
    moreover from False V free step have "r = Inr (?t\<lparr>sh_freed := 0\<rparr>)"
      by (auto simp: drop_handle_def Let_def arc_drop_def split: if_splits)
    ultimately show ?thesis using keeps by simp
  qed
qed

lemma tell_handle_inv:
  assumes inv: "shared_inv s" and step: "tell_handle h h' s = Some s'"
  shows "shared_inv s' \<and> sh_object s' = sh_object s"
proof -
  from step obtain V W where v: "sh_views s h = Some V" "sh_views s h' = Some W"
    and s': "s' = s\<lparr>sh_views := (sh_views s)(h' \<mapsto> W\<lparr>cur := join (cur W) (cur V), acq := join (acq W) (cur V)\<rparr>)\<rparr>"
    by (auto simp: tell_handle_def split: option.splits)
  have alive: "alive s' i = alive s i" for i using v by (simp add: s' alive_def)
  have "live_handles s' = live_handles s" by (rule live_same [OF alive]) (simp add: s')
  with inv v alive show ?thesis by (auto simp: shared_inv_def s' le_max_iff_disj)
qed

section \<open>Structures behind an \<open>Arc\<close>\<close>

text \<open>
  The interface of a structure to its handles: what its steps keep. Then every run of handles keeps it too,
  and meets no access to freed memory and no race with the free.
\<close>

locale shared_object =
  fixes api :: "('s, 'e, 'h) handle_api" and good :: "'s \<Rightarrow> bool"
  assumes keeps: "good x \<Longrightarrow> api_step api x e = Some y \<Longrightarrow> good y"
begin

lemma step_inv:
  assumes "shared_inv s" "good (sh_object s)" "shared_step api s e = Some r"
  shows "\<exists>s'. r = Inr s' \<and> shared_inv s' \<and> good (sh_object s')"
proof (cases e)
  case (UseHandle x)
  with assms use_handle_inv [OF assms(1)] keeps show ?thesis by fastforce
next
  case (DropHandle h)
  with assms drop_handle_inv [OF assms(1)] show ?thesis by fastforce
next
  case (TellHandle h h')
  with assms tell_handle_inv [OF assms(1)] show ?thesis by fastforce
qed

lemma run_inv:
  assumes "shared_inv s" "good (sh_object s)" "shared_run api s es = Some r"
  shows "\<exists>s'. r = Inr s' \<and> shared_inv s' \<and> good (sh_object s')"
  using assms
proof (induction es arbitrary: s)
  case (Cons e es)
  then obtain q where q: "shared_step api s e = Some q" by (auto split: option.splits)
  from step_inv [OF Cons.prems(1,2) this] obtain t where "q = Inr t" "shared_inv t" "good (sh_object t)" by blast
  with Cons.IH Cons.prems(3) q show ?case by simp
qed auto

text \<open>An idle handle can always be dropped, and the free comes with the last one.\<close>

lemma drop_frees:
  assumes "shared_inv s" "alive s h" "api_idle api (sh_object s) h"
  shows "\<exists>s'. shared_step api s (DropHandle h) = Some (Inr s') \<and> sh_freed s' = (if set (live_handles s) \<subseteq> {h} then 1 else 0)"
proof -
  have free: "sh_freed s = 0" by (rule alive_not_freed [OF assms(1,2)])
  with assms(2,3) have "drop_handle api h s \<noteq> None"
    by (auto simp: drop_handle_def alive_def Let_def split: option.split)
  then obtain r where r: "drop_handle api h s = Some r" by blast
  from drop_handle_inv [OF assms(1) r] obtain s' where s': "r = Inr s'" "shared_inv s'"
    "\<And>i. alive s' i \<longleftrightarrow> i \<noteq> h \<and> alive s i" "sh_made s' = sh_made s" by blast
  have "live_handles s' = [] \<longleftrightarrow> set (live_handles s) \<subseteq> {h}"
    unfolding live_handles_def s'(3,4) filter_empty_conv by auto
  with r s'(1,2) show ?thesis by (auto simp: shared_inv_def)
qed

lemma freed_iff: "shared_inv s \<Longrightarrow> sh_freed s = (if \<exists>h. alive s h then 0 else 1)"
  by (auto simp: shared_inv_def live_handles_def filter_empty_conv)

end

section \<open>The SPMC queue and the seqlock\<close>

datatype bc_handle = ProducerHandle | ConsumerHandle nat

fun bc_user :: "'v bc_event \<Rightarrow> bc_handle" where
  "bc_user (PubCall v) = ProducerHandle"
| "bc_user (PubStep t) = ProducerHandle"
| "bc_user (SubCall i) = ConsumerHandle i"
| "bc_user (SubStep i t) = ConsumerHandle i"
| "bc_user (SubClone i j) = ConsumerHandle i"

fun bc_made :: "'v bc_event \<Rightarrow> bc_handle option" where
  "bc_made (SubClone i j) = Some (ConsumerHandle j)"
| "bc_made _ = None"

fun bc_idle :: "'v bc \<Rightarrow> bc_handle \<Rightarrow> bool" where
  "bc_idle c ProducerHandle \<longleftrightarrow> (case pub_state c of PubIdle \<Rightarrow> True | _ \<Rightarrow> False)"
| "bc_idle c (ConsumerHandle i) \<longleftrightarrow>
     (case subs c i of
        Some r \<Rightarrow> (case b_pc r of SubIdle \<Rightarrow> True | _ \<Rightarrow> False)
      | None \<Rightarrow> False)"

definition spmc_api :: "usize \<Rightarrow> nat \<Rightarrow> ('v bc, 'v bc_event, bc_handle) handle_api" where
  "spmc_api cap n = \<lparr>api_step = bc_step cap n, api_user = bc_user, api_made = bc_made, api_idle = bc_idle\<rparr>"

text \<open>\<open>spmc::new\<close>: the slots come from the allocator and are all initialised, then the queue goes into an \<open>Arc\<close>.\<close>

definition spmc_start ::
  "(usize \<Rightarrow> 'o \<Rightarrow> fault + ('v list bslot, 'z) region_scheme) \<Rightarrow> 'v list \<Rightarrow> usize \<Rightarrow> 'o \<Rightarrow>
     fault + ('v bc, bc_handle) shared" where
  "spmc_start allocate zeroed cap options =
     map_sum id (\<lambda>_. shared_new (bc_new zeroed) ProducerHandle (ConsumerHandle 0)) (spmc_new allocate zeroed cap options)"

interpretation spmc_handles: shared_object "spmc_api cap n" "bc_reach cap n zeroed" for cap n zeroed
  by unfold_locales (auto simp: spmc_api_def intro: bc_next)

datatype sl_handle = WriterHandle | ReaderHandle nat

fun sl_user :: "'v sl_event \<Rightarrow> sl_handle" where
  "sl_user (WriteCall v) = WriterHandle"
| "sl_user (WriteStep t) = WriterHandle"
| "sl_user (ReadCall i) = ReaderHandle i"
| "sl_user (ReadStep i t) = ReaderHandle i"
| "sl_user (CloneReader i j) = ReaderHandle i"

fun sl_made :: "'v sl_event \<Rightarrow> sl_handle option" where
  "sl_made (CloneReader i j) = Some (ReaderHandle j)"
| "sl_made _ = None"

fun sl_idle :: "'v sl \<Rightarrow> sl_handle \<Rightarrow> bool" where
  "sl_idle c WriterHandle \<longleftrightarrow> w_pc c = WIdle"
| "sl_idle c (ReaderHandle i) \<longleftrightarrow> (case readers c i of Some r \<Rightarrow> r_pc r = RIdle | None \<Rightarrow> False)"

definition seqlock_api :: "nat \<Rightarrow> ('v sl, 'v sl_event, sl_handle) handle_api" where
  "seqlock_api n = \<lparr>api_step = sl_step n, api_user = sl_user, api_made = sl_made, api_idle = sl_idle\<rparr>"

definition seqlock_start :: "'v list \<Rightarrow> ('v sl, sl_handle) shared" where
  "seqlock_start initial_value = shared_new (sl_new (length initial_value) initial_value) WriterHandle (ReaderHandle 0)"

interpretation seqlock_handles: shared_object "seqlock_api n" "sl_reach n v0" for n v0
  by unfold_locales (auto simp: seqlock_api_def intro: sl_next)

section \<open>Properties\<close>

text \<open>A clone outlives the producer and the consumer it was made from.\<close>

definition demo_handles :: "(nat bc_event, bc_handle) shared_event list" where
  "demo_handles =
     map UseHandle (SubClone 0 1 # PubCall [7] # map PubStep [0, 0, 0, 0, 0, 0]) @
     [DropHandle ProducerHandle, DropHandle (ConsumerHandle 0)] @
     map UseHandle [SubCall 1, SubStep 1 1, SubStep 1 2, SubStep 1 1, SubStep 1 0, SubStep 1 2] @
     [DropHandle (ConsumerHandle 1)]"

lemma demo_handles_run:
  "map_option (map_sum id (\<lambda>s. (map_option b_results (subs (sh_object s) 1), sh_freed s)))
     (shared_run (spmc_api 2 1) (shared_new (bc_new [0]) ProducerHandle (ConsumerHandle 0)) demo_handles) =
   Some (Inr (Some [Value [7]], 1))"
  by code_simp

text \<open>
  C12: From \<open>spmc::new\<close> to the drop of the last handle, with any allocator, any number of clones and the handles
  dropped in any order and from any threads: no access comes after the free or races with it, the count of
  the \<open>Arc\<close> is the number of handles there are, the memory has been freed once if none is left and not at all
  otherwise, and a handle outside a call can always be dropped, which frees exactly when it is the last.
\<close>

theorem spmc_freed_with_last_handle:
  assumes "spmc_start allocate zeroed cap options = Inr s0" "shared_run (spmc_api cap (length zeroed)) s0 es = Some r"
  shows "\<exists>s. r = Inr s \<and> bc_reach cap (length zeroed) zeroed (sh_object s) \<and>
    strong (sh_arc s) = length (live_handles s) \<and> sh_freed s = (if \<exists>h. alive s h then 0 else 1) \<and>
    (\<forall>h. alive s h \<and> bc_idle (sh_object s) h \<longrightarrow>
       (\<exists>s'. shared_step (spmc_api cap (length zeroed)) s (DropHandle h) = Some (Inr s') \<and>
          sh_freed s' = (if set (live_handles s) \<subseteq> {h} then 1 else 0)))"
proof -
  let ?s0 = "shared_new (bc_new zeroed) ProducerHandle (ConsumerHandle 0)"
  from assms(1) have s0: "s0 = ?s0" and pow: "is_power_of_two cap"
    by (cases "spmc_new allocate zeroed cap options"; auto simp: spmc_start_def spmc_new_def split: if_splits)+
  have "shared_inv ?s0" by (rule shared_new_inv) simp
  moreover have "bc_reach cap (length zeroed) zeroed (sh_object ?s0)"
    unfolding shared_new_def by (simp add: bc_init [OF pow])
  ultimately obtain s where s: "r = Inr s" "shared_inv s" "bc_reach cap (length zeroed) zeroed (sh_object s)"
    using spmc_handles.run_inv assms(2) unfolding s0 by blast
  have idle: "api_idle (spmc_api cap n) = bc_idle" for n by (simp add: spmc_api_def)
  from s spmc_handles.freed_iff [OF s(2)] spmc_handles.drop_frees [OF s(2), of _ cap "length zeroed", unfolded idle]
  show ?thesis unfolding shared_inv_def by blast
qed

lemma demo_spmc_start:
  "spmc_start (global_allocate demo_os 16 8) [0 :: nat] 2 \<lparr>g_mlock = True\<rparr> =
     Inr (shared_new (bc_new [0]) ProducerHandle (ConsumerHandle 0))"
proof -
  have "map_sum id (\<lambda>_. ()) (spmc_new (global_allocate demo_os 16 8) [0 :: nat] 2 \<lparr>g_mlock = True\<rparr>) = Inr ()"
    by code_simp
  then show ?thesis
    by (cases "spmc_new (global_allocate demo_os 16 8) [0 :: nat] 2 \<lparr>g_mlock = True\<rparr>") (simp_all add: spmc_start_def)
qed

theorem spmc_freed_with_last_handle_witness:
  "\<exists>s. shared_run (spmc_api 2 1) (shared_new (bc_new [0 :: nat]) ProducerHandle (ConsumerHandle 0)) demo_handles = Some (Inr s) \<and>
     bc_reach 2 1 [0] (sh_object s) \<and> sh_freed s = 1 \<and> (\<forall>h. \<not> alive s h)"
proof -
  from demo_handles_run [unfolded map_run_iff] obtain s where
    s: "shared_run (spmc_api 2 1) (shared_new (bc_new [0 :: nat]) ProducerHandle (ConsumerHandle 0)) demo_handles = Some (Inr s)"
      "sh_freed s = 1" by auto
  then have run: "shared_run (spmc_api 2 (length [0 :: nat])) (shared_new (bc_new [0]) ProducerHandle (ConsumerHandle 0)) demo_handles =
      Some (Inr s)" by simp
  from spmc_freed_with_last_handle [OF demo_spmc_start run] have
    "bc_reach 2 (length [0 :: nat]) [0] (sh_object s)" "sh_freed s = (if \<exists>h. alive s h then 0 else 1)" by auto
  with s show ?thesis by (cases "\<exists>h. alive s h") auto
qed

text \<open>The same of the seqlock, from \<open>seqlock::new\<close>.\<close>

theorem seqlock_freed_with_last_handle:
  assumes "shared_run (seqlock_api (length v0)) (seqlock_start v0) es = Some r"
  shows "\<exists>s. r = Inr s \<and> sl_reach (length v0) v0 (sh_object s) \<and>
    strong (sh_arc s) = length (live_handles s) \<and> sh_freed s = (if \<exists>h. alive s h then 0 else 1) \<and>
    (\<forall>h. alive s h \<and> sl_idle (sh_object s) h \<longrightarrow>
       (\<exists>s'. shared_step (seqlock_api (length v0)) s (DropHandle h) = Some (Inr s') \<and>
          sh_freed s' = (if set (live_handles s) \<subseteq> {h} then 1 else 0)))"
proof -
  have "shared_inv (seqlock_start v0)" unfolding seqlock_start_def by (rule shared_new_inv) simp
  moreover have "sl_reach (length v0) v0 (sh_object (seqlock_start v0))"
    unfolding seqlock_start_def shared_new_def by (simp add: sl_init)
  ultimately obtain s where s: "r = Inr s" "shared_inv s" "sl_reach (length v0) v0 (sh_object s)"
    using seqlock_handles.run_inv assms by blast
  have idle: "api_idle (seqlock_api n) = sl_idle" for n by (simp add: seqlock_api_def)
  from s seqlock_handles.freed_iff [OF s(2)] seqlock_handles.drop_frees [OF s(2), of _ "length v0", unfolded idle]
  show ?thesis unfolding shared_inv_def by blast
qed

definition demo_readers :: "(nat sl_event, sl_handle) shared_event list" where
  "demo_readers = [UseHandle (CloneReader 0 1), DropHandle WriterHandle, DropHandle (ReaderHandle 0), DropHandle (ReaderHandle 1)]"

lemma demo_readers_run:
  "map_option (map_sum id sh_freed) (shared_run (seqlock_api 1) (seqlock_start [0]) demo_readers) = Some (Inr 1)"
  by code_simp

theorem seqlock_freed_with_last_handle_witness:
  "\<exists>s. shared_run (seqlock_api 1) (seqlock_start [0]) demo_readers = Some (Inr s) \<and> sh_freed s = 1 \<and> (\<forall>h. \<not> alive s h)"
proof -
  from demo_readers_run [unfolded map_run_iff] obtain s where
    s: "shared_run (seqlock_api 1) (seqlock_start [0]) demo_readers = Some (Inr s)" "sh_freed s = 1" by auto
  then have run: "shared_run (seqlock_api (length [0 :: nat])) (seqlock_start [0]) demo_readers = Some (Inr s)" by simp
  from seqlock_freed_with_last_handle [OF run] have "sh_freed s = (if \<exists>h. alive s h then 0 else 1)" by auto
  with s show ?thesis by (cases "\<exists>h. alive s h") auto
qed

end
