(* ===== verification/Spmc_Window.thy ===== *)
theory Spmc_Window
  imports Bench_Programs
begin

text \<open>
  The lapped and the capacity benchmark, \<open>src/src/bench/harness/spmc/lapped.rs\<close> and \<open>capacity_sweep.rs\<close>, on
  the weak-memory machine of the broadcast queue with the flag \<open>done\<close>. Here the producer publishes as
  fast as it can, so almost every read overlaps a publish: what \<open>Bench_Spmc\<close> treats as one step is a
  sequence of accesses, torn copies and retries. The two consumers differ in what they note of a result;
  the theory is about any such consumer, and is applied to both.
\<close>

section \<open>The two threads\<close>

text \<open>What a consumer notes: where it is in its loop, and the figures it updates on a timed result.\<close>

record 'l reader_code =
  rc_phase :: "'l \<Rightarrow> hphase"
  rc_goto :: "hphase \<Rightarrow> 'l \<Rightarrow> 'l"
  rc_result :: "u64 \<Rightarrow> u64 spmc_read_result \<Rightarrow> 'l \<Rightarrow> 'l"

definition lapped_code :: "lcons reader_code" where
  "lapped_code = \<lparr>rc_phase = l_phase, rc_goto = (\<lambda>p l. l\<lparr>l_phase := p\<rparr>), rc_result = lapped_on_result\<rparr>"

definition capacity_code :: "ccons reader_code" where
  "capacity_code = \<lparr>rc_phase = c_phase, rc_goto = (\<lambda>p l. l\<lparr>c_phase := p\<rparr>), rc_result = capacity_on_result\<rparr>"

text \<open>
  \<open>wn_t0\<close> is the clock before the read in progress. \<open>wn_done\<close> is the store of \<open>true\<close> with the view it
  publishes. \<open>wn_log\<close> is a ghost: the results of the finished calls of \<open>try_read\<close>.
\<close>

record 'l window =
  wn_queue :: "u64 bc"
  wn_prod :: wprod
  wn_done :: "bc_loc view option"
  wn_cons :: 'l
  wn_t0 :: u64
  wn_log :: "u64 spmc_read_result list"

definition window_new :: "'l \<Rightarrow> 'l window" where
  "window_new l =
     \<lparr>wn_queue = bc_new [0], wn_prod = wprod_new, wn_done = None, wn_cons = l, wn_t0 = 0, wn_log = []\<rparr>"

datatype window_event =
    WinClock u64           \<comment> \<open>the producer reads the clock and publishes, or leaves its loop\<close>
  | WinPubStep nat
  | WinStoreDone
  | WinRead u64            \<comment> \<open>the consumer reads the clock and calls \<open>try_read\<close>\<close>
  | WinReadStep nat u64    \<comment> \<open>a step of the call, and the clock after it if it was the last\<close>
  | WinLoadDone bool

definition window_read :: "'l reader_code \<Rightarrow> u64 \<Rightarrow> 'l window \<Rightarrow> u64 bc \<Rightarrow> u64 sub \<Rightarrow> 'l window" where
  "window_read code now s c r =
     (if b_pc r = SubIdle
      then let res = bench_result (last (b_results r))
        in s\<lparr>wn_queue := c, wn_cons := rc_result code (now - wn_t0 s) res (wn_cons s), wn_log := wn_log s @ [res]\<rparr>
      else s\<lparr>wn_queue := c\<rparr>)"

text \<open>
  The adapter of the crate's queue always accepts a value, so the capacity benchmark's loop over \<open>try_publish\<close>
  makes one call, as the lapped benchmark does. \<open>i\<close> is incremented with the call; nobody else reads it.
\<close>

fun window_step :: "usize \<Rightarrow> u64 \<Rightarrow> 'l reader_code \<Rightarrow> 'l window \<Rightarrow> window_event \<Rightarrow> 'l window option" where
  "window_step cap stop_at code s (WinClock now) =
     (let p = wn_prod s in
      if wp_pc p \<noteq> Publishing \<or> pub_state (wn_queue s) \<noteq> PubIdle then None
      else if now < stop_at
      then map_option (\<lambda>c. s\<lparr>wn_queue := c, wn_prod := p\<lparr>wp_i := wp_i p + 1\<rparr>\<rparr>)
        (bc_step cap 1 (wn_queue s) (PubCall [wp_i p]))
      else Some (s\<lparr>wn_prod := p\<lparr>wp_pc := StoringDone\<rparr>\<rparr>))"
| "window_step cap stop_at code s (WinPubStep t) =
     map_option (\<lambda>c. s\<lparr>wn_queue := c\<rparr>) (bc_step cap 1 (wn_queue s) (PubStep t))"
| "window_step cap stop_at code s WinStoreDone =
     (if wp_pc (wn_prod s) = StoringDone
      then Some (s\<lparr>wn_done := Some (cur (pub_view (wn_queue s))), wn_prod := (wn_prod s)\<lparr>wp_pc := Ended\<rparr>\<rparr>) else None)"
| "window_step cap stop_at code s (WinRead t0) =
     (if rc_phase code (wn_cons s) = Reading
      then map_option (\<lambda>c. s\<lparr>wn_queue := c, wn_t0 := t0\<rparr>) (bc_step cap 1 (wn_queue s) (SubCall 0)) else None)"
| "window_step cap stop_at code s (WinReadStep t now) =
     (case bc_step cap 1 (wn_queue s) (SubStep 0 t) of
        None \<Rightarrow> None
      | Some c \<Rightarrow> map_option (window_read code now s c) (subs c 0))"
| "window_step cap stop_at code s (WinLoadDone b) =
     (if rc_phase code (wn_cons s) \<noteq> CheckDone then None
      else if b
      then (case (wn_done s, subs (wn_queue s) 0) of
              (Some w, Some r) \<Rightarrow>
                Some (s\<lparr>wn_queue := (wn_queue s)\<lparr>subs := (subs (wn_queue s))(0 \<mapsto> sub_acquire w r)\<rparr>,
                        wn_cons := rc_goto code Returned (wn_cons s)\<rparr>)
            | _ \<Rightarrow> None)
      else Some (s\<lparr>wn_cons := rc_goto code Reading (wn_cons s)\<rparr>))"

inductive window_reach :: "usize \<Rightarrow> u64 \<Rightarrow> 'l reader_code \<Rightarrow> 'l \<Rightarrow> 'l window \<Rightarrow> bool" for cap stop_at code l0 where
  window_init: "is_power_of_two cap \<Longrightarrow> window_reach cap stop_at code l0 (window_new l0)"
| window_next: "window_reach cap stop_at code l0 s \<Longrightarrow> window_step cap stop_at code s e = Some s' \<Longrightarrow>
    window_reach cap stop_at code l0 s'"

fun window_run :: "usize \<Rightarrow> u64 \<Rightarrow> 'l reader_code \<Rightarrow> 'l window \<Rightarrow> window_event list \<Rightarrow> 'l window option" where
  "window_run cap stop_at code s [] = Some s"
| "window_run cap stop_at code s (e # es) =
     (case window_step cap stop_at code s e of None \<Rightarrow> None | Some s' \<Rightarrow> window_run cap stop_at code s' es)"

lemma window_reach_run:
  "window_reach cap stop_at code l0 s \<Longrightarrow> window_run cap stop_at code s es = Some s' \<Longrightarrow> window_reach cap stop_at code l0 s'"
  by (induction es arbitrary: s) (auto split: option.splits intro: window_next)

section \<open>The invariant\<close>

text \<open>The values published are the numbers from 0, and the producer stands at the next.\<close>

definition numbered :: "u64 list list \<Rightarrow> bool" where
  "numbered P \<longleftrightarrow> (\<forall>k<length P. P ! k = [of_nat k])"

lemma numbered_snoc: "numbered (P @ [[of_nat (length P)]]) = numbered P"
  by (auto simp: numbered_def nth_append less_Suc_eq)

definition window_producer_ok :: "'l window \<Rightarrow> bool" where
  "window_producer_ok s \<longleftrightarrow>
     numbered (published (wn_queue s)) \<and> wp_i (wn_prod s) = of_nat (length (published (wn_queue s))) \<and>
     (wp_pc (wn_prod s) \<noteq> Publishing \<longrightarrow> pub_state (wn_queue s) = PubIdle) \<and>
     (wn_done s = None \<longleftrightarrow> wp_pc (wn_prod s) \<noteq> Ended) \<and> wp_pc (wn_prod s) \<in> {Publishing, StoringDone, Ended} \<and>
     (\<forall>w. wn_done s = Some w \<longrightarrow> view_within (bc_newest (wn_queue s)) w)"

definition window_consumer_ok :: "'l reader_code \<Rightarrow> (u64 spmc_read_result list \<Rightarrow> 'l \<Rightarrow> bool) \<Rightarrow> 'l window \<Rightarrow> u64 sub \<Rightarrow> bool" where
  "window_consumer_ok code account s r \<longleftrightarrow>
     b_start r = 0 \<and> wn_log s = map bench_result (b_results r) \<and> account (wn_log s) (wn_cons s) \<and>
     rc_phase code (wn_cons s) \<in> {Reading, CheckDone, Returned} \<and>
     (rc_phase code (wn_cons s) \<noteq> Reading \<longrightarrow> b_pc r = SubIdle) \<and>
     (rc_phase code (wn_cons s) = Returned \<longrightarrow> wn_done s \<noteq> None)"

definition window_inv :: "usize \<Rightarrow> 'l reader_code \<Rightarrow> (u64 spmc_read_result list \<Rightarrow> 'l \<Rightarrow> bool) \<Rightarrow> 'l window \<Rightarrow> bool" where
  "window_inv cap code account s \<longleftrightarrow>
     cast_queue_ok cap (wn_queue s) \<and> window_producer_ok s \<and>
     (\<exists>r. subs (wn_queue s) 0 = Some r \<and> window_consumer_ok code account s r)"

fun window_reader_event :: "window_event \<Rightarrow> bool" where
  "window_reader_event (WinRead t0) = True"
| "window_reader_event (WinReadStep t now) = True"
| "window_reader_event (WinLoadDone b) = True"
| "window_reader_event _ = False"

lemma window_invE:
  assumes "window_inv cap code account s"
  obtains r where "subs (wn_queue s) 0 = Some r" "cast_queue_ok cap (wn_queue s)" "window_producer_ok s"
    "window_consumer_ok code account s r"
  using assms by (auto simp: window_inv_def)

text \<open>The laws of a consumer: it notes each result, checks \<open>done\<close> after an empty one, and its phase is its own.\<close>

locale timed_reader =
  fixes code :: "'l reader_code" and account :: "u64 spmc_read_result list \<Rightarrow> 'l \<Rightarrow> bool"
  assumes result_account: "account rs l \<Longrightarrow> account (rs @ [x]) (rc_result code dt x l)"
    and result_phase: "rc_phase code (rc_result code dt x l) = (if x = SEmpty then CheckDone else rc_phase code l)"
    and goto_phase: "rc_phase code (rc_goto code p l) = p"
    and goto_account: "account rs (rc_goto code p l) = account rs l"
begin

lemma read_step_inv:
  assumes inv: "window_inv cap code account s" and r: "subs (wn_queue s) 0 = Some r"
    and step: "sub_step cap 1 t (wn_queue s) r = Some r'"
    and c: "c = (wn_queue s)\<lparr>subs := (subs (wn_queue s))(0 \<mapsto> r')\<rparr>"
  shows "window_inv cap code account (window_read code now s c r')"
proof -
  let ?q = "wn_queue s"
  from inv r have q: "cast_queue_ok cap ?q" and p: "window_producer_ok s" and k: "window_consumer_ok code account s r"
    by (auto elim!: window_invE)
  have ev: "bc_step cap 1 ?q (SubStep 0 t) = Some c" using r step by (simp add: c)
  note ok = cast_queue_step [OF q ev]
  note f = sub_step_frame [OF step]
  have newest: "bc_newest c = bc_newest ?q" by (rule bc_newest_cong) (simp_all add: c)
  have phase: "rc_phase code (wn_cons s) = Reading"
    using k sub_step_busy [OF step] by (auto simp: window_consumer_ok_def)
  have p': "window_producer_ok (window_read code now s c r')"
    using p newest by (auto simp: window_producer_ok_def window_read_def Let_def c)
  have "window_consumer_ok code account (window_read code now s c r') r'"
  proof (cases "b_pc r' = SubIdle")
    case False
    with f k phase show ?thesis by (auto simp: window_consumer_ok_def window_read_def)
  next
    case True
    with f obtain x where "b_results r' = b_results r @ [x]" "b_start r' = b_start r" by blast
    with True k phase show ?thesis
      by (auto simp: window_consumer_ok_def window_read_def Let_def result_phase dest: result_account)
  qed
  moreover have "wn_queue (window_read code now s c r') = c" by (simp add: window_read_def Let_def)
  ultimately show ?thesis using ok p' by (simp add: window_inv_def) (simp add: c)
qed

lemma step_inv:
  assumes inv: "window_inv cap code account s" and step: "window_step cap stop_at code s e = Some s'"
  shows "window_inv cap code account s'"
  using inv
proof (rule window_invE)
  let ?q = "wn_queue s"
  fix r assume r: "subs ?q 0 = Some r" and q: "cast_queue_ok cap ?q" and p: "window_producer_ok s"
    and k: "window_consumer_ok code account s r"
  show ?thesis
  proof (cases e)
    case (WinClock now)
    show ?thesis
    proof (cases "now < stop_at")
      case False
      with WinClock step have s': "s' = s\<lparr>wn_prod := (wn_prod s)\<lparr>wp_pc := StoringDone\<rparr>\<rparr>"
        and "pub_state ?q = PubIdle" "wp_pc (wn_prod s) = Publishing" by (auto simp: Let_def split: if_splits)
      with p k q r show ?thesis by (auto simp: window_inv_def window_producer_ok_def window_consumer_ok_def)
    next
      case True
      with WinClock step obtain c where c: "bc_step cap 1 ?q (PubCall [wp_i (wn_prod s)]) = Some c"
        and pc: "pub_state ?q = PubIdle" "wp_pc (wn_prod s) = Publishing"
        and s': "s' = s\<lparr>wn_queue := c, wn_prod := (wn_prod s)\<lparr>wp_i := wp_i (wn_prod s) + 1\<rparr>\<rparr>"
        by (auto simp: Let_def split: if_splits)
      from c pc(1) have c': "c = ?q\<lparr>pub_state := PubLoad [wp_i (wn_prod s)], published := published ?q @ [[wp_i (wn_prod s)]]\<rparr>"
        by simp
      have "window_producer_ok s'" using p pc by (auto simp: window_producer_ok_def s' c' numbered_snoc)
      moreover have "window_consumer_ok code account s' r" using k by (auto simp: window_consumer_ok_def s')
      ultimately show ?thesis using cast_queue_step [OF q c] r by (auto simp: window_inv_def s' c')
    qed
  next
    case (WinPubStep t)
    with step obtain c where c: "pub_step cap 1 t ?q = Some c" and s': "s' = s\<lparr>wn_queue := c\<rparr>" by auto
    then have busy: "pub_state ?q \<noteq> PubIdle" by (auto simp: pub_step_def)
    note f = pub_step_rank [OF c]
    from p busy have "wn_done s = None" "wp_pc (wn_prod s) = Publishing" by (auto simp: window_producer_ok_def)
    with p f have "window_producer_ok s'" by (auto simp: window_producer_ok_def s')
    moreover have "window_consumer_ok code account s' r" using k by (auto simp: window_consumer_ok_def s')
    ultimately show ?thesis using cast_queue_step [OF q, of "PubStep t" c] c r f by (auto simp: window_inv_def s')
  next
    case WinStoreDone
    with step have pc: "wp_pc (wn_prod s) = StoringDone"
      and s': "s' = s\<lparr>wn_done := Some (cur (pub_view ?q)), wn_prod := (wn_prod s)\<lparr>wp_pc := Ended\<rparr>\<rparr>"
      by (auto split: if_splits)
    have "view_within (bc_newest ?q) (cur (pub_view ?q))"
      using q by (auto simp: cast_queue_ok_def tview_within_def dest: bc_withinD(7))
    with p k pc q r show ?thesis by (auto simp: window_inv_def window_producer_ok_def window_consumer_ok_def s')
  next
    case (WinRead t0)
    with step obtain c where c: "bc_step cap 1 ?q (SubCall 0) = Some c" and ph: "rc_phase code (wn_cons s) = Reading"
      and s': "s' = s\<lparr>wn_queue := c, wn_t0 := t0\<rparr>" by (auto split: if_splits)
    from c r have c': "c = ?q\<lparr>subs := (subs ?q)(0 \<mapsto> sub_call r)\<rparr>" by (auto split: sub_pc.splits)
    have newest: "bc_newest c = bc_newest ?q" by (rule bc_newest_cong) (simp_all add: c')
    have "window_producer_ok s'" using p newest by (simp add: window_producer_ok_def s' c')
    moreover have "window_consumer_ok code account s' (sub_call r)"
      using k ph by (auto simp: window_consumer_ok_def s' sub_call_def)
    ultimately show ?thesis using cast_queue_step [OF q c] by (auto simp: window_inv_def s' c')
  next
    case (WinReadStep t now)
    with step r obtain r' c where st: "sub_step cap 1 t ?q r = Some r'"
      and c: "c = ?q\<lparr>subs := (subs ?q)(0 \<mapsto> r')\<rparr>" and s': "s' = window_read code now s c r'"
      by (auto split: option.splits)
    show ?thesis unfolding s' by (rule read_step_inv [OF inv r st c])
  next
    case (WinLoadDone b)
    show ?thesis
    proof (cases b)
      case False
      with WinLoadDone step have s': "s' = s\<lparr>wn_cons := rc_goto code Reading (wn_cons s)\<rparr>" by (auto split: if_splits)
      have "window_producer_ok s'" using p by (simp add: window_producer_ok_def s')
      moreover have "window_consumer_ok code account s' r"
        using k by (auto simp: window_consumer_ok_def s' goto_phase goto_account)
      ultimately show ?thesis using q r by (auto simp: window_inv_def s')
    next
      case True
      let ?c = "\<lambda>w. ?q\<lparr>subs := (subs ?q)(0 \<mapsto> sub_acquire w r)\<rparr>"
      from True WinLoadDone step r obtain w where w: "rc_phase code (wn_cons s) = CheckDone" "wn_done s = Some w"
        and s': "s' = s\<lparr>wn_queue := ?c w, wn_cons := rc_goto code Returned (wn_cons s)\<rparr>"
        by (auto split: if_splits option.splits)
      from p k w have v: "view_within (bc_newest ?q) w" "b_pc r = SubIdle"
        by (simp_all add: window_producer_ok_def window_consumer_ok_def)
      have newest: "bc_newest (?c w) = bc_newest ?q" by (rule bc_newest_cong) simp_all
      have "cast_queue_ok cap (?c w)"
        using q r v by (auto simp: cast_queue_ok_def intro: bc_inv_acquire bc_within_acquire)
      moreover have "window_producer_ok s'" using p newest by (simp add: window_producer_ok_def s')
      moreover have "window_consumer_ok code account s' (sub_acquire w r)"
        using k w v(2) by (auto simp: window_consumer_ok_def s' goto_phase goto_account sub_acquire_def)
      ultimately show ?thesis by (auto simp: window_inv_def s')
    qed
  qed
qed

lemma reach_inv:
  assumes "window_reach cap stop_at code l0 s" "account [] l0" "rc_phase code l0 = Reading"
  shows "window_inv cap code account s"
  using assms(1)
proof (induction rule: window_reach.induct)
  case window_init
  have "bc_reach cap 1 [0] (bc_new [0 :: u64])" by (rule bc_init [OF window_init]) simp
  from bc_reach_inv [OF this] bc_reach_within [OF this] assms(2,3) show ?case
    by (auto simp: window_inv_def cast_queue_ok_def window_new_def window_producer_ok_def window_consumer_ok_def
        bc_new_def numbered_def wprod_new_def)
next
  case (window_next s e s')
  from step_inv [OF window_next.IH window_next.hyps(2)] show ?case .
qed

lemma producer_live:
  assumes inv: "window_inv cap code account s" and none: "wn_done s = None"
  shows "\<exists>e s'. \<not> window_reader_event e \<and> window_step cap stop_at code s e = Some s'"
  using inv
proof (rule window_invE)
  let ?q = "wn_queue s"
  assume "cast_queue_ok cap ?q" and p: "window_producer_ok s"
  then have w: "bc_within ?q" by (simp add: cast_queue_ok_def)
  show ?thesis
  proof (cases "pub_state ?q = PubIdle")
    case False
    from pub_step_enabled [OF w False, of cap 1] obtain c where "pub_step cap 1 (bc_newest ?q WCur) ?q = Some c" by blast
    then show ?thesis by (intro exI [of _ "WinPubStep (bc_newest ?q WCur)"]) (simp del: bc_newest_simps)
  next
    case True
    from p none consider "wp_pc (wn_prod s) = Publishing" | "wp_pc (wn_prod s) = StoringDone"
      by (auto simp: window_producer_ok_def)
    then show ?thesis
    proof cases
      case 1
      with True show ?thesis by (intro exI [of _ "WinClock 0"]) (simp add: Let_def)
    next
      case 2
      then show ?thesis by (intro exI [of _ WinStoreDone]) simp
    qed
  qed
qed

lemma consumer_live:
  assumes inv: "window_inv cap code account s" and run: "rc_phase code (wn_cons s) \<noteq> Returned"
  shows "\<exists>e s'. window_reader_event e \<and> window_step cap stop_at code s e = Some s'"
  using inv
proof (rule window_invE)
  let ?q = "wn_queue s"
  fix r assume r: "subs ?q 0 = Some r" and k: "window_consumer_ok code account s r" and "cast_queue_ok cap ?q"
  then have w: "bc_within ?q" by (simp add: cast_queue_ok_def)
  from k run consider "rc_phase code (wn_cons s) = CheckDone" | "rc_phase code (wn_cons s) = Reading"
    by (auto simp: window_consumer_ok_def)
  then show ?thesis
  proof cases
    case 1
    then show ?thesis by (intro exI [of _ "WinLoadDone False"]) simp
  next
    case 2
    show ?thesis
    proof (cases "b_pc r = SubIdle")
      case True
      with 2 r show ?thesis by (intro exI [of _ "WinRead 0"]) simp
    next
      case False
      from sub_step_enabled [OF w r False, of cap 1] obtain r' where
        "sub_step cap 1 (bc_newest ?q (sub_next_loc cap r)) ?q r = Some r'" by blast
      with r show ?thesis by (intro exI [of _ "WinReadStep (bc_newest ?q (sub_next_loc cap r)) 0"]) simp
    qed
  qed
qed

lemma ends_stay:
  assumes "window_inv cap code account s" "window_step cap stop_at code s e = Some s'"
  shows "(wn_done s \<noteq> None \<longrightarrow> wn_done s' \<noteq> None) \<and>
    (rc_phase code (wn_cons s) = Returned \<longrightarrow> rc_phase code (wn_cons s') = Returned)"
  using assms(1)
proof (rule window_invE)
  fix r assume r: "subs (wn_queue s) 0 = Some r" and k: "window_consumer_ok code account s r"
  show ?thesis
  proof (cases e)
    case (WinReadStep t now)
    with assms(2) r obtain r' c where st: "sub_step cap 1 t (wn_queue s) r = Some r'" and s': "s' = window_read code now s c r'"
      by (auto split: option.splits)
    from k sub_step_busy [OF st] have "rc_phase code (wn_cons s) \<noteq> Returned" by (auto simp: window_consumer_ok_def)
    then show ?thesis by (simp add: s' window_read_def Let_def)
  qed (use assms(2) in \<open>auto simp: Let_def split: if_splits option.splits\<close>)
qed

text \<open>What the log of the consumer says about the values: numbers from the producer's, in order, and every gap announced.\<close>

lemma log_account:
  assumes "window_inv cap code account s" "length (published (wn_queue s)) \<le> 2 ^ 63"
  shows "sorted_wrt (<) (map unat (s_received (wn_log s)))"
    "\<forall>v\<in>set (s_received (wn_log s)). unat v < length (published (wn_queue s))"
    "length (s_received (wn_log s)) + s_skipped (wn_log s) \<le> length (published (wn_queue s))"
proof -
  let ?P = "published (wn_queue s)"
  from assms(1) obtain r where r: "subs (wn_queue s) 0 = Some r" and q: "bc_inv cap 1 (wn_queue s)"
    and P: "numbered ?P" and start: "b_start r = 0" and log: "wn_log s = map bench_result (b_results r)"
    by (auto simp: cast_queue_ok_def window_producer_ok_def window_consumer_ok_def elim!: window_invE)
  from bc_inv_sub(1) [OF q r assms(2)] have ex: "explained (unat cap) ?P (b_start r) (b_results r)" by (rule sub_invE)
  have big: "length ?P < 2 ^ 64" using assms(2) by simp
  have num: "map (\<lambda>v. unat (hd v)) ?P = [0..<length ?P]"
    using P big by (intro nth_equalityI) (auto simp: numbered_def unat_of_nat_usize)
  have "subseq (received (b_results r)) ?P" using explained_subseq [OF ex] start by simp
  then have "subseq (map (\<lambda>v. unat (hd v)) (received (b_results r))) [0..<length ?P]"
    unfolding num [symmetric] by (rule subseq_map)
  moreover have "map unat (s_received (wn_log s)) = map (\<lambda>v. unat (hd v)) (received (b_results r))"
    unfolding log bench_results_received by simp
  ultimately have sub: "subseq (map unat (s_received (wn_log s))) [0..<length ?P]" by simp
  from sub show "sorted_wrt (<) (map unat (s_received (wn_log s)))" by (rule sorted_wrt_subseq) simp
  have "set (map unat (s_received (wn_log s))) \<subseteq> set [0..<length ?P]" using list_emb_set [OF sub] by blast
  then show "\<forall>v\<in>set (s_received (wn_log s)). unat v < length ?P" by auto
  have "length (s_received (wn_log s)) + s_skipped (wn_log s) = sub_pos r"
    unfolding log bench_results_received bench_results_skipped by (simp add: sub_pos_def start advance_total)
  then show "length (s_received (wn_log s)) + s_skipped (wn_log s) \<le> length ?P"
    using explained_pos [OF ex] start by (simp add: sub_pos_def)
qed

end

section \<open>Both benchmarks from the spawns to the joins\<close>

definition window_body :: "usize \<Rightarrow> u64 \<Rightarrow> 'l reader_code \<Rightarrow> ('l window, window_event) bench_body" where
  "window_body cap stop_at code =
     \<lparr>bb_step = (\<lambda>s e. map_option Inr (window_step cap stop_at code s e)), bb_mine = window_reader_event,
      bb_p_end = (\<lambda>s. wn_done s \<noteq> None), bb_c_end = (\<lambda>s. rc_phase code (wn_cons s) = Returned)\<rparr>"

definition window_final :: "'l reader_code \<Rightarrow> 'l window \<Rightarrow> bool" where
  "window_final code s \<longleftrightarrow> wn_done s \<noteq> None \<and> rc_phase code (wn_cons s) = Returned"

sublocale timed_reader \<subseteq> run: correct_body "window_body cap stop_at code" "window_inv cap code account" "window_final code"
  for cap stop_at
proof unfold_locales
  fix x e r
  assume inv: "window_inv cap code account x"
  { assume "bb_step (window_body cap stop_at code) x e = Some r"
    then show "\<exists>x'. r = Inr x' \<and> window_inv cap code account x'"
      using step_inv [OF inv] by (auto simp: window_body_def) }
  { assume "\<not> bb_p_end (window_body cap stop_at code) x"
    then show "\<exists>e r. \<not> bb_mine (window_body cap stop_at code) e \<and> bb_step (window_body cap stop_at code) x e = Some r"
      using producer_live [OF inv] by (fastforce simp: window_body_def) }
  { assume "\<not> bb_c_end (window_body cap stop_at code) x"
    then show "\<exists>e r. bb_mine (window_body cap stop_at code) e \<and> bb_step (window_body cap stop_at code) x e = Some r"
      using consumer_live [OF inv] by (fastforce simp: window_body_def) }
  { assume "bb_p_end (window_body cap stop_at code) x" "bb_c_end (window_body cap stop_at code) x"
    then show "window_final code x" by (simp add: window_body_def window_final_def) }
  fix x'
  assume "bb_step (window_body cap stop_at code) x e = Some (Inr x')"
  then have "window_step cap stop_at code x e = Some x'" by (auto simp: window_body_def)
  from ends_stay [OF inv this]
  show "(bb_p_end (window_body cap stop_at code) x \<longrightarrow> bb_p_end (window_body cap stop_at code) x') \<and>
      (bb_c_end (window_body cap stop_at code) x \<longrightarrow> bb_c_end (window_body cap stop_at code) x')"
    by (simp add: window_body_def)
qed

definition window_program :: "pin \<Rightarrow> pin \<Rightarrow> usize \<Rightarrow> u64 \<Rightarrow> 'l reader_code \<Rightarrow> 'l \<Rightarrow> ('l window, window_event) bench_program" where
  "window_program p c cap stop_at code l0 =
     \<lparr>bp_start = harness_start p c, bp_body = window_body cap stop_at code, bp_new = window_new l0\<rparr>"

context timed_reader
begin

lemma program_ok:
  assumes new: "is_power_of_two cap" "account [] l0" "rc_phase code l0 = Reading" and pins: "pinned p" "pinned c"
    and reach: "program_reach (window_program p c cap stop_at code l0) s"
  shows "window_inv cap code account (th_body s)" "th_main s \<noteq> MainPanic"
    "th_main s \<noteq> MainReport \<Longrightarrow> \<exists>e s'. program_step (window_program p c cap stop_at code l0) s e = Some (Inr s')"
    "th_main s = MainReport \<Longrightarrow> window_final code (th_body s)"
proof -
  let ?body = "window_body cap stop_at code" and ?st = "harness_start p c"
  have init: "window_inv cap code account (window_new l0)" by (rule reach_inv [OF window_init [OF new(1)] new(2,3)])
  have th: "th_reach ?st ?body (window_new l0) s"
    using reach by (simp add: program_reach_def window_program_def)
  have pin: "pinned (producer_pin ?st)" "pinned (consumer_pin ?st)" using pins by (simp_all add: harness_start_def)
  have ok: "run.run_ok cap stop_at s" by (rule run.run_reach [OF th init])
  then show "window_inv cap code account (th_body s)" by (simp add: run.run_ok_def)
  show "th_main s \<noteq> MainPanic" by (rule pinned_no_panic [OF th pin(1)])
  show "\<exists>e s'. program_step (window_program p c cap stop_at code l0) s e = Some (Inr s')" if "th_main s \<noteq> MainReport"
    using run.run_not_stuck [OF th init pin that] run.run_step [OF ok]
    unfolding program_step_def window_program_def by fastforce
  show "window_final code (th_body s)" if "th_main s = MainReport" by (rule run.run_final [OF th init that])
qed

end

lemma timed_result_phase:
  "l_phase (lapped_on_result dt x l) = (if x = SEmpty then CheckDone else l_phase l)"
  "c_phase (capacity_on_result dt x k) = (if x = SEmpty then CheckDone else c_phase k)"
  by (cases x; simp add: Let_def)+

interpretation lapped_reader: timed_reader lapped_code lcons_inv
  by unfold_locales (simp_all add: lapped_code_def lapped_on_result_inv timed_result_phase lcons_inv_def [of _ "_\<lparr>l_phase := _\<rparr>"],
      simp add: lcons_inv_def)

interpretation capacity_reader: timed_reader capacity_code ccons_inv
  by unfold_locales (simp_all add: capacity_code_def capacity_on_result_inv timed_result_phase ccons_inv_def [of _ "_\<lparr>c_phase := _\<rparr>"],
      simp add: ccons_inv_def)

section \<open>Properties\<close>

text \<open>
  One value is published and read, one after the last read: the consumer then finds \<open>done\<close>. Of four entries of
  \<open>map BodyStep\<close>, a publish takes a call and six steps, a read that finds its value a call and six.
\<close>

definition window_events :: "window_event list" where
  "window_events =
     WinClock 10 # map WinPubStep [0, 0, 0, 0, 0, 0] @
     [WinRead 11, WinReadStep 1 0, WinReadStep 2 0, WinReadStep 1 0, WinReadStep 0 0, WinReadStep 2 18,
      WinRead 19, WinReadStep 1 21, WinClock 14] @ map WinPubStep [1, 0, 0, 0, 0, 0] @
     [WinClock 20, WinStoreDone, WinLoadDone True]"

definition demo_window :: "'l reader_code \<Rightarrow> 'l \<Rightarrow> ('l window, window_event) bench_program" where
  "demo_window code l0 = window_program (demo_pin 2 True) (demo_pin 3 True) 2 15 code l0"

lemma demo_window_run:
  "map_option (map_sum id (\<lambda>s. (th_main s, wn_log (th_body s), published (wn_queue (th_body s)))))
     (program_run (demo_window lapped_code lcons_new) (start_events @ map BodyStep window_events @ end_events)) =
   Some (Inr (MainReport, [SValue 0, SEmpty], [[0], [1]]))"
  by code_simp

lemma length_nonempty_drop:
  "length (nonempty rs) - k = length (s_received (drop k (nonempty rs))) + length (s_skips (drop k (nonempty rs)))"
  using length_nonempty [of "drop k (nonempty rs)"] by (simp add: nonempty_drop)

text \<open>
  C15: One delay of the lapped benchmark under weak memory, from the spawns to the joins with pinned threads, where
  reads overlap publishes, are torn and retried: \<open>main\<close> does not panic and the program can go on until
  \<open>main\<close> has its results; the consumer receives numbers the producer has published, in order, without
  repetition; what it received and what it was told to have skipped is no more than what was published;
  and the result counts every value and every lap after the first 1000 of them.
\<close>

theorem lapped_weak_runs:
  assumes "is_power_of_two cap" "pinned p" "pinned c"
    "program_reach (window_program p c cap stop_at lapped_code lcons_new) s"
    "length (published (wn_queue (th_body s))) \<le> 2 ^ 63"
  shows "th_main s \<noteq> MainPanic \<and>
    (th_main s \<noteq> MainReport \<longrightarrow>
       (\<exists>e s'. program_step (window_program p c cap stop_at lapped_code lcons_new) s e = Some (Inr s'))) \<and>
    sorted_wrt (<) (map unat (s_received (wn_log (th_body s)))) \<and>
    (\<forall>v\<in>set (s_received (wn_log (th_body s))). unat v < length (published (wn_queue (th_body s)))) \<and>
    length (s_received (wn_log (th_body s))) + s_skipped (wn_log (th_body s)) \<le> length (published (wn_queue (th_body s))) \<and>
    (th_main s = MainReport \<longrightarrow>
       unat (wp_i (wn_prod (th_body s))) = length (published (wn_queue (th_body s))) \<and>
       l_values (wn_cons (th_body s)) + l_lapped (wn_cons (th_body s)) = length (nonempty (wn_log (th_body s))) - 1000 \<and>
       length (value_hist (wn_cons (th_body s))) = l_values (wn_cons (th_body s)) \<and>
       skipped_hist (wn_cons (th_body s)) = s_skips (drop 1000 (nonempty (wn_log (th_body s)))))"
proof -
  have new: "lcons_inv [] lcons_new" "rc_phase lapped_code lcons_new = Reading"
    by (simp_all add: lcons_inv_def lcons_new_def lapped_code_def nonempty_def)
  note ok = lapped_reader.program_ok [OF assms(1) new assms(2-4)]
  from ok(1) have count: "wp_i (wn_prod (th_body s)) = of_nat (length (published (wn_queue (th_body s))))"
    and account: "lcons_inv (wn_log (th_body s)) (wn_cons (th_body s))"
    by (auto simp: window_producer_ok_def window_consumer_ok_def elim!: window_invE)
  have "length (published (wn_queue (th_body s))) < 2 ^ 64" using assms(5) by simp
  then have "unat (wp_i (wn_prod (th_body s))) = length (published (wn_queue (th_body s)))"
    unfolding count by (simp only: unat_of_nat_usize mod_less)
  with ok(2,3) lapped_reader.log_account [OF ok(1) assms(5)] account show ?thesis
    by (simp add: lcons_inv_def WARMUP_def length_nonempty_drop)
qed

text \<open>
  The witness is a run that ends while a published value is unread: unlike the handoff benchmark, the thread does
  not drain the queue once it has seen \<open>done\<close>, so \<open>published\<close> can exceed what values and skips add up to.
\<close>

theorem lapped_weak_runs_witness:
  "\<exists>s. program_reach (demo_window lapped_code lcons_new) s \<and> th_main s = MainReport \<and>
     unat (wp_i (wn_prod (th_body s))) = 2 \<and> s_received (wn_log (th_body s)) = [0] \<and> s_skipped (wn_log (th_body s)) = 0"
proof -
  from demo_window_run [unfolded program_run_iff] obtain s where
    s: "program_run (demo_window lapped_code lcons_new) (start_events @ map BodyStep window_events @ end_events) = Some (Inr s)"
      "th_main s = MainReport" "wn_log (th_body s) = [SValue 0, SEmpty]" "published (wn_queue (th_body s)) = [[0], [1]]" by auto
  from program_reach_run [OF s(1)] have reach: "program_reach (demo_window lapped_code lcons_new) s" .
  have pins: "pinned (demo_pin 2 True)" "pinned (demo_pin 3 True)" by code_simp+
  have "length (published (wn_queue (th_body s))) \<le> 2 ^ 63" by (simp add: s(4))
  from lapped_weak_runs [OF demo_two_power pins reach [unfolded demo_window_def] this] s reach
  have "unat (wp_i (wn_prod (th_body s))) = 2" by simp
  with reach s(2,3) show ?thesis by (auto simp: s_skipped_def)
qed

text \<open>One capacity of the capacity sweep likewise.\<close>

theorem capacity_weak_runs:
  assumes "is_power_of_two cap" "pinned p" "pinned c"
    "program_reach (window_program p c cap stop_at capacity_code ccons_new) s"
    "length (published (wn_queue (th_body s))) \<le> 2 ^ 63"
  shows "th_main s \<noteq> MainPanic \<and>
    (th_main s \<noteq> MainReport \<longrightarrow>
       (\<exists>e s'. program_step (window_program p c cap stop_at capacity_code ccons_new) s e = Some (Inr s'))) \<and>
    sorted_wrt (<) (map unat (s_received (wn_log (th_body s)))) \<and>
    length (s_received (wn_log (th_body s))) + s_skipped (wn_log (th_body s)) \<le> length (published (wn_queue (th_body s))) \<and>
    c_values (wn_cons (th_body s)) + c_lapped (wn_cons (th_body s)) = length (nonempty (wn_log (th_body s))) - 1000 \<and>
    length (c_value_hist (wn_cons (th_body s))) = c_values (wn_cons (th_body s))"
proof -
  have new: "ccons_inv [] ccons_new" "rc_phase capacity_code ccons_new = Reading"
    by (simp_all add: ccons_inv_def ccons_new_def capacity_code_def nonempty_def)
  note ok = capacity_reader.program_ok [OF assms(1) new assms(2-4)]
  from ok(1) have "ccons_inv (wn_log (th_body s)) (wn_cons (th_body s))"
    by (auto simp: window_consumer_ok_def elim!: window_invE)
  with ok(2,3) capacity_reader.log_account [OF ok(1) assms(5)] show ?thesis
    by (simp add: ccons_inv_def WARMUP_def length_nonempty_drop)
qed

end
