(* ===== verification/Seqlock_Test.thy ===== *)
theory Seqlock_Test
  imports Bench_Runs
begin

text \<open>
  The end of the test \<open>single_writer_multi_reader\<close> of \<open>src/src/seqlock/lock.rs\<close>: that its barrier, which \<open>R\<close>
  readers and the writer call once per value, never leaves all of them waiting, so that the joins are
  reached, and the assertion on what the readers collected. The threads are those of \<open>Seqlock_Clients\<close>.
\<close>

section \<open>The joins and the assertion\<close>

text \<open>The writer's \<open>for\<close> loop and every reader's \<open>loop\<close> have ended.\<close>

definition writer_ended :: "'v swmr \<Rightarrow> bool" where
  "writer_ended s \<longleftrightarrow> \<not> wait_next s \<and> w_arrived s = w_passed s \<and> to_write s = []"

definition reader_ended :: "nat \<Rightarrow> 'v swmr \<Rightarrow> nat \<Rightarrow> bool" where
  "reader_ended full s i \<longleftrightarrow> length (collected s i) = full \<and> r_arrived s i = r_passed s i"

definition swmr_joined :: "nat \<Rightarrow> nat \<Rightarrow> 'v swmr \<Rightarrow> bool" where
  "swmr_joined R full s \<longleftrightarrow> writer_ended s \<and> list_all (reader_ended full s) [0..<R]"

definition swmr_results :: "nat \<Rightarrow> 'v swmr \<Rightarrow> 'v list list list" where
  "swmr_results R s = map (collected s) [0..<R]"

definition swmr_assertion :: "'v list list \<Rightarrow> 'v list list list \<Rightarrow> bool" where
  "swmr_assertion vals results = list_all (\<lambda>result. length result = length vals + 1 \<and> drop 1 result = vals) results"

section \<open>Nobody waits for ever\<close>

text \<open>A reader is in a call of \<open>read\<close> only between two waits, and waits at most once at a time.\<close>

definition reader_turn :: "nat \<Rightarrow> 'v swmr \<Rightarrow> nat \<Rightarrow> bool" where
  "reader_turn full s i \<longleftrightarrow>
     (r_arrived s i = r_passed s i \<or> r_arrived s i = Suc (r_passed s i)) \<and>
     (\<forall>r. readers (lock s) i = Some r \<and> r_pc r \<noteq> RIdle \<longrightarrow> r_arrived s i = r_passed s i \<and> length (collected s i) \<noteq> full)"

lemma reader_turn_cong:
  assumes "reader_turn full s i" "r_arrived s' i = r_arrived s i" "r_passed s' i = r_passed s i"
    "collected s' i = collected s i" "readers (lock s') i = readers (lock s) i"
  shows "reader_turn full s' i"
  using assms by (simp add: reader_turn_def)

lemma reader_turn_step:
  assumes turn: "reader_turn full s j" and step: "swmr_step n R full s e = Some s'"
  shows "reader_turn full s' j"
proof (cases e)
  case WriterCall
  with step have "r_arrived s' = r_arrived s \<and> r_passed s' = r_passed s \<and> collected s' = collected s \<and>
      readers (lock s') = readers (lock s)"
    by (auto split: if_splits list.splits option.splits)
  then show ?thesis by (intro reader_turn_cong [OF turn]) simp_all
next
  case (WriterStep ts)
  with step obtain c where "sl_write_step n ts (lock s) = Some c" and s': "s' = s\<lparr>lock := c\<rparr>" by auto
  then have "readers c = readers (lock s)" by (auto dest: sl_write_step_keeps)
  with s' show ?thesis by (intro reader_turn_cong [OF turn]) simp_all
next
  case (ReaderCall i)
  with step obtain c where i: "r_arrived s i = r_passed s i" "length (collected s i) \<noteq> full"
    and c: "sl_step n (lock s) (ReadCall i) = Some c" and s': "s' = s\<lparr>lock := c\<rparr>" by (auto split: if_splits)
  show ?thesis
  proof (cases "j = i")
    case True
    with i s' show ?thesis by (simp add: reader_turn_def)
  next
    case False
    with sl_step_keeps(2) [OF disjI1 [OF c] False] s' show ?thesis by (intro reader_turn_cong [OF turn]) simp_all
  qed
next
  case (ReaderStep i ts)
  with step obtain c r where c: "sl_step n (lock s) (ReadStep i ts) = Some c" and r: "readers c i = Some r"
    and s': "s' = (if r_pc r = RIdle then collect_item i (last (r_got r)) (s\<lparr>lock := c\<rparr>) else s\<lparr>lock := c\<rparr>)"
    by (auto simp: Let_def split: if_splits option.splits)
  show ?thesis
  proof (cases "j = i")
    case False
    with sl_step_keeps(2) [OF disjI2 [OF c] False] s' show ?thesis
      by (intro reader_turn_cong [OF turn]) (simp_all add: collect_item_def)
  next
    case True
    from c obtain r0 where r0: "readers (lock s) i = Some r0" by (auto split: option.splits)
    note sl_read_step_busy [OF c this]
    with turn True r0 have "r_arrived s i = r_passed s i" "length (collected s i) \<noteq> full" by (auto simp: reader_turn_def)
    with True r s' show ?thesis by (simp add: reader_turn_def collect_item_def)
  qed
next
  case (ReaderPass i)
  with step have "s' = s\<lparr>r_passed := (r_passed s)(i := r_passed s i + 1)\<rparr>" "r_arrived s i = Suc (r_passed s i)"
    by (auto split: if_splits)
  with turn show ?thesis by (auto simp: reader_turn_def)
qed (use turn step in \<open>auto simp: reader_turn_def split: if_splits\<close>)

lemma swmr_turn: "swmr_reach n R v0 vals s \<Longrightarrow> i < R \<Longrightarrow> reader_turn (Suc (length vals)) s i"
proof (induction rule: swmr_reach.induct)
  case swmr_init
  then show ?case by (simp add: reader_turn_def swmr_new_def swmr_lock_def reader_new_def)
next
  case (swmr_next s e s')
  from reader_turn_step [OF swmr_next.IH [OF swmr_next.prems] swmr_next.hyps(2)] show ?case .
qed

text \<open>A thread that is at the barrier, and how often it has come there.\<close>

definition waits_at :: "nat \<Rightarrow> 'v swmr \<Rightarrow> nat \<Rightarrow> bool" where
  "waits_at R s g \<longleftrightarrow>
     w_arrived s = Suc (w_passed s) \<and> g = w_arrived s \<or> (\<exists>i<R. r_arrived s i = Suc (r_passed s i) \<and> g = r_arrived s i)"

text \<open>Of all threads at the barrier, one that has come there least often can go on: the others have been there as often.\<close>

lemma least_waiter_passes:
  assumes waiting: "waits_at R s g" and least: "\<And>h. waits_at R s h \<Longrightarrow> g \<le> h"
    and full: "g \<le> full" and writer: "w_arrived s = Suc (w_passed s) \<or> w_arrived s = full"
    and readers: "\<And>i. i < R \<Longrightarrow> r_arrived s i = Suc (r_passed s i) \<or> r_arrived s i = full"
  shows "\<exists>e s'. swmr_step n R full s e = Some s'"
proof -
  have "g \<le> w_arrived s" using writer full least [of "w_arrived s"] by (auto simp: waits_at_def)
  moreover have "g \<le> r_arrived s i" if "i < R" for i
    using readers [OF that] that full least [of "r_arrived s i"] by (auto simp: waits_at_def)
  ultimately have all: "arrivals R s g" by (simp add: arrivals_def list_all_iff)
  from waiting consider "w_arrived s = Suc (w_passed s)" "g = w_arrived s"
    | i where "i < R" "r_arrived s i = Suc (r_passed s i)" "g = r_arrived s i" by (auto simp: waits_at_def)
  then show ?thesis
  proof cases
    case 1
    with all show ?thesis by (intro exI [of _ WriterPass]) simp
  next
    case 2
    with all show ?thesis by (intro exI [of _ "ReaderPass i"]) simp
  qed
qed

lemma swmr_writer_enabled:
  assumes w: "swmr_writer v0 vals s k" "sl_reach n v0 (lock s)" "\<forall>v\<in>set vals. length v = n"
    and run: "\<not> writer_ended s" "w_arrived s \<noteq> Suc (w_passed s)"
  shows "\<exists>e s'. swmr_step n R full s e = Some s'"
proof (cases "w_pc (lock s) = WIdle")
  case False
  from write_step_enabled [OF sl_reach_within [OF w(2)] False, of n] obtain c where
    "sl_write_step n (sl_newest (lock s) Seq) (lock s) = Some c" by blast
  then show ?thesis by (intro exI [of _ "WriterStep (sl_newest (lock s) Seq)"]) (simp del: sl_newest_simps)
next
  case True
  from w(1) run(2) have even: "w_arrived s = w_passed s" by (auto simp: swmr_writer_def split: if_splits)
  show ?thesis
  proof (cases "wait_next s")
    case True
    with even \<open>w_pc (lock s) = WIdle\<close> show ?thesis by (intro exI [of _ WriterWait]) simp
  next
    case False
    with run(1) even obtain v vs where v: "to_write s = v # vs" by (cases "to_write s") (auto simp: writer_ended_def)
    then have "drop k vals = v # vs" using w(1) by (simp add: swmr_writer_def)
    then have "v \<in> set (drop k vals)" by simp
    then have "length v = n" using w(3) by (auto dest: in_set_dropD)
    with False even True v show ?thesis by (intro exI [of _ WriterCall]) simp
  qed
qed

lemma swmr_reader_enabled:
  assumes r: "swmr_reader v0 vals s i" "reader_turn full s i" "sl_reach n v0 (lock s)" "i < R"
    and run: "\<not> reader_ended full s i" "r_arrived s i \<noteq> Suc (r_passed s i)"
  shows "\<exists>e s'. swmr_step n R full s e = Some s'"
proof -
  from r(1) obtain q where q: "readers (lock s) i = Some q" by (auto simp: swmr_reader_def up_to_date_def split: option.splits)
  from r(2) run have call: "r_arrived s i = r_passed s i" "length (collected s i) \<noteq> full"
    by (auto simp: reader_turn_def reader_ended_def)
  show ?thesis
  proof (cases "r_pc q = RIdle")
    case True
    with call q r(4) show ?thesis by (intro exI [of _ "ReaderCall i"]) simp
  next
    case False
    from sl_read_step_enabled [OF sl_reach_within [OF r(3)] q False] obtain t q' where "sl_read_step n t (lock s) q = Some q'" by blast
    with q r(4) show ?thesis by (intro exI [of _ "ReaderStep i t"]) (simp add: Let_def)
  qed
qed

lemma swmr_not_stuck:
  assumes inv: "swmr_inv n R v0 vals s" and turn: "\<forall>i<R. reader_turn (Suc (length vals)) s i"
    and vals: "\<forall>v\<in>set vals. length v = n" and run: "\<not> swmr_joined R (Suc (length vals)) s"
  shows "\<exists>e s'. swmr_step n R (Suc (length vals)) s e = Some s'"
proof (rule ccontr)
  let ?full = "Suc (length vals)"
  assume stuck: "\<nexists>e s'. swmr_step n R ?full s e = Some s'"
  from inv obtain k where reach: "sl_reach n v0 (lock s)" and w: "swmr_writer v0 vals s k"
    and rs: "\<And>i. i < R \<Longrightarrow> swmr_reader v0 vals s i" by (auto simp: swmr_inv_def)
  have writer: "writer_ended s \<or> w_arrived s = Suc (w_passed s)"
    using swmr_writer_enabled [OF w reach vals] stuck by blast
  have reader: "reader_ended ?full s i \<or> r_arrived s i = Suc (r_passed s i)" if "i < R" for i
    using swmr_reader_enabled [OF rs [OF that] _ reach that] turn that stuck by blast
  have count: "r_arrived s i = length (collected s i)" "r_arrived s i \<le> ?full" if "i < R" for i
    using rs [OF that] by (auto simp: swmr_reader_def dest: prefix_length_le)
  have wfull: "w_arrived s \<le> ?full" "writer_ended s \<Longrightarrow> w_arrived s = ?full"
    using w by (auto simp: swmr_writer_def writer_ended_def split: if_splits)
  have "\<exists>g. waits_at R s g"
  proof (rule ccontr)
    assume none: "\<nexists>g. waits_at R s g"
    then have "writer_ended s" using writer by (auto simp: waits_at_def)
    moreover have "reader_ended ?full s i" if "i < R" for i using none reader [OF that] that by (auto simp: waits_at_def)
    ultimately show False using run by (simp add: swmr_joined_def list_all_iff)
  qed
  then obtain g where g: "waits_at R s g" "\<And>h. waits_at R s h \<Longrightarrow> g \<le> h"
    using exists_least_iff [of "waits_at R s"] by (metis not_le)
  have "g \<le> ?full" using g(1) count(2) wfull(1) by (auto simp: waits_at_def)
  moreover have "w_arrived s = Suc (w_passed s) \<or> w_arrived s = ?full" using writer wfull(2) by blast
  moreover have "r_arrived s i = Suc (r_passed s i) \<or> r_arrived s i = ?full" if "i < R" for i
    using reader [OF that] count(1) [OF that] by (auto simp: reader_ended_def)
  ultimately show False using least_waiter_passes [OF g, of ?full n] stuck by blast
qed

section \<open>Properties\<close>

lemma swmr_joined_collected:
  assumes inv: "swmr_inv n R v0 vals s" and joined: "swmr_joined R (Suc (length vals)) s" and "i < R"
  shows "collected s i = v0 # vals"
proof -
  from inv assms(3) have "prefix (collected s i) (v0 # vals)" by (auto simp: swmr_inv_def swmr_reader_def)
  then obtain zs where zs: "v0 # vals = collected s i @ zs" by (rule prefixE)
  from joined assms(3) have "length (collected s i) = length (v0 # vals)"
    by (simp add: swmr_joined_def reader_ended_def list_all_iff)
  with arg_cong [OF zs, of length] have "zs = []" by simp
  with zs show ?thesis by simp
qed

text \<open>
  C27: The test \<open>single_writer_multi_reader\<close> under weak memory, with any number of readers and any list of different
  values: whatever the schedule and the stale values read, a reader has collected a prefix of the initial
  value followed by the values written; as long as a thread has not ended some thread can go on, so
  that the barrier never holds all of them; and once all are joined the assertion of the test holds.
\<close>

theorem swmr_test_passes:
  assumes "swmr_reach n R v0 vals s" "distinct (v0 # vals)" "length vals < 2 ^ 63" "\<forall>v\<in>set (v0 # vals). length v = n" "0 < R"
  shows "(\<forall>i<R. prefix (collected s i) (v0 # vals)) \<and>
    (\<not> swmr_joined R (Suc (length vals)) s \<longrightarrow> (\<exists>e s'. swmr_step n R (Suc (length vals)) s e = Some s')) \<and>
    (swmr_joined R (Suc (length vals)) s \<longrightarrow> swmr_assertion vals (swmr_results R s))"
proof (intro conjI impI)
  have inv: "swmr_inv n R v0 vals s" by (rule swmr_reach_inv [OF assms(1-3) _ assms(5)]) (use assms(4) in simp)
  then show "\<forall>i<R. prefix (collected s i) (v0 # vals)" by (auto simp: swmr_inv_def swmr_reader_def)
  show "\<exists>e s'. swmr_step n R (Suc (length vals)) s e = Some s'" if "\<not> swmr_joined R (Suc (length vals)) s"
    by (rule swmr_not_stuck [OF inv _ _ that]) (use swmr_turn [OF assms(1)] assms(4) in auto)
  show "swmr_assertion vals (swmr_results R s)" if "swmr_joined R (Suc (length vals)) s"
    using swmr_joined_collected [OF inv that] by (simp add: swmr_assertion_def swmr_results_def list_all_iff)
qed

text \<open>Two readers and the values 1 and 4, to the joins.\<close>

definition swmr_events :: "swmr_event list" where
  "swmr_events = swmr_round 2 0 @ swmr_round 2 1 @ take 14 (swmr_round 2 2)"

lemma demo_swmr_run:
  "map_option (\<lambda>s. (swmr_joined 2 3 s, swmr_results 2 s)) (swmr_run 1 2 3 (swmr_new 1 2 [0 :: nat] [[1], [4]]) swmr_events) =
   Some (True, [[[0], [1], [4]], [[0], [1], [4]]])"
  by code_simp

theorem swmr_test_passes_witness:
  "\<exists>s. swmr_reach 1 2 [0 :: nat] [[1], [4]] s \<and> swmr_joined 2 3 s \<and> swmr_assertion [[1], [4]] (swmr_results 2 s)"
proof -
  from demo_swmr_run obtain s where
    s: "swmr_run 1 2 3 (swmr_new 1 2 [0 :: nat] [[1], [4]]) swmr_events = Some s" "swmr_joined 2 3 s" by auto
  have "swmr_run 1 2 (Suc (length [[1 :: nat], [4]])) (swmr_new 1 2 [0 :: nat] [[1], [4]]) swmr_events = Some s"
    using s(1) by (simp add: eval_nat_numeral)
  from swmr_reach_run [OF swmr_init this] have reach: "swmr_reach 1 2 [0] [[1], [4]] s" .
  have "distinct [[0 :: nat], [1], [4]]" "length [[1 :: nat], [4]] < 2 ^ 63"
    "\<forall>v\<in>set [[0 :: nat], [1], [4]]. length v = 1" "(0 :: nat) < 2" by simp_all
  from swmr_test_passes [OF reach this] s(2) have "swmr_assertion [[1], [4]] (swmr_results 2 s)"
    by (simp add: eval_nat_numeral)
  with reach s(2) show ?thesis by blast
qed

end
