(* ===== verification/Test_Programs.thy ===== *)
theory Test_Programs
  imports Scenarios
begin

text \<open>
  What the scenarios of \<open>Scenarios\<close> are run by: the \<open>main\<close> of \<open>src/src/bin/smoke.rs\<close> with what it prints,
  the construction options of the test modules under the features \<open>tests_hugepage\<close> and \<open>tests_loom\<close>, and the
  calls of the tests that measure heap blocks (\<open>tests_dhat\<close> in \<open>spsc/queue.rs\<close>, \<open>spmc/queue.rs\<close> and
  \<open>seqlock/lock.rs\<close>). The counter of heap blocks is the profiler's; shown here is that the measured loops
  take the paths they are meant to measure: every push is accepted, every read finds its value.
\<close>

section \<open>The smoke binary\<close>

text \<open>A function of \<open>main\<close> prints its name and panics if an assertion fails, which ends the program.\<close>

fun smoke_steps :: "(string \<times> bool) list \<Rightarrow> string list \<times> bool" where
  "smoke_steps [] = ([''smoke tests seem ok''], True)"
| "smoke_steps ((name, passed) # ps) =
     (if passed then (case smoke_steps ps of (lines, r) \<Rightarrow> ((name @ ''...'') # lines, r)) else ([name @ ''...''], False))"

definition smoke_spsc_passes :: "(usize \<Rightarrow> 'o \<Rightarrow> fault + (nat, 'z) region_scheme) \<Rightarrow> 'o options \<Rightarrow> bool" where
  "smoke_spsc_passes allocate options =
     (case spsc_new allocate 128 (alloc options) of
        Inl f \<Rightarrow> False
      | Inr s \<Rightarrow> \<not> isl (run_test 128 s smoke_spsc))"

definition smoke_seqlock_passes :: bool where
  "smoke_seqlock_passes = (case lock_test (seqlock_new 0) smoke_seqlock of Some (Inr l) \<Rightarrow> True | _ \<Rightarrow> False)"

definition smoke_spmc_passes :: "(usize \<Rightarrow> 'o \<Rightarrow> fault + (nat bslot, 'z) region_scheme) \<Rightarrow> 'o options \<Rightarrow> bool" where
  "smoke_spmc_passes allocate options =
     (case spmc_new allocate 0 128 (alloc options) of
        Inl f \<Rightarrow> False
      | Inr (q, c) \<Rightarrow>
          (case bcast_run (publish 128) (try_read 128) bconsumer_clone q (Map.empty(1 \<mapsto> c)) (fst smoke_spmc) of
             Some (Inr (answers, q', cs')) \<Rightarrow> answers = snd smoke_spmc
           | _ \<Rightarrow> False))"

text \<open>The lines printed, and whether \<open>main\<close> returns.\<close>

definition smoke_main ::
  "(usize \<Rightarrow> 'o \<Rightarrow> fault + (nat, 'z) region_scheme) \<Rightarrow> (usize \<Rightarrow> 'o \<Rightarrow> fault + (nat bslot, 'y) region_scheme) \<Rightarrow>
     'o options \<Rightarrow> string list \<times> bool" where
  "smoke_main allocate_items allocate_slots options =
     (case smoke_steps [(''smoke_spsc'', smoke_spsc_passes allocate_items options),
        (''smoke_seqlock'', smoke_seqlock_passes), (''smoke_spmc'', smoke_spmc_passes allocate_slots options)] of
      (lines, r) \<Rightarrow> (''hello from smoke tests'' # lines, r))"

section \<open>Options of the tests\<close>

definition alloc_options_global :: global_options where
  "alloc_options_global = \<lparr>g_mlock = True\<rparr>"

definition alloc_options_hugepage :: hugepage_options where
  "alloc_options_hugepage = \<lparr>h_mlock = True, h_size = H2MB\<rparr>"

definition spsc_options :: "'o \<Rightarrow> 'o options" where
  "spsc_options alloc_options = \<lparr>alloc = alloc_options\<rparr>"

definition spmc_options_global :: "global_options options" where
  "spmc_options_global = global_mlocked"

definition spmc_options_hugepage :: "hugepage_options options" where
  "spmc_options_hugepage = \<lparr>alloc = \<lparr>h_mlock = True, h_size = H2MB\<rparr>\<rparr>"

definition loom_options :: "unit options" where
  "loom_options = \<lparr>alloc = ()\<rparr>"

section \<open>The hot paths\<close>

text \<open>\<open>hot_path_zero_allocations\<close> of the SPSC queue: the warm-up and the measured loops make the same calls.\<close>

definition hot_path_calls :: "nat \<Rightarrow> nat call list" where
  "hot_path_calls n = (map Enq [0..<n] @ replicate n Deq) @ (map Enq [0..<n] @ replicate n Deq)"

definition hot_path_answers :: "nat \<Rightarrow> nat answer list" where
  "hot_path_answers n =
     (let round = replicate n (EnqAnswer None) @ map (\<lambda>i. DeqAnswer (Some i)) [0..<n] in round @ round)"

text \<open>\<open>hot_path_zero_allocations\<close> of the SPMC queue, with its three consumers.\<close>

definition three_reads :: "nat bcall list" where
  "three_reads = [TryRead 1, TryRead 2, TryRead 3]"

definition three_values :: "nat \<Rightarrow> (nat \<times> nat read_result) list" where
  "three_values v = [(1, Value v), (2, Value v), (3, Value v)]"

definition spmc_hot_round :: "nat \<Rightarrow> nat bcall list" where
  "spmc_hot_round n = map Publish [0..<n] @ concat (replicate n three_reads)"

definition spmc_hot_path :: "nat \<Rightarrow> nat bcall list" where
  "spmc_hot_path n = [CloneConsumer 1 2, CloneConsumer 1 3] @ spmc_hot_round n @ spmc_hot_round n"

definition spmc_hot_answers :: "nat \<Rightarrow> (nat \<times> nat read_result) list" where
  "spmc_hot_answers n =
     (let round = concat (map three_values [0..<n]) in round @ round)"

text \<open>\<open>hot_path_without_allocations\<close> of the seqlock; the value read is not looked at by the test.\<close>

definition seqlock_hot_path :: "nat \<Rightarrow> nat lock_call list" where
  "seqlock_hot_path iters = concat (map (\<lambda>i. [Write i, ReadExpect i]) ([0..<10000] @ [0..<iters]))"

lemma list_run_fill:
  "length xs + length vs \<le> cap \<Longrightarrow> list_run cap xs (map Enq vs) = (replicate (length vs) (EnqAnswer None), xs @ vs)"
  by (induction vs arbitrary: xs) simp_all

lemma list_run_drain:
  "list_run cap (vs @ xs) (replicate (length vs) Deq) = (map (\<lambda>v. DeqAnswer (Some v)) vs, xs)"
  by (induction vs) simp_all

lemma list_run_hot_path: "list_run n [] (hot_path_calls n) = (hot_path_answers n, [])"
proof -
  have "list_run n [] (map Enq [0..<n]) = (replicate n (EnqAnswer None), [0..<n])"
    using list_run_fill [of "[]" "[0..<n]" n] by simp
  moreover have "list_run n [0..<n] (replicate n Deq) = (map (\<lambda>i. DeqAnswer (Some i)) [0..<n], [])"
    using list_run_drain [of n "[0..<n]" "[]"] by simp
  ultimately have round: "list_run n [] (map Enq [0..<n] @ replicate n Deq) =
      (replicate n (EnqAnswer None) @ map (\<lambda>i. DeqAnswer (Some i)) [0..<n], [])"
    by (rule list_run_append)
  show ?thesis unfolding hot_path_calls_def hot_path_answers_def Let_def by (rule list_run_append [OF round round])
qed

lemma log_run_publish: "log_run cap P ps (map Publish vs @ es) = log_run cap (P @ vs) ps es"
  by (induction vs arbitrary: P) simp_all

definition three_at :: "nat \<Rightarrow> (nat \<rightharpoonup> nat) \<Rightarrow> bool" where
  "three_at p ps \<longleftrightarrow> ps 1 = Some p \<and> ps 2 = Some p \<and> ps 3 = Some p"

lemma log_run_three:
  assumes "three_at p ps" "length P \<le> p + cap" "p < length P"
  shows "\<exists>ps'. three_at (Suc p) ps' \<and>
    fst (log_run cap P ps (three_reads @ es)) = three_values (P ! p) @ fst (log_run cap P ps' es)"
  using assms
  by (intro exI [of _ "ps(1 \<mapsto> Suc p, 2 \<mapsto> Suc p, 3 \<mapsto> Suc p)"])
    (simp add: three_at_def three_reads_def three_values_def log_read_def Let_def case_prod_unfold)

lemma log_run_reads:
  assumes "three_at p ps" "length P \<le> p + cap" "p + k \<le> length P"
  shows "\<exists>ps'. three_at (p + k) ps' \<and>
    fst (log_run cap P ps (concat (replicate k three_reads) @ es)) =
      concat (map three_values (take k (drop p P))) @ fst (log_run cap P ps' es)"
  using assms
proof (induction k arbitrary: p ps)
  case 0
  then show ?case by auto
next
  case (Suc k)
  from Suc.prems have "p < length P" by simp
  from log_run_three [OF Suc.prems(1,2) this, of "concat (replicate k three_reads) @ es"] obtain ps1 where ps1: "three_at (Suc p) ps1"
    "fst (log_run cap P ps (three_reads @ concat (replicate k three_reads) @ es)) =
      three_values (P ! p) @ fst (log_run cap P ps1 (concat (replicate k three_reads) @ es))" by blast
  from Suc.IH [OF ps1(1)] Suc.prems(2,3) obtain ps' where "three_at (Suc p + k) ps'"
    "fst (log_run cap P ps1 (concat (replicate k three_reads) @ es)) =
      concat (map three_values (take k (drop (Suc p) P))) @ fst (log_run cap P ps' es)" by auto
  moreover have "take (Suc k) (drop p P) = P ! p # take k (drop (Suc p) P)"
    using \<open>p < length P\<close> by (simp add: Cons_nth_drop_Suc [symmetric])
  ultimately show ?case using ps1(2) by (intro exI [of _ ps']) simp
qed

lemma log_run_hot_round:
  assumes "three_at (length P) ps" "n \<le> cap"
  shows "\<exists>ps'. three_at (length P + n) ps' \<and>
    fst (log_run cap P ps (spmc_hot_round n @ es)) =
      concat (map three_values [0..<n]) @ fst (log_run cap (P @ [0..<n]) ps' es)"
  using log_run_reads [of "length P" ps "P @ [0..<n]" cap n es] assms
  by (simp add: spmc_hot_round_def log_run_publish)

lemma log_run_hot_path:
  assumes "n \<le> cap"
  shows "fst (log_run cap [] (Map.empty(1 \<mapsto> 0)) (spmc_hot_path n)) = spmc_hot_answers n"
proof -
  let ?ps = "Map.empty(1 \<mapsto> 0, 2 \<mapsto> 0, 3 \<mapsto> (0 :: nat))"
  have "three_at (length ([] :: nat list)) ?ps" by (simp add: three_at_def)
  from log_run_hot_round [OF this assms, of "spmc_hot_round n"] obtain ps1 where ps1: "three_at (length [0..<n]) ps1"
    "fst (log_run cap [] ?ps (spmc_hot_round n @ spmc_hot_round n)) =
      concat (map three_values [0..<n]) @ fst (log_run cap [0..<n] ps1 (spmc_hot_round n))" by auto
  from log_run_hot_round [OF ps1(1) assms, of "[]"] have
    "fst (log_run cap [0..<n] ps1 (spmc_hot_round n)) = concat (map three_values [0..<n])" by auto
  with ps1(2) show ?thesis by (simp add: spmc_hot_path_def spmc_hot_answers_def Let_def)
qed

lemma publishes_hot_path: "publishes (spmc_hot_path n) = 2 * n"
proof -
  have "publishes (map Publish vs) = length vs" for vs :: "nat list" by (induction vs) simp_all
  moreover have "publishes (concat (replicate k three_reads)) = 0" for k by (induction k) (simp_all add: three_reads_def)
  ultimately show ?thesis by (simp add: spmc_hot_path_def spmc_hot_round_def publishes_append)
qed

section \<open>Construction\<close>

lemma spmc_new_succeeds:
  assumes "slot_allocator allocate" "is_power_of_two cap" "allocate cap opts = Inr a"
  shows "\<exists>q c. spmc_new allocate z cap opts = Inr (q, c)"
  using spmc_init_loop [of 0 "unat cap" "cells a" z] slot_allocator.allocate_length [OF assms(1,3)] assms(2,3)
  by (simp add: spmc_new_def)

section \<open>Properties\<close>

text \<open>
  The smoke binary prints its five lines and returns if the two allocations of its queues succeed; if one does
  not, it stops in the function that asks for it.
\<close>

theorem smoke_main_passes:
  assumes "slot_allocator allocate_items" "slot_allocator allocate_slots"
    and "\<not> isl (allocate_items 128 (alloc options))" "\<not> isl (allocate_slots 128 (alloc options))"
  shows "smoke_main allocate_items allocate_slots options =
    ([''hello from smoke tests'', ''smoke_spsc...'', ''smoke_seqlock...'', ''smoke_spmc...'', ''smoke tests seem ok''], True)"
proof -
  have pow: "is_power_of_two 128" by code_simp
  from assms(3) obtain a where a: "allocate_items 128 (alloc options) = Inr a" by (cases "allocate_items 128 (alloc options)") auto
  then obtain s where s: "spsc_new allocate_items 128 (alloc options) = Inr s" using pow by (simp add: spsc_new_def)
  have "(128, smoke_spsc) \<in> set spsc_tests" by (simp add: spsc_tests_def)
  from passes_tests [OF this] run_test_passes [OF assms(1) s] obtain s' where "run_test 128 s smoke_spsc = Inr s'" by blast
  then have 1: "smoke_spsc_passes allocate_items options" by (simp add: smoke_spsc_passes_def s)
  have 2: smoke_seqlock_passes unfolding smoke_seqlock_passes_def smoke_seqlock_def by code_simp
  from assms(4) obtain b where b: "allocate_slots 128 (alloc options) = Inr b" by (cases "allocate_slots 128 (alloc options)") auto
  obtain q c where q: "spmc_new allocate_slots 0 128 (alloc options) = Inr (q, c)"
    using spmc_new_succeeds [OF assms(2) pow b] by blast
  have "fst (log_run (unat (128 :: usize)) [] (Map.empty(1 \<mapsto> 0)) (fst smoke_spmc)) = snd smoke_spmc \<and>
      publishes (fst smoke_spmc) \<le> 2 ^ 63"
    by (rule spmc_tests_log) (simp add: spmc_tests_def)
  with run_log_new [OF assms(2) q, of "fst smoke_spmc" 1] have 3: "smoke_spmc_passes allocate_slots options"
    unfolding smoke_spmc_passes_def by (auto simp: q)
  from 1 2 3 show ?thesis by (simp add: smoke_main_def)
qed

theorem smoke_main_passes_witness:
  "smoke_main (global_allocate demo_os 4 4 :: usize \<Rightarrow> global_options \<Rightarrow> fault + nat global_allocation)
      (global_allocate demo_os 16 8 :: usize \<Rightarrow> global_options \<Rightarrow> fault + nat bslot global_allocation) global_mlocked =
    ([''hello from smoke tests'', ''smoke_spsc...'', ''smoke_seqlock...'', ''smoke_spmc...'', ''smoke tests seem ok''], True)"
proof (rule smoke_main_passes)
  show "\<not> isl ((global_allocate demo_os 4 4 :: usize \<Rightarrow> global_options \<Rightarrow> fault + nat global_allocation) 128 (alloc global_mlocked))"
    by code_simp
  show "\<not> isl ((global_allocate demo_os 16 8 :: usize \<Rightarrow> global_options \<Rightarrow> fault + nat bslot global_allocation) 128 (alloc global_mlocked))"
    by code_simp
qed (rule galloc.slot_allocator_axioms)+

text \<open>
  The loops measured by the SPSC test \<open>hot_path_zero_allocations\<close> are the hot path at every capacity: no \<open>push\<close> hands
  its item back and every \<open>pop\<close> returns the item of its turn, in the warm-up and in the measured round.
\<close>

theorem spsc_hot_path_answers:
  assumes "slot_allocator allocate" "spsc_new allocate cap opts = Inr s"
  shows "\<exists>s'. run_calls (spsc_enq cap) (spsc_deq cap) s (hot_path_calls (unat cap)) =
    Inr (hot_path_answers (unat cap), s') \<and> spsc_contents cap s' = []"
proof -
  have rep: "spsc_rep cap 0 [] s" by (rule slot_allocator.spsc_new_rep [OF assms])
  from spsc.run_calls_list_run [OF spsc_rep_inv [OF rep], of "hot_path_calls (unat cap)", unfolded spsc_rep_contents [OF rep]]
  show ?thesis unfolding list_run_hot_path by fastforce
qed

theorem spsc_hot_path_answers_witness:
  "\<exists>s s'. spsc_new demo_alloc 2 \<lparr>g_mlock = True\<rparr> = Inr s \<and>
    run_calls (spsc_enq 2) (spsc_deq 2) s (hot_path_calls (unat (2 :: usize))) =
      Inr (hot_path_answers (unat (2 :: usize)), s') \<and> spsc_contents 2 s' = []"
  using spsc_hot_path_answers [OF demo_slot_allocator demo_spsc_new] demo_spsc_new by blast

text \<open>
  The loops measured by the SPMC test \<open>hot_path_zero_allocations\<close>: when a round is no longer than the queue, no reader
  is lapped, and each of the three readers reads every value of the round.
\<close>

theorem spmc_hot_path_reads:
  assumes "slot_allocator allocate" "spmc_new allocate z cap opts = Inr (q, c)" "n \<le> unat cap" "n \<le> 2 ^ 62"
  shows "\<exists>q' cs'. bcast_run (publish cap) (try_read cap) bconsumer_clone q (Map.empty(1 \<mapsto> c)) (spmc_hot_path n) =
    Some (Inr (spmc_hot_answers n, q', cs'))"
  using run_log_new [OF assms(1,2), of "spmc_hot_path n" 1] assms(4)
  unfolding log_run_hot_path [OF assms(3)] by (simp add: publishes_hot_path)

theorem spmc_hot_path_reads_witness:
  "\<exists>q c q' cs'. spmc_new demo_bcast_alloc 0 8 \<lparr>g_mlock = True\<rparr> = Inr (q, c) \<and>
    bcast_run (publish 8) (try_read 8) bconsumer_clone q (Map.empty(1 \<mapsto> c)) (spmc_hot_path 8) =
      Some (Inr (spmc_hot_answers 8, q', cs'))"
  using spmc_hot_path_reads [OF demo_bcast_allocator demo_spmc_new, of 8] demo_spmc_new by simp

text \<open>
  The loops of the seqlock test \<open>hot_path_without_allocations\<close> return from every \<open>read\<close>, with the value just written.
\<close>

theorem seqlock_hot_path_reads: "\<exists>l. lock_test (seqlock_new 0) (seqlock_hot_path iters) = Some (Inr l)"
  unfolding seqlock_hot_path_def by (rule lock_test_writes) (simp add: seqlock_new_def seq_even_def)

end
