(* ===== verification/Console.thy ===== *)
theory Console
  imports Scenarios Drivers Reports
begin

text \<open>
  The drain benchmark from start to end, with what it prints: the table of \<open>main\<close> in
  \<open>src/examples/spsc/bench_drain.rs\<close> row by row, with the flush buffer handed from each trial to the next, until the
  end or a panic; and the headings and last lines of the mains of \<open>bench_lapped.rs\<close>, \<open>bench_capacity_sweep.rs\<close> and
  \<open>seqlock/hello.rs\<close>.
\<close>

definition FLUSH_BYTES :: nat where
  "FLUSH_BYTES = 64 * 1024 * 1024"

text \<open>The text printed so far, and the panic that ended the program.\<close>

type_synonym console = "string \<times> (fault, item) drain_panic option"

text \<open>
  The body repeated for every capacity: \<open>regular\<close> and \<open>hugepage\<close> are the two calls of \<open>new\<close>, the clock is the two
  readings of the time stamp counter in every trial.
\<close>

fun drain_table ::
  "u64 \<Rightarrow> (usize \<Rightarrow> fault + item spsc) \<Rightarrow> (usize \<Rightarrow> fault + item spsc) \<Rightarrow>
     (nat \<times> (u64 \<times> u64) list \<times> (u64 \<times> u64) list) list \<Rightarrow> 8 word list \<Rightarrow> console" where
  "drain_table tsc_hz regular hugepage [] flush = ([], None)"
| "drain_table tsc_hz regular hugepage ((capacity, reg_clocks, huge_clocks) # todo) flush =
     (case drain_cell (of_nat capacity) tsc_hz (regular (of_nat capacity)) (hugepage (of_nat capacity))
        reg_clocks huge_clocks flush of
        Inl e \<Rightarrow> ([], Some e)
      | Inr (reg, huge, flush) \<Rightarrow>
          (case drain_table tsc_hz regular hugepage todo flush of
             (text, e) \<Rightarrow> (drain_row capacity (capacity * 64) reg huge @ text, e)))"

definition drain_heading :: string where
  "drain_heading =
     println (''Trials per cell: '' @ show_nat TRIALS @ '', flush buffer: '' @ show_nat (FLUSH_BYTES div 1024 div 1024) @ '' MiB'') @
     println [] @
     println (row [(10, ''cap''), (10, ''bytes''), (14, ''regular''), (14, ''hugepage''), (8, ''ratio'')])"

fun drain_loc_row :: "nat \<times> u64 option \<Rightarrow> string" where
  "drain_loc_row (cpu, Some d) = println (''  cpu'' @ pad_left 2 (show_nat cpu) @ '': +'' @ show_u64 d)"
| "drain_loc_row (cpu, None) = println (''  cpu'' @ pad_left 2 (show_nat cpu) @ '': unreadable'')"

definition drain_ending :: "(nat \<times> u64 option) list \<Rightarrow> string" where
  "drain_ending deltas =
     println [] @ println ''LOC delta (nohz_full should keep these near 0):'' @ concat (map drain_loc_row deltas)"

text \<open>
  What \<open>main\<close> prints after its start (\<open>drain_start\<close>), which chose the core. The clocks are those of the trials, one
  pair of lists for each capacity.
\<close>

definition drain_main ::
  "nat \<Rightarrow> u64 \<Rightarrow> (usize \<Rightarrow> fault + item spsc) \<Rightarrow> (usize \<Rightarrow> fault + item spsc) \<Rightarrow>
     ((u64 \<times> u64) list \<times> (u64 \<times> u64) list) list \<Rightarrow> u64 option list \<Rightarrow> u64 option list \<Rightarrow> console" where
  "drain_main core tsc_hz regular hugepage clocks loc_before loc_after =
     (case drain_table tsc_hz regular hugepage (zip drain_capacities clocks) (replicate FLUSH_BYTES 0) of
        (text, Some e) \<Rightarrow> (println (tsc_line tsc_hz) @ drain_heading @ text, Some e)
      | (text, None) \<Rightarrow>
          (println (tsc_line tsc_hz) @ drain_heading @ text @ drain_ending (loc_delta [core] loc_before loc_after), None))"

text \<open>The options of the two queues.\<close>

definition drain_hugepage_options :: hugepage_options where
  "drain_hugepage_options = \<lparr>h_mlock = True, h_size = H2MB\<rparr>"

definition drain_regular :: "(usize \<Rightarrow> global_options \<Rightarrow> fault + (item, 'z) region_scheme) \<Rightarrow> usize \<Rightarrow> fault + item spsc" where
  "drain_regular allocate cap = spsc_new allocate cap (alloc global_mlocked)"

definition drain_hugepage :: "(usize \<Rightarrow> hugepage_options \<Rightarrow> fault + (item, 'z) region_scheme) \<Rightarrow> usize \<Rightarrow> fault + item spsc" where
  "drain_hugepage allocate cap = spsc_new allocate cap drain_hugepage_options"

text \<open>
  The first lines of the lapped and the capacity sweep, and the last lines of the former. The capacity sweep prints its
  headings before it looks whether the implementation is known.
\<close>

definition lapped_heading :: "u64 \<Rightarrow> string" where
  "lapped_heading tsc_hz = println (tsc_line tsc_hz @ ''. CAPACITY='' @ show_nat lapped_capacity)"

definition capacity_heading :: "u64 \<Rightarrow> u64 \<Rightarrow> string \<Rightarrow> string" where
  "capacity_heading tsc_hz secs impl =
     println (tsc_line tsc_hz @ ''. run='' @ show_u64 secs @ ''s per capacity'') @
     println (''== '' @ impl @ '' =='') @
     println (row [(10, ''capacity''), (12, ''published''), (11, ''values''), (11, ''lapped''), (9, ''p50''), (10, ''p99''),
       (10, ''p99.9''), (10, ''max'')])"

definition lapped_ending :: "string \<Rightarrow> nat \<Rightarrow> string list \<Rightarrow> string" where
  "lapped_ending impl rates warns =
     println [] @ println (''== '' @ impl @ '' lapped sweep complete ('' @ show_nat rates @ '' rates) =='') @
     concat (map (\<lambda>w. println (''  WARN: '' @ w)) warns)"

text \<open>The line of \<open>examples/seqlock/hello.rs\<close>, a vector as \<open>Debug\<close> writes it.\<close>

fun separated :: "string list \<Rightarrow> string" where
  "separated [] = []"
| "separated [x] = x"
| "separated (x # xs) = x @ '', '' @ separated xs"

definition sampled_line :: "nat list \<Rightarrow> string" where
  "sampled_line xs = println (''reader sampled: ['' @ separated (map show_nat xs) @ '']'')"

section \<open>A row of the table\<close>

text \<open>What a row shows: the medians of the trials of its capacity.\<close>

definition shows_medians ::
  "u64 \<Rightarrow> nat \<times> (u64 \<times> u64) list \<times> (u64 \<times> u64) list \<Rightarrow> u64 \<times> u64 \<Rightarrow> bool" where
  "shows_medians tsc_hz cell medians \<longleftrightarrow>
     (case (cell, medians) of ((capacity, reg_clocks, huge_clocks), reg, huge) \<Rightarrow>
        is_median (map (\<lambda>clock. the (per_item_ns tsc_hz capacity clock)) reg_clocks) reg \<and>
        is_median (map (\<lambda>clock. the (per_item_ns tsc_hz capacity clock)) huge_clocks) huge)"

lemma not_isl_iff: "\<not> isl x \<longleftrightarrow> (\<exists>y. x = Inr y)"
  by (cases x) simp_all

lemma unat_of_nat_small: "n < 2 ^ 64 \<Longrightarrow> unat (of_nat n :: usize) = n"
  by (simp add: unat_of_nat take_bit_nat_eq_self)

lemma drain_capacities_powers: "drain_capacities = map (\<lambda>k. 2 ^ k) [9, 13, 17, 20]"
  by (simp add: drain_capacities_def)

lemma drain_capacity:
  assumes "cap \<in> set drain_capacities"
  shows "cap < 2 ^ 64 \<and> is_power_of_two (of_nat cap)"
proof -
  from assms obtain k :: nat where "k \<in> set [9, 13, 17, 20]" and cap: "cap = 2 ^ k"
    unfolding drain_capacities_powers set_map by blast
  then have k: "k < 64" by auto
  with cap have less: "cap < 2 ^ 64" using power_strict_increasing [of k 64 "2 :: nat"] by simp
  with k cap show ?thesis unfolding is_power_of_two_iff unat_of_nat_small [OF less] by blast
qed

lemma drain_cell_new:
  assumes "slot_allocator allocate" "spsc_new allocate cap opts = Inr s"
    and "slot_allocator allocate'" "spsc_new allocate' cap opts' = Inr s'"
    and "tsc_hz \<noteq> 0" "reg_clocks \<noteq> []" "huge_clocks \<noteq> []"
  shows "\<exists>m flush'. drain_cell cap tsc_hz (Inr s) (Inr s') reg_clocks huge_clocks flush = Inr (fst m, snd m, flush') \<and>
    shows_medians tsc_hz (unat cap, reg_clocks, huge_clocks) m"
proof -
  let ?ns = "\<lambda>clock. the (per_item_ns tsc_hz (unat cap) clock)"
  have "map ?ns reg_clocks \<noteq> []" "map ?ns huge_clocks \<noteq> []" using assms(6,7) by auto
  then obtain reg huge where m: "median (map ?ns reg_clocks) = Some reg" "is_median (map ?ns reg_clocks) reg"
    "median (map ?ns huge_clocks) = Some huge" "is_median (map ?ns huge_clocks) huge"
    using median_is_median by blast
  obtain f1 where 1: "drain_trials cap tsc_hz (Inr s) reg_clocks flush = Inr (map ?ns reg_clocks, f1)"
    using drain_trials_new [OF assms(1,2,5)] by blast
  obtain f2 where 2: "drain_trials cap tsc_hz (Inr s') huge_clocks f1 = Inr (map ?ns huge_clocks, f2)"
    using drain_trials_new [OF assms(3,4,5)] by blast
  show ?thesis using m by (intro exI [of _ "(reg, huge)"]) (simp add: drain_cell_def 1 2 shows_medians_def)
qed

lemma drain_table_rows:
  assumes "slot_allocator allocate" "slot_allocator allocate'" "tsc_hz \<noteq> 0"
    and "\<And>cell. cell \<in> set todo \<Longrightarrow> fst cell < 2 ^ 64 \<and> \<not> isl (spsc_new allocate (of_nat (fst cell)) opts) \<and>
      \<not> isl (spsc_new allocate' (of_nat (fst cell)) opts') \<and> fst (snd cell) \<noteq> [] \<and> snd (snd cell) \<noteq> []"
  shows "\<exists>ms. list_all2 (shows_medians tsc_hz) todo ms \<and>
    drain_table tsc_hz (\<lambda>c. spsc_new allocate c opts) (\<lambda>c. spsc_new allocate' c opts') todo flush =
      (concat (map2 (\<lambda>cell m. drain_row (fst cell) (fst cell * 64) (fst m) (snd m)) todo ms), None)"
  using assms(4)
proof (induction todo arbitrary: flush)
  case Nil
  then show ?case by simp
next
  case (Cons cell todo)
  obtain cap rc hc where cell: "cell = (cap, rc, hc)" by (cases cell)
  from Cons.prems [of cell] obtain s s' where
    s: "spsc_new allocate (of_nat cap) opts = Inr s" "spsc_new allocate' (of_nat cap) opts' = Inr s'"
    and ne: "rc \<noteq> []" "hc \<noteq> []" "cap < 2 ^ 64"
    by (auto simp: cell not_isl_iff)
  from ne(3) have u: "unat (of_nat cap :: usize) = cap" by (simp add: unat_of_nat_small)
  from drain_cell_new [OF assms(1) s(1) assms(2) s(2) assms(3) ne(1,2), of flush] obtain m f where
    m: "drain_cell (of_nat cap) tsc_hz (Inr s) (Inr s') rc hc flush = Inr (fst m, snd m, f)"
      "shows_medians tsc_hz (cap, rc, hc) m" unfolding u by blast
  from Cons.IH [of f] Cons.prems obtain ms where ms: "list_all2 (shows_medians tsc_hz) todo ms"
    "drain_table tsc_hz (\<lambda>c. spsc_new allocate c opts) (\<lambda>c. spsc_new allocate' c opts') todo f =
      (concat (map2 (\<lambda>cell m. drain_row (fst cell) (fst cell * 64) (fst m) (snd m)) todo ms), None)" by auto
  show ?case using m ms by (intro exI [of _ "m # ms"]) (simp add: cell s)
qed

section \<open>Properties\<close>

text \<open>
  Once started, the drain benchmark runs to its end if the allocations of its queues succeed: no trial of any
  capacity panics (no refused push, no empty pop, no division by zero), the table has a row for every capacity
  in order, and each row shows the medians of the nanoseconds per item of the trials of that capacity.
\<close>

theorem drain_main_completes:
  assumes "slot_allocator allocate" "slot_allocator allocate'" "tsc_hz \<noteq> 0"
    and "\<And>cap. cap \<in> set drain_capacities \<Longrightarrow> \<not> isl (allocate (of_nat cap) (alloc global_mlocked)) \<and>
      \<not> isl (allocate' (of_nat cap) drain_hugepage_options)"
    and "length clocks = length drain_capacities"
    and "\<And>reg huge. (reg, huge) \<in> set clocks \<Longrightarrow> length reg = TRIALS \<and> length huge = TRIALS"
  shows "\<exists>ms. list_all2 (shows_medians tsc_hz) (zip drain_capacities clocks) ms \<and>
    drain_main core tsc_hz (drain_regular allocate) (drain_hugepage allocate') clocks loc_before loc_after =
      (println (tsc_line tsc_hz) @ drain_heading @
       concat (map2 (\<lambda>cap m. drain_row cap (cap * 64) (fst m) (snd m)) drain_capacities ms) @
       drain_ending (loc_delta [core] loc_before loc_after), None)"
proof -
  have "fst cell < 2 ^ 64 \<and> \<not> isl (spsc_new allocate (of_nat (fst cell)) (alloc global_mlocked)) \<and>
      \<not> isl (spsc_new allocate' (of_nat (fst cell)) drain_hugepage_options) \<and> fst (snd cell) \<noteq> [] \<and> snd (snd cell) \<noteq> []"
    if cell: "cell \<in> set (zip drain_capacities clocks)" for cell
  proof -
    obtain cap rc hc where c: "cell = (cap, rc, hc)" by (cases cell)
    with cell have "cap \<in> set drain_capacities" "(rc, hc) \<in> set clocks" by (auto dest: in_set_zipE)
    with drain_capacity [of cap] assms(4) [of cap] assms(6) [of rc hc] show ?thesis
      by (auto simp: c spsc_new_def TRIALS_def not_isl_iff)
  qed
  from drain_table_rows [OF assms(1-3) this] obtain ms where ms:
    "list_all2 (shows_medians tsc_hz) (zip drain_capacities clocks) ms"
    "drain_table tsc_hz (drain_regular allocate) (drain_hugepage allocate') (zip drain_capacities clocks)
       (replicate FLUSH_BYTES 0) =
      (concat (map2 (\<lambda>cell m. drain_row (fst cell) (fst cell * 64) (fst m) (snd m)) (zip drain_capacities clocks) ms), None)"
    unfolding drain_regular_def [abs_def] drain_hugepage_def [abs_def] by blast
  have "map2 (\<lambda>cell m. drain_row (fst cell) (fst cell * 64) (fst m) (snd m)) (zip drain_capacities clocks) ms =
      map2 (\<lambda>cap m. drain_row cap (cap * 64) (fst m) (snd m)) drain_capacities ms"
    using assms(5) by (intro nth_equalityI) auto
  with ms show ?thesis by (intro exI [of _ ms]) (simp add: drain_main_def)
qed

definition demo_clocks :: "((u64 \<times> u64) list \<times> (u64 \<times> u64) list) list" where
  "demo_clocks = replicate 4 (replicate 7 (100, 7000100), replicate 7 (100, 5000100))"

theorem drain_main_completes_witness:
  "\<exists>ms. list_all2 (shows_medians 1000000000) (zip drain_capacities demo_clocks) ms \<and>
    drain_main 0 1000000000 (drain_regular (global_allocate demo_os 64 8)) (drain_hugepage (hugepage_allocate demo_libc demo_os 64 8))
        demo_clocks [Some 5] [Some 7] =
      (println (tsc_line 1000000000) @ drain_heading @
       concat (map2 (\<lambda>cap m. drain_row cap (cap * 64) (fst m) (snd m)) drain_capacities ms) @
       drain_ending (loc_delta [0] [Some 5] [Some 7]), None)"
proof (rule drain_main_completes)
  fix cap
  assume "cap \<in> set drain_capacities"
  then show "\<not> isl (global_allocate demo_os 64 8 (of_nat cap) (alloc global_mlocked) :: fault + item global_allocation) \<and>
      \<not> isl (hugepage_allocate demo_libc demo_os 64 8 (of_nat cap) drain_hugepage_options :: fault + item hugepage_allocation)"
    by (auto simp: drain_capacities_def global_allocate_def hugepage_allocate_def layout_array_def isize_max_def
        demo_os_def demo_libc_def Let_def split: sum.splits)
next
  fix reg huge
  assume "(reg, huge) \<in> set demo_clocks"
  then show "length reg = TRIALS \<and> length huge = TRIALS" by (simp add: demo_clocks_def TRIALS_def)
qed (simp_all add: galloc.slot_allocator_axioms halloc.slot_allocator_axioms demo_clocks_def drain_capacities_def)

end
