(* ===== verification/Handoff_Reports.thy ===== *)
theory Handoff_Reports
  imports Bench_Programs Drivers Reports
begin

text \<open>
  What the two handoff benchmarks return and their mains print: \<open>run_spsc_handoff\<close> of
  \<open>src/src/bench/harness/spsc/handoff.rs\<close> and \<open>run_spmc_handoff\<close> of \<open>spmc/handoff.rs\<close> over the crate's own
  queues, from the state of the program after the joins. The readings of the interrupt counters before
  the spawns and after the joins are arguments, as are the percentiles of the histogram.
\<close>

text \<open>The crate's adapters have no warnings.\<close>

definition run_spsc_handoff ::
  "(u64 list \<Rightarrow> nat \<Rightarrow> u64) \<Rightarrow> (u64 list \<Rightarrow> u64) \<Rightarrow> two_core_ctx \<Rightarrow> u64 option list \<Rightarrow> u64 option list \<Rightarrow>
     hand threads \<Rightarrow> latency_report option" where
  "run_spsc_handoff quantile hmax ctx loc_before loc_after s =
     (if th_main s = MainReport
      then Some (latency_report_of quantile hmax ours_NAME [] (hd_hist (th_body s))
        (loc_delta (used_cpu_ids ctx) loc_before loc_after))
      else None)"

definition run_spmc_handoff ::
  "(u64 list \<Rightarrow> nat \<Rightarrow> u64) \<Rightarrow> (u64 list \<Rightarrow> u64) \<Rightarrow> two_core_ctx \<Rightarrow> u64 option list \<Rightarrow> u64 option list \<Rightarrow>
     cast threads \<Rightarrow> latency_report option" where
  "run_spmc_handoff quantile hmax ctx loc_before loc_after s =
     (if th_main s = MainReport
      then Some (latency_report_of quantile hmax ours_NAME [] (h_hist (ca_cons (th_body s)))
        (loc_delta (used_cpu_ids ctx) loc_before loc_after))
      else None)"

section \<open>The printed text\<close>

text \<open>What \<open>print\<close> shows of a histogram and of the counters of the two cores.\<close>

definition handoff_text ::
  "(u64 \<Rightarrow> u64) \<Rightarrow> (u64 list \<Rightarrow> nat \<Rightarrow> u64) \<Rightarrow> (u64 list \<Rightarrow> u64) \<Rightarrow> two_core_ctx \<Rightarrow> u64 option list \<Rightarrow> u64 option list \<Rightarrow>
     u64 list \<Rightarrow> string" where
  "handoff_text nanos quantile hmax ctx loc_before loc_after hist =
     println ''== ours =='' @
     concat (map (\<lambda>(label, x). report_row (label, x, nanos x))
       [(''p50'', quantile hist 500), (''p90'', quantile hist 900), (''p99'', quantile hist 990),
        (''p99.9'', quantile hist 999), (''max'', hmax hist)]) @
     println [] @ loc_heading @
     loc_row (producer_core ctx, counter_delta (loc_before ! 0) (loc_after ! 0)) @
     loc_row (consumer_core ctx, counter_delta (loc_before ! 1) (loc_after ! 1))"

lemma print_latency_report:
  "report_print nanos (latency_report_of quantile hmax ours_NAME [] hist
     (loc_delta (used_cpu_ids ctx) loc_before loc_after)) =
   handoff_text nanos quantile hmax ctx loc_before loc_after hist"
  by (simp add: report_print_def latency_report_of_def report_rows_def banner_def ours_NAME_def loc_delta_def
      used_cpu_ids_def handoff_text_def)

lemma nth_ages:
  assumes "length ts = n" "length nows = n" "k < n - w"
  shows "map (\<lambda>(t, now). now - t) (drop w (zip ts nows)) ! k = nows ! (w + k) - (ts ! (w + k) :: u64)"
  using assms by (simp add: nth_drop)

lemma length_stamp_ages: "length (stamp_ages rs) \<le> length rs"
  by (induction rs rule: stamp_ages.induct) simp_all


section \<open>Properties\<close>

text \<open>
  What the SPSC handoff benchmark prints over the crate's queue under weak memory: the figures of a histogram
  with one sample for each of the \<open>n\<close> items but the first \<open>warmup\<close>, in order, each the time between the
  stamp of the item and its receipt, less the samples that \<open>record\<close> rejects, and the two cores with what their counters have grown by.
\<close>

theorem spsc_handoff_prints:
  assumes "is_power_of_two cap" "program_reach (spsc_handoff_program p c cap accepts cfg) s"
    and "run_spsc_handoff quantile hmax ctx loc_before loc_after s = Some r"
  shows "\<exists>xs. length xs = cfg_n cfg - cfg_warmup cfg \<and>
    (\<forall>k<length xs. xs ! k =
       hd_times (th_body s) ! (cfg_warmup cfg + k) - sp.got (hd_queue (th_body s)) ! (cfg_warmup cfg + k)) \<and>
    report_print nanos r = handoff_text nanos quantile hmax ctx loc_before loc_after (filter accepts xs)"
proof -
  let ?body = "hand_body cap accepts (cfg_warmup cfg)" and ?st = "harness_start p c"
  note init = hand_new_inv [OF assms(1), of "cfg_n cfg" accepts "cfg_warmup cfg"]
  have reach: "th_reach ?st ?body (hand_new cap (cfg_n cfg)) s"
    using assms(2) by (simp add: program_reach_def spsc_handoff_program_def)
  from assms(3) have main: "th_main s = MainReport"
    and r: "r = latency_report_of quantile hmax ours_NAME [] (hd_hist (th_body s)) (loc_delta (used_cpu_ids ctx) loc_before loc_after)"
    by (auto simp: run_spsc_handoff_def split: if_splits)
  from spsc_run.run_final [OF reach init main] have final: "hand_final (cfg_n cfg) accepts (cfg_warmup cfg) (th_body s)" .
  then show ?thesis
    unfolding r print_latency_report
    by (intro exI [of _ "map (\<lambda>(ts, now). now - ts)
        (drop (cfg_warmup cfg) (zip (sp.sent (hd_queue (th_body s))) (hd_times (th_body s))))"])
      (simp add: hand_final_def nth_ages)
qed

lemma demo_hand_times:
  "map_option (map_sum id (\<lambda>s. (th_main s, hd_times (th_body s), sp.got (hd_queue (th_body s)))))
     (program_run (demo_spsc_program True) hand_run_events) = Some (Inr (MainReport, [17], [10]))"
  by code_simp

definition demo_cores :: two_core_ctx where
  "demo_cores = \<lparr>producer_core = 2, consumer_core = 3, ctx_tsc_hz = 1000000000\<rparr>"

theorem spsc_handoff_prints_witness:
  "\<exists>s r. program_reach (demo_spsc_program True) s \<and>
     run_spsc_handoff (\<lambda>h q. hd h) hd demo_cores [Some 0, None] [Some 4, Some 1] s = Some r \<and>
     report_print id r = handoff_text id (\<lambda>h q. hd h) hd demo_cores [Some 0, None] [Some 4, Some 1] [7]"
proof -
  from demo_hand_times [unfolded program_run_iff] obtain s where
    s: "program_run (demo_spsc_program True) hand_run_events = Some (Inr s)" "th_main s = MainReport"
      "hd_times (th_body s) = [17]" "sp.got (hd_queue (th_body s)) = [10]" by auto
  from program_reach_run [OF s(1)] have reach: "program_reach (demo_spsc_program True) s" .
  from s(2) obtain r where r: "run_spsc_handoff (\<lambda>h q. hd h) hd demo_cores [Some 0, None] [Some 4, Some 1] s = Some r"
    by (simp add: run_spsc_handoff_def)
  from spsc_handoff_prints [OF demo_two_power reach [unfolded demo_spsc_program_def] r, of id] s(3,4) obtain hist where
    "length hist = 1" "hist ! 0 = 7"
    "report_print id r = handoff_text id (\<lambda>h q. hd h) hd demo_cores [Some 0, None] [Some 4, Some 1] (filter (\<lambda>_. True) hist)"
    by auto
  then have "hist = [7]" by (cases hist) auto
  with \<open>report_print id r = _\<close> reach r show ?thesis by auto
qed

text \<open>
  What the SPMC handoff benchmark prints over the crate's queue: the figures of a histogram with the age of each
  value received after the first \<open>warmup\<close> results that \<open>record\<close> takes; received and skipped together are the \<open>n\<close> published.
\<close>

theorem spmc_handoff_prints:
  assumes "is_power_of_two cap" "sh_n cfg \<le> 2 ^ 63" "program_reach (spmc_handoff_program p c cap accepts cfg) s"
    and "run_spmc_handoff quantile hmax ctx loc_before loc_after s = Some r"
  shows "report_print nanos r = handoff_text nanos quantile hmax ctx loc_before loc_after
      (filter accepts (stamp_ages (drop (sh_warmup cfg) (seen_results (ca_log (th_body s)))))) \<and>
    length (s_received (map fst (ca_log (th_body s)))) + s_skipped (map fst (ca_log (th_body s))) = sh_n cfg"
proof -
  let ?body = "cast_body cap accepts (sh_warmup cfg)" and ?st = "harness_start p c"
  have init: "cast_inv cap (sh_n cfg) accepts (sh_warmup cfg) (cast_new (sh_n cfg)) \<and> sh_n cfg \<le> 2 ^ 63"
    using cast_new_inv [OF assms(1)] assms(2) by blast
  have reach: "th_reach ?st ?body (cast_new (sh_n cfg)) s"
    using assms(3) by (simp add: program_reach_def spmc_handoff_program_def)
  from assms(4) have main: "th_main s = MainReport"
    and r: "r = latency_report_of quantile hmax ours_NAME [] (h_hist (ca_cons (th_body s)))
      (loc_delta (used_cpu_ids ctx) loc_before loc_after)"
    by (auto simp: run_spmc_handoff_def split: if_splits)
  from spmc_run.run_final [OF reach init main] have "cast_final (sh_n cfg) accepts (sh_warmup cfg) (th_body s)" .
  then show ?thesis unfolding r print_latency_report by (simp add: cast_final_def)
qed

lemma demo_cast_seen:
  "map_option (map_sum id (\<lambda>s. (th_main s, seen_results (ca_log (th_body s)))))
     (program_run demo_spmc_program cast_run_events) = Some (Inr (MainReport, [(SValue 20, 27)]))"
  by code_simp

theorem spmc_handoff_prints_witness:
  "\<exists>s r. program_reach demo_spmc_program s \<and>
     run_spmc_handoff (\<lambda>h q. hd h) hd demo_cores [Some 0, None] [Some 4, Some 1] s = Some r \<and>
     report_print id r = handoff_text id (\<lambda>h q. hd h) hd demo_cores [Some 0, None] [Some 4, Some 1] [7]"
proof -
  from demo_cast_seen [unfolded program_run_iff] obtain s where
    s: "program_run demo_spmc_program cast_run_events = Some (Inr s)" "th_main s = MainReport"
      "seen_results (ca_log (th_body s)) = [(SValue 20, 27)]" by auto
  from program_reach_run [OF s(1)] have reach: "program_reach demo_spmc_program s" .
  from s(2) obtain r where r: "run_spmc_handoff (\<lambda>h q. hd h) hd demo_cores [Some 0, None] [Some 4, Some 1] s = Some r"
    by (simp add: run_spmc_handoff_def)
  from spmc_handoff_prints [OF demo_two_power _ reach [unfolded demo_spmc_program_def] r, of id] s(3) reach r
  show ?thesis by auto
qed

end
