(* ===== verification/Spec2Isabelle.thy ===== *)
theory Spec2Isabelle
  imports Bench_Programs Micro_Benches Spmc_Test Seqlock_Blocking Spsc_Synchronised Spmc_Synchronised
    Seqlock_Synchronised Spmc_Progress Scenarios Seqlock_Clients Capacity_Sweep Debug_Text Spsc_Drop Thread_Safety
    Drivers Reports Shared_Lifetime Spmc_Window Seqlock_Test Test_Programs Console
    Handoff_Reports
begin

text \<open>
  Verification of low-latency-data-structures, a Rust crate with three bounded lock-free
  structures: a single-producer single-consumer queue (\<open>src/src/spsc\<close>), a single-producer broadcast
  queue whose slow consumers are overtaken (\<open>src/src/spmc\<close>), and a seqlock (\<open>src/src/seqlock\<close>). They
  share the allocation layer \<open>src/src/mem.rs\<close>. The crate's tests, its smoke binary, the benchmark
  harness under \<open>src/src/bench\<close> with its mains in \<open>src/examples\<close>, and the criterion benches in
  \<open>src/benches\<close> are clients of these.

  Two models of each structure. Every operation is translated twice from the same lines. First as a
  sequential function on the state the handles share (\<open>push\<close>, \<open>pop\<close> in \<open>Spsc_Queue\<close>; \<open>publish\<close>,
  \<open>try_read\<close> in \<open>Spmc_Queue\<close>; \<open>seqlock_write\<close>, \<open>seqlock_read\<close> in \<open>Seqlock\<close>): records with the fields
  of the Rust structs, \<open>usize\<close> as 64-bit words that wrap, a fault for every panic or undefined access,
  \<open>partial_function\<close> for the loops that need not end. Second as a step machine with one access to
  shared memory per step (\<open>Spsc_Concurrent\<close>, \<open>Spmc_Concurrent\<close>, \<open>Seqlock\<close>) on the memory of
  \<open>Weak_Memory\<close>: a history per location, a view per thread, release and acquire as transfer of views,
  and loads that may return stale entries. Each atomic of the crate is stored to by one thread only,
  which is the case in which this memory is the release/acquire fragment of the Rust model with
  fences and relaxed accesses. The machines detect data races on the slots of the SPSC queue; the
  value cells of the other two are read volatile while being written, so their parts are locations
  of their own and a copy can be torn.

  Theories.
  \<open>Prelude\<close>: words, wrapping counters, masked indices, lists.
  \<open>Mem\<close>: \<open>mem.rs\<close>. Regions of cells, hugepage and global allocators and the loom stand-in, with the
  system calls and the allocator of the process as parameters (\<open>libc\<close>, \<open>sys\<close>); the interface
  \<open>slot_allocator\<close> of the queues and its three interpretations.
  \<open>Ring\<close>: what a ring of slots holds.
  \<open>Spsc_Queue\<close>, \<open>Spsc_Concurrent\<close>, \<open>Spsc_Progress\<close>: \<open>spsc/queue.rs\<close>, \<open>producer.rs\<close>, \<open>consumer.rs\<close>.
  The interface \<open>bounded_fifo\<close>, which the sequential queue interprets with the list of queued items;
  the machine, its invariant, and the properties of its reachable states. \<open>Spsc_Drop\<close>: the end of a
  queue on the same memory, with the reference count of \<open>Arc\<close> and the loop of \<open>Queue::drop\<close>.
  \<open>Spmc_Queue\<close>, \<open>Spmc_Concurrent\<close>, \<open>Spmc_Progress\<close>: \<open>spmc/queue.rs\<close>, \<open>producer.rs\<close>, \<open>consumer.rs\<close>.
  The interface \<open>broadcast\<close>, interpreted with the log of published values; the machine with any
  number of consumers, created by cloning.
  \<open>Shared_Lifetime\<close>: the handles of the broadcast queue and of the seqlock, which can be cloned, from \<open>new\<close> to
  the drop of the last, over the reference count; the interface \<open>shared_object\<close>, interpreted with both machines.
  \<open>Weak_Memory\<close>, \<open>Seqlock\<close>, \<open>Seqlock_Progress\<close>, \<open>Seqlock_Blocking\<close>: the memory, and \<open>seqlock/lock.rs\<close>,
  \<open>reader.rs\<close>, with what a writer that stops in the middle does to the readers.
  \<open>Spsc_Synchronised\<close>, \<open>Spmc_Synchronised\<close>, \<open>Seqlock_Synchronised\<close>: the three machines once more, with
  threads that also synchronise by other means (any release by one, any acquire by another).
  \<open>Debug_Text\<close>: the \<open>Debug\<close> implementations of the handles.
  \<open>Thread_Safety\<close>: \<open>Send\<close>, \<open>Sync\<close>, \<open>Clone\<close> and \<open>Copy\<close> of the crate's types, derived from their fields and
  \<open>unsafe impl\<close>s by the rules of the language, and the static assertions of the source.
  \<open>Scenarios\<close>: \<open>spsc/builder.rs\<close>, the unit and loom tests, \<open>bin/smoke.rs\<close> and the hello examples,
  each as its calls and the answers it asserts. \<open>Spmc_Test\<close>: the test of the SPMC queue with threads,
  on the weak-memory machine with the flag \<open>done\<close>, from the clones to the joins. \<open>Test_Programs\<close>: the main of
  the smoke binary, the options of the test modules, and the loops of the tests that count heap blocks.
  \<open>Micro_Benches\<close>: the closures of \<open>benches/*/main.rs\<close>, iterated any number of times.
  \<open>Bench_Support\<close>, \<open>Bench_Spsc\<close>, \<open>Bench_Spmc\<close>: \<open>bench/harness\<close> (the SPSC handoff and throttled
  benchmarks, the SPMC handoff, lapped and capacity benchmarks, their adapters for the crate's own
  queues) and \<open>bench/fmt.rs\<close>, with the interfaces \<open>spsc_bench\<close> and \<open>overwriting_bench\<close> for the traits.
  \<open>Spsc_Shutdown\<close>, \<open>Spmc_Shutdown\<close>: the two handoff benchmarks once more, on the weak-memory machines of
  the queues, with the flag \<open>done\<close> as one more atomic. \<open>Spmc_Window\<close>: the lapped and the capacity benchmark on
  that machine, from the spawns to the joins, with the interface \<open>timed_reader\<close> for what their consumers note.
  \<open>Bench_Threads\<close>, \<open>Bench_Runs\<close>, \<open>Bench_Programs\<close>: what every benchmark does around its loops (spawn,
  pin to a core, wait at the barrier, work, join), for any two bodies; the interface \<open>correct_body\<close> for a
  body that keeps an invariant, meets no fault and can always go on until it returns; the benchmarks
  as programs over their bodies.
  \<open>Sweeps\<close>, \<open>Capacity_Sweep\<close>: the sweeps of the harness over rates, delays and capacities
  (\<open>run_spsc_throttled\<close>, \<open>run_spmc_lapped\<close>, \<open>run_spmc_capacity_sweep_one\<close>), a relation between a configuration and a report, since the interleavings and the clock are free.
  \<open>Seqlock_Clients\<close>: the test \<open>single_writer_multi_reader\<close> with its barrier, \<open>examples/seqlock\<close> (the
  handoff benchmark and hello), on the weak-memory machine of the lock. \<open>Seqlock_Test\<close>: the test to its joins.
  \<open>Adapters\<close>: the adapters for other packages, with the interface \<open>foreign_queue\<close> for what the packages
  document; it gives \<open>spsc_bench\<close> for every adapter, and the standard library's \<open>sync_channel\<close> keeps it.
  \<open>Bench_Drain\<close>: \<open>examples/spsc/bench_drain.rs\<close>. \<open>Drivers\<close>: the mains of the other benchmarks (what
  the environment and the features select, and when a main panics), the main of \<open>examples/seqlock\<close>, and
  \<open>bench/tsc.rs\<close>. \<open>Floats\<close>, \<open>Reports\<close>: rounding to \<open>f64\<close> as integer arithmetic, and the text the reports
  print (\<open>fmt::ns\<close>, the rows of \<open>report.rs\<close> and of the sweeps). \<open>Console\<close>: the main of the drain benchmark with
  all it prints, and the lines that the other mains print around their reports. \<open>Handoff_Reports\<close>: what the
  two handoff benchmarks return and print, from the end of the program on the weak-memory machine.
  \<open>Text\<close>, \<open>Preflight\<close>: \<open>bench/preflight.rs\<close>, \<open>bench/loc.rs\<close>, \<open>bench/harness/mod.rs\<close>, with the string
  operations of the standard library they use.

  What is shown.
  SPSC queue: no interleaving under weak memory reads an empty slot, overwrites a full one, races
  or leaves the allocation; items arrive in order with at most \<open>CAPACITY\<close> in between; both calls are
  wait-free; a call of the machine, whatever the other thread does between its steps, is the sequential
  call on a queue whose other counter is the entry it loaded, which may be stale but is not older than
  what the thread knew; any sequence of sequential calls answers as a bounded list, from any counter
  value; from \<open>new\<close> to the drop of both handles, in any order, each item accepted is returned or
  dropped once and the slots are freed once, by a thread that nobody else can race with.
  SPMC queue: every result of every consumer is explained by the published log (whole values at
  their position, laps only when more than \<open>CAPACITY\<close> behind, skips that account for the missed
  values); a consumer misses nothing while at most \<open>CAPACITY\<close> values are published past the position it
  started from; sequential calls answer as the log does; \<open>publish\<close> always ends and is the sequential one;
  a \<open>try_read\<close> whose loads return the newest entries ends once no publish is in progress and is the
  sequential one, and a consumer that knows the newest entries has no other run; the memory is freed with the last
  handle, whichever it is, and no access comes after that or races with it (of the seqlock as well).
  All three: a call respects what happened before it by any other means. A \<open>pop\<close> or \<open>try_read\<close> does not
  miss a value, a \<open>push\<close> is not refused for a slot, and a read of the seqlock is not older than a write
  that its thread has been told of, directly or through a reader.
  Seqlock: a read returns a whole written value, never torn and never older than an earlier read;
  a torn copy makes the reader retry; writes always end; with the writer idle, a read whose
  loads return the newest entries ends and is the sequential one (the only run of a reader that knows them);
  a writer suspended between its two stores of the number blocks every reader that has seen the first.
  Types: producers, consumers, writers and readers cannot be shared between threads, and only those
  that the documentation says can be cloned can be; the handles of a queue may be sent when its items
  and the \<open>Allocation\<close> of its allocator, of the crate or of a user of it, may be.
  Allocators: sizes do not wrap, regions hold the items, flags name the size, and the one hole: the
  global allocator does not treat zero-sized items apart.
  Clients: the tests' assertions follow from the properties of the structures, with the one that can
  fail and the only way in which it does; no benchmark loses an item or deadlocks at shutdown, where the
  release and acquire of \<open>done\<close> are what makes the last items visible to the consumer; with pinned threads
  every benchmark runs from its spawns to its joins, and with one that cannot be pinned it hangs; its
  counters and histograms are the ones documented, the figures printed are within 0.00501 of the exact
  ones, the fixed-point schedule stays within a tick; the reports of the sweeps have a row per
  configured rate, delay or capacity whose figures add up; the lapped and capacity benchmarks, whose reads overlap
  publishes all the time, receive increasing published numbers and count every result after the warmup;
  the drain benchmark runs to its end and each row shows two medians; the smoke binary returns; the
  readers of the seqlock test and benchmark collect what was written, in order and once, and the barrier of
  the test never holds all its threads; the handoff
  benchmark is right over an adapted channel; the mains measure what the environment names; cpu lists,
  interrupt tables and the conditions under which a benchmark refuses to run.

  Bounds. The log of the broadcast queue and of the seqlock has at most \<open>2 ^ 63\<close> entries where the
  code compares sequence numbers for equality only: a sequence number repeats after \<open>2 ^ 63\<close> writes to
  a slot, and then a stale read would pass (at a write per nanosecond this is 292 years). The SPSC
  queue needs no bound for correctness; its counters may wrap. The runs to the end of a call use fuel:
  3 steps for \<open>push\<close> and \<open>pop\<close>, \<open>n + 5\<close> for \<open>publish\<close>, \<open>n + 4\<close> for \<open>try_read\<close> and \<open>seqlock_write\<close>,
  \<open>2 n + 6\<close> for a read in progress, for values of \<open>n\<close> parts; the theorems show that the call has
  ended by then. A benchmark's consumer ends within three calls more than items are
  queued; on the machine, within five steps for each queued item and four more (SPSC), or eight for
  each value outstanding and seven more (SPMC). A thread has five steps before its body. The drop of a
  queue takes a step per item left and four more. Printed percentages are of counts below \<open>2 ^ 53\<close>.

  Assumptions. The target is x86_64 (\<open>usize\<close> has 64 bits). Atomics are single-writer because the
  crate's types cannot clone or share a producer or writer, which is what \<open>Thread_Safety\<close> derives.
  \<open>CachePadded\<close> only moves its content. In the models of the throttled, lapped and capacity
  benchmarks one call of a queue is one step: for the SPSC queue this is the refinement of the machine to
  sequential calls; for the SPMC queue it holds for reads that do not overlap a publish, and a read that
  does is covered by the properties of the machine, and the lapped and capacity benchmarks are also on it
  (\<open>Spmc_Window\<close>). The handoff benchmarks, the seqlock benchmark and the concurrent tests do not rest on it. 
  A histogram is the list of the samples it holds. Which values \<open>record\<close> takes is the package's to say: it is
  the parameter \<open>accepts\<close> of the handoff, throttled and seqlock benchmarks, and a value that is not taken
  is dropped in silence, as the code drops the error. The histograms of the lapped and capacity benchmarks take
  counts and gaps, which \<open>record\<close> of a histogram made by \<open>new\<close> takes, as it grows.

  Not modelled: the packages behind the adapters; the counter of heap blocks of \<open>dhat\<close> (the operations of
  the model do not reach an allocator at all); a \<open>Reader\<close> lent to several threads; what criterion does with
  its timings; \<open>NeverAllocator\<close>, a stub of the tests whose operations panic; and the conditional
  re-exports of \<open>shim\<close> and \<open>lib.rs\<close>.
\<close>

end
